(* ===== verification/R7z_Prelude.thy ===== *)
theory R7z_Prelude
  imports Main "HOL-Library.Word"
begin

text \<open>
  Shared vocabulary of the r7z development: machine integers, byte strings,
  Rust's \<open>Result\<close> with its \<open>?\<close> operator, the errors of the crate, the part of
  the parser library nom that the sources call, and the laws a nom-style parser
  obeys, stated once as locales.

  Integers. A \<open>u8\<close>, \<open>u16\<close>, \<open>u32\<close> or \<open>u64\<close> of the source is a word of that
  width, so its arithmetic wraps and its shifts drop bits. A \<open>usize\<close> is a
  natural number, and each \<open>checked_\<close> operation on it compares with
  \<open>2 ^ 64\<close>: the development is about a target with 64-bit pointers. The branches the
  code has for narrower targets (a failing \<open>usize::try_from\<close>) are kept.
\<close>

unbundle bit_operations_syntax

named_theorems parser_laws \<open>what a parser consumes and that it looks no further\<close>
named_theorems parser_eval \<open>what a parser returns on the encoding of a value\<close>
named_theorems shrinks \<open>a parser never returns more input than it was given\<close>

type_synonym u8 = "8 word"
type_synonym u16 = "16 word"
type_synonym u32 = "32 word"
type_synonym u64 = "64 word"
type_synonym bytes = "u8 list"


section \<open>Results\<close>

datatype ('e, 'a) result = Err 'e | Ok 'a

text \<open>The \<open>?\<close> operator and \<open>Result::and_then\<close>: go on with the value, or return the error.\<close>

fun and_then :: "('e, 'a) result \<Rightarrow> ('a \<Rightarrow> ('e, 'b) result) \<Rightarrow> ('e, 'b) result" where
  "and_then (Err e) f = Err e"
| "and_then (Ok x) f = f x"

fun map_err :: "('e \<Rightarrow> 'f) \<Rightarrow> ('e, 'a) result \<Rightarrow> ('f, 'a) result" where
  "map_err g (Err e) = Err (g e)"
| "map_err g (Ok x) = Ok x"

fun ok_or :: "'e \<Rightarrow> 'a option \<Rightarrow> ('e, 'a) result" where
  "ok_or e None = Err e"
| "ok_or e (Some x) = Ok x"

fun is_ok :: "('e, 'a) result \<Rightarrow> bool" where
  "is_ok (Ok x) = True"
| "is_ok (Err e) = False"

lemma and_then_cong [fundef_cong]:
  "m = m' \<Longrightarrow> (\<And>x. m' = Ok x \<Longrightarrow> f x = g x) \<Longrightarrow> and_then m f = and_then m' g"
  by (cases m') auto

lemma and_then_eq_Ok [simp]: "and_then m f = Ok y \<longleftrightarrow> (\<exists>x. m = Ok x \<and> f x = Ok y)"
  by (cases m) auto

lemma and_then_eq_Err: "and_then m f = Err e \<longleftrightarrow> m = Err e \<or> (\<exists>x. m = Ok x \<and> f x = Err e)"
  by (cases m) auto

lemma and_then_assoc: "and_then (and_then m f) g = and_then m (\<lambda>x. and_then (f x) g)"
  by (cases m) auto

lemma map_err_eq_Ok [simp]: "map_err g m = Ok y \<longleftrightarrow> m = Ok y"
  by (cases m) auto

lemma ok_or_eq_Ok [simp]: "ok_or e m = Ok y \<longleftrightarrow> m = Some y"
  by (cases m) auto

lemma is_ok_iff: "is_ok m \<longleftrightarrow> (\<exists>x. m = Ok x)"
  by (cases m) auto


section \<open>Checked arithmetic\<close>

abbreviation usize_limit :: nat where
  "usize_limit \<equiv> 18446744073709551616"

definition usize_try_from :: "u64 \<Rightarrow> nat option" where
  "usize_try_from n = (if unat n < usize_limit then Some (unat n) else None)"

definition usize_checked_add :: "nat \<Rightarrow> nat \<Rightarrow> nat option" where
  "usize_checked_add a b = (if a + b < usize_limit then Some (a + b) else None)"

definition usize_checked_mul :: "nat \<Rightarrow> nat \<Rightarrow> nat option" where
  "usize_checked_mul a b = (if a * b < usize_limit then Some (a * b) else None)"

definition checked_sub :: "nat \<Rightarrow> nat \<Rightarrow> nat option" where
  "checked_sub a b = (if b \<le> a then Some (a - b) else None)"

definition u64_checked_add :: "u64 \<Rightarrow> u64 \<Rightarrow> u64 option" where
  "u64_checked_add a b = (if unat a + unat b < 2 ^ 64 then Some (a + b) else None)"

definition u64_checked_sub :: "u64 \<Rightarrow> u64 \<Rightarrow> u64 option" where
  "u64_checked_sub a b = (if b \<le> a then Some (a - b) else None)"

definition u32_try_from_usize :: "nat \<Rightarrow> u32 option" where
  "u32_try_from_usize n = (if n < 2 ^ 32 then Some (of_nat n) else None)"

text \<open>On a 64-bit target every \<open>u64\<close> is a \<open>usize\<close>.\<close>

lemma usize_try_from_total [simp]: "usize_try_from n = Some (unat n)"
  using unsigned_less [of n] by (simp add: usize_try_from_def)

lemma unat_u64_less: "unat (n :: u64) < 18446744073709551616"
  using unsigned_less [of n] by simp

lemma unat_u64_max: "unat (- 1 :: u64) = 18446744073709551615"
  by (simp add: unsigned_minus_1_eq_mask mask_eq_exp_minus_1)

lemma usize_checked_add_eq_Some [simp]:
  "usize_checked_add a b = Some c \<longleftrightarrow> c = a + b \<and> a + b < usize_limit"
  by (auto simp: usize_checked_add_def)

lemma usize_checked_mul_eq_Some [simp]:
  "usize_checked_mul a b = Some c \<longleftrightarrow> c = a * b \<and> a * b < usize_limit"
  by (auto simp: usize_checked_mul_def)

lemma checked_sub_eq_Some [simp]: "checked_sub a b = Some c \<longleftrightarrow> a = b + c"
  by (auto simp: checked_sub_def)

lemma u64_checked_add_eq_Some:
  "u64_checked_add a b = Some c \<longleftrightarrow> unat c = unat a + unat b"
proof
  assume "u64_checked_add a b = Some c"
  then show "unat c = unat a + unat b"
    by (auto simp: u64_checked_add_def unat_word_ariths split: if_splits)
next
  assume c: "unat c = unat a + unat b"
  moreover have "unat c < 2 ^ 64"
    using unsigned_less [of c] by simp
  moreover have "c = a + b"
    using calculation by (simp add: word_unat_eq_iff unat_word_ariths)
  ultimately show "u64_checked_add a b = Some c"
    by (simp add: u64_checked_add_def)
qed

lemma u64_checked_sub_eq_Some:
  "u64_checked_sub a b = Some c \<longleftrightarrow> unat a = unat b + unat c"
proof
  assume "u64_checked_sub a b = Some c"
  then show "unat a = unat b + unat c"
    by (auto simp: u64_checked_sub_def unat_sub word_le_nat_alt split: if_splits)
next
  assume a: "unat a = unat b + unat c"
  then have "b \<le> a"
    by (simp add: word_le_nat_alt)
  moreover from this a have "c = a - b"
    by (simp add: word_unat_eq_iff unat_sub)
  ultimately show "u64_checked_sub a b = Some c"
    by (simp add: u64_checked_sub_def)
qed

lemma u32_try_from_usize_eq_Some:
  "u32_try_from_usize n = Some w \<longleftrightarrow> n < 2 ^ 32 \<and> unat w = n"
  by (auto simp: u32_try_from_usize_def unat_of_nat)

definition div_ceil :: "nat \<Rightarrow> nat \<Rightarrow> nat" where
  "div_ceil n d = (n + (d - 1)) div d"


section \<open>Slices\<close>

text \<open>\<open>xs.get(i)\<close> and \<open>xs.get(a..b)\<close>.\<close>

definition get :: "'a list \<Rightarrow> nat \<Rightarrow> 'a option" where
  "get xs i = (if i < length xs then Some (xs ! i) else None)"

definition get_range :: "'a list \<Rightarrow> nat \<Rightarrow> nat \<Rightarrow> 'a list option" where
  "get_range xs a b = (if a \<le> b \<and> b \<le> length xs then Some (take (b - a) (drop a xs)) else None)"

definition get_from :: "'a list \<Rightarrow> nat \<Rightarrow> 'a list option" where
  "get_from xs a = (if a \<le> length xs then Some (drop a xs) else None)"

lemma get_eq_Some [simp]: "get xs i = Some x \<longleftrightarrow> i < length xs \<and> x = xs ! i"
  by (auto simp: get_def)

lemma get_range_eq_Some:
  "get_range xs a b = Some ys \<longleftrightarrow> a \<le> b \<and> b \<le> length xs \<and> ys = take (b - a) (drop a xs)"
  by (auto simp: get_range_def)


lemma list_update_Cons_numeral [simp]: "(x # xs)[numeral k := v] = x # xs[pred_numeral k := v]"
  by (simp add: numeral_eq_Suc)


section \<open>Little-endian integers\<close>

fun from_le_bytes :: "bytes \<Rightarrow> 'n::len word" where
  "from_le_bytes [] = 0"
| "from_le_bytes (b # bs) = ucast b OR push_bit 8 (from_le_bytes bs)"

definition to_le_bytes :: "nat \<Rightarrow> 'n::len word \<Rightarrow> bytes" where
  "to_le_bytes n w = map (\<lambda>i. ucast (drop_bit (8 * i) w)) [0..<n]"

lemma length_to_le_bytes [simp]: "length (to_le_bytes n w) = n"
  by (simp add: to_le_bytes_def)

lemma to_le_bytes_Suc: "to_le_bytes (Suc n) w = ucast w # to_le_bytes n (drop_bit 8 w)"
proof -
  have "[0..<Suc n] = 0 # map Suc [0..<n]"
    by (simp add: upt_conv_Cons map_Suc_upt)
  then show ?thesis
    by (simp add: to_le_bytes_def o_def ac_simps)
qed

lemma bit_from_le_to_le:
  "bit (from_le_bytes (to_le_bytes n w) :: 'n::len word) k \<longleftrightarrow> k < 8 * n \<and> bit (w :: 'n word) k"
proof (induction n arbitrary: w k)
  case 0
  show ?case by (simp add: to_le_bytes_def)
next
  case (Suc n)
  show ?case
    using bit_imp_le_length [of w k]
    by (auto simp: to_le_bytes_Suc bit_simps Suc.IH)
qed

lemma from_le_to_le:
  "LENGTH('n) \<le> 8 * n \<Longrightarrow> from_le_bytes (to_le_bytes n w) = (w :: 'n::len word)"
  by (rule bit_word_eqI) (auto simp: bit_from_le_to_le)

lemma from_le_to_le_u32 [simp]: "from_le_bytes (to_le_bytes 4 w) = (w :: u32)"
  by (rule from_le_to_le) simp

lemma from_le_to_le_u64 [simp]: "from_le_bytes (to_le_bytes 8 w) = (w :: u64)"
  by (rule from_le_to_le) simp

lemma from_le_to_le_u16 [simp]: "from_le_bytes (to_le_bytes 2 w) = (w :: u16)"
  by (rule from_le_to_le) simp


section \<open>Errors\<close>

text \<open>The error kinds of nom the sources use, and \<open>nom::Err\<close> over a byte slice.\<close>

datatype error_kind = Eof | Satisfy | Verify | TooLarge

datatype nom_err = Incomplete | Error bytes error_kind | Failure bytes error_kind

type_synonym 'a iresult = "(nom_err, bytes \<times> 'a) result"
type_synonym 'a nom_result = "(nom_err, 'a) result"


section \<open>The parser library\<close>

text \<open>
  \<open>nom::bytes::complete::take\<close>, \<open>nom::number::complete::{le_u8, le_u32}\<close> and the check at the
  end of \<open>nom::combinator::all_consuming\<close> are not part of the repository. They are a parameter
  of every definition that calls them: a value of the type \<open>nom\<close>, four functions of which only
  the documented behaviour is known, \<open>nom_documented\<close>: enough input gives the value and the
  rest of the input, too little is a recoverable error of kind \<open>Eof\<close> at that input; input
  left over at the end is an error of kind \<open>Eof\<close> there.
\<close>

definition nom_documented ::
  "(nat \<Rightarrow> bytes \<Rightarrow> bytes iresult) \<Rightarrow> (bytes \<Rightarrow> u8 iresult) \<Rightarrow> (bytes \<Rightarrow> u32 iresult) \<Rightarrow>
   (bytes \<Rightarrow> unit iresult) \<Rightarrow> bool"
  where
  "nom_documented tk l8 l32 fin \<longleftrightarrow>
     (\<forall>n i. tk n i = (if n \<le> length i then Ok (drop n i, take n i) else Err (Error i Eof))) \<and>
     (\<forall>i. l8 i = (case i of [] \<Rightarrow> Err (Error i Eof) | b # r \<Rightarrow> Ok (r, b))) \<and>
     (\<forall>i. l32 i = (if 4 \<le> length i then Ok (drop 4 i, from_le_bytes (take 4 i))
                   else Err (Error i Eof))) \<and>
     (\<forall>i. fin i = (if i = [] then Ok (i, ()) else Err (Error i Eof)))"

typedef nom = "{(tk, l8, l32, fin). nom_documented tk l8 l32 fin}"
proof -
  define tk :: "nat \<Rightarrow> bytes \<Rightarrow> bytes iresult" where
    "tk n i = (if n \<le> length i then Ok (drop n i, take n i) else Err (Error i Eof))" for n i
  define l8 :: "bytes \<Rightarrow> u8 iresult" where
    "l8 i = (case i of [] \<Rightarrow> Err (Error i Eof) | b # r \<Rightarrow> Ok (r, b))" for i
  define l32 :: "bytes \<Rightarrow> u32 iresult" where
    "l32 i = (if 4 \<le> length i then Ok (drop 4 i, from_le_bytes (take 4 i)) else Err (Error i Eof))" for i
  define fin :: "bytes \<Rightarrow> unit iresult" where
    "fin i = (if i = [] then Ok (i, ()) else Err (Error i Eof))" for i
  have "nom_documented tk l8 l32 fin"
    by (simp add: nom_documented_def tk_def l8_def l32_def fin_def)
  then show ?thesis by blast
qed

definition nom_take :: "nom \<Rightarrow> nat \<Rightarrow> bytes \<Rightarrow> bytes iresult" where
  "nom_take N = fst (Rep_nom N)"

definition nom_le_u8 :: "nom \<Rightarrow> bytes \<Rightarrow> u8 iresult" where
  "nom_le_u8 N = fst (snd (Rep_nom N))"

definition nom_le_u32 :: "nom \<Rightarrow> bytes \<Rightarrow> u32 iresult" where
  "nom_le_u32 N = fst (snd (snd (Rep_nom N)))"

definition nom_finished :: "nom \<Rightarrow> bytes \<Rightarrow> unit iresult" where
  "nom_finished N = snd (snd (snd (Rep_nom N)))"

lemma nom_contract: "nom_documented (nom_take N) (nom_le_u8 N) (nom_le_u32 N) (nom_finished N)"
  using Rep_nom [of N] by (auto simp: nom_take_def nom_le_u8_def nom_le_u32_def nom_finished_def)

lemma nom_take_eq [simp, code]:
  "nom_take N n i = (if n \<le> length i then Ok (drop n i, take n i) else Err (Error i Eof))"
  using nom_contract [of N] by (simp add: nom_documented_def)

lemma nom_le_u8_eq [simp, code]:
  "nom_le_u8 N i = (case i of [] \<Rightarrow> Err (Error i Eof) | b # r \<Rightarrow> Ok (r, b))"
  using nom_contract [of N] by (simp add: nom_documented_def)

lemma nom_le_u32_eq [code]:
  "nom_le_u32 N i = (if 4 \<le> length i then Ok (drop 4 i, from_le_bytes (take 4 i))
                     else Err (Error i Eof))"
  using nom_contract [of N] by (simp add: nom_documented_def)


lemma nom_finished_eq [code]:
  "nom_finished N i = (if i = [] then Ok (i, ()) else Err (Error i Eof))"
  using nom_contract [of N] by (simp add: nom_documented_def)

text \<open>The documented behaviour is consistent: a concrete instance, used to run examples.\<close>

definition nom_reference :: nom where
  "nom_reference = Abs_nom
     (\<lambda>n i. if n \<le> length i then Ok (drop n i, take n i) else Err (Error i Eof),
      \<lambda>i. case i of [] \<Rightarrow> Err (Error i Eof) | b # r \<Rightarrow> Ok (r, b),
      \<lambda>i. if 4 \<le> length i then Ok (drop 4 i, from_le_bytes (take 4 i)) else Err (Error i Eof),
      \<lambda>i. if i = [] then Ok (i, ()) else Err (Error i Eof))"


section \<open>Parsers and their laws\<close>

text \<open>
  \<open>parses p pre x\<close>: in front of any further input, \<open>p\<close> consumes exactly \<open>pre\<close> and
  returns \<open>x\<close>. This is both the law every parser of the format obeys (what it returns depends
  on what it consumed only) and the shape of a round trip (\<open>pre\<close> is the encoding of \<open>x\<close>).
\<close>

definition parses :: "(bytes \<Rightarrow> 'a iresult) \<Rightarrow> bytes \<Rightarrow> 'a \<Rightarrow> bool" where
  "parses p pre x \<longleftrightarrow> (\<forall>r. p (pre @ r) = Ok (r, x))"

locale parser =
  fixes p :: "bytes \<Rightarrow> 'a iresult"
  assumes local: "p i = Ok (r, x) \<Longrightarrow> \<exists>pre. i = pre @ r \<and> parses p pre x"
begin

lemma shrink: "p i = Ok (r, x) \<Longrightarrow> length r \<le> length i"
  using local by fastforce

lemma extend: "p i = Ok (r, x) \<Longrightarrow> p (i @ more) = Ok (r @ more, x)"
  using local by (fastforce simp: parses_def)

text \<open>Cutting the input where the parser stopped gives the same value and nothing left.\<close>

lemma cut: "p i = Ok (r, x) \<Longrightarrow> p (take (length i - length r) i) = Ok ([], x)"
  using local [of i r x] by (auto simp: parses_def) (metis append_Nil2)

lemma same_consumed:
  assumes "p (pre @ r) = Ok (r, x)"
  shows "p (pre @ r') = Ok (r', x)"
  using local [OF assms] by (auto simp: parses_def)

end

text \<open>A parser that always makes progress: the loops that call it end.\<close>

locale progress_parser = parser +
  assumes progress: "p i = Ok (r, x) \<Longrightarrow> length r < length i"

lemma parserI:
  assumes "\<And>i r x. p i = Ok (r, x) \<Longrightarrow> \<exists>pre. i = pre @ r \<and> (\<forall>r'. p (pre @ r') = Ok (r', x))"
  shows "parser p"
  using assms by (auto simp: parser_def parses_def)

lemma parserE:
  assumes "parser p" and "p i = Ok (r, x)"
  obtains pre where "i = pre @ r" and "\<And>r'. p (pre @ r') = Ok (r', x)"
  using parser.local [OF assms] by (auto simp: parses_def)

lemma parser_return [parser_laws]: "parser (\<lambda>i. Ok (i, x))"
  by (rule parserI) auto

lemma parser_fail [parser_laws]: "parser (\<lambda>i. Err (e i))"
  by (rule parserI) auto

lemma parser_if [parser_laws]: "parser p \<Longrightarrow> parser q \<Longrightarrow> parser (\<lambda>i. if b then p i else q i)"
  by (cases b) auto

text \<open>
  Sequencing. The continuation may also look at the input the first parser saw
  (the sources attach it to their errors), as long as that does not change a success.
\<close>

lemma parser_bind_orig:
  assumes p: "parser p" and f: "\<And>i x. parser (f i x)"
    and same: "\<And>i i' x j y. f i x j = Ok y \<Longrightarrow> f i' x j = Ok y"
  shows "parser (\<lambda>i. and_then (p i) (\<lambda>(j, x). f i x j))"
proof (rule parserI)
  fix i r y
  assume "and_then (p i) (\<lambda>(j, x). f i x j) = Ok (r, y)"
  then obtain j x where px: "p i = Ok (j, x)" and fx: "f i x j = Ok (r, y)"
    by auto
  from parserE [OF p px] obtain a where a: "i = a @ j" "\<And>r'. p (a @ r') = Ok (r', x)"
    by metis
  from parserE [OF f fx] obtain b where b: "j = b @ r" "\<And>r'. f i x (b @ r') = Ok (r', y)"
    by metis
  have "and_then (p ((a @ b) @ r')) (\<lambda>(j, x). f ((a @ b) @ r') x j) = Ok (r', y)" for r'
    using a(2) [of "b @ r'"] same [OF b(2)] by simp
  moreover have "i = (a @ b) @ r"
    using a b by simp
  ultimately show "\<exists>pre. i = pre @ r \<and>
      (\<forall>r'. and_then (p (pre @ r')) (\<lambda>(j, x). f (pre @ r') x j) = Ok (r', y))"
    by blast
qed

lemma if_Err_cong: "(if b then Err e else m) = Ok y \<Longrightarrow> (if b then Err e' else m) = Ok y"
  by (simp split: if_splits)

lemma parser_bind [parser_laws]:
  assumes "parser p" and "\<And>x. parser (f x)"
  shows "parser (\<lambda>i. and_then (p i) (\<lambda>(j, x). f x j))"
  using parser_bind_orig [of p "\<lambda>_. f"] assms by simp

lemma parser_prod [parser_laws]:
  "(\<And>a b. parser (f a b)) \<Longrightarrow> parser (\<lambda>i. case x of (a, b) \<Rightarrow> f a b i)"
  by (cases x) simp

text \<open>
  A check that looks at the input only to report an error: \<open>input_free g\<close>.
\<close>

definition input_free :: "(bytes \<Rightarrow> 'a nom_result) \<Rightarrow> bool" where
  "input_free g \<longleftrightarrow> (\<forall>i j x. g i = Ok x \<longrightarrow> g j = Ok x)"

lemma parser_check:
  assumes g: "input_free g" and f: "\<And>x. parser (f x)"
  shows "parser (\<lambda>i. and_then (g i) (\<lambda>x. f x i))"
proof (cases "\<exists>i x. g i = Ok x")
  case True
  then obtain x where "\<And>j. g j = Ok x"
    using g unfolding input_free_def by blast
  then show ?thesis using f by simp
next
  case False
  then have no: "g i \<noteq> Ok x" for i x by blast
  show ?thesis by (rule parserI) (simp add: no)
qed

lemma parser_cong:
  assumes "parser p" and "\<And>i y. q i = Ok y \<longleftrightarrow> p i = Ok y"
  shows "parser q"
  using assms by (simp add: parser_def parses_def)


subsection \<open>Counted repetition\<close>

text \<open>The loop \<open>for _ in 0..n { let (i, x) = p(input)?; xs.push(x); input = i; }\<close>.\<close>

fun repeat_p :: "(bytes \<Rightarrow> 'a iresult) \<Rightarrow> nat \<Rightarrow> bytes \<Rightarrow> 'a list iresult" where
  "repeat_p p 0 i = Ok (i, [])"
| "repeat_p p (Suc n) i =
     and_then (p i) (\<lambda>(i, x). and_then (repeat_p p n i) (\<lambda>(i, xs). Ok (i, x # xs)))"

text \<open>The same loop in a scanner, which keeps no value.\<close>

fun skip_p :: "(bytes \<Rightarrow> 'a iresult) \<Rightarrow> nat \<Rightarrow> bytes \<Rightarrow> unit iresult" where
  "skip_p p 0 i = Ok (i, ())"
| "skip_p p (Suc n) i = and_then (p i) (\<lambda>(i, x). skip_p p n i)"

lemma repeat_p_length: "repeat_p p n i = Ok (r, xs) \<Longrightarrow> length xs = n"
  by (induction n arbitrary: i xs) fastforce+

lemma skip_p_iff_repeat_p: "skip_p p n i = Ok (r, ()) \<longleftrightarrow> (\<exists>xs. repeat_p p n i = Ok (r, xs))"
  by (induction n arbitrary: i) fastforce+

lemma skip_p_eq_repeat_p:
  "skip_p p n i = and_then (repeat_p p n i) (\<lambda>(r, xs). Ok (r, ()))"
proof (induction n arbitrary: i)
  case (Suc n)
  show ?case
  proof (cases "p i")
    case (Ok y)
    then show ?thesis
      by (cases "repeat_p p n (fst y)") (auto simp: Suc split: prod.split)
  qed simp
qed simp

context parser
begin

lemma parser_repeat: "parser (repeat_p p n)"
proof (induction n)
  case 0
  show ?case by (rule parserI) auto
next
  case (Suc n)
  have "parser p" by unfold_locales
  moreover have "parser (\<lambda>i. and_then (repeat_p p n i) (\<lambda>(i, xs). Ok (i, x # xs)))" for x
    by (rule parser_bind [OF Suc]) (rule parser_return)
  ultimately have "parser (\<lambda>i. and_then (p i) (\<lambda>(i, x).
      and_then (repeat_p p n i) (\<lambda>(i, xs). Ok (i, x # xs))))"
    by (rule parser_bind)
  then show ?case by simp
qed

end

context progress_parser
begin

lemma repeat_consumes: "repeat_p p n i = Ok (r, xs) \<Longrightarrow> n + length r \<le> length i"
proof (induction n arbitrary: i xs)
  case (Suc n)
  then show ?case by (fastforce dest: progress)
qed simp

end


subsection \<open>Codecs: a parser with an encoder\<close>

locale codec = parser p for p :: "bytes \<Rightarrow> 'a iresult" +
  fixes enc :: "'a \<Rightarrow> bytes"
  assumes round_trip: "parses p (enc x) x"
begin

lemma decode_encode: "p (enc x @ r) = Ok (r, x)"
  using round_trip by (simp add: parses_def)

lemma enc_prefix_free:
  assumes "enc x @ r = enc y @ s"
  shows "x = y \<and> r = s"
proof -
  have "Ok (r, x) = p (enc y @ s)"
    unfolding assms [symmetric] by (rule decode_encode [symmetric])
  then show ?thesis by (simp add: decode_encode)
qed

lemma repeat_decode: "repeat_p p (length xs) (concat (map enc xs) @ r) = Ok (r, xs)"
  by (induction xs) (simp_all add: decode_encode)

lemma skip_decode: "skip_p p (length xs) (concat (map enc xs) @ r) = Ok (r, ())"
  by (induction xs) (simp_all add: decode_encode)

end


subsection \<open>Scanners: a parser that keeps nothing\<close>

text \<open>
  The reader validates a header with scanners and parses it later. The contract between the
  two: on an input that fits in memory the scanner succeeds exactly when the parser does, leaves
  the same input, and returns what it is supposed to know of the parsed value, \<open>obs\<close>.
\<close>

definition same_rest :: "'s iresult \<Rightarrow> 'a iresult \<Rightarrow> bool" where
  "same_rest a b \<longleftrightarrow> (\<forall>r. (\<exists>s. a = Ok (r, s)) \<longleftrightarrow> (\<exists>x. b = Ok (r, x)))"

lemma same_rest_refl [simp]: "same_rest a a"
  by (simp add: same_rest_def)

lemma same_rest_Ok [simp]: "same_rest (Ok (r, s)) (Ok (r', x)) \<longleftrightarrow> r = r'"
  by (auto simp: same_rest_def)

lemma same_rest_Err [simp]: "same_rest (Err e) (Err e')"
  by (simp add: same_rest_def)

lemma same_rest_bind:
  assumes "same_rest a b"
    and "\<And>r s x. a = Ok (r, s) \<Longrightarrow> b = Ok (r, x) \<Longrightarrow> same_rest (f (r, s)) (g (r, x))"
  shows "same_rest (and_then a f) (and_then b g)"
proof (cases a)
  case (Err e)
  then have "b \<noteq> Ok (r, x)" for r x using assms(1) by (auto simp: same_rest_def)
  then show ?thesis using Err by (cases b) (auto simp: same_rest_def)
next
  case (Ok y)
  then obtain r s where a: "a = Ok (r, s)" by (cases y) simp
  then obtain x where "b = Ok (r, x)" using assms(1) by (fastforce simp: same_rest_def)
  then show ?thesis using a assms(2) by simp
qed

lemma same_rest_bind_same:
  "(\<And>r x. a = Ok (r, x) \<Longrightarrow> same_rest (f (r, x)) (g (r, x))) \<Longrightarrow>
     same_rest (and_then a f) (and_then a g)"
proof (cases a)
  case (Ok y)
  assume "\<And>r x. a = Ok (r, x) \<Longrightarrow> same_rest (f (r, x)) (g (r, x))"
  with Ok show ?thesis by (cases y) simp
qed (simp add: same_rest_def)

lemma same_rest_value: "same_rest a b \<Longrightarrow> same_rest a (and_then b (\<lambda>(r, x). Ok (r, v x)))"
  by (auto simp: same_rest_def)

lemma same_rest_skip_repeat: "same_rest (skip_p p n i) (repeat_p p n i)"
  by (simp add: same_rest_def skip_p_iff_repeat_p flip: unit_eq)

locale scan_agrees =
  fixes scan :: "bytes \<Rightarrow> 's iresult" and parse :: "bytes \<Rightarrow> 'a iresult" and obs :: "'a \<Rightarrow> 's"
  assumes agrees: "length i < usize_limit \<Longrightarrow>
    scan i = Ok (r, s) \<longleftrightarrow> (\<exists>x. parse i = Ok (r, x) \<and> s = obs x)"
begin

lemma accepted: "length i < usize_limit \<Longrightarrow> scan i = Ok (r, s) \<Longrightarrow> \<exists>x. parse i = Ok (r, x) \<and> obs x = s"
  using agrees [of i r s] by auto

lemma refused: "length i < usize_limit \<Longrightarrow> \<not> is_ok (scan i) \<longleftrightarrow> \<not> is_ok (parse i)"
  using agrees [of i] by (fastforce simp: is_ok_iff)

end

end
