(* ===== verification/Parsers.thy ===== *)
theory Parsers
  imports R7z_Prelude
begin

text \<open>
  \<^verbatim>\<open>src/src/parsers.rs\<close>: the variable-length integer of the 7z format, bitmaps, the
  digest scanner and the zero-copy view of a slice inside the buffer it came from.
  The main results are that decoding inverts encoding for every 64-bit value, that an
  encoding has one to nine bytes, and that the decoder is a parser in the sense of the prelude.
\<close>

unbundle bit_operations_syntax

section \<open>Buffers\<close>

text \<open>
  \<open>bytes::Bytes\<close> is a shared view: an address and the bytes stored there. Parsers keep
  views of the header they were given, and \<open>bytes_subslice\<close> finds such a view by comparing
  addresses, so the model keeps them. A parser only ever walks forward in its input, so the
  address of what is left is the address of the end of the input less its length.
\<close>

record Bytes =
  b_ptr :: nat
  b_data :: bytes

definition Bytes_new :: Bytes where
  "Bytes_new = \<lparr>b_ptr = 0, b_data = []\<rparr>"

definition Bytes_slice :: "Bytes \<Rightarrow> nat \<Rightarrow> nat \<Rightarrow> Bytes" where
  "Bytes_slice b s e = \<lparr>b_ptr = b_ptr b + s, b_data = take (e - s) (drop s (b_data b))\<rparr>"

definition b_end :: "Bytes \<Rightarrow> nat" where
  "b_end b = b_ptr b + length (b_data b)"

definition bytes_subslice :: "Bytes \<Rightarrow> nat \<Rightarrow> bytes \<Rightarrow> bytes \<Rightarrow> Bytes nom_result" where
  "bytes_subslice backing ptr sl error_input =
     (if sl = [] then Ok Bytes_new
      else and_then (ok_or (Failure error_input Verify) (checked_sub ptr (b_ptr backing))) (\<lambda>offset.
        and_then (ok_or (Failure error_input Verify)
            (case usize_checked_add offset (length sl) of
               None \<Rightarrow> None
             | Some e \<Rightarrow> if e \<le> length (b_data backing) then Some e else None)) (\<lambda>e.
          Ok (Bytes_slice backing offset e))))"

text \<open>A slice that really lies in the buffer at that address.\<close>

definition lies_in :: "Bytes \<Rightarrow> nat \<Rightarrow> bytes \<Rightarrow> bool" where
  "lies_in backing ptr sl \<longleftrightarrow>
     (\<exists>pre post. b_data backing = pre @ sl @ post \<and> ptr = b_ptr backing + length pre) \<and>
     length (b_data backing) < usize_limit"

lemma bytes_subslice_lies_in:
  assumes "lies_in backing ptr sl"
  shows "\<exists>b. bytes_subslice backing ptr sl e = Ok b \<and> b_data b = sl"
proof (cases "sl = []")
  case True
  then show ?thesis by (simp add: bytes_subslice_def Bytes_new_def)
next
  case False
  from assms obtain pre post where b: "b_data backing = pre @ sl @ post"
    and ptr: "ptr = b_ptr backing + length pre" and lim: "length (b_data backing) < usize_limit"
    by (auto simp: lies_in_def)
  then show ?thesis
    using False by (simp add: bytes_subslice_def Bytes_slice_def checked_sub_def usize_checked_add_def)
qed


section \<open>Saturated capacities\<close>

definition usize_cap :: "u64 \<Rightarrow> nat \<Rightarrow> nat" where
  "usize_cap n mx =
     min (case usize_try_from n of Some k \<Rightarrow> k | None \<Rightarrow> usize_limit - 1) mx"


section \<open>Variable-length integers\<close>

function varuint_encode_loop :: "u8 \<Rightarrow> bytes \<Rightarrow> u64 \<Rightarrow> u8 \<Rightarrow> bytes" where
  "varuint_encode_loop first pushed v m =
     (if v < ucast m then (first OR ucast v) # pushed
      else
        let first = first OR m;
            pushed = pushed @ [ucast (v AND 0xFF)];
            v = drop_bit 8 v;
            m = drop_bit 1 m
        in if m = 0 then first # pushed else varuint_encode_loop first pushed v m)"
  by pat_completeness auto

lemma drop_bit_1_less:
  assumes "drop_bit (Suc 0) m \<noteq> 0"
  shows "unat (drop_bit (Suc 0) m) < unat (m :: u8)"
proof -
  have "unat (drop_bit (Suc 0) m) = unat m div 2"
    by (subst unat_drop_bit_eq) (simp add: drop_bit_eq_div)
  moreover from assms have "unat (drop_bit (Suc 0) m) \<noteq> 0"
    by (simp only: unat_eq_zero) simp
  ultimately show ?thesis by simp
qed

termination varuint_encode_loop
  by (relation "measure (\<lambda>(first, pushed, v, m). unat m)") (auto simp: drop_bit_1_less)

definition sevenzip_varuint64_encode :: "u64 \<Rightarrow> bytes" where
  "sevenzip_varuint64_encode v = varuint_encode_loop 0 [] v 0x80"

text \<open>The \<open>for i in 0..8\<close> of the decoder; a break and the end of the loop return.\<close>

function varuint_decode_loop :: "bytes \<Rightarrow> u8 \<Rightarrow> u64 \<Rightarrow> u8 \<Rightarrow> nat \<Rightarrow> nat \<Rightarrow> u64 iresult" where
  "varuint_decode_loop input first_byte v m consumed i =
     (if 8 \<le> i then Ok (drop consumed input, v)
      else if first_byte AND m = 0
        then Ok (drop consumed input, v + push_bit (8 * i) (ucast (first_byte AND (m - 1))))
      else if length input \<le> consumed then Err (Error input Eof)
      else varuint_decode_loop input first_byte
             (v OR push_bit (8 * i) (ucast (input ! consumed))) (drop_bit 1 m) (Suc consumed) (Suc i))"
  by pat_completeness auto
termination
  by (relation "measure (\<lambda>(input, first_byte, v, m, consumed, i). 8 - i)") auto

definition sevenzip_varuint64_decode :: "bytes \<Rightarrow> u64 iresult" where
  "sevenzip_varuint64_decode input =
     (case input of
        [] \<Rightarrow> Err (Error input Eof)
      | first_byte # _ \<Rightarrow> varuint_decode_loop input first_byte 0 0x80 1 0)"

declare varuint_encode_loop.simps [simp del] varuint_decode_loop.simps [simp del]


subsection \<open>Decoding is local and makes progress\<close>

lemma varuint_decode_loop_local:
  assumes "varuint_decode_loop input f v m c i = Ok (r, x)" and "c \<le> length input"
  shows "\<exists>c'. c \<le> c' \<and> c' \<le> length input \<and> r = drop c' input \<and>
           (\<forall>r'. varuint_decode_loop (take c' input @ r') f v m c i = Ok (r', x))"
  using assms
proof (induction input f v m c i rule: varuint_decode_loop.induct)
  case (1 input f v m c i)
  consider (stop) "8 \<le> i \<or> f AND m = 0" | (eof) "i < 8" "f AND m \<noteq> 0" "length input \<le> c"
    | (next_byte) "i < 8" "f AND m \<noteq> 0" "c < length input"
    by linarith
  then show ?case
  proof cases
    case stop
    then show ?thesis
      using "1.prems" by (intro exI [of _ c]) (auto simp: varuint_decode_loop.simps [where i = i] split: if_splits)
  next
    case eof
    then show ?thesis
      using "1.prems" by (simp add: varuint_decode_loop.simps [of input])
  next
    case next_byte
    then have "varuint_decode_loop input f (v OR push_bit (8 * i) (ucast (input ! c)))
        (drop_bit 1 m) (Suc c) (Suc i) = Ok (r, x)"
      using "1.prems" by (simp add: varuint_decode_loop.simps [of input f v m c i])
    then obtain c' where c': "Suc c \<le> c'" "c' \<le> length input" "r = drop c' input"
      and go: "\<And>r'. varuint_decode_loop (take c' input @ r') f
          (v OR push_bit (8 * i) (ucast (input ! c))) (drop_bit 1 m) (Suc c) (Suc i) = Ok (r', x)"
      using "1.IH" next_byte by auto
    have "varuint_decode_loop (take c' input @ r') f v m c i = Ok (r', x)" for r'
      using next_byte c' go [of r']
      by (simp add: varuint_decode_loop.simps [of _ f v m c i] nth_append)
    with c' show ?thesis by (intro exI [of _ c']) auto
  qed
qed

interpretation varuint: progress_parser sevenzip_varuint64_decode
proof (unfold_locales)
  fix i r x
  assume dec: "sevenzip_varuint64_decode i = Ok (r, x)"
  then obtain b bs where i: "i = b # bs"
    by (auto simp: sevenzip_varuint64_decode_def split: list.splits)
  with dec have "varuint_decode_loop i b 0 0x80 1 0 = Ok (r, x)"
    by (simp add: sevenzip_varuint64_decode_def)
  then obtain c where c: "1 \<le> c" "c \<le> length i" "r = drop c i"
    and go: "\<And>r'. varuint_decode_loop (take c i @ r') b 0 0x80 1 0 = Ok (r', x)"
    using varuint_decode_loop_local [of i b 0 "0x80" 1 0 r x] i by auto
  from c show "length r < length i" by auto
  from c i obtain c0 where c0: "c = Suc c0"
    by (cases c) auto
  have "sevenzip_varuint64_decode (take c i @ r') = Ok (r', x)" for r'
    using go [of r'] by (simp add: sevenzip_varuint64_decode_def i c0)
  with c show "\<exists>pre. i = pre @ r \<and> parses sevenzip_varuint64_decode pre x"
    by (intro exI [of _ "take c i"]) (simp add: parses_def)
qed

lemmas varuint_parser [parser_laws] = varuint.parser_axioms
lemmas varuint_progress [shrinks] = varuint.progress


subsection \<open>Decoding inverts encoding\<close>

text \<open>The mask of round \<open>i\<close> of both loops.\<close>

definition mask_byte :: "nat \<Rightarrow> u8" where
  "mask_byte i = drop_bit i 0x80"

lemma mask_byte_0: "0x80 = mask_byte 0"
  by (simp add: mask_byte_def)

lemma bit_mask_byte:
  assumes "i < 8"
  shows "bit (mask_byte i) n \<longleftrightarrow> n = 7 - i"
proof -
  have "(0x80 :: u8) = 2 ^ 7" by simp
  with assms show ?thesis
    by (simp only: mask_byte_def bit_drop_bit_eq bit_exp_iff o_def) auto
qed

lemma mask_byte_eq: "i < 8 \<Longrightarrow> mask_byte i = 2 ^ (7 - i)"
  by (rule bit_word_eqI) (auto simp: bit_mask_byte bit_exp_iff)

lemma ucast_mask_byte: "i < 8 \<Longrightarrow> (ucast (mask_byte i) :: u64) = 2 ^ (7 - i)"
  by (rule bit_word_eqI) (auto simp: bit_ucast_iff bit_mask_byte bit_exp_iff)

lemma bit_below: "v < 2 ^ k \<Longrightarrow> k < 64 \<Longrightarrow> bit (v :: u64) n \<Longrightarrow> n < k"
  using less_mask_eq [of v k] by (metis bit_and_iff bit_mask_iff)

lemma and_mask_byte:
  assumes "i < 8"
  shows "f AND mask_byte i = 0 \<longleftrightarrow> \<not> bit f (7 - i)"
proof
  assume "f AND mask_byte i = 0"
  then have "\<not> bit (f AND mask_byte i) (7 - i)" by simp
  with assms show "\<not> bit f (7 - i)" by (simp add: bit_and_iff bit_mask_byte)
next
  assume "\<not> bit f (7 - i)"
  with assms show "f AND mask_byte i = 0"
    by (intro bit_word_eqI) (auto simp: bit_and_iff bit_mask_byte)
qed

lemma mask_byte_shift: "drop_bit (Suc 0) (mask_byte i) = mask_byte (Suc i)"
  by (simp only: mask_byte_def drop_bit_drop_bit) simp

lemma mask_byte_8: "mask_byte 8 = 0"
  by (simp add: mask_byte_def)

lemma bit_0xFF: "bit (0xFF :: u64) n \<longleftrightarrow> n < 8"
proof -
  have "(0xFF :: u64) = mask 8" by (simp add: mask_eq_exp_minus_1)
  then show ?thesis by (simp only: bit_mask_iff) auto
qed

text \<open>The byte a round pushes, and how the pushed byte and the rest make up the value again.\<close>

lemma bit_low_byte: "bit (ucast (v AND 0xFF) :: u8) n \<longleftrightarrow> n < 8 \<and> bit (v :: u64) n"
proof -
  have "bit (v AND 0xFF) n \<longleftrightarrow> n < 8 \<and> bit v n"
    by (simp only: bit_and_iff bit_0xFF) auto
  then show ?thesis by (auto simp: bit_ucast_iff)
qed

lemma low_byte_recombine:
  fixes v :: u64 and b :: u8
  assumes b: "\<And>n. bit b n \<longleftrightarrow> n < 8 \<and> bit v n"
  shows "(acc OR push_bit (8 * i) (ucast b))
           OR push_bit (8 * Suc i) (drop_bit 8 v) = acc OR push_bit (8 * i) v"
proof (rule bit_word_eqI)
  fix n assume n: "n < LENGTH(64)"
  show "bit ((acc OR push_bit (8 * i) (ucast b))
           OR push_bit (8 * Suc i) (drop_bit 8 v)) n = bit (acc OR push_bit (8 * i) v) n"
  proof (cases "8 * Suc i \<le> n")
    case True
    then have "8 + (n - 8 * Suc i) = n - 8 * i" "\<not> n - 8 * i < 8" "8 * i \<le> n" by simp_all
    then show ?thesis
      using True n by (simp add: bit_or_iff bit_push_bit_iff bit_ucast_iff bit_drop_bit_eq b
          del: mult_Suc_right)
  next
    case False
    then show ?thesis
      using n by (auto simp: bit_or_iff bit_push_bit_iff bit_ucast_iff b)
  qed
qed

lemma low_byte_all:
  fixes v :: u64 and b :: u8
  assumes "\<And>n. bit b n \<longleftrightarrow> n < 8 \<and> bit v n" and "\<And>n. bit v n \<Longrightarrow> n < 8"
  shows "ucast b = v"
  using assms by (intro bit_word_eqI) (auto simp: bit_ucast_iff)

lemma bit_acc_byte:
  assumes "\<And>n. bit acc n \<Longrightarrow> n < 8 * i"
    and "bit (acc OR push_bit (8 * i) (ucast (b :: u8) :: u64)) n"
  shows "n < 8 * Suc i"
proof -
  from assms(2) have "bit acc n \<or> (8 * i \<le> n \<and> bit b (n - 8 * i))"
    by (simp only: bit_or_iff bit_push_bit_iff bit_ucast_iff) blast
  moreover have "bit b (n - 8 * i) \<Longrightarrow> n - 8 * i < 8"
    using bit_imp_le_length by fastforce
  ultimately show ?thesis
    using assms(1) [of n] by auto
qed

text \<open>The last round of both loops: the rest of the value is in the first byte.\<close>

lemma varuint_last_round:
  assumes i: "i < 8" and len: "length pushed = i"
    and first: "\<And>n. n < 8 \<Longrightarrow> bit first n \<longleftrightarrow> 8 - i \<le> n"
    and acc: "\<And>n. bit acc n \<Longrightarrow> n < 8 * i"
    and small: "v < ucast (mask_byte i)"
  shows "varuint_decode_loop ((first OR ucast v) # pushed @ r) (first OR ucast v) acc (mask_byte i) (Suc i) i
           = Ok (r, acc OR push_bit (8 * i) v)"
proof -
  let ?f = "first OR ucast v"
  from small i have v: "n < 7 - i" if "bit v n" for n
    using that by (auto intro: bit_below [of v "7 - i" n] simp: ucast_mask_byte)
  have "\<not> bit v (7 - i)"
    using v [of "7 - i"] by blast
  moreover have "\<not> bit first (7 - i)"
    using first [of "7 - i"] i by simp
  ultimately have stop: "\<not> bit ?f (7 - i)"
    by (simp add: bit_or_iff bit_ucast_iff)
  have "mask_byte i - 1 = mask (7 - i)"
    using i by (simp add: mask_byte_eq mask_eq_exp_minus_1)
  then have "bit (ucast (?f AND (mask_byte i - 1)) :: u64) n = bit v n" for n
    using v [of n] first [of n] i
    by (auto simp: bit_ucast_iff bit_and_iff bit_or_iff bit_mask_iff)
  then have "(ucast (?f AND (mask_byte i - 1)) :: u64) = v"
    by (simp add: bit_word_eqI)
  moreover have "acc + push_bit (8 * i) v = acc OR push_bit (8 * i) v"
    using acc by (intro disjunctive_add) (fastforce simp: bit_push_bit_iff)
  ultimately show ?thesis
    using stop len i by (auto simp: varuint_decode_loop.simps [where i = i] and_mask_byte)
qed

text \<open>A round of the decoder that takes one more byte.\<close>

lemma varuint_decode_round:
  assumes "i < 8" and "length pushed = i" and "bit f (7 - i)"
  shows "varuint_decode_loop (f # pushed @ (b # rest) @ r) f acc (mask_byte i) (Suc i) i
       = varuint_decode_loop (f # pushed @ (b # rest) @ r) f (acc OR push_bit (8 * i) (ucast b))
           (mask_byte (Suc i)) (Suc (Suc i)) (Suc i)"
  using assms
  by (simp add: varuint_decode_loop.simps [where i = i] and_mask_byte nth_append nth_Cons' mask_byte_shift)

lemma varuint_loop_round_trip:
  assumes "i < 8" and "length pushed = i"
    and "\<And>n. n < 8 \<Longrightarrow> bit first n \<longleftrightarrow> 8 - i \<le> n"
    and "\<And>n. bit v n \<Longrightarrow> n < 64 - 8 * i"
    and "\<And>n. bit acc n \<Longrightarrow> n < 8 * i"
  shows "\<exists>f more. varuint_encode_loop first pushed v (mask_byte i) = f # pushed @ more \<and>
      length more \<le> 8 - i \<and> (\<forall>n<8. 8 - i \<le> n \<longrightarrow> bit f n) \<and>
      (\<forall>r. varuint_decode_loop (f # pushed @ more @ r) f acc (mask_byte i) (Suc i) i
             = Ok (r, acc OR push_bit (8 * i) v))"
  using assms
proof (induction "8 - i" arbitrary: i pushed first v acc rule: less_induct)
  case less
  note i = \<open>i < 8\<close> and len = \<open>length pushed = i\<close>
  let ?b = "ucast (v AND 0xFF) :: u8"
  have first: "bit (first OR mask_byte i) n \<longleftrightarrow> 8 - Suc i \<le> n" if "n < 8" for n
    using that less.prems(3) [OF that] i by (auto simp: bit_or_iff bit_mask_byte)
  consider (last) "v < ucast (mask_byte i)" | (full) "\<not> v < ucast (mask_byte i)" "i = 7"
    | (cont) "\<not> v < ucast (mask_byte i)" "Suc i < 8"
    using i by linarith
  then show ?case
  proof cases
    case last
    then show ?thesis
      using varuint_last_round [OF i len less.prems(3,5)] less.prems(3)
      by (intro exI [of _ "first OR ucast v"] exI [of _ "[]"])
         (auto simp: varuint_encode_loop.simps [of first] bit_or_iff)
  next
    case full
    have "ucast ?b = v"
      using less.prems(4) full by (intro low_byte_all [OF bit_low_byte]) auto
    then show ?thesis
      using varuint_decode_round [OF i len, of "first OR mask_byte i" ?b "[]"] first full len
      by (intro exI [of _ "first OR mask_byte i"] exI [of _ "[?b]"])
         (auto simp: varuint_encode_loop.simps [of first] varuint_decode_loop.simps [where i = 8]
            mask_byte_shift mask_byte_8)
  next
    case cont
    let ?acc = "acc OR push_bit (8 * i) (ucast ?b)"
    have v': "n < 64 - 8 * Suc i" if "bit (drop_bit 8 v) n" for n
      using less.prems(4) [of "8 + n"] that by (auto simp: bit_drop_bit_eq)
    have acc': "n < 8 * Suc i" if "bit ?acc n" for n
      using less.prems(5) that by (rule bit_acc_byte)
    have lt: "8 - Suc i < 8 - i" and len': "length (pushed @ [?b]) = Suc i"
      using i len by simp_all
    obtain f rest where IH:
      "varuint_encode_loop (first OR mask_byte i) (pushed @ [?b]) (drop_bit 8 v) (mask_byte (Suc i))
         = f # (pushed @ [?b]) @ rest" "length rest \<le> 8 - Suc i" "\<forall>n<8. 8 - Suc i \<le> n \<longrightarrow> bit f n"
      "\<And>r. varuint_decode_loop (f # (pushed @ [?b]) @ rest @ r) f ?acc (mask_byte (Suc i)) (Suc (Suc i)) (Suc i)
         = Ok (r, ?acc OR push_bit (8 * Suc i) (drop_bit 8 v))"
      using less.hyps [of "Suc i" "pushed @ [?b]" "first OR mask_byte i" "drop_bit 8 v" ?acc,
          OF lt cont(2) len' first v' acc'] by blast
    have "mask_byte (Suc i) \<noteq> 0"
      using cont by (simp add: mask_byte_eq)
    then have "varuint_encode_loop first pushed v (mask_byte i) = f # pushed @ (?b # rest)"
      using cont(1) IH(1) by (simp add: varuint_encode_loop.simps [of first pushed] mask_byte_shift)
    moreover have "varuint_decode_loop (f # pushed @ (?b # rest) @ r) f acc (mask_byte i) (Suc i) i
        = Ok (r, acc OR push_bit (8 * i) v)" for r
      using varuint_decode_round [OF i len, of f ?b rest r acc] IH(3) IH(4) [of r] i
      unfolding low_byte_recombine [OF bit_low_byte] by simp
    ultimately show ?thesis
      using IH(2,3) i by (intro exI [of _ f] exI [of _ "?b # rest"]) auto
  qed
qed

lemma varuint_encode_decode:
  "\<exists>f more. sevenzip_varuint64_encode v = f # more \<and> length more \<le> 8 \<and>
     (\<forall>r. sevenzip_varuint64_decode (f # more @ r) = Ok (r, v))"
proof -
  have "\<exists>f more. varuint_encode_loop 0 [] v (mask_byte 0) = f # [] @ more \<and>
      length more \<le> 8 - 0 \<and> (\<forall>n<8. 8 - 0 \<le> n \<longrightarrow> bit f n) \<and>
      (\<forall>r. varuint_decode_loop (f # [] @ more @ r) f 0 (mask_byte 0) (Suc 0) 0
             = Ok (r, 0 OR push_bit (8 * 0) v))"
    by (rule varuint_loop_round_trip) (auto dest: bit_imp_le_length)
  then show ?thesis
    by (auto simp: sevenzip_varuint64_encode_def sevenzip_varuint64_decode_def mask_byte_0)
qed

interpretation varuint: codec sevenzip_varuint64_decode sevenzip_varuint64_encode
proof unfold_locales
  fix v show "parses sevenzip_varuint64_decode (sevenzip_varuint64_encode v) v"
    using varuint_encode_decode [of v] by (auto simp: parses_def)
qed

lemmas varuint_decode_encode [simp, parser_eval] = varuint.decode_encode
lemmas varuint_repeat_decode [simp, parser_eval] = varuint.repeat_decode

text \<open>An encoding is one to nine bytes long.\<close>

lemma varuint_encode_length:
  "1 \<le> length (sevenzip_varuint64_encode v) \<and> length (sevenzip_varuint64_encode v) \<le> 9"
  using varuint_encode_decode [of v] by auto

lemma varuint_encode_not_Nil [simp]: "sevenzip_varuint64_encode v \<noteq> []"
  using varuint_encode_length [of v] by auto


section \<open>Bitmaps and digests\<close>

definition bitmap_is_set :: "bytes \<Rightarrow> nat \<Rightarrow> bool" where
  "bitmap_is_set bitmap index =
     (case get bitmap (index div 8) of
        None \<Rightarrow> False
      | Some b \<Rightarrow> drop_bit (7 - index mod 8) b AND 1 = 1)"

lemma bitmap_is_set_iff:
  "bitmap_is_set bitmap index \<longleftrightarrow>
     index div 8 < length bitmap \<and> bit (bitmap ! (index div 8)) (7 - index mod 8)"
  by (simp add: bitmap_is_set_def get_def bit_iff_and_drop_bit_eq_1)

definition scan_digests :: "nom \<Rightarrow> bytes \<Rightarrow> nat \<Rightarrow> unit iresult" where
  "scan_digests N input num =
     and_then (nom_le_u8 N input) (\<lambda>(input, all_defined).
       if all_defined \<noteq> 0 then
         and_then (ok_or (Error input TooLarge) (usize_checked_mul num 4)) (\<lambda>crc_bytes.
         and_then (nom_take N crc_bytes input) (\<lambda>(input, _).
           Ok (input, ())))
       else
         let num_bytes = div_ceil num 8 in
         and_then (nom_take N num_bytes input) (\<lambda>(input, bitmap).
         let num_defined = length (filter (bitmap_is_set bitmap) [0..<num]) in
         and_then (ok_or (Error input TooLarge) (usize_checked_mul num_defined 4)) (\<lambda>crc_bytes.
         and_then (nom_take N crc_bytes input) (\<lambda>(input, _).
           Ok (input, ())))))"


section \<open>The primitive parsers\<close>

interpretation take: parser "nom_take N n"
proof (rule parserI)
  fix i r x
  assume "nom_take N n i = Ok (r, x)"
  then have "n \<le> length i" "r = drop n i" "x = take n i"
    by (auto split: if_splits)
  then show "\<exists>pre. i = pre @ r \<and> (\<forall>r'. nom_take N n (pre @ r') = Ok (r', x))"
    by (intro exI [of _ "take n i"]) auto
qed

interpretation le_u8: progress_parser "nom_le_u8 N"
proof
  fix i r x
  assume "nom_le_u8 N i = Ok (r, x)"
  then have i: "i = [x] @ r" by (auto split: list.splits)
  then show "length r < length i" by simp
  from i show "\<exists>pre. i = pre @ r \<and> parses (nom_le_u8 N) pre x"
    by (intro exI [of _ "[x]"]) (simp add: parses_def)
qed

interpretation le_u32: codec "nom_le_u32 N" "to_le_bytes 4"
proof
  fix i r x
  assume "nom_le_u32 N i = Ok (r, x)"
  then have "4 \<le> length i" "r = drop 4 i" "x = from_le_bytes (take 4 i)"
    by (auto simp: nom_le_u32_eq split: if_splits)
  then show "\<exists>pre. i = pre @ r \<and> parses (nom_le_u32 N) pre x"
    by (intro exI [of _ "take 4 i"]) (auto simp: parses_def nom_le_u32_eq)
next
  fix x
  show "parses (nom_le_u32 N) (to_le_bytes 4 x) x"
    by (simp add: parses_def nom_le_u32_eq)
qed

lemmas nom_parsers [parser_laws] =
  take.parser_axioms le_u8.parser_axioms le_u32.parser_axioms

lemma parser_ok_or [parser_laws]:
  "(\<And>x. parser (f x)) \<Longrightarrow> parser (\<lambda>i. and_then (ok_or (e i) m) (\<lambda>x. f x i))"
  by (cases m) (auto intro: parser_fail)

lemma scan_digests_parser [parser_laws]: "parser (\<lambda>i. scan_digests N i num)"
  unfolding scan_digests_def Let_def by (intro parser_laws)

section \<open>Properties\<close>

text \<open>
  C21. The 7z integer code is a prefix code of one to nine bytes: decoding an encoded
  value gives the value back and leaves exactly the bytes that follow it, for every 64-bit
  value and every continuation.
\<close>

theorem varuint_round_trip:
  "sevenzip_varuint64_decode (sevenzip_varuint64_encode v @ r) = Ok (r, v) \<and>
   1 \<le> length (sevenzip_varuint64_encode v) \<and> length (sevenzip_varuint64_encode v) \<le> 9"
  using varuint.decode_encode [of v r] varuint_encode_length [of v] by blast

text \<open>
  The decoder consumes at least one byte and its answer depends on the bytes it consumed
  only: whatever follows them is left untouched.
\<close>

theorem varuint_decode_consumes:
  assumes "sevenzip_varuint64_decode i = Ok (r, v)"
  shows "length r < length i \<and>
    (\<exists>pre. i = pre @ r \<and> (\<forall>r'. sevenzip_varuint64_decode (pre @ r') = Ok (r', v)))"
  using varuint.progress [OF assms] varuint.local [OF assms] by (simp add: parses_def)

theorem varuint_decode_consumes_witness:
  "length [7 :: u8] < length [0x81, 2, 7 :: u8] \<and>
    (\<exists>pre. [0x81, 2, 7] = pre @ [7] \<and>
       (\<forall>r'. sevenzip_varuint64_decode (pre @ r') = Ok (r', 0x102)))"
  by (rule varuint_decode_consumes) code_simp

end
