(* ===== verification/Coder_Info.thy ===== *)
theory Coder_Info
  imports Parsers
begin

text \<open>
  \<^verbatim>\<open>src/src/coder_info.rs\<close>: one coder of a folder. The borrowed form is what the scanners
  use, the owned form what a parsed folder keeps; they read the same bytes.
\<close>

unbundle bit_operations_syntax

record CoderInfo =
  codec_id :: bytes
  num_in_streams :: u64
  num_out_streams :: u64
  properties :: "bytes option"

text \<open>\<open>CoderInfoRef\<close> has the same fields, borrowed from the input.\<close>

type_synonym CoderInfoRef = CoderInfo

definition CoderInfoRef_parse :: "nom \<Rightarrow> bytes \<Rightarrow> CoderInfoRef iresult" where
  "CoderInfoRef_parse N input =
     and_then (nom_le_u8 N input) (\<lambda>(input, flags).
     let codec_id_size = unat (flags AND 0x0f);
         is_complex = (flags AND 0x10 \<noteq> 0);
         has_attributes = (flags AND 0x20 \<noteq> 0) in
     and_then (nom_take N codec_id_size input) (\<lambda>(input, cid).
     and_then
       (if is_complex then
          and_then (sevenzip_varuint64_decode input) (\<lambda>(input, num_in).
          and_then (sevenzip_varuint64_decode input) (\<lambda>(input, num_out).
            Ok (input, num_in, num_out)))
        else Ok (input, 1, 1)) (\<lambda>(input, num_in, num_out).
     and_then
       (if has_attributes then
          and_then (sevenzip_varuint64_decode input) (\<lambda>(input, prop_size).
          and_then (ok_or (Error input TooLarge) (usize_try_from prop_size)) (\<lambda>size.
          and_then (nom_take N size input) (\<lambda>(input, props).
            Ok (input, Some props))))
        else Ok (input, None)) (\<lambda>(input, props).
       Ok (input, \<lparr>codec_id = cid, num_in_streams = num_in, num_out_streams = num_out,
                   properties = props\<rparr>)))))"

text \<open>\<open>ArrayVec::<u8, 15>::try_from\<close> refuses more than fifteen bytes.\<close>

definition array_vec_15 :: "bytes \<Rightarrow> bytes option" where
  "array_vec_15 xs = (if length xs \<le> 15 then Some xs else None)"

definition CoderInfo_parse :: "nom \<Rightarrow> bytes \<Rightarrow> CoderInfo iresult" where
  "CoderInfo_parse N input =
     and_then (CoderInfoRef_parse N input) (\<lambda>(input, parsed).
     and_then (ok_or (Error input TooLarge) (array_vec_15 (codec_id parsed))) (\<lambda>cid.
       Ok (input, \<lparr>codec_id = cid, num_in_streams = num_in_streams parsed,
                   num_out_streams = num_out_streams parsed, properties = properties parsed\<rparr>)))"


section \<open>The parser laws\<close>

lemma nibble_bound: "unat (flags AND 0x0f :: u8) \<le> 15"
proof -
  have "flags AND 0x0f \<le> (0x0f :: u8)" by (rule word_and_le1)
  then show ?thesis by (simp add: word_le_nat_alt)
qed

lemma CoderInfoRef_codec_id_length:
  "CoderInfoRef_parse N input = Ok (rest, c) \<Longrightarrow> length (codec_id c) \<le> 15"
  using nibble_bound
  by (auto simp: CoderInfoRef_parse_def Let_def split: if_splits list.splits)

lemma parser_if_bind [parser_laws]:
  assumes "parser (\<lambda>i. and_then (p i) f)" and "parser (\<lambda>i. and_then (q i) f)"
  shows "parser (\<lambda>i. and_then (if b then p i else q i) f)"
  using assms by (cases b) auto

lemma CoderInfoRef_parser [parser_laws]: "parser (CoderInfoRef_parse N)"
  unfolding CoderInfoRef_parse_def Let_def
  by (intro parser_laws; simp add: and_then_assoc case_prod_beta; intro parser_laws)

text \<open>The fifteen-byte inline buffer always suffices, so both forms accept the same coders.\<close>

lemma CoderInfo_parse_eq: "CoderInfo_parse N input = CoderInfoRef_parse N input"
proof (cases "CoderInfoRef_parse N input")
  case (Ok y)
  then show ?thesis
    using CoderInfoRef_codec_id_length [of N input "fst y" "snd y"]
    by (cases y) (simp add: CoderInfo_parse_def array_vec_15_def)
qed (simp add: CoderInfo_parse_def)

lemma CoderInfo_parser [parser_laws]: "parser (CoderInfo_parse N)"
  using CoderInfoRef_parser [of N] by (simp add: CoderInfo_parse_eq [abs_def])

lemma CoderInfoRef_progress [shrinks]:
  "CoderInfoRef_parse N i = Ok (r, c) \<Longrightarrow> length r < length i"
  unfolding CoderInfoRef_parse_def Let_def
  by (auto split: if_splits list.splits dest!: varuint_progress)

end
