(* ===== verification/Folder_Layout.thy ===== *)
theory Folder_Layout
  imports Coder_Info
begin

text \<open>
  \<^verbatim>\<open>src/src/folder.rs\<close>, first part: the byte layout of a folder. \<open>Folder_parse\<close> builds the
  folder, \<open>scan_folder\<close> walks the same bytes without keeping anything. The header reader
  validates with the scanner and parses later; that is sound because the two agree on every
  input, errors included.
\<close>

abbreviation MAX_FOLDER_STREAMS :: nat where
  "MAX_FOLDER_STREAMS \<equiv> 16384"

definition checked_coder_count :: "bytes \<Rightarrow> u64 \<Rightarrow> nat nom_result" where
  "checked_coder_count input count =
     and_then (ok_or (Failure input TooLarge) (usize_try_from count)) (\<lambda>count.
       if 1 \<le> count \<and> count \<le> MAX_FOLDER_STREAMS then Ok count
       else Err (Failure input TooLarge))"

record FolderStreamCounts =
  inputs :: u64
  outputs :: u64

definition FolderStreamCounts_default :: FolderStreamCounts where
  "FolderStreamCounts_default = \<lparr>inputs = 0, outputs = 0\<rparr>"

definition add_coder ::
  "FolderStreamCounts \<Rightarrow> bytes \<Rightarrow> u64 \<Rightarrow> u64 \<Rightarrow> FolderStreamCounts nom_result" where
  "add_coder self input num_inputs num_outputs =
     and_then (ok_or (Failure input TooLarge) (u64_checked_add (inputs self) num_inputs)) (\<lambda>ins.
     and_then (ok_or (Failure input TooLarge) (u64_checked_add (outputs self) num_outputs)) (\<lambda>outs.
       if ins > of_nat MAX_FOLDER_STREAMS \<or> outs > of_nat MAX_FOLDER_STREAMS
       then Err (Failure input TooLarge)
       else Ok \<lparr>inputs = ins, outputs = outs\<rparr>))"

definition counts_layout :: "FolderStreamCounts \<Rightarrow> bytes \<Rightarrow> (u64 \<times> u64) nom_result" where
  "counts_layout self input =
     and_then (ok_or (Failure input Verify) (u64_checked_sub (outputs self) 1)) (\<lambda>num_bind_pairs.
     and_then (ok_or (Failure input Verify) (u64_checked_sub (inputs self) num_bind_pairs)) (\<lambda>num_packed.
       Ok (num_bind_pairs, num_packed)))"

definition checked_stream_index :: "bytes \<Rightarrow> u64 \<Rightarrow> u64 \<Rightarrow> unit nom_result" where
  "checked_stream_index input index num_streams =
     (if index < num_streams then Ok () else Err (Failure input Verify))"

record Folder =
  coders :: "CoderInfo list"
  bind_pairs :: "(u64 \<times> u64) list"
  packed_indices :: "u64 list"

definition total_out_streams :: "Folder \<Rightarrow> nat" where
  "total_out_streams f = sum_list (map (\<lambda>c. unat (num_out_streams c)) (coders f))"

definition total_in_streams :: "Folder \<Rightarrow> nat" where
  "total_in_streams f = sum_list (map (\<lambda>c. unat (num_in_streams c)) (coders f))"

text \<open>One round of the bind-pair loop and of the packed-index loop, the same in both walkers.\<close>

definition folder_bind_pair :: "FolderStreamCounts \<Rightarrow> bytes \<Rightarrow> (u64 \<times> u64) iresult" where
  "folder_bind_pair counts input =
     and_then (sevenzip_varuint64_decode input) (\<lambda>(i, in_idx).
     and_then (checked_stream_index i in_idx (inputs counts)) (\<lambda>_.
     and_then (sevenzip_varuint64_decode i) (\<lambda>(i, out_idx).
     and_then (checked_stream_index i out_idx (outputs counts)) (\<lambda>_.
       Ok (i, (in_idx, out_idx))))))"

definition folder_packed_index :: "FolderStreamCounts \<Rightarrow> bytes \<Rightarrow> u64 iresult" where
  "folder_packed_index counts input =
     and_then (sevenzip_varuint64_decode input) (\<lambda>(i, idx).
     and_then (checked_stream_index i idx (inputs counts)) (\<lambda>_. Ok (i, idx)))"

fun folder_coders :: "nom \<Rightarrow> nat \<Rightarrow> bytes \<Rightarrow> FolderStreamCounts \<Rightarrow>
    (FolderStreamCounts \<times> CoderInfo list) iresult" where
  "folder_coders N 0 input counts = Ok (input, counts, [])"
| "folder_coders N (Suc n) input counts =
     and_then (CoderInfo_parse N input) (\<lambda>(i, coder).
     and_then (add_coder counts i (num_in_streams coder) (num_out_streams coder)) (\<lambda>counts.
     and_then (folder_coders N n i counts) (\<lambda>(i, counts, cs).
       Ok (i, counts, coder # cs))))"

definition Folder_parse :: "nom \<Rightarrow> bytes \<Rightarrow> Folder iresult" where
  "Folder_parse N input =
     and_then (sevenzip_varuint64_decode input) (\<lambda>(input, num_coders).
     and_then (checked_coder_count input num_coders) (\<lambda>num_coders.
     and_then (folder_coders N num_coders input FolderStreamCounts_default) (\<lambda>(input, counts, cs).
     and_then (counts_layout counts input) (\<lambda>(num_bind_pairs, num_packed).
     and_then (repeat_p (folder_bind_pair counts) (unat num_bind_pairs) input) (\<lambda>(input, pairs).
     and_then
       (if num_packed \<noteq> 1 then repeat_p (folder_packed_index counts) (unat num_packed) input
        else Ok (input, [])) (\<lambda>(input, packed).
       Ok (input, \<lparr>coders = cs, bind_pairs = pairs, packed_indices = packed\<rparr>)))))))"

fun scan_folder_coders :: "nom \<Rightarrow> nat \<Rightarrow> bytes \<Rightarrow> FolderStreamCounts \<Rightarrow> FolderStreamCounts iresult" where
  "scan_folder_coders N 0 input counts = Ok (input, counts)"
| "scan_folder_coders N (Suc n) input counts =
     and_then (CoderInfoRef_parse N input) (\<lambda>(remaining, coder).
     and_then (add_coder counts remaining (num_in_streams coder) (num_out_streams coder)) (\<lambda>counts.
       scan_folder_coders N n remaining counts))"

definition scan_folder :: "nom \<Rightarrow> bytes \<Rightarrow> nat iresult" where
  "scan_folder N input =
     and_then (sevenzip_varuint64_decode input) (\<lambda>(input, num_coders).
     and_then (checked_coder_count input num_coders) (\<lambda>num_coders.
     and_then (scan_folder_coders N num_coders input FolderStreamCounts_default) (\<lambda>(input, counts).
     and_then (counts_layout counts input) (\<lambda>(num_bind_pairs, num_packed).
     and_then (skip_p (folder_bind_pair counts) (unat num_bind_pairs) input) (\<lambda>(input, _).
     and_then
       (if num_packed \<noteq> 1 then skip_p (folder_packed_index counts) (unat num_packed) input
        else Ok (input, ())) (\<lambda>(input, _).
     and_then (ok_or (Error input TooLarge) (usize_try_from (outputs counts))) (\<lambda>total_out.
       Ok (input, total_out))))))))"


section \<open>Stream counts\<close>

lemma add_coder_eq_Ok:
  "add_coder c i a b = Ok c' \<longleftrightarrow>
     unat (inputs c') = unat (inputs c) + unat a \<and> unat (outputs c') = unat (outputs c) + unat b \<and>
     unat (inputs c') \<le> MAX_FOLDER_STREAMS \<and> unat (outputs c') \<le> MAX_FOLDER_STREAMS"
proof -
  have "add_coder c i a b = Ok c' \<longleftrightarrow>
      u64_checked_add (inputs c) a = Some (inputs c') \<and> u64_checked_add (outputs c) b = Some (outputs c') \<and>
      \<not> inputs c' > of_nat MAX_FOLDER_STREAMS \<and> \<not> outputs c' > of_nat MAX_FOLDER_STREAMS"
    by (cases c') (auto simp: add_coder_def)
  then show ?thesis
    by (simp add: u64_checked_add_eq_Some word_less_nat_alt not_less)
qed

lemma folder_coders_counts:
  "folder_coders N n i c = Ok (r, c', cs) \<Longrightarrow>
     length cs = n \<and>
     unat (inputs c') = unat (inputs c) + sum_list (map (\<lambda>c. unat (num_in_streams c)) cs) \<and>
     unat (outputs c') = unat (outputs c) + sum_list (map (\<lambda>c. unat (num_out_streams c)) cs)"
proof (induction n arbitrary: i c cs)
  case (Suc n)
  then show ?case by (fastforce simp: add_coder_eq_Ok)
qed simp

lemma folder_coders_bound:
  "folder_coders N n i c = Ok (r, c', cs) \<Longrightarrow> n \<noteq> 0 \<Longrightarrow>
     unat (inputs c') \<le> MAX_FOLDER_STREAMS \<and> unat (outputs c') \<le> MAX_FOLDER_STREAMS"
proof (induction n arbitrary: i c cs)
  case (Suc n)
  then show ?case by (cases n) (fastforce simp: add_coder_eq_Ok)+
qed simp

lemma counts_layout_eq_Ok:
  "counts_layout c i = Ok (b, p) \<longleftrightarrow>
     unat (outputs c) = 1 + unat b \<and> unat (inputs c) = unat b + unat p"
  by (auto simp: counts_layout_def u64_checked_sub_eq_Some)


section \<open>The parser laws\<close>

lemma input_free_checks:
  "input_free (\<lambda>i. checked_coder_count i n)"
  "input_free (\<lambda>i. add_coder c i a b)"
  "input_free (counts_layout c)"
  "input_free (\<lambda>i. checked_stream_index i k n)"
  by (auto simp: input_free_def add_coder_eq_Ok counts_layout_eq_Ok checked_coder_count_def
      checked_stream_index_def)

lemmas parser_folder_checks [parser_laws] = input_free_checks [THEN parser_check]

lemma folder_bind_pair_parser [parser_laws]: "parser (folder_bind_pair counts)"
  unfolding folder_bind_pair_def
  by (intro parser_laws)

lemma folder_packed_index_parser [parser_laws]: "parser (folder_packed_index counts)"
  unfolding folder_packed_index_def
  by (intro parser_laws)

lemmas folder_repeat_parsers [parser_laws] =
  parser.parser_repeat [OF folder_bind_pair_parser]
  parser.parser_repeat [OF folder_packed_index_parser]

lemma folder_coders_parser [parser_laws]: "parser (\<lambda>i. folder_coders N n i c)"
proof (induction n arbitrary: c)
  case 0
  show ?case by (simp add: parser_return)
next
  case (Suc n)
  show ?case unfolding folder_coders.simps
    by (intro parser_laws Suc)
qed

lemma Folder_parser [parser_laws]: "parser (Folder_parse N)"
  unfolding Folder_parse_def
  by (intro parser_laws)

lemma folder_coders_progress:
  "folder_coders N n i c = Ok (r, c', cs) \<Longrightarrow> length r + n \<le> length i"
proof (induction n arbitrary: i c cs)
  case (Suc n)
  then show ?case
    by (fastforce simp: CoderInfo_parse_eq dest: CoderInfoRef_progress)
qed simp

lemma Folder_parse_progress [shrinks]:
  "Folder_parse N i = Ok (r, f) \<Longrightarrow> length r < length i"
  unfolding Folder_parse_def
  by (auto split: if_splits dest!: varuint_progress folder_coders_progress
      parser.shrink [OF folder_repeat_parsers(1)] parser.shrink [OF folder_repeat_parsers(2)])


section \<open>What an accepted folder satisfies\<close>

text \<open>
  The layout invariant: as many bind pairs as outputs less one, every index in range, and the
  packed inputs listed exactly when there is not one of them.
\<close>

definition Folder_wf :: "Folder \<Rightarrow> bool" where
  "Folder_wf f \<longleftrightarrow>
     1 \<le> length (coders f) \<and> length (coders f) \<le> MAX_FOLDER_STREAMS \<and>
     total_in_streams f \<le> MAX_FOLDER_STREAMS \<and> total_out_streams f \<le> MAX_FOLDER_STREAMS \<and>
     total_out_streams f = length (bind_pairs f) + 1 \<and>
     length (bind_pairs f) \<le> total_in_streams f \<and>
     list_all (\<lambda>(a, b). unat a < total_in_streams f \<and> unat b < total_out_streams f) (bind_pairs f) \<and>
     list_all (\<lambda>a. unat a < total_in_streams f) (packed_indices f) \<and>
     length (packed_indices f) =
       (if total_in_streams f - length (bind_pairs f) = 1 then 0
        else total_in_streams f - length (bind_pairs f))"

lemma repeat_p_all:
  "repeat_p p n i = Ok (r, xs) \<Longrightarrow> (\<And>i r x. p i = Ok (r, x) \<Longrightarrow> P x) \<Longrightarrow> list_all P xs"
  by (induction n arbitrary: i xs) fastforce+

lemma folder_bind_pair_range:
  "folder_bind_pair c i = Ok (r, x) \<Longrightarrow> fst x < inputs c \<and> snd x < outputs c"
  by (auto simp: folder_bind_pair_def checked_stream_index_def split: if_splits)

lemma folder_packed_index_range: "folder_packed_index c i = Ok (r, x) \<Longrightarrow> x < inputs c"
  by (auto simp: folder_packed_index_def checked_stream_index_def split: if_splits)

lemma Folder_parse_wf:
  assumes "Folder_parse N i = Ok (r, f)"
  shows "Folder_wf f"
proof -
  from assms obtain n j k c cs b p l pairs packed where
    n: "1 \<le> n" "n \<le> MAX_FOLDER_STREAMS"
    and cs: "folder_coders N n j FolderStreamCounts_default = Ok (k, c, cs)"
    and lay: "counts_layout c k = Ok (b, p)"
    and pairs: "repeat_p (folder_bind_pair c) (unat b) k = Ok (l, pairs)"
    and packed: "(if p \<noteq> 1 then repeat_p (folder_packed_index c) (unat p) l else Ok (l, [])) = Ok (r, packed)"
    and f: "f = \<lparr>coders = cs, bind_pairs = pairs, packed_indices = packed\<rparr>"
    by (force simp: Folder_parse_def checked_coder_count_def simp del: One_nat_def split: if_splits)
  from folder_coders_counts [OF cs] f have len: "length cs = n"
    and ins: "unat (inputs c) = total_in_streams f" and outs: "unat (outputs c) = total_out_streams f"
    by (simp_all add: FolderStreamCounts_default_def total_in_streams_def total_out_streams_def)
  from lay have lay': "total_out_streams f = 1 + unat b" "total_in_streams f = unat b + unat p"
    by (simp_all add: counts_layout_eq_Ok ins outs)
  have "length packed = (if unat p = 1 then 0 else unat p)"
    using packed by (auto split: if_splits dest: repeat_p_length simp: word_unat_eq_iff)
  moreover have "list_all (\<lambda>a. unat a < total_in_streams f) packed"
    using packed ins [symmetric]
    by (auto split: if_splits simp: word_less_nat_alt [symmetric]
        elim!: repeat_p_all intro: folder_packed_index_range)
  moreover have "list_all (\<lambda>(a, b). unat a < total_in_streams f \<and> unat b < total_out_streams f) pairs"
    using pairs by (rule repeat_p_all)
      (auto simp: word_less_nat_alt ins [symmetric] outs [symmetric] dest!: folder_bind_pair_range)
  ultimately show ?thesis
    using n len repeat_p_length [OF pairs] folder_coders_bound [OF cs] ins outs lay' f
    by (simp add: Folder_wf_def)
qed


section \<open>The scanner and the parser agree\<close>

lemma scan_folder_coders_eq:
  "scan_folder_coders N n i c = and_then (folder_coders N n i c) (\<lambda>(r, c', cs). Ok (r, c'))"
  by (induction N n i c rule: scan_folder_coders.induct)
     (auto simp: CoderInfo_parse_eq and_then_assoc case_prod_beta' intro!: and_then_cong)

lemma scan_folder_eq:
  "scan_folder N i = and_then (Folder_parse N i) (\<lambda>(r, f). Ok (r, total_out_streams f))"
proof -
  have out: "unat (outputs c) = sum_list (map (\<lambda>c. unat (num_out_streams c)) cs)"
    if "folder_coders N n j FolderStreamCounts_default = Ok (k, c, cs)" for n j k c cs
    using folder_coders_counts [OF that] by (simp add: FolderStreamCounts_default_def)
  show ?thesis
    unfolding scan_folder_def Folder_parse_def scan_folder_coders_eq
    by (auto simp: and_then_assoc case_prod_beta' skip_p_eq_repeat_p total_out_streams_def
        intro!: and_then_cong out)
qed

section \<open>Properties\<close>

text \<open>
  C22. Scanning a folder is parsing it and counting its output streams: on every input
  the scanner that allocates nothing returns what the parser does, errors included.
\<close>

theorem scan_folder_agrees:
  "scan_folder N i = and_then (Folder_parse N i) (\<lambda>(r, f). Ok (r, total_out_streams f))"
  by (rule scan_folder_eq)

text \<open>
  C23. Every folder the parser accepts has between one and 16384 coders and streams, as many
  bind pairs as outputs less one, every stream index in range and as many packed indices
  as inputs are left.
\<close>

theorem Folder_parse_accepts_wf:
  assumes "Folder_parse N i = Ok (r, f)"
  shows "Folder_wf f \<and> length r < length i"
  using Folder_parse_wf [OF assms] Folder_parse_progress [OF assms] by simp

lemmas example_evals = Folder_parse_def sevenzip_varuint64_decode_def varuint_decode_loop.simps
  checked_coder_count_def CoderInfo_parse_def CoderInfoRef_parse_def array_vec_15_def Let_def
  add_coder_def FolderStreamCounts_default_def u64_checked_add_def counts_layout_def u64_checked_sub_def

theorem Folder_parse_accepts_wf_witness:
  "Folder_wf \<lparr>coders = [\<lparr>codec_id = [0x21], num_in_streams = 1, num_out_streams = 1,
       properties = Some [0x18]\<rparr>], bind_pairs = [], packed_indices = []\<rparr> \<and>
   length [9 :: u8] < length [1, 0x21, 0x21, 1, 0x18, 9 :: u8]"
  by (rule Folder_parse_accepts_wf [where N = nom_reference])
     (simp add: example_evals)

end
