(* ===== verification/Methods.thy ===== *)
theory Methods
  imports Parsers
begin

text \<open>
  \<^verbatim>\<open>src/src/method.rs\<close>: the registry of 7z methods. A coder of a folder names its method
  by the ID bytes stored in the archive; the registry gives the method's name, whether
  it can be decoded and encoded, and how many streams it connects.
\<close>

datatype MethodKind = Compression | Filter | Crypto

datatype SevenZMethod =
    M_Copy | M_Lzma | M_Lzma2 | M_BZip2 | M_Ppmd | M_Deflate | M_Deflate64 | M_Bcj | M_Bcj2 | M_Arm | M_Arm64 | M_ArmThumb | M_Ia64 | M_Ppc | M_Sparc | M_Riscv | M_Delta | M_Swap2 | M_Swap4 | M_Zstd | M_Brotli | M_Lz4 | M_Lz5 | M_Lizard | M_FastLzma2 | M_Lzham | M_SevenZAes | M_Aes256Cbc

datatype MethodStatus = Tested | Partial | Unsupported | Blocked | Untested

fun is_implemented :: "MethodStatus \<Rightarrow> bool" where
  "is_implemented Tested = True"
| "is_implemented Partial = True"
| "is_implemented _ = False"

record MethodInfo =
  mi_method :: SevenZMethod
  mi_id :: bytes
  mi_name :: string
  mi_kind :: MethodKind
  mi_decode :: MethodStatus
  mi_encode :: MethodStatus
  mi_stream_arity :: "u64 \<times> u64"

definition CODEC_LZMA :: bytes where "CODEC_LZMA = [0x03, 0x01, 0x01]"
definition CODEC_LZMA2 :: bytes where "CODEC_LZMA2 = [0x21]"
definition CODEC_BCJ_X86 :: bytes where "CODEC_BCJ_X86 = [0x03, 0x03, 0x01, 0x03]"
definition CODEC_BCJ2 :: bytes where "CODEC_BCJ2 = [0x03, 0x03, 0x01, 0x1B]"
definition CODEC_BCJ_ARM :: bytes where "CODEC_BCJ_ARM = [0x03, 0x03, 0x05, 0x01]"
definition CODEC_BCJ_ARM64 :: bytes where "CODEC_BCJ_ARM64 = [0x0A]"
definition CODEC_BCJ_ARM_THUMB :: bytes where "CODEC_BCJ_ARM_THUMB = [0x03, 0x03, 0x07, 0x01]"
definition CODEC_BCJ_IA64 :: bytes where "CODEC_BCJ_IA64 = [0x03, 0x03, 0x04, 0x01]"
definition CODEC_BCJ_PPC :: bytes where "CODEC_BCJ_PPC = [0x03, 0x03, 0x02, 0x05]"
definition CODEC_BCJ_SPARC :: bytes where "CODEC_BCJ_SPARC = [0x03, 0x03, 0x08, 0x05]"
definition CODEC_BCJ_RISCV :: bytes where "CODEC_BCJ_RISCV = [0x0B]"
definition CODEC_COPY :: bytes where "CODEC_COPY = [0x00]"
definition CODEC_AES_256_SHA_256 :: bytes where "CODEC_AES_256_SHA_256 = [0x06, 0xF1, 0x07, 0x01]"
definition CODEC_DEFLATE :: bytes where "CODEC_DEFLATE = [0x04, 0x01, 0x08]"
definition CODEC_BZIP2 :: bytes where "CODEC_BZIP2 = [0x04, 0x02, 0x02]"
definition CODEC_PPMD :: bytes where "CODEC_PPMD = [0x03, 0x04, 0x01]"
definition CODEC_DEFLATE64 :: bytes where "CODEC_DEFLATE64 = [0x04, 0x01, 0x09]"
definition CODEC_DELTA :: bytes where "CODEC_DELTA = [0x03]"
definition CODEC_SWAP2 :: bytes where "CODEC_SWAP2 = [0x02, 0x03, 0x02]"
definition CODEC_SWAP4 :: bytes where "CODEC_SWAP4 = [0x02, 0x03, 0x04]"
definition ID_ZSTD :: bytes where "ID_ZSTD = [0x04, 0xF7, 0x11, 0x01]"
definition ID_BROTLI :: bytes where "ID_BROTLI = [0x04, 0xF7, 0x11, 0x02]"
definition ID_LZ4 :: bytes where "ID_LZ4 = [0x04, 0xF7, 0x11, 0x04]"
definition ID_LZ5 :: bytes where "ID_LZ5 = [0x04, 0xF7, 0x11, 0x05]"
definition ID_LIZARD :: bytes where "ID_LIZARD = [0x04, 0xF7, 0x11, 0x06]"
definition ID_LZHAM :: bytes where "ID_LZHAM = [0x04, 0xF7, 0x10, 0x01]"
definition ID_AES256CBC :: bytes where "ID_AES256CBC = [0x06, 0xF0, 0x01, 0x81]"
definition ID_FAST_LZMA2 :: bytes where "ID_FAST_LZMA2 = CODEC_LZMA2"

lemmas codec_ids = CODEC_LZMA_def CODEC_LZMA2_def CODEC_BCJ_X86_def CODEC_BCJ2_def CODEC_BCJ_ARM_def
  CODEC_BCJ_ARM64_def CODEC_BCJ_ARM_THUMB_def CODEC_BCJ_IA64_def CODEC_BCJ_PPC_def CODEC_BCJ_SPARC_def
  CODEC_BCJ_RISCV_def CODEC_COPY_def CODEC_AES_256_SHA_256_def CODEC_DEFLATE_def CODEC_BZIP2_def
  CODEC_PPMD_def CODEC_DEFLATE64_def CODEC_DELTA_def CODEC_SWAP2_def CODEC_SWAP4_def
  ID_ZSTD_def ID_BROTLI_def ID_LZ4_def ID_LZ5_def ID_LIZARD_def
  ID_LZHAM_def ID_AES256CBC_def ID_FAST_LZMA2_def

definition METHOD_REGISTRY :: "MethodInfo list" where
  "METHOD_REGISTRY = [
     \<lparr>mi_method = M_Copy, mi_id = CODEC_COPY, mi_name = ''Copy'', mi_kind = Compression,
      mi_decode = Tested, mi_encode = Tested, mi_stream_arity = (1, 1)\<rparr>,
     \<lparr>mi_method = M_Lzma, mi_id = CODEC_LZMA, mi_name = ''LZMA'', mi_kind = Compression,
      mi_decode = Tested, mi_encode = Tested, mi_stream_arity = (1, 1)\<rparr>,
     \<lparr>mi_method = M_Lzma2, mi_id = CODEC_LZMA2, mi_name = ''LZMA2'', mi_kind = Compression,
      mi_decode = Tested, mi_encode = Tested, mi_stream_arity = (1, 1)\<rparr>,
     \<lparr>mi_method = M_BZip2, mi_id = CODEC_BZIP2, mi_name = ''BZip2'', mi_kind = Compression,
      mi_decode = Tested, mi_encode = Unsupported, mi_stream_arity = (1, 1)\<rparr>,
     \<lparr>mi_method = M_Ppmd, mi_id = CODEC_PPMD, mi_name = ''PPMd'', mi_kind = Compression,
      mi_decode = Tested, mi_encode = Tested, mi_stream_arity = (1, 1)\<rparr>,
     \<lparr>mi_method = M_Deflate, mi_id = CODEC_DEFLATE, mi_name = ''Deflate'', mi_kind = Compression,
      mi_decode = Tested, mi_encode = Unsupported, mi_stream_arity = (1, 1)\<rparr>,
     \<lparr>mi_method = M_Deflate64, mi_id = CODEC_DEFLATE64, mi_name = ''Deflate64'', mi_kind = Compression,
      mi_decode = Tested, mi_encode = Unsupported, mi_stream_arity = (1, 1)\<rparr>,
     \<lparr>mi_method = M_Bcj, mi_id = CODEC_BCJ_X86, mi_name = ''BCJ'', mi_kind = Filter,
      mi_decode = Tested, mi_encode = Tested, mi_stream_arity = (1, 1)\<rparr>,
     \<lparr>mi_method = M_Bcj2, mi_id = CODEC_BCJ2, mi_name = ''BCJ2'', mi_kind = Filter,
      mi_decode = Partial, mi_encode = Unsupported, mi_stream_arity = (4, 1)\<rparr>,
     \<lparr>mi_method = M_Arm, mi_id = CODEC_BCJ_ARM, mi_name = ''ARM'', mi_kind = Filter,
      mi_decode = Tested, mi_encode = Unsupported, mi_stream_arity = (1, 1)\<rparr>,
     \<lparr>mi_method = M_Arm64, mi_id = CODEC_BCJ_ARM64, mi_name = ''ARM64'', mi_kind = Filter,
      mi_decode = Tested, mi_encode = Unsupported, mi_stream_arity = (1, 1)\<rparr>,
     \<lparr>mi_method = M_ArmThumb, mi_id = CODEC_BCJ_ARM_THUMB, mi_name = ''ARMT'', mi_kind = Filter,
      mi_decode = Tested, mi_encode = Unsupported, mi_stream_arity = (1, 1)\<rparr>,
     \<lparr>mi_method = M_Ia64, mi_id = CODEC_BCJ_IA64, mi_name = ''IA64'', mi_kind = Filter,
      mi_decode = Tested, mi_encode = Unsupported, mi_stream_arity = (1, 1)\<rparr>,
     \<lparr>mi_method = M_Ppc, mi_id = CODEC_BCJ_PPC, mi_name = ''PPC'', mi_kind = Filter,
      mi_decode = Tested, mi_encode = Unsupported, mi_stream_arity = (1, 1)\<rparr>,
     \<lparr>mi_method = M_Sparc, mi_id = CODEC_BCJ_SPARC, mi_name = ''SPARC'', mi_kind = Filter,
      mi_decode = Tested, mi_encode = Unsupported, mi_stream_arity = (1, 1)\<rparr>,
     \<lparr>mi_method = M_Riscv, mi_id = CODEC_BCJ_RISCV, mi_name = ''RISCV'', mi_kind = Filter,
      mi_decode = Tested, mi_encode = Unsupported, mi_stream_arity = (1, 1)\<rparr>,
     \<lparr>mi_method = M_Delta, mi_id = CODEC_DELTA, mi_name = ''Delta'', mi_kind = Filter,
      mi_decode = Tested, mi_encode = Unsupported, mi_stream_arity = (1, 1)\<rparr>,
     \<lparr>mi_method = M_Swap2, mi_id = CODEC_SWAP2, mi_name = ''Swap2'', mi_kind = Filter,
      mi_decode = Tested, mi_encode = Unsupported, mi_stream_arity = (1, 1)\<rparr>,
     \<lparr>mi_method = M_Swap4, mi_id = CODEC_SWAP4, mi_name = ''Swap4'', mi_kind = Filter,
      mi_decode = Tested, mi_encode = Unsupported, mi_stream_arity = (1, 1)\<rparr>,
     \<lparr>mi_method = M_Zstd, mi_id = ID_ZSTD, mi_name = ''ZSTD'', mi_kind = Compression,
      mi_decode = Unsupported, mi_encode = Unsupported, mi_stream_arity = (1, 1)\<rparr>,
     \<lparr>mi_method = M_Brotli, mi_id = ID_BROTLI, mi_name = ''BROTLI'', mi_kind = Compression,
      mi_decode = Unsupported, mi_encode = Unsupported, mi_stream_arity = (1, 1)\<rparr>,
     \<lparr>mi_method = M_Lz4, mi_id = ID_LZ4, mi_name = ''LZ4'', mi_kind = Compression,
      mi_decode = Unsupported, mi_encode = Unsupported, mi_stream_arity = (1, 1)\<rparr>,
     \<lparr>mi_method = M_Lz5, mi_id = ID_LZ5, mi_name = ''LZ5'', mi_kind = Compression,
      mi_decode = Unsupported, mi_encode = Unsupported, mi_stream_arity = (1, 1)\<rparr>,
     \<lparr>mi_method = M_Lizard, mi_id = ID_LIZARD, mi_name = ''LIZARD'', mi_kind = Compression,
      mi_decode = Unsupported, mi_encode = Unsupported, mi_stream_arity = (1, 1)\<rparr>,
     \<lparr>mi_method = M_FastLzma2, mi_id = ID_FAST_LZMA2, mi_name = ''FLZMA2'', mi_kind = Compression,
      mi_decode = Tested, mi_encode = Tested, mi_stream_arity = (1, 1)\<rparr>,
     \<lparr>mi_method = M_Lzham, mi_id = ID_LZHAM, mi_name = ''LZHAM'', mi_kind = Compression,
      mi_decode = Unsupported, mi_encode = Unsupported, mi_stream_arity = (1, 1)\<rparr>,
     \<lparr>mi_method = M_SevenZAes, mi_id = CODEC_AES_256_SHA_256, mi_name = ''7zAES'', mi_kind = Crypto,
      mi_decode = Tested, mi_encode = Tested, mi_stream_arity = (1, 1)\<rparr>,
     \<lparr>mi_method = M_Aes256Cbc, mi_id = ID_AES256CBC, mi_name = ''AES256CBC'', mi_kind = Crypto,
      mi_decode = Unsupported, mi_encode = Unsupported, mi_stream_arity = (1, 1)\<rparr>]"

definition ALL_METHODS :: "SevenZMethod list" where
  "ALL_METHODS = map mi_method METHOD_REGISTRY"

definition method_info :: "bytes \<Rightarrow> MethodInfo option" where
  "method_info i = List.find (\<lambda>info. mi_id info = i) METHOD_REGISTRY"

text \<open>\<open>SevenZMethod::info\<close>; \<open>None\<close> is the panic of its \<open>expect\<close>.\<close>

definition SevenZMethod_info :: "SevenZMethod \<Rightarrow> MethodInfo option" where
  "SevenZMethod_info m = List.find (\<lambda>info. mi_method info = m) METHOD_REGISTRY"

definition stream_arity :: "SevenZMethod \<Rightarrow> (u64 \<times> u64) option" where
  "stream_arity m = map_option mi_stream_arity (SevenZMethod_info m)"

definition SevenZMethod_id :: "SevenZMethod \<Rightarrow> bytes option" where
  "SevenZMethod_id m = map_option mi_id (SevenZMethod_info m)"

definition SevenZMethod_name :: "SevenZMethod \<Rightarrow> string option" where
  "SevenZMethod_name m = map_option mi_name (SevenZMethod_info m)"

definition can_decode :: "MethodInfo \<Rightarrow> bool" where
  "can_decode info = is_implemented (mi_decode info)"

definition can_encode :: "MethodInfo \<Rightarrow> bool" where
  "can_encode info = is_implemented (mi_encode info)"

definition method_from_id :: "bytes \<Rightarrow> SevenZMethod option" where
  "method_from_id i = map_option mi_method (method_info i)"

text \<open>\<open>to_ascii_lowercase\<close> after dropping the separators.\<close>

definition ascii_lowercase :: "char \<Rightarrow> char" where
  "ascii_lowercase c =
     (let n = (of_char c :: nat) in if 65 \<le> n \<and> n \<le> 90 then char_of (n + 32) else c)"

definition normalize_name :: "string \<Rightarrow> string" where
  "normalize_name name =
     map ascii_lowercase (filter (\<lambda>b. b \<notin> {CHR ''-'', CHR ''_'', CHR '' ''}) name)"

definition method_from_name :: "string \<Rightarrow> SevenZMethod option" where
  "method_from_name name =
     map_option mi_method
       (List.find (\<lambda>info. normalize_name (mi_name info) = normalize_name name) METHOD_REGISTRY)"


section \<open>The registry is complete\<close>

text \<open>Every variant has an entry, so no accessor of a method panics.\<close>

lemma method_registered: "\<exists>info. SevenZMethod_info m = Some info \<and> mi_method info = m"
  by (cases m) (simp_all add: SevenZMethod_info_def METHOD_REGISTRY_def)

lemma method_stream_arity:
  "stream_arity m = Some (if m = M_Bcj2 then (4, 1) else (1, 1))"
  by (cases m) (simp_all add: stream_arity_def SevenZMethod_info_def METHOD_REGISTRY_def)

text \<open>An ID leads back to its method; only the fast LZMA2 encoder shares one, with LZMA2.\<close>

lemma method_id_round_trip:
  "\<exists>i. SevenZMethod_id m = Some i \<and> length i \<le> 15 \<and>
       method_from_id i = Some (if m = M_FastLzma2 then M_Lzma2 else m)"
  by (cases m) (simp_all add: SevenZMethod_id_def SevenZMethod_info_def method_from_id_def
      method_info_def METHOD_REGISTRY_def codec_ids)

text \<open>The names stay distinct when case and separators are ignored.\<close>

lemma normalized_names: "map (normalize_name \<circ> mi_name) METHOD_REGISTRY =
   [''copy'', ''lzma'', ''lzma2'', ''bzip2'', ''ppmd'', ''deflate'', ''deflate64'', ''bcj'', ''bcj2'',
    ''arm'', ''arm64'', ''armt'', ''ia64'', ''ppc'', ''sparc'', ''riscv'', ''delta'', ''swap2'', ''swap4'',
    ''zstd'', ''brotli'', ''lz4'', ''lz5'', ''lizard'', ''flzma2'', ''lzham'', ''7zaes'', ''aes256cbc'']"
  by code_simp

lemma find_unique:
  "distinct (map f xs) \<Longrightarrow> x \<in> set xs \<Longrightarrow> List.find (\<lambda>y. f y = f x) xs = Some x"
  by (induction xs) (auto simp: image_iff)

lemma method_name_round_trip:
  "\<exists>n. SevenZMethod_name m = Some n \<and> method_from_name n = Some m"
proof -
  obtain info where info: "SevenZMethod_info m = Some info" "mi_method info = m"
    using method_registered by blast
  then have "info \<in> set METHOD_REGISTRY"
    by (auto simp: SevenZMethod_info_def find_Some_iff)
  moreover have "distinct (map (normalize_name \<circ> mi_name) METHOD_REGISTRY)"
    by (simp add: normalized_names)
  ultimately have "List.find (\<lambda>y. (normalize_name \<circ> mi_name) y = (normalize_name \<circ> mi_name) info)
      METHOD_REGISTRY = Some info"
    by (intro find_unique)
  with info show ?thesis
    by (simp add: SevenZMethod_name_def method_from_name_def)
qed

section \<open>Properties\<close>

text \<open>
  The registry knows every method by its archive ID and by its name: no accessor
  panics, an ID leads back to its method (the fast LZMA2 encoder shares the ID of LZMA2), and a
  name leads back to its method.
\<close>

theorem method_registry_round_trip:
  "\<exists>i n. SevenZMethod_id m = Some i \<and> length i \<le> 15 \<and>
     method_from_id i = Some (if m = M_FastLzma2 then M_Lzma2 else m) \<and>
     SevenZMethod_name m = Some n \<and> method_from_name n = Some m"
  using method_id_round_trip [of m] method_name_round_trip [of m] by blast

end
