(* ===== verification/Errors.thy ===== *)
theory Errors
  imports R7z_Prelude
begin

text \<open>
  \<^verbatim>\<open>src/src/error.rs\<close>: the error type of the crate, and the two loops over fallible
  steps that the sources write with iterators.
\<close>

text \<open>
  \<open>std::io::Error\<close>: what the crate looks at is its kind and whether its payload is
  the marker \<open>CancelledRead\<close> of \<^verbatim>\<open>src/src/operation.rs\<close> or an error of the crate.
\<close>

datatype io_kind = UnexpectedEof | InvalidData | InvalidInput | Interrupted | WriteZero | OtherKind

datatype R7zError =
    Cancelled
  | Parse
  | InvalidFolderGraph
  | ArchiveMismatch
  | InvalidRawFolderLayout
  | InvalidProperty u8
  | UnsupportedCodec bytes
  | Crc
  | Io io_error
  | Decompression
  | PasswordRequired
  | WrongPassword
  | UnsafePath "u32 list"
  | EntryNotFound "u32 list"
  | Directory
  | InvalidOptions string
  | LimitExceeded string
  | ResourceLimitExceeded string u64
and io_error = CancelledRead | IoWrapped R7zError | IoKind io_kind

type_synonym 'a io_result = "(io_error, 'a) result"
type_synonym 'a r7z_result = "(R7zError, 'a) result"

fun R7zError_from_io :: "io_error \<Rightarrow> R7zError" where
  "R7zError_from_io CancelledRead = Cancelled"
| "R7zError_from_io e = Io e"

text \<open>\<open>iter.map(f).collect::<Result<Vec<_>, _>>()\<close> and \<open>iter.try_fold(acc, f)\<close>.\<close>

fun collect_results :: "('a \<Rightarrow> ('e, 'b) result) \<Rightarrow> 'a list \<Rightarrow> ('e, 'b list) result" where
  "collect_results f [] = Ok []"
| "collect_results f (x # xs) =
     and_then (f x) (\<lambda>y. and_then (collect_results f xs) (\<lambda>ys. Ok (y # ys)))"

fun try_fold :: "('b \<Rightarrow> 'a \<Rightarrow> ('e, 'b) result) \<Rightarrow> 'b \<Rightarrow> 'a list \<Rightarrow> ('e, 'b) result" where
  "try_fold f acc [] = Ok acc"
| "try_fold f acc (x # xs) = and_then (f acc x) (\<lambda>acc. try_fold f acc xs)"

lemma collect_results_eq_Ok:
  "collect_results f xs = Ok ys \<longleftrightarrow> list_all2 (\<lambda>x y. f x = Ok y) xs ys"
proof (induction xs arbitrary: ys)
  case (Cons x xs)
  then show ?case by (cases ys) auto
qed auto

lemma collect_results_total:
  "(\<And>x. x \<in> set xs \<Longrightarrow> f x = Ok (g x)) \<Longrightarrow> collect_results f xs = Ok (map g xs)"
  by (induction xs) auto

lemma try_fold_append:
  "try_fold f acc (xs @ ys) = and_then (try_fold f acc xs) (\<lambda>acc. try_fold f acc ys)"
  by (induction xs arbitrary: acc) (auto simp: and_then_assoc)

text \<open>An invariant of the step is an invariant of the fold.\<close>

lemma try_fold_invariant:
  assumes "try_fold f acc xs = Ok acc'" and "P acc"
    and "\<And>acc x acc'. x \<in> set xs \<Longrightarrow> f acc x = Ok acc' \<Longrightarrow> P acc \<Longrightarrow> P acc'"
  shows "P acc'"
  using assms
proof (induction xs arbitrary: acc)
  case (Cons x xs)
  then obtain acc1 where "f acc x = Ok acc1" "try_fold f acc1 xs = Ok acc'"
    by auto
  with Cons show ?case by (metis list.set_intros)
qed simp

end
