(* ===== verification/Folder_Graph.thy ===== *)
theory Folder_Graph
  imports Folder_Layout Methods Errors
begin

text \<open>
  \<^verbatim>\<open>src/src/folder.rs\<close>, second part: the coder graph of a folder. Streams are numbered
  globally over the coders; a bind pair feeds an output stream to an input stream. Resolving the
  graph checks the stream counts of every coder, that the pairs are a matching, that one
  output is left for the folder and that the coders can be ordered so that each runs after
  those that feed it (Kahn's algorithm with a stack of ready coders).
\<close>

type_synonym CoderIndex = nat
type_synonym InputStreamIndex = nat
type_synonym OutputStreamIndex = nat
type_synonym PackedStreamIndex = nat

record FolderGraph =
  g_execution_order :: "CoderIndex list"
  g_packed_inputs :: "(PackedStreamIndex \<times> InputStreamIndex) list"
  g_final_output :: OutputStreamIndex
  g_input_owners :: "CoderIndex list"
  g_output_owners :: "CoderIndex list"
  g_input_sources :: "OutputStreamIndex option list"

text \<open>\<open>from_raw\<close> of both kinds of stream index.\<close>

definition stream_from_raw :: "u64 \<Rightarrow> nat \<Rightarrow> nat r7z_result" where
  "stream_from_raw raw num_streams =
     and_then (ok_or InvalidFolderGraph (usize_try_from raw)) (\<lambda>index.
       if index < num_streams then Ok index else Err InvalidFolderGraph)"

record StreamArity =
  sa_inputs :: nat
  sa_outputs :: nat

definition StreamArity_try_from :: "CoderInfo \<Rightarrow> StreamArity r7z_result" where
  "StreamArity_try_from coder =
     (let actual = (num_in_streams coder, num_out_streams coder) in
      if (case method_from_id (codec_id coder) of
            Some m \<Rightarrow> stream_arity m \<noteq> Some actual
          | None \<Rightarrow> False)
      then Err InvalidFolderGraph
      else
        and_then (ok_or InvalidFolderGraph (usize_try_from (fst actual))) (\<lambda>ins.
        and_then (ok_or InvalidFolderGraph (usize_try_from (snd actual))) (\<lambda>outs.
          if 1 \<le> ins \<and> ins \<le> MAX_FOLDER_STREAMS \<and> 1 \<le> outs \<and> outs \<le> MAX_FOLDER_STREAMS
          then Ok \<lparr>sa_inputs = ins, sa_outputs = outs\<rparr>
          else Err InvalidFolderGraph)))"

record StreamOwners =
  own_inputs :: "CoderIndex list"
  own_outputs :: "CoderIndex list"

definition capped_add :: "nat \<Rightarrow> nat \<Rightarrow> nat r7z_result" where
  "capped_add a b =
     and_then (ok_or InvalidFolderGraph (usize_checked_add a b)) (\<lambda>count.
       if count \<le> MAX_FOLDER_STREAMS then Ok count else Err InvalidFolderGraph)"

definition add_arity :: "nat \<times> nat \<Rightarrow> StreamArity \<Rightarrow> (nat \<times> nat) r7z_result" where
  "add_arity sums arity =
     and_then (capped_add (fst sums) (sa_inputs arity)) (\<lambda>ins.
     and_then (capped_add (snd sums) (sa_outputs arity)) (\<lambda>outs.
       Ok (ins, outs)))"

text \<open>The owners of the streams: coder \<open>i\<close> repeated once for each of its streams.\<close>

definition owner_list :: "nat list \<Rightarrow> CoderIndex list" where
  "owner_list ns = concat (map (\<lambda>(i, n). replicate n i) (List.enumerate 0 ns))"

definition StreamOwners_from_coders :: "CoderInfo list \<Rightarrow> StreamOwners r7z_result" where
  "StreamOwners_from_coders cs =
     and_then (collect_results StreamArity_try_from cs) (\<lambda>arities.
     and_then (try_fold add_arity (0, 0) arities) (\<lambda>_.
       Ok \<lparr>own_inputs = owner_list (map sa_inputs arities),
           own_outputs = owner_list (map sa_outputs arities)\<rparr>))"

record Bindings =
  bound_inputs :: "bool list"
  bound_outputs :: "bool list"
  input_sources :: "OutputStreamIndex option list"
  edges :: "CoderIndex list list"
  indegree :: "nat list"

definition Bindings_bind :: "StreamOwners \<Rightarrow> Bindings \<Rightarrow> u64 \<times> u64 \<Rightarrow> Bindings r7z_result" where
  "Bindings_bind owners self pair =
     and_then (stream_from_raw (fst pair) (length (own_inputs owners))) (\<lambda>input.
     and_then (stream_from_raw (snd pair) (length (own_outputs owners))) (\<lambda>output.
     and_then (ok_or InvalidFolderGraph (get (bound_inputs self) input)) (\<lambda>input_bound.
     and_then (ok_or InvalidFolderGraph (get (bound_outputs self) output)) (\<lambda>output_bound.
       if input_bound \<or> output_bound then Err InvalidFolderGraph
       else
         and_then (ok_or InvalidFolderGraph (get (own_outputs owners) output)) (\<lambda>source.
         and_then (ok_or InvalidFolderGraph (get (own_inputs owners) input)) (\<lambda>target.
           if source = target then Err InvalidFolderGraph
           else
             and_then (ok_or InvalidFolderGraph (get (input_sources self) input)) (\<lambda>_.
             and_then (ok_or InvalidFolderGraph (get (edges self) source)) (\<lambda>out_edges.
             and_then (ok_or InvalidFolderGraph (get (indegree self) target)) (\<lambda>degree.
               Ok \<lparr>bound_inputs = (bound_inputs self)[input := True],
                   bound_outputs = (bound_outputs self)[output := True],
                   input_sources = (input_sources self)[input := Some output],
                   edges = (edges self)[source := out_edges @ [target]],
                   indegree = (indegree self)[target := degree + 1]\<rparr>)))))))))"

definition Bindings_new :: "(u64 \<times> u64) list \<Rightarrow> StreamOwners \<Rightarrow> nat \<Rightarrow> Bindings r7z_result" where
  "Bindings_new pairs owners coder_count =
     and_then (ok_or InvalidFolderGraph (checked_sub (length (own_outputs owners)) 1)) (\<lambda>expected_pairs.
       if length pairs \<noteq> expected_pairs then Err InvalidFolderGraph
       else try_fold (Bindings_bind owners)
              \<lparr>bound_inputs = replicate (length (own_inputs owners)) False,
               bound_outputs = replicate (length (own_outputs owners)) False,
               input_sources = replicate (length (own_inputs owners)) None,
               edges = replicate coder_count [],
               indegree = replicate coder_count 0\<rparr> pairs)"

text \<open>The positions of the \<open>False\<close> entries, in order.\<close>

definition unset_positions :: "bool list \<Rightarrow> nat list" where
  "unset_positions bs = filter (\<lambda>i. \<not> bs ! i) [0..<length bs]"

definition final_output :: "Bindings \<Rightarrow> OutputStreamIndex r7z_result" where
  "final_output self =
     (case unset_positions (bound_outputs self) of
        [output] \<Rightarrow> Ok output
      | _ \<Rightarrow> Err InvalidFolderGraph)"

fun explicit_packed_inputs ::
  "bool list \<Rightarrow> nat \<Rightarrow> u64 list \<Rightarrow> bool list \<Rightarrow> (PackedStreamIndex \<times> InputStreamIndex) list r7z_result" where
  "explicit_packed_inputs bound packed [] seen = Ok []"
| "explicit_packed_inputs bound packed (raw # raws) seen =
     and_then (stream_from_raw raw (length bound)) (\<lambda>input.
       let is_unbound = (get bound input = Some False);
           is_new = (get seen input = Some False);
           seen = seen[input := True]
       in if is_unbound \<and> is_new
          then and_then (explicit_packed_inputs bound (Suc packed) raws seen) (\<lambda>rest.
                 Ok ((packed, input) # rest))
          else Err InvalidFolderGraph)"

definition packed_inputs ::
  "Bindings \<Rightarrow> u64 list \<Rightarrow> (PackedStreamIndex \<times> InputStreamIndex) list r7z_result" where
  "packed_inputs self explicit =
     (let unbound = unset_positions (bound_inputs self) in
      if explicit = [] then
        (case unbound of [input] \<Rightarrow> Ok [(0, input)] | _ \<Rightarrow> Err InvalidFolderGraph)
      else if length explicit = length unbound then
        explicit_packed_inputs (bound_inputs self) 0 explicit
          (replicate (length (bound_inputs self)) False)
      else Err InvalidFolderGraph)"

text \<open>The inner loop of \<open>execution_order\<close>: the successors of one coder.\<close>

fun visit_successors :: "CoderIndex list \<Rightarrow> nat list \<Rightarrow> CoderIndex list \<Rightarrow>
    (nat list \<times> CoderIndex list) r7z_result" where
  "visit_successors [] degrees ready = Ok (degrees, ready)"
| "visit_successors (next # ns) degrees ready =
     and_then (ok_or InvalidFolderGraph (get degrees next)) (\<lambda>degree.
     and_then (ok_or InvalidFolderGraph (checked_sub degree 1)) (\<lambda>degree.
       visit_successors ns (degrees[next := degree])
         (if degree = 0 then ready @ [next] else ready)))"

lemma sum_list_decrement:
  "i < length (xs :: nat list) \<Longrightarrow> xs ! i = Suc d \<Longrightarrow> Suc (sum_list (xs[i := d])) = sum_list xs"
  using elem_le_sum_list [of i xs] by (simp add: sum_list_update)

lemma visit_successors_measure:
  "visit_successors ns deg ready = Ok (deg', ready') \<Longrightarrow>
     sum_list deg' + length ready' \<le> sum_list deg + length ready"
proof (induction ns deg ready rule: visit_successors.induct)
  case (2 n ns deg ready)
  then obtain d where d: "n < length deg" "deg ! n = Suc d"
    and go: "visit_successors ns (deg[n := d]) (if d = 0 then ready @ [n] else ready) = Ok (deg', ready')"
    by auto
  from 2 d go have "sum_list deg' + length ready'
      \<le> sum_list (deg[n := d]) + length (if d = 0 then ready @ [n] else ready)"
    by auto
  then show ?case
    using sum_list_decrement [OF d] by (auto split: if_splits)
qed simp

function execution_loop :: "CoderIndex list list \<Rightarrow> nat list \<Rightarrow> CoderIndex list \<Rightarrow> CoderIndex list \<Rightarrow>
    CoderIndex list r7z_result" where
  "execution_loop es degrees ready order =
     (if ready = [] then Ok order
      else let node = last ready in
        and_then (ok_or InvalidFolderGraph (get es node)) (\<lambda>successors.
        and_then (visit_successors successors degrees (butlast ready)) (\<lambda>(degrees, ready).
          execution_loop es degrees ready (order @ [node]))))"
  by pat_completeness auto
termination
  by (relation "measure (\<lambda>(es, degrees, ready, order). sum_list degrees + length ready)")
     (auto dest!: visit_successors_measure elim: le_less_trans simp flip: length_greater_0_conv)

declare execution_loop.simps [simp del]

definition zero_positions :: "nat list \<Rightarrow> nat list" where
  "zero_positions ds = filter (\<lambda>i. ds ! i = 0) [0..<length ds]"

definition execution_order :: "Bindings \<Rightarrow> CoderIndex list r7z_result" where
  "execution_order self =
     and_then (execution_loop (edges self) (indegree self) (zero_positions (indegree self)) []) (\<lambda>order.
       if length order = length (indegree self) then Ok order else Err InvalidFolderGraph)"

definition graph :: "Folder \<Rightarrow> FolderGraph r7z_result" where
  "graph self =
     and_then (StreamOwners_from_coders (coders self)) (\<lambda>owners.
     and_then (Bindings_new (bind_pairs self) owners (length (coders self))) (\<lambda>bindings.
     and_then (final_output bindings) (\<lambda>final_output.
     and_then (packed_inputs bindings (packed_indices self)) (\<lambda>packed_inputs.
     and_then (execution_order bindings) (\<lambda>execution_order.
       Ok \<lparr>g_execution_order = execution_order,
           g_packed_inputs = packed_inputs,
           g_final_output = final_output,
           g_input_owners = own_inputs owners,
           g_output_owners = own_outputs owners,
           g_input_sources = input_sources bindings\<rparr>)))))"

end
