(* ===== verification/Folder_Order.thy ===== *)
theory Folder_Order
  imports Folder_Graph
begin

text \<open>
  The ordering loop of a folder graph. Whatever the graph, the loop never hits its internal
  error branches; it stops with every coder ordered exactly when the graph has no cycle, and
  then each coder comes after all coders that feed it.
\<close>

section \<open>The graph the loop works on\<close>

text \<open>\<open>edge_graph es n\<close>: adjacency lists of \<open>n\<close> nodes; \<open>in_edges\<close> counts the edges into a node.\<close>

definition edge_graph :: "CoderIndex list list \<Rightarrow> nat \<Rightarrow> bool" where
  "edge_graph es n \<longleftrightarrow> length es = n \<and> (\<forall>u<n. set (es ! u) \<subseteq> {..<n})"

definition in_edges :: "CoderIndex list list \<Rightarrow> nat set \<Rightarrow> nat \<Rightarrow> nat" where
  "in_edges es U v = (\<Sum>u\<in>U. count_list (es ! u) v)"

definition edge_rel :: "CoderIndex list list \<Rightarrow> (nat \<times> nat) set" where
  "edge_rel es = {(u, v). u < length es \<and> v \<in> set (es ! u)}"

text \<open>Every node of the list comes after all its predecessors.\<close>

definition topological :: "CoderIndex list list \<Rightarrow> CoderIndex list \<Rightarrow> bool" where
  "topological es order \<longleftrightarrow>
     (\<forall>xs v ys u. order = xs @ v # ys \<longrightarrow> (u, v) \<in> edge_rel es \<longrightarrow> u \<in> set xs)"

definition order_inv :: "CoderIndex list list \<Rightarrow> nat list \<Rightarrow> CoderIndex list \<Rightarrow> CoderIndex list \<Rightarrow> bool" where
  "order_inv es deg ready order \<longleftrightarrow>
     length deg = length es \<and> distinct (order @ ready) \<and> set (order @ ready) \<subseteq> {..<length es} \<and>
     (\<forall>v<length es. deg ! v = in_edges es ({..<length es} - set order) v) \<and>
     (\<forall>v<length es. deg ! v = 0 \<longleftrightarrow> v \<in> set order \<union> set ready) \<and>
     topological es order"

lemma in_edges_remove:
  "finite U \<Longrightarrow> u \<in> U \<Longrightarrow> in_edges es U v = count_list (es ! u) v + in_edges es (U - {u}) v"
  by (simp add: in_edges_def sum.remove)

lemma in_edges_eq_0:
  "finite U \<Longrightarrow> in_edges es U v = 0 \<longleftrightarrow> (\<forall>u\<in>U. v \<notin> set (es ! u))"
  by (simp add: in_edges_def count_list_0_iff)


section \<open>One round\<close>

lemma visit_successors_ok:
  assumes "\<And>v. v \<in> set ns \<Longrightarrow> v < length deg \<and> count_list ns v \<le> deg ! v"
  shows "\<exists>deg' new. visit_successors ns deg ready = Ok (deg', ready @ new) \<and>
      length deg' = length deg \<and> (\<forall>v<length deg. deg' ! v = deg ! v - count_list ns v) \<and>
      distinct new \<and> set new = {v \<in> set ns. deg ! v = count_list ns v}"
  using assms
proof (induction ns arbitrary: deg ready)
  case (Cons n ns)
  let ?d = "deg ! n - 1"
  let ?ready = "if ?d = 0 then ready @ [n] else ready"
  have n: "n < length deg" "1 \<le> deg ! n" "count_list ns n \<le> ?d"
    using Cons.prems [of n] by auto
  have "v < length (deg[n := ?d]) \<and> count_list ns v \<le> deg[n := ?d] ! v" if "v \<in> set ns" for v
    using Cons.prems [of v] that n by (auto simp: nth_list_update split: if_splits)
  from Cons.IH [OF this, where ready = ?ready] obtain deg' new where IH:
    "visit_successors ns (deg[n := ?d]) ?ready = Ok (deg', ?ready @ new)"
    "length deg' = length deg" "\<And>v. v < length deg \<Longrightarrow> deg' ! v = deg[n := ?d] ! v - count_list ns v"
    "distinct new" "set new = {v \<in> set ns. deg[n := ?d] ! v = count_list ns v}"
    by auto
  have run: "visit_successors (n # ns) deg ready = Ok (deg', ?ready @ new)"
    using IH(1) n by (simp add: get_def checked_sub_def)
  have val: "deg' ! v = deg ! v - count_list (n # ns) v" if "v < length deg" for v
    using IH(3) [OF that] n by (auto simp: nth_list_update)
  have keep: "deg[n := ?d] ! v = count_list ns v \<longleftrightarrow> deg ! v = count_list (n # ns) v" for v
    using n by (cases "v = n") auto
  show ?case
  proof (cases "?d = 0")
    case True
    then have "n \<notin> set ns" using n(3) by (simp add: count_list_0_iff)
    then show ?thesis
      using run val IH(2,4,5) True n keep
      by (intro exI [of _ deg'] exI [of _ "n # new"]) (auto simp: count_list_0_iff)
  next
    case False
    then have "n \<in> set ns" if "deg ! n = count_list (n # ns) n"
      using that n by (metis (full_types) count_list.simps(2) add_diff_cancel_right' count_list_0_iff)
    then show ?thesis
      using run val IH(2,4,5) False keep
      by (intro exI [of _ deg'] exI [of _ new]) auto
  qed
qed simp

lemma topological_snoc:
  assumes "topological es order" and "\<And>u. (u, v) \<in> edge_rel es \<Longrightarrow> u \<in> set order"
  shows "topological es (order @ [v])"
  unfolding topological_def
proof (intro allI impI)
  fix xs w ys u
  assume split: "order @ [v] = xs @ w # ys" and e: "(u, w) \<in> edge_rel es"
  show "u \<in> set xs"
  proof (cases ys rule: rev_cases)
    case Nil
    then show ?thesis using split e assms(2) by simp
  next
    case (snoc zs z)
    then have "order = xs @ w # zs" using split by simp
    then show ?thesis using assms(1) e unfolding topological_def by blast
  qed
qed

lemma order_round:
  assumes wf: "edge_graph es n" and inv: "order_inv es deg (ready @ [node]) order"
  shows "\<exists>deg' ready'. node < length es \<and> visit_successors (es ! node) deg ready = Ok (deg', ready') \<and>
      order_inv es deg' ready' (order @ [node])"
proof -
  let ?n = "length es" and ?U = "{..<length es} - set order"
  have len: "length deg = ?n" and dist: "distinct (order @ ready @ [node])"
    and sub: "set order \<subseteq> {..<?n}" "set ready \<subseteq> {..<?n}" and node: "node < ?n"
    and topo: "topological es order"
    using inv by (auto simp: order_inv_def)
  have deg: "deg ! v = count_list (es ! node) v + in_edges es (?U - {node}) v" if "v < ?n" for v
  proof -
    have "deg ! v = in_edges es ?U v"
      using inv that by (simp add: order_inv_def)
    also have "\<dots> = count_list (es ! node) v + in_edges es (?U - {node}) v"
      using node dist by (intro in_edges_remove) auto
    finally show ?thesis .
  qed
  have zero: "deg ! v = 0 \<longleftrightarrow> v \<in> set order \<union> set ready \<or> v = node" if "v < ?n" for v
    using inv that by (auto simp: order_inv_def)
  have succ: "set (es ! node) \<subseteq> {..<?n}"
    using wf node by (auto simp: edge_graph_def)
  then have "v < length deg \<and> count_list (es ! node) v \<le> deg ! v" if "v \<in> set (es ! node)" for v
    using that deg [of v] len by auto
  from visit_successors_ok [of "es ! node" deg ready, OF this] obtain deg' new where
    run: "visit_successors (es ! node) deg ready = Ok (deg', ready @ new)"
    and deg': "length deg' = ?n" "\<And>v. v < ?n \<Longrightarrow> deg' ! v = deg ! v - count_list (es ! node) v"
    and new: "distinct new" "set new = {v \<in> set (es ! node). deg ! v = count_list (es ! node) v}"
    using len by auto
  have fresh: "deg ! v \<noteq> 0" "v < ?n" if "v \<in> set new" for v
    using that new(2) succ count_list_0_iff [of "es ! node" v] by auto
  have d': "deg' ! v = in_edges es ({..<?n} - set (order @ [node])) v" if "v < ?n" for v
  proof -
    have "{..<?n} - set (order @ [node]) = ?U - {node}" by auto
    then show ?thesis using deg [OF that] deg'(2) [OF that] by simp
  qed
  have z': "deg' ! v = 0 \<longleftrightarrow> v \<in> set (order @ [node]) \<union> set (ready @ new)" if v: "v < ?n" for v
  proof (cases "deg ! v = 0")
    case True
    then show ?thesis using zero [OF v] deg'(2) [OF v] by auto
  next
    case False
    then have "deg' ! v = 0 \<longleftrightarrow> deg ! v = count_list (es ! node) v"
      using deg [OF v] deg'(2) [OF v] by linarith
    also have "\<dots> \<longleftrightarrow> v \<in> set new"
      using False new(2) count_notin [of v "es ! node"] by auto
    finally show ?thesis using zero [OF v] False by auto
  qed
  have "u \<in> set order" if "(u, node) \<in> edge_rel es" for u
  proof -
    have "in_edges es ?U node = 0"
      using inv node zero [OF node] by (simp add: order_inv_def)
    then show ?thesis using that by (auto simp: in_edges_eq_0 edge_rel_def)
  qed
  then have "topological es (order @ [node])"
    by (rule topological_snoc [OF topo])
  moreover have "distinct ((order @ [node]) @ ready @ new)"
    using dist new(1) fresh zero by auto
  moreover have "set ((order @ [node]) @ ready @ new) \<subseteq> {..<?n}"
    using sub node fresh by auto
  ultimately have "order_inv es deg' (ready @ new) (order @ [node])"
    using deg'(1) d' z' unfolding order_inv_def by blast
  with run node show ?thesis by blast
qed

lemma execution_loop_ok:
  assumes "edge_graph es n" and "order_inv es deg ready order"
  shows "\<exists>deg' order'. execution_loop es deg ready order = Ok order' \<and> order_inv es deg' [] order'"
  using assms
proof (induction es deg ready order rule: execution_loop.induct)
  case (1 es deg ready order)
  show ?case
  proof (cases ready rule: rev_cases)
    case Nil
    then show ?thesis using 1 by (auto simp: execution_loop.simps [of es deg "[]"])
  next
    case (snoc rest node)
    with "1.prems" obtain deg' ready' where *: "node < length es"
      "visit_successors (es ! node) deg rest = Ok (deg', ready')"
      "order_inv es deg' ready' (order @ [node])"
      using order_round [of es n deg rest node order] by blast
    have "\<exists>deg'' order'. execution_loop es deg' ready' (order @ [node]) = Ok order' \<and> order_inv es deg'' [] order'"
      using * snoc "1.prems"
      by (intro "1.IH" [of node "es ! node" "(deg', ready')" deg' ready']) (auto simp: get_def)
    moreover have "execution_loop es deg ready order = execution_loop es deg' ready' (order @ [node])"
      using * snoc by (simp add: execution_loop.simps [of es deg "rest @ [node]" order] get_def)
    ultimately show ?thesis by simp
  qed
qed


section \<open>Cycles\<close>

lemma topological_acyclic:
  assumes "topological es order" and "set order = {..<length es}" and "edge_graph es n"
  shows "acyclic (edge_rel es)"
proof -
  define pos where "pos v = length (takeWhile (\<lambda>u. u \<noteq> v) order)" for v
  have "pos u < pos v" if e: "(u, v) \<in> edge_rel es" for u v
  proof -
    have "v \<in> set order"
      using e assms(2,3) by (auto simp: edge_rel_def edge_graph_def)
    then obtain xs ys where split: "order = xs @ v # ys" "v \<notin> set xs"
      by (meson split_list_first)
    then have u: "u \<in> set xs"
      using assms(1) e unfolding topological_def by blast
    have "pos v = length xs"
      unfolding pos_def split(1) using split(2) by (subst takeWhile_append2) auto
    moreover have "length (takeWhile (\<lambda>w. w \<noteq> u) xs) < length xs"
      using u by (induction xs) auto
    moreover have "pos u = length (takeWhile (\<lambda>w. w \<noteq> u) xs)"
      using u split by (simp add: pos_def takeWhile_append1)
    ultimately show ?thesis by simp
  qed
  then have "edge_rel es \<subseteq> measure pos" by (auto simp: in_measure)
  then show ?thesis by (meson acyclic_subset wf_acyclic wf_measure)
qed

text \<open>When the stack is empty, a node left over has a predecessor left over.\<close>

lemma order_complete:
  assumes inv: "order_inv es deg [] order" and wf: "edge_graph es n" and ac: "acyclic (edge_rel es)"
  shows "set order = {..<length es}"
proof (rule ccontr)
  let ?U = "{..<length es} - set order"
  assume "set order \<noteq> {..<length es}"
  moreover have "set order \<subseteq> {..<length es}" using inv by (simp add: order_inv_def)
  ultimately have ne: "?U \<noteq> {}" by blast
  have "edge_rel es \<subseteq> {..<length es} \<times> {..<length es}"
    using wf by (auto simp: edge_rel_def edge_graph_def)
  then have "finite (edge_rel es)" by (rule finite_subset) simp
  then have "wf (edge_rel es)" using ac by (rule finite_acyclic_wf)
  then obtain v where v: "v \<in> ?U" "\<And>u. (u, v) \<in> edge_rel es \<Longrightarrow> u \<notin> ?U"
    using ne by (metis wfE_min')
  then have "deg ! v \<noteq> 0" "deg ! v = in_edges es ?U v"
    using inv by (auto simp: order_inv_def)
  then obtain u where "u \<in> ?U" "v \<in> set (es ! u)" by (auto simp: in_edges_eq_0)
  with v show False by (auto simp: edge_rel_def)
qed

lemma order_inv_initial:
  assumes "edge_graph es n" and "length deg = n" and "\<And>v. v < n \<Longrightarrow> deg ! v = in_edges es {..<n} v"
  shows "order_inv es deg (zero_positions deg) []"
  using assms by (auto simp: order_inv_def zero_positions_def topological_def edge_graph_def)

text \<open>The loop and its final length check: success is exactly absence of cycles.\<close>

lemma execution_order_spec:
  assumes wf: "edge_graph (edges b) (length (indegree b))"
    and deg: "\<And>v. v < length (indegree b) \<Longrightarrow>
        indegree b ! v = in_edges (edges b) {..<length (indegree b)} v"
  shows "(\<exists>order. execution_order b = Ok order \<and> distinct order \<and>
            set order = {..<length (indegree b)} \<and> topological (edges b) order \<and> acyclic (edge_rel (edges b))) \<or>
         (execution_order b = Err InvalidFolderGraph \<and> \<not> acyclic (edge_rel (edges b)))"
proof -
  let ?n = "length (indegree b)"
  have len: "length (edges b) = ?n" using wf by (simp add: edge_graph_def)
  from execution_loop_ok [OF wf order_inv_initial [OF wf refl deg]] obtain deg' order where
    run: "execution_loop (edges b) (indegree b) (zero_positions (indegree b)) [] = Ok order"
    and inv: "order_inv (edges b) deg' [] order" by auto
  have dist: "distinct order" and sub: "set order \<subseteq> {..<?n}" and topo: "topological (edges b) order"
    using inv len by (simp_all add: order_inv_def)
  have full: "length order = ?n \<longleftrightarrow> set order = {..<?n}"
    using dist sub by (metis card_lessThan card_subset_eq distinct_card finite_lessThan)
  show ?thesis
  proof (cases "acyclic (edge_rel (edges b))")
    case True
    then have "set order = {..<?n}" using order_complete [OF inv wf] len by simp
    then show ?thesis using True dist topo run full by (simp add: execution_order_def)
  next
    case False
    then have "set order \<noteq> {..<?n}" using topological_acyclic [OF topo _ wf] len by auto
    then show ?thesis using False run full by (simp add: execution_order_def)
  qed
qed

end
