(* ===== verification/Folder_Resolve.thy ===== *)
theory Folder_Resolve
  imports Folder_Order
begin

text \<open>
  What resolving a folder graph computes. The tables that \<open>Bindings_new\<close> fills in one bind
  pair at a time are compared with their closed form, and \<open>graph\<close> with a declarative
  description of the folders it has to accept.
\<close>

section \<open>Owners\<close>

lemma set_owner_list: "set (owner_list ns) \<subseteq> {..<length ns}"
  by (auto simp: owner_list_def in_set_enumerate_eq)

lemma length_owner_list [simp]: "length (owner_list ns) = sum_list ns"
proof -
  have "length \<circ> (\<lambda>(i, n). replicate n (i :: nat)) = snd" by auto
  then show ?thesis by (simp add: owner_list_def length_concat)
qed

text \<open>The stream counts \<open>StreamArity::try_from\<close> accepts.\<close>

definition arity_ok :: "CoderInfo \<Rightarrow> bool" where
  "arity_ok c \<longleftrightarrow>
     (\<forall>m. method_from_id (codec_id c) = Some m \<longrightarrow>
        stream_arity m = Some (num_in_streams c, num_out_streams c)) \<and>
     1 \<le> unat (num_in_streams c) \<and> unat (num_in_streams c) \<le> MAX_FOLDER_STREAMS \<and>
     1 \<le> unat (num_out_streams c) \<and> unat (num_out_streams c) \<le> MAX_FOLDER_STREAMS"

definition arity_of :: "CoderInfo \<Rightarrow> StreamArity" where
  "arity_of c = \<lparr>sa_inputs = unat (num_in_streams c), sa_outputs = unat (num_out_streams c)\<rparr>"

lemma StreamArity_try_from_eq:
  "StreamArity_try_from c = (if arity_ok c then Ok (arity_of c) else Err InvalidFolderGraph)"
  by (auto simp: StreamArity_try_from_def arity_ok_def arity_of_def Let_def split: option.splits)

lemma collect_arities:
  "collect_results StreamArity_try_from cs =
     (if list_all arity_ok cs then Ok (map arity_of cs) else Err InvalidFolderGraph)"
  by (induction cs) (auto simp: StreamArity_try_from_eq)

lemma capped_add_eq:
  "capped_add a b = (if a + b \<le> MAX_FOLDER_STREAMS then Ok (a + b) else Err InvalidFolderGraph)"
  by (auto simp: capped_add_def usize_checked_add_def)

lemma add_arity_eq:
  "add_arity (a, b) x =
     (if a + sa_inputs x \<le> MAX_FOLDER_STREAMS \<and> b + sa_outputs x \<le> MAX_FOLDER_STREAMS
      then Ok (a + sa_inputs x, b + sa_outputs x) else Err InvalidFolderGraph)"
  by (simp add: add_arity_def capped_add_eq)

lemma try_fold_add_arity:
  "is_ok (try_fold add_arity (a, b) xs) \<longleftrightarrow>
     xs = [] \<or> (a + sum_list (map sa_inputs xs) \<le> MAX_FOLDER_STREAMS \<and>
                b + sum_list (map sa_outputs xs) \<le> MAX_FOLDER_STREAMS)"
proof (induction xs arbitrary: a b)
  case (Cons x xs)
  show ?case
    by (cases "xs = []") (auto simp: add_arity_eq Cons.IH)
qed simp

lemma try_fold_add_arity_Err:
  "\<not> is_ok (try_fold add_arity sums xs) \<Longrightarrow> try_fold add_arity sums xs = Err InvalidFolderGraph"
  by (induction xs arbitrary: sums) (auto simp: add_arity_eq split: if_splits)

definition owners_of :: "CoderInfo list \<Rightarrow> StreamOwners" where
  "owners_of cs = \<lparr>own_inputs = owner_list (map (\<lambda>c. unat (num_in_streams c)) cs),
                   own_outputs = owner_list (map (\<lambda>c. unat (num_out_streams c)) cs)\<rparr>"

definition coders_ok :: "CoderInfo list \<Rightarrow> bool" where
  "coders_ok cs \<longleftrightarrow> list_all arity_ok cs \<and>
     sum_list (map (\<lambda>c. unat (num_in_streams c)) cs) \<le> MAX_FOLDER_STREAMS \<and>
     sum_list (map (\<lambda>c. unat (num_out_streams c)) cs) \<le> MAX_FOLDER_STREAMS"

lemma StreamOwners_from_coders_eq:
  "StreamOwners_from_coders cs = (if coders_ok cs then Ok (owners_of cs) else Err InvalidFolderGraph)"
proof -
  have "is_ok (try_fold add_arity (0, 0) (map arity_of cs)) \<longleftrightarrow>
      sum_list (map (\<lambda>c. unat (num_in_streams c)) cs) \<le> MAX_FOLDER_STREAMS \<and>
      sum_list (map (\<lambda>c. unat (num_out_streams c)) cs) \<le> MAX_FOLDER_STREAMS"
    by (auto simp: try_fold_add_arity comp_def arity_of_def)
  then show ?thesis
    using try_fold_add_arity_Err [of "(0, 0)" "map arity_of cs"]
    by (cases "try_fold add_arity (0, 0) (map arity_of cs)")
       (auto simp: StreamOwners_from_coders_def collect_arities coders_ok_def owners_of_def
          arity_of_def comp_def)
qed


section \<open>Bind pairs\<close>

definition matching :: "StreamOwners \<Rightarrow> (nat \<times> nat) list \<Rightarrow> bool" where
  "matching ow ps \<longleftrightarrow>
     (\<forall>(i, j)\<in>set ps. i < length (own_inputs ow) \<and> j < length (own_outputs ow) \<and>
        own_outputs ow ! j \<noteq> own_inputs ow ! i) \<and>
     distinct (map fst ps) \<and> distinct (map snd ps)"

definition bindings_of :: "StreamOwners \<Rightarrow> nat \<Rightarrow> (nat \<times> nat) list \<Rightarrow> Bindings" where
  "bindings_of ow n ps =
     \<lparr>bound_inputs = map (\<lambda>i. i \<in> fst ` set ps) [0..<length (own_inputs ow)],
      bound_outputs = map (\<lambda>j. j \<in> snd ` set ps) [0..<length (own_outputs ow)],
      input_sources = map (map_of ps) [0..<length (own_inputs ow)],
      edges = map (\<lambda>u. map (\<lambda>(i, j). own_inputs ow ! i)
                     (filter (\<lambda>(i, j). own_outputs ow ! j = u) ps)) [0..<n],
      indegree = map (\<lambda>v. length (filter (\<lambda>(i, j). own_inputs ow ! i = v) ps)) [0..<n]\<rparr>"

definition nat_pair :: "u64 \<times> u64 \<Rightarrow> nat \<times> nat" where
  "nat_pair p = (unat (fst p), unat (snd p))"

definition owners_wf :: "StreamOwners \<Rightarrow> nat \<Rightarrow> bool" where
  "owners_wf ow n \<longleftrightarrow> set (own_inputs ow) \<subseteq> {..<n} \<and> set (own_outputs ow) \<subseteq> {..<n}"

lemma map_upt_update:
  "i < n \<Longrightarrow> (map f [0..<n])[i := x] = map (f(i := x)) [0..<n]"
  by (rule nth_equalityI) (auto simp: nth_list_update)

lemma stream_from_raw_eq:
  "stream_from_raw raw n = (if unat raw < n then Ok (unat raw) else Err InvalidFolderGraph)"
  by (simp add: stream_from_raw_def)

lemma matching_snoc:
  "matching ow (ps @ [p]) \<longleftrightarrow> matching ow ps \<and>
     fst p < length (own_inputs ow) \<and> snd p < length (own_outputs ow) \<and>
     own_outputs ow ! snd p \<noteq> own_inputs ow ! fst p \<and>
     fst p \<notin> fst ` set ps \<and> snd p \<notin> snd ` set ps"
  by (auto simp: matching_def case_prod_beta')

lemma Bindings_bind_eq:
  assumes wf: "owners_wf ow n"
  shows "Bindings_bind ow (bindings_of ow n ps) p =
    (let q = nat_pair p in
     if fst q < length (own_inputs ow) \<and> snd q < length (own_outputs ow) \<and>
        own_outputs ow ! snd q \<noteq> own_inputs ow ! fst q \<and>
        fst q \<notin> fst ` set ps \<and> snd q \<notin> snd ` set ps
     then Ok (bindings_of ow n (ps @ [q])) else Err InvalidFolderGraph)"
proof -
  let ?i = "unat (fst p)" and ?j = "unat (snd p)"
  have owners: "own_outputs ow ! j < n" if "j < length (own_outputs ow)" for j
    using wf that nth_mem by (fastforce simp: owners_wf_def)
  have owners': "own_inputs ow ! i < n" if "i < length (own_inputs ow)" for i
    using wf that nth_mem by (fastforce simp: owners_wf_def)
  have src: "(map_of ps)(?i := Some ?j) = map_of (ps @ [(?i, ?j)])" if "?i \<notin> fst ` set ps"
  proof -
    have "map_of ps ?i = None" using that by (simp add: map_of_eq_None_iff)
    then show ?thesis by (auto simp: map_add_def fun_eq_iff split: option.splits)
  qed
  show ?thesis
    using owners [of ?j] owners' [of ?i] src
    by (auto simp: Bindings_bind_def stream_from_raw_eq nat_pair_def Let_def get_def bindings_of_def
        map_upt_update fun_eq_iff)
qed

lemma try_fold_bind:
  assumes wf: "owners_wf ow n" and "matching ow ps"
  shows "try_fold (Bindings_bind ow) (bindings_of ow n ps) pairs =
    (if matching ow (ps @ map nat_pair pairs) then Ok (bindings_of ow n (ps @ map nat_pair pairs))
     else Err InvalidFolderGraph)"
  using assms(2)
proof (induction pairs arbitrary: ps)
  case (Cons p pairs)
  show ?case
  proof (cases "matching ow (ps @ [nat_pair p])")
    case True
    then have "Bindings_bind ow (bindings_of ow n ps) p = Ok (bindings_of ow n (ps @ [nat_pair p]))"
      by (simp add: Bindings_bind_eq [OF wf] matching_snoc Let_def)
    then show ?thesis using Cons.IH [OF True] by simp
  next
    case False
    then have "Bindings_bind ow (bindings_of ow n ps) p = Err InvalidFolderGraph"
      using Cons.prems by (simp add: Bindings_bind_eq [OF wf] matching_snoc Let_def)
    moreover have "\<not> matching ow (ps @ nat_pair p # map nat_pair pairs)"
      using False by (auto simp: matching_def)
    ultimately show ?thesis by simp
  qed
qed simp

lemma Bindings_new_eq:
  assumes "owners_wf ow n"
  shows "Bindings_new pairs ow n =
    (if length pairs + 1 = length (own_outputs ow) \<and> matching ow (map nat_pair pairs)
     then Ok (bindings_of ow n (map nat_pair pairs)) else Err InvalidFolderGraph)"
proof -
  let ?b0 = "\<lparr>bound_inputs = replicate (length (own_inputs ow)) False,
      bound_outputs = replicate (length (own_outputs ow)) False,
      input_sources = replicate (length (own_inputs ow)) None,
      edges = replicate n [], indegree = replicate n 0\<rparr>"
  have "?b0 = bindings_of ow n []"
    by (auto simp: bindings_of_def intro: nth_equalityI)
  then have "try_fold (Bindings_bind ow) ?b0 pairs =
      (if matching ow (map nat_pair pairs) then Ok (bindings_of ow n (map nat_pair pairs))
       else Err InvalidFolderGraph)"
    using try_fold_bind [OF assms, of "[]" pairs] by (simp add: matching_def)
  then show ?thesis
    by (cases "length (own_outputs ow)") (auto simp: Bindings_new_def checked_sub_def)
qed

text \<open>The edges between coders, and that the degree table counts them.\<close>

definition coder_edges :: "StreamOwners \<Rightarrow> (nat \<times> nat) list \<Rightarrow> (nat \<times> nat) set" where
  "coder_edges ow ps = (\<lambda>(i, j). (own_outputs ow ! j, own_inputs ow ! i)) ` set ps"

lemma sum_count_filter:
  "list_all (\<lambda>x. g x < (n :: nat)) xs \<Longrightarrow>
     (\<Sum>u<n. count_list (map f (filter (\<lambda>x. g x = u) xs)) v) = length (filter (\<lambda>x. f x = v) xs)"
proof (induction xs)
  case (Cons x xs)
  have "(\<Sum>u<n. count_list (map f (filter (\<lambda>y. g y = u) (x # xs))) v) =
      (\<Sum>u<n. (if u = g x then (if f x = v then 1 else 0) else 0) +
             count_list (map f (filter (\<lambda>y. g y = u) xs)) v)"
    by (rule sum.cong) auto
  moreover have "(\<Sum>u<n. if u = g x then c else 0) = c" for c :: nat
    using Cons.prems by (simp add: sum.delta)
  ultimately show ?case using Cons by (simp add: sum.distrib)
qed simp

lemma bindings_of_degrees:
  assumes wf: "owners_wf ow n" and m: "matching ow ps"
  defines "b \<equiv> bindings_of ow n ps"
  shows "edge_graph (edges b) (length (indegree b))"
    and "v < length (indegree b) \<Longrightarrow> indegree b ! v = in_edges (edges b) {..<length (indegree b)} v"
    and "edge_rel (edges b) = coder_edges ow ps"
proof -
  have owner: "own_outputs ow ! j < n" "own_inputs ow ! i < n" if "(i, j) \<in> set ps" for i j
    using that m wf nth_mem by (fastforce simp: matching_def owners_wf_def)+
  then show "edge_graph (edges b) (length (indegree b))"
    by (auto simp: b_def bindings_of_def edge_graph_def)
  have "list_all (\<lambda>(i, j). own_outputs ow ! j < n) ps"
    using owner by (auto simp: list_all_iff)
  then show "indegree b ! v = in_edges (edges b) {..<length (indegree b)} v"
    if "v < length (indegree b)"
    using that sum_count_filter [of "\<lambda>(i, j). own_outputs ow ! j" n ps "\<lambda>(i, j). own_inputs ow ! i" v]
    by (simp add: b_def bindings_of_def in_edges_def case_prod_beta')
  show "edge_rel (edges b) = coder_edges ow ps"
    using owner by (auto simp: b_def bindings_of_def edge_rel_def coder_edges_def image_iff Bex_def
        cong: conj_cong)
qed



section \<open>Packed inputs and the final output\<close>

lemma unset_positions_map:
  "unset_positions (map P [0..<m]) = filter (\<lambda>i. \<not> P i) [0..<m]"
  by (auto simp: unset_positions_def intro: filter_cong)

lemma length_unset:
  "length (filter (\<lambda>i. i \<notin> S) [0..<m]) = card ({..<m} - S)"
proof -
  have "length (filter (\<lambda>i. i \<notin> S) [0..<m]) = card (set (filter (\<lambda>i. i \<notin> S) [0..<m]))"
    by (metis distinct_card distinct_filter distinct_upt)
  also have "set (filter (\<lambda>i. i \<notin> S) [0..<m]) = {..<m} - S" by auto
  finally show ?thesis .
qed

text \<open>A matching with one pair less than there are outputs leaves exactly one output.\<close>

lemma final_output_ok:
  assumes "matching ow ps" and "length ps + 1 = length (own_outputs ow)"
  shows "\<exists>j. final_output (bindings_of ow n ps) = Ok j \<and> {..<length (own_outputs ow)} - snd ` set ps = {j}"
proof -
  let ?m = "length (own_outputs ow)" and ?l = "filter (\<lambda>j. j \<notin> snd ` set ps) [0..<length (own_outputs ow)]"
  have "card (snd ` set ps) = length ps"
    using assms(1) by (metis distinct_card length_map list.set_map matching_def)
  moreover have "snd ` set ps \<subseteq> {..<?m}"
    using assms(1) by (auto simp: matching_def)
  ultimately have "length ?l = 1"
    using assms(2) by (simp add: length_unset card_Diff_subset)
  then obtain j where j: "?l = [j]" by (auto simp: length_Suc_conv)
  moreover have "{..<?m} - snd ` set ps = set ?l" by auto
  ultimately show ?thesis
    by (simp add: final_output_def bindings_of_def unset_positions_map)
qed

lemma explicit_packed_inputs_eq:
  assumes "m = length bound"
  shows "explicit_packed_inputs bound k raws (map (\<lambda>i. i \<in> S) [0..<m]) =
    (if (\<forall>raw\<in>set raws. unat raw < m \<and> \<not> bound ! unat raw \<and> unat raw \<notin> S) \<and> distinct raws
     then Ok (List.enumerate k (map unat raws)) else Err InvalidFolderGraph)"
proof (induction raws arbitrary: k S)
  case (Cons raw raws)
  show ?case
  proof (cases "unat raw < m")
    case True
    then have upd: "(map (\<lambda>i. i \<in> S) [0..<m])[unat raw := True] = map (\<lambda>i. i \<in> insert (unat raw) S) [0..<m]"
      by (simp add: map_upt_update)
    show ?thesis
      using True Cons.IH [of "Suc k" "insert (unat raw) S"]
      by (auto simp: stream_from_raw_eq Let_def get_def upd assms [symmetric] simp flip: word_unat_eq_iff)
  next
    case False
    then show ?thesis by (auto simp: stream_from_raw_eq assms [symmetric])
  qed
qed simp

text \<open>The packed streams a folder may list, given the inputs no pair feeds.\<close>

definition packed_valid :: "nat set \<Rightarrow> u64 list \<Rightarrow> bool" where
  "packed_valid unbound raws \<longleftrightarrow>
     (if raws = [] then card unbound = 1
      else length raws = card unbound \<and> distinct raws \<and> unat ` set raws \<subseteq> unbound)"

lemma packed_inputs_eq:
  fixes ow ps
  defines "unbound \<equiv> {..<length (own_inputs ow)} - fst ` set ps"
  shows "if packed_valid unbound raws
    then \<exists>ins. packed_inputs (bindings_of ow n ps) raws = Ok (List.enumerate 0 ins) \<and>
           distinct ins \<and> set ins = unbound \<and> (raws \<noteq> [] \<longrightarrow> ins = map unat raws)
    else packed_inputs (bindings_of ow n ps) raws = Err InvalidFolderGraph"
proof -
  let ?m = "length (own_inputs ow)" and ?l = "filter (\<lambda>i. i \<notin> fst ` set ps) [0..<length (own_inputs ow)]"
  have l: "unset_positions (bound_inputs (bindings_of ow n ps)) = ?l" "length ?l = card unbound"
    "set ?l = unbound"
    by (auto simp: bindings_of_def unset_positions_map length_unset unbound_def)
  show ?thesis
  proof (cases "raws = []")
    case True
    then show ?thesis
    proof (cases ?l)
      case (Cons i rest)
      then show ?thesis using True l by (cases rest)
          (auto simp: packed_inputs_def packed_valid_def intro: exI [of _ "[i]"])
    qed (use l in \<open>auto simp: packed_inputs_def packed_valid_def\<close>)
  next
    case False
    let ?b = "bound_inputs (bindings_of ow n ps)"
    have b: "length ?b = ?m" "\<And>i. i < ?m \<Longrightarrow> ?b ! i \<longleftrightarrow> i \<in> fst ` set ps"
      by (simp_all add: bindings_of_def)
    have "replicate ?m False = map (\<lambda>i. i \<in> {}) [0..<?m]"
      by (auto intro: nth_equalityI)
    then have ex: "explicit_packed_inputs ?b 0 raws (replicate ?m False) =
        (if unat ` set raws \<subseteq> unbound \<and> distinct raws
         then Ok (List.enumerate 0 (map unat raws)) else Err InvalidFolderGraph)"
      using explicit_packed_inputs_eq [of ?m ?b 0 raws "{}"] b by (auto simp: unbound_def)
    have eq: "unat ` set raws = unbound" "distinct (map unat raws)" if "packed_valid unbound raws"
    proof -
      show d: "distinct (map unat raws)"
        using that False by (auto simp: packed_valid_def distinct_map inj_on_def word_unat_eq_iff)
      have "card (unat ` set raws) = card unbound"
        using that False distinct_card [OF d] by (auto simp: packed_valid_def)
      then show "unat ` set raws = unbound"
        using that False by (intro card_subset_eq) (auto simp: packed_valid_def unbound_def)
    qed
    then show ?thesis
      using False l b(1) ex by (auto simp: packed_inputs_def Let_def packed_valid_def)
  qed
qed



section \<open>The whole graph\<close>

text \<open>
  The folders with a valid graph: every coder has the stream counts of its method, the
  bind pairs are a matching that leaves one output, the packed streams are the inputs left over,
  and the coders do not feed each other in a cycle.
\<close>

definition graph_valid :: "Folder \<Rightarrow> bool" where
  "graph_valid f \<longleftrightarrow>
     (let ow = owners_of (coders f); ps = map nat_pair (bind_pairs f) in
      coders_ok (coders f) \<and>
      length ps + 1 = length (own_outputs ow) \<and>
      matching ow ps \<and>
      packed_valid ({..<length (own_inputs ow)} - fst ` set ps) (packed_indices f) \<and>
      acyclic (coder_edges ow ps))"

text \<open>What a resolved graph says of its folder.\<close>

definition graph_describes :: "Folder \<Rightarrow> FolderGraph \<Rightarrow> bool" where
  "graph_describes f g \<longleftrightarrow>
     (let ow = owners_of (coders f); ps = map nat_pair (bind_pairs f) in
      g_input_owners g = own_inputs ow \<and> g_output_owners g = own_outputs ow \<and>
      g_input_sources g = map (map_of ps) [0..<length (own_inputs ow)] \<and>
      {..<length (own_outputs ow)} - snd ` set ps = {g_final_output g} \<and>
      map fst (g_packed_inputs g) = [0..<length (g_packed_inputs g)] \<and>
      distinct (map snd (g_packed_inputs g)) \<and>
      set (map snd (g_packed_inputs g)) = {..<length (own_inputs ow)} - fst ` set ps \<and>
      (packed_indices f \<noteq> [] \<longrightarrow> map snd (g_packed_inputs g) = map unat (packed_indices f)) \<and>
      distinct (g_execution_order g) \<and> set (g_execution_order g) = {..<length (coders f)} \<and>
      (\<forall>(u, v)\<in>coder_edges ow ps. \<exists>xs ys zs. g_execution_order g = xs @ u # ys @ v # zs))"

lemma owners_of_wf: "owners_wf (owners_of cs) (length cs)"
  using set_owner_list [of "map (\<lambda>c. unat (num_in_streams c)) cs"]
    set_owner_list [of "map (\<lambda>c. unat (num_out_streams c)) cs"]
  by (simp add: owners_wf_def owners_of_def)

lemma topological_before:
  assumes "topological es order" and "(u, v) \<in> edge_rel es" and "v \<in> set order"
  shows "\<exists>xs ys zs. order = xs @ u # ys @ v # zs"
proof -
  from assms(3) obtain as zs where split: "order = as @ v # zs" by (meson split_list)
  then have "u \<in> set as" using assms unfolding topological_def by blast
  then obtain xs ys where "as = xs @ u # ys" by (meson split_list)
  with split show ?thesis by (intro exI [of _ xs] exI [of _ ys] exI [of _ zs]) simp
qed

lemma graph_eq:
  "if graph_valid f then \<exists>g. graph f = Ok g \<and> graph_describes f g
   else graph f = Err InvalidFolderGraph"
proof -
  let ?n = "length (coders f)" and ?ow = "owners_of (coders f)" and ?ps = "map nat_pair (bind_pairs f)"
  let ?b = "bindings_of ?ow ?n ?ps" and ?unbound = "{..<length (own_inputs ?ow)} - fst ` set ?ps"
  note wf = owners_of_wf [of "coders f"]
  show ?thesis
  proof (cases "coders_ok (coders f) \<and> length ?ps + 1 = length (own_outputs ?ow) \<and> matching ?ow ?ps")
    case False
    then show ?thesis
      by (auto simp: graph_def StreamOwners_from_coders_eq Bindings_new_eq [OF wf] graph_valid_def Let_def)
  next
    case True
    then have ok: "coders_ok (coders f)" and m: "matching ?ow ?ps"
      and len: "length ?ps + 1 = length (own_outputs ?ow)" by simp_all
    obtain j where j: "final_output ?b = Ok j" "{..<length (own_outputs ?ow)} - snd ` set ?ps = {j}"
      using final_output_ok [OF m len] by metis
    have n: "length (indegree ?b) = ?n" by (simp add: bindings_of_def)
    note eg = bindings_of_degrees [OF wf m]
    note order = execution_order_spec [OF eg(1,2), unfolded eg(3) n]
    have run: "graph f = and_then (packed_inputs ?b (packed_indices f)) (\<lambda>pk.
        and_then (execution_order ?b) (\<lambda>ord.
          Ok \<lparr>g_execution_order = ord, g_packed_inputs = pk, g_final_output = j,
              g_input_owners = own_inputs ?ow, g_output_owners = own_outputs ?ow,
              g_input_sources = input_sources ?b\<rparr>))"
      using ok m len j by (simp add: graph_def StreamOwners_from_coders_eq Bindings_new_eq [OF wf])
    show ?thesis
    proof (cases "packed_valid ?unbound (packed_indices f) \<and> acyclic (coder_edges ?ow ?ps)")
      case False
      then have "graph f = Err InvalidFolderGraph"
        using order packed_inputs_eq [of ?ow ?ps "packed_indices f" ?n] by (auto simp: run split: if_splits)
      then show ?thesis using False by (auto simp: graph_valid_def Let_def)
    next
      case True
      then obtain ins where ins: "packed_inputs ?b (packed_indices f) = Ok (List.enumerate 0 ins)"
        "distinct ins" "set ins = ?unbound" "packed_indices f \<noteq> [] \<longrightarrow> ins = map unat (packed_indices f)"
        using packed_inputs_eq [of ?ow ?ps "packed_indices f" ?n] by auto
      from True order obtain ord where ord: "execution_order ?b = Ok ord" "distinct ord"
        "set ord = {..<?n}" "topological (edges ?b) ord" by auto
      have before: "\<exists>xs ys zs. ord = xs @ u # ys @ v # zs" if "(u, v) \<in> coder_edges ?ow ?ps" for u v
      proof -
        have e: "(u, v) \<in> edge_rel (edges ?b)" using that eg(3) by simp
        then have "v \<in> set ord" using eg(1) n ord(3) by (auto simp: edge_graph_def edge_rel_def)
        then show ?thesis using topological_before [OF ord(4) e] by simp
      qed
      have "graph_valid f" using ok m len True by (simp add: graph_valid_def Let_def)
      moreover have "graph_describes f \<lparr>g_execution_order = ord, g_packed_inputs = List.enumerate 0 ins,
          g_final_output = j, g_input_owners = own_inputs ?ow, g_output_owners = own_outputs ?ow,
          g_input_sources = input_sources ?b\<rparr>"
        using j(2) ins ord before by (auto simp: graph_describes_def Let_def bindings_of_def)
      ultimately show ?thesis using ins(1) ord(1) run by auto
    qed
  qed
qed

section \<open>Properties\<close>

text \<open>
  C15. Resolving a folder accepts exactly the valid coder graphs, refuses every other folder
  with the error for an invalid graph, and what it returns describes the folder: stream
  owners and sources, the one output left for the folder, the packed inputs in order, and an
  execution order that lists every coder once, after all the coders that feed it.
\<close>

theorem graph_resolves:
  "(graph_valid f \<and> (\<exists>g. graph f = Ok g \<and> graph_describes f g)) \<or>
   (\<not> graph_valid f \<and> graph f = Err InvalidFolderGraph)"
  using graph_eq [of f] by (auto split: if_splits)

end
