(* ===== verification/Folder_Bcj2.thy ===== *)
theory Folder_Bcj2
  imports Folder_Resolve
begin

text \<open>
  \<^verbatim>\<open>src/src/folder.rs\<close>, third part: the four channels of a BCJ2 folder. From each
  input of the BCJ2 coder the code walks back through one-to-one coders to a packed
  stream. The walk has no bound of its own; it ends because the graph was resolved.
\<close>

record Bcj2Coder =
  bc_index :: CoderIndex
  bc_output :: OutputStreamIndex

record Bcj2Channel =
  ch_coders :: "Bcj2Coder list"
  ch_packed :: PackedStreamIndex

record Bcj2Layout =
  l_main :: Bcj2Channel
  l_call :: Bcj2Channel
  l_jump :: Bcj2Channel
  l_control :: Bcj2Channel

text \<open>\<open>iter.position(p)\<close>.\<close>

definition position :: "('a \<Rightarrow> bool) \<Rightarrow> 'a list \<Rightarrow> nat option" where
  "position P xs = List.find (\<lambda>i. P (xs ! i)) [0..<length xs]"

definition packed_slot :: "FolderGraph \<Rightarrow> InputStreamIndex \<Rightarrow> PackedStreamIndex r7z_result" where
  "packed_slot g input =
     ok_or InvalidFolderGraph
       (map_option fst (List.find (\<lambda>(slot, candidate). candidate = input) (g_packed_inputs g)))"

text \<open>One step of the walk: the coder behind \<open>output\<close> and the input it reads.\<close>

definition bcj2_channel_step :: "FolderGraph \<Rightarrow> Folder \<Rightarrow> CoderIndex \<Rightarrow> OutputStreamIndex \<Rightarrow>
    (InputStreamIndex \<times> Bcj2Coder) r7z_result" where
  "bcj2_channel_step g folder bcj2 output =
     and_then (ok_or InvalidFolderGraph (get (g_output_owners g) output)) (\<lambda>coder.
     and_then (ok_or InvalidFolderGraph (get (coders folder) coder)) (\<lambda>info.
     and_then (StreamArity_try_from info) (\<lambda>arity.
       if coder = bcj2 \<or> sa_inputs arity \<noteq> 1 \<or> sa_outputs arity \<noteq> 1
       then Err InvalidFolderGraph
       else
         and_then (ok_or InvalidFolderGraph (position (\<lambda>owner. owner = coder) (g_input_owners g)))
           (\<lambda>input. Ok (input, \<lparr>bc_index = coder, bc_output = output\<rparr>)))))"

partial_function (option) bcj2_channel_loop :: "FolderGraph \<Rightarrow> Folder \<Rightarrow> CoderIndex \<Rightarrow>
    InputStreamIndex \<Rightarrow> Bcj2Coder list \<Rightarrow> (Bcj2Coder list \<times> PackedStreamIndex) r7z_result option" where
  "bcj2_channel_loop g folder bcj2 input cs =
     (case get (g_input_sources g) input of
        None \<Rightarrow> Some (Err InvalidFolderGraph)
      | Some None \<Rightarrow> Some (and_then (packed_slot g input) (\<lambda>packed. Ok (cs, packed)))
      | Some (Some output) \<Rightarrow>
          (case bcj2_channel_step g folder bcj2 output of
             Err e \<Rightarrow> Some (Err e)
           | Ok (input, coder) \<Rightarrow> bcj2_channel_loop g folder bcj2 input (cs @ [coder])))"

definition bcj2_channel :: "FolderGraph \<Rightarrow> Folder \<Rightarrow> CoderIndex \<Rightarrow> InputStreamIndex \<Rightarrow>
    Bcj2Channel r7z_result option" where
  "bcj2_channel g folder bcj2 input =
     map_option (\<lambda>r. and_then r (\<lambda>(cs, packed). Ok \<lparr>ch_coders = rev cs, ch_packed = packed\<rparr>))
       (bcj2_channel_loop g folder bcj2 input [])"

text \<open>The checks once the four channels are known.\<close>

definition bcj2_layout_check :: "Folder \<Rightarrow> CoderIndex \<Rightarrow> Bcj2Layout \<Rightarrow> Bcj2Layout option r7z_result" where
  "bcj2_layout_check folder index layout =
     (let channel_coders = map bc_index (ch_coders (l_main layout) @ ch_coders (l_call layout)
            @ ch_coders (l_jump layout) @ ch_coders (l_control layout));
          unique_coders = list_all (\<lambda>k. channel_coders ! k \<notin> set (take k channel_coders))
            [0..<length channel_coders];
          all_coders_are_channels = list_all (\<lambda>coder. coder = index \<or> coder \<in> set channel_coders)
            [0..<length (coders folder)]
      in if \<not> unique_coders \<or> \<not> all_coders_are_channels then Err InvalidFolderGraph
         else Ok (Some layout))"

definition bcj2_layout :: "FolderGraph \<Rightarrow> Folder \<Rightarrow> Bcj2Layout option r7z_result option" where
  "bcj2_layout g folder =
     (case filter (\<lambda>i. codec_id (coders folder ! i) = CODEC_BCJ2) [0..<length (coders folder)] of
        [] \<Rightarrow> Some (Ok None)
      | index # others \<Rightarrow>
          if others \<noteq> [] \<or> get (g_output_owners g) (g_final_output g) \<noteq> Some index
          then Some (Err InvalidFolderGraph)
          else
            (case filter (\<lambda>i. g_input_owners g ! i = index) [0..<length (g_input_owners g)] of
               [main, call, jump, control] \<Rightarrow>
                 Option.bind (bcj2_channel g folder index main) (\<lambda>main.
                 Option.bind (bcj2_channel g folder index call) (\<lambda>call.
                 Option.bind (bcj2_channel g folder index jump) (\<lambda>jump.
                 Option.bind (bcj2_channel g folder index control) (\<lambda>control.
                   Some (and_then main (\<lambda>main. and_then call (\<lambda>call.
                         and_then jump (\<lambda>jump. and_then control (\<lambda>control.
                           bcj2_layout_check folder index
                             \<lparr>l_main = main, l_call = call, l_jump = jump, l_control = control\<rparr>)))))))))
             | _ \<Rightarrow> Some (Err InvalidFolderGraph)))"


section \<open>The walk ends\<close>

text \<open>\<open>rank\<close>: the place of a coder in the execution order.\<close>

definition rank :: "FolderGraph \<Rightarrow> CoderIndex \<Rightarrow> nat" where
  "rank g c = length (takeWhile (\<lambda>d. d \<noteq> c) (g_execution_order g))"

lemma position_eq_Some:
  "position P xs = Some i \<Longrightarrow> i < length xs \<and> P (xs ! i)"
  unfolding position_def by (auto simp: find_Some_iff)

lemma rank_less:
  assumes "g_execution_order g = xs @ u # ys @ v # zs" and "distinct (g_execution_order g)"
  shows "rank g u < rank g v"
proof -
  have "u \<notin> set xs" "v \<notin> set (xs @ u # ys)" using assms by auto
  then have "takeWhile (\<lambda>d. d \<noteq> u) (g_execution_order g) = xs"
    "takeWhile (\<lambda>d. d \<noteq> v) (g_execution_order g) = xs @ u # ys"
    unfolding assms(1) by (subst takeWhile_append2, auto)+
  then show ?thesis by (simp add: rank_def)
qed

lemma walk_back:
  assumes g: "graph_describes f g" and i: "get (g_input_sources g) i = Some (Some j)"
    and m: "matching (owners_of (coders f)) (map nat_pair (bind_pairs f))"
  shows "(i, j) \<in> set (map nat_pair (bind_pairs f)) \<and> i < length (g_input_owners g) \<and>
     j < length (g_output_owners g) \<and> rank g (g_output_owners g ! j) < rank g (g_input_owners g ! i)"
proof -
  let ?ps = "map nat_pair (bind_pairs f)" and ?ow = "owners_of (coders f)"
  have own: "g_input_owners g = own_inputs ?ow" "g_output_owners g = own_outputs ?ow"
    and src: "g_input_sources g = map (map_of ?ps) [0..<length (own_inputs ?ow)]"
    and dist: "distinct (g_execution_order g)"
    and order: "\<forall>(u, v)\<in>coder_edges ?ow ?ps. \<exists>xs ys zs. g_execution_order g = xs @ u # ys @ v # zs"
    using g unfolding graph_describes_def Let_def by blast+
  from i src have "map_of ?ps i = Some j" by (simp add: get_def split: if_splits)
  then have ij: "(i, j) \<in> set ?ps" by (rule map_of_SomeD)
  moreover from this have "(own_outputs ?ow ! j, own_inputs ?ow ! i) \<in> coder_edges ?ow ?ps"
    by (force simp: coder_edges_def)
  ultimately show ?thesis
    using order dist rank_less m own unfolding matching_def by fastforce
qed

text \<open>The laws of a resolved graph that the walk relies on.\<close>

lemma graph_Ok_iff: "graph f = Ok g \<Longrightarrow> graph_valid f \<and> graph_describes f g"
  using graph_eq [of f] by (auto split: if_splits)

lemma graph_Ok_matching:
  "graph f = Ok g \<Longrightarrow> matching (owners_of (coders f)) (map nat_pair (bind_pairs f))"
  using graph_Ok_iff [of f g] by (simp add: graph_valid_def Let_def)

lemma bcj2_channel_step_Ok:
  assumes "bcj2_channel_step g f b j = Ok (i, c)"
  shows "j < length (g_output_owners g) \<and> c = \<lparr>bc_index = g_output_owners g ! j, bc_output = j\<rparr> \<and>
    bc_index c \<noteq> b \<and> i < length (g_input_owners g) \<and> g_input_owners g ! i = bc_index c \<and>
    bc_index c < length (coders f) \<and> num_in_streams (coders f ! bc_index c) = 1 \<and>
    num_out_streams (coders f ! bc_index c) = 1"
  using assms
  by (auto simp: bcj2_channel_step_def StreamArity_try_from_eq arity_of_def word_unat_eq_iff
      split: if_splits dest: position_eq_Some)

lemma bcj2_channel_loop_total:
  assumes g: "graph f = Ok g"
  shows "\<exists>r. bcj2_channel_loop g f b i cs = Some r"
proof (induction "rank g (g_input_owners g ! i)" arbitrary: i cs rule: less_induct)
  case less
  show ?case
  proof (cases "\<exists>j i' c. get (g_input_sources g) i = Some (Some j) \<and> bcj2_channel_step g f b j = Ok (i', c)")
    case True
    then obtain j i' c where j: "get (g_input_sources g) i = Some (Some j)"
      and step: "bcj2_channel_step g f b j = Ok (i', c)" by blast
    have "rank g (g_input_owners g ! i') < rank g (g_input_owners g ! i)"
      using walk_back [OF _ j graph_Ok_matching [OF g]] graph_Ok_iff [OF g] bcj2_channel_step_Ok [OF step]
      by simp
    from less [OF this, of "cs @ [c]"] obtain r where "bcj2_channel_loop g f b i' (cs @ [c]) = Some r" ..
    then show ?thesis
      using j step by (simp add: bcj2_channel_loop.simps [of g f b i cs] del: get_eq_Some)
  next
    case False
    then show ?thesis
      by (auto simp: bcj2_channel_loop.simps [of g f b i cs] split: option.splits result.splits)
  qed
qed

lemma bcj2_layout_total:
  assumes "graph f = Ok g"
  shows "\<exists>r. bcj2_layout g f = Some r"
proof -
  have "\<exists>r. bcj2_channel g f b i = Some r" for b i
    using bcj2_channel_loop_total [OF assms, of b i "[]"] by (auto simp: bcj2_channel_def)
  then obtain r where "\<And>b i. bcj2_channel g f b i = Some (r b i)" by metis
  then show ?thesis by (simp add: bcj2_layout_def split: list.split)
qed


section \<open>What the channels are\<close>

text \<open>
  \<open>channel_chain g i cs p\<close>: walking back from input \<open>i\<close> goes through the coders \<open>cs\<close>
  and ends at packed stream \<open>p\<close>.
\<close>

fun channel_chain :: "FolderGraph \<Rightarrow> InputStreamIndex \<Rightarrow> Bcj2Coder list \<Rightarrow> PackedStreamIndex \<Rightarrow> bool" where
  "channel_chain g i [] p \<longleftrightarrow>
     get (g_input_sources g) i = Some None \<and> (p, i) \<in> set (g_packed_inputs g)"
| "channel_chain g i (c # cs) p \<longleftrightarrow>
     get (g_input_sources g) i = Some (Some (bc_output c)) \<and>
     get (g_output_owners g) (bc_output c) = Some (bc_index c) \<and>
     (\<exists>i'. get (g_input_owners g) i' = Some (bc_index c) \<and> channel_chain g i' cs p)"

lemma packed_slot_Ok: "packed_slot g i = Ok p \<Longrightarrow> (p, i) \<in> set (g_packed_inputs g)"
  by (auto simp: packed_slot_def find_Some_iff) (metis nth_mem prod.collapse)

lemma bcj2_channel_loop_chain:
  assumes "bcj2_channel_loop g f b i cs = Some (Ok (cs', p))"
  shows "\<exists>walked. cs' = cs @ walked \<and> channel_chain g i walked p \<and> b \<notin> bc_index ` set walked"
proof -
  define P where "P g b i cs r \<longleftrightarrow> (\<forall>cs' p. r = Ok (cs', p) \<longrightarrow>
      (\<exists>walked. cs' = cs @ walked \<and> channel_chain g i walked p \<and> b \<notin> bc_index ` set walked))"
    for g b i cs and r :: "(Bcj2Coder list \<times> PackedStreamIndex) r7z_result"
  have "P g b i cs (Ok (cs', p))"
  proof (rule bcj2_channel_loop.raw_induct [OF _ assms, where P = "\<lambda>g f b i cs r. P g b i cs r"])
    fix loop g f b i cs r
    assume IH: "\<And>g f b i cs r. loop g f b i cs = Some r \<Longrightarrow> P g b i cs r"
      and run: "(case get (g_input_sources g) i of
        None \<Rightarrow> Some (Err InvalidFolderGraph)
      | Some None \<Rightarrow> Some (and_then (packed_slot g i) (\<lambda>packed. Ok (cs, packed)))
      | Some (Some output) \<Rightarrow>
          (case bcj2_channel_step g f b output of
             Err e \<Rightarrow> Some (Err e)
           | Ok (input, coder) \<Rightarrow> loop g f b input (cs @ [coder]))) = Some r"
    consider (stuck) "get (g_input_sources g) i = None"
      | (packed) "get (g_input_sources g) i = Some None"
      | (failed) j e where "get (g_input_sources g) i = Some (Some j)" "bcj2_channel_step g f b j = Err e"
      | (coder) j i' c where "get (g_input_sources g) i = Some (Some j)"
          "bcj2_channel_step g f b j = Ok (i', c)"
      by (metis not_None_eq result.exhaust surj_pair)
    then show "P g b i cs r"
    proof cases
      case packed
      then show ?thesis using run by (auto simp: P_def simp del: get_eq_Some dest!: packed_slot_Ok)
    next
      case (coder j i' c)
      then have "P g b i' (cs @ [c]) r" using run by (intro IH [of g f]) (simp del: get_eq_Some)
      then show ?thesis
        using bcj2_channel_step_Ok [OF coder(2)] coder(1) unfolding P_def by fastforce
    qed (use run in \<open>auto simp: P_def simp del: get_eq_Some\<close>)
  qed
  then show ?thesis by (simp add: P_def)
qed

lemma channel_chain_end:
  "channel_chain g i cs p \<Longrightarrow>
     \<exists>e. (p, e) \<in> set (g_packed_inputs g) \<and> (cs = [] \<longrightarrow> e = i) \<and>
         (cs \<noteq> [] \<longrightarrow> get (g_input_owners g) e = Some (bc_index (last cs)))"
proof (induction cs arbitrary: i)
  case (Cons c cs)
  then show ?case by (cases cs) fastforce+
qed auto

text \<open>Two channels that share no coder start at different packed streams.\<close>

lemma channel_chains_disjoint:
  assumes "channel_chain g i cs p" and "channel_chain g i' cs' p"
    and "get (g_input_owners g) i = Some b" and "get (g_input_owners g) i' = Some b"
    and "b \<notin> bc_index ` set (cs @ cs')" and "bc_index ` set cs \<inter> bc_index ` set cs' = {}"
    and "distinct (map fst (g_packed_inputs g))"
  shows "i = i'"
proof -
  obtain e e' where e: "(p, e) \<in> set (g_packed_inputs g)" "cs = [] \<longrightarrow> e = i"
      "cs \<noteq> [] \<longrightarrow> get (g_input_owners g) e = Some (bc_index (last cs))"
    and e': "(p, e') \<in> set (g_packed_inputs g)" "cs' = [] \<longrightarrow> e' = i'"
      "cs' \<noteq> [] \<longrightarrow> get (g_input_owners g) e' = Some (bc_index (last cs'))"
    using channel_chain_end assms(1,2) by metis
  have "e = e'" using e(1) e'(1) assms(7) by (metis eq_key_imp_eq_value)
  moreover have "cs = [] \<and> cs' = []"
  proof -
    have "bc_index (last cs) \<noteq> b" if "cs \<noteq> []" using that assms(5) by auto
    moreover have "bc_index (last cs') \<noteq> b" if "cs' \<noteq> []" using that assms(5) by auto
    moreover have "bc_index (last cs) \<noteq> bc_index (last cs')" if "cs \<noteq> []" "cs' \<noteq> []"
      using that assms(6) last_in_set by blast
    ultimately show ?thesis using e(2,3) e'(2,3) assms(3,4) \<open>e = e'\<close> by (metis option.inject)
  qed
  ultimately show ?thesis using e(2) e'(2) by simp
qed

lemma distinct_prefix_conv:
  "list_all (\<lambda>k. xs ! k \<notin> set (take k xs)) [0..<length xs] \<longleftrightarrow> distinct xs"
proof (induction xs rule: rev_induct)
  case (snoc x xs)
  have "list_all (\<lambda>k. (xs @ [x]) ! k \<notin> set (take k (xs @ [x]))) [0..<length xs] \<longleftrightarrow>
      list_all (\<lambda>k. xs ! k \<notin> set (take k xs)) [0..<length xs]"
    by (auto simp: list_all_iff nth_append)
  then show ?case using snoc by auto
qed simp

definition layout_coders :: "Bcj2Layout \<Rightarrow> CoderIndex list" where
  "layout_coders layout = map bc_index (ch_coders (l_main layout) @ ch_coders (l_call layout)
            @ ch_coders (l_jump layout) @ ch_coders (l_control layout))"

lemma bcj2_layout_check_eq:
  "bcj2_layout_check f b layout =
     (if distinct (layout_coders layout) \<and> {..<length (coders f)} \<subseteq> insert b (set (layout_coders layout))
      then Ok (Some layout) else Err InvalidFolderGraph)"
  unfolding bcj2_layout_check_def Let_def layout_coders_def [symmetric] distinct_prefix_conv
  by (auto simp: list_all_iff)

lemma bcj2_channel_Ok:
  assumes "bcj2_channel g f b i = Some (Ok ch)"
  shows "channel_chain g i (rev (ch_coders ch)) (ch_packed ch) \<and> b \<notin> bc_index ` set (ch_coders ch)"
  using assms by (auto simp: bcj2_channel_def dest!: bcj2_channel_loop_chain)

text \<open>The BCJ2 coder, its four inputs and the four channels of an accepted layout.\<close>

definition layout_of :: "FolderGraph \<Rightarrow> Folder \<Rightarrow> CoderIndex \<Rightarrow> InputStreamIndex list \<Rightarrow> Bcj2Layout \<Rightarrow> bool" where
  "layout_of g f b ins layout \<longleftrightarrow>
     b < length (coders f) \<and> codec_id (coders f ! b) = CODEC_BCJ2 \<and>
     get (g_output_owners g) (g_final_output g) = Some b \<and>
     ins = filter (\<lambda>i. g_input_owners g ! i = b) [0..<length (g_input_owners g)] \<and>
     list_all2 (\<lambda>i ch. channel_chain g i (rev (ch_coders ch)) (ch_packed ch)) ins
       [l_main layout, l_call layout, l_jump layout, l_control layout] \<and>
     b \<notin> set (layout_coders layout) \<and> distinct (layout_coders layout) \<and>
     {..<length (coders f)} \<subseteq> insert b (set (layout_coders layout))"

lemma bcj2_layout_Ok:
  assumes "bcj2_layout g f = Some (Ok (Some layout))"
  shows "\<exists>b ins. layout_of g f b ins layout"
proof -
  obtain b where b: "filter (\<lambda>i. codec_id (coders f ! i) = CODEC_BCJ2) [0..<length (coders f)] = [b]"
    and final: "get (g_output_owners g) (g_final_output g) = Some b"
    using assms by (auto simp: bcj2_layout_def simp del: get_eq_Some split: list.splits if_splits)
  then have "b \<in> set (filter (\<lambda>i. codec_id (coders f ! i) = CODEC_BCJ2) [0..<length (coders f)])" by simp
  then have b': "b < length (coders f)" "codec_id (coders f ! b) = CODEC_BCJ2" by auto
  let ?ins = "filter (\<lambda>i. g_input_owners g ! i = b) [0..<length (g_input_owners g)]"
  obtain i1 i2 i3 i4 c1 c2 c3 c4 where ins: "?ins = [i1, i2, i3, i4]"
    and ch: "bcj2_channel g f b i1 = Some (Ok c1)" "bcj2_channel g f b i2 = Some (Ok c2)"
      "bcj2_channel g f b i3 = Some (Ok c3)" "bcj2_channel g f b i4 = Some (Ok c4)"
    and check: "bcj2_layout_check f b \<lparr>l_main = c1, l_call = c2, l_jump = c3, l_control = c4\<rparr> = Ok (Some layout)"
    using assms b final
    by (auto simp: bcj2_layout_def bind_eq_Some_conv simp del: get_eq_Some filter_eq_Cons_iff
        split: list.splits)
  then have l: "layout = \<lparr>l_main = c1, l_call = c2, l_jump = c3, l_control = c4\<rparr>"
    and ok: "distinct (layout_coders layout)" "{..<length (coders f)} \<subseteq> insert b (set (layout_coders layout))"
    by (auto simp: bcj2_layout_check_eq split: if_splits)
  have "b \<notin> set (layout_coders layout)"
    using ch [THEN bcj2_channel_Ok] by (auto simp: l layout_coders_def)
  then have "layout_of g f b ?ins layout"
    using b' final ok ch [THEN bcj2_channel_Ok] unfolding layout_of_def ins by (simp add: l)
  then show ?thesis by blast
qed

lemma chain_indices:
  assumes "channel_chain g i cs p"
  shows "bc_index ` set cs \<subseteq> set (g_output_owners g)"
  using assms by (induction cs arbitrary: i) fastforce+

lemma graph_Ok_owners: "graph f = Ok g \<Longrightarrow> set (g_output_owners g) \<subseteq> {..<length (coders f)}"
  using graph_Ok_iff [of f g] owners_of_wf [of "coders f"]
  by (auto simp: graph_describes_def Let_def owners_wf_def)

lemma distinct_concat_disjoint:
  "distinct (concat xss) \<Longrightarrow> k < k' \<Longrightarrow> k' < length xss \<Longrightarrow> set (xss ! k) \<inter> set (xss ! k') = {}"
proof (induction xss arbitrary: k k')
  case (Cons xs xss)
  obtain m where m: "k' = Suc m" "m < length xss"
    using Cons.prems by (cases k') auto
  then have "set (xss ! m) \<subseteq> \<Union> (set ` set xss)" using nth_mem by blast
  then have "k = 0 \<Longrightarrow> ?case" using Cons.prems(1) m by (simp add: disjoint_iff subset_iff)
  then show ?case using Cons.IH [of "k - 1" m] Cons.prems m by (cases k) auto
qed simp

lemma layout_of_distinct_packed:
  assumes g: "graph f = Ok g" and l: "layout_of g f b ins layout"
  shows "distinct (map ch_packed [l_main layout, l_call layout, l_jump layout, l_control layout])"
proof -
  let ?chs = "[l_main layout, l_call layout, l_jump layout, l_control layout]"
  have slots: "distinct (map fst (g_packed_inputs g))"
    using graph_Ok_iff [OF g] by (metis distinct_upt graph_describes_def)
  have ins: "distinct ins" "list_all (\<lambda>i. get (g_input_owners g) i = Some b) ins"
    and chains: "list_all2 (\<lambda>i ch. channel_chain g i (rev (ch_coders ch)) (ch_packed ch)) ins ?chs"
    and fresh: "b \<notin> set (layout_coders layout)" and dist: "distinct (layout_coders layout)"
    using l by (auto simp: layout_of_def list_all_iff get_def simp del: get_eq_Some)
  have neq: "ch_packed c \<noteq> ch_packed c'"
    if "channel_chain g i (rev (ch_coders c)) (ch_packed c)" "channel_chain g i' (rev (ch_coders c')) (ch_packed c')"
      "i \<in> set ins" "i' \<in> set ins" "i \<noteq> i'" "b \<notin> bc_index ` set (ch_coders c @ ch_coders c')"
      "bc_index ` set (ch_coders c) \<inter> bc_index ` set (ch_coders c') = {}" for i i' c c'
    using that ins(2) slots channel_chains_disjoint [of g i "rev (ch_coders c)" "ch_packed c" i' "rev (ch_coders c')" b]
    by (auto simp: list_all_iff simp del: get_eq_Some)
  define chs where "chs = ?chs"
  let ?ixs = "map (\<lambda>c. map bc_index (ch_coders c)) chs"
  have len: "length chs = 4" "length ins = 4"
    using list_all2_lengthD [OF chains] by (simp_all add: chs_def)
  have "layout_coders layout = concat ?ixs" by (simp add: chs_def layout_coders_def)
  then have dist': "distinct (concat ?ixs)" and fresh': "b \<notin> set (concat ?ixs)"
    using dist fresh by simp_all
  have "ch_packed (chs ! k) \<noteq> ch_packed (chs ! k')" if k: "k < k'" "k' < 4" for k k'
  proof (rule neq [of "ins ! k" _ "ins ! k'"])
    show "channel_chain g (ins ! k) (rev (ch_coders (chs ! k))) (ch_packed (chs ! k))"
      "channel_chain g (ins ! k') (rev (ch_coders (chs ! k'))) (ch_packed (chs ! k'))"
      using list_all2_nthD [OF chains [folded chs_def]] k len by simp_all
    show "ins ! k \<in> set ins" "ins ! k' \<in> set ins" "ins ! k \<noteq> ins ! k'"
      using k len ins(1) by (simp_all add: nth_eq_iff_index_eq)
    have "chs ! k \<in> set chs" "chs ! k' \<in> set chs" using k len by simp_all
    then show "b \<notin> bc_index ` set (ch_coders (chs ! k) @ ch_coders (chs ! k'))"
      using fresh' by auto
    show "bc_index ` set (ch_coders (chs ! k)) \<inter> bc_index ` set (ch_coders (chs ! k')) = {}"
      using distinct_concat_disjoint [OF dist', of k k'] k len by simp
  qed
  then have "distinct (map ch_packed chs)"
    using len unfolding distinct_conv_nth by (metis length_map linorder_neqE_nat nth_map)
  then show ?thesis by (simp add: chs_def)
qed

lemma list_all2_right: "list_all2 P xs ys \<Longrightarrow> y \<in> set ys \<Longrightarrow> \<exists>x. P x y"
  by (induction rule: list_all2_induct) auto

lemma layout_of_coders:
  assumes g: "graph f = Ok g" and l: "layout_of g f b ins layout"
  shows "set (layout_coders layout) = {..<length (coders f)} - {b}"
proof -
  let ?chs = "[l_main layout, l_call layout, l_jump layout, l_control layout]"
  have "bc_index ` set (ch_coders c) \<subseteq> set (g_output_owners g)" if c: "c \<in> set ?chs" for c
  proof -
    have "list_all2 (\<lambda>i ch. channel_chain g i (rev (ch_coders ch)) (ch_packed ch)) ins ?chs"
      using l unfolding layout_of_def by blast
    then obtain i where "channel_chain g i (rev (ch_coders c)) (ch_packed c)"
      using c by (blast dest: list_all2_right)
    then show ?thesis using chain_indices by fastforce
  qed
  then have "set (layout_coders layout) \<subseteq> set (g_output_owners g)"
    by (simp add: layout_coders_def)
  then show ?thesis using graph_Ok_owners [OF g] l by (auto simp: layout_of_def)
qed

section \<open>Properties\<close>

text \<open>
  C24. Looking for the BCJ2 channels of a resolved folder always returns: the walk along the
  bind pairs cannot run in a circle.
\<close>

theorem bcj2_layout_returns:
  assumes "graph f = Ok g"
  shows "\<exists>r. bcj2_layout g f = Some r"
  using assms by (rule bcj2_layout_total)

text \<open>
  C25. The channels of an accepted BCJ2 folder are four chains of one-to-one coders, from
  four different packed streams to the four inputs of the one BCJ2 coder, which produces the
  folder's output; together with it they are all the coders of the folder, each once.
\<close>

theorem bcj2_layout_partition:
  assumes "graph f = Ok g" and "bcj2_layout g f = Some (Ok (Some layout))"
  shows "\<exists>b ins. layout_of g f b ins layout \<and>
    set (layout_coders layout) = {..<length (coders f)} - {b} \<and>
    distinct (map ch_packed [l_main layout, l_call layout, l_jump layout, l_control layout])"
  using bcj2_layout_Ok [OF assms(2)] layout_of_coders [OF assms(1)]
    layout_of_distinct_packed [OF assms(1)] by metis

text \<open>A BCJ2 coder whose main channel is compressed with LZMA.\<close>

definition example_folder :: Folder where
  "example_folder = \<lparr>coders =
      [\<lparr>codec_id = CODEC_BCJ2, num_in_streams = 4, num_out_streams = 1, properties = None\<rparr>,
       \<lparr>codec_id = CODEC_LZMA, num_in_streams = 1, num_out_streams = 1, properties = None\<rparr>],
     bind_pairs = [(0, 1)], packed_indices = [4, 1, 2, 3]\<rparr>"

definition example_graph :: FolderGraph where
  "example_graph = \<lparr>g_execution_order = [1, 0],
     g_packed_inputs = [(0, 4), (1, 1), (2, 2), (3, 3)], g_final_output = 0,
     g_input_owners = [0, 0, 0, 0, 1], g_output_owners = [0, 1],
     g_input_sources = [Some 1, None, None, None, None]\<rparr>"

definition example_layout :: Bcj2Layout where
  "example_layout =
     \<lparr>l_main = \<lparr>ch_coders = [\<lparr>bc_index = 1, bc_output = 1\<rparr>], ch_packed = 0\<rparr>,
      l_call = \<lparr>ch_coders = [], ch_packed = 1\<rparr>,
      l_jump = \<lparr>ch_coders = [], ch_packed = 2\<rparr>,
      l_control = \<lparr>ch_coders = [], ch_packed = 3\<rparr>\<rparr>"

lemma example_methods:
  "method_from_id CODEC_BCJ2 = Some M_Bcj2" "method_from_id CODEC_LZMA = Some M_Lzma"
  by (simp_all add: method_from_id_def method_info_def METHOD_REGISTRY_def codec_ids)

lemma example_owner_lists:
  "owner_list [4, Suc 0] = [0, 0, 0, 0, Suc 0]" "owner_list [Suc 0, Suc 0] = [0, Suc 0]"
  by (simp_all add: owner_list_def numeral_eq_Suc)

lemma example_owners:
  "StreamOwners_from_coders (coders example_folder) =
     Ok \<lparr>own_inputs = [0, 0, 0, 0, 1], own_outputs = [0, 1]\<rparr>"
  by (simp add: StreamOwners_from_coders_def StreamArity_try_from_def example_folder_def
      example_methods method_stream_arity add_arity_def capped_add_def usize_checked_add_def
      example_owner_lists)

definition example_bindings :: Bindings where
  "example_bindings = \<lparr>bound_inputs = [True, False, False, False, False],
     bound_outputs = [False, True], input_sources = [Some 1, None, None, None, None],
     edges = [[], [0]], indegree = [1, 0]\<rparr>"

lemma example_bindings_new:
  "Bindings_new (bind_pairs example_folder) \<lparr>own_inputs = [0, 0, 0, 0, 1], own_outputs = [0, 1]\<rparr>
     (length (coders example_folder)) = Ok example_bindings"
  by (simp add: example_folder_def example_bindings_def Bindings_new_def Bindings_bind_def
      stream_from_raw_def get_def checked_sub_def)

lemma example_packed:
  "packed_inputs example_bindings (packed_indices example_folder) = Ok [(0, 4), (1, 1), (2, 2), (3, 3)]"
  by (simp add: example_bindings_def example_folder_def packed_inputs_def unset_positions_def Let_def
      stream_from_raw_def get_def)

lemma example_order: "execution_order example_bindings = Ok [1, 0]"
  by (simp add: example_bindings_def execution_order_def zero_positions_def get_def
      execution_loop.simps [of _ _ "[]"] execution_loop.simps [of _ _ "_ # _"])

lemma example_graph_eq: "graph example_folder = Ok example_graph"
  by (simp add: graph_def example_owners example_bindings_new [simplified] example_packed [simplified]
      example_order [simplified])
     (simp add: example_bindings_def example_graph_def final_output_def unset_positions_def)

text \<open>The walk at a given input, unfolded once.\<close>

lemmas example_walk =
  bcj2_channel_loop.simps [of example_graph example_folder 0 0]
  bcj2_channel_loop.simps [of example_graph example_folder 0 "Suc 0"]
  bcj2_channel_loop.simps [of example_graph example_folder 0 2]
  bcj2_channel_loop.simps [of example_graph example_folder 0 3]
  bcj2_channel_loop.simps [of example_graph example_folder 0 4]

lemma example_step:
  "bcj2_channel_step example_graph example_folder 0 (Suc 0) = Ok (4, \<lparr>bc_index = 1, bc_output = 1\<rparr>)"
  by (simp add: example_graph_def get_def bcj2_channel_step_def position_def example_folder_def
      StreamArity_try_from_def example_methods method_stream_arity)

lemma example_sources: "g_input_sources example_graph = [Some (Suc 0), None, None, None, None]"
  by (simp add: example_graph_def)

lemma example_slots:
  "packed_slot example_graph 4 = Ok 0" "packed_slot example_graph (Suc 0) = Ok 1"
  "packed_slot example_graph 2 = Ok 2" "packed_slot example_graph 3 = Ok 3"
  by (simp_all add: example_graph_def packed_slot_def)

lemma example_channels:
  "bcj2_channel example_graph example_folder 0 0 = Some (Ok (l_main example_layout))"
  "bcj2_channel example_graph example_folder 0 (Suc 0) = Some (Ok (l_call example_layout))"
  "bcj2_channel example_graph example_folder 0 2 = Some (Ok (l_jump example_layout))"
  "bcj2_channel example_graph example_folder 0 3 = Some (Ok (l_control example_layout))"
  by (simp_all add: bcj2_channel_def example_walk example_sources get_def example_step example_slots
      example_layout_def)

lemma example_layout_eq: "bcj2_layout example_graph example_folder = Some (Ok (Some example_layout))"
proof -
  have "filter (\<lambda>i. codec_id (coders example_folder ! i) = CODEC_BCJ2) [0..<length (coders example_folder)] = [0]"
    by (simp add: example_folder_def codec_ids)
  moreover have "get (g_output_owners example_graph) (g_final_output example_graph) = Some 0"
    by (simp add: example_graph_def get_def)
  moreover have "filter (\<lambda>i. g_input_owners example_graph ! i = 0) [0..<length (g_input_owners example_graph)]
      = [0, Suc 0, 2, 3]"
    by (simp add: example_graph_def)
  moreover have "bcj2_layout_check example_folder 0 \<lparr>l_main = l_main example_layout,
      l_call = l_call example_layout, l_jump = l_jump example_layout,
      l_control = l_control example_layout\<rparr> = Ok (Some example_layout)"
    by (simp add: bcj2_layout_check_def example_folder_def example_layout_def)
  ultimately show ?thesis
    by (simp add: bcj2_layout_def example_channels del: get_eq_Some filter.simps)
qed

theorem bcj2_layout_returns_witness:
  "graph example_folder = Ok example_graph \<and> (\<exists>r. bcj2_layout example_graph example_folder = Some r)"
  using bcj2_layout_returns [OF example_graph_eq] example_graph_eq by simp

theorem bcj2_layout_partition_witness:
  "graph example_folder = Ok example_graph \<and>
   bcj2_layout example_graph example_folder = Some (Ok (Some example_layout)) \<and>
   (\<exists>b ins. layout_of example_graph example_folder b ins example_layout \<and>
    set (layout_coders example_layout) = {..<length (coders example_folder)} - {b} \<and>
    distinct (map ch_packed [l_main example_layout, l_call example_layout, l_jump example_layout,
      l_control example_layout]))"
  using bcj2_layout_partition [OF example_graph_eq example_layout_eq] example_graph_eq example_layout_eq
  by simp

end
