(* ===== verification/Property_Tags.thy ===== *)
theory Property_Tags
  imports Parsers
begin

text \<open>
  \<^verbatim>\<open>src/src/property.rs\<close>: the one-byte property tags that delimit every section of a
  7z header. The tag parser is a parser that makes progress: it is what bounds the number
  of rounds of every \<open>loop { Property::parse(input)? ... }\<close> of the reader.
\<close>

datatype Property =
    P_END
  | P_Header
  | P_ArchiveProperties
  | P_AdditionalStreamsInfo
  | P_MainStreamsInfo
  | P_FilesInfo
  | P_PackInfo
  | P_UnPackInfo
  | P_SubStreamsInfo
  | P_Size
  | P_CRC
  | P_Folder
  | P_CodersUnPackSize
  | P_NumUnPackStream
  | P_EmptyStream
  | P_EmptyFile
  | P_Anti
  | P_Name
  | P_CTime
  | P_ATime
  | P_MTime
  | P_Attributes
  | P_Comment
  | P_EncodedHeader
  | P_StartPos
  | P_Dummy

text \<open>The discriminants of the enum.\<close>

primrec Property_code :: "Property \<Rightarrow> u8" where
  "Property_code P_END = 0x00"
| "Property_code P_Header = 0x01"
| "Property_code P_ArchiveProperties = 0x02"
| "Property_code P_AdditionalStreamsInfo = 0x03"
| "Property_code P_MainStreamsInfo = 0x04"
| "Property_code P_FilesInfo = 0x05"
| "Property_code P_PackInfo = 0x06"
| "Property_code P_UnPackInfo = 0x07"
| "Property_code P_SubStreamsInfo = 0x08"
| "Property_code P_Size = 0x09"
| "Property_code P_CRC = 0x0A"
| "Property_code P_Folder = 0x0B"
| "Property_code P_CodersUnPackSize = 0x0C"
| "Property_code P_NumUnPackStream = 0x0D"
| "Property_code P_EmptyStream = 0x0E"
| "Property_code P_EmptyFile = 0x0F"
| "Property_code P_Anti = 0x10"
| "Property_code P_Name = 0x11"
| "Property_code P_CTime = 0x12"
| "Property_code P_ATime = 0x13"
| "Property_code P_MTime = 0x14"
| "Property_code P_Attributes = 0x15"
| "Property_code P_Comment = 0x16"
| "Property_code P_EncodedHeader = 0x17"
| "Property_code P_StartPos = 0x18"
| "Property_code P_Dummy = 0x19"

definition all_properties :: "Property list" where
  "all_properties = [P_END, P_Header, P_ArchiveProperties, P_AdditionalStreamsInfo, P_MainStreamsInfo, P_FilesInfo, P_PackInfo, P_UnPackInfo, P_SubStreamsInfo, P_Size, P_CRC, P_Folder, P_CodersUnPackSize, P_NumUnPackStream, P_EmptyStream, P_EmptyFile, P_Anti, P_Name, P_CTime, P_ATime, P_MTime, P_Attributes, P_Comment, P_EncodedHeader, P_StartPos, P_Dummy]"

text \<open>\<open>FromPrimitive\<close>: the variant with that discriminant, if there is one.\<close>

definition Property_from_u8 :: "u8 \<Rightarrow> Property option" where
  "Property_from_u8 v = List.find (\<lambda>p. Property_code p = v) all_properties"

definition Property_parse :: "bytes \<Rightarrow> Property iresult" where
  "Property_parse input =
     (case input of
        [] \<Rightarrow> Err (Error input Eof)
      | b # rest \<Rightarrow>
          (case Property_from_u8 b of
             Some p \<Rightarrow> Ok (rest, p)
           | None \<Rightarrow> Err (Error input Satisfy)))"

definition find_next_property_id :: "bytes \<Rightarrow> nat \<Rightarrow> Property iresult" where
  "find_next_property_id input offset =
     and_then (ok_or (Error input Eof) (get_from input offset)) (\<lambda>rest.
       case rest of
         [] \<Rightarrow> Err (Error rest Eof)
       | b # tail \<Rightarrow>
           (case Property_from_u8 b of
              Some p \<Rightarrow> Ok (tail, p)
            | None \<Rightarrow> Err (Error rest Satisfy)))"


section \<open>Tags and their codes\<close>

lemma set_all_properties: "set all_properties = UNIV"
proof -
  have "p \<in> set all_properties" for p
    by (cases p) (simp_all add: all_properties_def)
  then show ?thesis by blast
qed

lemma Property_from_code [simp]: "Property_from_u8 (Property_code p) = Some p"
  by (cases p) (simp_all add: Property_from_u8_def all_properties_def)

lemma Property_from_u8_eq_Some: "Property_from_u8 b = Some p \<longleftrightarrow> b = Property_code p"
proof
  assume "Property_from_u8 b = Some p"
  then show "b = Property_code p"
    unfolding Property_from_u8_def find_Some_iff by blast
qed simp

lemma Property_code_inject [simp]: "Property_code p = Property_code q \<longleftrightarrow> p = q"
proof
  assume "Property_code p = Property_code q"
  then have "Property_from_u8 (Property_code p) = Property_from_u8 (Property_code q)" by simp
  then show "p = q" by simp
qed simp

interpretation tag: codec Property_parse "\<lambda>p. [Property_code p]"
proof
  fix i r p
  assume "Property_parse i = Ok (r, p)"
  then have "i = [Property_code p] @ r"
    by (auto simp: Property_parse_def Property_from_u8_eq_Some split: list.splits option.splits)
  then show "\<exists>pre. i = pre @ r \<and> parses Property_parse pre p"
    by (intro exI [of _ "[Property_code p]"]) (simp add: parses_def Property_parse_def)
next
  fix p
  show "parses Property_parse [Property_code p] p"
    by (simp add: parses_def Property_parse_def)
qed

interpretation tag: progress_parser Property_parse
proof
  fix i r p
  assume "Property_parse i = Ok (r, p)"
  then show "length r < length i"
    by (auto simp: Property_parse_def split: list.splits option.splits)
qed

lemmas Property_parser [parser_laws] = tag.parser_axioms
lemmas Property_progress [shrinks] = tag.progress

lemma Property_parse_Cons:
  "Property_parse (b # r) = (case Property_from_u8 b of Some p \<Rightarrow> Ok (r, p) | None \<Rightarrow> Err (Error (b # r) Satisfy))"
  by (simp add: Property_parse_def)

lemma Property_parse_eq_Ok: "Property_parse i = Ok (r, p) \<longleftrightarrow> i = Property_code p # r"
  by (auto simp: Property_parse_def Property_from_u8_eq_Some split: list.splits option.splits)

section \<open>Properties\<close>

text \<open>
  A property tag is one byte: parsing succeeds exactly on the codes of the 26
  known tags, returns that tag and leaves the rest of the input.
\<close>

theorem Property_parse_exact:
  "Property_parse i = Ok (r, p) \<longleftrightarrow> i = Property_code p # r"
  by (rule Property_parse_eq_Ok)

end
