(* ===== verification/Pack_Info.thy ===== *)
theory Pack_Info
  imports Folder_Graph Property_Tags
begin

text \<open>
  \<^verbatim>\<open>src/src/pack_info.rs\<close>: where the packed streams are and how they unpack. For each of
  the two blocks there is a parser and a scanner that keeps nothing. Folder definitions are
  kept as raw bytes with the offset of each folder and parsed on demand.
\<close>

section \<open>Sections and digests\<close>

text \<open>The default branch of every tag loop: a length and that many bytes.\<close>

definition skip_section :: "nom \<Rightarrow> bytes \<Rightarrow> unit iresult" where
  "skip_section N input =
     and_then (sevenzip_varuint64_decode input) (\<lambda>(i, size).
     and_then (ok_or (Error input TooLarge) (usize_try_from size)) (\<lambda>sz.
     and_then (nom_take N sz i) (\<lambda>(i, _). Ok (i, ()))))"

text \<open>The fold over \<open>0..num_streams\<close>: a checksum for every defined stream from \<open>k\<close> on.\<close>

fun read_digests :: "nom \<Rightarrow> (nat \<Rightarrow> bool) \<Rightarrow> nat \<Rightarrow> nat \<Rightarrow> bytes \<Rightarrow> u32 option list iresult" where
  "read_digests N is_defined k 0 input = Ok (input, [])"
| "read_digests N is_defined k (Suc n) input =
     (if is_defined k then
        and_then (nom_le_u32 N input) (\<lambda>(input, crc).
        and_then (read_digests N is_defined (Suc k) n input) (\<lambda>(input, crcs).
          Ok (input, Some crc # crcs)))
      else
        and_then (read_digests N is_defined (Suc k) n input) (\<lambda>(input, crcs).
          Ok (input, None # crcs)))"

text \<open>The optional bitmap in front of the checksums.\<close>

definition read_bitmap :: "nom \<Rightarrow> u8 \<Rightarrow> nat \<Rightarrow> bytes \<Rightarrow> bytes iresult" where
  "read_bitmap N all_defined num input =
     (if all_defined = 0 then nom_take N (div_ceil num 8) input else Ok (input, []))"

definition parse_digests :: "nom \<Rightarrow> bytes \<Rightarrow> nat \<Rightarrow> u32 option list iresult" where
  "parse_digests N input num_streams =
     and_then (nom_le_u8 N input) (\<lambda>(input, all_defined).
     and_then (read_bitmap N all_defined num_streams input) (\<lambda>(input, bitmap).
       read_digests N (\<lambda>i. all_defined \<noteq> 0 \<or> bitmap_is_set bitmap i) 0 num_streams input))"


section \<open>Pack info\<close>

record PackInfo =
  pack_pos :: u64
  num_pack_streams :: u64
  pack_size :: "u64 list"
  pi_digests :: "u32 option list"

lemma skip_section_shrink: "skip_section N i = Ok (r, u) \<Longrightarrow> length r < length i"
  by (auto simp: skip_section_def split: if_splits dest!: varuint_progress)

lemma le_u8_shrink: "nom_le_u8 N i = Ok (r, x) \<Longrightarrow> length r < length i"
  by (rule le_u8.progress)

lemma read_digests_shrink: "read_digests N d k n i = Ok (r, cs) \<Longrightarrow> length r \<le> length i"
  by (induction N d k n i arbitrary: cs rule: read_digests.induct)
     (fastforce simp: nom_le_u32_eq split: if_splits)+

lemma parse_digests_shrink: "parse_digests N i n = Ok (r, cs) \<Longrightarrow> length r < length i"
  by (auto simp: parse_digests_def read_bitmap_def split: if_splits list.splits dest!: read_digests_shrink)

lemma scan_digests_shrink: "scan_digests N i n = Ok (r, u) \<Longrightarrow> length r < length i"
  by (auto simp: scan_digests_def Let_def split: if_splits list.splits)

lemma varuint_repeat_shrink:
  "repeat_p sevenzip_varuint64_decode n i = Ok (r, xs) \<Longrightarrow> length r \<le> length i"
  by (drule varuint.repeat_consumes) simp

lemma varuint_skip_shrink: "skip_p sevenzip_varuint64_decode n i = Ok (r, u) \<Longrightarrow> length r \<le> length i"
  by (auto simp: skip_p_iff_repeat_p dest: varuint_repeat_shrink)

lemmas section_shrinks = Property_progress skip_section_shrink parse_digests_shrink
  scan_digests_shrink varuint_repeat_shrink varuint_skip_shrink

function pack_info_loop :: "nom \<Rightarrow> u64 \<Rightarrow> bytes \<Rightarrow> u32 option list \<Rightarrow> u32 option list iresult" where
  "pack_info_loop N num_streams input digests =
     and_then (Property_parse input) (\<lambda>(input, tag).
       if tag = P_END then Ok (input, digests)
       else if tag = P_CRC then
         and_then (ok_or (Error input TooLarge) (usize_try_from num_streams)) (\<lambda>n.
         and_then (parse_digests N input n) (\<lambda>(i, crcs).
           pack_info_loop N num_streams i crcs))
       else
         and_then (skip_section N input) (\<lambda>(i, _).
           pack_info_loop N num_streams i digests))"
  by pat_completeness auto
termination
  by (relation "measure (\<lambda>(N, num_streams, input, digests). length input)")
     (auto dest!: section_shrinks)

text \<open>The fields in front of the tag loop: the position, the count and the start of the sizes.\<close>

definition pack_info_prefix :: "bytes \<Rightarrow> (u64 \<times> u64) iresult" where
  "pack_info_prefix input =
     (let orig_input = input in
      and_then (Property_parse input) (\<lambda>(input, property_id).
        if property_id \<noteq> P_PackInfo then Err (Failure orig_input Satisfy)
        else
          and_then (sevenzip_varuint64_decode input) (\<lambda>(input, pos).
          and_then (sevenzip_varuint64_decode input) (\<lambda>(input, num_streams).
          and_then (Property_parse input) (\<lambda>(input, size_marker).
            if size_marker \<noteq> P_Size then Err (Failure input Satisfy)
            else Ok (input, pos, num_streams))))))"

definition PackInfo_parse :: "nom \<Rightarrow> bytes \<Rightarrow> PackInfo iresult" where
  "PackInfo_parse N input =
     and_then (pack_info_prefix input) (\<lambda>(input, pos, num_streams).
     and_then (repeat_p sevenzip_varuint64_decode (unat num_streams) input) (\<lambda>(input, sizes).
     and_then (pack_info_loop N num_streams input []) (\<lambda>(input, digests).
       Ok (input, \<lparr>pack_pos = pos, num_pack_streams = num_streams, pack_size = sizes,
         pi_digests = (if digests = [] then replicate (length sizes) None else digests)\<rparr>))))"

function scan_pack_info_loop :: "nom \<Rightarrow> nat \<Rightarrow> bytes \<Rightarrow> unit iresult" where
  "scan_pack_info_loop N num_streams input =
     and_then (Property_parse input) (\<lambda>(input, tag).
       if tag = P_END then Ok (input, ())
       else if tag = P_CRC then
         and_then (scan_digests N input num_streams) (\<lambda>(i, _). scan_pack_info_loop N num_streams i)
       else
         and_then (skip_section N input) (\<lambda>(i, _). scan_pack_info_loop N num_streams i))"
  by pat_completeness auto
termination
  by (relation "measure (\<lambda>(N, num_streams, input). length input)")
     (auto dest!: section_shrinks)

definition scan_pack_info :: "nom \<Rightarrow> bytes \<Rightarrow> unit iresult" where
  "scan_pack_info N input =
     and_then (pack_info_prefix input) (\<lambda>(input, pos, num_streams).
     and_then (skip_p sevenzip_varuint64_decode (unat num_streams) input) (\<lambda>(input, _).
     and_then (ok_or (Error input TooLarge) (usize_try_from num_streams)) (\<lambda>n.
       scan_pack_info_loop N n input)))"

declare pack_info_loop.simps [simp del] scan_pack_info_loop.simps [simp del]


section \<open>Unpack info\<close>

datatype FolderLocation = Inline | External nat

definition parse_folder_declaration :: "nom \<Rightarrow> bytes \<Rightarrow> (u64 \<times> FolderLocation) iresult" where
  "parse_folder_declaration N input =
     (let original = input in
      and_then (Property_parse input) (\<lambda>(input, tag).
        if tag \<noteq> P_UnPackInfo then Err (Failure original Satisfy)
        else
          and_then (Property_parse input) (\<lambda>(input, marker).
            if marker \<noteq> P_Folder then Err (Failure input Satisfy)
            else
              and_then (sevenzip_varuint64_decode input) (\<lambda>(input, count).
              and_then (nom_le_u8 N input) (\<lambda>(input, flag).
                if flag = 0 then Ok (input, count, Inline)
                else if flag = 1 then
                  and_then (sevenzip_varuint64_decode input) (\<lambda>(input, raw_index).
                  and_then (ok_or (Failure input TooLarge) (usize_try_from raw_index)) (\<lambda>index.
                    Ok (input, count, External index)))
                else Err (Failure input Verify))))))"

text \<open>The folder bytes: the rest of the header, or one of the decoded external streams.\<close>

datatype FolderSource = SrcInline bytes | SrcExternal Bytes

definition FolderSource_resolve :: "bytes \<Rightarrow> FolderLocation \<Rightarrow> Bytes list \<Rightarrow> FolderSource iresult" where
  "FolderSource_resolve input location external_data =
     (case location of
        Inline \<Rightarrow> Ok (input, SrcInline input)
      | External index \<Rightarrow>
          and_then (ok_or (Failure input Eof) (get external_data index)) (\<lambda>data.
            Ok (input, SrcExternal data)))"

fun source_bytes :: "FolderSource \<Rightarrow> bytes" where
  "source_bytes (SrcInline bs) = bs"
| "source_bytes (SrcExternal b) = b_data b"

fun source_ptr :: "nat \<Rightarrow> FolderSource \<Rightarrow> nat" where
  "source_ptr end_addr (SrcInline bs) = end_addr - length bs"
| "source_ptr end_addr (SrcExternal b) = b_ptr b"

fun remaining_header :: "FolderSource \<Rightarrow> bytes \<Rightarrow> nat \<Rightarrow> bytes nom_result" where
  "remaining_header (SrcInline bs) input consumed = ok_or (Failure input Eof) (get_from input consumed)"
| "remaining_header (SrcExternal b) input consumed = Ok input"

fun source_backing :: "FolderSource \<Rightarrow> Bytes \<Rightarrow> Bytes" where
  "source_backing (SrcInline bs) inline = inline"
| "source_backing (SrcExternal b) inline = b"

fun nom_err_code :: "nom_err \<Rightarrow> error_kind" where
  "nom_err_code (Error i k) = k"
| "nom_err_code (Failure i k) = k"
| "nom_err_code Incomplete = Eof"

text \<open>
  The loop over the folder blocks. \<open>offsets\<close> is the optional vector of the source: \<open>None\<close>
  when the caller keeps no offsets.
\<close>

definition push_offset :: "u32 list option \<Rightarrow> nat \<Rightarrow> (error_kind, u32 list option) result" where
  "push_offset offsets n =
     (case offsets of
        None \<Rightarrow> Ok None
      | Some os \<Rightarrow> and_then (ok_or TooLarge (u32_try_from_usize n)) (\<lambda>w. Ok (Some (os @ [w]))))"

fun folder_blocks_loop :: "nom \<Rightarrow> bytes \<Rightarrow> nat \<Rightarrow> bytes \<Rightarrow> nat \<Rightarrow> u32 list option \<Rightarrow>
    (error_kind, bytes \<times> nat \<times> u32 list option) result" where
  "folder_blocks_loop N data 0 folders sum_out offsets = Ok (folders, sum_out, offsets)"
| "folder_blocks_loop N data (Suc n) folders sum_out offsets =
     and_then (push_offset offsets (length data - length folders)) (\<lambda>offsets.
     and_then (map_err nom_err_code (scan_folder N folders)) (\<lambda>(remaining, out_streams).
     and_then (ok_or TooLarge (usize_checked_add sum_out out_streams)) (\<lambda>sum_out.
       folder_blocks_loop N data n remaining sum_out offsets)))"

definition scan_folder_blocks :: "nom \<Rightarrow> bytes \<Rightarrow> u64 \<Rightarrow> u32 list option \<Rightarrow>
    (error_kind, nat \<times> nat \<times> u32 list option) result" where
  "scan_folder_blocks N data count offsets =
     and_then (folder_blocks_loop N data (unat count) data 0 offsets) (\<lambda>(folders, sum_out, offsets).
       let consumed = length data - length folders in
       and_then (push_offset offsets consumed) (\<lambda>offsets.
         Ok (consumed, sum_out, offsets)))"

record UnpackInfo =
  num_folders :: u64
  folder_data :: Bytes
  folder_offsets :: "u32 list"
  ui_unpack_sizes :: "u64 list"
  ui_digests :: "u32 option list"

function unpack_info_loop :: "nom \<Rightarrow> u64 \<Rightarrow> nat \<Rightarrow> bytes \<Rightarrow> u64 list \<Rightarrow> u32 option list \<Rightarrow>
    (u64 list \<times> u32 option list) iresult" where
  "unpack_info_loop N nf sum_out input sizes digests =
     and_then (Property_parse input) (\<lambda>(input, tag).
       if tag = P_END then Ok (input, sizes, digests)
       else if tag = P_CodersUnPackSize then
         and_then (repeat_p sevenzip_varuint64_decode sum_out input) (\<lambda>(i, new_sizes).
           unpack_info_loop N nf sum_out i (sizes @ new_sizes) digests)
       else if tag = P_CRC then
         and_then (ok_or (Error input TooLarge) (usize_try_from nf)) (\<lambda>n.
         and_then (parse_digests N input n) (\<lambda>(i, crcs).
           unpack_info_loop N nf sum_out i sizes crcs))
       else
         and_then (skip_section N input) (\<lambda>(i, _).
           unpack_info_loop N nf sum_out i sizes digests))"
  by pat_completeness auto
termination
  by (relation "measure (\<lambda>(N, nf, sum_out, input, sizes, digests). length input)")
     (auto dest!: section_shrinks)

text \<open>\<open>end_addr\<close> is the address behind the last byte of \<open>input\<close>.\<close>

definition UnpackInfo_parse_with_external ::
  "nom \<Rightarrow> nat \<Rightarrow> bytes \<Rightarrow> Bytes \<Rightarrow> Bytes list \<Rightarrow> UnpackInfo iresult" where
  "UnpackInfo_parse_with_external N end_addr input backing external_data =
     and_then (parse_folder_declaration N input) (\<lambda>(input, nf, location).
     and_then (FolderSource_resolve input location external_data) (\<lambda>(input, source).
     and_then (map_err (Failure input) (scan_folder_blocks N (source_bytes source) nf (Some [])))
       (\<lambda>(consumed, sum_out, offsets).
     and_then (bytes_subslice (source_backing source backing) (source_ptr end_addr source)
         (take consumed (source_bytes source)) input) (\<lambda>data.
     and_then (remaining_header source input consumed) (\<lambda>input.
     and_then (unpack_info_loop N nf sum_out input [] []) (\<lambda>(input, sizes, digests).
       let offsets = (case offsets of Some os \<Rightarrow> os | None \<Rightarrow> []) in
       Ok (input, \<lparr>num_folders = nf, folder_data = data, folder_offsets = offsets,
         ui_unpack_sizes = sizes,
         ui_digests = (if digests = [] then replicate (length offsets - 1) None else digests)\<rparr>)))))))"

definition UnpackInfo_parse :: "nom \<Rightarrow> nat \<Rightarrow> bytes \<Rightarrow> Bytes \<Rightarrow> UnpackInfo iresult" where
  "UnpackInfo_parse N end_addr input backing = UnpackInfo_parse_with_external N end_addr input backing []"

definition folder_bytes :: "UnpackInfo \<Rightarrow> nat \<Rightarrow> bytes r7z_result" where
  "folder_bytes self idx =
     and_then (ok_or Parse (get (folder_offsets self) idx)) (\<lambda>start.
     and_then (ok_or Parse (get (folder_offsets self) (idx + 1))) (\<lambda>end.
       let start = unat start; end = unat end in
       if start > end \<or> end > length (b_data (folder_data self)) then Err Parse
       else Ok (take (end - start) (drop start (b_data (folder_data self))))))"

text \<open>\<open>nom::combinator::all_consuming(p)\<close>: \<open>p\<close>, and then nothing may be left.\<close>

definition all_consuming :: "nom \<Rightarrow> (bytes \<Rightarrow> 'a iresult) \<Rightarrow> bytes \<Rightarrow> 'a iresult" where
  "all_consuming N p i =
     and_then (p i) (\<lambda>(r, x). and_then (nom_finished N r) (\<lambda>(r, _). Ok (r, x)))"

definition parse_folder_with_graph :: "nom \<Rightarrow> UnpackInfo \<Rightarrow> nat \<Rightarrow> (Folder \<times> FolderGraph) r7z_result" where
  "parse_folder_with_graph N self idx =
     and_then (folder_bytes self idx) (\<lambda>bytes.
     and_then (map_err (\<lambda>_. Parse) (all_consuming N (Folder_parse N) bytes)) (\<lambda>(_, folder).
     and_then (graph folder) (\<lambda>graph.
       Ok (folder, graph))))"

definition parse_folder :: "nom \<Rightarrow> UnpackInfo \<Rightarrow> nat \<Rightarrow> Folder r7z_result" where
  "parse_folder N self idx =
     and_then (parse_folder_with_graph N self idx) (\<lambda>(folder, _). Ok folder)"

definition num_folders_usize :: "UnpackInfo \<Rightarrow> nat" where
  "num_folders_usize self = length (folder_offsets self) - 1"

function scan_unpack_info_loop :: "nom \<Rightarrow> nat \<Rightarrow> nat \<Rightarrow> bytes \<Rightarrow> unit iresult" where
  "scan_unpack_info_loop N nf sum_out input =
     and_then (Property_parse input) (\<lambda>(input, tag).
       if tag = P_END then Ok (input, ())
       else if tag = P_CodersUnPackSize then
         and_then (skip_p sevenzip_varuint64_decode sum_out input) (\<lambda>(i, _).
           scan_unpack_info_loop N nf sum_out i)
       else if tag = P_CRC then
         and_then (scan_digests N input nf) (\<lambda>(i, _). scan_unpack_info_loop N nf sum_out i)
       else
         and_then (skip_section N input) (\<lambda>(i, _). scan_unpack_info_loop N nf sum_out i))"
  by pat_completeness auto
termination
  by (relation "measure (\<lambda>(N, nf, sum_out, input). length input)")
     (auto dest!: section_shrinks)

definition scan_unpack_info_with_external :: "nom \<Rightarrow> bytes \<Rightarrow> Bytes list \<Rightarrow> nat iresult" where
  "scan_unpack_info_with_external N input external_data =
     and_then (parse_folder_declaration N input) (\<lambda>(input, nf, location).
     and_then (FolderSource_resolve input location external_data) (\<lambda>(input, source).
     and_then (map_err (Failure input) (scan_folder_blocks N (source_bytes source) nf None))
       (\<lambda>(consumed, sum_out, _).
     and_then (remaining_header source input consumed) (\<lambda>input.
     and_then (ok_or (Error input TooLarge) (usize_try_from nf)) (\<lambda>nf.
     and_then (scan_unpack_info_loop N nf sum_out input) (\<lambda>(input, _).
       Ok (input, nf)))))))"

declare unpack_info_loop.simps [simp del] scan_unpack_info_loop.simps [simp del]



section \<open>Digests: scanner and parser\<close>

abbreviation defined_count :: "(nat \<Rightarrow> bool) \<Rightarrow> nat \<Rightarrow> nat \<Rightarrow> nat" where
  "defined_count d k n \<equiv> length (filter d [k..<k + n])"

lemma upt_add_Suc: "[k..<k + Suc n] = k # [Suc k..<Suc k + n]"
  by (simp add: upt_conv_Cons)

lemma read_digests_Ok:
  "(\<exists>cs. read_digests N d k n i = Ok (r, cs)) \<longleftrightarrow>
     4 * defined_count d k n \<le> length i \<and> r = drop (4 * defined_count d k n) i"
proof (induction n arbitrary: k i)
  case (Suc n)
  show ?case
  proof (cases "d k")
    case True
    then have "(\<exists>cs. read_digests N d k (Suc n) i = Ok (r, cs)) \<longleftrightarrow>
        4 \<le> length i \<and> (\<exists>cs. read_digests N d (Suc k) n (drop 4 i) = Ok (r, cs))"
      by (auto simp: nom_le_u32_eq)
    then show ?thesis
      unfolding Suc.IH upt_add_Suc using True by (auto simp: add.commute)
  next
    case False
    then have "(\<exists>cs. read_digests N d k (Suc n) i = Ok (r, cs)) \<longleftrightarrow>
        (\<exists>cs. read_digests N d (Suc k) n i = Ok (r, cs))"
      by auto
    then show ?thesis unfolding Suc.IH upt_add_Suc using False by simp
  qed
qed auto

lemma read_digests_length: "read_digests N d k n i = Ok (r, cs) \<Longrightarrow> length cs = n"
  by (induction N d k n i arbitrary: cs rule: read_digests.induct) (fastforce split: if_splits)+

lemma parse_digests_length: "parse_digests N i n = Ok (r, cs) \<Longrightarrow> length cs = n"
  by (auto simp: parse_digests_def dest: read_digests_length)

lemma scan_digests_agrees:
  assumes "length i < usize_limit"
  shows "scan_digests N i n = Ok (r, ()) \<longleftrightarrow> (\<exists>cs. parse_digests N i n = Ok (r, cs))"
proof (cases i)
  case (Cons b j)
  have all: "defined_count (\<lambda>i. True) 0 n = n" by simp
  show ?thesis
  proof (cases "b = 0")
    case True
    let ?bm = "take (div_ceil n 8) j" and ?j = "drop (div_ceil n 8) j"
    have "4 * defined_count (bitmap_is_set ?bm) 0 n \<le> length ?j \<Longrightarrow>
        defined_count (bitmap_is_set ?bm) 0 n * 4 < usize_limit"
      using assms Cons by simp
    then show ?thesis
      using True Cons read_digests_Ok [of N "bitmap_is_set ?bm" 0 n ?j r]
      by (auto simp: scan_digests_def parse_digests_def read_bitmap_def Let_def mult.commute)
  next
    case False
    have "4 * n \<le> length j \<Longrightarrow> n * 4 < usize_limit" using assms Cons by simp
    then show ?thesis
      using False Cons read_digests_Ok [of N "\<lambda>i. True" 0 n j r]
      by (auto simp: scan_digests_def parse_digests_def read_bitmap_def mult.commute)
  qed
qed (simp add: scan_digests_def parse_digests_def)

interpretation digests: scan_agrees "\<lambda>i. scan_digests N i n" "\<lambda>i. parse_digests N i n" "\<lambda>_. ()"
  by unfold_locales (simp add: scan_digests_agrees)

interpretation folder_scan: scan_agrees "scan_folder N" "Folder_parse N" total_out_streams
  by unfold_locales (auto simp: scan_folder_eq)


section \<open>Pack info: scanner and parser\<close>

lemma scan_digests_same_rest:
  "length i < usize_limit \<Longrightarrow> same_rest (scan_digests N i n) (parse_digests N i n)"
  using scan_digests_agrees [of i N n] by (simp add: same_rest_def)

lemma pack_info_loops_agree:
  assumes "length i < usize_limit"
  shows "same_rest (scan_pack_info_loop N (unat n) i) (pack_info_loop N n i ds)"
  using assms
proof (induction i arbitrary: ds rule: measure_induct_rule [of length])
  case (less i)
  show ?case
    unfolding scan_pack_info_loop.simps [of N _ i] pack_info_loop.simps [of N _ i]
    using less
    by (intro same_rest_bind_same)
       (auto intro!: same_rest_bind scan_digests_same_rest dest!: section_shrinks)
qed

lemma scan_pack_info_same_rest:
  assumes "length i < usize_limit"
  shows "same_rest (scan_pack_info N i) (PackInfo_parse N i)"
  unfolding scan_pack_info_def PackInfo_parse_def
proof (rule same_rest_bind_same, clarsimp)
  fix j pos n
  assume "pack_info_prefix i = Ok (j, pos, n)"
  then have j: "length j < usize_limit"
    using assms by (auto simp: pack_info_prefix_def Let_def split: if_splits
        dest!: varuint_progress Property_progress)
  show "same_rest
      (and_then (skip_p sevenzip_varuint64_decode (unat n) j) (\<lambda>(k, _). scan_pack_info_loop N (unat n) k))
      (and_then (repeat_p sevenzip_varuint64_decode (unat n) j) (\<lambda>(k, sizes).
         and_then (pack_info_loop N n k []) (\<lambda>(k, ds).
           Ok (k, \<lparr>pack_pos = pos, num_pack_streams = n, pack_size = sizes,
             pi_digests = if ds = [] then replicate (length sizes) None else ds\<rparr>))))"
    using j by (intro same_rest_bind same_rest_skip_repeat)
      (auto dest: varuint_repeat_shrink intro!: same_rest_value pack_info_loops_agree)
qed

interpretation pack_info: scan_agrees "scan_pack_info N" "PackInfo_parse N" "\<lambda>_. ()"
  using scan_pack_info_same_rest by unfold_locales (simp add: same_rest_def)


text \<open>The sizes and digests of a parsed block have one entry per packed stream.\<close>

lemma parse_digests_facts: "parse_digests N i n = Ok (r, cs) \<Longrightarrow> length r < length i \<and> length cs = n"
  using parse_digests_shrink parse_digests_length by blast

definition digests_for :: "nat \<Rightarrow> u32 option list \<Rightarrow> bool" where
  "digests_for n ds \<longleftrightarrow> ds = [] \<or> length ds = n"

lemma digests_forI [simp, intro]: "digests_for n []" "length ds = n \<Longrightarrow> digests_for n ds"
  by (simp_all add: digests_for_def)

lemma pack_info_loop_digests:
  "pack_info_loop N n i ds = Ok (r, ds') \<Longrightarrow> digests_for (unat n) ds \<Longrightarrow> digests_for (unat n) ds'"
proof (induction i arbitrary: ds rule: measure_induct_rule [of length])
  case (less i)
  from less.prems show ?case
    by (subst (asm) pack_info_loop.simps)
       (auto split: if_splits dest!: Property_progress skip_section_shrink parse_digests_facts
         intro: less.IH [rotated])
qed

lemma PackInfo_parse_lengths:
  assumes "PackInfo_parse N i = Ok (r, pack)"
  shows "length (pack_size pack) = unat (num_pack_streams pack) \<and>
    length (pi_digests pack) = unat (num_pack_streams pack)"
  using assms
  by (auto simp: PackInfo_parse_def digests_for_def dest!: repeat_p_length pack_info_loop_digests)

section \<open>Properties\<close>

text \<open>
  The pack info scanner accepts exactly what the parser accepts and leaves the same
  input; the parsed sizes and digests have one entry for each packed stream.
\<close>

theorem scan_pack_info_exact:
  assumes "length i < usize_limit"
  shows "(scan_pack_info N i = Ok (r, ()) \<longleftrightarrow> (\<exists>v. PackInfo_parse N i = Ok (r, v))) \<and>
    (\<forall>v. PackInfo_parse N i = Ok (r, v) \<longrightarrow>
       length (pack_size v) = unat (num_pack_streams v) \<and>
       length (pi_digests v) = unat (num_pack_streams v))"
  using pack_info.agrees [OF assms] PackInfo_parse_lengths by blast

text \<open>Evaluation of the tag loops on literal input.\<close>

lemmas tag_evals = Property_parse_Cons Property_from_u8_def all_properties_def
lemmas varuint_evals = sevenzip_varuint64_decode_def varuint_decode_loop.simps
lemmas pack_info_evals = pack_info_prefix_def PackInfo_parse_def scan_pack_info_def skip_section_def
  pack_info_loop.simps [of _ _ "_ # _"] scan_pack_info_loop.simps [of _ _ "_ # _"]

theorem scan_pack_info_exact_witness:
  "scan_pack_info nom_reference [6, 0, 1, 9, 5, 0, 77] = Ok ([77], ()) \<and>
   (\<exists>v. PackInfo_parse nom_reference [6, 0, 1, 9, 5, 0, 77] = Ok ([77], v) \<and>
      length (pack_size v) = 1 \<and> length (pi_digests v) = 1)"
proof -
  have scan: "scan_pack_info nom_reference [6, 0, 1, 9, 5, 0, 77] = Ok ([77], ())"
    by (simp add: pack_info_evals tag_evals varuint_evals Let_def)
  have "\<exists>v. PackInfo_parse nom_reference [6, 0, 1, 9, 5, 0, 77] = Ok ([77], v) \<and> num_pack_streams v = 1"
    by (simp add: pack_info_evals tag_evals varuint_evals Let_def)
  then show ?thesis
    using scan scan_pack_info_exact [of "[6, 0, 1, 9, 5, 0, 77]" nom_reference "[77]"] by fastforce
qed

end
