(* ===== verification/Unpack_Blocks.thy ===== *)
theory Unpack_Blocks
  imports Pack_Info "HOL-Library.Sublist"
begin

text \<open>
  The folder blocks of an unpack info: the offsets recorded while scanning cut the block
  data exactly at the folder boundaries, so that a folder parsed on demand is the
  folder that was scanned.
\<close>

section \<open>Offsets\<close>

text \<open>\<open>folder_block N data a b f\<close>: the bytes from \<open>a\<close> to \<open>b\<close> are folder \<open>f\<close>, completely.\<close>

definition folder_block :: "nom \<Rightarrow> bytes \<Rightarrow> nat \<Rightarrow> nat \<Rightarrow> Folder \<Rightarrow> bool" where
  "folder_block N data a b f \<longleftrightarrow>
     a \<le> b \<and> b \<le> length data \<and> Folder_parse N (take (b - a) (drop a data)) = Ok ([], f)"

text \<open>Consecutive blocks between the positions of a list.\<close>

fun folder_blocks :: "nom \<Rightarrow> bytes \<Rightarrow> nat list \<Rightarrow> Folder list \<Rightarrow> bool" where
  "folder_blocks N data [a] [] \<longleftrightarrow> a \<le> length data"
| "folder_blocks N data (a # b # ps) (f # fs) \<longleftrightarrow> folder_block N data a b f \<and> folder_blocks N data (b # ps) fs"
| "folder_blocks N data _ _ \<longleftrightarrow> False"

lemma blocks_length: "folder_blocks N data ps fs \<Longrightarrow> length ps = Suc (length fs)"
  by (induction N data ps fs rule: folder_blocks.induct) auto

lemma blocks_nth:
  "folder_blocks N data ps fs \<Longrightarrow> k < length fs \<Longrightarrow> folder_block N data (ps ! k) (ps ! Suc k) (fs ! k)"
proof (induction N data ps fs arbitrary: k rule: folder_blocks.induct)
  case (2 N data a b ps f fs)
  then show ?case by (cases k) auto
qed auto

lemma blocks_last: "folder_blocks N data ps fs \<Longrightarrow> k < length ps \<Longrightarrow> ps ! k \<le> last ps \<and> last ps \<le> length data"
proof (induction N data ps fs arbitrary: k rule: folder_blocks.induct)
  case (2 N data a b ps f fs)
  then show ?case
    using "2.IH" [of 0] by (cases k) (auto simp: folder_block_def)
qed auto

lemma Folder_parse_block:
  assumes "data = pre @ fs" and "Folder_parse N fs = Ok (rest, f)"
  shows "folder_block N data (length data - length fs) (length data - length rest) f"
proof -
  have lt: "length rest < length fs" using Folder_parse_progress [OF assms(2)] .
  have "length data - length rest - (length data - length fs) = length fs - length rest"
    using assms(1) lt by simp
  moreover have "drop (length data - length fs) data = fs" using assms(1) by simp
  ultimately show ?thesis
    using parser.cut [OF Folder_parser assms(2)] lt assms(1) by (simp add: folder_block_def)
qed

lemma push_offset_Some:
  "push_offset (Some os) n = Ok os' \<longleftrightarrow> (\<exists>w. n < 2 ^ 32 \<and> unat w = n \<and> os' = Some (os @ [w]))"
  by (auto simp: push_offset_def u32_try_from_usize_eq_Some)

lemma folder_blocks_loop_blocks:
  assumes "folder_blocks_loop N data n fs s (Some os) = Ok (r, t, os')" and "data = pre @ fs"
  shows "\<exists>new folders. os' = Some (os @ new) \<and> length new = n \<and> length folders = n \<and>
    folder_blocks N data (map unat new @ [length data - length r]) folders \<and>
    hd (map unat new @ [length data - length r]) = length data - length fs \<and>
    t = s + sum_list (map total_out_streams folders) \<and>
    folder_blocks_loop N data n fs s None = Ok (r, t, None)"
  using assms
proof (induction n arbitrary: fs s os pre)
  case (Suc n)
  from Suc.prems(1) obtain w fs1 f where w: "unat w = length data - length fs"
    and f: "Folder_parse N fs = Ok (fs1, f)" and s1: "s + total_out_streams f < usize_limit"
    and rec: "folder_blocks_loop N data n fs1 (s + total_out_streams f) (Some (os @ [w])) = Ok (r, t, os')"
    by (auto simp: push_offset_Some scan_folder_eq)
  obtain a where a: "fs = a @ fs1"
    using parserE [OF Folder_parser f] by metis
  obtain new folders where IH: "os' = Some ((os @ [w]) @ new)" "length new = n" "length folders = n"
    "folder_blocks N data (map unat new @ [length data - length r]) folders"
    "hd (map unat new @ [length data - length r]) = length data - length fs1"
    "t = s + total_out_streams f + sum_list (map total_out_streams folders)"
    "folder_blocks_loop N data n fs1 (s + total_out_streams f) None = Ok (r, t, None)"
    using Suc.IH [OF rec, of "pre @ a"] Suc.prems(2) a by auto
  obtain b ps where ps: "map unat new @ [length data - length r] = b # ps"
    by (cases "map unat new @ [length data - length r]") auto
  have "folder_block N data (unat w) b f"
    using Folder_parse_block [OF Suc.prems(2) f] IH(5) ps w by simp
  then have "folder_blocks N data (map unat (w # new) @ [length data - length r]) (f # folders)"
    using IH(4) ps by simp
  then show ?case
    using IH f s1 w
    by (intro exI [of _ "w # new"] exI [of _ "f # folders"]) (simp add: push_offset_def scan_folder_eq)
qed simp

lemma scan_folder_blocks_offsets:
  assumes "scan_folder_blocks N data count (Some []) = Ok (consumed, t, os')"
  shows "\<exists>os folders. os' = Some os \<and> length folders = unat count \<and>
    folder_blocks N data (map unat os) folders \<and> last (map unat os) = consumed \<and> consumed \<le> length data \<and>
    hd (map unat os) = 0 \<and>
    t = sum_list (map total_out_streams folders) \<and>
    scan_folder_blocks N data count None = Ok (consumed, t, None)"
proof -
  obtain r osx where loop: "folder_blocks_loop N data (unat count) data 0 (Some []) = Ok (r, t, osx)"
    and push: "push_offset osx (length data - length r) = Ok os'" "consumed = length data - length r"
    using assms by (auto simp: scan_folder_blocks_def Let_def)
  from folder_blocks_loop_blocks [OF loop, of "[]"] obtain os1 folders where osx: "osx = Some os1"
    and *: "length folders = unat count" "folder_blocks N data (map unat os1 @ [length data - length r]) folders"
    "hd (map unat os1 @ [length data - length r]) = 0" "t = sum_list (map total_out_streams folders)"
    "folder_blocks_loop N data (unat count) data 0 None = Ok (r, t, None)"
    by auto
  from push obtain w where w: "unat w = consumed" "os' = Some (os1 @ [w])"
    by (auto simp: osx push_offset_Some)
  then have "folder_blocks N data (map unat (os1 @ [w])) folders" "hd (map unat (os1 @ [w])) = 0"
    using * push by simp_all
  then show ?thesis
    using w * push(2) by (intro exI [of _ "os1 @ [w]"] exI [of _ folders])
      (simp add: scan_folder_blocks_def push_offset_def)
qed

text \<open>Without offsets nothing bounds the data by four gigabytes; below that both runs agree.\<close>

lemma folder_blocks_loop_None:
  assumes "folder_blocks_loop N data n fs s None = Ok (r, t, x)" and "length data < 2 ^ 32"
  shows "\<exists>os'. folder_blocks_loop N data n fs s (Some os) = Ok (r, t, Some os')"
  using assms
proof (induction n arbitrary: fs s os)
  case (Suc n)
  then show ?case
    by (fastforce simp: push_offset_def u32_try_from_usize_def)
qed simp

lemma scan_folder_blocks_None:
  assumes "scan_folder_blocks N data count None = Ok (consumed, t, x)" and "length data < 2 ^ 32"
  shows "\<exists>os. scan_folder_blocks N data count (Some []) = Ok (consumed, t, Some os)"
proof -
  obtain r y where "folder_blocks_loop N data (unat count) data 0 None = Ok (r, t, y)"
    "consumed = length data - length r"
    using assms(1) by (auto simp: scan_folder_blocks_def Let_def)
  moreover from folder_blocks_loop_None [OF this(1) assms(2), of "[]"] obtain os where
    "folder_blocks_loop N data (unat count) data 0 (Some []) = Ok (r, t, Some os)" ..
  ultimately show ?thesis
    using assms(2) by (simp add: scan_folder_blocks_def push_offset_def u32_try_from_usize_def Let_def)
qed


section \<open>The block in its buffer\<close>

text \<open>\<open>in_buffer backing e i\<close>: the input is a slice of the buffer that ends at address \<open>e\<close>.\<close>

definition in_buffer :: "Bytes \<Rightarrow> nat \<Rightarrow> bytes \<Rightarrow> bool" where
  "in_buffer backing e i \<longleftrightarrow>
     (\<exists>pre post. b_data backing = pre @ i @ post \<and> e = b_ptr backing + length pre + length i) \<and>
     length (b_data backing) < usize_limit"

lemma in_buffer_suffix: "in_buffer backing e (a @ i) \<Longrightarrow> in_buffer backing e i"
  by (auto simp: in_buffer_def) (metis append_assoc length_append add.assoc)

lemma in_buffer_length: "in_buffer backing e i \<Longrightarrow> length i < usize_limit"
  by (auto simp: in_buffer_def)

lemma in_buffer_lies_in: "in_buffer backing e i \<Longrightarrow> lies_in backing (e - length i) (take n i)"
proof -
  assume "in_buffer backing e i"
  then obtain pre post where "b_data backing = pre @ i @ post" "e = b_ptr backing + length pre + length i"
    "length (b_data backing) < usize_limit"
    by (auto simp: in_buffer_def)
  then have "b_data backing = pre @ take n i @ (drop n i @ post) \<and> e - length i = b_ptr backing + length pre"
    by simp
  then show ?thesis
    using \<open>length (b_data backing) < usize_limit\<close> unfolding lies_in_def by blast
qed

lemma whole_lies_in: "length (b_data b) < usize_limit \<Longrightarrow> lies_in b (b_ptr b) (take n (b_data b))"
  unfolding lies_in_def by (metis append_Nil append_take_drop_id list.size(3) add_0_right)

lemma parser_in_buffer:
  "parser p \<Longrightarrow> in_buffer backing e i \<Longrightarrow> p i = Ok (r, x) \<Longrightarrow> in_buffer backing e r"
  by (metis in_buffer_suffix parserE)

lemma parse_folder_declaration_parser: "parser (parse_folder_declaration N)"
  unfolding parse_folder_declaration_def Let_def
proof (rule parser_bind_orig)
  show "parser Property_parse" by (rule Property_parser)
qed (intro parser_laws, erule if_Err_cong)

definition external_ok :: "Bytes list \<Rightarrow> bool" where
  "external_ok ext \<longleftrightarrow> list_all (\<lambda>b. length (b_data b) < usize_limit) ext"

lemma resolve_Ok:
  assumes "FolderSource_resolve i loc ext = Ok (j, src)"
  shows "j = i \<and> (loc = Inline \<and> src = SrcInline i \<or> (\<exists>b. b \<in> set ext \<and> src = SrcExternal b))"
  using assms by (auto simp: FolderSource_resolve_def split: FolderLocation.splits)

lemma source_lies_in:
  assumes "FolderSource_resolve i loc ext = Ok (j, src)" and "in_buffer backing e i" and "external_ok ext"
  shows "lies_in (source_backing src backing) (source_ptr e src) (take n (source_bytes src))"
proof -
  from resolve_Ok [OF assms(1)] consider "src = SrcInline i" | b where "b \<in> set ext" "src = SrcExternal b"
    by blast
  then show ?thesis
  proof cases
    case 1
    then show ?thesis using in_buffer_lies_in [OF assms(2)] by simp
  next
    case (2 b)
    then have "length (b_data b) < usize_limit" using assms(3) by (simp add: external_ok_def list_all_iff)
    then show ?thesis using whole_lies_in [of b n] 2 by simp
  qed
qed


section \<open>What a parsed unpack info holds\<close>

lemma unpack_info_loop_digests:
  "unpack_info_loop N n t i sizes ds = Ok (r, sizes', ds') \<Longrightarrow> digests_for (unat n) ds \<Longrightarrow>
     digests_for (unat n) ds'"
proof (induction i arbitrary: sizes ds rule: measure_induct_rule [of length])
  case (less i)
  from less.prems show ?case
    by (subst (asm) unpack_info_loop.simps)
       (auto split: if_splits dest!: Property_progress skip_section_shrink parse_digests_facts
         varuint_repeat_shrink intro: less.IH [rotated])
qed

text \<open>
  The invariant: one offset per folder and a last one, digests for every folder, and between
  consecutive offsets a folder block that parses completely.
\<close>

definition UnpackInfo_wf :: "nom \<Rightarrow> UnpackInfo \<Rightarrow> Folder list \<Rightarrow> bool" where
  "UnpackInfo_wf N ui folders \<longleftrightarrow>
     length folders = unat (num_folders ui) \<and>
     folder_blocks N (b_data (folder_data ui)) (map unat (folder_offsets ui)) folders \<and>
     last (map unat (folder_offsets ui)) = length (b_data (folder_data ui)) \<and>
     length (ui_digests ui) = unat (num_folders ui)"

lemma block_take:
  assumes "folder_block N data a b f" and "b \<le> n"
  shows "folder_block N (take n data) a b f"
proof -
  have "take (b - a) (drop a (take n data)) = take (b - a) (drop a data)"
    using assms by (simp add: drop_take min_def)
  then show ?thesis using assms by (simp add: folder_block_def)
qed

lemma blocks_take:
  "folder_blocks N data ps fs \<Longrightarrow> last ps \<le> n \<Longrightarrow> folder_blocks N (take n data) ps fs"
proof (induction N data ps fs rule: folder_blocks.induct)
  case (2 N data a b ps f fs)
  have "b \<le> n" using blocks_last [of N data "b # ps" fs 0] 2 by auto
  then show ?case using 2 block_take by auto
qed auto

lemma UnpackInfo_parse_blocks:
  assumes run: "UnpackInfo_parse_with_external N e i backing ext = Ok (r, ui)"
    and buf: "in_buffer backing e i" and ext: "external_ok ext"
  shows "\<exists>j loc src folders. parse_folder_declaration N i = Ok (j, num_folders ui, loc) \<and>
    FolderSource_resolve j loc ext = Ok (j, src) \<and> prefix (b_data (folder_data ui)) (source_bytes src) \<and>
    UnpackInfo_wf N ui folders \<and> hd (map unat (folder_offsets ui)) = 0"
proof -
  obtain j nf loc src consumed t os' data k sizes ds where
    decl: "parse_folder_declaration N i = Ok (j, nf, loc)"
    and res: "FolderSource_resolve j loc ext = Ok (j, src)"
    and scan: "scan_folder_blocks N (source_bytes src) nf (Some []) = Ok (consumed, t, os')"
    and data: "bytes_subslice (source_backing src backing) (source_ptr e src)
         (take consumed (source_bytes src)) j = Ok data"
    and loop: "unpack_info_loop N nf t k [] [] = Ok (r, sizes, ds)"
    and ui: "ui = (let offsets = (case os' of Some os \<Rightarrow> os | None \<Rightarrow> []) in
       \<lparr>num_folders = nf, folder_data = data, folder_offsets = offsets, ui_unpack_sizes = sizes,
         ui_digests = (if ds = [] then replicate (length offsets - 1) None else ds)\<rparr>)"
    using run by (auto simp: UnpackInfo_parse_with_external_def Let_def) (metis resolve_Ok)
  from scan_folder_blocks_offsets [OF scan] obtain os folders where os: "os' = Some os"
    and len: "length folders = unat nf" and bl: "folder_blocks N (source_bytes src) (map unat os) folders"
    and last: "last (map unat os) = consumed" "consumed \<le> length (source_bytes src)" "hd (map unat os) = 0"
    by blast
  have "in_buffer backing e j"
    using parser_in_buffer [OF parse_folder_declaration_parser buf decl] .
  from bytes_subslice_lies_in [OF source_lies_in [OF res this ext, of consumed], of j] data
  have d: "b_data data = take consumed (source_bytes src)" by auto
  have "length os = Suc (unat nf)" using blocks_length [OF bl] len by simp
  moreover have "length ds = unat nf" if "ds \<noteq> []"
    using unpack_info_loop_digests [OF loop] that by (simp add: digests_for_def)
  ultimately have "UnpackInfo_wf N ui folders"
    using blocks_take [OF bl, of consumed] last(1,2) len d os by (auto simp: UnpackInfo_wf_def ui Let_def)
  then show ?thesis
    using decl res last(3) d os by (auto simp: ui Let_def take_is_prefix)
qed

lemma UnpackInfo_parse_wf:
  assumes "UnpackInfo_parse_with_external N e i backing ext = Ok (r, ui)"
    and "in_buffer backing e i" and "external_ok ext"
  shows "\<exists>folders. UnpackInfo_wf N ui folders"
  using UnpackInfo_parse_blocks [OF assms] by blast

text \<open>Consecutive blocks read one folder after the other, and their slices make up the data.\<close>

definition block_slice :: "bytes \<Rightarrow> nat list \<Rightarrow> nat \<Rightarrow> bytes" where
  "block_slice data ps k = take (ps ! Suc k - ps ! k) (drop (ps ! k) data)"

lemma block_slice_append: "folder_block N data a b f \<Longrightarrow> take (b - a) (drop a data) @ drop b data = drop a data"
  by (metis append_take_drop_id drop_drop folder_block_def le_add_diff_inverse2)

lemma blocks_repeat:
  "folder_blocks N data ps fs \<Longrightarrow> last ps = length data \<Longrightarrow>
   repeat_p (Folder_parse N) (length fs) (drop (hd ps) data) = Ok ([], fs)"
proof (induction N data ps fs rule: folder_blocks.induct)
  case (2 N data a b ps f fs)
  then have block: "folder_block N data a b f" by simp
  then have "Folder_parse N (take (b - a) (drop a data) @ drop b data) = Ok (drop b data, f)"
    using parser.extend [OF Folder_parser, of N "take (b - a) (drop a data)" "[]" f] by (simp add: folder_block_def)
  then show ?case using 2 by (simp add: block_slice_append [OF block])
qed auto

lemma blocks_concat:
  "folder_blocks N data ps fs \<Longrightarrow> last ps = length data \<Longrightarrow>
   concat (map (block_slice data ps) [0..<length fs]) = drop (hd ps) data"
proof (induction N data ps fs rule: folder_blocks.induct)
  case (2 N data a b ps f fs)
  have "map (block_slice data (a # b # ps)) [0..<length (f # fs)] =
      take (b - a) (drop a data) # map (block_slice data (b # ps)) [0..<length fs]"
    by (simp add: upt_conv_Cons block_slice_def map_Suc_upt [symmetric] del: upt_Suc)
  then show ?case using 2 block_slice_append [of N data a b f] by simp
qed auto

lemma folder_bytes_slice:
  assumes wf: "UnpackInfo_wf N ui folders" and k: "k < length folders"
  shows "folder_bytes ui k = Ok (block_slice (b_data (folder_data ui)) (map unat (folder_offsets ui)) k)"
    "Folder_parse N (block_slice (b_data (folder_data ui)) (map unat (folder_offsets ui)) k) = Ok ([], folders ! k)"
proof -
  have bl: "folder_blocks N (b_data (folder_data ui)) (map unat (folder_offsets ui)) folders"
    and lens: "length (folder_offsets ui) = Suc (length folders)"
    using wf blocks_length [of N _ "map unat (folder_offsets ui)" folders] by (auto simp: UnpackInfo_wf_def)
  have "folder_block N (b_data (folder_data ui)) (unat (folder_offsets ui ! k))
      (unat (folder_offsets ui ! Suc k)) (folders ! k)"
    using blocks_nth [OF bl k] k lens by simp
  then show "folder_bytes ui k = Ok (block_slice (b_data (folder_data ui)) (map unat (folder_offsets ui)) k)"
    "Folder_parse N (block_slice (b_data (folder_data ui)) (map unat (folder_offsets ui)) k) = Ok ([], folders ! k)"
    using k lens by (simp_all add: folder_bytes_def get_def folder_block_def block_slice_def Let_def)
qed


text \<open>Parsing a folder on demand: the only error left is an invalid coder graph.\<close>

lemma parse_folder_with_graph_wf:
  assumes "UnpackInfo_wf N ui folders" and "k < length folders"
  shows "parse_folder_with_graph N ui k =
    and_then (graph (folders ! k)) (\<lambda>g. Ok (folders ! k, g))"
  by (simp add: parse_folder_with_graph_def folder_bytes_slice [OF assms] all_consuming_def nom_finished_eq)

lemma parse_folder_out_of_range:
  assumes wf: "UnpackInfo_wf N ui folders" and k: "length folders \<le> k"
  shows "parse_folder_with_graph N ui k = Err Parse"
proof -
  have "length (folder_offsets ui) = Suc (length folders)"
    using wf blocks_length [of N _ "map unat (folder_offsets ui)" folders] by (auto simp: UnpackInfo_wf_def)
  then show ?thesis
    using k by (cases "k = length folders")
      (simp_all add: parse_folder_with_graph_def folder_bytes_def get_def)
qed


section \<open>Unpack info: scanner and parser\<close>

lemma unpack_info_loops_agree:
  assumes "length i < usize_limit"
  shows "same_rest (scan_unpack_info_loop N (unat nf) t i) (unpack_info_loop N nf t i sizes ds)"
  using assms
proof (induction i arbitrary: sizes ds rule: measure_induct_rule [of length])
  case (less i)
  show ?case
    unfolding scan_unpack_info_loop.simps [of N _ _ i] unpack_info_loop.simps [of N _ _ i]
    using less
    by (intro same_rest_bind_same)
       (auto intro!: same_rest_bind same_rest_skip_repeat scan_digests_same_rest dest!: section_shrinks)
qed

lemma unpack_info_loop_shrink:
  "unpack_info_loop N nf t i sizes ds = Ok (r, x) \<Longrightarrow> length r < length i"
proof (induction i arbitrary: sizes ds rule: measure_induct_rule [of length])
  case (less i)
  from less.prems show ?case
    by (subst (asm) unpack_info_loop.simps)
       (force split: if_splits dest!: section_shrinks dest: less.IH [rotated])
qed

lemma scan_unpack_info_loop_shrink:
  "scan_unpack_info_loop N nf t i = Ok (r, ()) \<Longrightarrow> length r < length i"
proof (induction i rule: measure_induct_rule [of length])
  case (less i)
  from less.prems show ?case
    by (subst (asm) scan_unpack_info_loop.simps)
       (auto split: if_splits dest!: section_shrinks, (fastforce dest: less.IH [rotated])+)
qed

lemma parse_folder_declaration_shrink:
  "parse_folder_declaration N i = Ok (j, x) \<Longrightarrow> length j < length i"
  by (auto simp: parse_folder_declaration_def Let_def simp del: nom_le_u8_eq split: if_splits
      dest!: Property_progress varuint_progress le_u8_shrink)

lemma remaining_header_shrink: "remaining_header src i n = Ok j \<Longrightarrow> length j \<le> length i"
  by (cases src) (auto simp: get_from_def split: if_splits)

lemma UnpackInfo_parse_shrink [shrinks]:
  assumes "UnpackInfo_parse_with_external N e i backing ext = Ok (r, ui)"
  shows "length r < length i"
  using assms unfolding UnpackInfo_parse_with_external_def Let_def
  by (auto dest!: parse_folder_declaration_shrink resolve_Ok remaining_header_shrink unpack_info_loop_shrink)

lemma scan_unpack_info_shrink [shrinks]:
  assumes "scan_unpack_info_with_external N i ext = Ok (r, n)"
  shows "length r < length i"
  using assms unfolding scan_unpack_info_with_external_def
  by (auto dest!: parse_folder_declaration_shrink resolve_Ok remaining_header_shrink
      scan_unpack_info_loop_shrink)

definition external_small :: "Bytes list \<Rightarrow> bool" where
  "external_small ext \<longleftrightarrow> list_all (\<lambda>b. length (b_data b) < 2 ^ 32) ext"

lemma external_small_ok: "external_small ext \<Longrightarrow> external_ok ext"
  by (auto simp: external_small_def external_ok_def list_all_iff)

text \<open>What the parser accepts the scanner accepts, with the same rest and the same count.\<close>

lemma unpack_info_parse_scans:
  assumes run: "UnpackInfo_parse_with_external N e i backing ext = Ok (r, ui)"
    and len: "length i < usize_limit"
  shows "scan_unpack_info_with_external N i ext = Ok (r, unat (num_folders ui))"
proof -
  obtain j nf loc src consumed t os' data k sizes ds where
    decl: "parse_folder_declaration N i = Ok (j, nf, loc)"
    and res: "FolderSource_resolve j loc ext = Ok (j, src)"
    and scan: "scan_folder_blocks N (source_bytes src) nf (Some []) = Ok (consumed, t, os')"
    and rem: "remaining_header src j consumed = Ok k"
    and loop: "unpack_info_loop N nf t k [] [] = Ok (r, sizes, ds)"
    and ui: "num_folders ui = nf"
    using run by (auto simp: UnpackInfo_parse_with_external_def Let_def) (metis resolve_Ok)
  have "length k < usize_limit"
    using len parse_folder_declaration_shrink [OF decl] remaining_header_shrink [OF rem] by simp
  then have "scan_unpack_info_loop N (unat nf) t k = Ok (r, ())"
    using unpack_info_loops_agree [of k N nf t "[]" "[]"] loop by (force simp: same_rest_def)
  then show ?thesis
    using decl res rem ui scan_folder_blocks_offsets [OF scan]
    by (auto simp: scan_unpack_info_with_external_def)
qed

text \<open>Conversely, below four gigabytes and for input that lies in the buffer.\<close>

lemma unpack_info_scan_parses:
  assumes run: "scan_unpack_info_with_external N i ext = Ok (r, n)"
    and buf: "in_buffer backing e i" and small: "length i < 2 ^ 32" "external_small ext"
  shows "\<exists>ui. UnpackInfo_parse_with_external N e i backing ext = Ok (r, ui) \<and> n = unat (num_folders ui)"
proof -
  obtain j nf loc src consumed t x k where
    decl: "parse_folder_declaration N i = Ok (j, nf, loc)"
    and res: "FolderSource_resolve j loc ext = Ok (j, src)"
    and scan: "scan_folder_blocks N (source_bytes src) nf None = Ok (consumed, t, x)"
    and rem: "remaining_header src j consumed = Ok k"
    and loop: "scan_unpack_info_loop N (unat nf) t k = Ok (r, ())" and n: "n = unat nf"
    using run by (auto simp: scan_unpack_info_with_external_def) (metis resolve_Ok)
  note decl_len = parse_folder_declaration_shrink [OF decl]
  have "length (source_bytes src) < 2 ^ 32"
    using resolve_Ok [OF res] small decl_len by (auto simp: external_small_def list_all_iff)
  from scan_folder_blocks_None [OF scan this] obtain os where
    os: "scan_folder_blocks N (source_bytes src) nf (Some []) = Ok (consumed, t, Some os)" by blast
  have "in_buffer backing e j"
    using parser_in_buffer [OF parse_folder_declaration_parser buf decl] .
  from bytes_subslice_lies_in [OF source_lies_in [OF res this external_small_ok [OF small(2)], of consumed], of j]
  obtain data where data: "bytes_subslice (source_backing src backing) (source_ptr e src)
      (take consumed (source_bytes src)) j = Ok data" by blast
  have "length k < usize_limit"
    using in_buffer_length [OF buf] decl_len remaining_header_shrink [OF rem] by simp
  then obtain sizes ds where "unpack_info_loop N nf t k [] [] = Ok (r, sizes, ds)"
    using unpack_info_loops_agree [of k N nf t "[]" "[]"] loop by (force simp: same_rest_def)
  then show ?thesis
    using decl res os data rem n by (simp add: UnpackInfo_parse_with_external_def Let_def)
qed

section \<open>Properties\<close>

text \<open>
  C26. An unpack info keeps raw folder bytes and parses a folder when it is asked for. The kept
  bytes are the start of the source that the block declares, and reading as many folders as
  declared, one after the other, uses them up and gives a list of folders. The slices served for the
  indices follow each other and make up the kept bytes, and the \<open>k\<close>-th is the encoding of
  the \<open>k\<close>-th of these folders. So asking for folder \<open>k\<close> gives that folder with its coder graph, or the
  error of that graph, and an index out of range is a parse error. There is a
  digest entry for every folder.
\<close>

theorem folders_on_demand:
  assumes "UnpackInfo_parse_with_external N e i backing ext = Ok (r, ui)"
    and "in_buffer backing e i" and "external_ok ext"
  shows "\<exists>j loc src folders slices.
    parse_folder_declaration N i = Ok (j, num_folders ui, loc) \<and> FolderSource_resolve j loc ext = Ok (j, src) \<and>
    prefix (b_data (folder_data ui)) (source_bytes src) \<and>
    repeat_p (Folder_parse N) (unat (num_folders ui)) (b_data (folder_data ui)) = Ok ([], folders) \<and>
    map (folder_bytes ui) [0..<unat (num_folders ui)] = map Ok slices \<and>
    concat slices = b_data (folder_data ui) \<and>
    list_all2 (\<lambda>slice folder. Folder_parse N slice = Ok ([], folder)) slices folders \<and>
    length folders = unat (num_folders ui) \<and>
    length (ui_digests ui) = unat (num_folders ui) \<and> num_folders_usize ui = unat (num_folders ui) \<and>
    (\<forall>k. parse_folder_with_graph N ui k =
      (if k < length folders then and_then (graph (folders ! k)) (\<lambda>g. Ok (folders ! k, g)) else Err Parse))"
proof -
  obtain j loc src folders where source: "parse_folder_declaration N i = Ok (j, num_folders ui, loc)"
      "FolderSource_resolve j loc ext = Ok (j, src)" "prefix (b_data (folder_data ui)) (source_bytes src)"
    and wf: "UnpackInfo_wf N ui folders" and first: "hd (map unat (folder_offsets ui)) = 0"
    using UnpackInfo_parse_blocks [OF assms] by blast
  let ?data = "b_data (folder_data ui)" and ?ps = "map unat (folder_offsets ui)"
  let ?slices = "map (block_slice ?data ?ps) [0..<length folders]"
  have bl: "folder_blocks N ?data ?ps folders" "last ?ps = length ?data"
    and n: "length folders = unat (num_folders ui)" "length (ui_digests ui) = unat (num_folders ui)"
    using wf by (simp_all add: UnpackInfo_wf_def)
  have "num_folders_usize ui = length folders"
    using blocks_length [OF bl(1)] by (simp add: num_folders_usize_def)
  moreover have "repeat_p (Folder_parse N) (length folders) ?data = Ok ([], folders)" "concat ?slices = ?data"
    using blocks_repeat [OF bl] blocks_concat [OF bl] by (simp_all only: first drop_0)
  moreover have "map (folder_bytes ui) [0..<length folders] = map Ok ?slices"
    using folder_bytes_slice(1) [OF wf] by simp
  moreover have "list_all2 (\<lambda>slice folder. Folder_parse N slice = Ok ([], folder)) ?slices folders"
    using folder_bytes_slice(2) [OF wf] by (simp add: list_all2_conv_all_nth)
  moreover have "parse_folder_with_graph N ui k =
      (if k < length folders then and_then (graph (folders ! k)) (\<lambda>g. Ok (folders ! k, g)) else Err Parse)" for k
    using parse_folder_with_graph_wf [OF wf] parse_folder_out_of_range [OF wf] by simp
  ultimately show ?thesis using source n(2) unfolding n(1) [symmetric] by blast
qed

text \<open>One folder with the copy method, whose one output has five bytes.\<close>

definition example_unpack :: bytes where
  "example_unpack = [7, 0x0B, 1, 0, 1, 1, 0, 0x0C, 5, 0]"

definition example_buffer :: Bytes where
  "example_buffer = \<lparr>b_ptr = 100, b_data = example_unpack\<rparr>"

definition example_unpack_info :: UnpackInfo where
  "example_unpack_info = \<lparr>num_folders = 1, folder_data = \<lparr>b_ptr = 104, b_data = [1, 1, 0]\<rparr>,
     folder_offsets = [0, 3], ui_unpack_sizes = [5], ui_digests = [None]\<rparr>"

lemmas folder_evals = Folder_parse_def checked_coder_count_def CoderInfo_parse_def CoderInfoRef_parse_def
  array_vec_15_def add_coder_def FolderStreamCounts_default_def u64_checked_add_def counts_layout_def
  u64_checked_sub_def total_out_streams_def
lemmas unpack_info_evals = UnpackInfo_parse_with_external_def parse_folder_declaration_def
  FolderSource_resolve_def scan_folder_blocks_def push_offset_def u32_try_from_usize_def scan_folder_eq
  usize_checked_add_def bytes_subslice_def checked_sub_def Bytes_slice_def get_from_def
  unpack_info_loop.simps [of _ _ _ "_ # _"]

lemma example_unpack_parses:
  "UnpackInfo_parse_with_external nom_reference 110 example_unpack example_buffer [] = Ok ([], example_unpack_info)"
  by (simp add: example_unpack_def example_buffer_def example_unpack_info_def unpack_info_evals
      folder_evals tag_evals varuint_evals Let_def)

lemma example_in_buffer: "in_buffer example_buffer 110 example_unpack"
  by (simp add: in_buffer_def example_buffer_def example_unpack_def)

theorem folders_on_demand_witness:
  "UnpackInfo_parse_with_external nom_reference 110 example_unpack example_buffer [] = Ok ([], example_unpack_info) \<and>
   (\<exists>folders. length folders = 1 \<and>
      parse_folder_with_graph nom_reference example_unpack_info 0 =
        and_then (graph (folders ! 0)) (\<lambda>g. Ok (folders ! 0, g)) \<and>
      parse_folder_with_graph nom_reference example_unpack_info 1 = Err Parse)"
proof -
  have "num_folders example_unpack_info = 1" by (simp add: example_unpack_info_def)
  then show ?thesis
    using folders_on_demand [OF example_unpack_parses example_in_buffer] example_unpack_parses
    by (auto simp: external_ok_def)
qed

end
