(* ===== verification/Stream_Info.thy ===== *)
theory Stream_Info
  imports Unpack_Blocks
begin

text \<open>
  \<^verbatim>\<open>src/src/stream_info.rs\<close>: how the folders' output divides into files, and the
  descriptor that ties packed streams, folders and substreams together.
\<close>

abbreviation MAX_SUBSTREAM_DIGESTS :: nat where
  "MAX_SUBSTREAM_DIGESTS \<equiv> 8388608"

record SubstreamInfo =
  num_unpack_streams_per_folder :: "u64 list"
  si_unpack_sizes :: "u64 list"
  si_digests :: "u32 option list"

definition checked_substream_total :: "bytes \<Rightarrow> u64 list \<Rightarrow> nat nom_result" where
  "checked_substream_total input counts =
     try_fold (\<lambda>sum count.
       and_then (ok_or (Error input TooLarge) (usize_try_from count)) (\<lambda>count.
         ok_or (Error input TooLarge) (usize_checked_add sum count))) 0 counts"

definition check_substream_digest_limit :: "bytes \<Rightarrow> nat \<Rightarrow> unit nom_result" where
  "check_substream_digest_limit input num =
     (if num > MAX_SUBSTREAM_DIGESTS then Err (Error input TooLarge) else Ok ())"

definition checked_substream_size_count :: "bytes \<Rightarrow> u64 list \<Rightarrow> nat nom_result" where
  "checked_substream_size_count input counts =
     try_fold (\<lambda>sum count.
       and_then (ok_or (Error input TooLarge) (usize_try_from count)) (\<lambda>count.
         ok_or (Error input TooLarge) (usize_checked_add sum (count - 1)))) 0 counts"

text \<open>The allocation of the digest table is taken to succeed.\<close>

definition parse_stream_digests :: "nom \<Rightarrow> bytes \<Rightarrow> nat \<Rightarrow> u32 option list iresult" where
  "parse_stream_digests N input num =
     and_then (nom_le_u8 N input) (\<lambda>(input, all_defined).
     and_then (read_bitmap N all_defined num input) (\<lambda>(input, bitmap).
       let num_defined = (if all_defined \<noteq> 0 then num
             else length (filter (bitmap_is_set bitmap) [0..<num])) in
       and_then (ok_or (Error input TooLarge) (usize_checked_mul num_defined 4)) (\<lambda>crc_bytes.
         if crc_bytes > length input then Err (Error input Eof)
         else read_digests N (\<lambda>i. all_defined \<noteq> 0 \<or> bitmap_is_set bitmap i) 0 num input)))"

lemma parse_stream_digests_shrink: "parse_stream_digests N i n = Ok (r, cs) \<Longrightarrow> length r < length i"
  by (auto simp: parse_stream_digests_def read_bitmap_def Let_def split: if_splits list.splits
      dest!: read_digests_shrink)

function substream_info_loop :: "nom \<Rightarrow> nat \<Rightarrow> bytes \<Rightarrow> u64 list \<Rightarrow> u64 list \<Rightarrow> u32 option list \<Rightarrow>
    (u64 list \<times> u64 list \<times> u32 option list) iresult" where
  "substream_info_loop N nf input counts sizes digests =
     and_then (Property_parse input) (\<lambda>(input, tag).
       if tag = P_END then Ok (input, counts, sizes, digests)
       else if tag = P_NumUnPackStream then
         and_then (repeat_p sevenzip_varuint64_decode nf input) (\<lambda>(i, counts).
         and_then (checked_substream_total i counts) (\<lambda>_.
           substream_info_loop N nf i counts sizes digests))
       else if tag = P_Size then
         and_then (checked_substream_size_count input counts) (\<lambda>sizes_to_read.
           if sizes_to_read > length input then Err (Error input Eof)
           else
             and_then (repeat_p sevenzip_varuint64_decode sizes_to_read input) (\<lambda>(i, new_sizes).
               substream_info_loop N nf i counts (sizes @ new_sizes) digests))
       else if tag = P_CRC then
         and_then (checked_substream_total input counts) (\<lambda>num.
         and_then (check_substream_digest_limit input num) (\<lambda>_.
         and_then (parse_stream_digests N input num) (\<lambda>(i, crcs).
           substream_info_loop N nf i counts sizes crcs)))
       else
         and_then (skip_section N input) (\<lambda>(i, _).
           substream_info_loop N nf i counts sizes digests))"
  by pat_completeness auto
termination
  by (relation "measure (\<lambda>(N, nf, input, counts, sizes, digests). length input)")
     (auto dest!: section_shrinks parse_stream_digests_shrink)

definition SubstreamInfo_parse :: "nom \<Rightarrow> bytes \<Rightarrow> nat \<Rightarrow> SubstreamInfo iresult" where
  "SubstreamInfo_parse N input nf =
     (let orig_input = input in
      and_then (Property_parse input) (\<lambda>(input, tag).
        if tag \<noteq> P_SubStreamsInfo then Err (Failure orig_input Satisfy)
        else
          and_then (substream_info_loop N nf input (replicate nf 1) [] []) (\<lambda>(input, counts, sizes, digests).
            Ok (input, \<lparr>num_unpack_streams_per_folder = counts, si_unpack_sizes = sizes,
              si_digests = digests\<rparr>))))"

fun scan_num_unpack_streams :: "nat \<Rightarrow> bytes \<Rightarrow> nat \<Rightarrow> nat \<Rightarrow> (nat \<times> nat) iresult" where
  "scan_num_unpack_streams 0 input sizes_to_read total_streams = Ok (input, sizes_to_read, total_streams)"
| "scan_num_unpack_streams (Suc n) input sizes_to_read total_streams =
     and_then (sevenzip_varuint64_decode input) (\<lambda>(i, c).
     and_then (ok_or (Error input TooLarge) (usize_try_from c)) (\<lambda>nu.
     and_then (ok_or (Error input TooLarge) (usize_checked_add sizes_to_read (nu - 1))) (\<lambda>sizes_to_read.
     and_then (ok_or (Error input TooLarge) (usize_checked_add total_streams nu)) (\<lambda>total_streams.
       scan_num_unpack_streams n i sizes_to_read total_streams))))"

lemma scan_num_shrink: "scan_num_unpack_streams n i s t = Ok (r, x) \<Longrightarrow> length r \<le> length i"
  by (induction n arbitrary: i s t) (fastforce dest: varuint_progress)+

function scan_substream_info_loop :: "nom \<Rightarrow> nat \<Rightarrow> bytes \<Rightarrow> nat \<Rightarrow> nat \<Rightarrow> unit iresult" where
  "scan_substream_info_loop N nf input sizes_to_read total_streams =
     and_then (Property_parse input) (\<lambda>(input, tag).
       if tag = P_END then Ok (input, ())
       else if tag = P_NumUnPackStream then
         and_then (scan_num_unpack_streams nf input 0 0) (\<lambda>(i, sizes_to_read, total_streams).
           scan_substream_info_loop N nf i sizes_to_read total_streams)
       else if tag = P_Size then
         (if sizes_to_read > length input then Err (Error input Eof)
          else
            and_then (skip_p sevenzip_varuint64_decode sizes_to_read input) (\<lambda>(i, _).
              scan_substream_info_loop N nf i sizes_to_read total_streams))
       else if tag = P_CRC then
         and_then (check_substream_digest_limit input total_streams) (\<lambda>_.
         and_then (scan_digests N input total_streams) (\<lambda>(i, _).
           scan_substream_info_loop N nf i sizes_to_read total_streams))
       else
         and_then (skip_section N input) (\<lambda>(i, _).
           scan_substream_info_loop N nf i sizes_to_read total_streams))"
  by pat_completeness auto
termination
  by (relation "measure (\<lambda>(N, nf, input, sizes_to_read, total_streams). length input)")
     (auto dest!: section_shrinks scan_num_shrink)

definition scan_substream_info :: "nom \<Rightarrow> bytes \<Rightarrow> nat \<Rightarrow> unit iresult" where
  "scan_substream_info N input nf =
     (let orig = input in
      and_then (Property_parse input) (\<lambda>(input, tag).
        if tag \<noteq> P_SubStreamsInfo then Err (Failure orig Satisfy)
        else scan_substream_info_loop N nf input 0 nf))"

declare substream_info_loop.simps [simp del] scan_substream_info_loop.simps [simp del]


section \<open>Every block shrinks the input\<close>

lemma pack_info_loop_shrink: "pack_info_loop N n i ds = Ok (r, x) \<Longrightarrow> length r < length i"
proof (induction i arbitrary: ds rule: measure_induct_rule [of length])
  case (less i)
  from less.prems show ?case
    by (subst (asm) pack_info_loop.simps)
       (auto split: if_splits dest!: section_shrinks, (fastforce dest: less.IH [rotated])+)
qed

lemma scan_pack_info_loop_shrink: "scan_pack_info_loop N n i = Ok (r, ()) \<Longrightarrow> length r < length i"
proof (induction i rule: measure_induct_rule [of length])
  case (less i)
  from less.prems show ?case
    by (subst (asm) scan_pack_info_loop.simps)
       (auto split: if_splits dest!: section_shrinks, (fastforce dest: less.IH [rotated])+)
qed

lemma pack_info_prefix_shrink: "pack_info_prefix i = Ok (r, x) \<Longrightarrow> length r < length i"
  by (auto simp: pack_info_prefix_def Let_def split: if_splits dest!: Property_progress varuint_progress)

lemma PackInfo_parse_shrink: "PackInfo_parse N i = Ok (r, x) \<Longrightarrow> length r < length i"
  by (auto simp: PackInfo_parse_def dest!: pack_info_prefix_shrink varuint_repeat_shrink pack_info_loop_shrink)

lemma scan_pack_info_shrink: "scan_pack_info N i = Ok (r, ()) \<Longrightarrow> length r < length i"
  by (auto simp: scan_pack_info_def dest!: pack_info_prefix_shrink varuint_skip_shrink scan_pack_info_loop_shrink)

lemma substream_info_loop_shrink:
  "substream_info_loop N nf i c s d = Ok (r, x) \<Longrightarrow> length r < length i"
proof (induction i arbitrary: c s d rule: measure_induct_rule [of length])
  case (less i)
  from less.prems show ?case
    by (subst (asm) substream_info_loop.simps)
       (auto split: if_splits dest!: section_shrinks parse_stream_digests_shrink,
        (fastforce dest: less.IH [rotated])+)
qed

lemma scan_substream_info_loop_shrink:
  "scan_substream_info_loop N nf i s t = Ok (r, ()) \<Longrightarrow> length r < length i"
proof (induction i arbitrary: s t rule: measure_induct_rule [of length])
  case (less i)
  from less.prems show ?case
    by (subst (asm) scan_substream_info_loop.simps)
       (auto split: if_splits dest!: section_shrinks scan_num_shrink,
        (fastforce dest: less.IH [rotated])+)
qed

lemma SubstreamInfo_parse_shrink: "SubstreamInfo_parse N i nf = Ok (r, x) \<Longrightarrow> length r < length i"
  by (auto simp: SubstreamInfo_parse_def Let_def split: if_splits
      dest!: Property_progress substream_info_loop_shrink)

lemma scan_substream_info_shrink: "scan_substream_info N i nf = Ok (r, ()) \<Longrightarrow> length r < length i"
  by (auto simp: scan_substream_info_def Let_def split: if_splits
      dest!: Property_progress scan_substream_info_loop_shrink)

lemmas block_shrinks = Property_progress skip_section_shrink PackInfo_parse_shrink scan_pack_info_shrink
  UnpackInfo_parse_shrink scan_unpack_info_shrink SubstreamInfo_parse_shrink scan_substream_info_shrink


section \<open>The stream descriptor\<close>

record StreamInfo =
  pack_info :: "PackInfo option"
  unpack_info :: "UnpackInfo option"
  substream_info :: "SubstreamInfo option"

function stream_info_loop :: "nom \<Rightarrow> nat \<Rightarrow> Bytes \<Rightarrow> Bytes list \<Rightarrow> bytes \<Rightarrow> StreamInfo \<Rightarrow> StreamInfo iresult" where
  "stream_info_loop N end_addr backing external_data input self =
     and_then (Property_parse input) (\<lambda>(i, tag).
       if tag = P_END then Ok (i, self)
       else if tag = P_PackInfo then
         and_then (PackInfo_parse N input) (\<lambda>(i, v).
           stream_info_loop N end_addr backing external_data i (self\<lparr>pack_info := Some v\<rparr>))
       else if tag = P_UnPackInfo then
         and_then (UnpackInfo_parse_with_external N end_addr input backing external_data) (\<lambda>(i, v).
           stream_info_loop N end_addr backing external_data i (self\<lparr>unpack_info := Some v\<rparr>))
       else if tag = P_SubStreamsInfo then
         let nf = (case unpack_info self of None \<Rightarrow> 0 | Some v \<Rightarrow> num_folders_usize v) in
         and_then (SubstreamInfo_parse N input nf) (\<lambda>(i, v).
           stream_info_loop N end_addr backing external_data i (self\<lparr>substream_info := Some v\<rparr>))
       else
         and_then (skip_section N i) (\<lambda>(i, _).
           stream_info_loop N end_addr backing external_data i self))"
  by pat_completeness auto
termination
  by (relation "measure (\<lambda>(N, end_addr, backing, external_data, input, self). length input)")
     (auto dest!: block_shrinks)

definition StreamInfo_parse_with_external ::
  "nom \<Rightarrow> nat \<Rightarrow> bytes \<Rightarrow> Bytes \<Rightarrow> Bytes list \<Rightarrow> StreamInfo iresult" where
  "StreamInfo_parse_with_external N end_addr input backing external_data =
     stream_info_loop N end_addr backing external_data input
       \<lparr>pack_info = None, unpack_info = None, substream_info = None\<rparr>"

definition StreamInfo_parse :: "nom \<Rightarrow> nat \<Rightarrow> bytes \<Rightarrow> Bytes \<Rightarrow> StreamInfo iresult" where
  "StreamInfo_parse N end_addr input backing = StreamInfo_parse_with_external N end_addr input backing []"

definition packed_folders :: "StreamInfo \<Rightarrow> (PackInfo \<times> UnpackInfo) r7z_result" where
  "packed_folders self =
     (case (pack_info self, unpack_info self) of
        (Some pack, Some unpack) \<Rightarrow> Ok (pack, unpack)
      | _ \<Rightarrow> Err Parse)"

function uses_external_folder_data :: "nom \<Rightarrow> bytes \<Rightarrow> bool iresult" where
  "uses_external_folder_data N input =
     and_then (Property_parse input) (\<lambda>(after_tag, tag).
       if tag = P_END then Ok (after_tag, False)
       else if tag = P_UnPackInfo then
         and_then (parse_folder_declaration N input) (\<lambda>(remaining, _, location).
           Ok (remaining, case location of External _ \<Rightarrow> True | Inline \<Rightarrow> False))
       else if tag = P_PackInfo then
         and_then (scan_pack_info N input) (\<lambda>(i, _). uses_external_folder_data N i)
       else if tag = P_SubStreamsInfo then
         and_then (scan_substream_info N input 0) (\<lambda>(i, _). uses_external_folder_data N i)
       else
         and_then (sevenzip_varuint64_decode after_tag) (\<lambda>(remaining, size).
         and_then (ok_or (Failure remaining TooLarge) (usize_try_from size)) (\<lambda>size.
         and_then (nom_take N size remaining) (\<lambda>(i, _).
           uses_external_folder_data N i))))"
  by pat_completeness auto
termination
  by (relation "measure (\<lambda>(N, input). length input)")
     (auto split: if_splits dest!: block_shrinks varuint_progress)

function scan_stream_info_loop :: "nom \<Rightarrow> Bytes list \<Rightarrow> bytes \<Rightarrow> nat \<Rightarrow> unit iresult" where
  "scan_stream_info_loop N external_data input nf =
     and_then (Property_parse input) (\<lambda>(i, tag).
       if tag = P_END then Ok (i, ())
       else if tag = P_PackInfo then
         and_then (scan_pack_info N input) (\<lambda>(i, _). scan_stream_info_loop N external_data i nf)
       else if tag = P_UnPackInfo then
         and_then (scan_unpack_info_with_external N input external_data) (\<lambda>(i, nf).
           scan_stream_info_loop N external_data i nf)
       else if tag = P_SubStreamsInfo then
         and_then (scan_substream_info N input nf) (\<lambda>(i, _). scan_stream_info_loop N external_data i nf)
       else
         and_then (skip_section N i) (\<lambda>(i, _). scan_stream_info_loop N external_data i nf))"
  by pat_completeness auto
termination
  by (relation "measure (\<lambda>(N, external_data, input, nf). length input)")
     (auto dest!: block_shrinks)

definition scan_stream_info_with_external :: "nom \<Rightarrow> bytes \<Rightarrow> Bytes list \<Rightarrow> unit iresult" where
  "scan_stream_info_with_external N input external_data = scan_stream_info_loop N external_data input 0"

declare stream_info_loop.simps [simp del] uses_external_folder_data.simps [simp del]
  scan_stream_info_loop.simps [simp del]

end
