(* ===== verification/Stream_Scan.thy ===== *)
theory Stream_Scan
  imports Stream_Info "HOL-Library.Sublist"
begin

text \<open>
  The stream descriptor: scanner and parser. A header is accepted on the word of the
  scanner and its streams are parsed later; here is why that parse succeeds.
\<close>

section \<open>Substreams\<close>

definition stream_sum :: "u64 list \<Rightarrow> nat" where
  "stream_sum counts = sum_list (map unat counts)"

definition sizes_sum :: "u64 list \<Rightarrow> nat" where
  "sizes_sum counts = sum_list (map (\<lambda>c. unat c - 1) counts)"

lemma stream_sum_simps [simp]:
  "stream_sum [] = 0" "stream_sum (c # cs) = unat c + stream_sum cs"
  "sizes_sum [] = 0" "sizes_sum (c # cs) = (unat c - 1) + sizes_sum cs"
  by (simp_all add: stream_sum_def sizes_sum_def)

lemma sizes_sum_le: "sizes_sum cs \<le> stream_sum cs"
  by (induction cs) auto

lemma checked_sum_eq_Ok:
  "try_fold (\<lambda>sum count. ok_or e (usize_checked_add sum (f (unat count)))) acc cs = Ok t \<longleftrightarrow>
     t = acc + sum_list (map (\<lambda>c. f (unat c)) cs) \<and> (cs = [] \<or> t < usize_limit)"
proof (induction cs arbitrary: acc)
  case (Cons c cs)
  show ?case by (cases "cs = []") (auto simp: Cons.IH)
qed auto

lemma checked_substream_total_eq_Ok:
  "checked_substream_total i cs = Ok t \<longleftrightarrow> t = stream_sum cs \<and> (cs = [] \<or> t < usize_limit)"
  using checked_sum_eq_Ok [of "Error i TooLarge" "\<lambda>x. x" 0 cs t]
  by (simp add: checked_substream_total_def stream_sum_def)

lemma checked_substream_size_count_eq_Ok:
  "checked_substream_size_count i cs = Ok t \<longleftrightarrow> t = sizes_sum cs \<and> (cs = [] \<or> t < usize_limit)"
  using checked_sum_eq_Ok [of "Error i TooLarge" "\<lambda>x. x - 1" 0 cs t]
  by (simp add: checked_substream_size_count_def sizes_sum_def)

text \<open>The counts a parser holds and the two numbers a scanner keeps instead.\<close>

definition counts_rel :: "u64 list \<Rightarrow> nat \<Rightarrow> nat \<Rightarrow> bool" where
  "counts_rel counts s t \<longleftrightarrow> s = sizes_sum counts \<and> t = stream_sum counts \<and> t < usize_limit"

lemma counts_rel_Ok:
  assumes "counts_rel counts s t"
  shows "checked_substream_total i counts = Ok t" "checked_substream_size_count i counts = Ok s"
  using assms sizes_sum_le [of counts]
  by (auto simp: counts_rel_def checked_substream_total_eq_Ok checked_substream_size_count_eq_Ok)

lemma counts_rel_default: "nf < usize_limit \<Longrightarrow> counts_rel (replicate nf 1) 0 nf"
  by (simp add: counts_rel_def stream_sum_def sizes_sum_def sum_list_replicate)

lemma scan_num_eq_Ok:
  "s \<le> t \<Longrightarrow> scan_num_unpack_streams n i s t = Ok (r, s', t') \<longleftrightarrow>
     (\<exists>cs. repeat_p sevenzip_varuint64_decode n i = Ok (r, cs) \<and> s' = s + sizes_sum cs \<and>
        t' = t + stream_sum cs \<and> (n = 0 \<or> t' < usize_limit))"
proof (induction n arbitrary: i s t)
  case (Suc n)
  show ?case
  proof (cases "sevenzip_varuint64_decode i")
    case (Ok y)
    then obtain j c where y: "sevenzip_varuint64_decode i = Ok (j, c)" by (cases y) auto
    have IH: "scan_num_unpack_streams n j (s + (unat c - 1)) (t + unat c) = Ok (r, s', t') \<longleftrightarrow>
        (\<exists>cs. repeat_p sevenzip_varuint64_decode n j = Ok (r, cs) \<and> s' = s + (unat c - 1) + sizes_sum cs \<and>
          t' = t + unat c + stream_sum cs \<and> (n = 0 \<or> t' < usize_limit))"
      using Suc.prems by (intro Suc.IH) simp
    show ?thesis
    proof (cases "s + (unat c - 1) < usize_limit \<and> t + unat c < usize_limit")
      case True
      then have run: "scan_num_unpack_streams (Suc n) i s t =
          scan_num_unpack_streams n j (s + (unat c - 1)) (t + unat c)"
        by (simp add: y usize_checked_add_def)
      show ?thesis
        unfolding run IH using True by (cases "n = 0") (auto simp: y)
    next
      case False
      then have "\<not> t + unat c < usize_limit" using Suc.prems by linarith
      then show ?thesis using False by (auto simp: y usize_checked_add_def)
    qed
  qed simp
qed auto

lemma parse_stream_digests_same_rest:
  assumes "length i < usize_limit"
  shows "same_rest (scan_digests N i n) (parse_stream_digests N i n)"
proof -
  have "same_rest (parse_digests N i n) (parse_stream_digests N i n)"
  proof (cases i)
    case (Cons b j)
    let ?bm = "take (div_ceil n 8) j" and ?j = "drop (div_ceil n 8) j"
    have big: "c * 4 < usize_limit" if "4 * c \<le> length k" "length k \<le> length j" for c and k :: bytes
      using that assms Cons by simp
    show ?thesis
    proof (cases "b = 0")
      case True
      then show ?thesis
        using Cons read_digests_Ok [of N "bitmap_is_set ?bm" 0 n ?j]
          big [of "defined_count (bitmap_is_set ?bm) 0 n" ?j]
        by (auto simp: parse_digests_def parse_stream_digests_def read_bitmap_def Let_def same_rest_def
            mult.commute)
    next
      case False
      then show ?thesis
        using Cons read_digests_Ok [of N "\<lambda>i. True" 0 n j] big [of n j]
        by (auto simp: parse_digests_def parse_stream_digests_def read_bitmap_def Let_def same_rest_def
            mult.commute)
    qed
  qed (simp add: parse_digests_def parse_stream_digests_def same_rest_def)
  then show ?thesis using scan_digests_same_rest [OF assms] by (simp add: same_rest_def)
qed

lemma num_unpack_streams_agree:
  assumes "\<And>r cs s t. counts_rel cs s t \<Longrightarrow> length r \<le> length j \<Longrightarrow> same_rest (f r s t) (g r cs)"
    and "nf < usize_limit"
  shows "same_rest (and_then (scan_num_unpack_streams nf j 0 0) (\<lambda>(i, s, t). f i s t))
    (and_then (repeat_p sevenzip_varuint64_decode nf j) (\<lambda>(i, cs).
       and_then (checked_substream_total i cs) (\<lambda>_. g i cs)))"
proof (cases "repeat_p sevenzip_varuint64_decode nf j")
  case (Err e)
  then have "scan_num_unpack_streams nf j 0 0 \<noteq> Ok x" for x
    by (cases x) (simp add: scan_num_eq_Ok)
  then show ?thesis using Err by (cases "scan_num_unpack_streams nf j 0 0") (auto simp: same_rest_def)
next
  case (Ok y)
  then obtain i cs where rep: "repeat_p sevenzip_varuint64_decode nf j = Ok (i, cs)" by (cases y) auto
  then have len: "length cs = nf" "length i \<le> length j"
    using repeat_p_length varuint_repeat_shrink by blast+
  show ?thesis
  proof (cases "stream_sum cs < usize_limit")
    case True
    then have "counts_rel cs (sizes_sum cs) (stream_sum cs)" by (simp add: counts_rel_def)
    moreover have "scan_num_unpack_streams nf j 0 0 = Ok (i, sizes_sum cs, stream_sum cs)"
      using True rep by (simp add: scan_num_eq_Ok)
    ultimately show ?thesis
      using assms(1) rep len(2) counts_rel_Ok(1) by simp
  next
    case False
    then have "cs \<noteq> []" by auto
    then have "scan_num_unpack_streams nf j 0 0 \<noteq> Ok x" for x
      using False rep len by (cases x) (auto simp: scan_num_eq_Ok)
    moreover have "checked_substream_total i cs \<noteq> Ok x" for x
      using False \<open>cs \<noteq> []\<close> by (simp add: checked_substream_total_eq_Ok)
    ultimately show ?thesis
      using rep by (cases "scan_num_unpack_streams nf j 0 0"; cases "checked_substream_total i cs")
        (auto simp: same_rest_def)
  qed
qed

lemma substream_loops_agree:
  assumes "length i < usize_limit" and "nf < usize_limit" and "counts_rel counts s t"
  shows "same_rest (scan_substream_info_loop N nf i s t) (substream_info_loop N nf i counts sizes ds)"
  using assms(1,3)
proof (induction i arbitrary: counts s t sizes ds rule: measure_induct_rule [of length])
  case (less i)
  show ?case
    unfolding scan_substream_info_loop.simps [of N _ i] substream_info_loop.simps [of N _ i]
      counts_rel_Ok [OF less.prems(2)]
  proof (rule same_rest_bind_same, goal_cases)
    case (1 j tag)
    note tag = 1
    have j: "length j < length i" "length j < usize_limit"
      using Property_progress [OF tag] less.prems(1) by simp_all
    show ?case
    proof (cases "tag = P_NumUnPackStream")
      case True
      then show ?thesis
        using j less.IH assms(2) less.prems by (simp, intro num_unpack_streams_agree) simp_all
    next
      case False
      then show ?thesis
        using j less assms(2)
        by (auto intro!: same_rest_bind same_rest_skip_repeat parse_stream_digests_same_rest
            simp: check_substream_digest_limit_def dest!: section_shrinks parse_stream_digests_shrink)
    qed
  qed
qed

lemma scan_substream_info_same_rest:
  assumes "length i < usize_limit" and "nf < usize_limit"
  shows "same_rest (scan_substream_info N i nf) (SubstreamInfo_parse N i nf)"
  unfolding scan_substream_info_def SubstreamInfo_parse_def Let_def
proof (rule same_rest_bind_same, goal_cases)
  case (1 j tag)
  have "same_rest (scan_substream_info_loop N nf j 0 nf) (substream_info_loop N nf j (replicate nf 1) [] [])"
    using Property_progress [OF 1] assms by (intro substream_loops_agree counts_rel_default) simp_all
  then show ?case
    by (auto simp: same_rest_def)
qed


section \<open>What is left is the end of what was given\<close>

lemma parser_suffix: "parser p \<Longrightarrow> p i = Ok (r, x) \<Longrightarrow> suffix r i"
  by (metis parserE suffix_def)

lemma skip_section_parser [parser_laws]: "parser (skip_section N)"
  unfolding skip_section_def
  by (rule parser_bind_orig) (auto intro!: parser_laws simp del: nom_take_eq)

lemma read_bitmap_parser [parser_laws]: "parser (read_bitmap N b n)"
  unfolding read_bitmap_def by (intro parser_laws)

lemma read_digests_parser [parser_laws]: "parser (read_digests N d k n)"
proof (induction n arbitrary: k)
  case 0
  show ?case by (rule parserI) auto
next
  case (Suc n)
  show ?case unfolding read_digests.simps [abs_def] by (intro parser_laws Suc)
qed

lemma parse_digests_parser [parser_laws]: "parser (\<lambda>i. parse_digests N i n)"
  unfolding parse_digests_def by (intro parser_laws)

lemma parse_stream_digests_suffix: "parse_stream_digests N i n = Ok (r, cs) \<Longrightarrow> suffix r i"
  unfolding parse_stream_digests_def Let_def
  by (auto simp del: nom_le_u8_eq split: if_splits
      dest!: parser_suffix [OF nom_parsers(2)] parser_suffix [OF read_bitmap_parser]
        parser_suffix [OF read_digests_parser] intro: suffix_order.trans)

lemma pack_info_prefix_parser: "parser pack_info_prefix"
  unfolding pack_info_prefix_def Let_def
proof (rule parser_bind_orig)
  show "parser Property_parse" by (rule Property_parser)
qed (intro parser_laws, erule if_Err_cong)

text \<open>Each step of a tag loop: the rest is a suffix, and the tag itself was consumed.\<close>

lemma section_steps:
  "Property_parse i = Ok (r, tag) \<Longrightarrow> suffix r i \<and> length r < length i"
  "skip_section N i = Ok (r, u) \<Longrightarrow> suffix r i"
  "parse_digests N i n = Ok (r, ds) \<Longrightarrow> suffix r i"
  "repeat_p sevenzip_varuint64_decode n i = Ok (r, xs) \<Longrightarrow> suffix r i"
  using parser_suffix [OF Property_parser] Property_progress parser_suffix [OF skip_section_parser]
    parser_suffix [OF parse_digests_parser] parser_suffix [OF parser.parser_repeat [OF varuint_parser]]
  by blast+

lemma suffix_step: "suffix k j \<Longrightarrow> length j < length i \<Longrightarrow> length k < length (i :: 'a list)"
  using suffix_length_le by fastforce

lemma pack_info_loop_suffix: "pack_info_loop N n i ds = Ok (r, x) \<Longrightarrow> suffix r i"
proof (induction i arbitrary: ds rule: measure_induct_rule [of length])
  case (less i)
  have IH: "suffix r i" if "pack_info_loop N n k ds = Ok (r, x)" "suffix k j" "suffix j i" "length j < length i" for j k ds
    using less.IH [OF suffix_step [OF that(2,4)] that(1)] that(2,3) by (blast intro: suffix_order.trans)
  from less.prems show ?case
    by (subst (asm) pack_info_loop.simps) (auto split: if_splits dest!: section_steps intro: IH)
qed

lemma unpack_info_loop_suffix: "unpack_info_loop N nf t i sizes ds = Ok (r, x) \<Longrightarrow> suffix r i"
proof (induction i arbitrary: sizes ds rule: measure_induct_rule [of length])
  case (less i)
  have IH: "suffix r i" if "unpack_info_loop N nf t k sizes ds = Ok (r, x)" "suffix k j" "suffix j i" "length j < length i" for j k sizes ds
    using less.IH [OF suffix_step [OF that(2,4)] that(1)] that(2,3) by (blast intro: suffix_order.trans)
  from less.prems show ?case
    by (subst (asm) unpack_info_loop.simps) (auto split: if_splits dest!: section_steps intro: IH)
qed

lemma substream_info_loop_suffix: "substream_info_loop N nf i c s d = Ok (r, x) \<Longrightarrow> suffix r i"
proof (induction i arbitrary: c s d rule: measure_induct_rule [of length])
  case (less i)
  have IH: "suffix r i" if "substream_info_loop N nf k c s d = Ok (r, x)" "suffix k j" "suffix j i" "length j < length i" for j k c s d
    using less.IH [OF suffix_step [OF that(2,4)] that(1)] that(2,3) by (blast intro: suffix_order.trans)
  from less.prems show ?case
    by (subst (asm) substream_info_loop.simps) (auto split: if_splits dest!: section_steps parse_stream_digests_suffix intro: IH)
qed

lemma remaining_header_suffix: "remaining_header src i n = Ok j \<Longrightarrow> suffix j i"
  by (cases src) (auto simp: get_from_def suffix_drop split: if_splits)

lemma block_suffixes:
  "PackInfo_parse N i = Ok (r, v) \<Longrightarrow> suffix r i"
  "UnpackInfo_parse_with_external N e i backing ext = Ok (r, u) \<Longrightarrow> suffix r i"
  "SubstreamInfo_parse N i nf = Ok (r, s) \<Longrightarrow> suffix r i"
proof -
  show "suffix r i" if "PackInfo_parse N i = Ok (r, v)"
    using that unfolding PackInfo_parse_def
    by (auto dest!: parser_suffix [OF pack_info_prefix_parser] section_steps(4) pack_info_loop_suffix
        intro: suffix_order.trans)
  show "suffix r i" if "UnpackInfo_parse_with_external N e i backing ext = Ok (r, u)"
    using that unfolding UnpackInfo_parse_with_external_def Let_def
    by (auto dest!: parser_suffix [OF parse_folder_declaration_parser] resolve_Ok
        remaining_header_suffix unpack_info_loop_suffix intro: suffix_order.trans)
  show "suffix r i" if "SubstreamInfo_parse N i nf = Ok (r, s)"
    using that unfolding SubstreamInfo_parse_def Let_def
    by (auto split: if_splits dest!: section_steps(1) substream_info_loop_suffix intro: suffix_order.trans)
qed

lemma in_buffer_rest: "in_buffer backing e i \<Longrightarrow> suffix r i \<Longrightarrow> in_buffer backing e r"
  by (auto simp: suffix_def intro: in_buffer_suffix)


section \<open>The stream descriptor\<close>

definition folder_count :: "StreamInfo \<Rightarrow> nat" where
  "folder_count si = (case unpack_info si of None \<Rightarrow> 0 | Some v \<Rightarrow> num_folders_usize v)"

lemma folder_count_simps [simp]:
  "folder_count (si\<lparr>pack_info := p\<rparr>) = folder_count si"
  "folder_count (si\<lparr>substream_info := s\<rparr>) = folder_count si"
  "folder_count (si\<lparr>unpack_info := Some u\<rparr>) = num_folders_usize u"
  by (simp_all add: folder_count_def)

lemma num_folders_usize_eq:
  assumes "UnpackInfo_parse_with_external N e i backing ext = Ok (r, ui)"
    and "in_buffer backing e i" and "external_ok ext"
  shows "num_folders_usize ui = unat (num_folders ui)"
  using UnpackInfo_parse_wf [OF assms] blocks_length [of N _ "map unat (folder_offsets ui)"]
  by (auto simp: UnpackInfo_wf_def num_folders_usize_def)

text \<open>The situation in which a header is read: in memory, below four gigabytes.\<close>

definition readable :: "Bytes \<Rightarrow> nat \<Rightarrow> bytes \<Rightarrow> Bytes list \<Rightarrow> bool" where
  "readable backing e i ext \<longleftrightarrow> in_buffer backing e i \<and> length i < 2 ^ 32 \<and> external_small ext"

lemma readable_rest: "readable backing e i ext \<Longrightarrow> suffix r i \<Longrightarrow> readable backing e r ext"
  using suffix_length_le by (fastforce simp: readable_def intro: in_buffer_rest)

lemma readable_length: "readable backing e i ext \<Longrightarrow> length i < usize_limit"
  by (auto simp: readable_def intro: in_buffer_length)

lemma unpack_info_same_rest:
  assumes "readable backing e i ext"
  shows "same_rest (scan_unpack_info_with_external N i ext) (UnpackInfo_parse_with_external N e i backing ext)"
  unfolding same_rest_def
  using assms unpack_info_parse_scans [OF _ readable_length [OF assms]]
    unpack_info_scan_parses [of N i ext _ _ backing e]
  unfolding readable_def by metis

lemma unpack_info_same_count:
  assumes "readable backing e i ext" and "scan_unpack_info_with_external N i ext = Ok (r, n)"
    and "UnpackInfo_parse_with_external N e i backing ext = Ok (r, ui)"
  shows "n = num_folders_usize ui \<and> n < usize_limit"
  using unpack_info_parse_scans [OF assms(3) readable_length [OF assms(1)]] assms(1,2)
    num_folders_usize_eq [OF assms(3)] unsigned_less [of "num_folders ui"]
  by (simp add: readable_def external_small_ok)

lemma stream_loops_agree:
  assumes "readable backing e i ext" and "folder_count si < usize_limit"
  shows "same_rest (scan_stream_info_loop N ext i (folder_count si)) (stream_info_loop N e backing ext i si)"
  using assms
proof (induction i arbitrary: si rule: measure_induct_rule [of length])
  case (less i)
  note len = readable_length [OF less.prems(1)]
  have IH: "same_rest (scan_stream_info_loop N ext r (folder_count si')) (stream_info_loop N e backing ext r si')"
    if "suffix r i" "length r < length i" "folder_count si' < usize_limit" for r si'
    using that less.IH readable_rest [OF less.prems(1)] by blast
  have IH_unpack: "same_rest (scan_stream_info_loop N ext r n) (stream_info_loop N e backing ext r (si\<lparr>unpack_info := Some u\<rparr>))"
    if "scan_unpack_info_with_external N i ext = Ok (r, n)"
      "UnpackInfo_parse_with_external N e i backing ext = Ok (r, u)" for r n u
    using IH [of r "si\<lparr>unpack_info := Some u\<rparr>"] unpack_info_same_count [OF less.prems(1) that]
      block_suffixes(2) [OF that(2)] UnpackInfo_parse_shrink [OF that(2)] by simp
  show ?case
    unfolding scan_stream_info_loop.simps [of N ext i] stream_info_loop.simps [of N e backing ext i]
      folder_count_def [symmetric] Let_def
  proof (rule same_rest_bind_same, goal_cases)
    case (1 j tag)
    consider (e) "tag = P_END" | (p) "tag = P_PackInfo" | (u) "tag = P_UnPackInfo" | (s) "tag = P_SubStreamsInfo"
      | (x) "tag \<noteq> P_END" "tag \<noteq> P_PackInfo" "tag \<noteq> P_UnPackInfo" "tag \<noteq> P_SubStreamsInfo"
      by blast
    then show ?case
    proof cases
      case p
      have "same_rest (scan_stream_info_loop N ext r (folder_count si)) (stream_info_loop N e backing ext r (si\<lparr>pack_info := Some v\<rparr>))"
        if "PackInfo_parse N i = Ok (r, v)" for r v
        using IH [of r "si\<lparr>pack_info := Some v\<rparr>"] block_suffixes(1) [OF that] PackInfo_parse_shrink [OF that]
          less.prems(2) by simp
      then show ?thesis using p scan_pack_info_same_rest [OF len] by (auto intro!: same_rest_bind)
    next
      case u
      then show ?thesis using unpack_info_same_rest [OF less.prems(1)] IH_unpack by (auto intro!: same_rest_bind)
    next
      case s
      have "same_rest (scan_stream_info_loop N ext r (folder_count si)) (stream_info_loop N e backing ext r (si\<lparr>substream_info := Some v\<rparr>))"
        if "SubstreamInfo_parse N i (folder_count si) = Ok (r, v)" for r v
        using IH [of r "si\<lparr>substream_info := Some v\<rparr>"] block_suffixes(3) [OF that]
          SubstreamInfo_parse_shrink [OF that] less.prems(2) by simp
      then show ?thesis
        using s scan_substream_info_same_rest [OF len less.prems(2)] by (auto intro!: same_rest_bind)
    next
      case x
      have "same_rest (scan_stream_info_loop N ext r (folder_count si)) (stream_info_loop N e backing ext r si)"
        if "skip_section N j = Ok (r, v)" for r v
        using that IH [of r si] section_steps(1) [OF 1] section_steps(2) [OF that] skip_section_shrink [OF that]
          less.prems(2) by (auto intro: suffix_order.trans)
      then show ?thesis using x by (auto intro!: same_rest_bind)
    qed simp
  qed
qed

lemma scan_stream_info_same_rest:
  assumes "readable backing e i ext"
  shows "same_rest (scan_stream_info_with_external N i ext) (StreamInfo_parse_with_external N e i backing ext)"
  using stream_loops_agree [OF assms, of "\<lparr>pack_info = None, unpack_info = None, substream_info = None\<rparr>" N]
  by (simp add: scan_stream_info_with_external_def StreamInfo_parse_with_external_def folder_count_def)

section \<open>Properties\<close>

text \<open>
  C27. A stream descriptor that lies in the header buffer, below four gigabytes, is
  accepted by the scanner exactly when the parser accepts it, and both leave the same
  input. A header validated by scanning can therefore be parsed later without a
  new error.
\<close>

theorem scan_stream_info_exact:
  assumes "readable backing e i ext"
  shows "scan_stream_info_with_external N i ext = Ok (r, ()) \<longleftrightarrow>
    (\<exists>si. StreamInfo_parse_with_external N e i backing ext = Ok (r, si))"
  using scan_stream_info_same_rest [OF assms, of N] by (simp add: same_rest_def)

text \<open>One packed stream, one folder with the copy method, one substream.\<close>

definition example_streams :: bytes where
  "example_streams = [6, 0, 1, 9, 5, 0, 7, 0x0B, 1, 0, 1, 1, 0, 0x0C, 5, 0, 8, 0, 0]"

lemma example_streams_scan:
  "scan_stream_info_with_external nom_reference example_streams [] = Ok ([], ())"
  by (simp add: example_streams_def scan_stream_info_with_external_def
      scan_stream_info_loop.simps [of _ _ "_ # _"] scan_unpack_info_with_external_def
      scan_unpack_info_loop.simps [of _ _ _ "_ # _"] scan_substream_info_def
      scan_substream_info_loop.simps [of _ _ "_ # _"]
      pack_info_evals unpack_info_evals folder_evals tag_evals varuint_evals Let_def)

theorem scan_stream_info_exact_witness:
  "scan_stream_info_with_external nom_reference example_streams [] = Ok ([], ()) \<and>
   (\<exists>si. StreamInfo_parse_with_external nom_reference 119 example_streams
      \<lparr>b_ptr = 100, b_data = example_streams\<rparr> [] = Ok ([], si))"
proof -
  have "readable \<lparr>b_ptr = 100, b_data = example_streams\<rparr> 119 example_streams []"
    by (simp add: readable_def in_buffer_def external_small_def example_streams_def)
  then show ?thesis
    using scan_stream_info_exact [of _ 119 example_streams "[]" nom_reference "[]"] example_streams_scan
    by blast
qed

end
