(* ===== verification/Files_Info.thy ===== *)
theory Files_Info
  imports Stream_Scan
begin

text \<open>
  \<^verbatim>\<open>src/src/files_info.rs\<close> and the entry classification of \<^verbatim>\<open>src/src/entries.rs\<close>: the file
  table. Names are kept as one raw block of UTF-16LE code units and split on demand; flags
  are kept as raw bitmaps, those of entries without a stream indexed by their ordinal among
  such entries.
\<close>

unbundle bit_operations_syntax

section \<open>Names\<close>

text \<open>\<open>as_chunks::<2>()\<close>: the pairs and what is left over.\<close>

fun as_chunks2 :: "'a list \<Rightarrow> ('a \<times> 'a) list \<times> 'a list" where
  "as_chunks2 (a # b # xs) = (let (ps, r) = as_chunks2 xs in ((a, b) # ps, r))"
| "as_chunks2 xs = ([], xs)"

text \<open>
  \<open>char::decode_utf16\<close> with every unpaired surrogate replaced by \<open>U+FFFD\<close>; a string is its
  list of code points.
\<close>

type_synonym code_point = u32

definition is_high_surrogate :: "u16 \<Rightarrow> bool" where
  "is_high_surrogate u \<longleftrightarrow> 0xD800 \<le> u \<and> u \<le> 0xDBFF"

definition is_low_surrogate :: "u16 \<Rightarrow> bool" where
  "is_low_surrogate u \<longleftrightarrow> 0xDC00 \<le> u \<and> u \<le> 0xDFFF"

fun decode_utf16_lossy :: "u16 list \<Rightarrow> code_point list" where
  "decode_utf16_lossy [] = []"
| "decode_utf16_lossy [u] = (if is_high_surrogate u \<or> is_low_surrogate u then [0xFFFD] else [ucast u])"
| "decode_utf16_lossy (u # v # us) =
     (if \<not> is_high_surrogate u \<and> \<not> is_low_surrogate u then ucast u # decode_utf16_lossy (v # us)
      else if is_high_surrogate u \<and> is_low_surrogate v then
        ((push_bit 10 (ucast u AND 0x3FF) OR (ucast v AND 0x3FF)) + 0x10000) # decode_utf16_lossy us
      else 0xFFFD # decode_utf16_lossy (v # us))"

definition decode_name :: "bytes \<Rightarrow> code_point list" where
  "decode_name data = decode_utf16_lossy (map (\<lambda>(a, b). from_le_bytes [a, b]) (fst (as_chunks2 data)))"

record FilesInfoNameSlices =
  ns_data :: Bytes
  ns_count :: nat
  ns_position :: nat
  ns_index :: nat

text \<open>The \<open>while\<close> loop of the iterator: the new position and the end of the name, if any.\<close>

function name_loop :: "bytes \<Rightarrow> nat \<Rightarrow> nat \<times> nat option" where
  "name_loop data position =
     (if position + 1 < length data then
        let is_null = (data ! position = 0 \<and> data ! (position + 1) = 0) in
        if is_null then (position + 2, Some position)
        else name_loop data (position + 2)
      else (position, None))"
  by pat_completeness auto
termination
  by (relation "measure (\<lambda>(data, position). length data - position)") auto

declare name_loop.simps [simp del]

definition name_slices_next :: "FilesInfoNameSlices \<Rightarrow> Bytes option option \<times> FilesInfoNameSlices" where
  "name_slices_next self =
     (if ns_index self \<ge> ns_count self then (None, self)
      else
        let self = self\<lparr>ns_index := ns_index self + 1\<rparr> in
        if b_data (ns_data self) = [] \<or> ns_position self + 1 \<ge> length (b_data (ns_data self))
        then (Some None, self)
        else
          let start = ns_position self;
              (position, end) = name_loop (b_data (ns_data self)) start
          in (Some (map_option (Bytes_slice (ns_data self) start) end), self\<lparr>ns_position := position\<rparr>))"

text \<open>\<open>Iterator::nth\<close>.\<close>

fun name_slices_nth :: "FilesInfoNameSlices \<Rightarrow> nat \<Rightarrow> Bytes option option \<times> FilesInfoNameSlices" where
  "name_slices_nth self 0 = name_slices_next self"
| "name_slices_nth self (Suc n) =
     (case name_slices_next self of
        (None, self) \<Rightarrow> (None, self)
      | (Some _, self) \<Rightarrow> name_slices_nth self n)"


section \<open>The file table\<close>

record FilesInfo =
  num_files :: u64
  name_data :: Bytes
  ctimes :: "u64 option list"
  atimes :: "u64 option list"
  mtimes :: "u64 option list"
  start_positions :: "u64 option list"
  attributes :: "u32 option list"
  empty_streams :: Bytes
  empty_files :: Bytes
  anti_items :: Bytes
  empty_stream_ordinals :: "nat option list"

datatype EntryType = ET_File | ET_Directory | ET_EmptyFile | ET_Anti | ET_Symlink | ET_EmptySymlink

datatype 's EntryKind = EK_File 's | EK_Symlink 's | EK_EmptyFile | EK_EmptySymlink | EK_Directory | EK_Anti

fun EntryKind_entry_type :: "'s EntryKind \<Rightarrow> EntryType" where
  "EntryKind_entry_type (EK_File _) = ET_File"
| "EntryKind_entry_type (EK_Symlink _) = ET_Symlink"
| "EntryKind_entry_type EK_EmptySymlink = ET_EmptySymlink"
| "EntryKind_entry_type EK_EmptyFile = ET_EmptyFile"
| "EntryKind_entry_type EK_Directory = ET_Directory"
| "EntryKind_entry_type EK_Anti = ET_Anti"

fun has_stream :: "'s EntryKind \<Rightarrow> bool" where
  "has_stream (EK_File _) = True"
| "has_stream (EK_Symlink _) = True"
| "has_stream _ = False"

definition name_slices :: "FilesInfo \<Rightarrow> FilesInfoNameSlices" where
  "name_slices self = \<lparr>ns_data = name_data self, ns_count = unat (num_files self), ns_position = 0,
     ns_index = 0\<rparr>"

definition FilesInfo_name :: "FilesInfo \<Rightarrow> nat \<Rightarrow> code_point list option" where
  "FilesInfo_name self i =
     (case fst (name_slices_nth (name_slices self) i) of
        Some (Some b) \<Rightarrow> Some (decode_name (b_data b))
      | _ \<Rightarrow> None)"

definition is_empty_stream :: "FilesInfo \<Rightarrow> nat \<Rightarrow> bool" where
  "is_empty_stream self i = bitmap_is_set (b_data (empty_streams self)) i"

definition empty_stream_ordinal :: "FilesInfo \<Rightarrow> nat \<Rightarrow> nat option" where
  "empty_stream_ordinal self i = Option.bind (get (empty_stream_ordinals self) i) (\<lambda>x. x)"

definition is_empty_file :: "FilesInfo \<Rightarrow> nat \<Rightarrow> bool" where
  "is_empty_file self i =
     (case empty_stream_ordinal self i of
        None \<Rightarrow> False
      | Some empty_idx \<Rightarrow> bitmap_is_set (b_data (empty_files self)) empty_idx)"

definition is_anti :: "FilesInfo \<Rightarrow> nat \<Rightarrow> bool" where
  "is_anti self i =
     (case empty_stream_ordinal self i of
        None \<Rightarrow> False
      | Some empty_idx \<Rightarrow> bitmap_is_set (b_data (anti_items self)) empty_idx)"

definition is_symlink :: "FilesInfo \<Rightarrow> nat \<Rightarrow> bool" where
  "is_symlink self i =
     (case Option.bind (get (attributes self) i) (\<lambda>x. x) of
        None \<Rightarrow> False
      | Some attrs \<Rightarrow> drop_bit 16 attrs AND 0xF000 = 0xA000)"

definition entry_kind :: "FilesInfo \<Rightarrow> nat \<Rightarrow> unit EntryKind" where
  "entry_kind self i =
     (case (is_anti self i, is_empty_stream self i, is_symlink self i, is_empty_file self i) of
        (True, _, _, _) \<Rightarrow> EK_Anti
      | (False, False, False, _) \<Rightarrow> EK_File ()
      | (False, False, True, _) \<Rightarrow> EK_Symlink ()
      | (False, True, True, _) \<Rightarrow> EK_EmptySymlink
      | (False, True, False, True) \<Rightarrow> EK_EmptyFile
      | (False, True, False, False) \<Rightarrow> EK_Directory)"

definition is_directory :: "FilesInfo \<Rightarrow> nat \<Rightarrow> bool" where
  "is_directory self i = (entry_kind self i = EK_Directory)"

definition entry_type :: "FilesInfo \<Rightarrow> nat \<Rightarrow> EntryType" where
  "entry_type self i = EntryKind_entry_type (entry_kind self i)"

text \<open>The closure over \<open>next_empty\<close>, from file \<open>i\<close> on.\<close>

fun ordinals_from :: "bytes \<Rightarrow> nat \<Rightarrow> nat \<Rightarrow> nat \<Rightarrow> nat option list" where
  "ordinals_from bitmap i 0 next_empty = []"
| "ordinals_from bitmap i (Suc n) next_empty =
     (if bitmap_is_set bitmap i then Some next_empty # ordinals_from bitmap (Suc i) n (next_empty + 1)
      else None # ordinals_from bitmap (Suc i) n next_empty)"

definition empty_stream_ordinals_of :: "bytes \<Rightarrow> nat \<Rightarrow> nat option list" where
  "empty_stream_ordinals_of bitmap n = ordinals_from bitmap 0 n 0"


section \<open>Parsing\<close>

type_synonym SeenFileProperties = u32

definition seen_register :: "SeenFileProperties \<Rightarrow> Property \<Rightarrow> bytes \<Rightarrow> SeenFileProperties nom_result" where
  "seen_register self tag input =
     (if tag \<in> {P_Name, P_CTime, P_ATime, P_MTime, P_StartPos, P_Attributes, P_EmptyStream,
                P_EmptyFile, P_Anti} then
        let property_mask = push_bit (unat (Property_code tag)) 1 in
        if self AND property_mask \<noteq> 0 then Err (Error input Verify)
        else Ok (self OR property_mask)
      else Ok self)"

definition external_property_data :: "bytes \<Rightarrow> bytes \<Rightarrow> Bytes list \<Rightarrow> Bytes nom_result" where
  "external_property_data error_input index_bytes external_data =
     and_then (map_err (\<lambda>_. Error error_input Verify) (sevenzip_varuint64_decode index_bytes)) (\<lambda>(remaining, index).
       if remaining \<noteq> [] then Err (Error error_input Verify)
       else
         and_then (ok_or (Error error_input TooLarge) (usize_try_from index)) (\<lambda>index.
           ok_or (Error error_input Eof) (get external_data index)))"

text \<open>\<open>ptr\<close> is the address of \<open>payload\<close>.\<close>

definition property_data :: "bytes \<Rightarrow> nat \<Rightarrow> bytes \<Rightarrow> Bytes \<Rightarrow> Bytes list \<Rightarrow> Bytes nom_result" where
  "property_data error_input ptr payload backing external_data =
     (case payload of
        [] \<Rightarrow> Err (Error error_input Eof)
      | external # data \<Rightarrow>
          if external = 0 then bytes_subslice backing (ptr + 1) data error_input
          else external_property_data error_input data external_data)"

record DefinedProperty =
  dp_all_defined :: u8
  dp_bitmap :: bytes
  dp_values :: Bytes

definition DefinedProperty_parse :: "bytes \<Rightarrow> nat \<Rightarrow> bytes \<Rightarrow> nat \<Rightarrow> Bytes \<Rightarrow> Bytes list \<Rightarrow>
    DefinedProperty nom_result" where
  "DefinedProperty_parse error_input ptr block num_values backing external_data =
     (case block of
        [] \<Rightarrow> Err (Error error_input Eof)
      | all_defined # payload \<Rightarrow>
          let bitmap_len = (if all_defined = 0 then div_ceil num_values 8 else 0) in
          if bitmap_len > length payload then Err (Error error_input Eof)
          else
            and_then (property_data error_input (ptr + 1 + bitmap_len) (drop bitmap_len payload)
                backing external_data) (\<lambda>values.
              Ok \<lparr>dp_all_defined = all_defined, dp_bitmap = take bitmap_len payload, dp_values = values\<rparr>))"

text \<open>\<open>code_units.any(|unit| *unit == [0, 0])\<close>, \<open>num_names\<close> times.\<close>

fun skip_names :: "nat \<Rightarrow> (u8 \<times> u8) list \<Rightarrow> (u8 \<times> u8) list option" where
  "skip_names 0 units = Some units"
| "skip_names (Suc n) units =
     (case dropWhile (\<lambda>u. u \<noteq> (0, 0)) units of
        [] \<Rightarrow> None
      | _ # rest \<Rightarrow> skip_names n rest)"

definition validate_name_data :: "bytes \<Rightarrow> nat \<Rightarrow> bytes \<Rightarrow> unit nom_result" where
  "validate_name_data data num_names error_input =
     (let (code_units, remainder) = as_chunks2 data in
      case skip_names num_names code_units of
        None \<Rightarrow> Err (Error error_input Verify)
      | Some rest \<Rightarrow>
          if rest \<noteq> [] \<or> remainder \<noteq> [] then Err (Error error_input Verify) else Ok ())"

text \<open>
  \<open>parse_defined_u64_values\<close> and \<open>parse_defined_u32_values\<close>: the loop over the indices, with
  the width of a value as parameter.
\<close>

fun defined_values_loop :: "nat \<Rightarrow> bytes \<Rightarrow> u8 \<Rightarrow> bytes \<Rightarrow> bytes \<Rightarrow> nat \<Rightarrow> nat \<Rightarrow> nat \<Rightarrow>
    (nat \<times> 'n::len word option list) nom_result" where
  "defined_values_loop width error_input all_defined bitmap data index 0 pos = Ok (pos, [])"
| "defined_values_loop width error_input all_defined bitmap data index (Suc n) pos =
     (if all_defined \<noteq> 0 \<or> bitmap_is_set bitmap index then
        if pos + width > length data then Err (Error error_input Eof)
        else
          and_then (defined_values_loop width error_input all_defined bitmap data (Suc index) n (pos + width))
            (\<lambda>(end_pos, values). Ok (end_pos, Some (from_le_bytes (take width (drop pos data))) # values))
      else
        and_then (defined_values_loop width error_input all_defined bitmap data (Suc index) n pos)
          (\<lambda>(end_pos, values). Ok (end_pos, None # values)))"

definition parse_defined_u64_values :: "bytes \<Rightarrow> u8 \<Rightarrow> bytes \<Rightarrow> bytes \<Rightarrow> nat \<Rightarrow> u64 option list nom_result" where
  "parse_defined_u64_values error_input all_defined bitmap data num_values =
     and_then (defined_values_loop 8 error_input all_defined bitmap data 0 num_values 0) (\<lambda>(pos, values).
       if pos \<noteq> length data then Err (Error error_input Verify) else Ok values)"

definition parse_defined_u32_values :: "bytes \<Rightarrow> u8 \<Rightarrow> bytes \<Rightarrow> bytes \<Rightarrow> nat \<Rightarrow> u32 option list nom_result" where
  "parse_defined_u32_values error_input all_defined bitmap data num_values =
     and_then (defined_values_loop 4 error_input all_defined bitmap data 0 num_values 0) (\<lambda>(pos, values).
       if pos \<noteq> length data then Err (Error error_input Verify) else Ok values)"

text \<open>The body of the property loop: one property block, stored in the table.\<close>

definition store_property :: "Property \<Rightarrow> bytes \<Rightarrow> nat \<Rightarrow> bytes \<Rightarrow> nat \<Rightarrow> Bytes \<Rightarrow> Bytes list \<Rightarrow>
    FilesInfo \<Rightarrow> FilesInfo nom_result" where
  "store_property tag input ptr block n backing external_data files =
     (if tag = P_Name then
        and_then (property_data input ptr block backing external_data) (\<lambda>data.
        and_then (validate_name_data (b_data data) n input) (\<lambda>_.
          Ok (files\<lparr>name_data := data\<rparr>)))
      else if tag \<in> {P_CTime, P_ATime, P_MTime, P_StartPos} then
        and_then (DefinedProperty_parse input ptr block n backing external_data) (\<lambda>property.
        and_then (parse_defined_u64_values input (dp_all_defined property) (dp_bitmap property)
            (b_data (dp_values property)) n) (\<lambda>values.
          Ok (if tag = P_CTime then files\<lparr>ctimes := values\<rparr>
              else if tag = P_ATime then files\<lparr>atimes := values\<rparr>
              else if tag = P_MTime then files\<lparr>mtimes := values\<rparr>
              else files\<lparr>start_positions := values\<rparr>)))
      else if tag = P_Attributes then
        and_then (DefinedProperty_parse input ptr block n backing external_data) (\<lambda>property.
        and_then (parse_defined_u32_values input (dp_all_defined property) (dp_bitmap property)
            (b_data (dp_values property)) n) (\<lambda>values.
          Ok (files\<lparr>attributes := values\<rparr>)))
      else if tag = P_EmptyStream then
        and_then (bytes_subslice backing ptr block input) (\<lambda>b. Ok (files\<lparr>empty_streams := b\<rparr>))
      else if tag = P_EmptyFile then
        and_then (bytes_subslice backing ptr block input) (\<lambda>b. Ok (files\<lparr>empty_files := b\<rparr>))
      else if tag = P_Anti then
        and_then (bytes_subslice backing ptr block input) (\<lambda>b. Ok (files\<lparr>anti_items := b\<rparr>))
      else Ok files)"

function files_info_loop :: "nom \<Rightarrow> nat \<Rightarrow> nat \<Rightarrow> Bytes \<Rightarrow> Bytes list \<Rightarrow> bytes \<Rightarrow> FilesInfo \<Rightarrow>
    SeenFileProperties \<Rightarrow> FilesInfo iresult" where
  "files_info_loop N end_addr n backing external_data input files seen =
     and_then (Property_parse input) (\<lambda>(input, tag).
       if tag = P_END then Ok (input, files)
       else
         and_then (seen_register seen tag input) (\<lambda>seen.
         and_then (sevenzip_varuint64_decode input) (\<lambda>(remaining, size).
         and_then (ok_or (Error input TooLarge) (usize_try_from size)) (\<lambda>size.
         let ptr = end_addr - length remaining in
         and_then (nom_take N size remaining) (\<lambda>(remaining, block).
         and_then (store_property tag input ptr block n backing external_data files) (\<lambda>files.
           files_info_loop N end_addr n backing external_data remaining files seen))))))"
  by pat_completeness auto
termination
  by (relation "measure (\<lambda>(N, end_addr, n, backing, external_data, input, files, seen). length input)")
     (auto split: if_splits dest!: Property_progress varuint_progress)

definition FilesInfo_parse_with_external :: "nom \<Rightarrow> nat \<Rightarrow> bytes \<Rightarrow> Bytes \<Rightarrow> Bytes list \<Rightarrow> FilesInfo iresult" where
  "FilesInfo_parse_with_external N end_addr input backing external_data =
     (let orig_input = input in
      and_then (Property_parse input) (\<lambda>(input, tag).
        if tag \<noteq> P_FilesInfo then Err (Failure orig_input Satisfy)
        else
          and_then (sevenzip_varuint64_decode input) (\<lambda>(input, nf).
          and_then (ok_or (Error input TooLarge) (usize_try_from nf)) (\<lambda>n.
          and_then (files_info_loop N end_addr n backing external_data input
              \<lparr>num_files = nf, name_data = Bytes_new, ctimes = [], atimes = [], mtimes = [],
               start_positions = [], attributes = [], empty_streams = Bytes_new,
               empty_files = Bytes_new, anti_items = Bytes_new, empty_stream_ordinals = []\<rparr> 0)
            (\<lambda>(input, files).
            Ok (input, files\<lparr>empty_stream_ordinals :=
              empty_stream_ordinals_of (b_data (empty_streams files)) n\<rparr>))))))"

definition FilesInfo_parse :: "nom \<Rightarrow> nat \<Rightarrow> bytes \<Rightarrow> Bytes \<Rightarrow> FilesInfo iresult" where
  "FilesInfo_parse N end_addr input backing = FilesInfo_parse_with_external N end_addr input backing []"

text \<open>Whether a property block refers to external data, as far as its first bytes say.\<close>

definition external_flag :: "Property \<Rightarrow> bytes \<Rightarrow> nat \<Rightarrow> u8 option" where
  "external_flag tag block n =
     (if tag = P_Name then get block 0
      else if tag \<in> {P_CTime, P_ATime, P_MTime, P_StartPos, P_Attributes} then
        let layout_start = (case get block 0 of
              Some v \<Rightarrow> if v = 0 then 2 + div_ceil n 8 else 2
            | None \<Rightarrow> usize_limit - 1) in
        Option.bind (checked_sub layout_start 1) (\<lambda>index. get block index)
      else None)"

function scan_files_info_loop :: "nom \<Rightarrow> nat \<Rightarrow> bytes \<Rightarrow> bool \<Rightarrow> bool iresult" where
  "scan_files_info_loop N n input uses_external_data =
     and_then (Property_parse input) (\<lambda>(input, tag).
       if tag = P_END then Ok (input, uses_external_data)
       else
         and_then (sevenzip_varuint64_decode input) (\<lambda>(i, size).
         and_then (ok_or (Error input TooLarge) (usize_try_from size)) (\<lambda>sz.
         and_then (nom_take N sz i) (\<lambda>(i, block).
           scan_files_info_loop N n i
             (uses_external_data \<or> (case external_flag tag block n of None \<Rightarrow> False | Some flag \<Rightarrow> flag \<noteq> 0))))))"
  by pat_completeness auto
termination
  by (relation "measure (\<lambda>(N, n, input, uses_external_data). length input)")
     (auto split: if_splits dest!: Property_progress varuint_progress)

definition scan_files_info_with_external :: "nom \<Rightarrow> bytes \<Rightarrow> (u64 \<times> bool) iresult" where
  "scan_files_info_with_external N input =
     (let orig = input in
      and_then (Property_parse input) (\<lambda>(input, tag).
        if tag \<noteq> P_FilesInfo then Err (Failure orig Satisfy)
        else
          and_then (sevenzip_varuint64_decode input) (\<lambda>(input, nf).
          and_then (ok_or (Error input TooLarge) (usize_try_from nf)) (\<lambda>n.
          and_then (scan_files_info_loop N n input False) (\<lambda>(input, ext).
            Ok (input, nf, ext))))))"

declare files_info_loop.simps [simp del] scan_files_info_loop.simps [simp del]

end
