(* ===== verification/Files_Table.thy ===== *)
theory Files_Table
  imports Files_Info
begin

text \<open>
  Correctness of the file table: the raw name block of an accepted table splits into exactly
  one name per file, the ordinals of entries without a stream count them, and the scanner
  of the header agrees with the parser.
\<close>

section \<open>Ordinals\<close>

lemma length_ordinals_from [simp]: "length (ordinals_from bm i n k) = n"
  by (induction bm i n k rule: ordinals_from.induct) auto

lemma ordinals_from_nth:
  "j < n \<Longrightarrow> ordinals_from bm i n k ! j =
     (if bitmap_is_set bm (i + j) then Some (k + length (filter (bitmap_is_set bm) [i..<i + j])) else None)"
proof (induction bm i n k arbitrary: j rule: ordinals_from.induct)
  case (2 bm i n k)
  show ?case
  proof (cases j)
    case (Suc m)
    have "[i..<i + Suc m] = i # [Suc i..<Suc i + m]" by (simp add: upt_conv_Cons)
    then show ?thesis using 2 Suc by auto
  qed simp
qed simp


section \<open>Splitting the name block\<close>

definition flat :: "('a \<times> 'a) list \<Rightarrow> 'a list" where
  "flat us = concat (map (\<lambda>(a, b). [a, b]) us)"

lemma flat_simps [simp]:
  "flat [] = []" "flat ((a, b) # us) = a # b # flat us" "flat (us @ vs) = flat us @ flat vs"
  by (simp_all add: flat_def)

lemma length_flat [simp]: "length (flat us) = 2 * length us"
  by (induction us) (auto simp: flat_def)

lemma as_chunks2_flat [simp]: "as_chunks2 (flat us) = (us, [])"
  by (induction us) auto

lemma as_chunks2_eq: "as_chunks2 xs = (us, r) \<Longrightarrow> xs = flat us @ r"
  by (induction xs arbitrary: us r rule: as_chunks2.induct) (auto split: prod.splits)

text \<open>A name block: names without null unit, each followed by one.\<close>

definition name_units :: "(u8 \<times> u8) list list \<Rightarrow> (u8 \<times> u8) list" where
  "name_units names = concat (map (\<lambda>nm. nm @ [(0, 0)]) names)"

lemma name_units_simps [simp]:
  "name_units [] = []" "name_units (nm # names) = nm @ (0, 0) # name_units names"
  by (simp_all add: name_units_def)

definition no_null :: "(u8 \<times> u8) list \<Rightarrow> bool" where
  "no_null nm \<longleftrightarrow> (0, 0) \<notin> set nm"

lemma skip_names_name_units:
  "skip_names n us = Some r \<Longrightarrow>
     \<exists>names. length names = n \<and> list_all no_null names \<and> us = name_units names @ r"
proof (induction n arbitrary: us)
  case (Suc n)
  obtain z rest where dw: "dropWhile (\<lambda>u. u \<noteq> (0, 0)) us = z # rest" and "skip_names n rest = Some r"
    using Suc.prems by (auto split: list.splits)
  then obtain names where names: "length names = n" "list_all no_null names" "rest = name_units names @ r"
    using Suc.IH by blast
  have "z = (0, 0)" using hd_dropWhile [of "\<lambda>u. u \<noteq> (0, 0)" us] dw by auto
  moreover have "us = takeWhile (\<lambda>u. u \<noteq> (0, 0)) us @ z # rest"
    by (metis dw takeWhile_dropWhile_id)
  moreover have "no_null (takeWhile (\<lambda>u. u \<noteq> (0, 0)) us)"
    by (auto simp: no_null_def dest: set_takeWhileD)
  ultimately show ?case
    using names by (intro exI [of _ "takeWhile (\<lambda>u. u \<noteq> (0, 0)) us # names"]) simp
qed simp

lemma skip_names_complete:
  "list_all no_null names \<Longrightarrow> skip_names (length names) (name_units names @ r) = Some r"
proof (induction names)
  case (Cons nm names)
  have "dropWhile (\<lambda>u. u \<noteq> (0, 0)) (nm @ (0, 0) # name_units names @ r) = (0, 0) # name_units names @ r"
    using Cons.prems by (subst dropWhile_append2) (auto simp: no_null_def)
  then show ?case using Cons by simp
qed simp

lemma validate_name_data_eq_Ok:
  "validate_name_data data n e = Ok () \<longleftrightarrow>
     (\<exists>names. length names = n \<and> list_all no_null names \<and> data = flat (name_units names))"
proof
  assume "validate_name_data data n e = Ok ()"
  then obtain us where "as_chunks2 data = (us, [])" "skip_names n us = Some []"
    by (auto simp: validate_name_data_def split: prod.splits option.splits if_splits)
  then show "\<exists>names. length names = n \<and> list_all no_null names \<and> data = flat (name_units names)"
    using as_chunks2_eq [of data us "[]"] skip_names_name_units [of n us "[]"] by auto
next
  assume "\<exists>names. length names = n \<and> list_all no_null names \<and> data = flat (name_units names)"
  then show "validate_name_data data n e = Ok ()"
    using skip_names_complete [of _ "[]"] by (auto simp: validate_name_data_def)
qed

lemma name_loop_units:
  "no_null nm \<Longrightarrow> name_loop (pre @ flat nm @ 0 # 0 # rest) (length pre) =
     (length pre + 2 * length nm + 2, Some (length pre + 2 * length nm))"
proof (induction nm arbitrary: pre)
  case Nil
  show ?case by (simp add: name_loop.simps [of _ "length pre"] nth_append)
next
  case (Cons u nm)
  obtain a b where u: "u = (a, b)" by (cases u)
  have "\<not> (a = 0 \<and> b = 0)" "no_null nm" using Cons.prems by (auto simp: no_null_def u)
  moreover from this have "name_loop (pre @ flat (u # nm) @ 0 # 0 # rest) (length pre) =
      name_loop ((pre @ [a, b]) @ flat nm @ 0 # 0 # rest) (length (pre @ [a, b]))"
    by (auto simp: name_loop.simps [of _ "length pre"] nth_append u)
  ultimately show ?case using Cons.IH [of "pre @ [a, b]"] by simp
qed

definition slices_at :: "Bytes \<Rightarrow> nat \<Rightarrow> nat \<Rightarrow> nat \<Rightarrow> FilesInfoNameSlices" where
  "slices_at data count pos idx = \<lparr>ns_data = data, ns_count = count, ns_position = pos, ns_index = idx\<rparr>"

lemma name_slices_next_units:
  assumes "b_data data = pre @ flat nm @ 0 # 0 # rest" and "no_null nm" and "idx < count"
  shows "\<exists>b. name_slices_next (slices_at data count (length pre) idx) =
      (Some (Some b), slices_at data count (length pre + 2 * length nm + 2) (Suc idx)) \<and> b_data b = flat nm"
  using assms name_loop_units [OF assms(2), of pre rest]
  by (simp add: name_slices_next_def slices_at_def Bytes_slice_def Let_def)

lemma name_slices_nth_units:
  assumes "b_data data = pre @ flat (name_units names)" and "list_all no_null names"
    and "idx + length names \<le> count" and "k < length names"
  shows "\<exists>b. fst (name_slices_nth (slices_at data count (length pre) idx) k) = Some (Some b) \<and>
    b_data b = flat (names ! k)"
  using assms
proof (induction names arbitrary: pre idx k)
  case (Cons nm names)
  obtain b where b: "name_slices_next (slices_at data count (length pre) idx) =
      (Some (Some b), slices_at data count (length pre + 2 * length nm + 2) (Suc idx))" "b_data b = flat nm"
    using name_slices_next_units [of data pre nm "flat (name_units names)" idx count] Cons.prems by auto
  show ?case
  proof (cases k)
    case 0
    then show ?thesis using b by simp
  next
    case (Suc m)
    have "length (pre @ flat nm @ [0, 0]) = length pre + 2 * length nm + 2" by simp
    then show ?thesis
      using Cons.IH [of "pre @ flat nm @ [0, 0]" "Suc idx" m] Cons.prems Suc b by simp
  qed
qed simp

lemma name_slices_nth_past: "count \<le> idx + k \<Longrightarrow> fst (name_slices_nth (slices_at data count pos idx) k) = None"
proof (induction k arbitrary: pos idx)
  case 0
  then show ?case by (simp add: name_slices_next_def slices_at_def)
next
  case (Suc k)
  show ?case
  proof (cases "count \<le> idx")
    case True
    then show ?thesis by (simp add: name_slices_next_def slices_at_def)
  next
    case False
    then have "\<exists>b pos'. name_slices_next (slices_at data count pos idx) = (Some b, slices_at data count pos' (Suc idx))"
      by (auto simp: name_slices_next_def slices_at_def Let_def split: prod.split)
    then obtain b pos' where
      "name_slices_next (slices_at data count pos idx) = (Some b, slices_at data count pos' (Suc idx))"
      by blast
    then show ?thesis using Suc by simp
  qed
qed



section \<open>The invariant of the table\<close>

definition column :: "nat \<Rightarrow> 'a list \<Rightarrow> bool" where
  "column n xs \<longleftrightarrow> xs = [] \<or> length xs = n"

lemma columnI [simp]: "column n []" "length xs = n \<Longrightarrow> column n xs"
  by (simp_all add: column_def)

definition names_ok :: "nat \<Rightarrow> bytes \<Rightarrow> bool" where
  "names_ok n data \<longleftrightarrow> data = [] \<or>
     (\<exists>names. length names = n \<and> list_all no_null names \<and> data = flat (name_units names))"

text \<open>Every column is absent or has one entry per file, and the names are absent or complete.\<close>

definition table_ok :: "nat \<Rightarrow> FilesInfo \<Rightarrow> bool" where
  "table_ok n fi \<longleftrightarrow>
     names_ok n (b_data (name_data fi)) \<and> column n (ctimes fi) \<and> column n (atimes fi) \<and>
     column n (mtimes fi) \<and> column n (start_positions fi) \<and> column n (attributes fi)"

lemma defined_values_loop_length:
  "defined_values_loop w e a bm d i n p = Ok (p', vs) \<Longrightarrow> length vs = n"
  by (induction n arbitrary: i p vs) (fastforce split: if_splits)+

lemma parse_defined_values_length:
  "parse_defined_u64_values e a bm d n = Ok vs \<Longrightarrow> length vs = n"
  "parse_defined_u32_values e a bm d n = Ok ws \<Longrightarrow> length ws = n"
  by (auto simp: parse_defined_u64_values_def parse_defined_u32_values_def split: if_splits
      dest: defined_values_loop_length)

lemma store_property_table_ok:
  assumes "store_property tag i ptr blk n backing ext fi = Ok fi'" and "table_ok n fi"
  shows "table_ok n fi' \<and> num_files fi' = num_files fi"
  using assms
  by (auto simp: store_property_def table_ok_def names_ok_def validate_name_data_eq_Ok split: if_splits
      dest!: parse_defined_values_length)

lemma take_step: "nom_take N n i = Ok (r, b) \<Longrightarrow> length r \<le> length i"
  by (auto split: if_splits)

text \<open>One round of the property loop, forwards and backwards.\<close>

lemma files_info_loop_round:
  assumes "files_info_loop N e n backing ext i fi seen = Ok (r, fi')"
  obtains (finished) "Property_parse i = Ok (r, P_END)" "fi' = fi"
  | (property) j tag seen1 k sz l blk fi1 where "Property_parse i = Ok (j, tag)" "tag \<noteq> P_END"
      "seen_register seen tag j = Ok seen1" "sevenzip_varuint64_decode j = Ok (k, sz)"
      "nom_take N (unat sz) k = Ok (l, blk)"
      "store_property tag j (e - length k) blk n backing ext fi = Ok fi1"
      "files_info_loop N e n backing ext l fi1 seen1 = Ok (r, fi')" "length l < length i"
proof -
  from assms obtain j tag where tag: "Property_parse i = Ok (j, tag)"
    by (subst (asm) files_info_loop.simps) auto
  show thesis
  proof (cases "tag = P_END")
    case True
    then show thesis using assms tag finished by (subst (asm) files_info_loop.simps) auto
  next
    case False
    with assms tag obtain seen1 k sz l blk fi1 where
      "seen_register seen tag j = Ok seen1" "sevenzip_varuint64_decode j = Ok (k, sz)"
      "nom_take N (unat sz) k = Ok (l, blk)"
      "store_property tag j (e - length k) blk n backing ext fi = Ok fi1"
      "files_info_loop N e n backing ext l fi1 seen1 = Ok (r, fi')"
      by (subst (asm) files_info_loop.simps) (auto simp: Let_def simp del: nom_take_eq)
    moreover from this have "length l < length i"
      using Property_progress [OF tag] varuint_progress take_step by fastforce
    ultimately show thesis using property tag False by blast
  qed
qed

lemma scan_files_info_loop_round:
  assumes "Property_parse i = Ok (j, tag)" and "tag \<noteq> P_END" and "sevenzip_varuint64_decode j = Ok (k, sz)"
    and "nom_take N (unat sz) k = Ok (l, blk)"
  shows "scan_files_info_loop N n i b = scan_files_info_loop N n l
    (b \<or> (case external_flag tag blk n of None \<Rightarrow> False | Some flag \<Rightarrow> flag \<noteq> 0))"
  using assms by (subst scan_files_info_loop.simps) (simp del: nom_take_eq)

lemma files_info_loop_table_ok:
  "files_info_loop N e n backing ext i fi seen = Ok (r, fi') \<Longrightarrow> table_ok n fi \<Longrightarrow>
     table_ok n fi' \<and> num_files fi' = num_files fi"
proof (induction i arbitrary: fi seen rule: measure_induct_rule [of length])
  case (less i)
  from less.prems(1) show ?case
  proof (cases rule: files_info_loop_round)
    case (property j tag seen1 k sz l blk fi1)
    then show ?thesis using less.IH store_property_table_ok [OF property(6) less.prems(2)] by simp
  qed (use less.prems(2) in simp)
qed

lemma FilesInfo_parse_table_ok:
  assumes "FilesInfo_parse_with_external N e i backing ext = Ok (r, fi)"
  shows "table_ok (unat (num_files fi)) fi \<and>
    empty_stream_ordinals fi = empty_stream_ordinals_of (b_data (empty_streams fi)) (unat (num_files fi))"
proof -
  obtain j nf fi0 fi1 where start: "fi0 = \<lparr>num_files = nf, name_data = Bytes_new, ctimes = [], atimes = [], mtimes = [],
       start_positions = [], attributes = [], empty_streams = Bytes_new, empty_files = Bytes_new,
       anti_items = Bytes_new, empty_stream_ordinals = []\<rparr>"
    and loop: "files_info_loop N e (unat nf) backing ext j fi0 0 = Ok (r, fi1)"
    and fi: "fi = fi1\<lparr>empty_stream_ordinals := empty_stream_ordinals_of (b_data (empty_streams fi1)) (unat nf)\<rparr>"
    using assms by (auto simp: FilesInfo_parse_with_external_def Let_def split: if_splits)
  have "table_ok (unat nf) fi0" by (simp add: start table_ok_def names_ok_def Bytes_new_def)
  from files_info_loop_table_ok [OF loop this] show ?thesis
    by (simp add: fi start table_ok_def)
qed

lemma FilesInfo_name_units:
  assumes "b_data (name_data fi) = flat (name_units names)" and "list_all no_null names"
    and "length names = unat (num_files fi)"
  shows "FilesInfo_name fi k =
    (if k < length names then Some (decode_name (flat (names ! k))) else None)"
proof -
  have st: "name_slices fi = slices_at (name_data fi) (unat (num_files fi)) (length ([] :: bytes)) 0"
    by (simp add: name_slices_def slices_at_def)
  show ?thesis
  proof (cases "k < length names")
    case True
    then show ?thesis
      using name_slices_nth_units [of "name_data fi" "[]" names 0 "unat (num_files fi)" k] assms
      by (auto simp: FilesInfo_name_def st)
  next
    case False
    then show ?thesis
      using name_slices_nth_past [of "unat (num_files fi)" 0 k "name_data fi" 0] assms
      by (simp add: FilesInfo_name_def st)
  qed
qed


section \<open>Scanner and parser\<close>

lemma files_info_loop_scans:
  "files_info_loop N e n backing ext i fi seen = Ok (r, fi') \<Longrightarrow>
     \<exists>b'. scan_files_info_loop N n i b = Ok (r, b')"
proof (induction i arbitrary: fi seen b rule: measure_induct_rule [of length])
  case (less i)
  from less.prems show ?case
  proof (cases rule: files_info_loop_round)
    case finished
    then show ?thesis by (simp add: scan_files_info_loop.simps [of N n i])
  next
    case (property j tag seen1 k sz l blk fi1)
    then show ?thesis
      using less.IH scan_files_info_loop_round [OF property(1,2,4,5)] by simp
  qed
qed

lemma FilesInfo_parse_scans:
  assumes "FilesInfo_parse_with_external N e i backing ext = Ok (r, fi)"
  shows "\<exists>b. scan_files_info_with_external N i = Ok (r, num_files fi, b)"
proof -
  obtain j k nf fi0 fi1 where run: "Property_parse i = Ok (j, P_FilesInfo)" "sevenzip_varuint64_decode j = Ok (k, nf)"
    "files_info_loop N e (unat nf) backing ext k fi0 0 = Ok (r, fi1)"
    "fi = fi1\<lparr>empty_stream_ordinals := empty_stream_ordinals_of (b_data (empty_streams fi1)) (unat nf)\<rparr>"
    and fi0: "fi0 = \<lparr>num_files = nf, name_data = Bytes_new, ctimes = [], atimes = [], mtimes = [],
       start_positions = [], attributes = [], empty_streams = Bytes_new, empty_files = Bytes_new,
       anti_items = Bytes_new, empty_stream_ordinals = []\<rparr>"
    using assms by (auto simp: FilesInfo_parse_with_external_def Let_def split: if_splits)
  have "table_ok (unat nf) fi0" by (simp add: fi0 table_ok_def names_ok_def Bytes_new_def)
  then show ?thesis
    using run files_info_loop_scans [OF run(3), of False] files_info_loop_table_ok [OF run(3)] fi0
    by (auto simp: scan_files_info_with_external_def Let_def)
qed


section \<open>External data\<close>

lemma scan_files_info_loop_sticky: "scan_files_info_loop N n i True = Ok (r, b) \<Longrightarrow> b"
proof (induction i rule: measure_induct_rule [of length])
  case (less i)
  then obtain j tag where tag: "Property_parse i = Ok (j, tag)"
    by (subst (asm) scan_files_info_loop.simps) auto
  show ?case
  proof (cases "tag = P_END")
    case True
    then show ?thesis using less.prems tag by (simp add: scan_files_info_loop.simps [of N n i])
  next
    case False
    with less.prems tag obtain k sz l blk where
      *: "sevenzip_varuint64_decode j = Ok (k, sz)" "nom_take N (unat sz) k = Ok (l, blk)"
      by (subst (asm) scan_files_info_loop.simps) (auto simp del: nom_take_eq)
    then have "length l < length i"
      using Property_progress [OF tag] varuint_progress take_step by fastforce
    then show ?thesis
      using less scan_files_info_loop_round [OF tag False *] by simp
  qed
qed

definition refers_external :: "Property \<Rightarrow> bytes \<Rightarrow> nat \<Rightarrow> bool" where
  "refers_external tag blk n \<longleftrightarrow> (case external_flag tag blk n of None \<Rightarrow> False | Some flag \<Rightarrow> flag \<noteq> 0)"

lemma DefinedProperty_parse_internal:
  assumes "\<not> refers_external tag blk n" and "tag \<in> {P_CTime, P_ATime, P_MTime, P_StartPos, P_Attributes}"
  shows "DefinedProperty_parse i ptr blk n backing ext = DefinedProperty_parse i ptr blk n backing ext'"
proof (cases blk)
  case (Cons a payload)
  have flag: "external_flag tag blk n = get blk (1 + (if a = 0 then div_ceil n 8 else 0))"
    using assms(2) Cons by (auto simp: external_flag_def get_def checked_sub_def Let_def)
  define L where "L = (if a = 0 then div_ceil n 8 else 0)"
  have "property_data i p (drop L payload) backing ext = property_data i p (drop L payload) backing ext'" for p
  proof (cases "drop L payload")
    case (Cons x data)
    then have "L < length payload" by (metis drop_eq_Nil list.distinct(1) not_less)
    then have "get blk (1 + L) = Some x"
      using Cons \<open>blk = a # payload\<close> by (simp add: nth_via_drop)
    then have "x = 0" using assms(1) flag by (simp add: refers_external_def L_def del: get_eq_Some)
    then show ?thesis using Cons by (simp add: property_data_def)
  qed (simp add: property_data_def)
  then show ?thesis using Cons by (simp add: DefinedProperty_parse_def Let_def L_def)
qed (simp add: DefinedProperty_parse_def)

lemma store_property_internal:
  assumes "\<not> refers_external tag blk n"
  shows "store_property tag i ptr blk n backing ext fi = store_property tag i ptr blk n backing ext' fi"
proof -
  have "property_data i ptr blk backing ext = property_data i ptr blk backing ext'" if "tag = P_Name"
    using assms that
    by (cases blk) (auto simp: property_data_def refers_external_def external_flag_def get_def)
  then show ?thesis
    using DefinedProperty_parse_internal [OF assms, of i ptr backing ext ext']
    by (simp add: store_property_def)
qed

lemma files_info_loop_internal:
  assumes "scan_files_info_loop N n i b = Ok (r, False)"
  shows "files_info_loop N e n backing ext i fi seen = files_info_loop N e n backing ext' i fi seen"
  using assms
proof (induction i arbitrary: fi seen b rule: measure_induct_rule [of length])
  case (less i)
  show ?case
    unfolding files_info_loop.simps [of N e n backing _ i]
  proof (intro and_then_cong refl, clarsimp simp: Let_def simp del: nom_take_eq)
    fix j tag
    assume tag: "Property_parse i = Ok (j, tag)" "tag \<noteq> P_END"
    show "and_then (seen_register seen tag j) (\<lambda>seen.
        and_then (sevenzip_varuint64_decode j) (\<lambda>(k, sz).
        and_then (nom_take N (unat sz) k) (\<lambda>(l, blk).
        and_then (store_property tag j (e - length k) blk n backing ext fi) (\<lambda>fi.
          files_info_loop N e n backing ext l fi seen)))) =
      and_then (seen_register seen tag j) (\<lambda>seen.
        and_then (sevenzip_varuint64_decode j) (\<lambda>(k, sz).
        and_then (nom_take N (unat sz) k) (\<lambda>(l, blk).
        and_then (store_property tag j (e - length k) blk n backing ext' fi) (\<lambda>fi.
          files_info_loop N e n backing ext' l fi seen))))"
    proof (intro and_then_cong refl, clarsimp simp del: nom_take_eq, intro and_then_cong refl, clarsimp simp del: nom_take_eq)
      fix seen1 k sz l blk
      assume *: "sevenzip_varuint64_decode j = Ok (k, sz)" "nom_take N (unat sz) k = Ok (l, blk)"
      have l: "length l < length i"
        using Property_progress [OF tag(1)] varuint_progress [OF *(1)] take_step [OF *(2)] by simp
      have scan: "scan_files_info_loop N n l (b \<or> refers_external tag blk n) = Ok (r, False)"
        using less.prems scan_files_info_loop_round [OF tag *] by (simp add: refers_external_def)
      then have nr: "\<not> refers_external tag blk n"
        using scan_files_info_loop_sticky [of N n l r False] by auto
      show "and_then (store_property tag j (e - length k) blk n backing ext fi) (\<lambda>fi.
          files_info_loop N e n backing ext l fi seen1) =
        and_then (store_property tag j (e - length k) blk n backing ext' fi) (\<lambda>fi.
          files_info_loop N e n backing ext' l fi seen1)"
        unfolding store_property_internal [OF nr, of j _ backing ext fi ext']
        by (intro and_then_cong refl less.IH [OF l scan])
    qed
  qed
qed

section \<open>Properties\<close>

text \<open>Two files \<open>a\<close> and \<open>b\<close>, of which the second has no stream.\<close>

definition example_files :: bytes where
  "example_files = [5, 2, 0x0E, 1, 0x40, 0x11, 9, 0, 97, 0, 0, 0, 98, 0, 0, 0, 0]"

definition example_files_info :: FilesInfo where
  "example_files_info = \<lparr>num_files = 2,
     name_data = \<lparr>b_ptr = 108, b_data = [97, 0, 0, 0, 98, 0, 0, 0]\<rparr>,
     ctimes = [], atimes = [], mtimes = [], start_positions = [], attributes = [],
     empty_streams = \<lparr>b_ptr = 104, b_data = [0x40]\<rparr>, empty_files = Bytes_new, anti_items = Bytes_new,
     empty_stream_ordinals = [None, Some 0]\<rparr>"

lemmas files_info_evals = FilesInfo_parse_with_external_def files_info_loop.simps [of _ _ _ _ _ "_ # _"]
  seen_register_def store_property_def property_data_def validate_name_data_def bytes_subslice_def
  checked_sub_def usize_checked_add_def Bytes_slice_def empty_stream_ordinals_of_def bitmap_is_set_iff

lemma bit_0x40: "bit (0x40 :: u8) 7 \<longleftrightarrow> False" "bit (0x40 :: u8) 6 \<longleftrightarrow> True"
  by (simp_all add: bit_iff_odd)

lemma example_names: "skip_names 2 [(97, 0), (0, 0), (98, 0), (0, 0)] = Some []"
  by (subst numeral_2_eq_2) simp

lemma example_ordinals: "ordinals_from [0x40] 0 2 0 = [None, Some 0]"
proof -
  have "ordinals_from [0x40] 0 (Suc (Suc 0)) 0 = [None, Some 0]"
    by (simp add: bitmap_is_set_iff bit_0x40)
  then show ?thesis by (simp add: numeral_2_eq_2 [symmetric] del: ordinals_from.simps)
qed

lemma example_files_parses:
  "FilesInfo_parse_with_external nom_reference 117 example_files \<lparr>b_ptr = 100, b_data = example_files\<rparr> [] =
     Ok ([], example_files_info)"
  by (simp add: example_files_def example_files_info_def files_info_evals tag_evals varuint_evals Let_def
      Bytes_new_def bit_0x40 example_names example_ordinals)

text \<open>
  C28. In an accepted file table every column of times, positions or attributes is absent or has one
  entry per file. If there are names there is exactly one per file: the raw block
  divides into that many null-terminated names, asking for name \<open>k\<close> decodes the \<open>k\<close>-th of them
  and there is no name past the last file.
\<close>

theorem file_table_complete:
  assumes "FilesInfo_parse_with_external N e i backing ext = Ok (r, fi)"
  shows "column (unat (num_files fi)) (ctimes fi) \<and> column (unat (num_files fi)) (atimes fi) \<and>
    column (unat (num_files fi)) (mtimes fi) \<and> column (unat (num_files fi)) (start_positions fi) \<and>
    column (unat (num_files fi)) (attributes fi) \<and>
    (b_data (name_data fi) = [] \<or>
     (\<exists>names. length names = unat (num_files fi) \<and> list_all no_null names \<and>
        b_data (name_data fi) = flat (name_units names) \<and>
        (\<forall>k. FilesInfo_name fi k =
           (if k < length names then Some (decode_name (flat (names ! k))) else None))))"
proof -
  have ok: "table_ok (unat (num_files fi)) fi" using FilesInfo_parse_table_ok [OF assms] by simp
  then consider "b_data (name_data fi) = []"
    | names where "length names = unat (num_files fi)" "list_all no_null names"
        "b_data (name_data fi) = flat (name_units names)"
    by (auto simp: table_ok_def names_ok_def)
  then show ?thesis
    using ok FilesInfo_name_units by cases (auto simp: table_ok_def)
qed

theorem file_table_complete_witness:
  "\<exists>names. length names = 2 \<and> list_all no_null names \<and>
     b_data (name_data example_files_info) = flat (name_units names) \<and>
     FilesInfo_name example_files_info 1 = Some (decode_name (flat (names ! 1))) \<and>
     FilesInfo_name example_files_info 2 = None"
proof -
  have "unat (num_files example_files_info) = 2" "b_data (name_data example_files_info) \<noteq> []"
    by (simp_all add: example_files_info_def)
  then show ?thesis
    using file_table_complete [OF example_files_parses] by auto
qed

text \<open>
  C29. The flags of entries without a data stream are indexed by their ordinal: for every file of
  an accepted table the ordinal exists exactly if the file has no stream, and it counts
  such files before it. An entry is classified as having a stream exactly if its bit says so.
\<close>

theorem entry_streams_classified:
  assumes "FilesInfo_parse_with_external N e i backing ext = Ok (r, fi)" and "k < unat (num_files fi)"
  shows "empty_stream_ordinal fi k =
      (if is_empty_stream fi k then Some (length (filter (is_empty_stream fi) [0..<k])) else None) \<and>
    (has_stream (entry_kind fi k) \<longleftrightarrow> \<not> is_empty_stream fi k)"
proof -
  have "is_empty_stream fi = bitmap_is_set (b_data (empty_streams fi))"
    by (simp add: is_empty_stream_def fun_eq_iff)
  then have "empty_stream_ordinal fi k =
      (if is_empty_stream fi k then Some (length (filter (is_empty_stream fi) [0..<k])) else None)"
    using FilesInfo_parse_table_ok [OF assms(1)] assms(2)
    by (simp add: empty_stream_ordinal_def empty_stream_ordinals_of_def get_def ordinals_from_nth)
  then show ?thesis
    by (auto simp: entry_kind_def is_anti_def is_empty_file_def split: bool.splits)
qed

theorem entry_streams_classified_witness:
  "empty_stream_ordinal example_files_info 1 =
      (if is_empty_stream example_files_info 1
       then Some (length (filter (is_empty_stream example_files_info) [0..<1])) else None) \<and>
    (has_stream (entry_kind example_files_info 1) \<longleftrightarrow> \<not> is_empty_stream example_files_info 1)"
  by (rule entry_streams_classified [OF example_files_parses]) (simp add: example_files_info_def)

text \<open>
  The scanner accepts every file table the parser accepts, leaves the same input and
  reports the same number of files. When it reports that no property refers to external
  data, the result of the parser does not depend on the external streams.
\<close>

theorem scan_files_info_sound:
  "(\<forall>r fi. FilesInfo_parse_with_external N e i backing ext = Ok (r, fi) \<longrightarrow>
      (\<exists>b. scan_files_info_with_external N i = Ok (r, num_files fi, b))) \<and>
   (\<forall>r nf. scan_files_info_with_external N i = Ok (r, nf, False) \<longrightarrow>
      FilesInfo_parse_with_external N e i backing ext = FilesInfo_parse N e i backing)"
proof (intro conjI allI impI)
  fix r nf
  assume "scan_files_info_with_external N i = Ok (r, nf, False)"
  then obtain j k where *: "Property_parse i = Ok (j, P_FilesInfo)" "sevenzip_varuint64_decode j = Ok (k, nf)"
    "scan_files_info_loop N (unat nf) k False = Ok (r, False)"
    by (auto simp: scan_files_info_with_external_def Let_def split: if_splits)
  show "FilesInfo_parse_with_external N e i backing ext = FilesInfo_parse N e i backing"
    unfolding FilesInfo_parse_def FilesInfo_parse_with_external_def
      files_info_loop_internal [OF *(3), of e backing ext _ _ "[]"] using *(1,2)
      files_info_loop_internal [OF *(3), of e backing ext _ _ "[]"]
    by simp
qed (rule FilesInfo_parse_scans)

theorem scan_files_info_sound_witness:
  "FilesInfo_parse_with_external nom_reference 117 example_files \<lparr>b_ptr = 100, b_data = example_files\<rparr> [] =
     Ok ([], example_files_info) \<and>
   (\<exists>b. scan_files_info_with_external nom_reference example_files = Ok ([], 2, b))"
proof -
  have "num_files example_files_info = 2" by (simp add: example_files_info_def)
  then show ?thesis
    using scan_files_info_sound [of nom_reference 117 example_files "\<lparr>b_ptr = 100, b_data = example_files\<rparr>" "[]"]
      example_files_parses by fastforce
qed

end
