(* ===== verification/Scanner_Laws.thy ===== *)
theory Scanner_Laws
  imports Files_Table
begin

text \<open>
  What the header scanner relies on when it cuts a section out of the header: each scanner
  is a parser in the sense of the prelude (its verdict depends only on the
  bytes it consumed), and a section that scans without external data scans in the same way
  when external data are supplied.
\<close>

section \<open>Tag loops are parsers\<close>

text \<open>
  One round of a tag loop either goes on with a new loop state, \<open>Inl\<close>, or is done, \<open>Inr\<close>.
  If every round is a parser and makes progress, the loop is a parser.
\<close>

lemma parser_loop:
  assumes eq: "\<And>s i. L s i = and_then (step s i) (\<lambda>(j, v). case v of Inl s' \<Rightarrow> L s' j | Inr x \<Rightarrow> Ok (j, x))"
    and step: "\<And>s. parser (step s)"
    and progress: "\<And>s i j s'. step s i = Ok (j, Inl s') \<Longrightarrow> length j < length i"
  shows "parser (L s)"
proof (rule parserI)
  fix i r x
  assume "L s i = Ok (r, x)"
  then show "\<exists>pre. i = pre @ r \<and> (\<forall>r'. L s (pre @ r') = Ok (r', x))"
  proof (induction i arbitrary: s rule: measure_induct_rule [of length])
    case (less i)
    from less.prems obtain j v where sj: "step s i = Ok (j, v)"
      and rest: "(case v of Inl s' \<Rightarrow> L s' j | Inr x \<Rightarrow> Ok (j, x)) = Ok (r, x)"
      using eq [of s i] by auto
    from parserE [OF step sj] obtain a where a: "i = a @ j" "\<And>r'. step s (a @ r') = Ok (r', v)"
      by metis
    show ?case
    proof (cases v)
      case (Inl s')
      then obtain b where "j = b @ r" "\<forall>r'. L s' (b @ r') = Ok (r', x)"
        using less.IH [of j s'] progress [of s i j s'] sj rest by auto
      then show ?thesis
        using a Inl eq [of s] by (intro exI [of _ "a @ b"]) simp
    next
      case (Inr y)
      then show ?thesis
        using a rest eq [of s] by (intro exI [of _ a]) simp
    qed
  qed
qed

lemmas round_eqs = and_then_assoc prod.case_distrib [of "\<lambda>m. and_then m _"] if_distrib [of "\<lambda>m. and_then m _"]

lemma check_substream_digest_limit_parser [parser_laws]:
  assumes "parser p"
  shows "parser (\<lambda>i. and_then (check_substream_digest_limit i n) (\<lambda>_. p i))"
  by (rule parser_check) (auto simp: input_free_def check_substream_digest_limit_def assms split: if_splits)

lemma parser_skip:
  assumes "parser p"
  shows "parser (skip_p p n)"
proof -
  have "parser (\<lambda>i. and_then (repeat_p p n i) (\<lambda>(r, xs). Ok (r, ())))"
    by (rule parser_bind [OF parser.parser_repeat [OF assms]]) (rule parser_return)
  then show ?thesis by (simp add: skip_p_eq_repeat_p [abs_def])
qed

lemmas varuint_skip_parser [parser_laws] = parser_skip [OF varuint_parser]

lemma scan_pack_info_loop_parser [parser_laws]: "parser (scan_pack_info_loop N n)"
proof -
  let ?step = "\<lambda>(s :: unit) i. and_then (Property_parse i) (\<lambda>(i, tag).
       if tag = P_END then Ok (i, Inr ())
       else if tag = P_CRC then and_then (scan_digests N i n) (\<lambda>(i, _). Ok (i, Inl ()))
       else and_then (skip_section N i) (\<lambda>(i, _). Ok (i, Inl ())))"
  show ?thesis
  proof (rule parser_loop [of "\<lambda>_. scan_pack_info_loop N n" ?step])
    show "scan_pack_info_loop N n i = and_then (?step s i)
        (\<lambda>(j, v). case v of Inl s' \<Rightarrow> scan_pack_info_loop N n j | Inr x \<Rightarrow> Ok (j, x))" for s i
      unfolding scan_pack_info_loop.simps [of N n i] by (auto simp: round_eqs intro!: and_then_cong)
  qed ((intro parser_laws), auto split: if_splits dest!: section_shrinks)
qed


lemma scan_pack_info_parser [parser_laws]: "parser (scan_pack_info N)"
  unfolding scan_pack_info_def by (intro parser_laws pack_info_prefix_parser)

lemma scan_unpack_info_loop_parser [parser_laws]: "parser (scan_unpack_info_loop N n k)"
proof -
  let ?step = "\<lambda>(s :: unit) i. and_then (Property_parse i) (\<lambda>(i, tag).
       if tag = P_END then Ok (i, Inr ())
       else if tag = P_CodersUnPackSize then
         and_then (skip_p sevenzip_varuint64_decode k i) (\<lambda>(i, _). Ok (i, Inl ()))
       else if tag = P_CRC then and_then (scan_digests N i n) (\<lambda>(i, _). Ok (i, Inl ()))
       else and_then (skip_section N i) (\<lambda>(i, _). Ok (i, Inl ())))"
  show ?thesis
  proof (rule parser_loop [of "\<lambda>_. scan_unpack_info_loop N n k" ?step])
    show "scan_unpack_info_loop N n k i = and_then (?step s i)
        (\<lambda>(j, v). case v of Inl s' \<Rightarrow> scan_unpack_info_loop N n k j | Inr x \<Rightarrow> Ok (j, x))" for s i
      unfolding scan_unpack_info_loop.simps [of N n k i] by (auto simp: round_eqs intro!: and_then_cong)
  qed ((intro parser_laws), auto split: if_splits dest!: section_shrinks)
qed

lemma folder_blocks_loop_local:
  assumes "folder_blocks_loop N data n fs s None = Ok (r, t, x)"
  shows "\<exists>pre. fs = pre @ r \<and>
    (\<forall>data' r'. folder_blocks_loop N data' n (pre @ r') s None = Ok (r', t, None))"
  using assms
proof (induction n arbitrary: fs s)
  case (Suc n)
  then obtain fs1 f where f: "Folder_parse N fs = Ok (fs1, f)" and s1: "s + total_out_streams f < usize_limit"
    and rec: "folder_blocks_loop N data n fs1 (s + total_out_streams f) None = Ok (r, t, x)"
    by (auto simp: push_offset_def scan_folder_eq)
  from parserE [OF Folder_parser f] obtain a where a: "fs = a @ fs1" "\<And>r'. Folder_parse N (a @ r') = Ok (r', f)"
    by metis
  from Suc.IH [OF rec] obtain b where "fs1 = b @ r"
    "\<forall>data' r'. folder_blocks_loop N data' n (b @ r') (s + total_out_streams f) None = Ok (r', t, None)"
    by blast
  then show ?case
    using a s1 by (intro exI [of _ "a @ b"]) (simp add: push_offset_def scan_folder_eq)
qed (auto simp: push_offset_def)

lemma scan_folder_blocks_local:
  assumes "scan_folder_blocks N i count None = Ok (consumed, t, x)"
  shows "\<exists>pre r. i = pre @ r \<and> consumed = length pre \<and>
    (\<forall>r'. scan_folder_blocks N (pre @ r') count None = Ok (consumed, t, None))"
proof -
  obtain r y where loop: "folder_blocks_loop N i (unat count) i 0 None = Ok (r, t, y)"
    and c: "consumed = length i - length r"
    using assms by (auto simp: scan_folder_blocks_def Let_def)
  from folder_blocks_loop_local [OF loop] obtain pre where pre: "i = pre @ r"
    "\<forall>data' r'. folder_blocks_loop N data' (unat count) (pre @ r') 0 None = Ok (r', t, None)" by blast
  then have "scan_folder_blocks N (pre @ r') count None = Ok (length pre, t, None)" for r'
    by (simp add: scan_folder_blocks_def push_offset_def)
  then show ?thesis using pre(1) c by auto
qed

text \<open>From the folder blocks on: inline blocks are read from the input, external ones are not.\<close>

definition scan_unpack_rest :: "nom \<Rightarrow> u64 \<Rightarrow> FolderLocation \<Rightarrow> Bytes list \<Rightarrow> bytes \<Rightarrow> nat iresult" where
  "scan_unpack_rest N nf location ext input =
     and_then (FolderSource_resolve input location ext) (\<lambda>(input, source).
     and_then (map_err (Failure input) (scan_folder_blocks N (source_bytes source) nf None))
       (\<lambda>(consumed, sum_out, _).
     and_then (remaining_header source input consumed) (\<lambda>input.
     and_then (ok_or (Error input TooLarge) (usize_try_from nf)) (\<lambda>nf.
     and_then (scan_unpack_info_loop N nf sum_out input) (\<lambda>(input, _). Ok (input, nf))))))"

lemma scan_unpack_rest_parser: "parser (scan_unpack_rest N nf location ext)"
proof (rule parserI)
  fix i r x
  assume run: "scan_unpack_rest N nf location ext i = Ok (r, x)"
  then obtain j src consumed t y k where src: "FolderSource_resolve i location ext = Ok (j, src)"
    and scan: "scan_folder_blocks N (source_bytes src) nf None = Ok (consumed, t, y)"
    and rem: "remaining_header src j consumed = Ok k"
    and loop: "scan_unpack_info_loop N (unat nf) t k = Ok (r, ())" and x: "x = unat nf"
    by (auto simp: scan_unpack_rest_def)
  from parserE [OF scan_unpack_info_loop_parser loop] obtain b where b: "k = b @ r"
    "\<And>r'. scan_unpack_info_loop N (unat nf) t (b @ r') = Ok (r', ())" by metis
  show "\<exists>pre. i = pre @ r \<and> (\<forall>r'. scan_unpack_rest N nf location ext (pre @ r') = Ok (r', x))"
  proof (cases location)
    case Inline
    then have *: "j = i" "src = SrcInline i" using src by (auto simp: FolderSource_resolve_def)
    then have "scan_folder_blocks N i nf None = Ok (consumed, t, y)" using scan by simp
    from scan_folder_blocks_local [OF this] obtain a q where a: "i = a @ q" "consumed = length a"
      "\<And>r'. scan_folder_blocks N (a @ r') nf None = Ok (consumed, t, None)" by blast
    have "k = q" using rem * a by (simp add: get_from_def)
    then show ?thesis
      using a b x Inline
      by (intro exI [of _ "a @ b"]) (simp add: scan_unpack_rest_def FolderSource_resolve_def get_from_def)
  next
    case (External n)
    then show ?thesis
      using src scan rem b x
      by (intro exI [of _ b]) (auto simp: scan_unpack_rest_def FolderSource_resolve_def)
  qed
qed

lemma scan_unpack_info_parser [parser_laws]: "parser (\<lambda>i. scan_unpack_info_with_external N i ext)"
proof -
  have "parser (\<lambda>i. and_then (parse_folder_declaration N i) (\<lambda>(i, nf, location). scan_unpack_rest N nf location ext i))"
    by (intro parser_laws parse_folder_declaration_parser scan_unpack_rest_parser)
  then show ?thesis by (simp add: scan_unpack_info_with_external_def [abs_def] scan_unpack_rest_def)
qed


lemma scan_num_unpack_streams_parser [parser_laws]: "parser (\<lambda>i. scan_num_unpack_streams n i s t)"
proof (induction n arbitrary: s t)
  case 0
  show ?case by (rule parserI) auto
next
  case (Suc n)
  have "parser (\<lambda>i. and_then (sevenzip_varuint64_decode i) (\<lambda>(j, c).
      and_then (ok_or (Error i TooLarge) (usize_try_from c)) (\<lambda>nu.
      and_then (ok_or (Error i TooLarge) (usize_checked_add s (nu - 1))) (\<lambda>s'.
      and_then (ok_or (Error i TooLarge) (usize_checked_add t nu)) (\<lambda>t'.
        scan_num_unpack_streams n j s' t')))))"
    by (rule parser_bind_orig) (auto intro!: parser_laws Suc simp del: usize_checked_add_eq_Some)
  then show ?case by simp
qed

text \<open>The sizes of a substream block take at least a byte each, so the check passes again.\<close>

lemma sizes_parser [parser_laws]:
  "parser (\<lambda>i. if n > length i then Err (e i) else skip_p sevenzip_varuint64_decode n i)"
proof (rule parserI)
  fix i r x
  assume "(if n > length i then Err (e i) else skip_p sevenzip_varuint64_decode n i) = Ok (r, x)"
  then have skip: "skip_p sevenzip_varuint64_decode n i = Ok (r, x)" by (simp split: if_splits)
  then obtain xs where rep: "repeat_p sevenzip_varuint64_decode n i = Ok (r, xs)"
    by (cases x) (auto simp: skip_p_iff_repeat_p)
  have "n + length r \<le> length i" by (rule varuint.repeat_consumes [OF rep])
  moreover from parserE [OF varuint_skip_parser skip] obtain a where a: "i = a @ r"
    "\<And>r'. skip_p sevenzip_varuint64_decode n (a @ r') = Ok (r', x)" by metis
  ultimately show "\<exists>pre. i = pre @ r \<and> (\<forall>r'. (if n > length (pre @ r') then Err (e (pre @ r'))
      else skip_p sevenzip_varuint64_decode n (pre @ r')) = Ok (r', x))"
    by (intro exI [of _ a]) simp
qed

lemma scan_substream_info_loop_parser: "parser (\<lambda>i. scan_substream_info_loop N nf i s t)"
proof -
  let ?step = "\<lambda>(s, t) i. and_then (Property_parse i) (\<lambda>(i, tag).
       if tag = P_END then Ok (i, Inr ())
       else if tag = P_NumUnPackStream then
         and_then (scan_num_unpack_streams nf i 0 0) (\<lambda>(i, s, t). Ok (i, Inl (s, t)))
       else if tag = P_Size then
         and_then (if s > length i then Err (Error i Eof) else skip_p sevenzip_varuint64_decode s i) (\<lambda>(i, _). Ok (i, Inl (s, t)))
       else if tag = P_CRC then
         and_then (check_substream_digest_limit i t) (\<lambda>_.
         and_then (scan_digests N i t) (\<lambda>(i, _). Ok (i, Inl (s, t))))
       else and_then (skip_section N i) (\<lambda>(i, _). Ok (i, Inl (s, t))))"
  have "parser ((\<lambda>(s, t) i. scan_substream_info_loop N nf i s t) (s, t))"
  proof (rule parser_loop [where step = ?step])
    show "(case st of (s, t) \<Rightarrow> \<lambda>i. scan_substream_info_loop N nf i s t) i = and_then (?step st i)
        (\<lambda>(j, v). case v of Inl s' \<Rightarrow> (case s' of (s, t) \<Rightarrow> \<lambda>i. scan_substream_info_loop N nf i s t) j
                          | Inr x \<Rightarrow> Ok (j, x))" for st i
      by (cases st) (auto simp: scan_substream_info_loop.simps [of N nf i] round_eqs intro!: and_then_cong)
    show "parser (?step st)" for st
      by (cases st) (simp only: prod.case, intro parser_laws)
  qed (auto split: if_splits dest!: section_shrinks scan_num_shrink)
  then show ?thesis by simp
qed

lemma scan_substream_info_parser [parser_laws]: "parser (\<lambda>i. scan_substream_info N i nf)"
  unfolding scan_substream_info_def Let_def
proof (rule parser_bind_orig)
  show "parser Property_parse" by (rule Property_parser)
qed (intro parser_laws scan_substream_info_loop_parser, erule if_Err_cong)

text \<open>
  The stream loop looks at the tag and then gives the block parser the input with the tag
  still in front. The tag is one byte and every block parser consumes at least that byte.
\<close>

lemma parser_reparse:
  assumes p: "\<And>tag. parser (p tag)" and q: "\<And>tag. parser (q tag)"
    and progress: "\<And>tag i r x. p tag i = Ok (r, x) \<Longrightarrow> length r < length i"
  shows "parser (\<lambda>i. and_then (Property_parse i) (\<lambda>(j, tag). if B tag then p tag i else q tag j))"
proof (rule parserI)
  fix i r x
  assume "and_then (Property_parse i) (\<lambda>(j, tag). if B tag then p tag i else q tag j) = Ok (r, x)"
  then obtain j tag where t: "Property_parse i = Ok (j, tag)"
    and run: "(if B tag then p tag i else q tag j) = Ok (r, x)" by auto
  from parserE [OF Property_parser t] obtain a where a: "i = a @ j"
    "\<And>r'. Property_parse (a @ r') = Ok (r', tag)" by metis
  have one: "length a = 1" using t a(1) by (simp add: Property_parse_eq_Ok)
  show "\<exists>pre. i = pre @ r \<and> (\<forall>r'. and_then (Property_parse (pre @ r'))
      (\<lambda>(j, tag). if B tag then p tag (pre @ r') else q tag j) = Ok (r', x))"
  proof (cases "B tag")
    case True
    then have run: "p tag i = Ok (r, x)" using run by simp
    from parserE [OF p run] obtain b where b: "i = b @ r" "\<And>r'. p tag (b @ r') = Ok (r', x)" by metis
    have "b \<noteq> []" using progress [OF run] b(1) by auto
    then obtain b' where "b = a @ b'"
      using one a(1) b(1) by (cases a; cases b) auto
    then show ?thesis using b a(2) True by (intro exI [of _ b]) simp
  next
    case False
    then obtain b where "j = b @ r" "\<And>r'. q tag (b @ r') = Ok (r', x)"
      using run parserE [OF q] by (metis (full_types))
    then show ?thesis using a False by (intro exI [of _ "a @ b"]) simp
  qed
qed

lemma scan_stream_info_loop_parser: "parser (\<lambda>i. scan_stream_info_loop N ext i nf)"
proof -
  let ?L = "\<lambda>nf i. scan_stream_info_loop N ext i nf"
  let ?blocks = "\<lambda>nf tag i.
       if tag = P_PackInfo then and_then (scan_pack_info N i) (\<lambda>(i, _). Ok (i, Inl nf))
       else if tag = P_UnPackInfo then
         and_then (scan_unpack_info_with_external N i ext) (\<lambda>(i, nf). Ok (i, Inl nf))
       else and_then (scan_substream_info N i nf) (\<lambda>(i, _). Ok (i, Inl nf))"
  let ?others = "\<lambda>nf tag j. if tag = P_END then Ok (j, Inr ())
       else and_then (skip_section N j) (\<lambda>(i, _). Ok (i, Inl nf))"
  let ?step = "\<lambda>nf i. and_then (Property_parse i) (\<lambda>(j, tag).
       if tag \<in> {P_PackInfo, P_UnPackInfo, P_SubStreamsInfo} then ?blocks nf tag i else ?others nf tag j)"
  show ?thesis
  proof (rule parser_loop [of ?L ?step])
    show "?L nf i = and_then (?step nf i) (\<lambda>(j, v). case v of Inl nf \<Rightarrow> ?L nf j | Inr x \<Rightarrow> Ok (j, x))" for nf i
      unfolding scan_stream_info_loop.simps [of N ext i] by (auto simp: round_eqs intro!: and_then_cong)
    show "parser (?step nf)" for nf
    proof (rule parser_reparse)
      show "parser (?blocks nf tag)" for tag by (intro parser_laws)
      show "parser (?others nf tag)" for tag by (intro parser_laws)
    qed (auto split: if_splits dest!: block_shrinks)
  qed (auto split: if_splits dest!: block_shrinks)
qed

lemma scan_stream_info_parser [parser_laws]: "parser (\<lambda>i. scan_stream_info_with_external N i ext)"
  unfolding scan_stream_info_with_external_def by (rule scan_stream_info_loop_parser)

lemma scan_files_info_loop_parser [parser_laws]: "parser (\<lambda>i. scan_files_info_loop N n i b)"
proof -
  let ?L = "\<lambda>b i. scan_files_info_loop N n i b"
  let ?step = "\<lambda>b i. and_then (Property_parse i) (\<lambda>(i, tag).
       if tag = P_END then Ok (i, Inr b)
       else and_then (sevenzip_varuint64_decode i) (\<lambda>(j, size).
         and_then (ok_or (Error i TooLarge) (usize_try_from size)) (\<lambda>sz.
         and_then (nom_take N sz j) (\<lambda>(j, blk). Ok (j, Inl
           (b \<or> (case external_flag tag blk n of None \<Rightarrow> False | Some flag \<Rightarrow> flag \<noteq> 0)))))))"
  show ?thesis
  proof (rule parser_loop [of ?L ?step])
    show "?L b i = and_then (?step b i) (\<lambda>(j, v). case v of Inl b \<Rightarrow> ?L b j | Inr x \<Rightarrow> Ok (j, x))" for b i
      unfolding scan_files_info_loop.simps [of N n i]
      by (auto simp: round_eqs simp del: nom_take_eq usize_try_from_total intro!: and_then_cong)
    have "parser (\<lambda>i. and_then (sevenzip_varuint64_decode i) (\<lambda>(j, size).
         and_then (ok_or (Error i TooLarge) (usize_try_from size)) (\<lambda>sz.
         and_then (nom_take N sz j) (\<lambda>(j, blk). Ok (j, Inl (f blk))))))" for f
      by (rule parser_bind_orig) (auto intro!: parser_laws simp del: nom_take_eq)
    then show "parser (?step b)" for b by (intro parser_laws)
  qed (auto split: if_splits dest!: Property_progress varuint_progress)
qed

lemma scan_files_info_parser [parser_laws]: "parser (scan_files_info_with_external N)"
proof -
  have "parser (\<lambda>i. and_then (sevenzip_varuint64_decode i) (\<lambda>(i, nf).
      and_then (ok_or (Error i TooLarge) (usize_try_from nf)) (\<lambda>n.
      and_then (scan_files_info_loop N n i False) (\<lambda>(i, ext). Ok (i, nf, ext)))))"
    by (intro parser_laws)
  then have "parser (\<lambda>i. and_then (Property_parse i) (\<lambda>(j, tag).
      if tag \<noteq> P_FilesInfo then Err (Failure i Satisfy)
      else and_then (sevenzip_varuint64_decode j) (\<lambda>(i, nf).
        and_then (ok_or (Error i TooLarge) (usize_try_from nf)) (\<lambda>n.
        and_then (scan_files_info_loop N n i False) (\<lambda>(i, ext). Ok (i, nf, ext))))))"
    by (intro parser_bind_orig [OF Property_parser] parser_if parser_fail) (auto split: if_splits)
  then show ?thesis by (simp add: scan_files_info_with_external_def [abs_def] Let_def)
qed


section \<open>External data do not change what scans without them\<close>

lemma scan_unpack_internal:
  assumes "scan_unpack_info_with_external N i [] = Ok y"
  shows "scan_unpack_info_with_external N i ext = Ok y"
  using assms by (cases y)
    (fastforce simp: scan_unpack_info_with_external_def FolderSource_resolve_def split: FolderLocation.splits)

lemma scan_stream_info_loop_internal:
  "scan_stream_info_loop N [] i nf = Ok y \<Longrightarrow> scan_stream_info_loop N ext i nf = Ok y"
proof (induction i arbitrary: nf rule: measure_induct_rule [of length])
  case (less i)
  have IH: "scan_stream_info_loop N [] r k = Ok y \<Longrightarrow> length r < length i \<Longrightarrow> scan_stream_info_loop N ext r k = Ok y" for r k
    by (rule less.IH)
  from less.prems obtain j tag where tag: "Property_parse i = Ok (j, tag)"
    by (subst (asm) scan_stream_info_loop.simps) auto
  from less.prems show ?case
    unfolding scan_stream_info_loop.simps [of N _ i]
    using Property_progress [OF tag]
    by (auto simp: tag split: if_splits intro!: IH scan_unpack_internal [of _ _ _ ext]
        dest: scan_pack_info_shrink scan_unpack_info_shrink scan_substream_info_shrink order.strict_trans [OF skip_section_shrink])
qed

lemma scan_stream_info_internal:
  "scan_stream_info_with_external N i [] = Ok y \<Longrightarrow> scan_stream_info_with_external N i ext = Ok y"
  unfolding scan_stream_info_with_external_def by (rule scan_stream_info_loop_internal)

end
