(* ===== verification/Headers.thy ===== *)
theory Headers
  imports Scanner_Laws
begin

text \<open>
  \<^verbatim>\<open>src/src/headers.rs\<close>: the archive header. It is validated once by a scan that keeps
  only the byte ranges of its sections; the sections are parsed when first asked for. A scan
  that meets metadata stored in additional streams is suspended and resumed with the decoded
  streams.
\<close>

section \<open>Archive properties and the encoded header\<close>

function scan_archive_properties :: "nom \<Rightarrow> bytes \<Rightarrow> unit iresult" where
  "scan_archive_properties N input =
     and_then (sevenzip_varuint64_decode input) (\<lambda>(input, property_id).
       if property_id = ucast (Property_code P_END) then Ok (input, ())
       else
         and_then (skip_section N input) (\<lambda>(i, _). scan_archive_properties N i))"
  by pat_completeness auto
termination
  by (relation "measure (\<lambda>(N, input). length input)")
     (auto dest!: varuint_progress skip_section_shrink)

declare scan_archive_properties.simps [simp del]

record EncodedHeader =
  eh_pack_info :: PackInfo
  eh_unpack_info :: UnpackInfo

definition EncodedHeader_parse :: "nom \<Rightarrow> nat \<Rightarrow> bytes \<Rightarrow> Bytes \<Rightarrow> EncodedHeader iresult" where
  "EncodedHeader_parse N end_addr input backing =
     and_then (PackInfo_parse N input) (\<lambda>(input, pack).
     and_then (UnpackInfo_parse N end_addr input backing) (\<lambda>(input, unpack).
       Ok (input, \<lparr>eh_pack_info = pack, eh_unpack_info = unpack\<rparr>)))"

datatype NextHeader = Plain | Encoded EncodedHeader

definition NextHeader_parse :: "nom \<Rightarrow> Bytes \<Rightarrow> NextHeader r7z_result" where
  "NextHeader_parse N backing =
     and_then (map_err (\<lambda>_. Parse) (Property_parse (b_data backing))) (\<lambda>(input, tag).
       if tag = P_Header then Ok Plain
       else if tag = P_EncodedHeader then
         and_then (map_err (\<lambda>_. Parse) (EncodedHeader_parse N (b_end backing) input backing))
           (\<lambda>(_, encoded). Ok (Encoded encoded))
       else Err Parse)"


section \<open>The scan and its states\<close>

type_synonym u32_range = "u32 \<times> u32"

record HeaderScan =
  hs_data :: Bytes
  hs_position :: nat
  hs_streams_info_range :: "u32_range option"
  hs_files_info_range :: "u32_range option"
  hs_additional_streams_range :: "u32_range option"
  hs_num_files :: u64

text \<open>
  The three cells that memoise the parsed sections are filled by a function of the other
  fields and never reset, so they are left out of the record.
\<close>

record Header =
  h_data :: Bytes
  streams_info_range :: "u32_range option"
  files_info_range :: "u32_range option"
  additional_streams_range :: "u32_range option"
  external_folder_data :: "Bytes list"
  h_num_files :: u64

record PendingHeader =
  pending_scan :: HeaderScan
  pending_additional :: StreamInfo

datatype HeaderProgress = Complete Header nat | Pending PendingHeader

datatype HeaderResolution = HeaderComplete Header | RequiresExternalFolders PendingHeader

definition complete_exact :: "HeaderProgress \<Rightarrow> Header r7z_result" where
  "complete_exact self =
     (case self of
        Complete header consumed \<Rightarrow>
          if consumed = length (b_data (h_data header)) then Ok header else Err Parse
      | Pending _ \<Rightarrow> Err Parse)"

definition into_resolution :: "HeaderProgress \<Rightarrow> HeaderResolution r7z_result" where
  "into_resolution self =
     (case self of
        Pending pending \<Rightarrow> Ok (RequiresExternalFolders pending)
      | complete \<Rightarrow> and_then (complete_exact complete) (\<lambda>header. Ok (HeaderComplete header)))"

definition HeaderScan_new :: "Bytes \<Rightarrow> HeaderScan r7z_result" where
  "HeaderScan_new data =
     and_then (map_err (\<lambda>_. Parse) (Property_parse (b_data data))) (\<lambda>(remaining, tag).
       if tag = P_Header then
         Ok \<lparr>hs_data = data, hs_position = length (b_data data) - length remaining,
             hs_streams_info_range = None, hs_files_info_range = None,
             hs_additional_streams_range = None, hs_num_files = 0\<rparr>
       else Err Parse)"

definition byte_range_of :: "Bytes \<Rightarrow> bytes \<Rightarrow> bytes \<Rightarrow> u32_range r7z_result" where
  "byte_range_of backing before after =
     and_then (ok_or Parse (u32_try_from_usize (length (b_data backing) - length before))) (\<lambda>start.
     and_then (ok_or Parse (u32_try_from_usize (length (b_data backing) - length after))) (\<lambda>end.
       Ok (start, end)))"

text \<open>Suspending: the additional streams must have been scanned already, and are parsed.\<close>

definition suspend :: "nom \<Rightarrow> HeaderScan \<Rightarrow> HeaderProgress r7z_result" where
  "suspend N self =
     (let backing = hs_data self in
      and_then (ok_or Parse (hs_additional_streams_range self)) (\<lambda>(start, end).
      and_then (ok_or Parse (get_range (b_data backing) (unat start) (unat end))) (\<lambda>bytes.
      and_then (map_err (\<lambda>_. Parse) (StreamInfo_parse N (b_ptr backing + unat end) bytes backing))
        (\<lambda>(rest, additional).
        if rest = [] then Ok (Pending \<lparr>pending_scan = self, pending_additional = additional\<rparr>)
        else Err Parse))))"

definition finish_scan :: "HeaderScan \<Rightarrow> Bytes list option \<Rightarrow> bytes \<Rightarrow> HeaderProgress" where
  "finish_scan self ext after_tag =
     Complete
       \<lparr>h_data = hs_data self, streams_info_range = hs_streams_info_range self,
        files_info_range = hs_files_info_range self,
        additional_streams_range = hs_additional_streams_range self,
        external_folder_data = (case ext of None \<Rightarrow> [] | Some ds \<Rightarrow> ds),
        h_num_files = hs_num_files self\<rparr>
       (length (b_data (hs_data self)) - length after_tag)"


text \<open>One of the two streams sections: it is scanned, and its range is recorded.\<close>

definition streams_section :: "nom \<Rightarrow> Bytes list \<Rightarrow> HeaderScan \<Rightarrow> Property \<Rightarrow> bytes \<Rightarrow>
    (bytes \<times> HeaderScan) r7z_result" where
  "streams_section N definitions self tag after_tag =
     and_then (map_err (\<lambda>_. Parse) (scan_stream_info_with_external N after_tag definitions)) (\<lambda>(remaining, _).
     and_then (byte_range_of (hs_data self) after_tag remaining) (\<lambda>rng.
       Ok (remaining,
         if tag = P_MainStreamsInfo then self\<lparr>hs_streams_info_range := Some rng\<rparr>
         else self\<lparr>hs_additional_streams_range := Some rng\<rparr>)))"

text \<open>
  One round of the loop of \<open>HeaderScan::advance\<close>: \<open>Inl\<close> is the next input with the new
  state, \<open>Inr\<close> the value the loop returns.
\<close>

definition header_round :: "nom \<Rightarrow> Bytes list option \<Rightarrow> HeaderScan \<Rightarrow> bytes \<Rightarrow>
    ((bytes \<times> HeaderScan) + HeaderProgress) r7z_result" where
  "header_round N ext self input =
     (let definitions = (case ext of None \<Rightarrow> [] | Some ds \<Rightarrow> ds) in
      and_then (map_err (\<lambda>_. Parse) (Property_parse input)) (\<lambda>(after_tag, tag).
        if tag = P_END then Ok (Inr (finish_scan self ext after_tag))
        else if tag = P_MainStreamsInfo \<or> tag = P_AdditionalStreamsInfo then
          and_then (if tag = P_MainStreamsInfo \<and> ext = None
                    then map_err (\<lambda>_. Parse) (uses_external_folder_data N after_tag)
                    else Ok (after_tag, False)) (\<lambda>(_, uses_external_data).
            if uses_external_data then and_then (suspend N self) (\<lambda>p. Ok (Inr p))
            else and_then (streams_section N definitions self tag after_tag) (\<lambda>s. Ok (Inl s)))
        else if tag = P_FilesInfo then
          and_then (map_err (\<lambda>_. Parse) (scan_files_info_with_external N input))
            (\<lambda>(remaining, count, uses_external_data).
            if ext = None \<and> uses_external_data then and_then (suspend N self) (\<lambda>p. Ok (Inr p))
            else
              and_then (byte_range_of (hs_data self) input remaining) (\<lambda>rng.
                Ok (Inl (remaining, self\<lparr>hs_files_info_range := Some rng, hs_num_files := count\<rparr>))))
        else if tag = P_ArchiveProperties then
          and_then (map_err (\<lambda>_. Parse) (scan_archive_properties N after_tag)) (\<lambda>(remaining, _).
            Ok (Inl (remaining, self)))
        else
          and_then (map_err (\<lambda>_. Parse) (sevenzip_varuint64_decode after_tag)) (\<lambda>(remaining, size).
          and_then (ok_or Parse (usize_try_from size)) (\<lambda>size.
          and_then (ok_or Parse (get_from remaining size)) (\<lambda>input. Ok (Inl (input, self)))))))"

lemma scan_archive_properties_shrink: "scan_archive_properties N i = Ok (r, ()) \<Longrightarrow> length r < length i"
proof (induction i rule: measure_induct_rule [of length])
  case (less i)
  from less.prems show ?case
    by (subst (asm) scan_archive_properties.simps)
       (auto split: if_splits dest!: varuint_progress skip_section_shrink, (fastforce dest: less.IH [rotated])+)
qed

lemma scan_files_info_shrink:
  assumes "scan_files_info_with_external N i = Ok (r, x)"
  shows "length r < length i"
  using assms unfolding scan_files_info_with_external_def Let_def
  by (auto split: if_splits dest!: Property_progress varuint_progress
      parser.shrink [OF scan_files_info_loop_parser])

lemma header_round_progress: "header_round N ext self i = Ok (Inl (j, s)) \<Longrightarrow> length j < length i"
  by (auto simp: header_round_def Let_def streams_section_def get_from_def split: if_splits
      dest!: Property_progress parser.shrink [OF scan_stream_info_parser] scan_files_info_shrink
        scan_archive_properties_shrink varuint_progress)

function header_loop :: "nom \<Rightarrow> Bytes list option \<Rightarrow> HeaderScan \<Rightarrow> bytes \<Rightarrow> HeaderProgress r7z_result" where
  "header_loop N ext self input =
     and_then (header_round N ext self input) (\<lambda>next.
       case next of
         Inr progress \<Rightarrow> Ok progress
       | Inl (input, self) \<Rightarrow>
           header_loop N ext (self\<lparr>hs_position := length (b_data (hs_data self)) - length input\<rparr>) input)"
  by pat_completeness auto
termination
  by (relation "measure (\<lambda>(N, ext, self, input). length input)") (auto dest: header_round_progress)

declare header_loop.simps [simp del]

definition HeaderScan_advance :: "nom \<Rightarrow> HeaderScan \<Rightarrow> Bytes list option \<Rightarrow> HeaderProgress r7z_result" where
  "HeaderScan_advance N self ext =
     and_then (ok_or Parse (get_from (b_data (hs_data self)) (hs_position self))) (\<lambda>input.
       header_loop N ext self input)"

text \<open>\<open>PendingHeader::resolve_with\<close>; \<open>decode\<close> decodes and verifies the additional streams.\<close>

definition resolve_with :: "nom \<Rightarrow> PendingHeader \<Rightarrow> (StreamInfo \<Rightarrow> Bytes list r7z_result) \<Rightarrow> Header r7z_result" where
  "resolve_with N self decode =
     and_then (decode (pending_additional self)) (\<lambda>ext.
     and_then (HeaderScan_advance N (pending_scan self) (Some ext)) complete_exact)"

definition resolve_archive :: "nom \<Rightarrow> Bytes \<Rightarrow> HeaderResolution r7z_result" where
  "resolve_archive N backing =
     and_then (HeaderScan_new backing) (\<lambda>scan.
     and_then (HeaderScan_advance N scan None) into_resolution)"

definition header_parse_ext :: "nom \<Rightarrow> Bytes \<Rightarrow> Bytes list option \<Rightarrow> Header iresult" where
  "header_parse_ext N backing ext =
     (case and_then (HeaderScan_new backing) (\<lambda>scan. HeaderScan_advance N scan ext) of
        Ok (Complete header consumed) \<Rightarrow> Ok (drop consumed (b_data backing), header)
      | _ \<Rightarrow> Err (Failure (b_data backing) Verify))"

definition Header_parse :: "nom \<Rightarrow> Bytes \<Rightarrow> Header iresult" where
  "Header_parse N backing = header_parse_ext N backing None"

definition Header_parse_with_external :: "nom \<Rightarrow> Bytes \<Rightarrow> Bytes list \<Rightarrow> Header iresult" where
  "Header_parse_with_external N backing external_data = header_parse_ext N backing (Some external_data)"


section \<open>Sections on demand\<close>

text \<open>
  The three accessors share their shape: no range means no section; else the slice is
  parsed, and has to be used up. The parser also gets the address where the slice ends.
\<close>

definition lazy_section :: "Bytes \<Rightarrow> u32_range option \<Rightarrow> (nat \<Rightarrow> bytes \<Rightarrow> 'a iresult) \<Rightarrow> ('a \<Rightarrow> bool) \<Rightarrow>
    'a option r7z_result" where
  "lazy_section data rng parse keep =
     (case rng of
        None \<Rightarrow> Ok None
      | Some (start, end) \<Rightarrow>
          and_then (ok_or Parse (get_range (b_data data) (unat start) (unat end))) (\<lambda>sl.
          and_then (map_err (\<lambda>_. Parse) (parse (b_ptr data + unat end) sl)) (\<lambda>(rest, v).
            if rest = [] \<and> keep v then Ok (Some v) else Err Parse)))"

definition try_streams_info :: "nom \<Rightarrow> Header \<Rightarrow> StreamInfo option r7z_result" where
  "try_streams_info N self =
     lazy_section (h_data self) (streams_info_range self)
       (\<lambda>e sl. StreamInfo_parse_with_external N e sl (h_data self) (external_folder_data self)) (\<lambda>_. True)"

definition try_files_info :: "nom \<Rightarrow> Header \<Rightarrow> FilesInfo option r7z_result" where
  "try_files_info N self =
     lazy_section (h_data self) (files_info_range self)
       (\<lambda>e sl. FilesInfo_parse_with_external N e sl (h_data self) (external_folder_data self))
       (\<lambda>info. num_files info = h_num_files self)"

definition try_additional_streams_info :: "nom \<Rightarrow> Header \<Rightarrow> StreamInfo option r7z_result" where
  "try_additional_streams_info N self =
     lazy_section (h_data self) (additional_streams_range self)
       (\<lambda>e sl. StreamInfo_parse N e sl (h_data self)) (\<lambda>_. True)"

definition header_streams_info :: "nom \<Rightarrow> Header \<Rightarrow> StreamInfo option" where
  "header_streams_info N self = (case try_streams_info N self of Ok v \<Rightarrow> v | Err _ \<Rightarrow> None)"

definition header_files_info :: "nom \<Rightarrow> Header \<Rightarrow> FilesInfo option" where
  "header_files_info N self = (case try_files_info N self of Ok v \<Rightarrow> v | Err _ \<Rightarrow> None)"

definition additional_pack_info :: "nom \<Rightarrow> Header \<Rightarrow> PackInfo option r7z_result" where
  "additional_pack_info N self =
     and_then (try_additional_streams_info N self) (\<lambda>streams.
       Ok (Option.bind streams pack_info))"

end
