(* ===== verification/Header_Scan.thy ===== *)
theory Header_Scan
  imports Headers
begin

text \<open>
  What the header scan guarantees to the code that parses the sections later, and that suspending
  a scan changes nothing: an invariant of the scan state, its preservation by every
  round, and the comparison of a scan without and with external data.
\<close>

section \<open>The invariant\<close>

text \<open>A recorded range: in bounds, and what scans there ends where the range ends.\<close>

definition section_scans :: "Bytes \<Rightarrow> u32_range \<Rightarrow> (bytes \<Rightarrow> 'a iresult) \<Rightarrow> 'a \<Rightarrow> bool" where
  "section_scans data rng p x \<longleftrightarrow>
     unat (fst rng) \<le> unat (snd rng) \<and> unat (snd rng) \<le> length (b_data data) \<and>
     p (drop (unat (fst rng)) (b_data data)) = Ok (drop (unat (snd rng)) (b_data data), x)"

lemma byte_range_of_section:
  assumes "parser p" and "p i = Ok (j, x)" and "suffix i (b_data data)" and "byte_range_of data i j = Ok rng"
  shows "section_scans data rng p x"
proof -
  have "suffix j i" using parser_suffix [OF assms(1,2)] .
  then obtain a b where "b_data data = a @ i" "i = b @ j"
    using assms(3) by (auto simp: suffix_def)
  then show ?thesis
    using assms(2,4) by (auto simp: section_scans_def byte_range_of_def u32_try_from_usize_eq_Some)
qed

lemma section_cut:
  assumes "parser p" and "section_scans data rng p x"
  shows "\<exists>sl. get_range (b_data data) (unat (fst rng)) (unat (snd rng)) = Some sl \<and> p sl = Ok ([], x) \<and>
    length sl < 2 ^ 32 \<and> (length (b_data data) < usize_limit \<longrightarrow> in_buffer data (b_ptr data + unat (snd rng)) sl)"
proof -
  let ?s = "unat (fst rng)" and ?e = "unat (snd rng)" and ?d = "b_data data"
  let ?sl = "take (?e - ?s) (drop ?s ?d)"
  have le: "?s \<le> ?e" "?e \<le> length ?d" and run: "p (drop ?s ?d) = Ok (drop ?e ?d, x)"
    using assms(2) by (simp_all add: section_scans_def)
  have d: "?d = take ?s ?d @ ?sl @ drop ?e ?d"
    using le(1) by (metis append_take_drop_id drop_drop le_add_diff_inverse2)
  have "p ?sl = Ok ([], x)"
    using parser.cut [OF assms(1) run] le by simp
  moreover have "?e < 2 ^ 32" using unsigned_less [of "snd rng"] by simp
  then have "length ?sl < 2 ^ 32" by simp
  moreover have "in_buffer data (b_ptr data + ?e) ?sl" if "length ?d < usize_limit"
    unfolding in_buffer_def using d le that
    by (intro conjI exI [of _ "take ?s ?d"] exI [of _ "drop ?e ?d"]) simp_all
  ultimately show ?thesis using le by (simp add: get_range_def)
qed

text \<open>The three ranges, in terms of the fields a scan and a header have in common.\<close>

definition sections_ok :: "nom \<Rightarrow> Bytes list \<Rightarrow> Bytes \<Rightarrow> u32_range option \<Rightarrow> u32_range option \<Rightarrow>
    u32_range option \<Rightarrow> u64 \<Rightarrow> bool" where
  "sections_ok N ext data streams files additional count \<longleftrightarrow>
     (\<forall>rng. streams = Some rng \<longrightarrow> section_scans data rng (\<lambda>i. scan_stream_info_with_external N i ext) ()) \<and>
     (\<forall>rng. additional = Some rng \<longrightarrow> section_scans data rng (\<lambda>i. scan_stream_info_with_external N i ext) ()) \<and>
     (\<forall>rng. files = Some rng \<longrightarrow> (\<exists>b. section_scans data rng (scan_files_info_with_external N) (count, b)))"

definition scan_ok :: "nom \<Rightarrow> Bytes list \<Rightarrow> HeaderScan \<Rightarrow> bool" where
  "scan_ok N ext self \<longleftrightarrow> sections_ok N ext (hs_data self) (hs_streams_info_range self)
     (hs_files_info_range self) (hs_additional_streams_range self) (hs_num_files self)"

definition header_ok :: "nom \<Rightarrow> Header \<Rightarrow> bool" where
  "header_ok N h \<longleftrightarrow> sections_ok N (external_folder_data h) (h_data h) (streams_info_range h)
     (files_info_range h) (additional_streams_range h) (h_num_files h)"

abbreviation definitions_of :: "Bytes list option \<Rightarrow> Bytes list" where
  "definitions_of ext \<equiv> (case ext of None \<Rightarrow> [] | Some ds \<Rightarrow> ds)"

lemma streams_section_ok:
  assumes "streams_section N ds self tag i = Ok (j, s)" and "scan_ok N ds self" and "suffix i (b_data (hs_data self))"
  shows "scan_ok N ds s \<and> hs_data s = hs_data self \<and> suffix j (b_data (hs_data s))"
proof -
  from assms(1) obtain rng where scan: "scan_stream_info_with_external N i ds = Ok (j, ())"
    and rng: "byte_range_of (hs_data self) i j = Ok rng"
    and s: "s = (if tag = P_MainStreamsInfo then self\<lparr>hs_streams_info_range := Some rng\<rparr>
         else self\<lparr>hs_additional_streams_range := Some rng\<rparr>)"
    by (auto simp: streams_section_def)
  have "section_scans (hs_data self) rng (\<lambda>i. scan_stream_info_with_external N i ds) ()"
    using scan_stream_info_parser scan assms(3) rng by (rule byte_range_of_section)
  moreover have "suffix j (b_data (hs_data self))"
    using parser_suffix [OF scan_stream_info_parser scan] assms(3) by (rule suffix_order.trans)
  ultimately show ?thesis
    using assms(2) s by (auto simp: scan_ok_def sections_ok_def)
qed

lemma scan_archive_properties_suffix: "scan_archive_properties N i = Ok (r, ()) \<Longrightarrow> suffix r i"
proof (induction i rule: measure_induct_rule [of length])
  case (less i)
  have IH: "scan_archive_properties N k = Ok (r, ()) \<Longrightarrow> length k < length i \<Longrightarrow> suffix k i \<Longrightarrow> suffix r i" for k
    using less.IH suffix_order.trans by blast
  from less.prems obtain j p where j: "sevenzip_varuint64_decode i = Ok (j, p)"
    by (subst (asm) scan_archive_properties.simps) auto
  have "suffix j i" "length j < length i"
    using parser_suffix [OF varuint_parser j] varuint_progress [OF j] by simp_all
  then show ?case
    using less.prems
    by (subst (asm) scan_archive_properties.simps)
       (auto simp: j split: if_splits intro!: IH
         dest: parser_suffix [OF skip_section_parser] skip_section_shrink intro: suffix_order.trans order.strict_trans)
qed


lemma tag_suffix: "Property_parse i = Ok (j, tag) \<Longrightarrow> suffix j i"
  by (rule parser_suffix [OF Property_parser])

lemma files_section_ok:
  assumes "scan_files_info_with_external N i = Ok (j, count, b)" and "byte_range_of (hs_data self) i j = Ok rng"
    and "scan_ok N ds self" and "suffix i (b_data (hs_data self))"
  shows "scan_ok N ds (self\<lparr>hs_files_info_range := Some rng, hs_num_files := count\<rparr>) \<and>
    suffix j (b_data (hs_data self))"
proof -
  have "section_scans (hs_data self) rng (scan_files_info_with_external N) (count, b)"
    using scan_files_info_parser assms(1,4,2) by (rule byte_range_of_section)
  moreover have "suffix j (b_data (hs_data self))"
    using parser_suffix [OF scan_files_info_parser assms(1)] assms(4) by (rule suffix_order.trans)
  ultimately show ?thesis
    using assms(3) by (auto simp: scan_ok_def sections_ok_def)
qed

text \<open>A round that goes on keeps the invariant.\<close>

lemma round_streams:
  assumes "header_round N ext self i = Ok (Inl (j, s))" and "Property_parse i = Ok (k, tag)"
    and "tag = P_MainStreamsInfo \<or> tag = P_AdditionalStreamsInfo"
  shows "streams_section N (definitions_of ext) self tag k = Ok (j, s)"
  using assms by (auto simp: header_round_def Let_def split: if_splits)

lemma round_files:
  assumes "header_round N ext self i = Ok (Inl (j, s))" and "Property_parse i = Ok (k, P_FilesInfo)"
  shows "\<exists>count b rng. scan_files_info_with_external N i = Ok (j, count, b) \<and>
    byte_range_of (hs_data self) i j = Ok rng \<and>
    s = self\<lparr>hs_files_info_range := Some rng, hs_num_files := count\<rparr> \<and> (b \<longrightarrow> ext \<noteq> None)"
  using assms by (auto simp: header_round_def Let_def split: if_splits)

lemma round_other:
  assumes "header_round N ext self i = Ok (Inl (j, s))" and "Property_parse i = Ok (k, tag)"
    and "tag \<notin> {P_MainStreamsInfo, P_AdditionalStreamsInfo, P_FilesInfo}"
  shows "s = self \<and> suffix j k"
proof (cases "tag = P_ArchiveProperties")
  case True
  then show ?thesis
    using assms by (auto simp: header_round_def Let_def split: if_splits dest: scan_archive_properties_suffix)
next
  case False
  then obtain r n where "sevenzip_varuint64_decode k = Ok (r, n)" "j = drop (unat n) r" "s = self"
    using assms by (auto simp: header_round_def Let_def get_from_def split: if_splits)
  then show ?thesis
    using parser_suffix [OF varuint_parser, of k] suffix_drop [of "unat n" r] by (auto intro: suffix_order.trans)
qed

lemma header_round_ok:
  assumes run: "header_round N ext self i = Ok (Inl (j, s))"
    and ok: "scan_ok N (definitions_of ext) self" and i: "suffix i (b_data (hs_data self))"
  shows "scan_ok N (definitions_of ext) s \<and> hs_data s = hs_data self \<and> suffix j (b_data (hs_data self))"
proof -
  obtain k tag where tag: "Property_parse i = Ok (k, tag)"
    using run by (auto simp: header_round_def Let_def)
  have k: "suffix k (b_data (hs_data self))"
    using tag_suffix [OF tag] i by (rule suffix_order.trans)
  consider (streams) "tag = P_MainStreamsInfo \<or> tag = P_AdditionalStreamsInfo" | (files) "tag = P_FilesInfo"
    | (other) "tag \<notin> {P_MainStreamsInfo, P_AdditionalStreamsInfo, P_FilesInfo}"
    by blast
  then show ?thesis
  proof cases
    case streams
    then show ?thesis using streams_section_ok [OF round_streams [OF run tag streams] ok k] by auto
  next
    case files
    then show ?thesis using round_files [OF run] tag files_section_ok [OF _ _ ok i] by auto
  next
    case other
    then show ?thesis using round_other [OF run tag] ok k by (auto intro: suffix_order.trans)
  qed
qed

text \<open>The value of a finished round.\<close>

lemma header_round_done:
  assumes "header_round N ext self i = Ok (Inr p)"
  shows "(\<exists>k. suffix k i \<and> p = finish_scan self ext k) \<or> (ext = None \<and> suspend N self = Ok p)"
  using assms tag_suffix
  by (auto simp: header_round_def Let_def split: if_splits)

lemma suspend_pending: "suspend N self = Ok p \<Longrightarrow> \<exists>q. p = Pending q \<and> pending_scan q = self"
  by (auto simp: suspend_def Let_def split: if_splits)

text \<open>
  The invariant of the loop: of the scan when it is suspended, of the header when it is
  complete. The position a suspended scan keeps is that of the input its last round saw.
\<close>

definition at_input :: "HeaderScan \<Rightarrow> bytes \<Rightarrow> bool" where
  "at_input self i \<longleftrightarrow> suffix i (b_data (hs_data self)) \<and> hs_position self = length (b_data (hs_data self)) - length i"

lemma at_input_get_from: "at_input self i \<Longrightarrow> get_from (b_data (hs_data self)) (hs_position self) = Some i"
  by (auto simp: at_input_def get_from_def suffix_def)

lemma advance_at_input: "at_input self i \<Longrightarrow> HeaderScan_advance N self ext = header_loop N ext self i"
  by (simp add: HeaderScan_advance_def at_input_get_from)

lemma next_at_input:
  "suffix i (b_data (hs_data self)) \<Longrightarrow> at_input (self\<lparr>hs_position := length (b_data (hs_data self)) - length i\<rparr>) i"
  by (simp add: at_input_def)

lemma scan_ok_position [simp]: "scan_ok N ds (self\<lparr>hs_position := k\<rparr>) = scan_ok N ds self"
  by (simp add: scan_ok_def)

lemma header_loop_ok:
  assumes "header_loop N ext self i = Ok p" and "scan_ok N (definitions_of ext) self" and "at_input self i"
  shows "(\<exists>h k. p = Complete h (length (b_data (h_data h)) - length k) \<and> suffix k (b_data (h_data h)) \<and>
        header_ok N h \<and> h_data h = hs_data self \<and> external_folder_data h = definitions_of ext) \<or>
      (\<exists>q k. p = Pending q \<and> ext = None \<and> scan_ok N [] (pending_scan q) \<and> hs_data (pending_scan q) = hs_data self \<and>
        at_input (pending_scan q) k \<and> suspend N (pending_scan q) = Ok p)"
  using assms
proof (induction i arbitrary: self rule: measure_induct_rule [of length])
  case (less i)
  from less.prems(3) have i: "suffix i (b_data (hs_data self))" by (simp add: at_input_def)
  from less.prems(1) obtain v where round: "header_round N ext self i = Ok v"
    and rest: "(case v of Inr progress \<Rightarrow> Ok progress | Inl (input, self) \<Rightarrow>
      header_loop N ext (self\<lparr>hs_position := length (b_data (hs_data self)) - length input\<rparr>) input) = Ok p"
    by (subst (asm) header_loop.simps) auto
  show ?case
  proof (cases v)
    case (Inl js)
    obtain j s where js: "js = (j, s)" by (cases js)
    note ok = header_round_ok [OF round [unfolded Inl js] less.prems(2) i]
    show ?thesis
      using less.IH [OF header_round_progress [OF round [unfolded Inl js]],
          of "s\<lparr>hs_position := length (b_data (hs_data s)) - length j\<rparr>"]
        ok next_at_input [of j s] rest Inl js by simp
  next
    case (Inr q)
    then have p: "p = q" using rest by simp
    consider k where "suffix k i" "q = finish_scan self ext k" | "ext = None" "suspend N self = Ok q"
      using header_round_done [OF round [unfolded Inr]] by auto
    then show ?thesis
    proof cases
      case 1
      then show ?thesis
        using i less.prems(2) p
        by (auto simp: finish_scan_def header_ok_def scan_ok_def intro: suffix_order.trans)
    next
      case 2
      then show ?thesis
        using suspend_pending [OF 2(2)] less.prems(2,3) p by auto
    qed
  qed
qed

lemma HeaderScan_new_ok:
  assumes "HeaderScan_new data = Ok s"
  shows "scan_ok N ds s \<and> hs_data s = data \<and> (\<exists>i. at_input s i)"
  using assms tag_suffix
  by (fastforce simp: HeaderScan_new_def scan_ok_def sections_ok_def at_input_def split: if_splits)


section \<open>Sections parse when they are asked for\<close>

lemma lazy_streams_total:
  assumes rng: "section_scans data rng (\<lambda>i. scan_stream_info_with_external N i ext) ()"
    and data: "length (b_data data) < usize_limit" and ext: "external_small ext"
  shows "\<exists>si. lazy_section data (Some rng)
    (\<lambda>e sl. StreamInfo_parse_with_external N e sl data ext) (\<lambda>_. True) = Ok (Some si)"
proof -
  from section_cut [OF scan_stream_info_parser rng] obtain sl where
    sl: "get_range (b_data data) (unat (fst rng)) (unat (snd rng)) = Some sl"
    and scan: "scan_stream_info_with_external N sl ext = Ok ([], ())"
    and "readable data (b_ptr data + unat (snd rng)) sl ext"
    using data ext by (auto simp: readable_def)
  then obtain si where "StreamInfo_parse_with_external N (b_ptr data + unat (snd rng)) sl data ext = Ok ([], si)"
    using scan_stream_info_same_rest by (fastforce simp: same_rest_def)
  then show ?thesis using sl by (cases rng) (simp add: lazy_section_def)
qed

lemma lazy_streams:
  assumes "\<And>rng. r = Some rng \<Longrightarrow> section_scans data rng (\<lambda>i. scan_stream_info_with_external N i ext) ()"
    and "length (b_data data) < usize_limit" and "external_small ext"
  shows "\<exists>v. lazy_section data r (\<lambda>e sl. StreamInfo_parse_with_external N e sl data ext) (\<lambda>_. True) = Ok v \<and>
    (v = None \<longleftrightarrow> r = None)"
proof (cases r)
  case None
  then show ?thesis by (simp add: lazy_section_def)
next
  case (Some rng)
  then show ?thesis using lazy_streams_total [OF assms(1) [OF Some] assms(2,3)] by auto
qed

text \<open>
  A section that was scanned with external data and is parsed without: it parses exactly if the
  scanner accepts it without these data too.
\<close>

lemma lazy_streams_internal:
  assumes rng: "section_scans data rng (\<lambda>i. scan_stream_info_with_external N i ext) ()"
    and data: "length (b_data data) < usize_limit"
  shows "if is_ok (scan_stream_info_with_external N (drop (unat (fst rng)) (b_data data)) [])
    then \<exists>si. lazy_section data (Some rng) (\<lambda>e sl. StreamInfo_parse N e sl data) (\<lambda>_. True) = Ok (Some si)
    else lazy_section data (Some rng) (\<lambda>e sl. StreamInfo_parse N e sl data) (\<lambda>_. True) = Err Parse"
proof (cases "scan_stream_info_with_external N (drop (unat (fst rng)) (b_data data)) []")
  case (Ok y)
  then have "section_scans data rng (\<lambda>i. scan_stream_info_with_external N i []) ()"
    using scan_stream_info_internal [OF Ok, of ext] rng by (simp add: section_scans_def)
  then show ?thesis
    using lazy_streams_total [of data rng N "[]"] data Ok by (simp add: StreamInfo_parse_def external_small_def)
next
  case (Err x)
  let ?s = "unat (fst rng)" and ?e = "unat (snd rng)"
  let ?sl = "take (?e - ?s) (drop ?s (b_data data))"
  have sl: "get_range (b_data data) ?s ?e = Some ?sl"
    using section_cut [OF scan_stream_info_parser rng] by (auto simp: get_range_def split: if_splits)
  have "readable data (b_ptr data + ?e) ?sl []"
    using section_cut [OF scan_stream_info_parser rng] sl data by (auto simp: readable_def external_small_def)
  note same = scan_stream_info_same_rest [OF this, of N]
  have "?sl @ drop ?e (b_data data) = drop ?s (b_data data)"
    using rng unfolding section_scans_def by (metis append_take_drop_id drop_drop le_add_diff_inverse2)
  then have "scan_stream_info_with_external N ?sl [] \<noteq> Ok (r, u)" for r u
    using parser.extend [OF scan_stream_info_parser, where i = ?sl and more = "drop ?e (b_data data)"] Err by fastforce
  then have "StreamInfo_parse N (b_ptr data + ?e) ?sl data \<noteq> Ok (r, si)" for r si
    using same by (auto simp: same_rest_def StreamInfo_parse_def)
  then show ?thesis
    using sl Err by (cases rng; cases "StreamInfo_parse N (b_ptr data + ?e) ?sl data") (auto simp: lazy_section_def)
qed

lemma lazy_files_count:
  assumes rng: "section_scans data rng (scan_files_info_with_external N) (count, b)"
  shows "\<exists>sl. get_range (b_data data) (unat (fst rng)) (unat (snd rng)) = Some sl \<and>
    (\<forall>e r fi. FilesInfo_parse_with_external N e sl data ext = Ok (r, fi) \<longrightarrow> r = [] \<and> num_files fi = count)"
proof -
  from section_cut [OF scan_files_info_parser rng] obtain sl where
    sl: "get_range (b_data data) (unat (fst rng)) (unat (snd rng)) = Some sl"
    and scan: "scan_files_info_with_external N sl = Ok ([], count, b)" by blast
  then show ?thesis
    using FilesInfo_parse_scans [of N _ sl data ext] by fastforce
qed

lemma header_parse_ok:
  assumes "header_parse_ext N data ext = Ok (rest, h)"
  shows "header_ok N h \<and> h_data h = data \<and> external_folder_data h = definitions_of ext \<and> suffix rest (b_data data)"
proof -
  from assms obtain s c where s: "HeaderScan_new data = Ok s" and run: "HeaderScan_advance N s ext = Ok (Complete h c)"
    and rest: "rest = drop c (b_data data)"
    by (auto simp: header_parse_ext_def and_then_eq_Err split: result.splits HeaderProgress.splits)
  from HeaderScan_new_ok [OF s] obtain i where "at_input s i" by blast
  then show ?thesis
    using header_loop_ok [of N ext s i] run HeaderScan_new_ok [OF s, of N "definitions_of ext"]
    by (auto simp: advance_at_input rest suffix_drop)
qed


section \<open>Suspending and resuming\<close>

text \<open>
  Scanning with external data repeats every round of the scan without, up to where that
  one was suspended.
\<close>

lemma header_round_internal:
  assumes "header_round N None self i = Ok (Inl js)"
  shows "header_round N (Some ext) self i = Ok (Inl js)"
proof -
  have "streams_section N [] self tag k = Ok y \<Longrightarrow> streams_section N ext self tag k = Ok y" for tag k y
    by (cases "scan_stream_info_with_external N k []")
       (auto simp: streams_section_def scan_stream_info_internal [of _ _ _ ext])
  moreover obtain k tag where "Property_parse i = Ok (k, tag)"
    using assms by (auto simp: header_round_def Let_def)
  ultimately show ?thesis
    using assms by (auto simp: header_round_def Let_def split: if_splits)
qed

lemma header_round_complete:
  assumes "header_round N None self i = Ok (Inr (Complete h c))"
  shows "header_round N (Some ext) self i = Ok (Inr (Complete (h\<lparr>external_folder_data := ext\<rparr>) c))"
proof -
  obtain k tag where "Property_parse i = Ok (k, tag)"
    using assms by (auto simp: header_round_def Let_def)
  moreover have "suspend N self \<noteq> Ok (Complete h c)"
    using suspend_pending [of N self] by fastforce
  ultimately show ?thesis
    using assms by (auto simp: header_round_def Let_def finish_scan_def split: if_splits)
qed

lemma header_loop_resumes:
  assumes "header_loop N None self i = Ok p" and "at_input self i" and "scan_ok N [] self"
  shows "header_loop N (Some ext) self i =
    (case p of
       Complete h c \<Rightarrow> Ok (Complete (h\<lparr>external_folder_data := ext\<rparr>) c)
     | Pending q \<Rightarrow> HeaderScan_advance N (pending_scan q) (Some ext))"
  using assms
proof (induction i arbitrary: self rule: measure_induct_rule [of length])
  case (less i)
  from less.prems(1) obtain v where round: "header_round N None self i = Ok v"
    and rest: "(case v of Inr progress \<Rightarrow> Ok progress | Inl (input, self) \<Rightarrow>
      header_loop N None (self\<lparr>hs_position := length (b_data (hs_data self)) - length input\<rparr>) input) = Ok p"
    by (subst (asm) header_loop.simps) auto
  show ?case
  proof (cases v)
    case (Inl js)
    obtain j s where js: "js = (j, s)" by (cases js)
    have "scan_ok N [] s \<and> suffix j (b_data (hs_data s))"
      using header_round_ok [OF round [unfolded Inl js]] less.prems(2,3) by (simp add: at_input_def)
    then show ?thesis
      using less.IH [OF header_round_progress [OF round [unfolded Inl js]],
          of "s\<lparr>hs_position := length (b_data (hs_data s)) - length j\<rparr>"]
        next_at_input [of j s] rest Inl js header_round_internal [OF round [unfolded Inl]]
      by (simp add: header_loop.simps [of N "Some ext" self i])
  next
    case (Inr q)
    then have p: "p = q" using rest by simp
    show ?thesis
    proof (cases q)
      case (Complete h c)
      then show ?thesis
        using p header_round_complete [of N self i h c ext] round Inr
        by (simp add: header_loop.simps [of N "Some ext" self i])
    next
      case (Pending w)
      then have "suspend N self = Ok q"
        using header_round_done [of N None self i q] round Inr by (auto simp: finish_scan_def)
      then show ?thesis
        using suspend_pending [of N self q] Pending p advance_at_input [OF less.prems(2)] by auto
    qed
  qed
qed


lemma into_resolution_eq:
  "into_resolution p = Ok (RequiresExternalFolders q) \<longleftrightarrow> p = Pending q"
  "into_resolution p = Ok (HeaderComplete h) \<longleftrightarrow> p = Complete h (length (b_data (h_data h)))"
  by (cases p; auto simp: into_resolution_def complete_exact_def split: if_splits)+

lemma advance_resumes:
  assumes "HeaderScan_new data = Ok s" and "HeaderScan_advance N s None = Ok p"
  shows "HeaderScan_advance N s (Some ext) = (case p of
      Complete h c \<Rightarrow> Ok (Complete (h\<lparr>external_folder_data := ext\<rparr>) c)
    | Pending q \<Rightarrow> HeaderScan_advance N (pending_scan q) (Some ext))"
proof -
  obtain i where "at_input s i" "scan_ok N [] s"
    using HeaderScan_new_ok [OF assms(1)] by blast
  then show ?thesis
    using header_loop_resumes [of N s i p ext] assms(2) by (simp add: advance_at_input)
qed

lemma advance_consumed:
  assumes "HeaderScan_new data = Ok s" and "HeaderScan_advance N s ext = Ok (Complete h c)"
  shows "h_data h = data \<and> c \<le> length (b_data data)"
proof -
  obtain i where "at_input s i" using HeaderScan_new_ok [OF assms(1)] by blast
  then show ?thesis
    using header_loop_ok [of N ext s i] HeaderScan_new_ok [OF assms(1), of N "definitions_of ext"] assms(2)
    by (auto simp: advance_at_input)
qed

section \<open>Properties\<close>

text \<open>
  C30. The scan that accepts a header settles what parsing its sections later can do.
  Every recorded range is ordered and lies in the header bytes. The main streams
  section always parses. The additional streams are parsed without the external data, so they parse
  exactly if the scanner accepts them without external folder definitions, as is always so after
  a scan that was given none; otherwise asking for them is a parse error. A file table that parses uses up its range and has the number of files the header
  reports.
\<close>

theorem header_sections_parse:
  assumes "header_parse_ext N data ext = Ok (rest, h)"
    and "length (b_data data) < usize_limit" and "external_small (definitions_of ext)"
  shows "(\<exists>v. try_streams_info N h = Ok v \<and> (v = None \<longleftrightarrow> streams_info_range h = None)) \<and>
    (ext = None \<longrightarrow> (\<exists>v. try_additional_streams_info N h = Ok v \<and> (v = None \<longleftrightarrow> additional_streams_range h = None))) \<and>
    (case additional_streams_range h of
       None \<Rightarrow> try_additional_streams_info N h = Ok None
     | Some rng \<Rightarrow>
         if is_ok (scan_stream_info_with_external N (drop (unat (fst rng)) (b_data data)) [])
         then \<exists>si. try_additional_streams_info N h = Ok (Some si)
         else try_additional_streams_info N h = Err Parse) \<and>
    (\<forall>rng. streams_info_range h = Some rng \<or> files_info_range h = Some rng \<or> additional_streams_range h = Some rng \<longrightarrow>
       unat (fst rng) \<le> unat (snd rng) \<and> unat (snd rng) \<le> length (b_data data)) \<and>
    (\<forall>rng. files_info_range h = Some rng \<longrightarrow>
       (\<exists>sl. get_range (b_data data) (unat (fst rng)) (unat (snd rng)) = Some sl \<and>
         (\<forall>e r fi. FilesInfo_parse_with_external N e sl data (definitions_of ext) = Ok (r, fi) \<longrightarrow>
            r = [] \<and> num_files fi = h_num_files h)))"
proof -
  note ok = header_parse_ok [OF assms(1)]
  then have h: "h_data h = data" "external_folder_data h = definitions_of ext" by simp_all
  from ok have sec: "sections_ok N (definitions_of ext) data (streams_info_range h) (files_info_range h)
      (additional_streams_range h) (h_num_files h)"
    by (auto simp: header_ok_def)
  have "\<exists>v. try_streams_info N h = Ok v \<and> (v = None \<longleftrightarrow> streams_info_range h = None)"
    unfolding try_streams_info_def h
    by (rule lazy_streams [OF _ assms(2,3)]) (use sec in \<open>auto simp: sections_ok_def\<close>)
  moreover have "\<exists>v. try_additional_streams_info N h = Ok v \<and> (v = None \<longleftrightarrow> additional_streams_range h = None)"
    if "ext = None"
    unfolding try_additional_streams_info_def StreamInfo_parse_def h
    by (rule lazy_streams [OF _ assms(2)]) (use sec that assms(3) in \<open>auto simp: sections_ok_def\<close>)
  moreover have "case additional_streams_range h of
       None \<Rightarrow> try_additional_streams_info N h = Ok None
     | Some rng \<Rightarrow>
         if is_ok (scan_stream_info_with_external N (drop (unat (fst rng)) (b_data data)) [])
         then \<exists>si. try_additional_streams_info N h = Ok (Some si)
         else try_additional_streams_info N h = Err Parse"
  proof (cases "additional_streams_range h")
    case None
    then show ?thesis by (simp add: try_additional_streams_info_def lazy_section_def)
  next
    case (Some rng)
    then have "section_scans data rng (\<lambda>i. scan_stream_info_with_external N i (definitions_of ext)) ()"
      using sec by (simp add: sections_ok_def)
    from lazy_streams_internal [OF this assms(2)] Some show ?thesis
      by (simp add: try_additional_streams_info_def h)
  qed
  moreover have "unat (fst rng) \<le> unat (snd rng) \<and> unat (snd rng) \<le> length (b_data data)"
    if "streams_info_range h = Some rng \<or> files_info_range h = Some rng \<or> additional_streams_range h = Some rng" for rng
    using that sec by (cases rng) (auto simp: sections_ok_def section_scans_def)
  moreover have "\<exists>sl. get_range (b_data data) (unat (fst rng)) (unat (snd rng)) = Some sl \<and>
       (\<forall>e r fi. FilesInfo_parse_with_external N e sl data (definitions_of ext) = Ok (r, fi) \<longrightarrow>
          r = [] \<and> num_files fi = h_num_files h)" if "files_info_range h = Some rng" for rng
    using that sec lazy_files_count by (fastforce simp: sections_ok_def)
  ultimately show ?thesis by blast
qed

text \<open>
  C31. Suspending the scan is transparent. When resolving an archive header asks for
  external data, resuming with these data gives exactly the headers that a scan of the same bytes,
  started afresh with the data, gives when it uses up the bytes. A header resolved
  without is what that scan gives, apart from the data it holds.
\<close>

theorem resume_is_transparent:
  "(\<forall>q. resolve_archive N data = Ok (RequiresExternalFolders q) \<longrightarrow>
      (resolve_with N q (\<lambda>_. Ok ext) = Ok h \<longleftrightarrow> Header_parse_with_external N data ext = Ok ([], h))) \<and>
   (\<forall>h. resolve_archive N data = Ok (HeaderComplete h) \<longrightarrow>
      Header_parse_with_external N data ext = Ok ([], h\<lparr>external_folder_data := ext\<rparr>))"
proof (intro conjI allI impI)
  fix q
  assume "resolve_archive N data = Ok (RequiresExternalFolders q)"
  then obtain s where s: "HeaderScan_new data = Ok s" and "HeaderScan_advance N s None = Ok (Pending q)"
    by (auto simp: resolve_archive_def into_resolution_eq)
  then have adv: "HeaderScan_advance N (pending_scan q) (Some ext) = HeaderScan_advance N s (Some ext)"
    using advance_resumes [OF s] by simp
  show "resolve_with N q (\<lambda>_. Ok ext) = Ok h \<longleftrightarrow> Header_parse_with_external N data ext = Ok ([], h)"
  proof (cases "HeaderScan_advance N s (Some ext)")
    case (Err e)
    then show ?thesis
      by (simp add: resolve_with_def adv Header_parse_with_external_def header_parse_ext_def s)
  next
    case (Ok p)
    then show ?thesis
      using advance_consumed [OF s, of N "Some ext"]
      by (cases p)
         (auto simp: resolve_with_def adv Header_parse_with_external_def header_parse_ext_def s complete_exact_def)
  qed
next
  fix h
  assume "resolve_archive N data = Ok (HeaderComplete h)"
  then obtain s where s: "HeaderScan_new data = Ok s"
    and run: "HeaderScan_advance N s None = Ok (Complete h (length (b_data (h_data h))))"
    by (auto simp: resolve_archive_def into_resolution_eq)
  then show "Header_parse_with_external N data ext = Ok ([], h\<lparr>external_folder_data := ext\<rparr>)"
    using advance_resumes [OF s run, of ext] advance_consumed [OF s run]
    by (simp add: Header_parse_with_external_def header_parse_ext_def)
qed


text \<open>A header with one packed stream, one folder and one file named \<open>a\<close>.\<close>

definition example_header :: bytes where
  "example_header = [1, 4, 6, 0, 1, 9, 5, 0, 7, 0x0B, 1, 0, 1, 1, 0, 0x0C, 5, 0, 8, 0, 0,
     5, 1, 0x11, 5, 0, 97, 0, 0, 0, 0, 0]"

lemmas header_evals = header_parse_ext_def HeaderScan_new_def HeaderScan_advance_def header_loop.simps [of _ _ _ "_ # _"]
  header_round_def streams_section_def byte_range_of_def u32_try_from_usize_def finish_scan_def get_from_def
  uses_external_folder_data.simps [of _ "_ # _"] scan_stream_info_with_external_def
  scan_stream_info_loop.simps [of _ _ "_ # _"] scan_unpack_info_with_external_def
  scan_unpack_info_loop.simps [of _ _ _ "_ # _"] scan_substream_info_def
  scan_substream_info_loop.simps [of _ _ "_ # _"] scan_files_info_with_external_def
  scan_files_info_loop.simps [of _ _ "_ # _"] external_flag_def get_def checked_sub_def
  pack_info_evals unpack_info_evals folder_evals tag_evals varuint_evals Let_def

lemma example_header_parses:
  "header_parse_ext nom_reference \<lparr>b_ptr = 100, b_data = example_header\<rparr> None = Ok ([],
     \<lparr>h_data = \<lparr>b_ptr = 100, b_data = example_header\<rparr>, streams_info_range = Some (2, 21),
      files_info_range = Some (21, 31), additional_streams_range = None, external_folder_data = [], h_num_files = 1\<rparr>)"
  by (simp add: example_header_def header_evals)

theorem header_sections_parse_witness:
  "\<exists>h. header_parse_ext nom_reference \<lparr>b_ptr = 100, b_data = example_header\<rparr> None = Ok ([], h) \<and>
     (\<exists>si. try_streams_info nom_reference h = Ok (Some si)) \<and> try_additional_streams_info nom_reference h = Ok None"
proof -
  have "length (b_data \<lparr>b_ptr = 100, b_data = example_header\<rparr>) < usize_limit"
    "external_small (definitions_of None)"
    by (simp_all add: example_header_def external_small_def)
  from header_sections_parse [OF example_header_parses this] show ?thesis
    using example_header_parses by auto
qed

text \<open>A header whose file name is in an additional stream of four bytes.\<close>

definition example_external_header :: bytes where
  "example_external_header = [1, 3, 6, 0, 1, 9, 4, 0, 7, 0x0B, 1, 0, 1, 1, 0, 0x0C, 4, 0, 8, 0, 0,
     5, 1, 0x11, 2, 1, 0, 0, 0]"

lemma example_external_header_suspends:
  "\<exists>q. resolve_archive nom_reference \<lparr>b_ptr = 100, b_data = example_external_header\<rparr> =
     Ok (RequiresExternalFolders q)"
  by (simp add: resolve_archive_def into_resolution_def suspend_def example_external_header_def header_evals
      StreamInfo_parse_def StreamInfo_parse_with_external_def stream_info_loop.simps [of _ _ _ _ "_ # _"]
      SubstreamInfo_parse_def substream_info_loop.simps [of _ _ "_ # _"] get_range_def)

lemma example_external_header_parses:
  "Header_parse_with_external nom_reference \<lparr>b_ptr = 100, b_data = example_external_header\<rparr>
      [\<lparr>b_ptr = 500, b_data = [65, 0, 0, 0]\<rparr>] = Ok ([],
     \<lparr>h_data = \<lparr>b_ptr = 100, b_data = example_external_header\<rparr>, streams_info_range = None,
      files_info_range = Some (21, 28), additional_streams_range = Some (2, 21),
      external_folder_data = [\<lparr>b_ptr = 500, b_data = [65, 0, 0, 0]\<rparr>], h_num_files = 1\<rparr>)"
  by (simp add: Header_parse_with_external_def example_external_header_def header_evals)

theorem resume_is_transparent_witness:
  "\<exists>q h. resolve_archive nom_reference \<lparr>b_ptr = 100, b_data = example_external_header\<rparr> =
       Ok (RequiresExternalFolders q) \<and>
     resolve_with nom_reference q (\<lambda>_. Ok [\<lparr>b_ptr = 500, b_data = [65, 0, 0, 0]\<rparr>]) = Ok h"
  using example_external_header_suspends example_external_header_parses resume_is_transparent by blast

end
