(* ===== verification/Operation.thy ===== *)
theory Operation
  imports Errors
begin

text \<open>
  \<^verbatim>\<open>src/src/operation.rs\<close>: cancellation and progress. A control is shared by clones and
  threads: here it is its current value, passed along and returned, and the progress callback
  of the client is a function that says whether to break off. Another thread
  cancels between two steps by \<open>cancel\<close>.
\<close>

abbreviation CHECK_INTERVAL :: nat where
  "CHECK_INTERVAL \<equiv> 65536"

datatype OperationPhase = Read | Write | CopyOutput

record OperationProgress =
  op_phase :: OperationPhase
  bytes_processed :: u64

datatype ReadVerification = CompleteFolders | SelectedEntries | Incomplete_read

fun combine :: "ReadVerification \<Rightarrow> ReadVerification \<Rightarrow> ReadVerification" where
  "combine Incomplete_read b = Incomplete_read"
| "combine a Incomplete_read = Incomplete_read"
| "combine SelectedEntries b = SelectedEntries"
| "combine a SelectedEntries = SelectedEntries"
| "combine CompleteFolders CompleteFolders = CompleteFolders"

record OperationControl =
  cancelled :: bool
  progress :: "(OperationProgress \<Rightarrow> bool) option"

definition OperationControl_new :: OperationControl where
  "OperationControl_new = \<lparr>cancelled = False, progress = None\<rparr>"

definition OperationControl_with_progress :: "(OperationProgress \<Rightarrow> bool) \<Rightarrow> OperationControl" where
  "OperationControl_with_progress callback = \<lparr>cancelled = False, progress = Some callback\<rparr>"

definition cancel :: "OperationControl \<Rightarrow> OperationControl" where
  "cancel self = self\<lparr>cancelled := True\<rparr>"

definition control_check :: "OperationControl \<Rightarrow> unit r7z_result" where
  "control_check self = (if cancelled self then Err Cancelled else Ok ())"

record OperationMonitor =
  phase :: OperationPhase
  control :: "OperationControl option"
  processed :: u64
  reported :: u64

definition OperationMonitor_new :: "OperationControl option \<Rightarrow> OperationMonitor" where
  "OperationMonitor_new ctl = \<lparr>phase = Read, control = ctl, processed = 0, reported = 0\<rparr>"

definition monitor_check :: "OperationMonitor \<Rightarrow> unit r7z_result" where
  "monitor_check self = (case control self of None \<Rightarrow> Ok () | Some ctl \<Rightarrow> control_check ctl)"

definition for_phase :: "OperationMonitor \<Rightarrow> OperationPhase \<Rightarrow> OperationMonitor" where
  "for_phase self p = self\<lparr>phase := p\<rparr>"

definition buffer_size :: "OperationMonitor \<Rightarrow> nat \<Rightarrow> nat" where
  "buffer_size self requested =
     (case control self of None \<Rightarrow> requested | Some _ \<Rightarrow> min requested CHECK_INTERVAL)"

definition u64_saturating_add :: "u64 \<Rightarrow> u64 \<Rightarrow> u64" where
  "u64_saturating_add a b = (if unat a + unat b < 2 ^ 64 then a + b else - 1)"

text \<open>The progress report: the callback runs, and its \<open>Break\<close> cancels.\<close>

definition report_progress :: "OperationMonitor \<Rightarrow> OperationControl \<Rightarrow> OperationControl" where
  "report_progress self ctl =
     (case progress ctl of
        None \<Rightarrow> ctl
      | Some callback \<Rightarrow>
          if callback \<lparr>op_phase = phase self, bytes_processed = processed self\<rparr> then cancel ctl else ctl)"

definition monitor_advance :: "OperationMonitor \<Rightarrow> nat \<Rightarrow> unit r7z_result \<times> OperationMonitor" where
  "monitor_advance self n =
     (case control self of
        None \<Rightarrow> (Ok (), self)
      | Some ctl \<Rightarrow>
          let self = self\<lparr>processed := u64_saturating_add (processed self) (of_nat n)\<rparr> in
          if processed self - reported self \<ge> 65536 then
            let self = self\<lparr>reported := processed self\<rparr>;
                ctl = report_progress self ctl
            in (control_check ctl, self\<lparr>control := Some ctl\<rparr>)
          else (control_check ctl, self))"

text \<open>
  \<open>OperationMonitor::read\<close>: \<open>reader\<close> is the reader behind it, which gets its own
  state and the size of the buffer and returns bytes or an error.
\<close>

fun restore_read_error :: "io_error \<Rightarrow> R7zError" where
  "restore_read_error CancelledRead = Cancelled"
| "restore_read_error (IoWrapped e) = e"
| "restore_read_error (IoKind k) = Io (IoKind k)"

fun read_io_error :: "R7zError \<Rightarrow> io_error" where
  "read_io_error Cancelled = CancelledRead"
| "read_io_error e = IoWrapped e"

fun restore_callback_error :: "R7zError \<Rightarrow> R7zError" where
  "restore_callback_error (Io CancelledRead) = Cancelled"
| "restore_callback_error e = e"

type_synonym 'r reader = "'r \<Rightarrow> nat \<Rightarrow> bytes io_result \<times> 'r"

definition monitor_read :: "'r reader \<Rightarrow> OperationMonitor \<Rightarrow> 'r \<Rightarrow> nat \<Rightarrow>
    bytes r7z_result \<times> OperationMonitor \<times> 'r" where
  "monitor_read rd self r len =
     (case monitor_check self of
        Err e \<Rightarrow> (Err e, self, r)
      | Ok _ \<Rightarrow>
          (case rd r (buffer_size self len) of
             (Err e, r) \<Rightarrow> (Err (restore_read_error e), self, r)
           | (Ok bs, r) \<Rightarrow>
               (case monitor_advance self (length bs) of
                  (Err e, self) \<Rightarrow> (Err e, self, r)
                | (Ok _, self) \<Rightarrow> (Ok bs, self, r))))"

section \<open>Laws\<close>

text \<open>
  \<open>combine\<close> is the least upper bound of the order in which a verification is as weak as
  its weakest part.
\<close>

instantiation ReadVerification :: linorder
begin

fun weakness :: "ReadVerification \<Rightarrow> nat" where
  "weakness CompleteFolders = 0"
| "weakness SelectedEntries = 1"
| "weakness Incomplete_read = 2"

definition less_eq_ReadVerification :: "ReadVerification \<Rightarrow> ReadVerification \<Rightarrow> bool" where
  "a \<le> b \<longleftrightarrow> weakness a \<le> weakness b"

definition less_ReadVerification :: "ReadVerification \<Rightarrow> ReadVerification \<Rightarrow> bool" where
  "a < b \<longleftrightarrow> weakness a < weakness b"

instance
proof
  fix a b :: ReadVerification
  show "a \<le> b \<Longrightarrow> b \<le> a \<Longrightarrow> a = b"
    by (cases a; cases b) (simp_all add: less_eq_ReadVerification_def)
qed (auto simp: less_eq_ReadVerification_def less_ReadVerification_def)

end

lemma combine_max: "combine a b = max a b"
  by (cases a; cases b) (simp_all add: max_def less_eq_ReadVerification_def)

lemma read_io_error_restore: "restore_read_error (read_io_error e) = e"
  by (cases e rule: read_io_error.cases) simp_all


section \<open>Progress and cancellation\<close>

text \<open>The report counter never passes the byte counter, and lags less than the interval.\<close>

definition monitor_ok :: "OperationMonitor \<Rightarrow> bool" where
  "monitor_ok m \<longleftrightarrow> unat (reported m) \<le> unat (processed m) \<and>
     unat (processed m) < unat (reported m) + CHECK_INTERVAL"

definition is_cancelled :: "OperationMonitor \<Rightarrow> bool" where
  "is_cancelled m = (case control m of None \<Rightarrow> False | Some ctl \<Rightarrow> cancelled ctl)"

lemma saturating_add_mono: "unat a \<le> unat (u64_saturating_add a b)"
proof -
  have "unat a \<le> unat (- 1 :: u64)"
    using unat_u64_less [of a] by (simp add: unat_u64_max)
  then show ?thesis
    by (auto simp: u64_saturating_add_def unat_word_ariths)
qed

lemma saturating_add_fits: "unat a + unat b < usize_limit \<Longrightarrow> unat (u64_saturating_add a b) = unat a + unat b"
  by (simp add: u64_saturating_add_def unat_word_ariths)

lemma u64_interval:
  "unat (b :: u64) \<le> unat a \<Longrightarrow> a - b \<ge> 65536 \<longleftrightarrow> unat b + 65536 \<le> unat a"
  by (auto simp: word_le_nat_alt unat_sub)

lemma report_progress_cancels:
  "cancelled (report_progress m ctl) \<longleftrightarrow> cancelled ctl \<or>
     (\<exists>cb. progress ctl = Some cb \<and> cb \<lparr>op_phase = phase m, bytes_processed = processed m\<rparr>)"
  "progress (report_progress m ctl) = progress ctl"
  by (auto simp: report_progress_def cancel_def split: option.splits)

text \<open>One advance: the invariant, the verdict, and whether it reported.\<close>

lemma monitor_advance_cases:
  assumes "monitor_advance m n = (r, m')" and "monitor_ok m" and "control m = Some ctl"
  obtains (quiet) "processed m' = u64_saturating_add (processed m) (of_nat n)" "reported m' = reported m"
      "control m' = Some ctl" "phase m' = phase m" "monitor_ok m'" "r = control_check ctl"
    | (report) ctl' where "processed m' = u64_saturating_add (processed m) (of_nat n)" "reported m' = processed m'"
      "unat (reported m) + 65536 \<le> unat (processed m')"
      "ctl' = report_progress (m\<lparr>processed := processed m', reported := processed m'\<rparr>) ctl"
      "control m' = Some ctl'" "phase m' = phase m" "monitor_ok m'" "r = control_check ctl'"
proof -
  let ?p = "u64_saturating_add (processed m) (of_nat n)"
  have le: "unat (reported m) \<le> unat ?p"
    using saturating_add_mono [of "processed m" "of_nat n"] assms(2) by (simp add: monitor_ok_def)
  show thesis
  proof (cases "?p - reported m \<ge> 65536")
    case True
    then show thesis
      using assms(1,3) u64_interval [OF le]
      by (intro report) (auto simp: monitor_advance_def Let_def monitor_ok_def)
  next
    case False
    then show thesis
      using assms(1,3) u64_interval [OF le] le
      by (intro quiet) (auto simp: monitor_advance_def Let_def monitor_ok_def)
  qed
qed

lemma monitor_advance_keeps:
  assumes "monitor_advance m n = (r, m')" and "monitor_ok m"
  shows "monitor_ok m' \<and> (is_cancelled m \<longrightarrow> is_cancelled m') \<and> (r = Ok () \<longleftrightarrow> \<not> is_cancelled m') \<and>
    (control m' = None \<longleftrightarrow> control m = None)"
proof (cases "control m")
  case None
  then show ?thesis using assms by (auto simp: monitor_advance_def is_cancelled_def)
next
  case (Some ctl)
  from assms(1,2) Some show ?thesis
    by (cases rule: monitor_advance_cases)
       (auto simp: is_cancelled_def control_check_def report_progress_cancels Some split: if_splits)
qed

text \<open>An operation that advances step by step and stops at the first error.\<close>

fun advance_all :: "OperationMonitor \<Rightarrow> nat list \<Rightarrow> unit r7z_result \<times> OperationMonitor" where
  "advance_all m [] = (Ok (), m)"
| "advance_all m (n # ns) =
     (case monitor_advance m n of
        (Err e, m) \<Rightarrow> (Err e, m)
      | (Ok _, m) \<Rightarrow> advance_all m ns)"

lemma advance_all_breaks:
  assumes "monitor_ok m" and "control m = Some ctl" and "progress ctl = Some cb" and "\<And>p. cb p"
    and "unat (processed m) + sum_list ns < usize_limit" and "CHECK_INTERVAL \<le> unat (processed m) - unat (reported m) + sum_list ns"
  shows "fst (advance_all m ns) = Err Cancelled"
  using assms
proof (induction ns arbitrary: m ctl)
  case Nil
  then show ?case unfolding monitor_ok_def by simp linarith
next
  case (Cons n ns)
  obtain r m' where adv: "monitor_advance m n = (r, m')" by (cases "monitor_advance m n")
  from adv Cons.prems(1,2) show ?case
  proof (cases rule: monitor_advance_cases)
    case (report ctl')
    then have "r = Err Cancelled"
      using Cons.prems(3,4) by (simp add: control_check_def report_progress_cancels)
    then show ?thesis using adv by simp
  next
    case quiet
    show ?thesis
    proof (cases "cancelled ctl")
      case True
      then show ?thesis using quiet adv by (simp add: control_check_def)
    next
      case False
      have n: "unat (of_nat n :: u64) = n" and fits: "unat (processed m) + n < usize_limit"
        using Cons.prems(5) by (simp_all add: unat_of_nat)
      have "unat (processed m') = unat (processed m) + n"
        using saturating_add_fits [of "processed m" "of_nat n"] fits n quiet(1) by simp
      then show ?thesis
        using Cons.IH [of m' ctl] quiet Cons.prems adv False
        by (simp add: control_check_def monitor_ok_def)
    qed
  qed
qed


section \<open>Properties\<close>

lemma monitor_new_ok: "monitor_ok (OperationMonitor_new c)"
  by (simp add: monitor_ok_def OperationMonitor_new_def)

lemma advance_all_keeps:
  assumes "advance_all m ns = (r, m')" and "monitor_ok m"
  shows "monitor_ok m' \<and> (is_cancelled m \<longrightarrow> is_cancelled m') \<and> (control m' = None \<longleftrightarrow> control m = None)"
  using assms
proof (induction ns arbitrary: m)
  case (Cons n ns)
  obtain r1 m1 where adv: "monitor_advance m n = (r1, m1)" by (cases "monitor_advance m n")
  then show ?case
    using Cons monitor_advance_keeps [OF adv Cons.prems(2)] by (cases r1) auto
qed simp

text \<open>
  C32. Cancellation is permanent and prompt. Whatever an operation has processed, once its control is
  cancelled it stays so, and the next read fails with \<open>Cancelled\<close> without touching
  the reader. No read asks for more than the check interval.
\<close>

theorem cancellation_is_permanent:
  assumes "advance_all (OperationMonitor_new (Some ctl)) ns = (r, m)"
  shows "monitor_ok m \<and> (\<forall>len. buffer_size m len \<le> CHECK_INTERVAL) \<and>
    (cancelled ctl \<longrightarrow> is_cancelled m) \<and>
    (is_cancelled m \<longrightarrow> (\<forall>k. fst (monitor_advance m k) = Err Cancelled \<and> is_cancelled (snd (monitor_advance m k))) \<and>
       (\<forall>rd rs len. monitor_read rd m rs len = (Err Cancelled, m, rs)))"
proof -
  have ok: "monitor_ok m" and "is_cancelled (OperationMonitor_new (Some ctl)) \<longrightarrow> is_cancelled m"
    and "control m \<noteq> None"
    using advance_all_keeps [OF assms monitor_new_ok] by (simp_all add: OperationMonitor_new_def)
  moreover have "fst (monitor_advance m k) = Err Cancelled \<and> is_cancelled (snd (monitor_advance m k))"
    if "is_cancelled m" for k
  proof -
    obtain r' m' where adv: "monitor_advance m k = (r', m')" by (cases "monitor_advance m k")
    have "is_cancelled m'" "r' \<noteq> Ok ()" using monitor_advance_keeps [OF adv ok] that by auto
    then show ?thesis
      using adv by (auto simp: monitor_advance_def control_check_def Let_def split: option.splits if_splits)
  qed
  ultimately show ?thesis
    by (auto simp: is_cancelled_def OperationMonitor_new_def monitor_read_def monitor_check_def control_check_def
        buffer_size_def split: option.splits)
qed

theorem cancellation_is_permanent_witness:
  "fst (advance_all (OperationMonitor_new (Some (cancel OperationControl_new))) [5]) = Err Cancelled \<and>
   is_cancelled (snd (advance_all (OperationMonitor_new (Some (cancel OperationControl_new))) [5]))"
proof -
  let ?m = "OperationMonitor_new (Some (cancel OperationControl_new))"
  have "is_cancelled (snd (advance_all ?m []))" "fst (monitor_advance ?m 5) = Err Cancelled"
    using cancellation_is_permanent [of "cancel OperationControl_new" "[]" "Ok ()" ?m]
    by (auto simp: cancel_def OperationControl_new_def)
  moreover obtain r m where "advance_all ?m [5] = (r, m)" by (cases "advance_all ?m [5]")
  ultimately show ?thesis
    using cancellation_is_permanent [of "cancel OperationControl_new" "[5]" r m]
    by (cases "monitor_advance ?m 5"; cases "fst (monitor_advance ?m 5)")
       (auto simp: cancel_def OperationControl_new_def)
qed

text \<open>
  C33. A progress callback that asks to stop is heard. If it answers \<open>Break\<close>, any
  operation that processes at least the check interval in total, below the range of the
  counter, ends with \<open>Cancelled\<close>, however the bytes are split into steps.
\<close>

theorem progress_break_stops:
  assumes "\<And>p. callback p" and "CHECK_INTERVAL \<le> sum_list ns" and "sum_list ns < usize_limit"
  shows "fst (advance_all (OperationMonitor_new (Some (OperationControl_with_progress callback))) ns) = Err Cancelled"
  by (rule advance_all_breaks [OF monitor_new_ok, where ctl = "OperationControl_with_progress callback" and cb = callback])
     (use assms in \<open>simp_all add: OperationMonitor_new_def OperationControl_with_progress_def\<close>)

theorem progress_break_stops_witness:
  "fst (advance_all (OperationMonitor_new (Some (OperationControl_with_progress (\<lambda>_. True)))) [65535, 1]) =
     Err Cancelled"
  by (rule progress_break_stops) simp_all

end
