(* ===== verification/Resources.thy ===== *)
theory Resources
  imports Operation
begin

text \<open>
  \<^verbatim>\<open>src/src/resources.rs\<close>: the limits of an archive operation and the counters charged
  against them. An operation that changes a counter returns the changed state, or an error
  and then leaves the state as it was; the operations that go on after an error return the
  state in both cases. \<open>NonZeroUsize\<close> is a natural number.
\<close>

section \<open>Limits\<close>

abbreviation DEFAULT_METADATA_BYTES :: u64 where
  "DEFAULT_METADATA_BYTES \<equiv> 67108864"

abbreviation DEFAULT_OPEN_VOLUMES :: nat where
  "DEFAULT_OPEN_VOLUMES \<equiv> 128"

abbreviation MAX_DECODER_WORKING_SET_BYTES :: u64 where
  "MAX_DECODER_WORKING_SET_BYTES \<equiv> 536870912"

record ResourceLimits =
  max_signature_scan_bytes :: u64
  max_metadata_bytes :: u64
  max_decoder_working_set_bytes :: "u64 option"
  max_encoder_working_set_bytes :: "u64 option"
  max_total_decoded_bytes :: "u64 option"
  max_total_kdf_cycles :: "u64 option"
  max_retained_output_bytes :: "u64 option"
  max_temporary_storage_bytes :: "u64 option"
  max_volume_count :: "nat option"
  max_open_volumes :: nat

definition ResourceLimits_default :: ResourceLimits where
  "ResourceLimits_default =
     \<lparr>max_signature_scan_bytes = DEFAULT_METADATA_BYTES, max_metadata_bytes = DEFAULT_METADATA_BYTES,
      max_decoder_working_set_bytes = None, max_encoder_working_set_bytes = None,
      max_total_decoded_bytes = None, max_total_kdf_cycles = None, max_retained_output_bytes = None,
      max_temporary_storage_bytes = None, max_volume_count = None, max_open_volumes = DEFAULT_OPEN_VOLUMES\<rparr>"

text \<open>\<open>used + amount\<close> within the limit; without a limit the sum saturates.\<close>

definition next_total :: "u64 \<Rightarrow> u64 \<Rightarrow> u64 option \<Rightarrow> string \<Rightarrow> u64 r7z_result" where
  "next_total used amount limit resource =
     (case u64_checked_add used amount of
        None \<Rightarrow>
          (case limit of
             None \<Rightarrow> Ok (- 1)
           | Some limit \<Rightarrow> Err (ResourceLimitExceeded resource limit))
      | Some s \<Rightarrow>
          (case limit of
             None \<Rightarrow> Ok s
           | Some limit \<Rightarrow>
               if s > limit then Err (ResourceLimitExceeded resource limit) else Ok s))"

section \<open>Counters\<close>

record KdfBudget =
  kdf_used :: u64
  kdf_limit :: "u64 option"

definition KdfBudget_charge :: "KdfBudget \<Rightarrow> u64 \<Rightarrow> KdfBudget r7z_result" where
  "KdfBudget_charge self cycles =
     and_then (next_total (kdf_used self) cycles (kdf_limit self) ''AES KDF cycles'') (\<lambda>t.
       Ok (self\<lparr>kdf_used := t\<rparr>))"

record VolumeCountBudget =
  vc_created :: nat
  vc_limit :: "nat option"

definition VolumeCountBudget_charge :: "VolumeCountBudget \<Rightarrow> nat \<Rightarrow> VolumeCountBudget r7z_result" where
  "VolumeCountBudget_charge self count =
     (let exceeded = ResourceLimitExceeded ''archive volume count''
            (case vc_limit self of None \<Rightarrow> - 1 | Some limit \<Rightarrow> of_nat limit) in
      case usize_checked_add (vc_created self) count of
        None \<Rightarrow> Err exceeded
      | Some created \<Rightarrow>
          if (case vc_limit self of None \<Rightarrow> False | Some limit \<Rightarrow> created > limit) then Err exceeded
          else Ok (self\<lparr>vc_created := created\<rparr>))"

record OpenVolumeBudget =
  ov_open :: nat
  ov_limit :: nat

definition OpenVolumeBudget_charge :: "OpenVolumeBudget \<Rightarrow> OpenVolumeBudget r7z_result" where
  "OpenVolumeBudget_charge self =
     (let exceeded = ResourceLimitExceeded ''open archive volumes'' (of_nat (ov_limit self)) in
      case usize_checked_add (ov_open self) 1 of
        None \<Rightarrow> Err exceeded
      | Some n \<Rightarrow> if n > ov_limit self then Err exceeded else Ok (self\<lparr>ov_open := n\<rparr>))"

definition OpenVolumeBudget_release :: "OpenVolumeBudget \<Rightarrow> OpenVolumeBudget" where
  "OpenVolumeBudget_release self = self\<lparr>ov_open := ov_open self - 1\<rparr>"

record TemporaryStorageBudget =
  ts_written :: u64
  ts_limit :: "u64 option"

definition check_write :: "TemporaryStorageBudget \<Rightarrow> u64 \<Rightarrow> unit r7z_result" where
  "check_write self n =
     and_then (next_total (ts_written self) n (ts_limit self) ''temporary storage'') (\<lambda>_. Ok ())"

definition charge_write :: "TemporaryStorageBudget \<Rightarrow> u64 \<Rightarrow> TemporaryStorageBudget r7z_result" where
  "charge_write self n =
     and_then (next_total (ts_written self) n (ts_limit self) ''temporary storage'') (\<lambda>t.
       Ok (self\<lparr>ts_written := t\<rparr>))"

definition u64_saturating_sub :: "u64 \<Rightarrow> u64 \<Rightarrow> u64" where
  "u64_saturating_sub a b = (if b \<le> a then a - b else 0)"

record RetainedOutputBudget =
  ro_retained :: u64
  ro_limit :: "u64 option"

definition resized_total :: "RetainedOutputBudget \<Rightarrow> u64 \<Rightarrow> u64 \<Rightarrow> u64 r7z_result" where
  "resized_total self current next =
     next_total (u64_saturating_sub (ro_retained self) current) next (ro_limit self) ''retained output''"

definition check_resize :: "RetainedOutputBudget \<Rightarrow> u64 \<Rightarrow> u64 \<Rightarrow> unit r7z_result" where
  "check_resize self current next = and_then (resized_total self current next) (\<lambda>_. Ok ())"

definition resize :: "RetainedOutputBudget \<Rightarrow> u64 \<Rightarrow> u64 \<Rightarrow> RetainedOutputBudget r7z_result" where
  "resize self current next =
     and_then (resized_total self current next) (\<lambda>t. Ok (self\<lparr>ro_retained := t\<rparr>))"

definition reserve :: "RetainedOutputBudget \<Rightarrow> u64 \<Rightarrow> RetainedOutputBudget r7z_result" where
  "reserve self n = resize self 0 n"

definition release :: "RetainedOutputBudget \<Rightarrow> u64 \<Rightarrow> RetainedOutputBudget" where
  "release self n = self\<lparr>ro_retained := u64_saturating_sub (ro_retained self) n\<rparr>"

section \<open>The budget of an operation\<close>

record OperationBudget =
  monitor :: OperationMonitor
  limits :: ResourceLimits
  metadata :: u64
  decoded :: u64
  peak_decoder_working_set :: u64
  kdf :: KdfBudget
  temporary_storage :: TemporaryStorageBudget
  retained_output :: RetainedOutputBudget
  open_volumes :: OpenVolumeBudget
  volume_count :: VolumeCountBudget

definition OperationBudget_new :: "ResourceLimits \<Rightarrow> OperationBudget" where
  "OperationBudget_new limit =
     \<lparr>monitor = OperationMonitor_new None, limits = limit, metadata = 0, decoded = 0,
      peak_decoder_working_set = 0,
      kdf = \<lparr>kdf_used = 0, kdf_limit = max_total_kdf_cycles limit\<rparr>,
      temporary_storage = \<lparr>ts_written = 0, ts_limit = max_temporary_storage_bytes limit\<rparr>,
      retained_output = \<lparr>ro_retained = 0, ro_limit = max_retained_output_bytes limit\<rparr>,
      open_volumes = \<lparr>ov_open = 0, ov_limit = max_open_volumes limit\<rparr>,
      volume_count = \<lparr>vc_created = 0, vc_limit = max_volume_count limit\<rparr>\<rparr>"

definition with_control :: "OperationBudget \<Rightarrow> OperationControl option \<Rightarrow> OperationBudget" where
  "with_control self ctl = self\<lparr>monitor := OperationMonitor_new ctl\<rparr>"

text \<open>The two subtractions of the source wrap when the counter is above its limit.\<close>

definition decoded_remaining :: "OperationBudget \<Rightarrow> u64 option" where
  "decoded_remaining self = map_option (\<lambda>limit. limit - decoded self) (max_total_decoded_bytes (limits self))"

definition metadata_remaining :: "OperationBudget \<Rightarrow> u64" where
  "metadata_remaining self = max_metadata_bytes (limits self) - metadata self"

definition metadata_limit_error :: "OperationBudget \<Rightarrow> R7zError" where
  "metadata_limit_error self = ResourceLimitExceeded ''metadata'' (max_metadata_bytes (limits self))"

definition charge_metadata :: "OperationBudget \<Rightarrow> u64 \<Rightarrow> OperationBudget r7z_result" where
  "charge_metadata self n =
     (case u64_checked_add (metadata self) n of
        None \<Rightarrow> Err (metadata_limit_error self)
      | Some used \<Rightarrow>
          if used > max_metadata_bytes (limits self) then Err (metadata_limit_error self)
          else Ok (self\<lparr>metadata := used\<rparr>))"

definition map_metadata_error :: "OperationBudget \<Rightarrow> R7zError \<Rightarrow> R7zError" where
  "map_metadata_error self error =
     (if error = LimitExceeded ''metadata'' then metadata_limit_error self else error)"

definition decoded_limit_error :: "OperationBudget \<Rightarrow> R7zError" where
  "decoded_limit_error self = ResourceLimitExceeded ''total decoded output''
     (case max_total_decoded_bytes (limits self) of None \<Rightarrow> - 1 | Some limit \<Rightarrow> limit)"

definition next_decoded :: "OperationBudget \<Rightarrow> u64 \<Rightarrow> u64 r7z_result" where
  "next_decoded self n =
     (case u64_checked_add (decoded self) n of
        None \<Rightarrow>
          (case max_total_decoded_bytes (limits self) of
             None \<Rightarrow> Ok (- 1)
           | Some _ \<Rightarrow> Err (decoded_limit_error self))
      | Some s \<Rightarrow>
          if (case max_total_decoded_bytes (limits self) of None \<Rightarrow> False | Some limit \<Rightarrow> s > limit)
          then Err (decoded_limit_error self)
          else Ok s)"

definition charge_decoded :: "OperationBudget \<Rightarrow> u64 \<Rightarrow> OperationBudget r7z_result" where
  "charge_decoded self n = and_then (next_decoded self n) (\<lambda>t. Ok (self\<lparr>decoded := t\<rparr>))"

text \<open>
  Output that is decoded in one go is checked before and charged after; not if
  decoding stopped before it did any work.
\<close>

definition before_decoding :: "R7zError \<Rightarrow> bool" where
  "before_decoding error =
     (case error of
        PasswordRequired \<Rightarrow> True
      | ResourceLimitExceeded resource _ \<Rightarrow> resource = ''AES KDF cycles''
      | _ \<Rightarrow> False)"

definition with_eager_decoded_output :: "OperationBudget \<Rightarrow> u64 \<Rightarrow>
    (OperationBudget \<Rightarrow> 'a r7z_result \<times> OperationBudget) \<Rightarrow> 'a r7z_result \<times> OperationBudget" where
  "with_eager_decoded_output self n start =
     (case next_decoded self n of
        Err e \<Rightarrow> (Err e, self)
      | Ok new_total \<Rightarrow>
          (case start self of
             (Ok output, self) \<Rightarrow> (Ok output, self\<lparr>decoded := new_total\<rparr>)
           | (Err error, self) \<Rightarrow>
               (Err error, if before_decoding error then self else self\<lparr>decoded := new_total\<rparr>)))"

definition admit_decoder_working_set :: "OperationBudget \<Rightarrow> u64 \<Rightarrow> OperationBudget r7z_result" where
  "admit_decoder_working_set self n =
     (let limit = (case max_decoder_working_set_bytes (limits self) of
            None \<Rightarrow> MAX_DECODER_WORKING_SET_BYTES
          | Some configured \<Rightarrow> min configured MAX_DECODER_WORKING_SET_BYTES) in
      if n > limit then Err (ResourceLimitExceeded ''decoder working set'' limit)
      else Ok (self\<lparr>peak_decoder_working_set := max (peak_decoder_working_set self) n\<rparr>))"

definition charge_kdf_cycles :: "OperationBudget \<Rightarrow> u64 \<Rightarrow> OperationBudget r7z_result" where
  "charge_kdf_cycles self cycles =
     and_then (KdfBudget_charge (kdf self) cycles) (\<lambda>k. Ok (self\<lparr>kdf := k\<rparr>))"

definition with_retained_output_reservation :: "OperationBudget \<Rightarrow> u64 \<Rightarrow>
    (OperationBudget \<Rightarrow> 'a r7z_result \<times> OperationBudget) \<Rightarrow> 'a r7z_result \<times> OperationBudget" where
  "with_retained_output_reservation self n operation =
     (case reserve (retained_output self) n of
        Err e \<Rightarrow> (Err e, self)
      | Ok r \<Rightarrow>
          (case operation (self\<lparr>retained_output := r\<rparr>) of
             (result, self) \<Rightarrow> (result, self\<lparr>retained_output := release (retained_output self) n\<rparr>)))"

definition charge_open_volume :: "OperationBudget \<Rightarrow> OperationBudget r7z_result" where
  "charge_open_volume self =
     and_then (OpenVolumeBudget_charge (open_volumes self)) (\<lambda>v. Ok (self\<lparr>open_volumes := v\<rparr>))"

definition release_open_volume :: "OperationBudget \<Rightarrow> OperationBudget" where
  "release_open_volume self = self\<lparr>open_volumes := OpenVolumeBudget_release (open_volumes self)\<rparr>"


text \<open>A writer takes the counters it needs apart.\<close>

record WriterOperation =
  wo_kdf :: KdfBudget
  wo_monitor :: OperationMonitor

record SpoolBudget =
  sb_temporary_storage :: TemporaryStorageBudget
  sb_retained_output :: RetainedOutputBudget

record WriterBudgets =
  wb_operation :: WriterOperation
  wb_spool :: SpoolBudget
  wb_open_volumes :: OpenVolumeBudget
  wb_volume_count :: VolumeCountBudget

definition into_writer_budgets :: "OperationBudget \<Rightarrow> WriterBudgets" where
  "into_writer_budgets self =
     \<lparr>wb_operation = \<lparr>wo_kdf = kdf self, wo_monitor = for_phase (monitor self) Write\<rparr>,
      wb_spool = \<lparr>sb_temporary_storage = temporary_storage self, sb_retained_output = retained_output self\<rparr>,
      wb_open_volumes = open_volumes self, wb_volume_count = volume_count self\<rparr>"

section \<open>The counter contract\<close>

text \<open>
  All limited counters share a contract: charging either fails and names the resource, or
  adds exactly the amount and stays within the limit. Without a limit it never fails and the
  counter saturates. \<open>used\<close> is the counter, \<open>bound\<close> its limit.
\<close>

locale limited_counter =
  fixes charge :: "'s \<Rightarrow> u64 \<Rightarrow> 's r7z_result"
    and used :: "'s \<Rightarrow> u64"
    and bound :: "'s \<Rightarrow> u64 option"
    and resource :: string
  assumes charge_Ok: "charge s n = Ok s' \<Longrightarrow> bound s' = bound s \<and>
      unat (used s') = (if unat (used s) + unat n < 2 ^ 64 then unat (used s) + unat n else 2 ^ 64 - 1) \<and>
      (\<forall>b. bound s = Some b \<longrightarrow> unat (used s) + unat n \<le> unat b)"
    and charge_Err: "charge s n = Err e \<Longrightarrow> \<exists>b. bound s = Some b \<and> e = ResourceLimitExceeded resource b \<and>
      unat b < unat (used s) + unat n"
begin

definition within :: "'s \<Rightarrow> bool" where
  "within s \<longleftrightarrow> (\<forall>b. bound s = Some b \<longrightarrow> used s \<le> b)"

lemma charge_within: "charge s n = Ok s' \<Longrightarrow> within s'"
  using charge_Ok [of s n s'] unat_u64_less
  by (fastforce simp: within_def word_le_nat_alt split: if_splits)

lemma charge_iff: "(\<exists>s'. charge s n = Ok s') \<longleftrightarrow> (\<forall>b. bound s = Some b \<longrightarrow> unat (used s) + unat n \<le> unat b)"
  using charge_Ok charge_Err [of s n] by (cases "charge s n") fastforce+

text \<open>A run of charges, failures ignored: the counter is the sum of what was accepted.\<close>

fun charges :: "'s \<Rightarrow> u64 list \<Rightarrow> 's \<times> u64 list" where
  "charges s [] = (s, [])"
| "charges s (n # ns) =
     (case charge s n of
        Err _ \<Rightarrow> charges s ns
      | Ok s \<Rightarrow> let (s, accepted) = charges s ns in (s, n # accepted))"

lemma charges_exact:
  assumes "charges s ns = (s', accepted)" and "bound s = Some b" and "used s \<le> b"
  shows "bound s' = Some b \<and> unat (used s') = unat (used s) + sum_list (map unat accepted) \<and> used s' \<le> b"
  using assms
proof (induction ns arbitrary: s accepted)
  case (Cons n ns)
  show ?case
  proof (cases "charge s n")
    case (Err e)
    then show ?thesis using Cons by simp
  next
    case (Ok t)
    obtain acc where acc: "charges t ns = (s', acc)" "accepted = n # acc"
      using Cons.prems(1) Ok by (auto split: prod.splits)
    have "bound t = Some b" "unat (used t) = unat (used s) + unat n" "used t \<le> b"
      using charge_Ok [OF Ok] Cons.prems(2) unat_u64_less [of b] by (auto simp: word_le_nat_alt)
    then show ?thesis using Cons.IH [OF acc(1)] acc(2) by simp
  qed
qed simp

end

lemma u64_checked_add_eq_None: "u64_checked_add a b = None \<longleftrightarrow> usize_limit \<le> unat a + unat b"
  by (auto simp: u64_checked_add_def)

lemma u64_checked_add_fits: "u64_checked_add a b = Some c \<Longrightarrow> unat c = unat a + unat b \<and> unat a + unat b < usize_limit"
  using unat_u64_less [of c] by (simp add: u64_checked_add_eq_Some)

lemma next_total_Ok:
  assumes "next_total u n limit res = Ok t"
  shows "unat t = (if unat u + unat n < 2 ^ 64 then unat u + unat n else 2 ^ 64 - 1) \<and>
    (\<forall>b. limit = Some b \<longrightarrow> unat u + unat n \<le> unat b)"
  using assms
  by (cases "u64_checked_add u n")
     (auto simp: next_total_def u64_checked_add_eq_None word_less_nat_alt unat_u64_max
       dest!: u64_checked_add_fits split: if_splits option.splits)

lemma next_total_Err:
  assumes "next_total u n limit res = Err e"
  shows "\<exists>b. limit = Some b \<and> e = ResourceLimitExceeded res b \<and> unat b < unat u + unat n"
proof -
  have "unat b < unat u + unat n" if "usize_limit \<le> unat u + unat n" for b :: u64
    using that unat_u64_less [of b] by linarith
  with assms show ?thesis
    by (cases "u64_checked_add u n")
       (auto simp: next_total_def u64_checked_add_eq_None word_less_nat_alt
         dest!: u64_checked_add_fits split: if_splits option.splits)
qed

text \<open>The five counters that are limited in this way.\<close>

interpretation kdf_counter: limited_counter KdfBudget_charge kdf_used kdf_limit "''AES KDF cycles''"
  by unfold_locales (auto simp: KdfBudget_charge_def and_then_eq_Err dest!: next_total_Ok next_total_Err)

interpretation storage_counter: limited_counter charge_write ts_written ts_limit "''temporary storage''"
  by unfold_locales (auto simp: charge_write_def and_then_eq_Err dest!: next_total_Ok next_total_Err)

interpretation retained_counter: limited_counter reserve ro_retained ro_limit "''retained output''"
  by unfold_locales
     (auto simp: reserve_def resize_def resized_total_def u64_saturating_sub_def and_then_eq_Err
       dest!: next_total_Ok next_total_Err)

lemma next_decoded_next_total:
  "next_decoded self n = next_total (decoded self) n (max_total_decoded_bytes (limits self)) ''total decoded output''"
  by (auto simp: next_decoded_def next_total_def decoded_limit_error_def split: option.splits)

interpretation decoded_counter: limited_counter charge_decoded decoded
    "\<lambda>s. max_total_decoded_bytes (limits s)" "''total decoded output''"
  by unfold_locales
     (auto simp: charge_decoded_def next_decoded_next_total and_then_eq_Err dest!: next_total_Ok next_total_Err)

lemma charge_metadata_next_total:
  "charge_metadata self n =
     and_then (next_total (metadata self) n (Some (max_metadata_bytes (limits self))) ''metadata'')
       (\<lambda>t. Ok (self\<lparr>metadata := t\<rparr>))"
  by (auto simp: charge_metadata_def next_total_def metadata_limit_error_def split: option.splits)

interpretation metadata_counter: limited_counter charge_metadata metadata
    "\<lambda>s. Some (max_metadata_bytes (limits s))" "''metadata''"
  by unfold_locales
     (auto simp: charge_metadata_next_total and_then_eq_Err dest!: next_total_Ok next_total_Err)


section \<open>What an operation can do to its budget\<close>

text \<open>
  \<open>works b b'\<close>: some sequence of successful, failed and nested steps of an archive
  operation leads from \<open>b\<close> to \<open>b'\<close>. A step that fails leaves the budget alone and is
  not listed; the two that run a nested operation return a budget in either case. What the
  nested operation computes does not matter here, so it returns the unit value or an error.
\<close>

inductive works :: "OperationBudget \<Rightarrow> OperationBudget \<Rightarrow> bool" where
  works_refl: "works b b"
| works_trans: "works a b \<Longrightarrow> works b c \<Longrightarrow> works a c"
| works_monitor: "works b (b\<lparr>monitor := m\<rparr>)"
| works_metadata: "charge_metadata b n = Ok b' \<Longrightarrow> works b b'"
| works_decoded: "charge_decoded b n = Ok b' \<Longrightarrow> works b b'"
| works_admit: "admit_decoder_working_set b n = Ok b' \<Longrightarrow> works b b'"
| works_kdf: "charge_kdf_cycles b n = Ok b' \<Longrightarrow> works b b'"
| works_open: "charge_open_volume b = Ok b' \<Longrightarrow> works b b'"
| works_close: "works b (release_open_volume b)"
| works_volume: "VolumeCountBudget_charge (volume_count b) k = Ok v \<Longrightarrow> works b (b\<lparr>volume_count := v\<rparr>)"
| works_write: "charge_write (temporary_storage b) n = Ok s \<Longrightarrow> works b (b\<lparr>temporary_storage := s\<rparr>)"
| works_resize: "resize (retained_output b) k n = Ok r \<Longrightarrow> works b (b\<lparr>retained_output := r\<rparr>)"
| works_release: "works b (b\<lparr>retained_output := release (retained_output b) n\<rparr>)"
| works_eager: "works b (snd (start b)) \<Longrightarrow>
     works b (snd (with_eager_decoded_output b n (start :: OperationBudget \<Rightarrow> unit r7z_result \<times> _)))"
| works_reserved:
    "(\<And>r. reserve (retained_output b) n = Ok r \<Longrightarrow>
        works (b\<lparr>retained_output := r\<rparr>) (snd (operation (b\<lparr>retained_output := r\<rparr>)))) \<Longrightarrow>
     works b (snd (with_retained_output_reservation b n (operation :: OperationBudget \<Rightarrow> unit r7z_result \<times> _)))"

definition at_most :: "u64 \<Rightarrow> u64 option \<Rightarrow> bool" where
  "at_most n limit \<longleftrightarrow> (\<forall>b. limit = Some b \<longrightarrow> n \<le> b)"

definition budget_ok :: "ResourceLimits \<Rightarrow> OperationBudget \<Rightarrow> bool" where
  "budget_ok lims b \<longleftrightarrow> limits b = lims \<and>
     metadata b \<le> max_metadata_bytes lims \<and>
     at_most (decoded b) (max_total_decoded_bytes lims) \<and>
     peak_decoder_working_set b \<le> MAX_DECODER_WORKING_SET_BYTES \<and>
     at_most (peak_decoder_working_set b) (max_decoder_working_set_bytes lims) \<and>
     kdf_limit (kdf b) = max_total_kdf_cycles lims \<and> at_most (kdf_used (kdf b)) (max_total_kdf_cycles lims) \<and>
     ts_limit (temporary_storage b) = max_temporary_storage_bytes lims \<and>
     at_most (ts_written (temporary_storage b)) (max_temporary_storage_bytes lims) \<and>
     ro_limit (retained_output b) = max_retained_output_bytes lims \<and>
     at_most (ro_retained (retained_output b)) (max_retained_output_bytes lims) \<and>
     ov_limit (open_volumes b) = max_open_volumes lims \<and> ov_open (open_volumes b) \<le> max_open_volumes lims \<and>
     vc_limit (volume_count b) = max_volume_count lims \<and>
     (\<forall>k. max_volume_count lims = Some k \<longrightarrow> vc_created (volume_count b) \<le> k)"

lemma next_total_at_most: "next_total u n limit res = Ok t \<Longrightarrow> at_most t limit"
  using next_total_Ok [of u n limit res t] by (fastforce simp: at_most_def word_le_nat_alt split: if_splits)

lemma budget_new_ok: "budget_ok lims (OperationBudget_new lims)"
  by (auto simp: budget_ok_def OperationBudget_new_def at_most_def)

lemma at_most_decrease: "at_most n limit \<Longrightarrow> at_most (u64_saturating_sub n k) limit"
proof -
  have "u64_saturating_sub n k \<le> n"
    by (auto simp: u64_saturating_sub_def word_le_nat_alt unat_sub)
  then show "at_most n limit \<Longrightarrow> at_most (u64_saturating_sub n k) limit"
    by (auto simp: at_most_def)
qed

lemma works_budget_ok: "works b b' \<Longrightarrow> budget_ok lims b \<Longrightarrow> budget_ok lims b'"
proof (induction rule: works.induct)
  case (works_metadata b n b')
  then show ?case
    by (auto simp: charge_metadata_next_total budget_ok_def at_most_def dest!: next_total_at_most)
next
  case (works_decoded b n b')
  then show ?case
    by (auto simp: charge_decoded_def next_decoded_next_total budget_ok_def dest!: next_total_at_most)
next
  case (works_admit b n b')
  then show ?case
    by (auto simp: admit_decoder_working_set_def budget_ok_def at_most_def max_def min_def Let_def not_less
        split: if_splits option.splits)
next
  case (works_kdf b n b')
  then show ?case
    by (auto simp: charge_kdf_cycles_def KdfBudget_charge_def budget_ok_def dest!: next_total_at_most)
next
  case (works_open b b')
  then show ?case
    by (auto simp: charge_open_volume_def OpenVolumeBudget_charge_def budget_ok_def Let_def
        split: if_splits option.splits)
next
  case (works_close b)
  then show ?case by (auto simp: release_open_volume_def OpenVolumeBudget_release_def budget_ok_def)
next
  case (works_volume b k v)
  then show ?case
    by (auto simp: VolumeCountBudget_charge_def budget_ok_def Let_def split: if_splits option.splits)
next
  case (works_write b n s)
  then show ?case by (auto simp: charge_write_def budget_ok_def dest!: next_total_at_most)
next
  case (works_resize b k n r)
  then show ?case by (auto simp: resize_def resized_total_def budget_ok_def dest!: next_total_at_most)
next
  case (works_release b n)
  then show ?case by (auto simp: release_def budget_ok_def at_most_decrease)
next
  case (works_eager b start n)
  show ?case
  proof (cases "next_decoded b n")
    case (Ok t)
    then have "at_most t (max_total_decoded_bytes lims)"
      using works_eager.prems by (auto simp: next_decoded_next_total budget_ok_def dest!: next_total_at_most)
    then show ?thesis
      using Ok works_eager.IH [OF works_eager.prems]
      by (cases "start b"; cases "fst (start b)") (auto simp: with_eager_decoded_output_def budget_ok_def)
  qed (use works_eager.prems in \<open>simp add: with_eager_decoded_output_def\<close>)
next
  case (works_reserved b n operation)
  show ?case
  proof (cases "reserve (retained_output b) n")
    case (Ok r)
    then have "budget_ok lims (b\<lparr>retained_output := r\<rparr>)"
      using works_reserved.prems
      by (auto simp: reserve_def resize_def resized_total_def budget_ok_def dest!: next_total_at_most)
    then have "budget_ok lims (snd (operation (b\<lparr>retained_output := r\<rparr>)))"
      using works_reserved.IH Ok by blast
    then show ?thesis
      using Ok by (auto simp: with_retained_output_reservation_def release_def budget_ok_def at_most_decrease
          split: prod.splits)
  qed (use works_reserved.prems in \<open>simp add: with_retained_output_reservation_def\<close>)
qed (auto simp: budget_ok_def)

section \<open>Properties\<close>

text \<open>
  C16. However an archive operation charges its budget, with failed steps and
  nested operations, no counter ever exceeds the limit it was created with. In particular the
  two subtractions that compute what is left never wrap: limit minus counter, as numbers.
\<close>

theorem budget_never_exceeded:
  assumes "works (OperationBudget_new lims) b"
  shows "budget_ok lims b \<and>
    unat (metadata_remaining b) + unat (metadata b) = unat (max_metadata_bytes lims) \<and>
    (\<forall>limit. max_total_decoded_bytes lims = Some limit \<longrightarrow>
       (\<exists>left. decoded_remaining b = Some left \<and> unat left + unat (decoded b) = unat limit))"
proof -
  have ok: "budget_ok lims b"
    using works_budget_ok [OF assms budget_new_ok] .
  then show ?thesis
    by (auto simp: budget_ok_def at_most_def metadata_remaining_def decoded_remaining_def unat_sub word_le_nat_alt)
qed

definition example_limits :: ResourceLimits where
  "example_limits = ResourceLimits_default\<lparr>max_total_decoded_bytes := Some 8\<rparr>"

theorem budget_never_exceeded_witness:
  "\<exists>b. charge_decoded (OperationBudget_new example_limits) 5 = Ok b \<and> decoded_remaining b = Some 3 \<and>
     budget_ok example_limits b"
proof -
  have charge: "charge_decoded (OperationBudget_new example_limits) 5 =
      Ok ((OperationBudget_new example_limits)\<lparr>decoded := 5\<rparr>)" (is "_ = Ok ?b")
    by (simp add: charge_decoded_def next_decoded_def u64_checked_add_def OperationBudget_new_def example_limits_def)
  have "budget_ok example_limits ?b"
    using budget_never_exceeded [OF works_decoded [OF charge]] by simp
  then show ?thesis
    using charge by (simp add: decoded_remaining_def OperationBudget_new_def example_limits_def)
qed

text \<open>
  The decoded-byte counter is exact. Over any run of charges, some of them refused,
  it grows by the sum of the accepted amounts and stays within the limit; an amount is
  accepted exactly if it fits.
\<close>

theorem decoded_accounting:
  assumes "max_total_decoded_bytes (limits b) = Some limit" and "decoded b \<le> limit"
  shows "((\<exists>b'. charge_decoded b n = Ok b') \<longleftrightarrow> unat (decoded b) + unat n \<le> unat limit) \<and>
    (\<forall>ns b' accepted. decoded_counter.charges b ns = (b', accepted) \<longrightarrow>
       unat (decoded b') = unat (decoded b) + sum_list (map unat accepted) \<and> decoded b' \<le> limit)"
  using decoded_counter.charge_iff [of b n] decoded_counter.charges_exact [of b _ _ _ limit] assms by simp

theorem decoded_accounting_witness:
  "(\<exists>b'. charge_decoded (OperationBudget_new example_limits) 8 = Ok b') \<and>
   \<not> (\<exists>b'. charge_decoded (OperationBudget_new example_limits) 9 = Ok b')"
  using decoded_accounting [of "OperationBudget_new example_limits" 8 8]
    decoded_accounting [of "OperationBudget_new example_limits" 8 9]
  by (simp add: OperationBudget_new_def example_limits_def)

end
