(* ===== verification/Folder_Plans.thy ===== *)
theory Folder_Plans
  imports Headers Resources
begin

text \<open>
  \<^verbatim>\<open>src/src/folder_decode.rs\<close>, first part, and \<^verbatim>\<open>src/src/byte_range.rs\<close>: how the tables of a
  header are cut into folders. A plan walks the folders in order and hands each its packed
  streams, the sizes of its coders and its substreams; nothing is decoded yet.
\<close>

section \<open>Byte ranges\<close>

record ByteRange =
  br_start :: u64
  br_end :: u64

text \<open>The constructor asserts its precondition: \<open>None\<close> is the failing assertion.\<close>

definition ByteRange_from_range :: "u64 \<Rightarrow> u64 \<Rightarrow> ByteRange option" where
  "ByteRange_from_range s e = (if s \<le> e then Some \<lparr>br_start = s, br_end = e\<rparr> else None)"

definition ByteRange_len :: "ByteRange \<Rightarrow> u64" where
  "ByteRange_len self = br_end self - br_start self"


section \<open>Packed streams\<close>

record PackedStream =
  ps_range :: ByteRange
  ps_crc :: "u32 option"

record PackedStreams =
  ps_sizes :: "u64 list"
  ps_digests :: "u32 option list"
  ps_start :: u64

text \<open>\<open>digests.get(index).copied().flatten()\<close>.\<close>

definition digest_at :: "u32 option list \<Rightarrow> nat \<Rightarrow> u32 option" where
  "digest_at digests index = Option.bind (get digests index) (\<lambda>d. d)"

text \<open>The iterator of the source; an element \<open>None\<close> is a panic.\<close>

fun packed_streams_from :: "u32 option list \<Rightarrow> nat \<Rightarrow> u64 \<Rightarrow> u64 list \<Rightarrow> PackedStream option list" where
  "packed_streams_from digests index offset [] = []"
| "packed_streams_from digests index offset (sz # sizes) =
     (let end = offset + sz in
      map_option (\<lambda>rng. \<lparr>ps_range = rng, ps_crc = digest_at digests index\<rparr>) (ByteRange_from_range offset end) #
      packed_streams_from digests (index + 1) end sizes)"

definition packed_streams_iter :: "PackedStreams \<Rightarrow> PackedStream option list" where
  "packed_streams_iter self = packed_streams_from (ps_digests self) 0 (ps_start self) (ps_sizes self)"


section \<open>Substreams\<close>

record FolderStreamLayout =
  explicit_sizes :: "u64 list"
  final_size :: "u64 option"
  fsl_digests :: "u32 option list"

definition sum_sizes :: "u64 \<Rightarrow> u64 list \<Rightarrow> u64 r7z_result" where
  "sum_sizes = try_fold (\<lambda>acc sz. ok_or Parse (u64_checked_add acc sz))"

definition FolderStreamLayout_new :: "u64 \<Rightarrow> nat \<Rightarrow> u64 list \<Rightarrow> u32 option list \<Rightarrow> FolderStreamLayout r7z_result" where
  "FolderStreamLayout_new decoded_len stream_count explicit digests =
     (if length explicit \<noteq> stream_count - 1 \<or> (digests \<noteq> [] \<and> length digests \<noteq> stream_count)
      then Err Parse
      else
        and_then (sum_sizes 0 explicit) (\<lambda>explicit_total.
        and_then (ok_or Parse (u64_checked_sub decoded_len explicit_total)) (\<lambda>remaining.
          Ok \<lparr>explicit_sizes = explicit, final_size = (if stream_count \<noteq> 0 then Some remaining else None),
              fsl_digests = digests\<rparr>)))"

definition layout_len :: "FolderStreamLayout \<Rightarrow> nat" where
  "layout_len self = length (explicit_sizes self) + (case final_size self of None \<Rightarrow> 0 | Some _ \<Rightarrow> 1)"

record Substream =
  ss_range :: ByteRange
  ss_digest :: "u32 option"

record Substreams =
  ss_layout :: FolderStreamLayout
  ss_position :: nat
  ss_offset :: u64

definition layout_streams :: "FolderStreamLayout \<Rightarrow> Substreams" where
  "layout_streams self = \<lparr>ss_layout = self, ss_position = 0, ss_offset = 0\<rparr>"

text \<open>\<open>Substreams::next\<close>: the item, if any, with the new state; \<open>None\<close> outside is a panic.\<close>

definition substreams_next :: "Substreams \<Rightarrow> (Substream option \<times> Substreams) option" where
  "substreams_next self =
     (let layout = ss_layout self in
      if ss_position self = layout_len layout then Some (None, self)
      else
        case (case get (explicit_sizes layout) (ss_position self) of
                Some sz \<Rightarrow> Some sz
              | None \<Rightarrow> final_size layout) of
          None \<Rightarrow> Some (None, self)
        | Some sz \<Rightarrow>
            let end = ss_offset self + sz in
            map_option (\<lambda>rng.
              (Some \<lparr>ss_range = rng, ss_digest = digest_at (fsl_digests layout) (ss_position self)\<rparr>,
               self\<lparr>ss_offset := end, ss_position := ss_position self + 1\<rparr>))
              (ByteRange_from_range (ss_offset self) end))"

definition substreams_len :: "Substreams \<Rightarrow> nat" where
  "substreams_len self = layout_len (ss_layout self) - ss_position self"


section \<open>Folders\<close>

record LaidOut =
  lo_folder :: Folder
  lo_graph :: FolderGraph
  lo_streams :: PackedStreams
  lo_coder_sizes :: "u64 list"
  lo_unpack_size :: u64
  lo_crc :: "u32 option"

record FolderLayout =
  fl_state :: LaidOut
  fl_layout :: FolderStreamLayout

record FolderPlans =
  fp_pack_info :: PackInfo
  fp_unpack_info :: UnpackInfo
  fp_substream_info :: "SubstreamInfo option"
  fp_folder_index :: nat
  fp_pack_index :: nat
  fp_output_base :: nat
  fp_pack_offset :: u64
  fp_stream_size_base :: nat
  fp_stream_digest_base :: nat
  fp_finished :: bool

definition FolderPlans_new :: "PackInfo \<Rightarrow> UnpackInfo \<Rightarrow> SubstreamInfo option \<Rightarrow> FolderPlans" where
  "FolderPlans_new pack unpack sub =
     \<lparr>fp_pack_info = pack, fp_unpack_info = unpack, fp_substream_info = sub, fp_folder_index = 0,
      fp_pack_index = 0, fp_output_base = 0, fp_pack_offset = 0, fp_stream_size_base = 0,
      fp_stream_digest_base = 0, fp_finished = False\<rparr>"

definition validate_complete :: "FolderPlans \<Rightarrow> unit r7z_result" where
  "validate_complete self =
     (let pack = fp_pack_info self; unpack = fp_unpack_info self;
          pack_count = length (pack_size pack);
          folders = num_folders_usize unpack;
          substreams_complete = (case fp_substream_info self of
              None \<Rightarrow> True
            | Some info \<Rightarrow>
                length (num_unpack_streams_per_folder info) = folders \<and>
                length (si_unpack_sizes info) = fp_stream_size_base self \<and>
                (si_digests info = [] \<or> length (si_digests info) = fp_stream_digest_base self))
      in
      if fp_pack_index self \<noteq> pack_count \<or> unat (num_pack_streams pack) \<noteq> pack_count \<or>
         unat (num_folders unpack) \<noteq> folders \<or>
         fp_output_base self \<noteq> length (ui_unpack_sizes unpack) \<or>
         (pi_digests pack \<noteq> [] \<and> length (pi_digests pack) \<noteq> pack_count) \<or>
         (ui_digests unpack \<noteq> [] \<and> length (ui_digests unpack) \<noteq> folders) \<or>
         \<not> substreams_complete
      then Err Parse else Ok ())"

definition folder_stream_count :: "FolderPlans \<Rightarrow> nat r7z_result" where
  "folder_stream_count self =
     (case fp_substream_info self of
        None \<Rightarrow> Ok 1
      | Some info \<Rightarrow>
          and_then (ok_or Parse (get (num_unpack_streams_per_folder info) (fp_folder_index self))) (\<lambda>count.
            ok_or Parse (usize_try_from count)))"

text \<open>Which digests the substreams of the folder have.\<close>

definition stream_digests :: "FolderPlans \<Rightarrow> nat \<Rightarrow> u32 option list r7z_result" where
  "stream_digests self stream_digest_end =
     (case fp_substream_info self of
        Some info \<Rightarrow>
          if si_digests info \<noteq> [] then
            ok_or Parse (get_range (si_digests info) (fp_stream_digest_base self) stream_digest_end)
          else Ok []
      | None \<Rightarrow>
          Ok (case get_range (ui_digests (fp_unpack_info self)) (fp_folder_index self) (fp_folder_index self + 1) of
                Some ds \<Rightarrow> ds
              | None \<Rightarrow> []))"

definition next_folder :: "nom \<Rightarrow> FolderPlans \<Rightarrow> (FolderLayout \<times> FolderPlans) r7z_result" where
  "next_folder N self =
     (let pack = fp_pack_info self; unpack = fp_unpack_info self in
      and_then (parse_folder_with_graph N unpack (fp_folder_index self)) (\<lambda>(folder, graph).
      and_then (ok_or Parse (usize_checked_add (fp_pack_index self) (length (g_packed_inputs graph)))) (\<lambda>pack_end.
      and_then (ok_or Parse (get_range (pack_size pack) (fp_pack_index self) pack_end)) (\<lambda>pack_sizes.
      and_then (ok_or Parse (usize_checked_add (fp_output_base self) (total_out_streams folder))) (\<lambda>output_end.
      and_then (ok_or Parse (get_range (ui_unpack_sizes unpack) (fp_output_base self) output_end)) (\<lambda>coder_sizes.
      and_then (ok_or Parse (get coder_sizes (g_final_output graph))) (\<lambda>unpack_size.
      and_then (folder_stream_count self) (\<lambda>stream_count.
      and_then (ok_or Parse (usize_checked_add (fp_stream_size_base self) (stream_count - 1))) (\<lambda>stream_size_end.
      and_then (case fp_substream_info self of
                  Some info \<Rightarrow>
                    ok_or Parse (get_range (si_unpack_sizes info) (fp_stream_size_base self) stream_size_end)
                | None \<Rightarrow> Ok []) (\<lambda>explicit_stream_sizes.
      and_then (ok_or Parse (usize_checked_add (fp_stream_digest_base self) stream_count)) (\<lambda>stream_digest_end.
      and_then (stream_digests self stream_digest_end) (\<lambda>digests.
      and_then (FolderStreamLayout_new unpack_size stream_count explicit_stream_sizes digests) (\<lambda>layout.
      and_then (sum_sizes (fp_pack_offset self) pack_sizes) (\<lambda>pack_offset.
        Ok (\<lparr>fl_state =
               \<lparr>lo_folder = folder, lo_graph = graph,
                lo_streams =
                  \<lparr>ps_sizes = pack_sizes,
                   ps_digests = (case get_range (pi_digests pack) (fp_pack_index self)
                                        (min pack_end (length (pi_digests pack))) of
                                   Some ds \<Rightarrow> ds
                                 | None \<Rightarrow> []),
                   ps_start = fp_pack_offset self\<rparr>,
                lo_coder_sizes = coder_sizes, lo_unpack_size = unpack_size,
                lo_crc = digest_at (ui_digests unpack) (fp_folder_index self)\<rparr>,
             fl_layout = layout\<rparr>,
            self\<lparr>fp_folder_index := fp_folder_index self + 1, fp_pack_index := pack_end,
              fp_pack_offset := pack_offset, fp_output_base := output_end,
              fp_stream_size_base := stream_size_end, fp_stream_digest_base := stream_digest_end\<rparr>)))))))))))))))"

text \<open>\<open>Iterator::next\<close>: after the last folder the totals are checked; an error ends the walk.\<close>

definition FolderPlans_next :: "nom \<Rightarrow> FolderPlans \<Rightarrow> FolderLayout r7z_result option \<times> FolderPlans" where
  "FolderPlans_next N self =
     (if fp_finished self then (None, self)
      else if fp_folder_index self = num_folders_usize (fp_unpack_info self) then
        (case validate_complete self of Err e \<Rightarrow> Some (Err e) | Ok _ \<Rightarrow> None, self\<lparr>fp_finished := True\<rparr>)
      else
        case next_folder N self of
          Err e \<Rightarrow> (Some (Err e), self\<lparr>fp_finished := True\<rparr>)
        | Ok (folder, self) \<Rightarrow> (Some (Ok folder), self))"


text \<open>A folder that is handed out lies below the number of folders: the walk makes progress.\<close>

lemma next_folder_index:
  assumes "next_folder N self = Ok (f, self')"
  shows "fp_folder_index self < num_folders_usize (fp_unpack_info self) \<and>
    fp_folder_index self' = Suc (fp_folder_index self) \<and> fp_unpack_info self' = fp_unpack_info self \<and>
    fp_finished self' = fp_finished self"
  using assms
  by (auto simp: next_folder_def Let_def parse_folder_with_graph_def folder_bytes_def num_folders_usize_def)

definition plans_left :: "FolderPlans \<Rightarrow> nat" where
  "plans_left self =
     (if fp_finished self then 0 else Suc (num_folders_usize (fp_unpack_info self) - fp_folder_index self))"

lemma FolderPlans_next_progress:
  "FolderPlans_next N self = (Some r, self') \<Longrightarrow> plans_left self' < plans_left self"
  by (auto simp: FolderPlans_next_def plans_left_def split: result.splits if_splits dest!: next_folder_index)

text \<open>The loop of \<open>FolderLayouts::validate\<close>: the sum of the unpacked sizes, checked on the way.\<close>

function preflight_loop :: "nom \<Rightarrow> u64 option \<Rightarrow> FolderPlans \<Rightarrow> u64 \<Rightarrow> (u64 \<times> FolderPlans) r7z_result" where
  "preflight_loop N limit self output_size =
     (case FolderPlans_next N self of
        (None, self) \<Rightarrow> Ok (output_size, self)
      | (Some folder, self) \<Rightarrow>
          and_then folder (\<lambda>folder.
          and_then (ok_or Parse (u64_checked_add output_size (lo_unpack_size (fl_state folder)))) (\<lambda>output_size.
            if (case limit of None \<Rightarrow> False | Some limit \<Rightarrow> output_size > limit)
            then Err (LimitExceeded ''metadata'')
            else preflight_loop N limit self output_size)))"
  by pat_completeness auto
termination
  by (relation "measure (\<lambda>(N, limit, self, output_size). plans_left self)")
     (auto dest: FolderPlans_next_progress [OF sym])

declare preflight_loop.simps [simp del]

definition substream_count :: "nat \<Rightarrow> SubstreamInfo option \<Rightarrow> nat r7z_result" where
  "substream_count folders sub =
     (case sub of
        None \<Rightarrow> Ok folders
      | Some info \<Rightarrow>
          if length (num_unpack_streams_per_folder info) \<noteq> folders then Err Parse
          else
            try_fold (\<lambda>acc count.
                and_then (ok_or Parse (usize_try_from count)) (\<lambda>count.
                  ok_or Parse (usize_checked_add acc count)))
              0 (num_unpack_streams_per_folder info))"

record FolderLayouts =
  fls_plans :: FolderPlans
  fls_stream_count :: nat

record PreflightedFolderLayouts =
  pf_layouts :: FolderLayouts
  pf_output_size :: u64

definition FolderLayouts_validate :: "nom \<Rightarrow> PackInfo \<Rightarrow> UnpackInfo \<Rightarrow> SubstreamInfo option \<Rightarrow> u64 option \<Rightarrow>
    PreflightedFolderLayouts r7z_result" where
  "FolderLayouts_validate N pack unpack sub limit =
     and_then (sum_sizes 0 (pack_size pack)) (\<lambda>packed_bytes.
       if (case limit of None \<Rightarrow> False | Some limit \<Rightarrow> packed_bytes > limit)
       then Err (LimitExceeded ''metadata'')
       else
         let plans = FolderPlans_new pack unpack sub in
         and_then (preflight_loop N limit plans 0) (\<lambda>(output_size, preflight).
         and_then (substream_count (num_folders_usize unpack) sub) (\<lambda>stream_count.
           if stream_count \<noteq> fp_stream_digest_base preflight then Err Parse
           else Ok \<lparr>pf_layouts = \<lparr>fls_plans = plans, fls_stream_count = stream_count\<rparr>,
                    pf_output_size = output_size\<rparr>)))"

definition FolderLayouts_preflight :: "nom \<Rightarrow> PackInfo \<Rightarrow> UnpackInfo \<Rightarrow> SubstreamInfo option \<Rightarrow> u64 \<Rightarrow>
    PreflightedFolderLayouts r7z_result" where
  "FolderLayouts_preflight N pack unpack sub metadata_limit =
     FolderLayouts_validate N pack unpack sub (Some metadata_limit)"

definition for_streams :: "StreamInfo \<Rightarrow> FolderLayouts r7z_result" where
  "for_streams streams =
     and_then (packed_folders streams) (\<lambda>(pack, unpack).
       let folders = num_folders_usize unpack in
       if unat (num_pack_streams pack) \<noteq> length (pack_size pack) \<or>
          (pi_digests pack \<noteq> [] \<and> length (pi_digests pack) \<noteq> length (pack_size pack)) \<or>
          unat (num_folders unpack) \<noteq> folders \<or>
          (ui_digests unpack \<noteq> [] \<and> length (ui_digests unpack) \<noteq> folders)
       then Err Parse
       else
         and_then (substream_count folders (substream_info streams)) (\<lambda>stream_count.
           Ok \<lparr>fls_plans = FolderPlans_new pack unpack (substream_info streams),
               fls_stream_count = stream_count\<rparr>))"

text \<open>\<open>EncodedHeader::folder\<close> of \<^verbatim>\<open>src/src/headers.rs\<close>: the one folder of an encoded header.\<close>

definition EncodedHeader_folder :: "nom \<Rightarrow> EncodedHeader \<Rightarrow> u64 \<Rightarrow> FolderLayout r7z_result" where
  "EncodedHeader_folder N self metadata_limit =
     (let pack = eh_pack_info self; unpack = eh_unpack_info self in
      if num_pack_streams pack = 1 \<and> length (pack_size pack) = 1 \<and> num_folders unpack = 1 \<and>
         num_folders_usize unpack = 1
      then
        and_then (FolderLayouts_preflight N pack unpack None metadata_limit) (\<lambda>p.
        and_then (ok_or Parse (fst (FolderPlans_next N (fls_plans (pf_layouts p))))) (\<lambda>folder. folder))
      else Err Parse)"

text \<open>A consumer that walks all folders: those handed out, and the error that ended the walk.\<close>

function plans_run :: "nom \<Rightarrow> FolderPlans \<Rightarrow> FolderLayout list \<times> R7zError option" where
  "plans_run N self =
     (case FolderPlans_next N self of
        (None, self) \<Rightarrow> ([], None)
      | (Some (Err e), self) \<Rightarrow> ([], Some e)
      | (Some (Ok folder), self) \<Rightarrow> (let (folders, e) = plans_run N self in (folder # folders, e)))"
  by pat_completeness auto
termination
  by (relation "measure (\<lambda>(N, self). plans_left self)") (auto dest: FolderPlans_next_progress [OF sym])

declare plans_run.simps [simp del]

section \<open>External folders\<close>

record ExternalFolderPlan =
  ep_folders :: FolderLayouts
  ep_output_limit :: u64

text \<open>\<open>size_of::<Bytes>()\<close> on a 64-bit target: four words.\<close>

abbreviation BYTES_SIZE :: nat where
  "BYTES_SIZE \<equiv> 32"

definition external_slot_bytes :: "nat \<Rightarrow> u64 r7z_result" where
  "external_slot_bytes stream_count =
     and_then (ok_or (LimitExceeded ''metadata'') (usize_checked_mul stream_count BYTES_SIZE)) (\<lambda>n. Ok (of_nat n))"

definition ExternalFolderPlan_new :: "nom \<Rightarrow> StreamInfo \<Rightarrow> OperationBudget \<Rightarrow>
    ExternalFolderPlan r7z_result \<times> OperationBudget" where
  "ExternalFolderPlan_new N streams budget =
     (let checked =
        and_then (packed_folders streams) (\<lambda>(pack, unpack).
        and_then (map_err (map_metadata_error budget)
            (FolderLayouts_preflight N pack unpack (substream_info streams) (metadata_remaining budget))) (\<lambda>validated.
        and_then (external_slot_bytes (fls_stream_count (pf_layouts validated))) (\<lambda>slot_bytes.
          Ok (validated, slot_bytes))))
      in
      case checked of
        Err e \<Rightarrow> (Err e, budget)
      | Ok (validated, slot_bytes) \<Rightarrow>
          (case charge_metadata budget slot_bytes of
             Err e \<Rightarrow> (Err e, budget)
           | Ok budget \<Rightarrow>
               (case charge_metadata budget (pf_output_size validated) of
                  Err e \<Rightarrow> (Err e, budget)
                | Ok budget \<Rightarrow>
                    (Ok \<lparr>ep_folders = pf_layouts validated, ep_output_limit = pf_output_size validated\<rparr>, budget))))"

end
