(* ===== verification/Folder_Tiling.thy ===== *)
theory Folder_Tiling
  imports Folder_Plans
begin

text \<open>
  What the folder plans promise: the packed streams of the folders tile the packed data, their
  coder sizes and substream sizes partition the tables of the header, the substreams of a
  folder tile its output, and none of the additions of the iterators overflows.
\<close>

section \<open>Tilings\<close>

text \<open>Adjacent ranges of the given sizes, as numbers: the specification of both iterators.\<close>

fun tile :: "nat \<Rightarrow> nat list \<Rightarrow> (nat \<times> nat) list" where
  "tile a [] = []"
| "tile a (n # ns) = (a, a + n) # tile (a + n) ns"

lemma tile_append: "tile a (xs @ ys) = tile a xs @ tile (a + sum_list xs) ys"
  by (induction xs arbitrary: a) (simp_all add: add.assoc)

lemma length_tile [simp]: "length (tile a ns) = length ns"
  by (induction ns arbitrary: a) simp_all

lemma tile_bounds: "(s, e) \<in> set (tile a ns) \<Longrightarrow> a \<le> s \<and> s \<le> e \<and> e \<le> a + sum_list ns"
proof (induction ns arbitrary: a)
  case (Cons n ns)
  from Cons.prems show ?case using Cons.IH [of "a + n"] by auto
qed simp

definition span :: "ByteRange \<Rightarrow> nat \<times> nat" where
  "span r = (unat (br_start r), unat (br_end r))"

definition sizes_total :: "u64 list \<Rightarrow> nat" where
  "sizes_total sizes = sum_list (map unat sizes)"

lemma sizes_total_simps [simp]:
  "sizes_total [] = 0" "sizes_total (x # xs) = unat x + sizes_total xs"
  "sizes_total (xs @ ys) = sizes_total xs + sizes_total ys"
  by (simp_all add: sizes_total_def)

lemma sum_sizes_eq_Ok: "sum_sizes acc sizes = Ok t \<longleftrightarrow> unat t = unat acc + sizes_total sizes"
proof (induction sizes arbitrary: acc)
  case Nil
  show ?case by (auto simp: sum_sizes_def word_unat_eq_iff)
next
  case (Cons x xs)
  have "sum_sizes acc (x # xs) = Ok t \<longleftrightarrow> (\<exists>s. u64_checked_add acc x = Some s \<and> sum_sizes s xs = Ok t)"
    by (simp add: sum_sizes_def)
  also have "\<dots> \<longleftrightarrow> (\<exists>s :: u64. unat s = unat acc + unat x \<and> unat t = unat s + sizes_total xs)"
    by (simp add: u64_checked_add_eq_Some Cons.IH)
  also have "\<dots> \<longleftrightarrow> unat t = unat acc + sizes_total (x # xs)"
  proof
    assume t: "unat t = unat acc + sizes_total (x # xs)"
    then have "unat acc + unat x < usize_limit" using unat_u64_less [of t] by simp
    then have "unat (acc + x) = unat acc + unat x" by (simp add: unat_word_ariths)
    then show "\<exists>s :: u64. unat s = unat acc + unat x \<and> unat t = unat s + sizes_total xs"
      using t by (intro exI [of _ "acc + x"]) simp
  qed auto
  finally show ?case .
qed

lemma unat_add_fits: "unat (a :: u64) + unat b < usize_limit \<Longrightarrow> unat (a + b) = unat a + unat b"
  by (simp add: unat_word_ariths)

lemma from_range_fits:
  assumes "unat a + unat n < usize_limit"
  shows "\<exists>r. ByteRange_from_range a (a + n) = Some r \<and> span r = (unat a, unat a + unat n)"
  using assms by (simp add: ByteRange_from_range_def span_def word_le_nat_alt unat_add_fits)

text \<open>The packed streams of a folder tile from its offset on, and nothing panics.\<close>

lemma packed_streams_tile:
  assumes "unat offset + sizes_total sizes < usize_limit"
  shows "map (map_option (span \<circ> ps_range)) (packed_streams_from ds k offset sizes) =
    map Some (tile (unat offset) (map unat sizes))"
  using assms
proof (induction sizes arbitrary: offset k)
  case (Cons n sizes)
  then have fits: "unat offset + unat n < usize_limit" by simp
  from from_range_fits [OF fits] obtain r where r: "ByteRange_from_range offset (offset + n) = Some r"
    "span r = (unat offset, unat offset + unat n)" by blast
  show ?case
    using Cons.IH [of "offset + n" "Suc k"] Cons.prems r unat_add_fits [OF fits] by (simp add: Let_def)
qed simp


section \<open>Substreams\<close>

text \<open>The first \<open>n\<close> items of the iterator; \<open>None\<close> if one of the steps panics.\<close>

fun substreams_take :: "nat \<Rightarrow> Substreams \<Rightarrow> (Substream list \<times> Substreams) option" where
  "substreams_take 0 self = Some ([], self)"
| "substreams_take (Suc n) self =
     (case substreams_next self of
        None \<Rightarrow> None
      | Some (None, self) \<Rightarrow> Some ([], self)
      | Some (Some s, self) \<Rightarrow> map_option (\<lambda>(ss, self). (s # ss, self)) (substreams_take n self))"

text \<open>The sizes of the substreams, the implicit last one included.\<close>

definition layout_sizes :: "FolderStreamLayout \<Rightarrow> u64 list" where
  "layout_sizes l = explicit_sizes l @ (case final_size l of None \<Rightarrow> [] | Some n \<Rightarrow> [n])"

lemma layout_len_sizes: "layout_len l = length (layout_sizes l)"
  by (simp add: layout_len_def layout_sizes_def split: option.splits)

lemma layout_size_at:
  assumes "k < layout_len l"
  shows "(case get (explicit_sizes l) k of Some n \<Rightarrow> Some n | None \<Rightarrow> final_size l) = Some (layout_sizes l ! k)"
proof (cases "k < length (explicit_sizes l)")
  case False
  then show ?thesis
    using assms by (cases "final_size l") (auto simp: layout_len_def layout_sizes_def get_def nth_append)
qed (auto simp: layout_sizes_def get_def nth_append)

lemma substreams_next_tile:
  assumes k: "k < layout_len l" and fits: "unat off + unat (layout_sizes l ! k) < usize_limit"
  obtains r where "span r = (unat off, unat off + unat (layout_sizes l ! k))"
    "substreams_next \<lparr>ss_layout = l, ss_position = k, ss_offset = off\<rparr> =
      Some (Some \<lparr>ss_range = r, ss_digest = digest_at (fsl_digests l) k\<rparr>,
        \<lparr>ss_layout = l, ss_position = Suc k, ss_offset = off + layout_sizes l ! k\<rparr>)"
proof -
  from from_range_fits [OF fits] obtain r where "ByteRange_from_range off (off + layout_sizes l ! k) = Some r"
    "span r = (unat off, unat off + unat (layout_sizes l ! k))" by blast
  with layout_size_at [OF k] k show thesis by (intro that) (auto simp: substreams_next_def Let_def)
qed

lemma substreams_take_tile:
  assumes "n \<le> layout_len l - k" and "k \<le> layout_len l"
    and "unat off + sizes_total (drop k (layout_sizes l)) < usize_limit"
  shows "\<exists>ss off'. substreams_take n \<lparr>ss_layout = l, ss_position = k, ss_offset = off\<rparr> =
      Some (ss, \<lparr>ss_layout = l, ss_position = k + n, ss_offset = off'\<rparr>) \<and>
    map (span \<circ> ss_range) ss = tile (unat off) (map unat (take n (drop k (layout_sizes l)))) \<and>
    map ss_digest ss = map (digest_at (fsl_digests l)) [k..<k + n]"
  using assms
proof (induction n arbitrary: k off)
  case (Suc n)
  then have k: "k < layout_len l" by simp
  then have d: "drop k (layout_sizes l) = layout_sizes l ! k # drop (Suc k) (layout_sizes l)"
    by (simp add: layout_len_sizes Cons_nth_drop_Suc)
  have fits: "unat off + unat (layout_sizes l ! k) < usize_limit" using Suc.prems(3) d by simp
  from substreams_next_tile [OF k fits] obtain r where r: "span r = (unat off, unat off + unat (layout_sizes l ! k))"
    and step: "substreams_next \<lparr>ss_layout = l, ss_position = k, ss_offset = off\<rparr> =
      Some (Some \<lparr>ss_range = r, ss_digest = digest_at (fsl_digests l) k\<rparr>,
        \<lparr>ss_layout = l, ss_position = Suc k, ss_offset = off + layout_sizes l ! k\<rparr>)" by blast
  have "n \<le> layout_len l - Suc k" "Suc k \<le> layout_len l"
    "unat (off + layout_sizes l ! k) + sizes_total (drop (Suc k) (layout_sizes l)) < usize_limit"
    using Suc.prems d k unat_add_fits [OF fits] by simp_all
  from Suc.IH [OF this] obtain ss off' where
    "substreams_take n \<lparr>ss_layout = l, ss_position = Suc k, ss_offset = off + layout_sizes l ! k\<rparr> =
      Some (ss, \<lparr>ss_layout = l, ss_position = Suc k + n, ss_offset = off'\<rparr>)"
    "map (span \<circ> ss_range) ss =
      tile (unat (off + layout_sizes l ! k)) (map unat (take n (drop (Suc k) (layout_sizes l))))"
    "map ss_digest ss = map (digest_at (fsl_digests l)) [Suc k..<Suc k + n]" by blast
  moreover have "[k..<k + Suc n] = k # [Suc k..<Suc k + n]"
    by (simp add: upt_conv_Cons del: upt_Suc)
  ultimately show ?case
    using step r d unat_add_fits [OF fits] by (simp add: o_def del: upt_Suc)
qed simp

lemma FolderStreamLayout_new_Ok:
  assumes "FolderStreamLayout_new len count explicit digests = Ok l"
  shows "explicit_sizes l = explicit \<and> fsl_digests l = digests \<and> layout_len l = count \<and>
    length explicit = count - 1 \<and> (digests = [] \<or> length digests = count) \<and>
    (if count = 0 then layout_sizes l = [] else sizes_total (layout_sizes l) = unat len)"
  using assms
  by (auto simp: FolderStreamLayout_new_def layout_len_def layout_sizes_def sum_sizes_eq_Ok
      u64_checked_sub_eq_Some split: if_splits)


section \<open>The walk over the folders\<close>

text \<open>What one step takes from each table.\<close>

definition taken :: "'a list \<Rightarrow> nat \<Rightarrow> nat \<Rightarrow> 'a list \<Rightarrow> bool" where
  "taken xs a b ys \<longleftrightarrow> a \<le> b \<and> b \<le> length xs \<and> ys = take (b - a) (drop a xs)"

lemma taken_drop: "taken xs a b ys \<Longrightarrow> drop a xs = ys @ drop b xs"
  by (auto simp: taken_def) (metis append_take_drop_id drop_drop le_add_diff_inverse2)

definition same_tables :: "FolderPlans \<Rightarrow> FolderPlans \<Rightarrow> bool" where
  "same_tables a b \<longleftrightarrow> fp_pack_info a = fp_pack_info b \<and> fp_unpack_info a = fp_unpack_info b \<and>
     fp_substream_info a = fp_substream_info b"

lemma folder_stream_count_Ok:
  "folder_stream_count self = Ok c \<Longrightarrow> fp_substream_info self = Some info \<Longrightarrow>
     fp_folder_index self < length (num_unpack_streams_per_folder info) \<and>
     c = unat (num_unpack_streams_per_folder info ! fp_folder_index self)"
  by (simp add: folder_stream_count_def)

lemma next_folder_Ok:
  assumes "next_folder N self = Ok (f, self')"
  shows "same_tables self self' \<and>
    parse_folder_with_graph N (fp_unpack_info self) (fp_folder_index self) =
      Ok (lo_folder (fl_state f), lo_graph (fl_state f)) \<and>
    taken (pack_size (fp_pack_info self)) (fp_pack_index self) (fp_pack_index self') (ps_sizes (lo_streams (fl_state f))) \<and>
    ps_start (lo_streams (fl_state f)) = fp_pack_offset self \<and>
    unat (fp_pack_offset self') = unat (fp_pack_offset self) + sizes_total (ps_sizes (lo_streams (fl_state f))) \<and>
    taken (ui_unpack_sizes (fp_unpack_info self)) (fp_output_base self) (fp_output_base self') (lo_coder_sizes (fl_state f)) \<and>
    fp_stream_digest_base self' = fp_stream_digest_base self + layout_len (fl_layout f) \<and>
    (\<exists>count ds. folder_stream_count self = Ok count \<and>
       FolderStreamLayout_new (lo_unpack_size (fl_state f)) count (explicit_sizes (fl_layout f)) ds = Ok (fl_layout f)) \<and>
    (\<forall>info. fp_substream_info self = Some info \<longrightarrow>
       taken (si_unpack_sizes info) (fp_stream_size_base self) (fp_stream_size_base self') (explicit_sizes (fl_layout f)))"
proof -
  obtain folder graph pack_end pack_sizes output_end coder_sizes unpack_size count size_end explicit digest_end
      digests layout pack_offset where
    a: "parse_folder_with_graph N (fp_unpack_info self) (fp_folder_index self) = Ok (folder, graph)"
    and b: "get_range (pack_size (fp_pack_info self)) (fp_pack_index self) pack_end = Some pack_sizes"
    and c: "get_range (ui_unpack_sizes (fp_unpack_info self)) (fp_output_base self) output_end = Some coder_sizes"
    and d: "folder_stream_count self = Ok count" "digest_end = fp_stream_digest_base self + count"
    and e: "(case fp_substream_info self of
        Some info \<Rightarrow> ok_or Parse (get_range (si_unpack_sizes info) (fp_stream_size_base self) size_end)
      | None \<Rightarrow> Ok []) = Ok explicit"
    and f: "FolderStreamLayout_new unpack_size count explicit digests = Ok layout"
    and g: "sum_sizes (fp_pack_offset self) pack_sizes = Ok pack_offset"
    and res: "lo_folder (fl_state f) = folder" "lo_graph (fl_state f) = graph"
      "ps_sizes (lo_streams (fl_state f)) = pack_sizes" "ps_start (lo_streams (fl_state f)) = fp_pack_offset self"
      "lo_coder_sizes (fl_state f) = coder_sizes" "lo_unpack_size (fl_state f) = unpack_size" "fl_layout f = layout"
      "self' = self\<lparr>fp_folder_index := fp_folder_index self + 1, fp_pack_index := pack_end,
              fp_pack_offset := pack_offset, fp_output_base := output_end,
              fp_stream_size_base := size_end, fp_stream_digest_base := digest_end\<rparr>"
    using assms unfolding next_folder_def Let_def by auto
  show ?thesis
    using a b c d e f g res FolderStreamLayout_new_Ok [OF f]
    by (auto simp: same_tables_def taken_def get_range_eq_Some sum_sizes_eq_Ok split: option.splits)
qed


abbreviation packed_sizes :: "FolderLayout \<Rightarrow> u64 list" where
  "packed_sizes f \<equiv> ps_sizes (lo_streams (fl_state f))"

abbreviation coder_sizes :: "FolderLayout \<Rightarrow> u64 list" where
  "coder_sizes f \<equiv> lo_coder_sizes (fl_state f)"

abbreviation stream_sizes :: "FolderLayout \<Rightarrow> u64 list" where
  "stream_sizes f \<equiv> explicit_sizes (fl_layout f)"

text \<open>A prefix of what is left of a table, and all of it if the walk ended without error.\<close>

definition consumed :: "R7zError option \<Rightarrow> 'a list \<Rightarrow> nat \<Rightarrow> 'a list \<Rightarrow> bool" where
  "consumed e table k xs \<longleftrightarrow> (\<exists>n. k + n \<le> length table \<and> xs = take n (drop k table) \<and> (e = None \<longrightarrow> k + n = length table))"

lemma consumed_cons:
  assumes "taken table a b ys" and "consumed e table b xs"
  shows "consumed e table a (ys @ xs)"
proof -
  from assms(2) obtain n where n: "b + n \<le> length table" "xs = take n (drop b table)" "e = None \<longrightarrow> b + n = length table"
    by (auto simp: consumed_def)
  have "length ys = b - a"
    using assms(1) by (auto simp: taken_def)
  then have "ys @ xs = take ((b - a) + n) (drop a table)"
    unfolding taken_drop [OF assms(1)] by (simp add: n(2))
  then show ?thesis
    using n(1,3) assms(1) unfolding consumed_def taken_def
    by (intro exI [of _ "(b - a) + n"]) simp
qed

lemma consumed_nil:
  "k \<le> length table \<Longrightarrow> consumed (Some e) table k []"
  "k = length table \<Longrightarrow> consumed e' table k []"
  by (auto simp: consumed_def intro!: exI [of _ 0])

definition bases_ok :: "FolderPlans \<Rightarrow> bool" where
  "bases_ok self \<longleftrightarrow>
     fp_pack_index self \<le> length (pack_size (fp_pack_info self)) \<and>
     fp_output_base self \<le> length (ui_unpack_sizes (fp_unpack_info self)) \<and>
     fp_folder_index self \<le> num_folders_usize (fp_unpack_info self) \<and>
     (\<forall>info. fp_substream_info self = Some info \<longrightarrow> fp_stream_size_base self \<le> length (si_unpack_sizes info))"

lemma next_folder_bases:
  assumes "next_folder N self = Ok (f, self')" and "bases_ok self"
  shows "bases_ok self'"
  using next_folder_Ok [OF assms(1)] next_folder_index [OF assms(1)] assms(2)
  by (auto simp: bases_ok_def same_tables_def taken_def)

definition walk_ok :: "FolderPlans \<Rightarrow> FolderLayout list \<Rightarrow> R7zError option \<Rightarrow> bool" where
  "walk_ok self fs e \<longleftrightarrow>
     consumed e (pack_size (fp_pack_info self)) (fp_pack_index self) (concat (map packed_sizes fs)) \<and>
     map (map_option (span \<circ> ps_range)) (concat (map (\<lambda>f. packed_streams_iter (lo_streams (fl_state f))) fs)) =
       map Some (tile (unat (fp_pack_offset self)) (map unat (concat (map packed_sizes fs)))) \<and>
     consumed e (ui_unpack_sizes (fp_unpack_info self)) (fp_output_base self) (concat (map coder_sizes fs)) \<and>
     (\<forall>info. fp_substream_info self = Some info \<longrightarrow>
        consumed e (si_unpack_sizes info) (fp_stream_size_base self) (concat (map stream_sizes fs))) \<and>
     (e = None \<longrightarrow> fp_folder_index self + length fs = num_folders_usize (fp_unpack_info self)) \<and>
     fp_folder_index self + length fs \<le> num_folders_usize (fp_unpack_info self)"

lemma walk_ok_cons:
  assumes nf: "next_folder N self = Ok (f, self')" and walk: "walk_ok self' fs e"
  shows "walk_ok self (f # fs) e"
proof -
  note ok = next_folder_Ok [OF nf]
  have tabs: "fp_pack_info self' = fp_pack_info self" "fp_unpack_info self' = fp_unpack_info self"
    "fp_substream_info self' = fp_substream_info self"
    using ok by (auto simp: same_tables_def)
  have off: "unat (fp_pack_offset self') = unat (fp_pack_offset self) + sizes_total (packed_sizes f)"
    using ok by simp
  then have "unat (fp_pack_offset self) + sizes_total (packed_sizes f) < usize_limit"
    using unat_u64_less [of "fp_pack_offset self'"] by simp
  from packed_streams_tile [OF this, of "ps_digests (lo_streams (fl_state f))" 0]
  have "map (map_option (span \<circ> ps_range)) (packed_streams_iter (lo_streams (fl_state f))) =
      map Some (tile (unat (fp_pack_offset self)) (map unat (packed_sizes f)))"
    using ok by (simp add: packed_streams_iter_def)
  then show ?thesis
    using walk ok off next_folder_index [OF nf] consumed_cons
    by (auto simp: walk_ok_def tabs tile_append sizes_total_def)
qed

lemma plans_run_walk:
  assumes "plans_run N self = (fs, e)" and "bases_ok self" and "\<not> fp_finished self"
  shows "walk_ok self fs e"
  using assms
proof (induction N self arbitrary: fs e rule: plans_run.induct)
  case (1 N self)
  show ?case
  proof (cases "fp_folder_index self = num_folders_usize (fp_unpack_info self)")
    case True
    show ?thesis
    proof (cases "validate_complete self")
      case (Err x)
      then have "fs = []" "e = Some x"
        using "1.prems"(1,3) True by (simp_all add: plans_run.simps [of N self] FolderPlans_next_def)
      then show ?thesis
        using "1.prems"(2) by (auto simp: walk_ok_def bases_ok_def intro: consumed_nil)
    next
      case (Ok u)
      then have "fs = []" "e = None"
        using "1.prems"(1,3) True by (simp_all add: plans_run.simps [of N self] FolderPlans_next_def)
      then show ?thesis
        using Ok True by (auto simp: walk_ok_def validate_complete_def Let_def intro: consumed_nil split: if_splits)
    qed
  next
    case False
    show ?thesis
    proof (cases "next_folder N self")
      case (Err x)
      then have "fs = []" "e = Some x"
        using "1.prems"(1,3) False by (simp_all add: plans_run.simps [of N self] FolderPlans_next_def)
      then show ?thesis
        using "1.prems"(2) by (auto simp: walk_ok_def bases_ok_def intro: consumed_nil)
    next
      case (Ok fp)
      obtain f self' where fp: "fp = (f, self')" by (cases fp)
      have step: "FolderPlans_next N self = (Some (Ok f), self')"
        using Ok fp False "1.prems"(3) by (simp add: FolderPlans_next_def)
      obtain fs' where run: "plans_run N self' = (fs', e)" "fs = f # fs'"
        using "1.prems"(1) step by (auto simp: plans_run.simps [of N self] split: prod.splits)
      have "walk_ok self' fs' e"
        using "1.IH" [of "Some (Ok f)" self' "Ok f" f] step run(1) next_folder_bases [of N self f self'] Ok fp "1.prems"(2,3)
          next_folder_index [of N self f self'] by auto
      then show ?thesis using walk_ok_cons [of N self f self'] Ok fp run(2) by simp
    qed
  qed
qed


section \<open>Preflight\<close>

text \<open>A preflight that succeeds has seen the whole walk.\<close>

definition output_total :: "FolderLayout list \<Rightarrow> nat" where
  "output_total fs = sizes_total (map (\<lambda>f. lo_unpack_size (fl_state f)) fs)"

lemma preflight_loop_run:
  assumes "preflight_loop N limit self acc = Ok (t, self')" and "\<not> fp_finished self"
    and "\<forall>b. limit = Some b \<longrightarrow> acc \<le> b"
  shows "\<exists>fs. plans_run N self = (fs, None) \<and> unat t = unat acc + output_total fs \<and>
    (\<forall>b. limit = Some b \<longrightarrow> t \<le> b) \<and>
    fp_stream_digest_base self' = fp_stream_digest_base self + sum_list (map (layout_len \<circ> fl_layout) fs)"
  using assms
proof (induction N limit self acc rule: preflight_loop.induct)
  case (1 N limit self acc)
  obtain item s where item: "FolderPlans_next N self = (item, s)" by (cases "FolderPlans_next N self")
  show ?case
  proof (cases item)
    case None
    then have "plans_run N self = ([], None)" "s = self\<lparr>fp_finished := True\<rparr>"
      using item "1.prems"(2) by (auto simp: plans_run.simps [of N self] FolderPlans_next_def split: if_splits result.splits prod.splits)
    then show ?thesis
      using "1.prems"(1,3) item None by (auto simp: preflight_loop.simps [of N limit self] output_total_def)
  next
    case (Some r)
    then obtain f acc' where f: "r = Ok f" and acc': "u64_checked_add acc (lo_unpack_size (fl_state f)) = Some acc'"
      and lim: "\<forall>b. limit = Some b \<longrightarrow> acc' \<le> b" and rec: "preflight_loop N limit s acc' = Ok (t, self')"
      using "1.prems"(1) item by (auto simp: preflight_loop.simps [of N limit self] not_less split: if_splits option.splits)
    have nf: "next_folder N self = Ok (f, s)"
      using item Some f "1.prems"(2) by (auto simp: FolderPlans_next_def split: if_splits result.splits prod.splits)
    have "\<not> fp_finished s" using next_folder_index [OF nf] "1.prems"(2) by simp
    have "ok_or Parse (u64_checked_add acc (lo_unpack_size (fl_state f))) = Ok acc'"
      "\<not> (case limit of None \<Rightarrow> False | Some limit \<Rightarrow> limit < acc')"
      using acc' lim by (auto split: option.splits)
    from "1.IH" [OF item [symmetric] Some f this rec \<open>\<not> fp_finished s\<close> lim] obtain fs where
      fs: "plans_run N s = (fs, None)" "unat t = unat acc' + output_total fs" "\<forall>b. limit = Some b \<longrightarrow> t \<le> b"
      "fp_stream_digest_base self' = fp_stream_digest_base s + sum_list (map (layout_len \<circ> fl_layout) fs)"
      by blast
    have "plans_run N self = (f # fs, None)"
      using item Some f fs(1) by (simp add: plans_run.simps [of N self])
    then show ?thesis
      using fs next_folder_Ok [OF nf] acc' by (auto simp: output_total_def u64_checked_add_eq_Some o_def)
  qed
qed


section \<open>A worked example\<close>

text \<open>One folder with the copy method, one packed stream of five bytes.\<close>

definition copy_folder :: Folder where
  "copy_folder = \<lparr>coders = [\<lparr>codec_id = [0], num_in_streams = 1, num_out_streams = 1, properties = None\<rparr>],
     bind_pairs = [], packed_indices = []\<rparr>"

definition copy_graph :: FolderGraph where
  "copy_graph = \<lparr>g_execution_order = [0], g_packed_inputs = [(0, 0)], g_final_output = 0,
     g_input_owners = [0], g_output_owners = [0], g_input_sources = [None]\<rparr>"

lemma copy_method: "method_from_id [0] = Some M_Copy"
  by (simp add: method_from_id_def method_info_def METHOD_REGISTRY_def codec_ids)

lemma copy_graph_eq: "graph copy_folder = Ok copy_graph"
  by (simp add: graph_def copy_folder_def copy_graph_def StreamOwners_from_coders_def StreamArity_try_from_def
      copy_method method_stream_arity add_arity_def capped_add_def usize_checked_add_def owner_list_def
      Bindings_new_def checked_sub_def final_output_def unset_positions_def packed_inputs_def
      execution_order_def zero_positions_def get_def execution_loop.simps [of _ _ "[]"]
      execution_loop.simps [of _ _ "_ # _"])

definition copy_pack :: PackInfo where
  "copy_pack = \<lparr>pack_pos = 0, num_pack_streams = 1, pack_size = [5], pi_digests = [None]\<rparr>"

definition copy_unpack :: UnpackInfo where
  "copy_unpack = \<lparr>num_folders = 1, folder_data = \<lparr>b_ptr = 112, b_data = [1, 1, 0]\<rparr>, folder_offsets = [0, 3],
     ui_unpack_sizes = [5], ui_digests = [None]\<rparr>"

lemma copy_folder_parses: "parse_folder_with_graph nom_reference copy_unpack 0 = Ok (copy_folder, copy_graph)"
proof -
  have "Folder_parse nom_reference [1, 1, 0] = Ok ([], copy_folder)"
    by (simp add: copy_folder_def folder_evals tag_evals varuint_evals Let_def)
  then show ?thesis
    using copy_graph_eq
    by (simp add: parse_folder_with_graph_def folder_bytes_def copy_unpack_def get_def all_consuming_def nom_finished_eq)
qed

definition copy_layout :: FolderLayout where
  "copy_layout =
     \<lparr>fl_state = \<lparr>lo_folder = copy_folder, lo_graph = copy_graph,
        lo_streams = \<lparr>ps_sizes = [5], ps_digests = [None], ps_start = 0\<rparr>,
        lo_coder_sizes = [5], lo_unpack_size = 5, lo_crc = None\<rparr>,
      fl_layout = \<lparr>explicit_sizes = [], final_size = Some 5, fsl_digests = [None]\<rparr>\<rparr>"

definition copy_plans :: FolderPlans where
  "copy_plans = FolderPlans_new copy_pack copy_unpack None"

definition copy_plans_end :: FolderPlans where
  "copy_plans_end = copy_plans\<lparr>fp_folder_index := 1, fp_pack_index := 1, fp_pack_offset := 5, fp_output_base := 1,
     fp_stream_size_base := 0, fp_stream_digest_base := 1\<rparr>"

lemma copy_next_folder: "next_folder nom_reference copy_plans = Ok (copy_layout, copy_plans_end)"
proof -
  have "total_out_streams copy_folder = 1" "length (g_packed_inputs copy_graph) = 1" "g_final_output copy_graph = 0"
    by (simp_all add: total_out_streams_def copy_folder_def copy_graph_def)
  then show ?thesis
    using copy_folder_parses
    by (simp add: next_folder_def Let_def copy_plans_def copy_plans_end_def FolderPlans_new_def
        folder_stream_count_def stream_digests_def copy_pack_def copy_unpack_def copy_layout_def get_range_def
        get_def usize_checked_add_def FolderStreamLayout_new_def sum_sizes_def u64_checked_add_def
        u64_checked_sub_def digest_at_def)
qed

lemma copy_plans_next:
  "FolderPlans_next nom_reference copy_plans = (Some (Ok copy_layout), copy_plans_end)"
  "FolderPlans_next nom_reference copy_plans_end = (None, copy_plans_end\<lparr>fp_finished := True\<rparr>)"
proof -
  have "fp_folder_index copy_plans = 0" "\<not> fp_finished copy_plans" "num_folders_usize (fp_unpack_info copy_plans) = 1"
    by (simp_all add: copy_plans_def FolderPlans_new_def copy_unpack_def num_folders_usize_def)
  then show "FolderPlans_next nom_reference copy_plans = (Some (Ok copy_layout), copy_plans_end)"
    by (simp add: FolderPlans_next_def copy_next_folder)
  have "validate_complete copy_plans_end = Ok ()"
    by (simp add: validate_complete_def copy_plans_end_def copy_plans_def FolderPlans_new_def copy_unpack_def
        copy_pack_def num_folders_usize_def)
  moreover have "fp_folder_index copy_plans_end = 1" "\<not> fp_finished copy_plans_end"
    "num_folders_usize (fp_unpack_info copy_plans_end) = 1"
    by (simp_all add: copy_plans_end_def copy_plans_def FolderPlans_new_def copy_unpack_def num_folders_usize_def)
  ultimately show "FolderPlans_next nom_reference copy_plans_end = (None, copy_plans_end\<lparr>fp_finished := True\<rparr>)"
    by (simp add: FolderPlans_next_def)
qed

lemma copy_plans_run: "plans_run nom_reference (FolderPlans_new copy_pack copy_unpack None) = ([copy_layout], None)"
  unfolding copy_plans_def [symmetric]
  by (simp add: plans_run.simps [of _ copy_plans] plans_run.simps [of _ copy_plans_end] copy_plans_next)

lemma copy_preflight:
  "FolderLayouts_preflight nom_reference copy_pack copy_unpack None 100 =
     Ok \<lparr>pf_layouts = \<lparr>fls_plans = copy_plans, fls_stream_count = 1\<rparr>, pf_output_size = 5\<rparr>"
proof -
  have "preflight_loop nom_reference (Some 100) copy_plans 0 = Ok (5, copy_plans_end\<lparr>fp_finished := True\<rparr>)"
    by (simp add: preflight_loop.simps [of _ _ copy_plans] preflight_loop.simps [of _ _ copy_plans_end]
        copy_plans_next copy_layout_def u64_checked_add_def)
  moreover have "num_folders_usize copy_unpack = 1" "fp_stream_digest_base copy_plans_end = 1" "pack_size copy_pack = [5]"
    by (simp_all add: copy_unpack_def num_folders_usize_def copy_plans_end_def copy_pack_def)
  ultimately show ?thesis
    by (simp add: FolderLayouts_preflight_def FolderLayouts_validate_def copy_plans_def [symmetric] substream_count_def
        sum_sizes_def u64_checked_add_def)
qed

section \<open>Properties\<close>

lemma new_plans_bases: "bases_ok (FolderPlans_new pack unpack sub)"
  by (simp add: bases_ok_def FolderPlans_new_def)

text \<open>
  C17. The walk over the folders partitions the tables of the header. The folders handed out take
  the packed sizes, the coder sizes and the explicit substream sizes in order, without gap or
  overlap, and their packed byte ranges tile the packed data from offset 0: the
  unchecked additions of the range iterator neither wrap nor fail its assertion. A walk that ends without
  error has used up every table and every folder.
\<close>

theorem folder_walk_partitions:
  assumes "plans_run N (FolderPlans_new pack unpack sub) = (fs, e)"
  shows "(\<exists>n \<le> length (pack_size pack). concat (map packed_sizes fs) = take n (pack_size pack) \<and>
      map (map_option (span \<circ> ps_range)) (concat (map (\<lambda>f. packed_streams_iter (lo_streams (fl_state f))) fs)) =
        map Some (tile 0 (map unat (take n (pack_size pack)))) \<and>
      (e = None \<longrightarrow> n = length (pack_size pack))) \<and>
    (\<exists>n \<le> length (ui_unpack_sizes unpack). concat (map coder_sizes fs) = take n (ui_unpack_sizes unpack) \<and>
      (e = None \<longrightarrow> n = length (ui_unpack_sizes unpack))) \<and>
    (\<forall>info. sub = Some info \<longrightarrow>
      (\<exists>n \<le> length (si_unpack_sizes info). concat (map stream_sizes fs) = take n (si_unpack_sizes info) \<and>
        (e = None \<longrightarrow> n = length (si_unpack_sizes info)))) \<and>
    length fs \<le> num_folders_usize unpack \<and> (e = None \<longrightarrow> length fs = num_folders_usize unpack)"
proof -
  have "walk_ok (FolderPlans_new pack unpack sub) fs e"
    using plans_run_walk [OF assms new_plans_bases] by (simp add: FolderPlans_new_def)
  then show ?thesis
    by (auto simp: walk_ok_def FolderPlans_new_def consumed_def)
qed

theorem folder_walk_partitions_witness:
  "plans_run nom_reference (FolderPlans_new copy_pack copy_unpack None) = ([copy_layout], None) \<and>
   concat (map packed_sizes [copy_layout]) = pack_size copy_pack \<and>
   map (map_option (span \<circ> ps_range)) (packed_streams_iter (lo_streams (fl_state copy_layout))) = [Some (0, 5)]"
  using folder_walk_partitions [OF copy_plans_run] copy_plans_run by (auto simp: copy_pack_def)

text \<open>
  C34. A preflight that succeeds guarantees the walk that follows: it hands out every
  folder without error. The packed bytes and the unpacked bytes of these folders are within the
  limit, the unpacked total is the one reported, and so is the number of substreams.
\<close>

theorem preflight_guarantees_walk:
  assumes "FolderLayouts_preflight N pack unpack sub limit = Ok p"
  shows "\<exists>fs. plans_run N (fls_plans (pf_layouts p)) = (fs, None) \<and>
    unat (pf_output_size p) = output_total fs \<and> output_total fs \<le> unat limit \<and>
    sizes_total (pack_size pack) \<le> unat limit \<and>
    fls_stream_count (pf_layouts p) = sum_list (map (layout_len \<circ> fl_layout) fs)"
proof -
  obtain packed t preflight where packed: "sum_sizes 0 (pack_size pack) = Ok packed" "packed \<le> limit"
    and loop: "preflight_loop N (Some limit) (FolderPlans_new pack unpack sub) 0 = Ok (t, preflight)"
    and p: "fls_plans (pf_layouts p) = FolderPlans_new pack unpack sub" "pf_output_size p = t"
      "fls_stream_count (pf_layouts p) = fp_stream_digest_base preflight"
    using assms by (auto simp: FolderLayouts_preflight_def FolderLayouts_validate_def Let_def not_less split: if_splits)
  have "\<not> fp_finished (FolderPlans_new pack unpack sub)" "fp_stream_digest_base (FolderPlans_new pack unpack sub) = 0"
    by (simp_all add: FolderPlans_new_def)
  with preflight_loop_run [OF loop] show ?thesis
    using p packed by (auto simp: sum_sizes_eq_Ok word_le_nat_alt)
qed

theorem preflight_guarantees_walk_witness:
  "plans_run nom_reference copy_plans = ([copy_layout], None) \<and> output_total [copy_layout] = 5"
  using preflight_guarantees_walk [OF copy_preflight] copy_plans_run [folded copy_plans_def] by auto

text \<open>
  The substreams of a folder tile its output. Iterating over a validated layout yields one
  substream per announced stream, with the explicit sizes and then the implicit one, each with its own
  digest; they follow each other from offset 0 and, if there are any, end exactly at the
  unpacked size. No addition wraps and no assertion fails.
\<close>

theorem substreams_tile_folder:
  assumes "FolderStreamLayout_new len count explicit digests = Ok layout"
  shows "\<exists>ss rest sizes. substreams_take count (layout_streams layout) = Some (ss, rest) \<and>
    substreams_next rest = Some (None, rest) \<and>
    length sizes = count \<and> take (count - 1) sizes = map unat explicit \<and>
    (count \<noteq> 0 \<longrightarrow> sum_list sizes = unat len) \<and>
    map (span \<circ> ss_range) ss = tile 0 sizes \<and>
    map ss_digest ss = (if digests = [] then replicate count None else digests)"
proof -
  note ok = FolderStreamLayout_new_Ok [OF assms]
  have "sizes_total (layout_sizes layout) < usize_limit"
    using ok unat_u64_less [of len] by (auto split: if_splits)
  with substreams_take_tile [of count layout 0 0] ok obtain ss off where
    ss: "substreams_take count (layout_streams layout) =
        Some (ss, \<lparr>ss_layout = layout, ss_position = count, ss_offset = off\<rparr>)"
      "map (span \<circ> ss_range) ss = tile 0 (map unat (layout_sizes layout))"
      "map ss_digest ss = map (digest_at digests) [0..<count]"
    by (auto simp: layout_streams_def layout_len_sizes)
  have "map (digest_at digests) [0..<count] = (if digests = [] then replicate count None else digests)"
    using ok by (auto simp: digest_at_def get_def map_replicate_const intro!: nth_equalityI)
  moreover have "take (count - 1) (map unat (layout_sizes layout)) = map unat explicit"
    using ok by (auto simp: layout_sizes_def take_map)
  moreover have "substreams_next \<lparr>ss_layout = layout, ss_position = count, ss_offset = off\<rparr> =
      Some (None, \<lparr>ss_layout = layout, ss_position = count, ss_offset = off\<rparr>)"
    using ok by (simp add: substreams_next_def)
  ultimately show ?thesis
    using ss ok
    by (intro exI [of _ ss] exI [of _ "\<lparr>ss_layout = layout, ss_position = count, ss_offset = off\<rparr>"]
        exI [of _ "map unat (layout_sizes layout)"])
       (auto simp: layout_len_sizes [symmetric] sizes_total_def split: if_splits)
qed

theorem substreams_tile_folder_witness:
  "\<exists>layout ss rest. FolderStreamLayout_new 10 3 [4, 5] [] = Ok layout \<and>
     substreams_take 3 (layout_streams layout) = Some (ss, rest) \<and> length ss = 3"
proof -
  have "FolderStreamLayout_new 10 3 [4, 5] [] =
      Ok \<lparr>explicit_sizes = [4, 5], final_size = Some 1, fsl_digests = []\<rparr>"
    by (simp add: FolderStreamLayout_new_def sum_sizes_def u64_checked_add_def u64_checked_sub_def)
  from substreams_tile_folder [OF this] this show ?thesis
    by (metis length_map length_tile)
qed

end
