(* ===== verification/Entries.thy ===== *)
theory Entries
  imports Files_Table Errors
begin

text \<open>
  \<^verbatim>\<open>src/src/entries.rs\<close>: raw entry names, the lazy iterator over the entries of the file table,
  and the selection of entries an operation works on. The classification of entries is with the
  file table.
\<close>

section \<open>Raw names\<close>

text \<open>The tuple struct \<open>RawEntryName\<close> is the buffer it wraps.\<close>

type_synonym RawEntryName = Bytes

definition RawEntryName_from_utf16le :: "Bytes \<Rightarrow> RawEntryName r7z_result" where
  "RawEntryName_from_utf16le bytes =
     (if length (b_data bytes) mod 2 \<noteq> 0 then Err (InvalidOptions ''UTF-16LE name has odd byte length'')
      else if (0, 0) \<in> set (fst (as_chunks2 (b_data bytes))) then
        Err (InvalidOptions ''UTF-16LE name contains a null terminator'')
      else Ok bytes)"

definition as_utf16le :: "RawEntryName \<Rightarrow> bytes" where
  "as_utf16le self = b_data self"

definition RawEntryName_display :: "RawEntryName \<Rightarrow> code_point list" where
  "RawEntryName_display self = decode_name (b_data self)"

text \<open>\<open>str::encode_utf16\<close>: a code point above \<open>U+FFFF\<close> becomes a surrogate pair.\<close>

definition encode_code_point :: "code_point \<Rightarrow> u16 list" where
  "encode_code_point c =
     (if c < 0x10000 then [ucast c]
      else
        let c = c - 0x10000
        in [0xD800 OR ucast (drop_bit 10 c), 0xDC00 OR (ucast c AND 0x3FF)])"

definition encode_utf16 :: "code_point list \<Rightarrow> u16 list" where
  "encode_utf16 text = concat (map encode_code_point text)"

definition matches_text :: "RawEntryName \<Rightarrow> code_point list \<Rightarrow> bool" where
  "matches_text self text =
     (map (\<lambda>(a, b). from_le_bytes [a, b]) (fst (as_chunks2 (b_data self))) = encode_utf16 text)"


section \<open>Entries\<close>

definition EntryKind_bind :: "'s EntryKind \<Rightarrow> ('s \<Rightarrow> 't r7z_result) \<Rightarrow> 't EntryKind r7z_result" where
  "EntryKind_bind self stream =
     (case self of
        EK_File input \<Rightarrow> and_then (stream input) (\<lambda>t. Ok (EK_File t))
      | EK_Symlink input \<Rightarrow> and_then (stream input) (\<lambda>t. Ok (EK_Symlink t))
      | EK_EmptyFile \<Rightarrow> Ok EK_EmptyFile
      | EK_EmptySymlink \<Rightarrow> Ok EK_EmptySymlink
      | EK_Directory \<Rightarrow> Ok EK_Directory
      | EK_Anti \<Rightarrow> Ok EK_Anti)"

record EntryMetadata =
  em_index :: nat
  em_name :: "RawEntryName option"
  em_modified :: "u64 option"
  em_attributes :: "u32 option"

text \<open>The decimal digits \<open>format!\<close> writes for an index.\<close>

fun decimal :: "nat \<Rightarrow> code_point list" where
  "decimal n = (if n < 10 then [of_nat (48 + n)] else decimal (n div 10) @ [of_nat (48 + n mod 10)])"

declare decimal.simps [simp del]

definition code_points :: "string \<Rightarrow> code_point list" where
  "code_points s = map (\<lambda>c. of_nat (of_char c)) s"

definition EntryMetadata_name :: "EntryMetadata \<Rightarrow> code_point list" where
  "EntryMetadata_name self =
     (case em_name self of
        None \<Rightarrow> code_points ''unknown-'' @ decimal (em_index self)
      | Some raw \<Rightarrow> RawEntryName_display raw)"

record 's Entry =
  ent_metadata :: EntryMetadata
  ent_kind :: "'s EntryKind"

definition Entry_bind :: "'s Entry \<Rightarrow> ('s \<Rightarrow> 't r7z_result) \<Rightarrow> 't Entry r7z_result" where
  "Entry_bind self stream =
     and_then (EntryKind_bind (ent_kind self) stream) (\<lambda>kind.
       Ok \<lparr>ent_metadata = ent_metadata self, ent_kind = kind\<rparr>)"

text \<open>The iterator; \<open>en_start\<close> and \<open>en_end\<close> are its \<open>Range\<close> of indices.\<close>

record Entries =
  en_files :: "FilesInfo option"
  en_start :: nat
  en_end :: nat
  en_names :: "FilesInfoNameSlices option"

definition Entries_new :: "FilesInfo option \<Rightarrow> nat \<Rightarrow> Entries" where
  "Entries_new files count =
     \<lparr>en_files = files, en_start = 0, en_end = count, en_names = map_option name_slices files\<rparr>"

definition next_index :: "Entries \<Rightarrow> nat" where
  "next_index self = en_start self"

definition Entries_kind :: "Entries \<Rightarrow> nat \<Rightarrow> unit EntryKind" where
  "Entries_kind self index =
     (case en_files self of None \<Rightarrow> EK_File () | Some files \<Rightarrow> entry_kind files index)"

definition Entries_stream_count :: "Entries \<Rightarrow> nat" where
  "Entries_stream_count self =
     length (filter (\<lambda>index. has_stream (Entries_kind self index)) [en_start self..<en_end self])"

definition Entries_len :: "Entries \<Rightarrow> nat" where
  "Entries_len self = en_end self - en_start self"

text \<open>\<open>Range::nth\<close>: past the end the range is used up.\<close>

definition range_nth :: "nat \<Rightarrow> nat \<Rightarrow> nat \<Rightarrow> nat option \<times> nat" where
  "range_nth start end n =
     (case usize_checked_add start n of
        Some plus_n \<Rightarrow> if plus_n < end then (Some plus_n, plus_n + 1) else (None, end)
      | None \<Rightarrow> (None, end))"

definition Entries_nth :: "Entries \<Rightarrow> nat \<Rightarrow> unit Entry option \<times> Entries" where
  "Entries_nth self n =
     (case range_nth (en_start self) (en_end self) n of
        (None, start) \<Rightarrow> (None, self\<lparr>en_start := start\<rparr>)
      | (Some index, start) \<Rightarrow>
          let self = self\<lparr>en_start := start\<rparr>;
              (name, self) = (case en_names self of
                  None \<Rightarrow> (None, self)
                | Some names \<Rightarrow>
                    let (item, names) = name_slices_nth names n
                    in (Option.bind item (\<lambda>x. x), self\<lparr>en_names := Some names\<rparr>))
          in (Some \<lparr>ent_metadata = \<lparr>em_index = index, em_name = name,
                  em_modified = Option.bind (en_files self) (\<lambda>files.
                    Option.bind (get (mtimes files) index) (\<lambda>x. x)),
                  em_attributes = Option.bind (en_files self) (\<lambda>files.
                    Option.bind (get (attributes files) index) (\<lambda>x. x))\<rparr>,
                ent_kind = Entries_kind self index\<rparr>, self))"

definition Entries_next :: "Entries \<Rightarrow> unit Entry option \<times> Entries" where
  "Entries_next self = Entries_nth self 0"


section \<open>Selections\<close>

text \<open>Whether the list is borrowed or sorted into a copy does not show in its value.\<close>

datatype EntrySelection =
    SelectNone
  | SelectAll nat nat
  | Selected "nat list" nat

definition EntrySelection_new :: "nat list option \<Rightarrow> nat \<Rightarrow> EntrySelection r7z_result" where
  "EntrySelection_new indices count =
     (case indices of
        None \<Rightarrow> Ok (SelectAll 0 count)
      | Some [] \<Rightarrow> Ok SelectNone
      | Some indices \<Rightarrow>
          if list_ex (\<lambda>index. index \<ge> count) indices then
            Err (InvalidOptions ''selected entry index out of bounds'')
          else
            let indices = (if sorted indices then indices else sort indices) in
            if list_ex (\<lambda>(a, b). a = b) (zip indices (tl indices)) then
              Err (InvalidOptions ''duplicate selected entry index'')
            else Ok (Selected indices 0))"

definition EntrySelection_next :: "EntrySelection \<Rightarrow> nat option \<times> EntrySelection" where
  "EntrySelection_next self =
     (case self of
        SelectNone \<Rightarrow> (None, self)
      | SelectAll start end \<Rightarrow>
          if start < end then (Some start, SelectAll (start + 1) end) else (None, self)
      | Selected indices position \<Rightarrow>
          (case get indices position of
             None \<Rightarrow> (None, self)
           | Some index \<Rightarrow> (Some index, Selected indices (position + 1))))"

definition EntrySelection_len :: "EntrySelection \<Rightarrow> nat" where
  "EntrySelection_len self =
     (case self of
        SelectNone \<Rightarrow> 0
      | SelectAll start end \<Rightarrow> end - start
      | Selected indices position \<Rightarrow> length indices - position)"

lemma EntrySelection_next_len:
  "EntrySelection_next s = (Some i, s') \<Longrightarrow> EntrySelection_len s' < EntrySelection_len s"
  by (auto simp: EntrySelection_next_def EntrySelection_len_def split: EntrySelection.splits if_splits option.splits)

text \<open>Running a selection to its end.\<close>

function selection_run :: "EntrySelection \<Rightarrow> nat list" where
  "selection_run s =
     (case EntrySelection_next s of (None, _) \<Rightarrow> [] | (Some i, s') \<Rightarrow> i # selection_run s')"
  by pat_completeness auto
termination
  by (relation "measure EntrySelection_len") (auto dest: EntrySelection_next_len [OF sym])

declare selection_run.simps [simp del]

lemma selection_run_selected: "position \<le> length xs \<Longrightarrow> selection_run (Selected xs position) = drop position xs"
proof (induction "length xs - position" arbitrary: position)
  case 0
  then show ?case by (simp add: selection_run.simps [of "Selected xs position"] EntrySelection_next_def get_def)
next
  case (Suc k)
  then have "selection_run (Selected xs (Suc position)) = drop (Suc position) xs" by simp
  then show ?case
    using Suc.hyps(2) Cons_nth_drop_Suc [of position xs]
    by (simp add: selection_run.simps [of "Selected xs position"] EntrySelection_next_def get_def)
qed

lemma selection_run_all: "selection_run (SelectAll a b) = [a..<b]"
proof (induction "b - a" arbitrary: a)
  case 0
  then show ?case by (simp add: selection_run.simps [of "SelectAll a b"] EntrySelection_next_def)
next
  case (Suc k)
  then show ?case
    by (simp add: selection_run.simps [of "SelectAll a b"] EntrySelection_next_def upt_conv_Cons)
qed

lemma selection_run_none [simp]: "selection_run SelectNone = []"
  by (simp add: selection_run.simps [of SelectNone] EntrySelection_next_def)

text \<open>In a sorted list equal neighbours are all the duplicates there can be.\<close>

lemma adjacent_duplicates:
  "sorted xs \<Longrightarrow> list_ex (\<lambda>(a, b). a = b) (zip xs (tl xs)) \<longleftrightarrow> \<not> distinct (xs :: nat list)"
proof (induction xs)
  case (Cons x xs)
  show ?case
  proof (cases xs)
    case (Cons y ys)
    then have "x = y \<or> x \<notin> set xs" using \<open>sorted (x # xs)\<close> by auto
    then show ?thesis using Cons Cons.IH Cons.prems by auto
  qed simp
qed simp

lemma EntrySelection_new_Some:
  "EntrySelection_new (Some ixs) count =
     (if list_ex (\<lambda>i. count \<le> i) ixs then Err (InvalidOptions ''selected entry index out of bounds'')
      else if \<not> distinct ixs then Err (InvalidOptions ''duplicate selected entry index'')
      else Ok (if ixs = [] then SelectNone else Selected (sort ixs) 0))"
proof (cases ixs)
  case (Cons i js)
  have new: "EntrySelection_new (Some ixs) count =
      (let s = sort ixs in
       if list_ex (\<lambda>i. count \<le> i) ixs then Err (InvalidOptions ''selected entry index out of bounds'')
       else if list_ex (\<lambda>(a, b). a = b) (zip s (tl s)) then Err (InvalidOptions ''duplicate selected entry index'')
       else Ok (Selected s 0))"
    using sorted_sort_id [of ixs] unfolding Cons EntrySelection_new_def
    by (cases "sorted (i # js)") (simp_all del: sort_key_simps sorted_wrt.simps sorted_simps)
  show ?thesis
    unfolding new Let_def adjacent_duplicates [OF sorted_sort] distinct_sort by (simp add: Cons)
qed (simp add: EntrySelection_new_def)

text \<open>
  C35. A selection is accepted exactly if all indices are below the number of entries and no
  index occurs twice; the error tells the two failures apart, an index out of bounds first. An
  accepted selection yields the selected indices in archive order, each once, without a
  selection all entries; and its reported length is the number of indices to come.
\<close>

theorem selection_exact:
  "EntrySelection_new None count = Ok (SelectAll 0 count) \<and> selection_run (SelectAll 0 count) = [0..<count] \<and>
   (case EntrySelection_new (Some ixs) count of
      Ok s \<Rightarrow> (\<forall>i. i \<in> set ixs \<longrightarrow> i < count) \<and> distinct ixs \<and>
        selection_run s = sorted_list_of_set (set ixs) \<and> EntrySelection_len s = length ixs
    | Err e \<Rightarrow>
        e = InvalidOptions ''selected entry index out of bounds'' \<and> (\<exists>i \<in> set ixs. count \<le> i) \<or>
        e = InvalidOptions ''duplicate selected entry index'' \<and> \<not> distinct ixs \<and> (\<forall>i \<in> set ixs. i < count))"
proof -
  have "selection_run (Selected (sort ixs) 0) = sorted_list_of_set (set ixs)" if "distinct ixs"
    using that by (simp add: selection_run_selected sorted_list_of_set_sort_remdups distinct_remdups_id)
  moreover have "EntrySelection_new None count = Ok (SelectAll 0 count)"
    by (simp add: EntrySelection_new_def)
  ultimately show ?thesis
    by (auto simp: EntrySelection_new_Some selection_run_all EntrySelection_len_def list_ex_iff)
qed

theorem selection_exact_witness:
  "EntrySelection_new (Some [4, 0, 2]) 5 = Ok (Selected [0, 2, 4] 0) \<and>
   selection_run (Selected [0, 2, 4] 0) = sorted_list_of_set {4, 0, 2}"
proof -
  have "EntrySelection_new (Some [4, 0, 2]) 5 = Ok (Selected [0, 2, 4] 0)"
    by (simp add: EntrySelection_new_Some)
  then show ?thesis using selection_exact [of 5 "[4, 0, 2]"] by simp
qed

end
