(* ===== verification/Write_Header.thy ===== *)
theory Write_Header
  imports Entries Resources
begin

text \<open>
  \<^verbatim>\<open>src/src/write/model.rs\<close> and \<^verbatim>\<open>src/src/write/header.rs\<close>: the data of the writer and the
  serialisation of an archive header. The functions of the source append to a vector; here each
  returns the bytes it appends.
\<close>

unbundle bit_operations_syntax

section \<open>Options and entries\<close>

datatype Codec = Codec_Copy | Codec_Lzma | Codec_Lzma2 | Codec_Ppmd | Codec_Lzma2Bcj

datatype HeaderMode = P7zipDefault | PlainHeader | EncodedHeaderMode

datatype EncoderThreads = Auto | Single | Fixed u32

datatype MatchFinder = Hc4 | Bt4

datatype LzmaAlgorithm = LzmaFast | LzmaNormal

datatype CompressionLevel = Store | Fastest | Fast | Normal | Maximum | Ultra

text \<open>A \<open>NonZeroU64\<close> is a \<open>u64\<close> that its constructor keeps from being zero.\<close>

datatype SolidMode = Solid | NonSolid | Limit "u64 option" "u64 option"

record CompressionOptions =
  level :: CompressionLevel
  dictionary_size :: "u32 option"
  fast_bytes :: "u32 option"
  literal_context_bits :: "u32 option"
  literal_position_bits :: "u32 option"
  position_bits :: "u32 option"
  match_finder :: "MatchFinder option"
  lzma_algorithm :: "LzmaAlgorithm option"
  match_cycles :: "u32 option"
  solid :: SolidMode
  lzma2_chunk_size :: "u64 option"
  threads :: EncoderThreads
  encoder_memory_limit :: "u64 option"

definition CompressionOptions_default :: CompressionOptions where
  "CompressionOptions_default =
     \<lparr>level = Normal, dictionary_size = None, fast_bytes = None, literal_context_bits = None,
      literal_position_bits = None, position_bits = None, match_finder = None,
      lzma_algorithm = None, match_cycles = None, solid = Solid, lzma2_chunk_size = None,
      threads = Auto, encoder_memory_limit = None\<rparr>"

record EncryptionOptions =
  eo_password :: "code_point list"
  eo_encrypt_header :: bool
  eo_num_cycles_power :: u8
  eo_salt_len :: u8
  eo_iv_len :: u8

definition default_for_password :: "code_point list \<Rightarrow> EncryptionOptions" where
  "default_for_password password =
     \<lparr>eo_password = password, eo_encrypt_header = False, eo_num_cycles_power = 19,
      eo_salt_len = 0, eo_iv_len = 16\<rparr>"

text \<open>\<open>std::time::SystemTime\<close>: nanoseconds relative to the Unix epoch.\<close>

type_synonym SystemTime = int

datatype WriteKind = WK_File | WK_Directory | WK_Anti

record EntryMeta =
  ctime :: "SystemTime option"
  atime :: "SystemTime option"
  mtime :: "SystemTime option"
  meta_attributes :: "u32 option"
  start_pos :: "u64 option"

definition EntryMeta_default :: EntryMeta where
  "EntryMeta_default =
     \<lparr>ctime = None, atime = None, mtime = None, meta_attributes = None, start_pos = None\<rparr>"

definition from_unix_mode :: "u32 \<Rightarrow> EntryMeta" where
  "from_unix_mode mode = EntryMeta_default\<lparr>meta_attributes := Some (push_bit 16 mode OR 0x20)\<rparr>"

definition directory_unix_mode :: "u32 \<Rightarrow> EntryMeta" where
  "directory_unix_mode mode = EntryMeta_default\<lparr>meta_attributes := Some (push_bit 16 mode OR 0x10)\<rparr>"

definition archive_file :: EntryMeta where
  "archive_file = EntryMeta_default\<lparr>meta_attributes := Some 0x20\<rparr>"

definition symlink_meta :: EntryMeta where
  "symlink_meta = EntryMeta_default\<lparr>meta_attributes := Some (push_bit 16 0xA1FF OR 0x20)\<rparr>"

definition with_symlink_default :: "EntryMeta \<Rightarrow> EntryMeta" where
  "with_symlink_default self =
     (if meta_attributes self = None
      then self\<lparr>meta_attributes := Some (push_bit 16 0xA1FF OR 0x20)\<rparr> else self)"

record ArchiveEntry =
  ae_name :: "code_point list"
  ae_kind :: WriteKind
  ae_meta :: EntryMeta

definition WriteFolderId_next :: "nat \<Rightarrow> nat option" where
  "WriteFolderId_next self = usize_checked_add self 1"

datatype WriteEntryStream = StreamEmpty | Buffered bytes | Streaming

fun stream_present :: "WriteEntryStream \<Rightarrow> bool" where
  "stream_present StreamEmpty = False"
| "stream_present _ = True"

fun buffered_data :: "WriteEntryStream \<Rightarrow> bytes option" where
  "buffered_data (Buffered data) = Some data"
| "buffered_data _ = None"

record WriteEntry =
  we_name :: "code_point list"
  we_raw_name :: "RawEntryName option"
  we_kind :: WriteKind
  we_meta :: EntryMeta
  we_stream :: WriteEntryStream
  we_folder_id :: nat

record CompletedFolder =
  file_indices :: "nat list"
  pack_sizes :: "u64 list"
  coder_info :: bytes
  coder_unpack_sizes :: "u64 list"
  folder_crc :: "u32 option"
  file_sizes :: "u64 list"
  file_crcs :: "u32 option list"


section \<open>Coder descriptions\<close>

definition encode_coder_info_copy :: bytes where
  "encode_coder_info_copy = sevenzip_varuint64_encode 1 @ [0x01, 0x00]"

definition encode_coder_info_lzma :: "bytes \<Rightarrow> bytes" where
  "encode_coder_info_lzma props =
     sevenzip_varuint64_encode 1 @ [0x23, 0x03, 0x01, 0x01] @ sevenzip_varuint64_encode 5 @ props"

definition encode_coder_info_lzma2 :: "u8 \<Rightarrow> bytes" where
  "encode_coder_info_lzma2 props_byte =
     sevenzip_varuint64_encode 1 @ [0x21] @ [0x21] @ sevenzip_varuint64_encode 1 @ [props_byte]"

definition encode_coder_info_ppmd :: "bytes \<Rightarrow> bytes" where
  "encode_coder_info_ppmd props =
     sevenzip_varuint64_encode 1 @ [0x23, 0x03, 0x04, 0x01] @ sevenzip_varuint64_encode 5 @ props"

definition encode_coder_info_bcj_lzma2 :: "u8 \<Rightarrow> bytes" where
  "encode_coder_info_bcj_lzma2 props_byte =
     sevenzip_varuint64_encode 2 @ [0x21] @ [0x21] @ sevenzip_varuint64_encode 1 @ [props_byte] @
     [0x04] @ [0x03, 0x03, 0x01, 0x03] @ sevenzip_varuint64_encode 1 @ sevenzip_varuint64_encode 0"

datatype CoderSpec = Spec_Copy | Spec_Lzma bytes | Spec_Lzma2 u8 | Spec_Ppmd bytes | Spec_Bcj

fun encode_spec :: "CoderSpec \<Rightarrow> bytes" where
  "encode_spec Spec_Copy = [0x01] @ [0x00]"
| "encode_spec (Spec_Lzma props) = [0x23, 0x03, 0x01, 0x01] @ sevenzip_varuint64_encode 5 @ props"
| "encode_spec (Spec_Lzma2 prop) = [0x21] @ [0x21] @ sevenzip_varuint64_encode 1 @ [prop]"
| "encode_spec (Spec_Ppmd props) = [0x23, 0x03, 0x04, 0x01] @ sevenzip_varuint64_encode 5 @ props"
| "encode_spec Spec_Bcj = [0x04] @ [0x03, 0x03, 0x01, 0x03]"

definition encode_coder_info_aes_then :: "CoderSpec list \<Rightarrow> bytes \<Rightarrow> bytes" where
  "encode_coder_info_aes_then inner aes_props =
     sevenzip_varuint64_encode (1 + of_nat (length inner)) @
     [0x24] @ [0x06, 0xF1, 0x07, 0x01] @ sevenzip_varuint64_encode (of_nat (length aes_props)) @ aes_props @
     concat (map encode_spec inner) @
     concat (map (\<lambda>out_idx.
        sevenzip_varuint64_encode (of_nat (out_idx + 1)) @ sevenzip_varuint64_encode (of_nat out_idx))
       [0..<length inner])"


section \<open>Streams\<close>

definition bools_to_bytes :: "bool list \<Rightarrow> bytes" where
  "bools_to_bytes values =
     fold (\<lambda>(idx, value) out.
       if value then out[idx div 8 := out ! (idx div 8) OR push_bit (7 - idx mod 8) 1] else out)
       (enumerate 0 values) (replicate (div_ceil (length values) 8) 0)"

definition u8_from_bool :: "bool \<Rightarrow> u8" where
  "u8_from_bool b = (if b then 1 else 0)"

text \<open>\<open>iter.flatten()\<close> over options.\<close>

definition present :: "'a option list \<Rightarrow> 'a list" where
  "present xs = map the (filter (\<lambda>x. x \<noteq> None) xs)"

definition write_pack_info :: "CompletedFolder list \<Rightarrow> bytes" where
  "write_pack_info folders =
     (let num_pack_streams = sum_list (map (\<lambda>folder. length (pack_sizes folder)) folders) in
      [0x06] @ sevenzip_varuint64_encode 0 @ sevenzip_varuint64_encode (of_nat num_pack_streams) @ [0x09] @
      concat (map (\<lambda>folder. concat (map sevenzip_varuint64_encode (pack_sizes folder))) folders) @ [0x00])"

definition write_optional_crcs :: "u32 option list \<Rightarrow> bytes" where
  "write_optional_crcs crcs =
     (if \<not> list_ex (\<lambda>c. c \<noteq> None) crcs then []
      else
        let all_defined = list_all (\<lambda>c. c \<noteq> None) crcs in
        [0x0a] @ [u8_from_bool all_defined] @
        (if \<not> all_defined then bools_to_bytes (map (\<lambda>c. c \<noteq> None) crcs) else []) @
        concat (map (to_le_bytes 4) (present crcs)))"

definition write_folder_crcs :: "CompletedFolder list \<Rightarrow> bytes" where
  "write_folder_crcs folders = write_optional_crcs (map folder_crc folders)"

definition write_unpack_info :: "CompletedFolder list \<Rightarrow> bytes" where
  "write_unpack_info folders =
     [0x07] @ [0x0b] @ sevenzip_varuint64_encode (of_nat (length folders)) @ [0x00] @
     concat (map coder_info folders) @ [0x0c] @
     concat (map (\<lambda>folder. concat (map sevenzip_varuint64_encode (coder_unpack_sizes folder))) folders) @
     write_folder_crcs folders @ [0x00]"

definition write_substreams_info :: "CompletedFolder list \<Rightarrow> bytes" where
  "write_substreams_info folders =
     [0x08] @
     (if list_ex (\<lambda>f. length (file_indices f) \<noteq> 1) folders then
        [0x0d] @ concat (map (\<lambda>folder. sevenzip_varuint64_encode (of_nat (length (file_indices folder)))) folders)
      else []) @
     (if list_ex (\<lambda>f. length (file_indices f) > 1) folders then
        [0x09] @ concat (map (\<lambda>folder. concat (map sevenzip_varuint64_encode
          (take (length (file_sizes folder) - 1) (file_sizes folder)))) folders)
      else []) @
     write_optional_crcs (concat (map file_crcs folders)) @ [0x00]"


section \<open>The file table\<close>

definition bitmap_property :: "u8 \<Rightarrow> bool list \<Rightarrow> bytes" where
  "bitmap_property tag values =
     (let bytes = bools_to_bytes values in
      [tag] @ sevenzip_varuint64_encode (of_nat (length bytes)) @ bytes)"

definition write_empty_properties :: "WriteEntry list \<Rightarrow> bytes" where
  "write_empty_properties entries =
     (let empty = map (\<lambda>entry. \<not> stream_present (we_stream entry)) entries in
      if \<not> list_ex (\<lambda>v. v) empty then []
      else
        let empties = filter (\<lambda>entry. \<not> stream_present (we_stream entry)) entries;
            empty_files = map (\<lambda>entry. we_kind entry = WK_File) empties;
            anti = map (\<lambda>entry. we_kind entry = WK_Anti) empties
        in bitmap_property 0x0e empty @
           (if list_ex (\<lambda>v. v) empty_files then bitmap_property 0x0f empty_files else []) @
           (if list_ex (\<lambda>v. v) anti then bitmap_property 0x10 anti else []))"

definition entry_name_bytes :: "WriteEntry \<Rightarrow> bytes" where
  "entry_name_bytes entry =
     (case we_raw_name entry of
        Some raw_name \<Rightarrow> as_utf16le raw_name
      | None \<Rightarrow> concat (map (to_le_bytes 2) (encode_utf16 (we_name entry))))"

definition write_names :: "WriteEntry list \<Rightarrow> bytes" where
  "write_names entries =
     (let name_data = concat (map (\<lambda>entry. entry_name_bytes entry @ [0, 0]) entries) in
      [0x11] @ sevenzip_varuint64_encode (1 + of_nat (length name_data)) @ [0x00] @ name_data)"

text \<open>
  \<open>write_u64_property\<close> and \<open>write_u32_property\<close> differ in the width of a value only.
\<close>

definition defined_property :: "nat \<Rightarrow> u8 \<Rightarrow> 'n::len word option list \<Rightarrow> bytes" where
  "defined_property width tag values =
     (if \<not> list_ex (\<lambda>v. v \<noteq> None) values then []
      else
        let all_defined = list_all (\<lambda>v. v \<noteq> None) values;
            bitmap = (if \<not> all_defined then bools_to_bytes (map (\<lambda>v. v \<noteq> None) values) else []);
            data_len = length (filter (\<lambda>v. v \<noteq> None) values) * width;
            size = 1 + length bitmap + 1 + data_len
        in [tag] @ sevenzip_varuint64_encode (of_nat size) @ [u8_from_bool all_defined] @ bitmap @ [0x00] @
           concat (map (to_le_bytes width) (present values)))"

definition write_u64_property :: "u8 \<Rightarrow> WriteEntry list \<Rightarrow> (WriteEntry \<Rightarrow> u64 option) \<Rightarrow> bytes" where
  "write_u64_property tag entries value = defined_property 8 tag (map value entries)"

definition write_u32_property :: "u8 \<Rightarrow> WriteEntry list \<Rightarrow> (WriteEntry \<Rightarrow> u32 option) \<Rightarrow> bytes" where
  "write_u32_property tag entries value = defined_property 4 tag (map value entries)"

definition u64_saturating_mul :: "u64 \<Rightarrow> u64 \<Rightarrow> u64" where
  "u64_saturating_mul a b = (if unat a * unat b < 2 ^ 64 then a * b else - 1)"

text \<open>A duration since the epoch splits into seconds and nanoseconds below a second.\<close>

definition system_time_to_filetime :: "SystemTime \<Rightarrow> u64" where
  "system_time_to_filetime t =
     (if t < 0 then 0
      else
        let secs = u64_saturating_add (of_int (t div 1000000000)) 11644473600;
            subsec_ticks = of_int (t mod 1000000000) div 100
        in u64_saturating_add (u64_saturating_mul secs 10000000) subsec_ticks)"

definition write_time_property :: "u8 \<Rightarrow> WriteEntry list \<Rightarrow> (WriteEntry \<Rightarrow> SystemTime option) \<Rightarrow> bytes" where
  "write_time_property tag entries value =
     write_u64_property tag entries (\<lambda>entry. map_option system_time_to_filetime (value entry))"

definition write_files_info :: "WriteEntry list \<Rightarrow> bytes" where
  "write_files_info entries =
     [0x05] @ sevenzip_varuint64_encode (of_nat (length entries)) @
     write_empty_properties entries @
     write_names entries @
     write_time_property 0x12 entries (\<lambda>e. ctime (we_meta e)) @
     write_time_property 0x13 entries (\<lambda>e. atime (we_meta e)) @
     write_time_property 0x14 entries (\<lambda>e. mtime (we_meta e)) @
     write_u64_property 0x18 entries (\<lambda>e. start_pos (we_meta e)) @
     write_u32_property 0x15 entries (\<lambda>e. meta_attributes (we_meta e)) @
     [0x00]"


section \<open>The header\<close>

definition build_header :: "WriteEntry list \<Rightarrow> CompletedFolder list \<Rightarrow> bytes" where
  "build_header entries folders =
     [0x01] @
     (if folders \<noteq> [] then
        [0x04] @ write_pack_info folders @ write_unpack_info folders @ write_substreams_info folders @ [0x00]
      else []) @
     write_files_info entries @ [0x00]"

definition build_encoded_header_descriptor :: "u64 \<Rightarrow> u64 \<Rightarrow> bytes \<Rightarrow> u64 list \<Rightarrow> bytes" where
  "build_encoded_header_descriptor pack_position packed_len info unpack_sizes =
     [0x17] @ [0x06] @ sevenzip_varuint64_encode pack_position @ sevenzip_varuint64_encode 1 @ [0x09] @
     sevenzip_varuint64_encode packed_len @ [0x00] @
     [0x07] @ [0x0b] @ sevenzip_varuint64_encode 1 @ [0x00] @ info @ [0x0c] @
     concat (map sevenzip_varuint64_encode unpack_sizes) @ [0x00] @ [0x00]"

end
