(* ===== verification/Written_Folders.thy ===== *)
theory Written_Folders
  imports Write_Header Folder_Resolve
begin

text \<open>
  What the reader makes of the bitmaps and the coder descriptions the writer emits: a bitmap
  reads back as the flags it was made from, and every description parses to a chain of coders
  in which each coder reads the one before it.
\<close>

unbundle bit_operations_syntax

section \<open>Bitmaps\<close>

definition set_flag :: "nat \<Rightarrow> bool \<Rightarrow> bytes \<Rightarrow> bytes" where
  "set_flag idx value out =
     (if value then out[idx div 8 := out ! (idx div 8) OR push_bit (7 - idx mod 8) 1] else out)"

lemma bools_to_bytes_eq:
  "bools_to_bytes vs = fold (\<lambda>(idx, value). set_flag idx value) (enumerate 0 vs) (replicate (div_ceil (length vs) 8) 0)"
  by (simp add: bools_to_bytes_def set_flag_def [abs_def])

lemma length_set_flag [simp]: "length (set_flag k v out) = length out"
  by (simp add: set_flag_def)

lemma bit_flag_mask: "bit (2 ^ (7 - k mod 8) :: u8) n \<longleftrightarrow> n = 7 - k mod 8"
  by (auto simp: bit_exp_iff)

lemma bitmap_set_flag:
  assumes "k < 8 * length out"
  shows "bitmap_is_set (set_flag k v out) i \<longleftrightarrow> bitmap_is_set out i \<or> (v \<and> i = k)"
proof (cases "i div 8 = k div 8")
  case True
  have "i = k \<longleftrightarrow> 7 - i mod 8 = 7 - k mod 8"
  proof
    assume "7 - i mod 8 = 7 - k mod 8"
    then have "i mod 8 = k mod 8"
      using mod_less_divisor [of 8 i] mod_less_divisor [of 8 k] by linarith
    then show "i = k" using True by (metis div_mult_mod_eq)
  qed simp
  moreover have "k div 8 < length out" using assms by (simp add: less_mult_imp_div_less mult.commute)
  ultimately show ?thesis
    using True by (auto simp: set_flag_def bitmap_is_set_iff bit_or_iff bit_flag_mask)
next
  case False
  then have "i \<noteq> k" by auto
  with False show ?thesis by (simp add: set_flag_def bitmap_is_set_iff)
qed

lemma bitmap_set_flags:
  "k + length vs \<le> 8 * length out \<Longrightarrow>
     length (fold (\<lambda>(idx, value). set_flag idx value) (enumerate k vs) out) = length out \<and>
     (bitmap_is_set (fold (\<lambda>(idx, value). set_flag idx value) (enumerate k vs) out) i \<longleftrightarrow>
        bitmap_is_set out i \<or> (k \<le> i \<and> i < k + length vs \<and> vs ! (i - k)))"
proof (induction vs arbitrary: k out)
  case (Cons v vs)
  have "i = k \<or> Suc k \<le> i \<and> i - k = Suc (i - Suc k) \<or> i < k" by auto
  then show ?case
    using Cons.IH [of "Suc k" "set_flag k v out"] Cons.prems by (auto simp: bitmap_set_flag)
qed auto

lemma div_ceil_8: "n \<le> 8 * div_ceil n 8" "div_ceil n 8 \<le> n"
  by (simp_all add: div_ceil_def)

lemma length_bools_to_bytes [simp]: "length (bools_to_bytes vs) = div_ceil (length vs) 8"
  using bitmap_set_flags [of 0 vs "replicate (div_ceil (length vs) 8) 0"] div_ceil_8
  by (simp add: bools_to_bytes_eq)

lemma bitmap_bools [simp]: "bitmap_is_set (bools_to_bytes vs) i \<longleftrightarrow> i < length vs \<and> vs ! i"
  using bitmap_set_flags [of 0 vs "replicate (div_ceil (length vs) 8) 0" i] div_ceil_8
  by (auto simp: bools_to_bytes_eq bitmap_is_set_iff [of "replicate _ _"])


section \<open>Chains of coders\<close>

definition simple_coder :: "bytes \<Rightarrow> bytes option \<Rightarrow> CoderInfo" where
  "simple_coder cid props = \<lparr>codec_id = cid, num_in_streams = 1, num_out_streams = 1, properties = props\<rparr>"

text \<open>The pairs a chain of \<open>n\<close> coders is bound with: input \<open>k + 1\<close> reads output \<open>k\<close>.\<close>

definition chain_pairs :: "nat \<Rightarrow> (u64 \<times> u64) list" where
  "chain_pairs n = map (\<lambda>k. (of_nat (k + 1), of_nat k)) [0..<n - 1]"

definition chain_folder :: "CoderInfo list \<Rightarrow> Folder" where
  "chain_folder cs = \<lparr>coders = cs, bind_pairs = chain_pairs (length cs), packed_indices = []\<rparr>"

lemma parses_simple_coder:
  assumes "unat (flags AND 0x0f) = length cid" and "flags AND 0x10 = 0"
    and "flags AND 0x20 = 0 \<longleftrightarrow> props = None"
    and "\<And>ps. props = Some ps \<Longrightarrow> length ps < 2 ^ 64"
  shows "parses (CoderInfo_parse N)
    (flags # cid @ (case props of None \<Rightarrow> [] | Some ps \<Rightarrow> sevenzip_varuint64_encode (of_nat (length ps)) @ ps))
    (simple_coder cid props)"
proof -
  have "length cid \<le> 15" using nibble_bound [of flags] assms(1) by simp
  then show ?thesis
    using assms
    by (cases props) (simp_all add: parses_def CoderInfo_parse_def CoderInfoRef_parse_def Let_def simple_coder_def
        array_vec_15_def unat_of_nat)
qed

lemma folder_coders_chain:
  assumes "list_all2 (parses (CoderInfo_parse N)) encs cs"
    and "list_all (\<lambda>c. num_in_streams c = 1 \<and> num_out_streams c = 1) cs"
    and "k + length cs \<le> MAX_FOLDER_STREAMS"
  shows "folder_coders N (length cs) (concat encs @ r) \<lparr>inputs = of_nat k, outputs = of_nat k\<rparr> =
    Ok (r, \<lparr>inputs = of_nat (k + length cs), outputs = of_nat (k + length cs)\<rparr>, cs)"
  using assms
proof (induction encs cs arbitrary: k rule: list_all2_induct)
  case (Cons e es c cs)
  have "unat (of_nat k :: u64) = k" "unat (of_nat (Suc k) :: u64) = Suc k"
    using Cons.prems(2) by (simp_all only: unat_of_nat) simp_all
  then have "add_coder \<lparr>inputs = of_nat k, outputs = of_nat k\<rparr> (concat es @ r) 1 1 =
      Ok \<lparr>inputs = of_nat (Suc k), outputs = of_nat (Suc k)\<rparr>"
    using Cons.prems(2) by (simp only: add_coder_eq_Ok) simp
  then show ?case
    using Cons.IH [of "Suc k"] Cons.prems Cons.hyps by (simp add: parses_def del: of_nat_Suc)
qed (simp add: parses_def)

lemma folder_bind_pair_encoded:
  "a < inputs c \<Longrightarrow> b < outputs c \<Longrightarrow>
     folder_bind_pair c (sevenzip_varuint64_encode a @ sevenzip_varuint64_encode b @ r) = Ok (r, (a, b))"
  by (simp add: folder_bind_pair_def checked_stream_index_def)

lemma repeat_bind_pairs:
  assumes "list_all (\<lambda>(a, b). a < inputs c \<and> b < outputs c) ps"
  shows "repeat_p (folder_bind_pair c) (length ps)
    (concat (map (\<lambda>(a, b). sevenzip_varuint64_encode a @ sevenzip_varuint64_encode b) ps) @ r) = Ok (r, ps)"
  using assms
  by (induction ps) (auto simp: folder_bind_pair_encoded)

text \<open>The law of all the encoders: a count, the coders, the pairs of the chain.\<close>

lemma parses_chain:
  assumes encs: "list_all2 (parses (CoderInfo_parse N)) encs cs"
    and simple: "list_all (\<lambda>c. num_in_streams c = 1 \<and> num_out_streams c = 1) cs"
    and n: "1 \<le> length cs" "length cs \<le> MAX_FOLDER_STREAMS"
  shows "parses (Folder_parse N)
    (sevenzip_varuint64_encode (of_nat (length cs)) @ concat encs @
     concat (map (\<lambda>(a, b). sevenzip_varuint64_encode a @ sevenzip_varuint64_encode b) (chain_pairs (length cs))))
    (chain_folder cs)"
proof -
  let ?c = "\<lparr>inputs = of_nat (length cs), outputs = of_nat (length cs)\<rparr> :: FolderStreamCounts"
  have len: "unat (of_nat (length cs) :: u64) = length cs"
    using n by (simp only: unat_of_nat) simp
  have pairs: "list_all (\<lambda>(a, b). a < inputs ?c \<and> b < outputs ?c) (chain_pairs (length cs))"
  proof -
    have "unat (of_nat k :: u64) = k" if "k \<le> length cs" for k
      using n that by (simp only: unat_of_nat) simp
    then have "of_nat (k + 1) < (of_nat (length cs) :: u64) \<and> of_nat k < (of_nat (length cs) :: u64)"
      if "k < length cs - 1" for k
      using that by (simp only: word_less_nat_alt) (auto simp del: of_nat_add of_nat_Suc)
    then show ?thesis by (simp add: chain_pairs_def list_all_iff)
  qed
  have np: "unat (of_nat (length cs) - 1 :: u64) = length cs - 1"
    using n len by (simp add: unat_sub_if_size unat_eq_zero)
  have layout: "counts_layout ?c i = Ok (of_nat (length cs) - 1, 1)" for i
    using n len np by (simp only: counts_layout_eq_Ok) simp
  show ?thesis
    unfolding parses_def
  proof
    fix r
    let ?pairs = "concat (map (\<lambda>(a, b). sevenzip_varuint64_encode a @ sevenzip_varuint64_encode b) (chain_pairs (length cs)))"
    have "folder_coders N (length cs) (concat encs @ ?pairs @ r) FolderStreamCounts_default = Ok (?pairs @ r, ?c, cs)"
      using folder_coders_chain [OF encs simple, of 0] n by (simp add: FolderStreamCounts_default_def)
    moreover have "repeat_p (folder_bind_pair ?c) (unat (of_nat (length cs) - 1 :: u64)) (?pairs @ r) =
        Ok (r, chain_pairs (length cs))"
      using repeat_bind_pairs [OF pairs, of r] np by (simp add: chain_pairs_def)
    ultimately show "Folder_parse N ((sevenzip_varuint64_encode (of_nat (length cs)) @ concat encs @ ?pairs) @ r) =
        Ok (r, chain_folder cs)"
      using layout n len by (simp add: Folder_parse_def checked_coder_count_def chain_folder_def)
  qed
qed



section \<open>The graph of a chain\<close>

lemma owner_list_ones: "owner_list (map (\<lambda>c. 1) cs) = [0..<length cs]"
proof -
  have "concat (map (\<lambda>(i, n). replicate n i) (enumerate k (map (\<lambda>c. 1) cs))) = [k..<k + length cs]" for k
  proof (induction cs arbitrary: k)
    case (Cons c cs)
    have "[k..<k + length (c # cs)] = k # [Suc k..<Suc k + length cs]" by (simp add: upt_conv_Cons del: upt_Suc)
    then show ?case using Cons.IH [of "Suc k"] by simp
  qed simp
  from this [of 0] show ?thesis by (simp add: owner_list_def)
qed

lemma owners_of_chain:
  assumes "list_all (\<lambda>c. num_in_streams c = 1 \<and> num_out_streams c = 1) cs"
  shows "owners_of cs = \<lparr>own_inputs = [0..<length cs], own_outputs = [0..<length cs]\<rparr>"
proof -
  have "map (\<lambda>c. unat (num_in_streams c)) cs = map (\<lambda>c. 1) cs"
    "map (\<lambda>c. unat (num_out_streams c)) cs = map (\<lambda>c. 1) cs"
    using assms by (auto simp: list_all_iff)
  then show ?thesis by (simp only: owners_of_def owner_list_ones)
qed

lemma nat_chain_pairs:
  assumes "n \<le> MAX_FOLDER_STREAMS"
  shows "map nat_pair (chain_pairs n) = map (\<lambda>k. (Suc k, k)) [0..<n - 1]"
proof -
  have "unat (of_nat k :: u64) = k" if "k \<le> n" for k
    using assms that by (simp only: unat_of_nat) simp
  then have "unat (of_nat (Suc k) :: u64) = Suc k \<and> unat (of_nat k :: u64) = k" if "k < n - 1" for k
    using that by (auto simp del: of_nat_Suc)
  then show ?thesis
    by (simp add: chain_pairs_def nat_pair_def del: of_nat_Suc)
qed

lemma chain_edges:
  "coder_edges \<lparr>own_inputs = [0..<n], own_outputs = [0..<n]\<rparr> (map (\<lambda>k. (Suc k, k)) [0..<n - 1]) =
     (\<lambda>k. (k, Suc k)) ` {..<n - 1}"
  by (force simp: coder_edges_def image_iff)

lemma chain_inputs: "1 \<le> n \<Longrightarrow> {..<n} - fst ` set (map (\<lambda>k. (Suc k, k)) [0..<n - 1]) = {0}"
proof -
  assume "1 \<le> n"
  have "fst ` set (map (\<lambda>k. (Suc k, k)) [0..<n - 1]) = {1..<n}"
  proof -
    have "x \<in> Suc ` {0..<n - 1}" if "1 \<le> x" "x < n" for x
      using that by (intro image_eqI [of _ _ "x - 1"]) auto
    then show ?thesis by (auto simp: image_image)
  qed
  with \<open>1 \<le> n\<close> show ?thesis by auto
qed

lemma chain_outputs: "1 \<le> n \<Longrightarrow> {..<n} - snd ` set (map (\<lambda>k. (Suc k, k)) [0..<n - 1]) = {n - 1}"
  by (auto simp: image_image)

lemma chain_matching:
  "matching \<lparr>own_inputs = [0..<n], own_outputs = [0..<n]\<rparr> (map (\<lambda>k. (Suc k, k)) [0..<n - 1])"
  by (auto simp: matching_def o_def distinct_map)

lemma chain_graph_valid:
  assumes simple: "list_all (\<lambda>c. num_in_streams c = 1 \<and> num_out_streams c = 1) cs"
    and ar: "list_all arity_ok cs" and n: "1 \<le> length cs" "length cs \<le> MAX_FOLDER_STREAMS"
  shows "graph_valid (chain_folder cs)"
proof -
  let ?n = "length cs"
  have ones: "map (\<lambda>c. unat (num_in_streams c)) cs = replicate ?n 1"
    "map (\<lambda>c. unat (num_out_streams c)) cs = replicate ?n 1"
    using simple by (auto simp: list_all_iff map_eq_conv simp flip: map_replicate_const)
  have "acyclic ((\<lambda>k. (k, Suc k)) ` {..<?n - 1})"
    by (rule acyclic_subset [OF wf_acyclic [OF wf_less_than]]) auto
  then show ?thesis
    using n ar chain_inputs [OF n(1)]
    by (simp add: graph_valid_def chain_folder_def Let_def owners_of_chain [OF simple]
        nat_chain_pairs [OF n(2)] chain_edges [simplified] coders_ok_def ones packed_valid_def
        sum_list_replicate chain_matching [simplified])
qed

text \<open>An order in which every number precedes its successor is the order of the numbers.\<close>

lemma successor_order:
  assumes d: "distinct xs" and s: "set xs = {..<n}"
    and before: "\<And>k. Suc k < n \<Longrightarrow> \<exists>as bs cs. xs = as @ k # bs @ Suc k # cs"
  shows "xs = [0..<n]"
proof -
  have len: "length xs = n" using d s distinct_card [OF d] by simp
  define pos where "pos k = (THE p. p < n \<and> xs ! p = k)" for k
  have pos: "pos k < n \<and> xs ! pos k = k" if "k < n" for k
  proof -
    from that s have "k \<in> set xs" by simp
    then obtain p where p: "p < n" "xs ! p = k" using len by (metis in_set_conv_nth)
    then have "\<exists>!p. p < n \<and> xs ! p = k" using d len nth_eq_iff_index_eq by blast
    from theI' [OF this] show ?thesis by (simp add: pos_def)
  qed
  have pos_eq: "pos k = p" if "p < n" "xs ! p = k" for k p
  proof -
    have "k < n" using that s len nth_mem [of p xs] by auto
    then show ?thesis using pos [of k] that d len nth_eq_iff_index_eq [of xs "pos k" p] by simp
  qed
  have step: "pos k < pos (Suc k)" if "Suc k < n" for k
  proof -
    from before [OF that] obtain as bs cs where xs: "xs = as @ k # bs @ Suc k # cs" by blast
    then have "length as < n \<and> length as + 1 + length bs < n" using len by auto
    moreover have "xs ! length as = k" "xs ! (length as + 1 + length bs) = Suc k"
      by (simp_all add: xs nth_append)
    ultimately have "pos k = length as" "pos (Suc k) = length as + 1 + length bs"
      using pos_eq by blast+
    then show ?thesis by simp
  qed
  have lower: "k \<le> pos k" if "k < n" for k
    using that by (induction k) (use step in fastforce)+
  have "pos k \<le> k" if "k < n" for k
  proof -
    have "pos (n - 1 - j) \<le> n - 1 - j" if "j < n" for j
      using that
    proof (induction j)
      case 0
      then have "pos (n - 1) < n" using pos [of "n - 1"] by simp
      then show ?case by simp
    next
      case (Suc j)
      then have "pos (n - 1 - Suc j) < pos (n - 1 - j)"
        using step [of "n - 1 - Suc j"] by (simp add: Suc_diff_Suc)
      then show ?case using Suc by simp
    qed
    from this [of "n - 1 - k"] that show ?thesis by simp
  qed
  with lower have "pos k = k" if "k < n" for k using that by (simp add: le_antisym)
  then show ?thesis
    using pos len by (intro nth_equalityI) auto
qed

text \<open>The chain resolves: the coders run from the packed stream to the last coder.\<close>

lemma chain_graph:
  assumes simple: "list_all (\<lambda>c. num_in_streams c = 1 \<and> num_out_streams c = 1) cs"
    and ar: "list_all arity_ok cs" and n: "1 \<le> length cs" "length cs \<le> MAX_FOLDER_STREAMS"
  shows "\<exists>g. graph (chain_folder cs) = Ok g \<and> g_execution_order g = [0..<length cs] \<and>
    g_packed_inputs g = [(0, 0)] \<and> g_final_output g = length cs - 1"
proof -
  from graph_eq [of "chain_folder cs"] chain_graph_valid [OF assms]
  obtain g where g: "graph (chain_folder cs) = Ok g" and d: "graph_describes (chain_folder cs) g"
    by auto
  note d' = d [unfolded graph_describes_def Let_def chain_folder_def Folder.select_convs
      owners_of_chain [OF simple] nat_chain_pairs [OF n(2)] chain_edges StreamOwners.select_convs
      length_upt diff_zero chain_inputs [OF n(1)] chain_outputs [OF n(1)]]
  have "g_final_output g = length cs - 1" using d' by simp
  moreover have "g_execution_order g = [0..<length cs]"
  proof (rule successor_order)
    fix k assume "Suc k < length cs"
    then have "(k, Suc k) \<in> (\<lambda>k. (k, Suc k)) ` {..<length cs - 1}" by auto
    then show "\<exists>as bs cs. g_execution_order g = as @ k # bs @ Suc k # cs" using d' by fastforce
  qed (use d' in auto)
  moreover have "g_packed_inputs g = [(0, 0)]"
  proof -
    have "distinct (map snd (g_packed_inputs g))" "set (map snd (g_packed_inputs g)) = {0}" using d' by auto
    then have one: "length (g_packed_inputs g) = 1" using distinct_card [of "map snd (g_packed_inputs g)"] by simp
    then obtain a b where p: "g_packed_inputs g = [(a, b)]" by (auto simp: length_Suc_conv)
    then have "a = 0" "b = 0" using d' by auto
    with p show ?thesis by simp
  qed
  ultimately show ?thesis using g by blast
qed


section \<open>The coder descriptions of the writer\<close>

definition spec_coder :: "CoderSpec \<Rightarrow> CoderInfo" where
  "spec_coder spec =
     (case spec of
        Spec_Copy \<Rightarrow> simple_coder CODEC_COPY None
      | Spec_Lzma props \<Rightarrow> simple_coder CODEC_LZMA (Some props)
      | Spec_Lzma2 prop \<Rightarrow> simple_coder CODEC_LZMA2 (Some [prop])
      | Spec_Ppmd props \<Rightarrow> simple_coder CODEC_PPMD (Some props)
      | Spec_Bcj \<Rightarrow> simple_coder CODEC_BCJ_X86 None)"

text \<open>The writer always makes five property bytes for LZMA and PPMd.\<close>

definition spec_ok :: "CoderSpec \<Rightarrow> bool" where
  "spec_ok spec \<longleftrightarrow> (\<forall>props. spec = Spec_Lzma props \<or> spec = Spec_Ppmd props \<longrightarrow> length props = 5)"

definition aes_coder :: "bytes \<Rightarrow> CoderInfo" where
  "aes_coder props = simple_coder CODEC_AES_256_SHA_256 (Some props)"

text \<open>
  A description of a chain of coders: it parses to the chain, wherever it stands, and the chain
  runs from the one packed stream through the coders in order to the output of the last.
\<close>

definition describes_chain :: "nom \<Rightarrow> bytes \<Rightarrow> CoderInfo list \<Rightarrow> bool" where
  "describes_chain N bs cs \<longleftrightarrow>
     parses (Folder_parse N) bs (chain_folder cs) \<and>
     (\<exists>g. graph (chain_folder cs) = Ok g \<and> g_execution_order g = [0..<length cs] \<and>
        g_packed_inputs g = [(0, 0)] \<and> g_final_output g = length cs - 1)"

lemma simple_coder_streams [simp]:
  "num_in_streams (simple_coder i ps) = 1" "num_out_streams (simple_coder i ps) = 1"
  by (simp_all add: simple_coder_def)

lemma spec_coder_streams [simp]:
  "num_in_streams (spec_coder s) = 1" "num_out_streams (spec_coder s) = 1"
  by (simp_all add: spec_coder_def split: CoderSpec.split)

lemma arity_ok_simple: "method_from_id i = Some m \<Longrightarrow> stream_arity m = Some (1, 1) \<Longrightarrow> arity_ok (simple_coder i ps)"
  by (simp add: arity_ok_def simple_coder_def)

lemma writer_methods:
  "method_from_id CODEC_COPY = Some M_Copy" "method_from_id CODEC_LZMA = Some M_Lzma"
  "method_from_id CODEC_LZMA2 = Some M_Lzma2" "method_from_id CODEC_PPMD = Some M_Ppmd"
  "method_from_id CODEC_BCJ_X86 = Some M_Bcj" "method_from_id CODEC_AES_256_SHA_256 = Some M_SevenZAes"
  by (simp_all add: method_from_id_def method_info_def METHOD_REGISTRY_def codec_ids)

lemma writer_arities:
  "stream_arity M_Copy = Some (1, 1)" "stream_arity M_Lzma = Some (1, 1)" "stream_arity M_Lzma2 = Some (1, 1)"
  "stream_arity M_Ppmd = Some (1, 1)" "stream_arity M_Bcj = Some (1, 1)" "stream_arity M_SevenZAes = Some (1, 1)"
  by (simp_all add: stream_arity_def SevenZMethod_info_def METHOD_REGISTRY_def)

lemma arity_ok_spec: "arity_ok (spec_coder s)"
  by (cases s) (auto simp: spec_coder_def writer_methods writer_arities intro: arity_ok_simple)

lemma parses_spec: "spec_ok s \<Longrightarrow> parses (CoderInfo_parse N) (encode_spec s) (spec_coder s)"
proof (cases s)
  case Spec_Copy
  then show ?thesis
    using parses_simple_coder [where N = N and flags = "0x01" and cid = CODEC_COPY and props = None]
    by (simp add: spec_coder_def codec_ids)
next
  case (Spec_Lzma ps)
  assume "spec_ok s"
  then show ?thesis
    using parses_simple_coder [where N = N and flags = "0x23" and cid = CODEC_LZMA and props = "Some ps"] Spec_Lzma
    by (simp add: spec_coder_def codec_ids spec_ok_def)
next
  case (Spec_Lzma2 b)
  then show ?thesis
    using parses_simple_coder [where N = N and flags = "0x21" and cid = CODEC_LZMA2 and props = "Some [b]"]
    by (simp add: spec_coder_def codec_ids)
next
  case (Spec_Ppmd ps)
  assume "spec_ok s"
  then show ?thesis
    using parses_simple_coder [where N = N and flags = "0x23" and cid = CODEC_PPMD and props = "Some ps"] Spec_Ppmd
    by (simp add: spec_coder_def codec_ids spec_ok_def)
next
  case Spec_Bcj
  then show ?thesis
    using parses_simple_coder [where N = N and flags = "0x04" and cid = CODEC_BCJ_X86 and props = None]
    by (simp add: spec_coder_def codec_ids)
qed

lemma parses_specs:
  "list_all spec_ok specs \<Longrightarrow> list_all2 (parses (CoderInfo_parse N)) (map encode_spec specs) (map spec_coder specs)"
  by (induction specs) (auto simp: parses_spec)

lemma parses_aes:
  "length props < 2 ^ 64 \<Longrightarrow>
     parses (CoderInfo_parse N)
       (0x24 # [0x06, 0xF1, 0x07, 0x01] @ sevenzip_varuint64_encode (of_nat (length props)) @ props) (aes_coder props)"
  using parses_simple_coder [where N = N and flags = "0x24" and cid = CODEC_AES_256_SHA_256 and props = "Some props"] by (simp add: aes_coder_def codec_ids)

lemma describes_chainI:
  assumes "list_all2 (parses (CoderInfo_parse N)) encs cs"
    and "list_all (\<lambda>c. num_in_streams c = 1 \<and> num_out_streams c = 1) cs" and "list_all arity_ok cs"
    and "1 \<le> length cs" "length cs \<le> MAX_FOLDER_STREAMS"
    and "bs = sevenzip_varuint64_encode (of_nat (length cs)) @ concat encs @
      concat (map (\<lambda>(a, b). sevenzip_varuint64_encode a @ sevenzip_varuint64_encode b) (chain_pairs (length cs)))"
  shows "describes_chain N bs cs"
  using parses_chain [OF assms(1,2,4,5)] chain_graph [OF assms(2-5)] assms(6) by (simp add: describes_chain_def)

lemma describes_specs:
  assumes "list_all spec_ok specs" and "1 \<le> length specs" "length specs \<le> MAX_FOLDER_STREAMS"
    and "bs = sevenzip_varuint64_encode (of_nat (length specs)) @ concat (map encode_spec specs) @
      concat (map (\<lambda>(a, b). sevenzip_varuint64_encode a @ sevenzip_varuint64_encode b) (chain_pairs (length specs)))"
  shows "describes_chain N bs (map spec_coder specs)"
  using assms
  by (intro describes_chainI [of N "map encode_spec specs"])
     (auto simp: list_all_iff arity_ok_spec intro: parses_specs)

lemma describes_aes_then:
  assumes "list_all spec_ok inner" and "length inner < MAX_FOLDER_STREAMS" and "length aes_props < 2 ^ 64"
  shows "describes_chain N (encode_coder_info_aes_then inner aes_props)
    (aes_coder aes_props # map spec_coder inner)"
  using assms parses_aes [OF assms(3), of N]
  by (intro describes_chainI [of N
        "(0x24 # [0x06, 0xF1, 0x07, 0x01] @ sevenzip_varuint64_encode (of_nat (length aes_props)) @ aes_props)
          # map encode_spec inner"])
     (auto simp: list_all_iff arity_ok_spec aes_coder_def intro: parses_specs arity_ok_simple simp:
        encode_coder_info_aes_then_def chain_pairs_def o_def writer_methods writer_arities)

text \<open>
  Every coder description the writer emits is read back by the reader's folder parser as the
  chain of coders it stands for, whatever follows it, and the coder graph of that folder resolves: one
  packed stream, the coders in the order of the chain, the last one's output. This covers the five
  unencrypted descriptions and the encrypted one for any list of inner coders.
\<close>

theorem coder_infos_parse_back:
  assumes "length props = 5"
  shows "describes_chain N encode_coder_info_copy [spec_coder Spec_Copy] \<and>
    describes_chain N (encode_coder_info_lzma props) [spec_coder (Spec_Lzma props)] \<and>
    describes_chain N (encode_coder_info_lzma2 b) [spec_coder (Spec_Lzma2 b)] \<and>
    describes_chain N (encode_coder_info_ppmd props) [spec_coder (Spec_Ppmd props)] \<and>
    describes_chain N (encode_coder_info_bcj_lzma2 b) [spec_coder (Spec_Lzma2 b), spec_coder Spec_Bcj] \<and>
    (list_all spec_ok inner \<and> length inner < MAX_FOLDER_STREAMS \<and> length aes_props < 2 ^ 64 \<longrightarrow>
      describes_chain N (encode_coder_info_aes_then inner aes_props)
        (aes_coder aes_props # map spec_coder inner))"
proof (intro conjI impI)
  show "describes_chain N encode_coder_info_copy [spec_coder Spec_Copy]"
    using describes_specs [of "[Spec_Copy]" encode_coder_info_copy N]
    by (simp add: encode_coder_info_copy_def chain_pairs_def spec_ok_def)
  show "describes_chain N (encode_coder_info_lzma props) [spec_coder (Spec_Lzma props)]"
    using describes_specs [of "[Spec_Lzma props]" "encode_coder_info_lzma props" N] assms
    by (simp add: encode_coder_info_lzma_def chain_pairs_def spec_ok_def)
  show "describes_chain N (encode_coder_info_lzma2 b) [spec_coder (Spec_Lzma2 b)]"
    using describes_specs [of "[Spec_Lzma2 b]" "encode_coder_info_lzma2 b" N]
    by (simp add: encode_coder_info_lzma2_def chain_pairs_def spec_ok_def)
  show "describes_chain N (encode_coder_info_ppmd props) [spec_coder (Spec_Ppmd props)]"
    using describes_specs [of "[Spec_Ppmd props]" "encode_coder_info_ppmd props" N] assms
    by (simp add: encode_coder_info_ppmd_def chain_pairs_def spec_ok_def)
  show "describes_chain N (encode_coder_info_bcj_lzma2 b) [spec_coder (Spec_Lzma2 b), spec_coder Spec_Bcj]"
    using describes_specs [of "[Spec_Lzma2 b, Spec_Bcj]" "encode_coder_info_bcj_lzma2 b" N]
    by (simp add: encode_coder_info_bcj_lzma2_def chain_pairs_def spec_ok_def)
qed (use describes_aes_then in blast)

theorem coder_infos_parse_back_witness:
  "describes_chain nom_reference (encode_coder_info_aes_then [Spec_Lzma2 24, Spec_Bcj] [0x53, 0x07])
     [aes_coder [0x53, 0x07], spec_coder (Spec_Lzma2 24), spec_coder Spec_Bcj]"
  using coder_infos_parse_back [of "[93, 0, 0, 16, 0]" nom_reference 24 "[Spec_Lzma2 24, Spec_Bcj]" "[0x53, 0x07]"]
  by (simp add: spec_ok_def)

end
