(* ===== verification/Written_Streams.thy ===== *)
theory Written_Streams
  imports Written_Folders Stream_Scan
begin

text \<open>
  The streams sections the writer emits, read back: checksums, packed streams, folders and
  substreams come out of the reader's parsers as the tables they were written from.
\<close>

section \<open>Checksums\<close>

definition has_crc :: "u32 option list \<Rightarrow> bool" where
  "has_crc crcs \<longleftrightarrow> list_ex (\<lambda>c. c \<noteq> None) crcs"

definition crc_body :: "u32 option list \<Rightarrow> bytes" where
  "crc_body crcs =
     u8_from_bool (list_all (\<lambda>c. c \<noteq> None) crcs) #
     (if list_all (\<lambda>c. c \<noteq> None) crcs then [] else bools_to_bytes (map (\<lambda>c. c \<noteq> None) crcs)) @
     concat (map (to_le_bytes 4) (present crcs))"

lemma write_optional_crcs_eq:
  "write_optional_crcs crcs = (if has_crc crcs then Property_code P_CRC # crc_body crcs else [])"
  by (simp add: write_optional_crcs_def has_crc_def crc_body_def Let_def)

lemma present_simps [simp]: "present [] = []" "present (None # xs) = present xs" "present (Some x # xs) = x # present xs"
  by (simp_all add: present_def)

lemma read_digests_written:
  "(\<And>i. i < length crcs \<Longrightarrow> d (k + i) \<longleftrightarrow> crcs ! i \<noteq> None) \<Longrightarrow>
     read_digests N d k (length crcs) (concat (map (to_le_bytes 4) (present crcs)) @ r) = Ok (r, crcs)"
proof (induction crcs arbitrary: k)
  case (Cons c crcs)
  have "d (Suc k + i) \<longleftrightarrow> crcs ! i \<noteq> None" if "i < length crcs" for i
    using Cons.prems [of "Suc i"] that by simp
  then have IH: "read_digests N d (Suc k) (length crcs) (concat (map (to_le_bytes 4) (present crcs)) @ r) = Ok (r, crcs)"
    by (rule Cons.IH)
  have "d k \<longleftrightarrow> c \<noteq> None" using Cons.prems [of 0] by simp
  then show ?case using IH by (cases c) (simp_all add: le_u32.decode_encode)
qed simp

lemma read_bitmap_written:
  "read_bitmap N (u8_from_bool (list_all P xs))
      (length xs) ((if list_all P xs then [] else bools_to_bytes (map P xs)) @ r) =
     Ok (r, if list_all P xs then [] else bools_to_bytes (map P xs))"
  by (simp add: read_bitmap_def u8_from_bool_def)

lemma defined_written:
  "i < length xs \<Longrightarrow>
     u8_from_bool (list_all P xs) \<noteq> 0 \<or> bitmap_is_set (if list_all P xs then [] else bools_to_bytes (map P xs)) i
     \<longleftrightarrow> P (xs ! i)"
  by (auto simp: u8_from_bool_def list_all_length)

text \<open>The three parts of the bytes, and how the readers take them apart.\<close>

lemma crc_body_parts:
  obtains a bm t where "crc_body crcs = a # bm @ t"
    and "\<And>N r. read_bitmap N a (length crcs) (bm @ r) = Ok (r, bm)"
    and "\<And>i. i < length crcs \<Longrightarrow> (a \<noteq> 0 \<or> bitmap_is_set bm i) \<longleftrightarrow> crcs ! i \<noteq> None"
    and "t = concat (map (to_le_bytes 4) (present crcs))"
    and "a \<noteq> 0 \<longleftrightarrow> list_all (\<lambda>c. c \<noteq> None) crcs"
proof
  let ?P = "\<lambda>c :: u32 option. c \<noteq> None"
  show "crc_body crcs = u8_from_bool (list_all ?P crcs) #
      (if list_all ?P crcs then [] else bools_to_bytes (map ?P crcs)) @ concat (map (to_le_bytes 4) (present crcs))"
    by (simp add: crc_body_def)
  show "read_bitmap N (u8_from_bool (list_all ?P crcs)) (length crcs)
      ((if list_all ?P crcs then [] else bools_to_bytes (map ?P crcs)) @ r) =
      Ok (r, if list_all ?P crcs then [] else bools_to_bytes (map ?P crcs))" for N r
    by (rule read_bitmap_written)
  show "(u8_from_bool (list_all ?P crcs) \<noteq> 0 \<or>
      bitmap_is_set (if list_all ?P crcs then [] else bools_to_bytes (map ?P crcs)) i) = (crcs ! i \<noteq> None)"
    if "i < length crcs" for i
    using that by (rule defined_written)
qed (simp_all add: u8_from_bool_def)

lemma parse_digests_written:
  "parse_digests N (crc_body crcs @ r) (length crcs) = Ok (r, crcs)"
proof (rule crc_body_parts [of crcs])
  fix a bm t
  assume *: "crc_body crcs = a # bm @ t" "\<And>N r. read_bitmap N a (length crcs) (bm @ r) = Ok (r, bm)"
    "\<And>i. i < length crcs \<Longrightarrow> (a \<noteq> 0 \<or> bitmap_is_set bm i) = (crcs ! i \<noteq> None)"
    "t = concat (map (to_le_bytes 4) (present crcs))"
  have "read_digests N (\<lambda>i. a \<noteq> 0 \<or> bitmap_is_set bm i) 0 (length crcs) (t @ r) = Ok (r, crcs)"
    unfolding *(4) by (rule read_digests_written) (simp only: add_0 *(3))
  then show ?thesis by (simp add: parse_digests_def *(1,2))
qed

lemma length_present: "length (present xs) = length (filter (\<lambda>x. x \<noteq> None) xs)"
  by (simp add: present_def)

lemma count_defined: "length (filter (\<lambda>i. P (xs ! i)) [0..<length xs]) = length (filter P xs)"
  unfolding length_filter_conv_card by (rule arg_cong [where f = card]) auto

lemma parse_stream_digests_written:
  assumes "4 * length crcs < usize_limit"
  shows "parse_stream_digests N (crc_body crcs @ r) (length crcs) = Ok (r, crcs)"
proof (rule crc_body_parts [of crcs])
  fix a bm t
  assume *: "crc_body crcs = a # bm @ t" "\<And>N r. read_bitmap N a (length crcs) (bm @ r) = Ok (r, bm)"
    "\<And>i. i < length crcs \<Longrightarrow> (a \<noteq> 0 \<or> bitmap_is_set bm i) = (crcs ! i \<noteq> None)"
    "t = concat (map (to_le_bytes 4) (present crcs))" "a \<noteq> 0 \<longleftrightarrow> list_all (\<lambda>c. c \<noteq> None) crcs"
  have digests: "read_digests N (\<lambda>i. a \<noteq> 0 \<or> bitmap_is_set bm i) 0 (length crcs) (t @ r) = Ok (r, crcs)"
    unfolding *(4) by (rule read_digests_written) (simp only: add_0 *(3))
  have n: "(if a \<noteq> 0 then length crcs else length (filter (bitmap_is_set bm) [0..<length crcs])) =
      length (present crcs)"
  proof (cases "a \<noteq> 0")
    case True
    then have "filter (\<lambda>c. c \<noteq> None) crcs = crcs" using *(5) by (simp only: filter_id_conv list_all_iff)
    then show ?thesis using True by (simp add: length_present)
  next
    case False
    then have "filter (bitmap_is_set bm) [0..<length crcs] = filter (\<lambda>i. crcs ! i \<noteq> None) [0..<length crcs]"
      using *(3) by (intro filter_cong) auto
    then show ?thesis
      using False count_defined [of "\<lambda>c. c \<noteq> None" crcs] by (simp only: length_present if_False)
  qed
  have t: "length t = length (present crcs) * 4"
    by (simp add: *(4) length_concat o_def sum_list_triv)
  have "length (present crcs) \<le> length crcs" by (simp add: length_present)
  then have "usize_checked_mul (length (present crcs)) 4 = Some (length (present crcs) * 4)"
    using assms by simp
  then show ?thesis
    using digests t by (simp only: parse_stream_digests_def Let_def *(1) append_Cons append_assoc nom_le_u8_eq
        list.case and_then.simps prod.case *(2) n ok_or.simps) simp
qed

lemma no_crc: "\<not> has_crc crcs \<Longrightarrow> crcs = replicate (length crcs) None"
  by (auto simp: has_crc_def list_ex_iff intro: replicate_eqI)

lemma no_crc_empty: "has_crc crcs \<Longrightarrow> crcs \<noteq> []"
  by (auto simp: has_crc_def)


section \<open>Packed streams\<close>

lemma Property_parse_code [simp]: "Property_parse (Property_code p # r) = Ok (r, p)"
  by (simp add: Property_parse_eq_Ok)

lemma Property_parse_codes [simp]:
  "Property_parse (0x00 # r) = Ok (r, P_END)" "Property_parse (0x04 # r) = Ok (r, P_MainStreamsInfo)"
  "Property_parse (0x05 # r) = Ok (r, P_FilesInfo)"
  "Property_parse (0x01 # r) = Ok (r, P_Header)" "Property_parse (0x06 # r) = Ok (r, P_PackInfo)"
  "Property_parse (0x07 # r) = Ok (r, P_UnPackInfo)" "Property_parse (0x08 # r) = Ok (r, P_SubStreamsInfo)"
  "Property_parse (0x09 # r) = Ok (r, P_Size)" "Property_parse (0x0a # r) = Ok (r, P_CRC)"
  "Property_parse (0x0b # r) = Ok (r, P_Folder)" "Property_parse (0x0c # r) = Ok (r, P_CodersUnPackSize)"
  "Property_parse (0x0d # r) = Ok (r, P_NumUnPackStream)" "Property_parse (0x17 # r) = Ok (r, P_EncodedHeader)"
  by (simp_all add: Property_parse_eq_Ok)

text \<open>The integers of all folders, one after the other.\<close>

lemma concat_encodings:
  "concat (map (\<lambda>x. concat (map sevenzip_varuint64_encode (f x))) xs) =
     concat (map sevenzip_varuint64_encode (concat (map f xs)))"
  by (induction xs) simp_all

definition written_pack_info :: "CompletedFolder list \<Rightarrow> PackInfo" where
  "written_pack_info cfs =
     (let sizes = concat (map pack_sizes cfs) in
      \<lparr>pack_pos = 0, num_pack_streams = of_nat (length sizes), pack_size = sizes,
       pi_digests = replicate (length sizes) None\<rparr>)"

lemma PackInfo_written:
  assumes "length (concat (map pack_sizes cfs)) < usize_limit"
  shows "PackInfo_parse N (write_pack_info cfs @ r) = Ok (r, written_pack_info cfs)"
proof -
  let ?sizes = "concat (map pack_sizes cfs)"
  have n: "unat (of_nat (length ?sizes) :: u64) = length ?sizes"
    using assms by (simp add: unat_of_nat)
  have w: "write_pack_info cfs @ r = 0x06 # sevenzip_varuint64_encode 0 @
      sevenzip_varuint64_encode (of_nat (length ?sizes)) @ 0x09 #
      concat (map sevenzip_varuint64_encode ?sizes) @ 0x00 # r"
    by (simp add: write_pack_info_def Let_def concat_encodings length_concat o_def)
  have rep: "repeat_p sevenzip_varuint64_decode (unat (of_nat (length ?sizes) :: u64))
      (concat (map sevenzip_varuint64_encode ?sizes) @ 0x00 # r) = Ok (0x00 # r, ?sizes)"
    unfolding n by (rule varuint_repeat_decode)
  show ?thesis
    unfolding w PackInfo_parse_def
    by (simp add: pack_info_prefix_def rep pack_info_loop.simps [of _ _ "0 # _"] written_pack_info_def Let_def
        del: map_concat)
qed


section \<open>Folders\<close>

text \<open>
  What the encoder promises of a completed folder: its description parses to \<open>f\<close>, whose graph
  resolves, there is a size for every coder output, and sizes and checksums for the files in it.
\<close>

definition folder_written :: "nom \<Rightarrow> CompletedFolder \<Rightarrow> Folder \<Rightarrow> bool" where
  "folder_written N cf f \<longleftrightarrow>
     parses (Folder_parse N) (coder_info cf) f \<and> is_ok (graph f) \<and>
     length (coder_unpack_sizes cf) = total_out_streams f \<and>
     length (file_sizes cf) = length (file_indices cf) \<and>
     length (file_crcs cf) = length (file_indices cf)"

lemma folder_blocks_loop_written:
  assumes "list_all2 (folder_written N) cfs folders"
    and "length data < 2 ^ 32" and "length (concat (map coder_info cfs) @ r) \<le> length data"
    and "t + sum_list (map total_out_streams folders) < usize_limit"
  shows "\<exists>os'. folder_blocks_loop N data (length cfs) (concat (map coder_info cfs) @ r) t (Some os) =
      Ok (r, t + sum_list (map total_out_streams folders), Some os')"
  using assms
proof (induction cfs folders arbitrary: t os rule: list_all2_induct)
  case (Cons cf cfs f folders)
  have "push_offset (Some os) (length data - length (concat (map coder_info (cf # cfs)) @ r)) =
      Ok (Some (os @ [of_nat (length data - length (concat (map coder_info (cf # cfs)) @ r))]))"
    using Cons.prems by (simp add: push_offset_def u32_try_from_usize_def)
  moreover have "scan_folder N (concat (map coder_info (cf # cfs)) @ r) =
      Ok (concat (map coder_info cfs) @ r, total_out_streams f)"
    using Cons.hyps by (simp add: scan_folder_eq folder_written_def parses_def)
  ultimately show ?case
    using Cons.IH [of "t + total_out_streams f" "os @ [of_nat (length data - length (concat (map coder_info (cf # cfs)) @ r))]"]
      Cons.prems by (simp add: add.assoc)
qed simp

text \<open>Blocks that start where known folder descriptions start are those folders.\<close>

lemma blocks_unique:
  assumes "list_all2 (folder_written N) cfs folders" and "folder_blocks N data ps fs"
    and "drop (hd ps) data = concat (map coder_info cfs) @ r" and "length fs = length cfs"
  shows "fs = folders"
  using assms
proof (induction cfs folders arbitrary: ps fs rule: list_all2_induct)
  case (Cons cf cfs f folders)
  obtain a b ps' f' fs' where ps: "ps = a # b # ps'" and fs: "fs = f' # fs'"
    and blk: "folder_block N data a b f'" "folder_blocks N data (b # ps') fs'"
    using Cons.prems by (cases "(N, data, ps, fs)" rule: folder_blocks.cases) auto
  have le: "a \<le> b" "b \<le> length data" and "Folder_parse N (take (b - a) (drop a data)) = Ok ([], f')"
    using blk(1) by (auto simp: folder_block_def)
  from parser.extend [OF Folder_parser this(3), of "drop b data"] le
  have "Folder_parse N (drop a data) = Ok (drop b data, f')"
    by (metis append_take_drop_id drop_drop le_add_diff_inverse2 append_Nil)
  moreover have "Folder_parse N (drop a data) = Ok (concat (map coder_info cfs) @ r, f)"
    using Cons.prems(2) Cons.hyps by (simp add: ps folder_written_def parses_def)
  ultimately have "drop b data = concat (map coder_info cfs) @ r" "f' = f" by simp_all
  then show ?case
    using Cons.IH [of "b # ps'" fs'] blk(2) Cons.prems(3) by (simp add: ps fs)
qed simp

definition all_unpack_sizes :: "CompletedFolder list \<Rightarrow> u64 list" where
  "all_unpack_sizes cfs = concat (map coder_unpack_sizes cfs)"

lemma length_all_unpack_sizes:
  "list_all2 (folder_written N) cfs folders \<Longrightarrow>
     length (all_unpack_sizes cfs) = sum_list (map total_out_streams folders)"
  by (induction cfs folders rule: list_all2_induct) (auto simp: all_unpack_sizes_def folder_written_def)

lemma unpack_info_loop_written:
  assumes "length (map folder_crc cfs) < usize_limit"
  shows "unpack_info_loop N (of_nat (length cfs)) (length (all_unpack_sizes cfs))
    (0x0c # concat (map sevenzip_varuint64_encode (all_unpack_sizes cfs)) @ write_folder_crcs cfs @ 0x00 # r) [] [] =
    Ok (r, all_unpack_sizes cfs, if has_crc (map folder_crc cfs) then map folder_crc cfs else [])"
proof -
  have n: "unat (of_nat (length cfs) :: u64) = length cfs" using assms by (simp add: unat_of_nat)
  have sizes: "unpack_info_loop N (of_nat (length cfs)) (length (all_unpack_sizes cfs))
      (0x0c # concat (map sevenzip_varuint64_encode (all_unpack_sizes cfs)) @ q) [] [] =
      unpack_info_loop N (of_nat (length cfs)) (length (all_unpack_sizes cfs)) q (all_unpack_sizes cfs) []" for q
    by (simp add: unpack_info_loop.simps [of _ _ _ "0x0c # _"])
  have "unpack_info_loop N (of_nat (length cfs)) (length (all_unpack_sizes cfs)) (0x00 # r) ss ds = Ok (r, ss, ds)" for ss ds
    by (simp add: unpack_info_loop.simps [of _ _ _ "0x00 # _"])
  then show ?thesis
    using n parse_digests_written [of N "map folder_crc cfs" "0x00 # r"]
    unfolding sizes write_folder_crcs_def write_optional_crcs_eq
    by (simp add: unpack_info_loop.simps [of _ _ _ "0x0a # _"])
qed

lemma write_unpack_info_eq:
  "write_unpack_info cfs @ r = 0x07 # 0x0b # sevenzip_varuint64_encode (of_nat (length cfs)) @ 0x00 #
     concat (map coder_info cfs) @
     0x0c # concat (map sevenzip_varuint64_encode (all_unpack_sizes cfs)) @ write_folder_crcs cfs @ 0x00 # r"
  by (simp add: write_unpack_info_def concat_encodings all_unpack_sizes_def)

lemma UnpackInfo_written:
  assumes cfs: "list_all2 (folder_written N) cfs folders"
    and buf: "in_buffer backing e (write_unpack_info cfs @ r)" and small: "length (write_unpack_info cfs @ r) < 2 ^ 32"
    and total: "length (all_unpack_sizes cfs) < usize_limit"
  shows "\<exists>ui. UnpackInfo_parse_with_external N e (write_unpack_info cfs @ r) backing [] = Ok (r, ui) \<and>
    UnpackInfo_wf N ui folders \<and> num_folders ui = of_nat (length cfs) \<and>
    num_folders_usize ui = length cfs \<and>
    ui_unpack_sizes ui = all_unpack_sizes cfs \<and> ui_digests ui = map folder_crc cfs"
proof -
  let ?rest = "0x0c # concat (map sevenzip_varuint64_encode (all_unpack_sizes cfs)) @ write_folder_crcs cfs @ 0x00 # r"
  let ?data = "concat (map coder_info cfs) @ ?rest"
  let ?in = "write_unpack_info cfs @ r"
  let ?total = "sum_list (map total_out_streams folders)"
  have len: "length cfs = length folders" using cfs by (rule list_all2_lengthD)
  have small': "length ?data < 2 ^ 32" and inb: "in_buffer backing e ?data"
    using small buf in_buffer_suffix [of backing e "0x07 # 0x0b # sevenzip_varuint64_encode (of_nat (length cfs)) @ [0x00]" ?data]
    by (simp_all add: write_unpack_info_eq)
  have nonempty: "1 \<le> length (coder_info cf)" if "cf \<in> set cfs" for cf
  proof -
    from cfs that obtain f where "folder_written N cf f" by (auto simp: list_all2_conv_all_nth in_set_conv_nth)
    then have "Folder_parse N (coder_info cf @ []) = Ok ([], f)" by (simp only: folder_written_def parses_def)
    from Folder_parse_progress [OF this] show ?thesis by (cases "coder_info cf") simp_all
  qed
  have "length cfs \<le> length (concat (map coder_info cfs))"
    using nonempty by (induction cfs) (auto simp: Suc_le_eq add.commute intro: add_le_mono [of 1, simplified])
  then have n32: "length cfs < 2 ^ 32" using small' by simp
  then have n: "unat (of_nat (length cfs) :: u64) = length cfs" by (simp add: unat_of_nat)
  obtain os1 where loop: "folder_blocks_loop N ?data (length cfs) ?data 0 (Some []) = Ok (?rest, ?total, Some os1)"
    using folder_blocks_loop_written [OF cfs small', of ?rest 0 "[]"] total length_all_unpack_sizes [OF cfs] by auto
  let ?consumed = "length ?data - length ?rest"
  have scan: "scan_folder_blocks N ?data (of_nat (length cfs)) (Some []) =
      Ok (?consumed, ?total, Some (os1 @ [of_nat ?consumed]))"
  proof -
    have "push_offset (Some os1) ?consumed = Ok (Some (os1 @ [of_nat ?consumed]))"
      using small' by (simp add: push_offset_def u32_try_from_usize_def)
    then show ?thesis by (simp only: scan_folder_blocks_def n loop and_then.simps prod.case Let_def)
  qed
  from scan_folder_blocks_offsets [OF scan] obtain folders' where
    bl: "length folders' = length cfs" "folder_blocks N ?data (map unat (os1 @ [of_nat ?consumed])) folders'"
      "last (map unat (os1 @ [of_nat ?consumed])) = ?consumed" "hd (map unat (os1 @ [of_nat ?consumed])) = 0"
    using n by auto
  have folders': "folders' = folders"
    using blocks_unique [OF cfs bl(2), of ?rest] bl(1,4) by simp
  have lies: "lies_in backing (e - length ?data) (take ?consumed ?data)"
    by (rule in_buffer_lies_in [OF inb])
  from bytes_subslice_lies_in [OF this] obtain data where
    data: "bytes_subslice backing (e - length ?data) (take ?consumed ?data) ?data = Ok data"
      "b_data data = take ?consumed ?data" by blast
  define ui where "ui = \<lparr>num_folders = of_nat (length cfs), folder_data = data,
      folder_offsets = os1 @ [of_nat ?consumed], ui_unpack_sizes = all_unpack_sizes cfs,
      ui_digests = map folder_crc cfs\<rparr>"
  have os_len: "length (os1 @ [of_nat ?consumed :: u32]) - 1 = length cfs"
    using blocks_length [OF bl(2)] bl(1) by simp
  have dig: "(if (if has_crc (map folder_crc cfs) then map folder_crc cfs else []) = []
      then replicate (length (os1 @ [of_nat ?consumed :: u32]) - 1) None
      else if has_crc (map folder_crc cfs) then map folder_crc cfs else []) = map folder_crc cfs"
    using no_crc [of "map folder_crc cfs"] no_crc_empty [of "map folder_crc cfs"] os_len by auto
  have rest: "get_from ?data ?consumed = Some ?rest" by (simp add: get_from_def)
  have decl: "parse_folder_declaration N ?in = Ok (?data, of_nat (length cfs), Inline)"
    by (simp add: write_unpack_info_eq parse_folder_declaration_def)
  have loop2: "unpack_info_loop N (of_nat (length cfs)) ?total ?rest [] [] =
      Ok (r, all_unpack_sizes cfs, if has_crc (map folder_crc cfs) then map folder_crc cfs else [])"
    using unpack_info_loop_written [of cfs N r] n32 length_all_unpack_sizes [OF cfs] by simp
  have "UnpackInfo_parse_with_external N e ?in backing [] = Ok (r, ui)"
    unfolding UnpackInfo_parse_with_external_def decl and_then.simps prod.case FolderSource_resolve_def
      FolderLocation.case source_bytes.simps scan map_err.simps source_backing.simps source_ptr.simps data(1)
      remaining_header.simps rest ok_or.simps loop2 Let_def option.case dig ui_def by simp
  moreover have "UnpackInfo_wf N ui folders"
    using blocks_take [OF bl(2), of ?consumed] bl folders' data(2) n os_len
    by (simp add: UnpackInfo_wf_def ui_def)
  ultimately show ?thesis
    using os_len by (intro exI [of _ ui]) (simp add: ui_def num_folders_usize_def)
qed


section \<open>Substreams\<close>

definition stream_counts :: "CompletedFolder list \<Rightarrow> u64 list" where
  "stream_counts cfs = map (\<lambda>cf. of_nat (length (file_indices cf))) cfs"

text \<open>All sizes but the last of every folder: the last one follows from the folder's output.\<close>

definition explicit_file_sizes :: "CompletedFolder list \<Rightarrow> u64 list" where
  "explicit_file_sizes cfs = concat (map (\<lambda>cf. take (length (file_sizes cf) - 1) (file_sizes cf)) cfs)"

definition all_file_crcs :: "CompletedFolder list \<Rightarrow> u32 option list" where
  "all_file_crcs cfs = concat (map file_crcs cfs)"

definition tables_match :: "CompletedFolder list \<Rightarrow> bool" where
  "tables_match cfs \<longleftrightarrow> list_all (\<lambda>cf. length (file_sizes cf) = length (file_indices cf) \<and>
     length (file_crcs cf) = length (file_indices cf)) cfs"

definition written_substream_info :: "CompletedFolder list \<Rightarrow> SubstreamInfo" where
  "written_substream_info cfs =
     \<lparr>num_unpack_streams_per_folder = stream_counts cfs, si_unpack_sizes = explicit_file_sizes cfs,
      si_digests = (if has_crc (all_file_crcs cfs) then all_file_crcs cfs else [])\<rparr>"

lemma stream_counts_sums:
  assumes "tables_match cfs" and "length (all_file_crcs cfs) < usize_limit"
  shows "stream_sum (stream_counts cfs) = length (all_file_crcs cfs) \<and>
    sizes_sum (stream_counts cfs) = length (explicit_file_sizes cfs)"
  using assms
proof (induction cfs)
  case (Cons cf cfs)
  have "unat (of_nat (length (file_indices cf)) :: u64) = length (file_indices cf)"
    using Cons.prems by (simp add: unat_of_nat all_file_crcs_def tables_match_def)
  then show ?case
    using Cons by (simp add: stream_counts_def all_file_crcs_def explicit_file_sizes_def tables_match_def)
qed (simp_all add: stream_counts_def all_file_crcs_def explicit_file_sizes_def)

lemma counts_default:
  "\<not> list_ex (\<lambda>f. length (file_indices f) \<noteq> 1) cfs \<Longrightarrow> stream_counts cfs = replicate (length cfs) 1"
  by (induction cfs) (auto simp: stream_counts_def)

lemma no_explicit_sizes:
  "tables_match cfs \<Longrightarrow> \<not> list_ex (\<lambda>f. length (file_indices f) > 1) cfs \<Longrightarrow> explicit_file_sizes cfs = []"
  by (induction cfs) (auto simp: explicit_file_sizes_def tables_match_def)

lemma length_concat_encodings: "length xs \<le> length (concat (map sevenzip_varuint64_encode xs))"
proof (induction xs)
  case (Cons x xs)
  then show ?case using varuint_encode_length [of x] by simp
qed simp

lemma write_substreams_info_eq:
  "write_substreams_info cfs @ r =
     0x08 # (if list_ex (\<lambda>f. length (file_indices f) \<noteq> 1) cfs
             then 0x0d # concat (map sevenzip_varuint64_encode (stream_counts cfs)) else []) @
     (if list_ex (\<lambda>f. length (file_indices f) > 1) cfs
      then 0x09 # concat (map sevenzip_varuint64_encode (explicit_file_sizes cfs)) else []) @
     write_optional_crcs (all_file_crcs cfs) @ 0x00 # r"
  by (simp add: write_substreams_info_def stream_counts_def explicit_file_sizes_def all_file_crcs_def
      concat_encodings o_def)

lemma SubstreamInfo_written:
  assumes match: "tables_match cfs" and crcs: "length (all_file_crcs cfs) \<le> MAX_SUBSTREAM_DIGESTS"
  shows "SubstreamInfo_parse N (write_substreams_info cfs @ r) (length cfs) = Ok (r, written_substream_info cfs)"
proof -
  let ?cs = "stream_counts cfs" and ?sizes = "explicit_file_sizes cfs" and ?crcs = "all_file_crcs cfs"
  let ?loop = "substream_info_loop N (length cfs)"
  have sums: "stream_sum ?cs = length ?crcs" "sizes_sum ?cs = length ?sizes"
    using stream_counts_sums [OF match] crcs by simp_all
  have total: "checked_substream_total i ?cs = Ok (length ?crcs)" for i
    using sums crcs by (simp add: checked_substream_total_eq_Ok)
  have size_count: "checked_substream_size_count i ?cs = Ok (length ?sizes)" for i
    using sums crcs sizes_sum_le [of ?cs] by (simp add: checked_substream_size_count_eq_Ok)
  have counts: "?loop ((if list_ex (\<lambda>f. length (file_indices f) \<noteq> 1) cfs
      then 0x0d # concat (map sevenzip_varuint64_encode ?cs) else []) @ q) (replicate (length cfs) 1) [] [] =
      ?loop q ?cs [] []" for q
  proof -
    have "length ?cs = length cfs" by (simp add: stream_counts_def)
    then have "repeat_p sevenzip_varuint64_decode (length cfs) (concat (map sevenzip_varuint64_encode ?cs) @ q) =
        Ok (q, ?cs)"
      using varuint_repeat_decode [of ?cs q] by simp
    then show ?thesis
      using counts_default [of cfs] total by (simp add: substream_info_loop.simps [of _ _ "0x0d # _"])
  qed
  have sizes: "?loop ((if list_ex (\<lambda>f. length (file_indices f) > 1) cfs
      then 0x09 # concat (map sevenzip_varuint64_encode ?sizes) else []) @ q) ?cs [] [] = ?loop q ?cs ?sizes []" for q
  proof -
    have "\<not> length ?sizes > length (concat (map sevenzip_varuint64_encode ?sizes) @ q)"
      using length_concat_encodings [of ?sizes] by simp
    then show ?thesis
      using no_explicit_sizes [OF match] size_count by (simp add: substream_info_loop.simps [of _ _ "0x09 # _"])
  qed
  have finish: "?loop (0x00 # r) cs ss ds = Ok (r, cs, ss, ds)" for cs ss ds
    by (simp add: substream_info_loop.simps [of _ _ "0x00 # _"])
  have digests: "?loop (write_optional_crcs ?crcs @ 0x00 # r) ?cs ?sizes [] =
      Ok (r, ?cs, ?sizes, if has_crc ?crcs then ?crcs else [])"
    using parse_stream_digests_written [of ?crcs N "0x00 # r"] crcs total
    by (simp add: write_optional_crcs_eq finish substream_info_loop.simps [of _ _ "0x0a # _"]
        check_substream_digest_limit_def)
  show ?thesis
    unfolding write_substreams_info_eq SubstreamInfo_parse_def Let_def
    by (simp add: counts [simplified] sizes [simplified] digests written_substream_info_def)
qed


section \<open>The streams descriptor\<close>

definition write_streams :: "CompletedFolder list \<Rightarrow> bytes" where
  "write_streams cfs = write_pack_info cfs @ write_unpack_info cfs @ write_substreams_info cfs @ [0x00]"

text \<open>The tables the reader gets, in terms of the completed folders.\<close>

definition streams_describe :: "nom \<Rightarrow> CompletedFolder list \<Rightarrow> Folder list \<Rightarrow> StreamInfo \<Rightarrow> bool" where
  "streams_describe N cfs folders info \<longleftrightarrow>
     pack_info info = Some (written_pack_info cfs) \<and>
     substream_info info = Some (written_substream_info cfs) \<and>
     (\<exists>ui. unpack_info info = Some ui \<and> num_folders ui = of_nat (length cfs) \<and>
        num_folders_usize ui = length cfs \<and>
        ui_unpack_sizes ui = all_unpack_sizes cfs \<and> ui_digests ui = map folder_crc cfs \<and>
        (\<forall>k < length cfs. \<exists>g. graph (folders ! k) = Ok g \<and>
           parse_folder_with_graph N ui k = Ok (folders ! k, g)))"

definition folders_written :: "nom \<Rightarrow> CompletedFolder list \<Rightarrow> Folder list \<Rightarrow> bool" where
  "folders_written N cfs folders \<longleftrightarrow> list_all2 (folder_written N) cfs folders \<and>
     length (all_file_crcs cfs) \<le> MAX_SUBSTREAM_DIGESTS"

lemma folders_written_match: "folders_written N cfs folders \<Longrightarrow> tables_match cfs"
  unfolding folders_written_def tables_match_def
  by (auto simp: list_all2_conv_all_nth list_all_length folder_written_def)

lemma StreamInfo_written:
  assumes fw: "folders_written N cfs folders"
    and buf: "in_buffer backing e (write_streams cfs @ r)" and small: "length (write_streams cfs @ r) < 2 ^ 32"
  shows "\<exists>info. StreamInfo_parse_with_external N e (write_streams cfs @ r) backing [] = Ok (r, info) \<and>
    streams_describe N cfs folders info"
proof -
  have cfs: "list_all2 (folder_written N) cfs folders"
    and crcs: "length (all_file_crcs cfs) \<le> MAX_SUBSTREAM_DIGESTS" and match: "tables_match cfs"
    using fw folders_written_match [OF fw] by (simp_all add: folders_written_def)
  let ?q2 = "write_substreams_info cfs @ [0x00] @ r"
  let ?q1 = "write_unpack_info cfs @ ?q2"
  have split: "write_streams cfs @ r = write_pack_info cfs @ ?q1" by (simp add: write_streams_def)
  have "length (concat (map pack_sizes cfs)) < usize_limit"
    using small length_concat_encodings [of "concat (map pack_sizes cfs)"]
    unfolding split by (simp add: write_pack_info_def concat_encodings Let_def)
  note pack = PackInfo_written [OF this, of N ?q1]
  have "length (all_unpack_sizes cfs) < usize_limit"
    using small length_concat_encodings [of "all_unpack_sizes cfs"] unfolding split write_unpack_info_eq by simp
  moreover have "in_buffer backing e ?q1" "length ?q1 < 2 ^ 32"
    using buf small in_buffer_suffix unfolding split by auto
  ultimately obtain ui where ui: "UnpackInfo_parse_with_external N e ?q1 backing [] = Ok (?q2, ui)"
      "UnpackInfo_wf N ui folders" "num_folders ui = of_nat (length cfs)" "num_folders_usize ui = length cfs"
      "ui_unpack_sizes ui = all_unpack_sizes cfs" "ui_digests ui = map folder_crc cfs"
    using UnpackInfo_written [OF cfs, of backing e ?q2] by blast
  note sub = SubstreamInfo_written [OF match crcs, of N "[0x00] @ r"]
  let ?info = "\<lparr>pack_info = Some (written_pack_info cfs), unpack_info = Some ui,
      substream_info = Some (written_substream_info cfs)\<rparr>"
  have tags: "Property_parse (write_pack_info cfs @ q) = Ok (tl (write_pack_info cfs @ q), P_PackInfo)"
    "Property_parse (write_unpack_info cfs @ q) = Ok (tl (write_unpack_info cfs @ q), P_UnPackInfo)"
    "Property_parse (write_substreams_info cfs @ q) = Ok (tl (write_substreams_info cfs @ q), P_SubStreamsInfo)" for q
    by (simp_all add: write_pack_info_def write_unpack_info_def write_substreams_info_def Let_def)
  have "StreamInfo_parse_with_external N e (write_streams cfs @ r) backing [] = Ok (r, ?info)"
    unfolding StreamInfo_parse_with_external_def split
    by (simp add: stream_info_loop.simps [of _ _ _ _ "write_pack_info _ @ _"]
        stream_info_loop.simps [of _ _ _ _ "write_unpack_info _ @ _"]
        stream_info_loop.simps [of _ _ _ _ "write_substreams_info _ @ _"]
        stream_info_loop.simps [of _ _ _ _ "0 # _"] tags pack [simplified] ui(1) [simplified] sub [simplified] ui(4))
  moreover have "\<exists>g. graph (folders ! k) = Ok g \<and> parse_folder_with_graph N ui k = Ok (folders ! k, g)"
    if "k < length cfs" for k
  proof -
    have "folder_written N (cfs ! k) (folders ! k)" and len: "length cfs = length folders"
      using cfs that by (auto simp: list_all2_conv_all_nth)
    then obtain g where "graph (folders ! k) = Ok g" by (auto simp: folder_written_def is_ok_iff)
    then show ?thesis using parse_folder_with_graph_wf [OF ui(2), of k] that len by simp
  qed
  ultimately show ?thesis
    using ui by (intro exI [of _ ?info]) (simp add: streams_describe_def)
qed

end
