(* ===== verification/Written_Files.thy ===== *)
theory Written_Files
  imports Written_Streams
begin

text \<open>
  The file table the writer emits, read back: every property block is stored in the column it was
  written from, names come back as their UTF-16 units, and the reader classifies every entry
  as the writer meant it.
\<close>

unbundle bit_operations_syntax

section \<open>UTF-16\<close>

text \<open>The code points a Rust string can hold.\<close>

definition scalar_value :: "code_point \<Rightarrow> bool" where
  "scalar_value c \<longleftrightarrow> c < 0x110000 \<and> \<not> (0xD800 \<le> c \<and> c \<le> 0xDFFF)"

lemma unat_ucast_16: "c < 0x10000 \<Longrightarrow> unat (ucast (c :: u32) :: u16) = unat c"
proof -
  assume "c < 0x10000"
  then have "unat c < 2 ^ 16" by (simp add: word_less_nat_alt)
  then show ?thesis by (simp add: unsigned_ucast_eq take_bit_nat_eq_self)
qed

lemma decode_plain:
  assumes "scalar_value c" and "c < 0x10000"
  shows "decode_utf16_lossy (ucast c # us) = c # decode_utf16_lossy us"
proof -
  have n: "unat (ucast c :: u16) = unat c" using unat_ucast_16 [OF assms(2)] .
  have "\<not> is_high_surrogate (ucast c)" "\<not> is_low_surrogate (ucast c)"
    using assms n by (auto simp: is_high_surrogate_def is_low_surrogate_def scalar_value_def word_le_nat_alt)
  moreover have "ucast (ucast c :: u16) = c"
  proof (rule word_unat_eq_iff [THEN iffD2])
    show "unat (ucast (ucast c :: u16) :: u32) = unat c"
      unfolding unsigned_ucast_eq [of "ucast c :: u16"] n
      using take_bit_nat_eq_self [of "unat c" 32] \<open>c < 0x10000\<close>
      by (simp add: word_less_nat_alt)
  qed
  ultimately show ?thesis by (cases us) simp_all
qed

lemma bit_0x3FF: "bit (0x3FF :: u32) n \<longleftrightarrow> n < 10"
proof -
  have "(0x3FF :: u32) = mask 10" by (simp add: mask_eq_exp_minus_1)
  then show ?thesis by (simp only: bit_mask_iff) auto
qed

lemma bit_0x3FF_u16: "bit (0x3FF :: u16) n \<longleftrightarrow> n < 10"
proof -
  have "(0x3FF :: u16) = mask 10" by (simp add: mask_eq_exp_minus_1)
  then show ?thesis by (simp only: bit_mask_iff) auto
qed

lemma bit_small: "unat (v :: 'n::len word) < 2 ^ k \<Longrightarrow> bit v n \<Longrightarrow> n < k"
proof -
  assume "unat v < 2 ^ k" and b: "bit v n"
  then have "unat v = unat (take_bit k v)" by (simp add: unsigned_take_bit_eq take_bit_nat_eq_self)
  then have "v = take_bit k v" by (simp add: word_unat_eq_iff)
  with b have "bit (take_bit k v) n" by simp
  then show "n < k" by (simp add: bit_take_bit_iff)
qed

lemma bit_surrogate_base: "bit (0xD800 :: u16) n \<Longrightarrow> 10 \<le> n" "bit (0xDC00 :: u16) n \<Longrightarrow> 10 \<le> n"
proof -
  have a: "(0xD800 :: u16) = push_bit 11 27" and b: "(0xDC00 :: u16) = push_bit 10 55"
    by simp_all
  show "bit (0xD800 :: u16) n \<Longrightarrow> 10 \<le> n" unfolding a bit_push_bit_iff by auto
  show "bit (0xDC00 :: u16) n \<Longrightarrow> 10 \<le> n" unfolding b bit_push_bit_iff by auto
qed

text \<open>A surrogate: the base and ten bits of payload.\<close>

lemma surrogate_unit:
  fixes v :: u16
  assumes v: "\<And>n. bit v n \<Longrightarrow> n < 10"
  shows "is_high_surrogate (0xD800 OR v)" "is_low_surrogate (0xDC00 OR v)"
proof -
  have "v = take_bit 10 v" using v by (intro bit_word_eqI) (auto simp: bit_take_bit_iff)
  then have "unat v = take_bit 10 (unat v)" by (metis unsigned_take_bit_eq)
  then have small: "unat v < 0x400" using take_bit_nat_less_exp [of 10 "unat v"] by simp
  have "0xD800 OR v = 0xD800 + v" "0xDC00 OR v = 0xDC00 + v"
    using v bit_surrogate_base by (auto intro!: disjunctive_add [symmetric] dest: leD simp del: bit_numeral_word_iff)
  then have "unat (0xD800 OR v) = 0xD800 + unat v" "unat (0xDC00 OR v) = 0xDC00 + unat v"
    using small by (simp_all add: unat_word_ariths)
  then show "is_high_surrogate (0xD800 OR v)" "is_low_surrogate (0xDC00 OR v)"
    using small by (simp_all add: is_high_surrogate_def is_low_surrogate_def word_le_nat_alt)
qed

lemma high_not_low: "is_high_surrogate u \<Longrightarrow> \<not> is_low_surrogate u"
  by (auto simp: is_high_surrogate_def is_low_surrogate_def word_le_nat_alt)

lemma decode_pair:
  assumes "scalar_value c" and "\<not> c < 0x10000"
  shows "decode_utf16_lossy (encode_code_point c @ us) = c # decode_utf16_lossy us"
proof -
  define x where "x = c - 0x10000"
  have c: "c = x + 0x10000" by (simp add: x_def)
  have "unat x = unat c - 0x10000" using assms(2) by (simp add: x_def unat_sub word_less_nat_alt not_less word_le_nat_alt)
  then have "unat x < 2 ^ 20" using assms by (auto simp: scalar_value_def word_less_nat_alt)
  then have x: "n < 20" if "bit x n" for n
    using that by (rule bit_small)
  have hi: "bit (ucast (drop_bit 10 x) :: u16) n \<longleftrightarrow> n < 10 \<and> bit x (10 + n)" for n
    using x [of "10 + n"] by (auto simp: bit_ucast_iff bit_drop_bit_eq)
  have lo: "bit (ucast x AND 0x3FF :: u16) n \<longleftrightarrow> n < 10 \<and> bit x n" for n
    by (auto simp: bit_and_iff bit_ucast_iff bit_0x3FF_u16 simp del: bit_numeral_word_iff)
  define h :: u16 where "h = 0xD800 OR ucast (drop_bit 10 x)"
  define l :: u16 where "l = 0xDC00 OR (ucast x AND 0x3FF)"
  have h: "bit (ucast h AND 0x3FF :: u32) n \<longleftrightarrow> n < 10 \<and> bit x (10 + n)" for n
    unfolding h_def bit_and_iff bit_ucast_iff bit_or_iff bit_0x3FF hi
    using bit_surrogate_base(1) [of n] by (auto simp: bit_drop_bit_eq simp del: bit_numeral_word_iff)
  have l: "bit (ucast l AND 0x3FF :: u32) n \<longleftrightarrow> n < 10 \<and> bit x n" for n
    unfolding l_def bit_and_iff bit_ucast_iff bit_or_iff bit_0x3FF bit_0x3FF_u16
    using bit_surrogate_base(2) [of n] by (auto simp del: bit_numeral_word_iff)
  have join: "push_bit 10 (ucast h AND 0x3FF) OR (ucast l AND 0x3FF) = x"
  proof (rule bit_word_eqI)
    fix n assume "n < LENGTH(32)"
    show "bit (push_bit 10 (ucast h AND 0x3FF) OR (ucast l AND 0x3FF) :: u32) n = bit x n"
      unfolding bit_or_iff bit_push_bit_iff h l using x [of n] \<open>n < LENGTH(32)\<close> by auto
  qed
  have "is_high_surrogate h" "is_low_surrogate l"
    unfolding h_def l_def using hi lo by (auto intro!: surrogate_unit)
  moreover have "encode_code_point c = [h, l]"
    using assms(2) by (simp add: encode_code_point_def Let_def h_def l_def x_def)
  ultimately show ?thesis
    using join by (simp add: high_not_low c)
qed

lemma utf16_decode_encode: "list_all scalar_value cs \<Longrightarrow> decode_utf16_lossy (encode_utf16 cs) = cs"
proof (induction cs)
  case (Cons c cs)
  then show ?case
    using decode_plain [of c "encode_utf16 cs"] decode_pair [of c "encode_utf16 cs"]
    by (cases "c < 0x10000") (simp_all add: encode_utf16_def encode_code_point_def)
qed (simp add: encode_utf16_def)

lemma encode_no_null: "c \<noteq> 0 \<Longrightarrow> u \<in> set (encode_code_point c) \<Longrightarrow> u \<noteq> 0"
proof -
  assume "c \<noteq> 0" and u: "u \<in> set (encode_code_point c)"
  show "u \<noteq> 0"
  proof (cases "c < 0x10000")
    case True
    then have "unat (ucast c :: u16) \<noteq> 0" using \<open>c \<noteq> 0\<close> by (simp add: unat_ucast_16 unat_eq_zero)
    then show ?thesis using u True by (auto simp: encode_code_point_def)
  next
    case False
    have "bit (0xD800 OR v :: u16) 15" "bit (0xDC00 OR v :: u16) 15" for v
      by (simp_all add: bit_or_iff)
    then have "0xD800 OR v \<noteq> (0 :: u16)" "0xDC00 OR v \<noteq> (0 :: u16)" for v
      by (metis bit_0_eq bot_apply bot_bool_def)+
    then show ?thesis using u False by (auto simp: encode_code_point_def Let_def)
  qed
qed


section \<open>One property block\<close>

text \<open>The contents of a file table, without the addresses of its buffers.\<close>

record FileTable =
  t_names :: bytes
  t_ctimes :: "u64 option list"
  t_atimes :: "u64 option list"
  t_mtimes :: "u64 option list"
  t_starts :: "u64 option list"
  t_attributes :: "u32 option list"
  t_empty :: bytes
  t_empty_files :: bytes
  t_anti :: bytes

definition table_of :: "FilesInfo \<Rightarrow> FileTable" where
  "table_of fi =
     \<lparr>t_names = b_data (name_data fi), t_ctimes = ctimes fi, t_atimes = atimes fi, t_mtimes = mtimes fi,
      t_starts = start_positions fi, t_attributes = attributes fi, t_empty = b_data (empty_streams fi),
      t_empty_files = b_data (empty_files fi), t_anti = b_data (anti_items fi)\<rparr>"

definition seen_within :: "SeenFileProperties \<Rightarrow> Property set \<Rightarrow> bool" where
  "seen_within seen S \<longleftrightarrow> (\<forall>t. bit seen (unat (Property_code t)) \<longrightarrow> t \<in> S)"

lemma property_codes_small: "unat (Property_code t) < 32"
  by (cases t) simp_all

lemma seen_register_new:
  assumes "seen_within seen S" and "tag \<notin> S"
  shows "\<exists>seen'. seen_register seen tag i = Ok seen' \<and> seen_within seen' (insert tag S)"
proof -
  let ?k = "unat (Property_code tag)"
  have "seen AND push_bit ?k 1 = 0"
    using assms bit_iff_and_push_bit_not_eq_0 [of seen ?k] by (auto simp: seen_within_def)
  moreover have "seen_within (seen OR push_bit ?k 1) (insert tag S)"
    unfolding seen_within_def bit_or_iff
  proof (intro allI impI)
    fix t assume "bit seen (unat (Property_code t)) \<or> bit (push_bit ?k 1 :: u32) (unat (Property_code t))"
    then consider "bit seen (unat (Property_code t))" | "unat (Property_code t) = ?k"
      by (auto simp: bit_exp_iff)
    then show "t \<in> insert tag S"
    proof cases
      case 1
      then show ?thesis using assms(1) by (simp add: seen_within_def)
    next
      case 2
      then have "Property_code t = Property_code tag" by (simp only: word_unat_eq_iff)
      then show ?thesis by simp
    qed
  qed
  moreover have "seen_within seen (insert tag S)" using assms(1) by (auto simp: seen_within_def)
  ultimately show ?thesis by (simp add: seen_register_def Let_def)
qed

text \<open>
  \<open>reads\<close>: in front of anything, the property loop consumes \<open>sec\<close>, which takes a table with
  contents \<open>T\<close> to one with contents \<open>T'\<close>; \<open>S\<close> bounds the tags seen so far.
\<close>

definition reads :: "nom \<Rightarrow> nat \<Rightarrow> nat \<Rightarrow> Bytes \<Rightarrow> bytes \<Rightarrow> Property set \<times> FileTable \<Rightarrow> Property set \<times> FileTable \<Rightarrow> bool" where
  "reads N e n backing sec from to \<longleftrightarrow>
     (\<forall>r fi seen. in_buffer backing e (sec @ r) \<longrightarrow> table_of fi = snd from \<longrightarrow> seen_within seen (fst from) \<longrightarrow>
       (\<exists>fi' seen'. table_of fi' = snd to \<and> num_files fi' = num_files fi \<and> seen_within seen' (fst to) \<and>
          files_info_loop N e n backing [] (sec @ r) fi seen = files_info_loop N e n backing [] r fi' seen'))"

lemma reads_trans:
  assumes "reads N e n backing a X Y" and "reads N e n backing b Y Z"
  shows "reads N e n backing (a @ b) X Z"
  unfolding reads_def
proof (intro allI impI)
  fix r fi seen
  assume *: "in_buffer backing e ((a @ b) @ r)" "table_of fi = snd X" "seen_within seen (fst X)"
  then have "in_buffer backing e (a @ (b @ r))" "in_buffer backing e (b @ r)"
    using in_buffer_suffix [of backing e a] by simp_all
  with * assms(1) obtain fi1 seen1 where 1: "table_of fi1 = snd Y" "num_files fi1 = num_files fi"
      "seen_within seen1 (fst Y)"
      "files_info_loop N e n backing [] (a @ (b @ r)) fi seen = files_info_loop N e n backing [] (b @ r) fi1 seen1"
    unfolding reads_def by blast
  moreover from assms(2) 1 \<open>in_buffer backing e (b @ r)\<close> obtain fi2 seen2 where
    "table_of fi2 = snd Z" "num_files fi2 = num_files fi1" "seen_within seen2 (fst Z)"
    "files_info_loop N e n backing [] (b @ r) fi1 seen1 = files_info_loop N e n backing [] r fi2 seen2"
    unfolding reads_def by blast
  ultimately show "\<exists>fi' seen'. table_of fi' = snd Z \<and> num_files fi' = num_files fi \<and> seen_within seen' (fst Z) \<and>
      files_info_loop N e n backing [] ((a @ b) @ r) fi seen = files_info_loop N e n backing [] r fi' seen'"
    by auto
qed

lemma reads_nothing: "S \<subseteq> S' \<Longrightarrow> reads N e n backing [] (S, T) (S', T)"
  by (auto simp: reads_def seen_within_def)

definition property_block :: "Property \<Rightarrow> bytes \<Rightarrow> bytes" where
  "property_block tag payload = Property_code tag # sevenzip_varuint64_encode (of_nat (length payload)) @ payload"

lemma reads_property:
  assumes tag: "tag \<noteq> P_END" "tag \<notin> S"
    and store: "\<And>i ptr fi. lies_in backing ptr payload \<Longrightarrow> table_of fi = T \<Longrightarrow>
      \<exists>fi'. store_property tag i ptr payload n backing [] fi = Ok fi' \<and> table_of fi' = T' \<and> num_files fi' = num_files fi"
  shows "reads N e n backing (property_block tag payload) (S, T) (insert tag S, T')"
  unfolding reads_def fst_conv snd_conv
proof (intro allI impI)
  fix r fi seen
  let ?q = "sevenzip_varuint64_encode (of_nat (length payload)) @ payload @ r"
  assume buf: "in_buffer backing e (property_block tag payload @ r)" and fi: "table_of fi = T"
    and seen: "seen_within seen S"
  then have q: "property_block tag payload @ r = Property_code tag # ?q" by (simp add: property_block_def)
  have pay: "in_buffer backing e (payload @ r)"
    using buf in_buffer_suffix [of backing e "Property_code tag # sevenzip_varuint64_encode (of_nat (length payload))" "payload @ r"]
    by (simp add: q)
  then have "length payload < usize_limit" using in_buffer_length by fastforce
  then have len: "unat (of_nat (length payload) :: u64) = length payload" by (simp add: unat_of_nat)
  have "lies_in backing (e - length (payload @ r)) payload"
    using in_buffer_lies_in [OF pay, of "length payload"] by simp
  from store [OF this fi, of ?q] obtain fi' where
    fi': "store_property tag ?q (e - length (payload @ r)) payload n backing [] fi = Ok fi'"
      "table_of fi' = T'" "num_files fi' = num_files fi"
    by blast
  obtain seen' where seen': "seen_register seen tag ?q = Ok seen'" "seen_within seen' (insert tag S)"
    using seen_register_new [OF seen tag(2)] by blast
  have "files_info_loop N e n backing [] (Property_code tag # ?q) fi seen =
      files_info_loop N e n backing [] r fi' seen'"
    using fi'(1) seen'(1) tag(1) len
    by (subst files_info_loop.simps) (simp add: Let_def)
  then show "\<exists>fi' seen'. table_of fi' = T' \<and> num_files fi' = num_files fi \<and> seen_within seen' (insert tag S) \<and>
      files_info_loop N e n backing [] (property_block tag payload @ r) fi seen =
        files_info_loop N e n backing [] r fi' seen'"
    using fi' seen' q by auto
qed


section \<open>The blocks of the writer\<close>

lemma lies_in_tail: "lies_in backing ptr (a @ b) \<Longrightarrow> lies_in backing (ptr + length a) b"
  unfolding lies_in_def by (metis add.assoc append.assoc length_append)

lemma store_bitmap:
  assumes "lies_in backing ptr payload" and "table_of fi = T"
  shows "\<exists>fi'. store_property P_EmptyStream i ptr payload n backing [] fi = Ok fi' \<and>
      table_of fi' = T\<lparr>t_empty := payload\<rparr> \<and> num_files fi' = num_files fi"
    "\<exists>fi'. store_property P_EmptyFile i ptr payload n backing [] fi = Ok fi' \<and>
      table_of fi' = T\<lparr>t_empty_files := payload\<rparr> \<and> num_files fi' = num_files fi"
    "\<exists>fi'. store_property P_Anti i ptr payload n backing [] fi = Ok fi' \<and>
      table_of fi' = T\<lparr>t_anti := payload\<rparr> \<and> num_files fi' = num_files fi"
  using bytes_subslice_lies_in [OF assms(1), of i] assms(2)
  by (auto simp: store_property_def table_of_def)

lemma store_names:
  assumes "lies_in backing ptr (0 # flat (name_units names))" and "table_of fi = T"
    and "list_all no_null names" and "length names = n"
  shows "\<exists>fi'. store_property P_Name i ptr (0 # flat (name_units names)) n backing [] fi = Ok fi' \<and>
    table_of fi' = T\<lparr>t_names := flat (name_units names)\<rparr> \<and> num_files fi' = num_files fi"
proof -
  have "lies_in backing (ptr + 1) (flat (name_units names))"
    using lies_in_tail [of backing ptr "[0]" "flat (name_units names)"] assms(1) by simp
  from bytes_subslice_lies_in [OF this, of i] obtain b where
    "bytes_subslice backing (ptr + 1) (flat (name_units names)) i = Ok b" "b_data b = flat (name_units names)"
    by blast
  moreover have "validate_name_data (flat (name_units names)) n i = Ok ()"
    using assms(3,4) by (auto simp: validate_name_data_eq_Ok)
  ultimately show ?thesis using assms(2) by (auto simp: store_property_def property_data_def table_of_def)
qed

definition flag_byte :: "'a option list \<Rightarrow> u8" where
  "flag_byte xs = u8_from_bool (list_all (\<lambda>c. c \<noteq> None) xs)"

definition flag_bitmap :: "'a option list \<Rightarrow> bytes" where
  "flag_bitmap xs = (if list_all (\<lambda>c. c \<noteq> None) xs then [] else bools_to_bytes (map (\<lambda>c. c \<noteq> None) xs))"

lemma length_flag_bitmap: "length (flag_bitmap xs) = (if flag_byte xs = 0 then div_ceil (length xs) 8 else 0)"
  by (simp add: flag_bitmap_def flag_byte_def u8_from_bool_def)

lemma flags_defined:
  "i < length xs \<Longrightarrow> (flag_byte xs \<noteq> 0 \<or> bitmap_is_set (flag_bitmap xs) i) \<longleftrightarrow> xs ! i \<noteq> None"
  unfolding flag_byte_def flag_bitmap_def by (rule defined_written)

definition value_bytes :: "nat \<Rightarrow> 'n::len word option list \<Rightarrow> bytes" where
  "value_bytes w vs = concat (map (to_le_bytes w) (present vs))"

lemma length_value_bytes: "length (value_bytes w vs) = length (present vs) * w"
  by (simp add: value_bytes_def length_concat o_def sum_list_triv)

lemma defined_values_loop_written:
  fixes vs :: "'n::len word option list"
  assumes "LENGTH('n) \<le> 8 * w" and "\<And>i. i < length vs \<Longrightarrow> (a \<noteq> 0 \<or> bitmap_is_set bm (idx + i)) \<longleftrightarrow> vs ! i \<noteq> None"
  shows "defined_values_loop w ei a bm (pre @ value_bytes w vs) idx (length vs) (length pre) =
    Ok (length pre + length (value_bytes w vs), vs)"
  using assms(2)
proof (induction vs arbitrary: idx pre)
  case (Cons v vs)
  have later: "(a \<noteq> 0 \<or> bitmap_is_set bm (Suc idx + i)) \<longleftrightarrow> vs ! i \<noteq> None" if "i < length vs" for i
    using Cons.prems [of "Suc i"] that by simp
  have now: "(a \<noteq> 0 \<or> bitmap_is_set bm idx) \<longleftrightarrow> v \<noteq> None" using Cons.prems [of 0] by simp
  show ?case
  proof (cases v)
    case None
    then show ?thesis using Cons.IH [OF later] now by (simp add: value_bytes_def)
  next
    case (Some x)
    have "value_bytes w (v # vs) = to_le_bytes w x @ value_bytes w vs" by (simp add: value_bytes_def Some)
    then show ?thesis
      using Cons.IH [OF later, of "pre @ to_le_bytes w x"] now from_le_to_le [OF assms(1), of x]
      by (simp add: Some add.assoc)
  qed
qed (simp add: value_bytes_def)

definition defined_payload :: "nat \<Rightarrow> 'n::len word option list \<Rightarrow> bytes" where
  "defined_payload w vs = flag_byte vs # flag_bitmap vs @ 0 # value_bytes w vs"

lemma defined_property_eq:
  "defined_property w (Property_code tag) vs =
     (if list_ex (\<lambda>v. v \<noteq> None) vs then property_block tag (defined_payload w vs) else [])"
proof -
  have "length (defined_payload w vs) =
      1 + length (flag_bitmap vs) + 1 + length (filter (\<lambda>v. v \<noteq> None) vs) * w"
    by (simp add: defined_payload_def length_value_bytes length_present)
  then show ?thesis
    by (simp add: defined_property_def property_block_def Let_def flag_bitmap_def flag_byte_def
        defined_payload_def value_bytes_def)
qed

lemma DefinedProperty_written:
  assumes "lies_in backing ptr (defined_payload w vs)" and "length vs = n"
  shows "\<exists>b. DefinedProperty_parse i ptr (defined_payload w vs) n backing [] =
      Ok \<lparr>dp_all_defined = flag_byte vs, dp_bitmap = flag_bitmap vs, dp_values = b\<rparr> \<and> b_data b = value_bytes w vs"
proof -
  have "lies_in backing (ptr + 1 + length (flag_bitmap vs) + 1) (value_bytes w vs)"
    using lies_in_tail [of backing ptr "flag_byte vs # flag_bitmap vs @ [0]" "value_bytes w vs"] assms(1)
    by (simp add: defined_payload_def)
  from bytes_subslice_lies_in [OF this, of i] show ?thesis
    using length_flag_bitmap [of vs] assms(2)
    by (auto simp: DefinedProperty_parse_def defined_payload_def property_data_def Let_def)
qed

lemma parse_defined_written:
  "parse_defined_u64_values i (flag_byte vs) (flag_bitmap vs) (value_bytes 8 vs) (length vs) = Ok vs"
  "parse_defined_u32_values i (flag_byte ws) (flag_bitmap ws) (value_bytes 4 ws) (length ws) = Ok ws"
  using defined_values_loop_written [of 8 vs "flag_byte vs" "flag_bitmap vs" 0 i "[]"]
    defined_values_loop_written [of 4 ws "flag_byte ws" "flag_bitmap ws" 0 i "[]"]
    flags_defined [of _ vs] flags_defined [of _ ws]
  by (auto simp: parse_defined_u64_values_def parse_defined_u32_values_def)

lemma store_defined_u64:
  assumes "lies_in backing ptr (defined_payload 8 vs)" and "table_of fi = T" and "length vs = n"
  shows "\<exists>fi'. store_property P_CTime i ptr (defined_payload 8 vs) n backing [] fi = Ok fi' \<and>
      table_of fi' = T\<lparr>t_ctimes := vs\<rparr> \<and> num_files fi' = num_files fi"
    "\<exists>fi'. store_property P_ATime i ptr (defined_payload 8 vs) n backing [] fi = Ok fi' \<and>
      table_of fi' = T\<lparr>t_atimes := vs\<rparr> \<and> num_files fi' = num_files fi"
    "\<exists>fi'. store_property P_MTime i ptr (defined_payload 8 vs) n backing [] fi = Ok fi' \<and>
      table_of fi' = T\<lparr>t_mtimes := vs\<rparr> \<and> num_files fi' = num_files fi"
    "\<exists>fi'. store_property P_StartPos i ptr (defined_payload 8 vs) n backing [] fi = Ok fi' \<and>
      table_of fi' = T\<lparr>t_starts := vs\<rparr> \<and> num_files fi' = num_files fi"
  using DefinedProperty_written [OF assms(1,3), of i] assms(2,3) parse_defined_written(1) [of i vs]
  by (auto simp: store_property_def table_of_def)

lemma store_defined_u32:
  assumes "lies_in backing ptr (defined_payload 4 vs)" and "table_of fi = T" and "length vs = n"
  shows "\<exists>fi'. store_property P_Attributes i ptr (defined_payload 4 vs) n backing [] fi = Ok fi' \<and>
      table_of fi' = T\<lparr>t_attributes := vs\<rparr> \<and> num_files fi' = num_files fi"
  using DefinedProperty_written [OF assms(1,3), of i] assms(2,3) parse_defined_written(2) [of i vs]
  by (auto simp: store_property_def table_of_def)


section \<open>Names\<close>

text \<open>
  Names the writer can store: a raw name that \<open>RawEntryName::from_utf16le\<close> accepted, or a Rust
  string without null characters.
\<close>

definition name_valid :: "WriteEntry \<Rightarrow> bool" where
  "name_valid entry \<longleftrightarrow>
     (case we_raw_name entry of
        Some raw \<Rightarrow> RawEntryName_from_utf16le raw = Ok raw
      | None \<Rightarrow> list_all scalar_value (we_name entry) \<and> 0 \<notin> set (we_name entry))"

definition shown_name :: "WriteEntry \<Rightarrow> code_point list" where
  "shown_name entry =
     (case we_raw_name entry of Some raw \<Rightarrow> RawEntryName_display raw | None \<Rightarrow> we_name entry)"

definition entry_units :: "WriteEntry \<Rightarrow> (u8 \<times> u8) list" where
  "entry_units entry = fst (as_chunks2 (entry_name_bytes entry))"

definition unit_bytes :: "u16 \<Rightarrow> u8 \<times> u8" where
  "unit_bytes u = (ucast u, ucast (drop_bit 8 u))"

lemma to_le_bytes_2: "to_le_bytes 2 u = [ucast u, ucast (drop_bit 8 (u :: u16))]"
  by (simp add: to_le_bytes_def upt_conv_Cons numeral_2_eq_2)

lemma flat_units: "concat (map (to_le_bytes 2) us) = flat (map unit_bytes us)"
  by (induction us) (simp_all add: to_le_bytes_2 unit_bytes_def)

lemma from_unit_bytes: "from_le_bytes [fst (unit_bytes u), snd (unit_bytes u)] = u"
  using from_le_to_le_u16 [of u] unfolding to_le_bytes_2 unit_bytes_def by simp

lemma unit_bytes_null: "unit_bytes u = (0, 0) \<Longrightarrow> u = 0"
  using from_unit_bytes [of u] by simp

lemma as_chunks2_even:
  assumes "length xs mod 2 = 0"
  shows "xs = flat (fst (as_chunks2 xs))"
proof -
  obtain us r where c: "as_chunks2 xs = (us, r)" by (cases "as_chunks2 xs")
  have "length r < 2"
    using c by (induction xs arbitrary: us rule: as_chunks2.induct) (auto split: prod.splits)
  moreover have "xs = flat us @ r" using as_chunks2_eq [OF c] .
  ultimately have "r = []" using assms by (cases r) (auto simp: mod_Suc)
  then show ?thesis using \<open>xs = flat us @ r\<close> c by simp
qed

lemma valid_name_facts:
  assumes "name_valid entry"
  shows "entry_name_bytes entry = flat (entry_units entry) \<and> no_null (entry_units entry) \<and>
    decode_name (entry_name_bytes entry) = shown_name entry"
proof (cases "we_raw_name entry")
  case (Some raw)
  then have "length (b_data raw) mod 2 = 0" "(0, 0) \<notin> set (fst (as_chunks2 (b_data raw)))"
    using assms by (auto simp: name_valid_def RawEntryName_from_utf16le_def split: if_splits)
  then show ?thesis
    using as_chunks2_even [of "b_data raw"] Some
    by (simp add: entry_units_def entry_name_bytes_def as_utf16le_def no_null_def shown_name_def
        RawEntryName_display_def)
next
  case None
  let ?us = "encode_utf16 (we_name entry)"
  have bytes: "entry_name_bytes entry = flat (map unit_bytes ?us)"
    by (simp add: entry_name_bytes_def None flat_units)
  have ok: "list_all scalar_value (we_name entry)" "0 \<notin> set (we_name entry)"
    using assms None by (simp_all add: name_valid_def)
  have "u \<noteq> 0" if u: "u \<in> set ?us" for u
  proof -
    from u obtain c where "c \<in> set (we_name entry)" "u \<in> set (encode_code_point c)"
      by (auto simp: encode_utf16_def)
    then show ?thesis using ok(2) encode_no_null [of c u] by metis
  qed
  then have "0 \<notin> set ?us" by blast
  then have "(0, 0) \<notin> set (map unit_bytes ?us)" using unit_bytes_null by fastforce
  moreover have "map (\<lambda>(a, b). from_le_bytes [a, b]) (map unit_bytes ?us) = ?us"
    using from_unit_bytes by (simp add: case_prod_beta map_idI)
  ultimately show ?thesis
    using utf16_decode_encode [OF ok(1)]
    by (simp add: entry_units_def bytes no_null_def decode_name_def shown_name_def None)
qed


section \<open>The whole table\<close>

definition column_of :: "'a option list \<Rightarrow> 'a option list" where
  "column_of vs = (if list_ex (\<lambda>v. v \<noteq> None) vs then vs else [])"

definition flags_of :: "bool list \<Rightarrow> bytes" where
  "flags_of bs = (if list_ex (\<lambda>b. b) bs then bools_to_bytes bs else [])"

definition empty_entries :: "WriteEntry list \<Rightarrow> WriteEntry list" where
  "empty_entries entries = filter (\<lambda>entry. \<not> stream_present (we_stream entry)) entries"

definition filetimes :: "WriteEntry list \<Rightarrow> (EntryMeta \<Rightarrow> SystemTime option) \<Rightarrow> u64 option list" where
  "filetimes entries time = map (\<lambda>entry. map_option system_time_to_filetime (time (we_meta entry))) entries"

definition written_table :: "WriteEntry list \<Rightarrow> FileTable" where
  "written_table entries =
     \<lparr>t_names = flat (name_units (map entry_units entries)),
      t_ctimes = column_of (filetimes entries ctime), t_atimes = column_of (filetimes entries atime),
      t_mtimes = column_of (filetimes entries mtime),
      t_starts = column_of (map (\<lambda>e. start_pos (we_meta e)) entries),
      t_attributes = column_of (map (\<lambda>e. meta_attributes (we_meta e)) entries),
      t_empty = flags_of (map (\<lambda>e. \<not> stream_present (we_stream e)) entries),
      t_empty_files = flags_of (map (\<lambda>e. we_kind e = WK_File) (empty_entries entries)),
      t_anti = flags_of (map (\<lambda>e. we_kind e = WK_Anti) (empty_entries entries))\<rparr>"

lemma bitmap_property_eq: "bitmap_property (Property_code tag) bs = property_block tag (bools_to_bytes bs)"
  by (simp add: bitmap_property_def property_block_def Let_def)

lemma no_empty_entries:
  "\<not> list_ex (\<lambda>v. v) (map (\<lambda>e. \<not> stream_present (we_stream e)) entries) \<Longrightarrow> empty_entries entries = []"
  by (auto simp: empty_entries_def list_ex_iff filter_empty_conv)

lemma write_empty_properties_eq:
  "write_empty_properties entries =
     (if list_ex (\<lambda>v. v) (map (\<lambda>e. \<not> stream_present (we_stream e)) entries)
      then property_block P_EmptyStream (bools_to_bytes (map (\<lambda>e. \<not> stream_present (we_stream e)) entries)) else []) @
     (if list_ex (\<lambda>v. v) (map (\<lambda>e. we_kind e = WK_File) (empty_entries entries))
      then property_block P_EmptyFile (bools_to_bytes (map (\<lambda>e. we_kind e = WK_File) (empty_entries entries))) else []) @
     (if list_ex (\<lambda>v. v) (map (\<lambda>e. we_kind e = WK_Anti) (empty_entries entries))
      then property_block P_Anti (bools_to_bytes (map (\<lambda>e. we_kind e = WK_Anti) (empty_entries entries))) else [])"
  using no_empty_entries [of entries]
    bitmap_property_eq [of P_EmptyStream] bitmap_property_eq [of P_EmptyFile] bitmap_property_eq [of P_Anti]
  by (simp add: write_empty_properties_def Let_def empty_entries_def)

lemma write_names_eq:
  assumes "list_all name_valid entries"
  shows "write_names entries = property_block P_Name (0 # flat (name_units (map entry_units entries)))"
proof -
  have "map (\<lambda>entry. entry_name_bytes entry @ [0, 0]) entries = map (\<lambda>entry. flat (entry_units entry @ [(0, 0)])) entries"
    using assms valid_name_facts by (auto simp: list_all_iff)
  moreover have "concat (map (\<lambda>entry. flat (entry_units entry @ [(0, 0)])) entries) = flat (name_units (map entry_units entries))"
    by (induction entries) simp_all
  ultimately have "concat (map (\<lambda>entry. entry_name_bytes entry @ [0, 0]) entries) = flat (name_units (map entry_units entries))"
    by (simp only:)
  then show ?thesis
    by (simp add: write_names_def property_block_def Let_def)
qed

lemma reads_optional:
  assumes "tag \<noteq> P_END" "tag \<notin> S"
    and "\<And>i ptr fi. lies_in backing ptr payload \<Longrightarrow> table_of fi = T \<Longrightarrow>
      \<exists>fi'. store_property tag i ptr payload n backing [] fi = Ok fi' \<and> table_of fi' = T1 \<and> num_files fi' = num_files fi"
    and "T' = (if c then T1 else T)"
  shows "reads N e n backing (if c then property_block tag payload else []) (S, T) (insert tag S, T')"
  using reads_property [OF assms(1-3), where N = N and e = e] reads_nothing [of S "insert tag S" N e n backing T] assms(4)
  by auto

lemma table_updates:
  "t_empty T = [] \<Longrightarrow> T\<lparr>t_empty := if c then x0 else []\<rparr> = (if c then T\<lparr>t_empty := x0\<rparr> else T)"
  "t_empty_files T = [] \<Longrightarrow> T\<lparr>t_empty_files := if c then x1 else []\<rparr> = (if c then T\<lparr>t_empty_files := x1\<rparr> else T)"
  "t_anti T = [] \<Longrightarrow> T\<lparr>t_anti := if c then x2 else []\<rparr> = (if c then T\<lparr>t_anti := x2\<rparr> else T)"
  "t_ctimes T = [] \<Longrightarrow> T\<lparr>t_ctimes := if c then x3 else []\<rparr> = (if c then T\<lparr>t_ctimes := x3\<rparr> else T)"
  "t_atimes T = [] \<Longrightarrow> T\<lparr>t_atimes := if c then x4 else []\<rparr> = (if c then T\<lparr>t_atimes := x4\<rparr> else T)"
  "t_mtimes T = [] \<Longrightarrow> T\<lparr>t_mtimes := if c then x5 else []\<rparr> = (if c then T\<lparr>t_mtimes := x5\<rparr> else T)"
  "t_starts T = [] \<Longrightarrow> T\<lparr>t_starts := if c then x6 else []\<rparr> = (if c then T\<lparr>t_starts := x6\<rparr> else T)"
  "t_attributes T = [] \<Longrightarrow> T\<lparr>t_attributes := if c then x7 else []\<rparr> = (if c then T\<lparr>t_attributes := x7\<rparr> else T)"
  by (cases T; simp)+

lemma reads_weaken: "reads N e n backing sec X (S, T) \<Longrightarrow> T = T' \<Longrightarrow> reads N e n backing sec X (UNIV, T')"
  using reads_trans [of N e n backing sec X "(S, T)" "[]" "(UNIV, T')"] reads_nothing [of S UNIV] by simp

lemma reads_entries:
  fixes entries
  defines "n \<equiv> length entries"
  assumes valid: "list_all name_valid entries"
  shows "reads N e n backing
     (write_empty_properties entries @ write_names entries @
      write_time_property 0x12 entries (\<lambda>e. ctime (we_meta e)) @
      write_time_property 0x13 entries (\<lambda>e. atime (we_meta e)) @
      write_time_property 0x14 entries (\<lambda>e. mtime (we_meta e)) @
      write_u64_property 0x18 entries (\<lambda>e. start_pos (we_meta e)) @
      write_u32_property 0x15 entries (\<lambda>e. meta_attributes (we_meta e)))
     ({}, \<lparr>t_names = [], t_ctimes = [], t_atimes = [], t_mtimes = [], t_starts = [], t_attributes = [],
           t_empty = [], t_empty_files = [], t_anti = []\<rparr>)
     (UNIV, written_table entries)"
proof -
  have times: "write_time_property (Property_code tag) entries f =
      (if list_ex (\<lambda>v. v \<noteq> None) (map (\<lambda>entry. map_option system_time_to_filetime (f entry)) entries)
       then property_block tag (defined_payload 8 (map (\<lambda>entry. map_option system_time_to_filetime (f entry)) entries))
       else [])" for tag f
    by (simp only: write_time_property_def write_u64_property_def defined_property_eq)
  have starts: "write_u64_property (Property_code tag) entries f =
      (if list_ex (\<lambda>v. v \<noteq> None) (map f entries) then property_block tag (defined_payload 8 (map f entries)) else [])" for tag f
    by (simp only: write_u64_property_def defined_property_eq)
  have attrs: "write_u32_property (Property_code tag) entries f =
      (if list_ex (\<lambda>v. v \<noteq> None) (map f entries) then property_block tag (defined_payload 4 (map f entries)) else [])" for tag f
    by (simp only: write_u32_property_def defined_property_eq)
  have names: "list_all no_null (map entry_units entries)" "length (map entry_units entries) = n"
    using valid valid_name_facts by (auto simp: n_def list_all_iff)
  note secs = write_empty_properties_eq [of entries] write_names_eq [OF valid]
    times [of P_CTime, unfolded Property_code.simps] times [of P_ATime, unfolded Property_code.simps] times [of P_MTime, unfolded Property_code.simps]
    starts [of P_StartPos, unfolded Property_code.simps] attrs [of P_Attributes, unfolded Property_code.simps]
  note optional = reads_optional [where N = N and e = e and n = n and backing = backing]
  have s1: "reads N e n backing
      (if list_ex (\<lambda>v. v) bs then property_block P_EmptyStream (bools_to_bytes bs) else [])
      ({}, T) ({P_EmptyStream}, T\<lparr>t_empty := flags_of bs\<rparr>)" if "t_empty T = []" for bs T
    using that unfolding flags_of_def
    by (intro optional [OF _ _ store_bitmap(1)]) (assumption | rule table_updates | simp)+
  have s2: "reads N e n backing
      (if list_ex (\<lambda>v. v) bs then property_block P_EmptyFile (bools_to_bytes bs) else [])
      ({P_EmptyStream}, T) ({P_EmptyFile, P_EmptyStream}, T\<lparr>t_empty_files := flags_of bs\<rparr>)" if "t_empty_files T = []" for bs T
    using that unfolding flags_of_def
    by (intro optional [OF _ _ store_bitmap(2)]) (assumption | rule table_updates | simp)+
  have s3: "reads N e n backing
      (if list_ex (\<lambda>v. v) bs then property_block P_Anti (bools_to_bytes bs) else [])
      ({P_EmptyFile, P_EmptyStream}, T) ({P_Anti, P_EmptyFile, P_EmptyStream}, T\<lparr>t_anti := flags_of bs\<rparr>)" if "t_anti T = []" for bs T
    using that unfolding flags_of_def
    by (intro optional [OF _ _ store_bitmap(3)]) (assumption | rule table_updates | simp)+
  have s4: "reads N e n backing (property_block P_Name (0 # flat (name_units (map entry_units entries))))
      ({P_Anti, P_EmptyFile, P_EmptyStream}, T) ({P_Name, P_Anti, P_EmptyFile, P_EmptyStream},
       T\<lparr>t_names := flat (name_units (map entry_units entries))\<rparr>)" for T
    by (rule reads_property [OF _ _ store_names [OF _ _ names]]) simp_all
  have s5: "reads N e n backing
      (if list_ex (\<lambda>v. v \<noteq> None) vs then property_block P_CTime (defined_payload 8 vs) else [])
      ({P_Name, P_Anti, P_EmptyFile, P_EmptyStream}, T)
      ({P_CTime, P_Name, P_Anti, P_EmptyFile, P_EmptyStream}, T\<lparr>t_ctimes := column_of vs\<rparr>)"
    if "t_ctimes T = []" "length vs = n" for vs T
    using that unfolding column_of_def
    by (intro optional [OF _ _ store_defined_u64(1)]) (assumption | rule table_updates | simp)+
  have s6: "reads N e n backing
      (if list_ex (\<lambda>v. v \<noteq> None) vs then property_block P_ATime (defined_payload 8 vs) else [])
      ({P_CTime, P_Name, P_Anti, P_EmptyFile, P_EmptyStream}, T)
      ({P_ATime, P_CTime, P_Name, P_Anti, P_EmptyFile, P_EmptyStream}, T\<lparr>t_atimes := column_of vs\<rparr>)"
    if "t_atimes T = []" "length vs = n" for vs T
    using that unfolding column_of_def
    by (intro optional [OF _ _ store_defined_u64(2)]) (assumption | rule table_updates | simp)+
  have s7: "reads N e n backing
      (if list_ex (\<lambda>v. v \<noteq> None) vs then property_block P_MTime (defined_payload 8 vs) else [])
      ({P_ATime, P_CTime, P_Name, P_Anti, P_EmptyFile, P_EmptyStream}, T)
      ({P_MTime, P_ATime, P_CTime, P_Name, P_Anti, P_EmptyFile, P_EmptyStream}, T\<lparr>t_mtimes := column_of vs\<rparr>)"
    if "t_mtimes T = []" "length vs = n" for vs T
    using that unfolding column_of_def
    by (intro optional [OF _ _ store_defined_u64(3)]) (assumption | rule table_updates | simp)+
  have s8: "reads N e n backing
      (if list_ex (\<lambda>v. v \<noteq> None) vs then property_block P_StartPos (defined_payload 8 vs) else [])
      ({P_MTime, P_ATime, P_CTime, P_Name, P_Anti, P_EmptyFile, P_EmptyStream}, T)
      ({P_StartPos, P_MTime, P_ATime, P_CTime, P_Name, P_Anti, P_EmptyFile, P_EmptyStream}, T\<lparr>t_starts := column_of vs\<rparr>)"
    if "t_starts T = []" "length vs = n" for vs T
    using that unfolding column_of_def
    by (intro optional [OF _ _ store_defined_u64(4)]) (assumption | rule table_updates | simp)+
  have s9: "reads N e n backing
      (if list_ex (\<lambda>v. v \<noteq> None) vs then property_block P_Attributes (defined_payload 4 vs) else [])
      ({P_StartPos, P_MTime, P_ATime, P_CTime, P_Name, P_Anti, P_EmptyFile, P_EmptyStream}, T)
      (insert P_Attributes {P_StartPos, P_MTime, P_ATime, P_CTime, P_Name, P_Anti, P_EmptyFile, P_EmptyStream}, T\<lparr>t_attributes := column_of vs\<rparr>)"
    if "t_attributes T = []" "length vs = n" for vs T
    using that unfolding column_of_def
    by (intro optional [OF _ _ store_defined_u32]) (assumption | rule table_updates | simp)+
  note chain = reads_trans [OF s1] reads_trans [OF s2] reads_trans [OF s3] reads_trans [OF s4]
    reads_trans [OF s5] reads_trans [OF s6] reads_trans [OF s7] reads_trans [OF s8]
  show ?thesis
    unfolding secs append_assoc
    apply (rule chain(1), simp)
    apply (rule chain(2), simp)
    apply (rule chain(3), simp)
    apply (rule chain(4))
    apply (rule chain(5), simp, simp add: n_def)
    apply (rule chain(6), simp, simp add: n_def)
    apply (rule chain(7), simp, simp add: n_def)
    apply (rule chain(8), simp, simp add: n_def)
    apply (rule reads_weaken, rule s9)
    apply (simp_all add: n_def written_table_def filetimes_def)
    done
qed

lemma entries_bytes: "2 * length entries \<le> length (write_files_info entries)"
proof -
  have "2 * length entries \<le> length (concat (map (\<lambda>entry. entry_name_bytes entry @ [0, 0]) entries))"
    by (induction entries) auto
  then show ?thesis unfolding write_files_info_def write_names_def Let_def by simp
qed

lemma FilesInfo_written:
  assumes valid: "list_all name_valid entries" and buf: "in_buffer backing e (write_files_info entries @ r)"
  shows "\<exists>fi. FilesInfo_parse N e (write_files_info entries @ r) backing = Ok (r, fi) \<and>
    unat (num_files fi) = length entries \<and> num_files fi = of_nat (length entries) \<and>
    table_of fi = written_table entries \<and>
    empty_stream_ordinals fi = empty_stream_ordinals_of (t_empty (written_table entries)) (length entries)"
proof -
  let ?body = "write_empty_properties entries @ write_names entries @
      write_time_property 0x12 entries (\<lambda>e. ctime (we_meta e)) @
      write_time_property 0x13 entries (\<lambda>e. atime (we_meta e)) @
      write_time_property 0x14 entries (\<lambda>e. mtime (we_meta e)) @
      write_u64_property 0x18 entries (\<lambda>e. start_pos (we_meta e)) @
      write_u32_property 0x15 entries (\<lambda>e. meta_attributes (we_meta e))"
  let ?n = "length entries"
  let ?count = "sevenzip_varuint64_encode (of_nat ?n)"
  let ?start = "\<lparr>num_files = of_nat ?n, name_data = Bytes_new, ctimes = [], atimes = [], mtimes = [],
               start_positions = [], attributes = [], empty_streams = Bytes_new,
               empty_files = Bytes_new, anti_items = Bytes_new, empty_stream_ordinals = []\<rparr>"
  have w: "write_files_info entries @ r = 0x05 # ?count @ ?body @ 0x00 # r"
    by (simp add: write_files_info_def)
  have "in_buffer backing e (?body @ 0x00 # r)"
    using buf in_buffer_suffix [of backing e "0x05 # ?count"] unfolding w by simp
  moreover have "table_of ?start = \<lparr>t_names = [], t_ctimes = [], t_atimes = [], t_mtimes = [], t_starts = [],
      t_attributes = [], t_empty = [], t_empty_files = [], t_anti = []\<rparr>"
    by (simp add: table_of_def Bytes_new_def)
  moreover have "seen_within 0 {}" by (simp add: seen_within_def)
  ultimately obtain fi seen where fi: "table_of fi = written_table entries" "num_files fi = of_nat ?n"
    "files_info_loop N e ?n backing [] (?body @ 0x00 # r) ?start 0 = files_info_loop N e ?n backing [] (0x00 # r) fi seen"
    using reads_entries [OF valid, of N e backing] unfolding reads_def fst_conv snd_conv by fastforce
  have loop: "files_info_loop N e ?n backing [] (?body @ 0x00 # r) ?start 0 = Ok (r, fi)"
    unfolding fi(3) by (simp add: files_info_loop.simps [of _ _ _ _ _ "0 # _"])
  have "length entries < usize_limit" using in_buffer_length [OF buf] entries_bytes [of entries] by simp
  then have n: "unat (of_nat ?n :: u64) = ?n" by (simp add: unat_of_nat)
  let ?fi = "fi\<lparr>empty_stream_ordinals := empty_stream_ordinals_of (b_data (empty_streams fi)) ?n\<rparr>"
  have "FilesInfo_parse N e (write_files_info entries @ r) backing = Ok (r, ?fi)"
    using loop n unfolding w FilesInfo_parse_def FilesInfo_parse_with_external_def by (simp add: Let_def)
  moreover have "b_data (empty_streams fi) = t_empty (written_table entries)"
    using arg_cong [OF fi(1), of t_empty] by (simp add: table_of_def)
  moreover have "table_of ?fi = table_of fi" by (simp add: table_of_def)
  ultimately show ?thesis using fi n by (intro exI [of _ ?fi]) simp
qed


section \<open>Entries as the writer meant them\<close>

text \<open>The classification of an entry, from what the writer was given.\<close>

definition symlink_attributes :: "WriteEntry \<Rightarrow> bool" where
  "symlink_attributes entry =
     (case meta_attributes (we_meta entry) of
        None \<Rightarrow> False | Some attrs \<Rightarrow> drop_bit 16 attrs AND 0xF000 = 0xA000)"

definition meant_type :: "WriteEntry \<Rightarrow> EntryType" where
  "meant_type entry =
     (if stream_present (we_stream entry) then (if symlink_attributes entry then ET_Symlink else ET_File)
      else if we_kind entry = WK_Anti then ET_Anti
      else if symlink_attributes entry then ET_EmptySymlink
      else if we_kind entry = WK_File then ET_EmptyFile
      else ET_Directory)"

lemma bitmap_flags_of [simp]: "bitmap_is_set (flags_of bs) i \<longleftrightarrow> i < length bs \<and> bs ! i"
  by (auto simp: flags_of_def list_ex_iff bitmap_is_set_iff [of "[]"] dest: nth_mem)

lemma get_column_of: "Option.bind (get (column_of vs) k) (\<lambda>x. x) = (if k < length vs then vs ! k else None)"
proof (cases "list_ex (\<lambda>v. v \<noteq> None) vs")
  case True
  then show ?thesis by (simp add: column_of_def get_def)
next
  case False
  then have "k < length vs \<Longrightarrow> vs ! k = None" by (auto simp: list_ex_iff)
  then show ?thesis using False by (simp add: column_of_def get_def)
qed

lemma filter_nth_count:
  "k < length xs \<Longrightarrow> P (xs ! k) \<Longrightarrow>
     length (filter P (take k xs)) < length (filter P xs) \<and> filter P xs ! length (filter P (take k xs)) = xs ! k"
proof (induction xs arbitrary: k)
  case (Cons x xs)
  then show ?case by (cases k) auto
qed simp

lemma filter_upt_take: "k \<le> length xs \<Longrightarrow> length (filter (\<lambda>i. P (xs ! i)) [0..<k]) = length (filter P (take k xs))"
proof -
  assume k: "k \<le> length xs"
  have "take k xs = map ((!) xs) [0..<k]" using k by (intro nth_equalityI) auto
  then show ?thesis by (simp add: filter_map o_def)
qed

lemma written_classification:
  assumes table: "table_of fi = written_table entries"
    and ords: "empty_stream_ordinals fi = empty_stream_ordinals_of (t_empty (written_table entries)) (length entries)"
    and k: "k < length entries"
  shows "entry_type fi k = meant_type (entries ! k)"
proof -
  let ?P = "\<lambda>e. \<not> stream_present (we_stream e)" and ?e = "entries ! k"
  let ?ord = "length (filter ?P (take k entries))"
  have bm: "b_data (empty_streams fi) = flags_of (map ?P entries)"
    "b_data (empty_files fi) = flags_of (map (\<lambda>e. we_kind e = WK_File) (empty_entries entries))"
    "b_data (anti_items fi) = flags_of (map (\<lambda>e. we_kind e = WK_Anti) (empty_entries entries))"
    "attributes fi = column_of (map (\<lambda>e. meta_attributes (we_meta e)) entries)"
    using table by (simp_all add: table_of_def written_table_def)
  have stream: "is_empty_stream fi k \<longleftrightarrow> ?P ?e" using k by (simp add: is_empty_stream_def bm)
  have "filter (bitmap_is_set (flags_of (map ?P entries))) [0..<k] = filter (\<lambda>i. ?P (entries ! i)) [0..<k]"
    using k by (intro filter_cong) auto
  then have ord: "empty_stream_ordinal fi k = (if ?P ?e then Some ?ord else None)"
    using k filter_upt_take [of k entries ?P]
    by (simp add: empty_stream_ordinal_def ords empty_stream_ordinals_of_def get_def ordinals_from_nth
        written_table_def)
  have nth: "?ord < length (empty_entries entries) \<and> empty_entries entries ! ?ord = ?e" if "?P ?e"
    using filter_nth_count [of k entries ?P] k that by (simp add: empty_entries_def)
  have anti: "is_anti fi k \<longleftrightarrow> ?P ?e \<and> we_kind ?e = WK_Anti"
    and empty_file: "is_empty_file fi k \<longleftrightarrow> ?P ?e \<and> we_kind ?e = WK_File"
    using ord nth by (auto simp: is_anti_def is_empty_file_def bm)
  have link: "is_symlink fi k \<longleftrightarrow> symlink_attributes ?e"
    using k by (simp add: is_symlink_def bm get_column_of symlink_attributes_def)
  show ?thesis
    using anti empty_file stream link
    by (auto simp: entry_type_def entry_kind_def meant_type_def split: bool.splits)
qed


lemma written_names:
  assumes "list_all name_valid entries" and table: "table_of fi = written_table entries"
    and "unat (num_files fi) = length entries" and "k < length entries"
  shows "FilesInfo_name fi k = Some (shown_name (entries ! k))"
proof -
  have names: "b_data (name_data fi) = flat (name_units (map entry_units entries))"
    using table by (simp add: table_of_def written_table_def)
  have valid: "no_null (entry_units (entries ! k))"
      "decode_name (flat (entry_units (entries ! k))) = shown_name (entries ! k)" if "k < length entries" for k
    using valid_name_facts [of "entries ! k"] assms(1) that by (auto simp: list_all_length)
  have "list_all no_null (map entry_units entries)" using valid(1) by (simp add: list_all_length)
  from FilesInfo_name_units [OF names this] assms(3) show ?thesis
    using valid(2) assms(4) by simp
qed

text \<open>
  The file table the writer emits is read back as it was meant, wherever it stands in the header:
  the reader's parser consumes exactly the section, gets one entry per entry, and for each
  the name, the kind (data, empty file, directory, anti item, symlink), the three times, the start
  position and the attributes it was written with.
\<close>

theorem written_files_parse_back:
  assumes "list_all name_valid entries" and "in_buffer backing e (write_files_info entries @ r)"
  shows "\<exists>fi. FilesInfo_parse N e (write_files_info entries @ r) backing = Ok (r, fi) \<and>
    unat (num_files fi) = length entries \<and>
    (\<forall>k < length entries. FilesInfo_name fi k = Some (shown_name (entries ! k)) \<and>
       entry_type fi k = meant_type (entries ! k) \<and>
       Option.bind (get (ctimes fi) k) id = map_option system_time_to_filetime (ctime (we_meta (entries ! k))) \<and>
       Option.bind (get (atimes fi) k) id = map_option system_time_to_filetime (atime (we_meta (entries ! k))) \<and>
       Option.bind (get (mtimes fi) k) id = map_option system_time_to_filetime (mtime (we_meta (entries ! k))) \<and>
       Option.bind (get (start_positions fi) k) id = start_pos (we_meta (entries ! k)) \<and>
       Option.bind (get (attributes fi) k) id = meta_attributes (we_meta (entries ! k)))"
proof -
  obtain fi where fi: "FilesInfo_parse N e (write_files_info entries @ r) backing = Ok (r, fi)"
    "unat (num_files fi) = length entries" "table_of fi = written_table entries"
    "empty_stream_ordinals fi = empty_stream_ordinals_of (t_empty (written_table entries)) (length entries)"
    using FilesInfo_written [OF assms] by blast
  have cols: "ctimes fi = column_of (filetimes entries ctime)" "atimes fi = column_of (filetimes entries atime)"
    "mtimes fi = column_of (filetimes entries mtime)"
    "start_positions fi = column_of (map (\<lambda>e. start_pos (we_meta e)) entries)"
    "attributes fi = column_of (map (\<lambda>e. meta_attributes (we_meta e)) entries)"
    using fi(3) by (simp_all add: table_of_def written_table_def)
  show ?thesis
    using fi(1,2) written_classification [OF fi(3,4)] written_names [OF assms(1) fi(3,2)]
    by (intro exI [of _ fi]) (simp add: cols get_column_of filetimes_def id_def)
qed

definition example_entries :: "WriteEntry list" where
  "example_entries =
     [\<lparr>we_name = [0x61], we_raw_name = None, we_kind = WK_File, we_meta = archive_file,
       we_stream = Buffered [1, 2, 3], we_folder_id = 0\<rparr>,
      \<lparr>we_name = [0x64], we_raw_name = None, we_kind = WK_Directory, we_meta = EntryMeta_default,
       we_stream = StreamEmpty, we_folder_id = 0\<rparr>]"

lemma example_section:
  "write_files_info example_entries =
     [0x05, 2, 0x0e, 1, 0x40, 0x11, 9, 0, 0x61, 0, 0, 0, 0x64, 0, 0, 0, 0x15, 7, 0, 0x80, 0, 0x20, 0, 0, 0, 0]"
  by code_simp

theorem written_files_parse_back_witness:
  "\<exists>fi. FilesInfo_parse nom_reference 126 (write_files_info example_entries)
       \<lparr>b_ptr = 100, b_data = write_files_info example_entries\<rparr> = Ok ([], fi) \<and>
     FilesInfo_name fi 0 = Some [0x61] \<and> entry_type fi 0 = ET_File \<and> entry_type fi 1 = ET_Directory"
proof -
  have valid: "list_all name_valid example_entries"
    by (simp add: example_entries_def name_valid_def scalar_value_def)
  have buf: "in_buffer \<lparr>b_ptr = 100, b_data = write_files_info example_entries\<rparr> 126 (write_files_info example_entries @ [])"
    by (auto simp: in_buffer_def example_section intro: exI [of _ "[]"])
  have "length example_entries = 2" "shown_name (example_entries ! 0) = [0x61]"
    "meant_type (example_entries ! 0) = ET_File" "meant_type (example_entries ! 1) = ET_Directory"
    by (simp_all add: example_entries_def shown_name_def meant_type_def symlink_attributes_def archive_file_def
        EntryMeta_default_def)
  then show ?thesis
    using written_files_parse_back [OF valid buf, of nom_reference] by fastforce
qed

end
