(* ===== verification/Written_Header.thy ===== *)
theory Written_Header
  imports Written_Files Headers
begin

text \<open>
  The whole header the writer emits: the reader's scan accepts it without suspending, and the
  sections parsed from it on demand are the tables it was written from.
\<close>

section \<open>The scanner over the file table\<close>

definition scans_quietly :: "nom \<Rightarrow> nat \<Rightarrow> bytes \<Rightarrow> bool" where
  "scans_quietly N n sec \<longleftrightarrow>
     (\<forall>r. length (sec @ r) < usize_limit \<longrightarrow>
        scan_files_info_loop N n (sec @ r) False = scan_files_info_loop N n r False)"

lemma quiet_append: "scans_quietly N n a \<Longrightarrow> scans_quietly N n b \<Longrightarrow> scans_quietly N n (a @ b)"
  by (auto simp: scans_quietly_def)

lemma quiet_nil: "scans_quietly N n []"
  by (simp add: scans_quietly_def)

lemma quiet_if: "(c \<Longrightarrow> scans_quietly N n a) \<Longrightarrow> scans_quietly N n (if c then a else [])"
  by (simp add: quiet_nil)

lemma quiet_block:
  assumes "tag \<noteq> P_END" and "external_flag tag payload n \<in> {None, Some 0}"
  shows "scans_quietly N n (property_block tag payload)"
  unfolding scans_quietly_def
proof (intro allI impI)
  fix r assume "length (property_block tag payload @ r) < usize_limit"
  then have "unat (of_nat (length payload) :: u64) = length payload"
    by (simp add: property_block_def unat_of_nat)
  then show "scan_files_info_loop N n (property_block tag payload @ r) False = scan_files_info_loop N n r False"
    using assms by (subst scan_files_info_loop.simps) (auto simp: property_block_def)
qed

lemma defined_flag:
  "length vs = n \<Longrightarrow> external_flag tag (defined_payload w vs) n \<in> {None, Some 0} \<or> tag = P_Name"
  using length_flag_bitmap [of vs]
  by (auto simp: external_flag_def defined_payload_def get_def Let_def checked_sub_def nth_append)

lemma quiet_entries:
  assumes "list_all name_valid entries"
  shows "scans_quietly N (length entries)
     (write_empty_properties entries @ write_names entries @
      write_time_property 0x12 entries (\<lambda>e. ctime (we_meta e)) @
      write_time_property 0x13 entries (\<lambda>e. atime (we_meta e)) @
      write_time_property 0x14 entries (\<lambda>e. mtime (we_meta e)) @
      write_u64_property 0x18 entries (\<lambda>e. start_pos (we_meta e)) @
      write_u32_property 0x15 entries (\<lambda>e. meta_attributes (we_meta e)))"
proof -
  have u64s: "scans_quietly N (length entries) (write_u64_property (Property_code tag) entries f)"
    if "tag \<noteq> P_END" "tag \<noteq> P_Name" for tag f
    unfolding write_u64_property_def defined_property_eq
    using defined_flag [of "map f entries" "length entries" tag 8] that by (intro quiet_if quiet_block) auto
  have u32s: "scans_quietly N (length entries) (write_u32_property (Property_code tag) entries f)"
    if "tag \<noteq> P_END" "tag \<noteq> P_Name" for tag f
    unfolding write_u32_property_def defined_property_eq
    using defined_flag [of "map f entries" "length entries" tag 4] that by (intro quiet_if quiet_block) auto
  have "scans_quietly N (length entries) (write_empty_properties entries)"
    unfolding write_empty_properties_eq
    by (intro quiet_append quiet_if quiet_block) (simp_all add: external_flag_def)
  moreover have "scans_quietly N (length entries) (write_names entries)"
    unfolding write_names_eq [OF assms]
    by (rule quiet_block) (simp_all add: external_flag_def get_def)
  ultimately show ?thesis
    unfolding write_time_property_def
    using u64s [of P_CTime] u64s [of P_ATime] u64s [of P_MTime] u64s [of P_StartPos] u32s [of P_Attributes]
    by (intro quiet_append) simp_all
qed

lemma scan_files_written:
  assumes "list_all name_valid entries" and "length (write_files_info entries @ r) < usize_limit"
  shows "scan_files_info_with_external N (write_files_info entries @ r) = Ok (r, of_nat (length entries), False)"
proof -
  let ?body = "write_empty_properties entries @ write_names entries @
      write_time_property 0x12 entries (\<lambda>e. ctime (we_meta e)) @
      write_time_property 0x13 entries (\<lambda>e. atime (we_meta e)) @
      write_time_property 0x14 entries (\<lambda>e. mtime (we_meta e)) @
      write_u64_property 0x18 entries (\<lambda>e. start_pos (we_meta e)) @
      write_u32_property 0x15 entries (\<lambda>e. meta_attributes (we_meta e))"
  have w: "write_files_info entries @ r = 0x05 # sevenzip_varuint64_encode (of_nat (length entries)) @ ?body @ 0x00 # r"
    by (simp add: write_files_info_def)
  have "2 * length entries \<le> length (write_files_info entries)" by (rule entries_bytes)
  then have n: "unat (of_nat (length entries) :: u64) = length entries" using assms(2) by (simp add: unat_of_nat)
  have "scan_files_info_loop N (length entries) (?body @ 0x00 # r) False = scan_files_info_loop N (length entries) (0x00 # r) False"
    using quiet_entries [OF assms(1), of N] assms(2) unfolding w scans_quietly_def by simp
  then show ?thesis
    unfolding w scan_files_info_with_external_def
    using n by (simp add: scan_files_info_loop.simps [of _ _ "0 # _"])
qed


section \<open>The scan of a written header\<close>

definition streams_part :: "CompletedFolder list \<Rightarrow> bytes" where
  "streams_part cfs = (if cfs = [] then [] else 0x04 # write_streams cfs)"

lemma build_header_eq: "build_header entries cfs = 0x01 # streams_part cfs @ write_files_info entries @ [0x00]"
  by (simp add: build_header_def streams_part_def write_streams_def)

lemma byte_range_at:
  assumes "b_data backing = pre @ mid @ post" and "length (b_data backing) < 2 ^ 32"
  shows "byte_range_of backing (mid @ post) post = Ok (of_nat (length pre), of_nat (length pre + length mid))"
  using assms by (simp add: byte_range_of_def u32_try_from_usize_def)

lemma lazy_section_at:
  assumes "b_data backing = pre @ mid @ post" and "length (b_data backing) < 2 ^ 32"
    and "p (b_ptr backing + (length pre + length mid)) mid = Ok ([], x)" and "keep x"
  shows "lazy_section backing (Some (of_nat (length pre), of_nat (length pre + length mid))) p keep = Ok (Some x)"
proof -
  have "unat (of_nat (length pre) :: u32) = length pre"
    "unat (of_nat (length pre + length mid) :: u32) = length pre + length mid"
    using assms(1,2) by (simp_all only: unat_of_nat) simp_all
  then show ?thesis
    using assms(1,3,4) by (simp add: lazy_section_def get_range_def del: of_nat_add)
qed

lemma uses_external_written:
  assumes "tables_match cfs" and "length (write_streams cfs @ r) < usize_limit"
  shows "\<exists>j. uses_external_folder_data N (write_streams cfs @ r) = Ok (j, False)"
proof -
  let ?q1 = "write_unpack_info cfs @ write_substreams_info cfs @ [0x00] @ r"
  have split: "write_streams cfs @ r = write_pack_info cfs @ ?q1" by (simp add: write_streams_def)
  have "length (concat (map pack_sizes cfs)) < usize_limit"
    using assms(2) length_concat_encodings [of "concat (map pack_sizes cfs)"]
    unfolding split by (simp add: write_pack_info_def concat_encodings Let_def)
  from PackInfo_written [OF this, of N ?q1]
  have "\<exists>x. PackInfo_parse N (write_streams cfs @ r) = Ok (?q1, x)" unfolding split by blast
  then have "scan_pack_info N (write_streams cfs @ r) = Ok (?q1, ())"
    using pack_info.agrees [of "write_streams cfs @ r" N ?q1 "()"] assms(2) by simp
  moreover have "\<exists>j nf. parse_folder_declaration N ?q1 = Ok (j, nf, Inline)"
    by (simp add: write_unpack_info_eq parse_folder_declaration_def)
  moreover have "Property_parse (write_streams cfs @ r) = Ok (tl (write_streams cfs @ r), P_PackInfo)"
    "Property_parse ?q1 = Ok (tl ?q1, P_UnPackInfo)"
    by (simp_all add: write_streams_def write_pack_info_def write_unpack_info_def Let_def)
  ultimately show ?thesis
    by (subst uses_external_folder_data.simps, simp, subst uses_external_folder_data.simps) auto
qed

lemma streams_round_written:
  assumes fw: "folders_written N cfs folders" and data: "b_data (hs_data self) = pre @ write_streams cfs @ r"
    and small: "length (b_data (hs_data self)) < 2 ^ 32"
  shows "header_round N None self (0x04 # write_streams cfs @ r) =
    Ok (Inl (r, self\<lparr>hs_streams_info_range := Some (of_nat (length pre), of_nat (length pre + length (write_streams cfs)))\<rparr>))"
proof -
  let ?i = "write_streams cfs @ r" and ?e = "b_end (hs_data self)"
  have buf: "in_buffer (hs_data self) ?e ?i"
    using small by (auto simp: in_buffer_def data b_end_def intro: exI [of _ pre])
  have len: "length ?i < 2 ^ 32" using small by (simp add: data)
  have "readable (hs_data self) ?e ?i []"
    using buf len by (simp add: readable_def external_small_def)
  from scan_stream_info_same_rest [OF this, of N] StreamInfo_written [OF fw buf len]
  have scan: "scan_stream_info_with_external N ?i [] = Ok (r, ())"
    by (auto simp: same_rest_def)
  obtain j where "uses_external_folder_data N ?i = Ok (j, False)"
    using uses_external_written [OF folders_written_match [OF fw], of r N] len by auto
  then show ?thesis
    using scan byte_range_at [OF data small]
    by (simp add: header_round_def Let_def streams_section_def del: of_nat_add)
qed

lemma files_round_written:
  assumes "list_all name_valid entries" and data: "b_data (hs_data self) = pre @ write_files_info entries @ r"
    and small: "length (b_data (hs_data self)) < 2 ^ 32"
  shows "header_round N None self (write_files_info entries @ r) =
    Ok (Inl (r, self\<lparr>hs_files_info_range := Some (of_nat (length pre), of_nat (length pre + length (write_files_info entries))),
      hs_num_files := of_nat (length entries)\<rparr>))"
proof -
  have "Property_parse (write_files_info entries @ r) = Ok (tl (write_files_info entries @ r), P_FilesInfo)"
    by (simp add: write_files_info_def)
  then show ?thesis
    using scan_files_written [OF assms(1), of r N] byte_range_at [OF data small] small
    by (simp add: header_round_def Let_def data del: of_nat_add)
qed

definition written_header :: "Bytes \<Rightarrow> WriteEntry list \<Rightarrow> CompletedFolder list \<Rightarrow> Header" where
  "written_header backing entries cfs =
     \<lparr>h_data = backing,
      streams_info_range = (if cfs = [] then None else Some (of_nat 2, of_nat (2 + length (write_streams cfs)))),
      files_info_range = Some (of_nat (1 + length (streams_part cfs)),
        of_nat (1 + length (streams_part cfs) + length (write_files_info entries))),
      additional_streams_range = None, external_folder_data = [], h_num_files = of_nat (length entries)\<rparr>"

lemma resolve_written:
  assumes "list_all name_valid entries" and "cfs \<noteq> [] \<longrightarrow> folders_written N cfs folders"
    and data: "b_data backing = build_header entries cfs" and small: "length (b_data backing) < 2 ^ 32"
  shows "resolve_archive N backing = Ok (HeaderComplete (written_header backing entries cfs))"
proof -
  let ?files = "write_files_info entries @ [0x00]"
  have start: "HeaderScan_new backing =
      Ok \<lparr>hs_data = backing, hs_position = 1, hs_streams_info_range = None, hs_files_info_range = None,
        hs_additional_streams_range = None, hs_num_files = 0\<rparr>"
    by (simp add: HeaderScan_new_def data build_header_eq)
  have last: "header_loop N None self [0x00] = Ok (finish_scan self None [])" for self
    by (simp add: header_loop.simps [of _ _ _ "[0]"] header_round_def)
  have files: "header_loop N None self ?files =
      Ok (finish_scan (self\<lparr>hs_files_info_range := Some (of_nat (1 + length (streams_part cfs)),
          of_nat (1 + length (streams_part cfs) + length (write_files_info entries))),
        hs_num_files := of_nat (length entries), hs_position := length (b_data backing) - 1\<rparr>) None [])"
    if "hs_data self = backing" for self
  proof -
    have "b_data (hs_data self) = (0x01 # streams_part cfs) @ ?files" using that data by (simp add: build_header_eq)
    from files_round_written [OF assms(1) this, of N] small that show ?thesis
      by (simp add: header_loop.simps [of _ _ _ ?files] last del: of_nat_add of_nat_Suc)
  qed
  have "HeaderScan_advance N \<lparr>hs_data = backing, hs_position = 1, hs_streams_info_range = None,
      hs_files_info_range = None, hs_additional_streams_range = None, hs_num_files = 0\<rparr> None =
      Ok (Complete (written_header backing entries cfs) (length (b_data backing)))"
  proof (cases "cfs = []")
    case True
    then have "get_from (b_data backing) 1 = Some ?files"
      by (simp add: get_from_def data build_header_eq streams_part_def)
    then show ?thesis
      using True by (simp add: HeaderScan_advance_def files finish_scan_def written_header_def)
  next
    case False
    let ?self = "\<lparr>hs_data = backing, hs_position = 1, hs_streams_info_range = None,
      hs_files_info_range = None, hs_additional_streams_range = None, hs_num_files = 0\<rparr>"
    have d: "b_data (hs_data ?self) = [0x01, 0x04] @ write_streams cfs @ ?files"
      using False by (simp add: data build_header_eq streams_part_def)
    have "get_from (b_data backing) 1 = Some (0x04 # write_streams cfs @ ?files)"
      using d by (simp add: get_from_def)
    moreover have "folders_written N cfs folders" using assms(2) False by simp
    from streams_round_written [OF this d] small
    have "header_round N None ?self (0x04 # write_streams cfs @ ?files) =
        Ok (Inl (?files, ?self\<lparr>hs_streams_info_range := Some (of_nat 2, of_nat (2 + length (write_streams cfs)))\<rparr>))"
      by simp
    ultimately show ?thesis
      using False by (simp add: HeaderScan_advance_def header_loop.simps [of _ _ _ "4 # _"] files finish_scan_def
          written_header_def del: of_nat_add of_nat_Suc)
  qed
  then show ?thesis
    by (simp add: resolve_archive_def start into_resolution_def complete_exact_def written_header_def)
qed


section \<open>The descriptor of an encoded header\<close>

text \<open>
  The descriptor is a pack info with one stream and an unpack info with one folder: the sections
  of a completed folder without files, except for the pack position.
\<close>

lemma PackInfo_descriptor:
  "PackInfo_parse N (0x06 # sevenzip_varuint64_encode pos @ sevenzip_varuint64_encode 1 @ 0x09 #
      sevenzip_varuint64_encode packed @ 0x00 # r) =
     Ok (r, \<lparr>pack_pos = pos, num_pack_streams = 1, pack_size = [packed], pi_digests = [None]\<rparr>)"
  by (simp add: PackInfo_parse_def pack_info_prefix_def pack_info_loop.simps [of _ _ "0 # _"])

definition header_folder :: "bytes \<Rightarrow> u64 list \<Rightarrow> CompletedFolder" where
  "header_folder info sizes =
     \<lparr>file_indices = [], pack_sizes = [], coder_info = info, coder_unpack_sizes = sizes, folder_crc = None,
      file_sizes = [], file_crcs = []\<rparr>"

lemma descriptor_unpack_info:
  "write_unpack_info [header_folder info sizes] =
     [0x07, 0x0b] @ sevenzip_varuint64_encode 1 @ [0x00] @ info @ [0x0c] @
     concat (map sevenzip_varuint64_encode sizes) @ [0x00]"
  by (simp add: write_unpack_info_def header_folder_def write_folder_crcs_def write_optional_crcs_def)

lemma descriptor_eq:
  "build_encoded_header_descriptor pos packed info sizes =
     0x17 # 0x06 # sevenzip_varuint64_encode pos @ sevenzip_varuint64_encode 1 @ 0x09 #
       sevenzip_varuint64_encode packed @ 0x00 # write_unpack_info [header_folder info sizes] @ [0x00]"
  by (simp add: build_encoded_header_descriptor_def descriptor_unpack_info)


lemma written_header_reads:
  assumes "list_all name_valid entries" and "cfs \<noteq> [] \<longrightarrow> folders_written N cfs folders"
    and "b_data backing = build_header entries cfs" and "length (b_data backing) < 2 ^ 32"
  shows "\<exists>h. resolve_archive N backing = Ok (HeaderComplete h) \<and>
    (if cfs = [] then try_streams_info N h = Ok None
     else \<exists>info. try_streams_info N h = Ok (Some info) \<and> streams_describe N cfs folders info) \<and>
    (\<exists>fi. try_files_info N h = Ok (Some fi) \<and> unat (num_files fi) = length entries \<and>
       (\<forall>k < length entries. FilesInfo_name fi k = Some (shown_name (entries ! k)) \<and>
          entry_type fi k = meant_type (entries ! k)))"
proof -
  let ?h = "written_header backing entries cfs" and ?w = "write_files_info entries"
  have data: "b_data backing = (0x01 # streams_part cfs) @ ?w @ [0x00]"
    using assms(3) by (simp add: build_header_eq)
  have streams: "if cfs = [] then try_streams_info N ?h = Ok None
     else \<exists>info. try_streams_info N ?h = Ok (Some info) \<and> streams_describe N cfs folders info"
  proof (cases "cfs = []")
    case True
    then show ?thesis by (simp add: try_streams_info_def lazy_section_def written_header_def)
  next
    case False
    then have d: "b_data backing = [0x01, 0x04] @ write_streams cfs @ ?w @ [0x00]"
      by (simp add: data streams_part_def)
    have "in_buffer backing (b_ptr backing + (length [0x01, 0x04 :: u8] + length (write_streams cfs))) (write_streams cfs @ [])"
      using assms(4) by (auto simp: in_buffer_def d intro: exI [of _ "[0x01, 0x04]"])
    moreover have "length (write_streams cfs @ []) < 2 ^ 32" using assms(4) by (simp add: d)
    ultimately obtain info where "StreamInfo_parse_with_external N
          (b_ptr backing + (length [0x01, 0x04 :: u8] + length (write_streams cfs))) (write_streams cfs) backing [] = Ok ([], info)"
        "streams_describe N cfs folders info"
      using StreamInfo_written [of N cfs folders backing] assms(2) False by fastforce
    with lazy_section_at [OF d assms(4)] False show ?thesis
      by (fastforce simp: try_streams_info_def written_header_def)
  qed
  have buf: "in_buffer backing (b_ptr backing + (length (0x01 # streams_part cfs) + length ?w)) (?w @ [])"
    using assms(4) unfolding in_buffer_def data by (intro conjI exI [of _ "0x01 # streams_part cfs"] exI [of _ "[0x00]"]) simp_all
  obtain fi where fi: "FilesInfo_parse N (b_ptr backing + (length (0x01 # streams_part cfs) + length ?w)) (?w @ []) backing = Ok ([], fi)"
    "unat (num_files fi) = length entries" "num_files fi = of_nat (length entries)" "table_of fi = written_table entries"
    "empty_stream_ordinals fi = empty_stream_ordinals_of (t_empty (written_table entries)) (length entries)"
    using FilesInfo_written [OF assms(1) buf, of N] by blast
  have "try_files_info N ?h = Ok (Some fi)"
    using lazy_section_at [OF data assms(4), of "\<lambda>e sl. FilesInfo_parse_with_external N e sl backing []" fi
        "\<lambda>info. num_files info = of_nat (length entries)"] fi(1,3)
    by (simp add: try_files_info_def written_header_def FilesInfo_parse_def del: of_nat_add of_nat_Suc)
  then show ?thesis
    using resolve_written [OF assms] streams fi(2) written_classification [OF fi(4,5)]
      written_names [OF assms(1) fi(4,2)] by blast
qed


section \<open>Properties\<close>

text \<open>
  C11. A header the writer builds is read back. For completed folders whose coder descriptions parse,
  and entries with storable names, in less than four gigabytes, the reader resolves the
  header without needing external data; the streams section parses on demand to the packed sizes,
  folders, coder sizes, checksums and substream sizes it was written from, and the file
  table to the names and kinds of the entries.
\<close>

theorem written_header_read_back:
  assumes "list_all name_valid entries" and "cfs \<noteq> [] \<longrightarrow> folders_written N cfs folders"
    and "b_data backing = build_header entries cfs" and "length (b_data backing) < 2 ^ 32"
  shows "\<exists>h. resolve_archive N backing = Ok (HeaderComplete h) \<and>
    (if cfs = [] then try_streams_info N h = Ok None
     else \<exists>info. try_streams_info N h = Ok (Some info) \<and> streams_describe N cfs folders info) \<and>
    (\<exists>fi. try_files_info N h = Ok (Some fi) \<and> unat (num_files fi) = length entries \<and>
       (\<forall>k < length entries. FilesInfo_name fi k = Some (shown_name (entries ! k)) \<and>
          entry_type fi k = meant_type (entries ! k)))"
  by (rule written_header_reads [OF assms])

text \<open>
  The descriptor of an encoded header is read back: the reader recognises it as encoded and gets
  the position and size of the packed header, and one folder that parses to the coders it was
  written for, with their output sizes.
\<close>

theorem encoded_descriptor_read_back:
  assumes "describes_chain N info cs" and "length sizes = total_out_streams (chain_folder cs)"
    and "b_data backing = build_encoded_header_descriptor pos packed info sizes"
    and "length (b_data backing) < 2 ^ 32"
  shows "\<exists>eh g. NextHeader_parse N backing = Ok (Encoded eh) \<and>
    pack_pos (eh_pack_info eh) = pos \<and> pack_size (eh_pack_info eh) = [packed] \<and>
    ui_unpack_sizes (eh_unpack_info eh) = sizes \<and> num_folders (eh_unpack_info eh) = 1 \<and>
    parse_folder_with_graph N (eh_unpack_info eh) 0 = Ok (chain_folder cs, g)"
proof -
  let ?cf = "header_folder info sizes"
  let ?u = "write_unpack_info [?cf] @ [0x00]"
  have cf: "list_all2 (folder_written N) [?cf] [chain_folder cs]"
    using assms(1,2) by (auto simp: folder_written_def header_folder_def describes_chain_def)
  let ?pre = "0x17 # 0x06 # sevenzip_varuint64_encode pos @ sevenzip_varuint64_encode 1 @ 0x09 #
      sevenzip_varuint64_encode packed @ [0x00]"
  have data: "b_data backing = ?pre @ ?u" using assms(3) by (simp add: descriptor_eq)
  have "in_buffer backing (b_end backing) ?u"
    using assms(4) unfolding in_buffer_def b_end_def data by (intro conjI exI [of _ ?pre] exI [of _ "[]"]) simp_all
  moreover have "length ?u < 2 ^ 32" using assms(4) unfolding data by simp
  moreover have "length (all_unpack_sizes [?cf]) < usize_limit"
    using assms(4) length_concat_encodings [of sizes]
    unfolding data descriptor_unpack_info by (simp add: all_unpack_sizes_def header_folder_def)
  ultimately obtain ui where ui: "UnpackInfo_parse_with_external N (b_end backing) ?u backing [] = Ok ([0x00], ui)"
      "UnpackInfo_wf N ui [chain_folder cs]" "num_folders ui = of_nat (length [?cf])"
      "ui_unpack_sizes ui = all_unpack_sizes [?cf]"
    using UnpackInfo_written [OF cf, of backing "b_end backing" "[0x00]"] by blast
  obtain g where "graph (chain_folder cs) = Ok g" using assms(1) by (auto simp: describes_chain_def)
  with parse_folder_with_graph_wf [OF ui(2), of 0]
  have g: "parse_folder_with_graph N ui 0 = Ok (chain_folder cs, g)" by simp
  have "NextHeader_parse N backing =
      Ok (Encoded \<lparr>eh_pack_info = \<lparr>pack_pos = pos, num_pack_streams = 1, pack_size = [packed], pi_digests = [None]\<rparr>,
        eh_unpack_info = ui\<rparr>)"
    using PackInfo_descriptor [of N pos packed ?u] ui(1) unfolding NextHeader_parse_def data
    by (simp add: EncodedHeader_parse_def UnpackInfo_parse_def)
  then show ?thesis
    using g ui(3,4) by (auto simp: all_unpack_sizes_def header_folder_def)
qed


section \<open>An archive with a stored file and a directory\<close>

definition example_folder :: CompletedFolder where
  "example_folder =
     \<lparr>file_indices = [0], pack_sizes = [3], coder_info = encode_coder_info_copy, coder_unpack_sizes = [3],
      folder_crc = None, file_sizes = [3], file_crcs = [Some 0x55BC801D]\<rparr>"

lemma copy_chain: "describes_chain N encode_coder_info_copy [spec_coder Spec_Copy]"
  using describes_specs [of "[Spec_Copy]" encode_coder_info_copy N]
  by (simp add: encode_coder_info_copy_def chain_pairs_def spec_ok_def)

lemma example_folder_written: "folders_written N [example_folder] [chain_folder [spec_coder Spec_Copy]]"
  using copy_chain [of N]
  by (auto simp: folders_written_def folder_written_def example_folder_def describes_chain_def
      total_out_streams_def chain_folder_def all_file_crcs_def)

lemma example_header:
  "length (build_header example_entries [example_folder]) = 54"
  by code_simp

theorem written_header_read_back_witness:
  "\<exists>h fi. resolve_archive nom_reference \<lparr>b_ptr = 0, b_data = build_header example_entries [example_folder]\<rparr> =
      Ok (HeaderComplete h) \<and>
    try_files_info nom_reference h = Ok (Some fi) \<and> FilesInfo_name fi 0 = Some [0x61] \<and> entry_type fi 1 = ET_Directory"
proof -
  have valid: "list_all name_valid example_entries"
    by (simp add: example_entries_def name_valid_def scalar_value_def)
  have "length example_entries = 2" "shown_name (example_entries ! 0) = [0x61]"
    "meant_type (example_entries ! 1) = ET_Directory"
    by (simp_all add: example_entries_def shown_name_def meant_type_def symlink_attributes_def EntryMeta_default_def)
  then show ?thesis
    using written_header_read_back [OF valid, of "[example_folder]" nom_reference "[chain_folder [spec_coder Spec_Copy]]"
        "\<lparr>b_ptr = 0, b_data = build_header example_entries [example_folder]\<rparr>"]
      example_folder_written example_header by fastforce
qed

lemma example_descriptor: "length (build_encoded_header_descriptor 7 40 encode_coder_info_copy [40]) = 18"
  by code_simp

theorem encoded_descriptor_read_back_witness:
  "\<exists>eh. NextHeader_parse nom_reference
       \<lparr>b_ptr = 0, b_data = build_encoded_header_descriptor 7 40 encode_coder_info_copy [40]\<rparr> = Ok (Encoded eh) \<and>
     pack_pos (eh_pack_info eh) = 7 \<and> ui_unpack_sizes (eh_unpack_info eh) = [40]"
  using encoded_descriptor_read_back [OF copy_chain [of nom_reference], of "[40]"
      "\<lparr>b_ptr = 0, b_data = build_encoded_header_descriptor 7 40 encode_coder_info_copy [40]\<rparr>" 7 40]
    example_descriptor
  by (auto simp: total_out_streams_def chain_folder_def)

end
