(* ===== verification/Readers.thy ===== *)
theory Readers
  imports Resources
begin

text \<open>
  Readers, and the loops over them that the sources take from \<open>std::io\<close>. A reader is a
  function of its state and the length of the buffer; it returns the bytes it put at
  the front of the buffer, or an error. A loop that may wait forever is a partial
  function, so that not returning is the value \<open>None\<close>.
  From the repository: \<open>FolderReader\<close>, \<open>ExactSizeReader\<close> and \<open>read_to_end_bounded\<close>
  of \<^verbatim>\<open>src/src/codec.rs\<close>, \<open>copy_to\<close> of \<^verbatim>\<open>src/src/operation.rs\<close> and the reader of
  \<^verbatim>\<open>src/src/byte_swap.rs\<close> are instances, here or in the theories that follow.
\<close>

section \<open>Contracts\<close>

text \<open>What \<open>std::io::Read\<close> asks of a reader: never more bytes than the buffer has.\<close>

locale read_contract =
  fixes rd :: "'r reader"
  assumes fits: "rd r n = (Ok bs, r') \<Longrightarrow> length bs \<le> n"

text \<open>A reader with a content, which it hands out in order and to the end.\<close>

locale content_source = read_contract rd for rd :: "'r reader" +
  fixes rest :: "'r \<Rightarrow> bytes"
  assumes gives: "rd r n = (Ok bs, r') \<Longrightarrow> rest r = bs @ rest r'"
    and ends: "rd r n = (Ok [], r') \<Longrightarrow> 0 < n \<Longrightarrow> rest r = []"

text \<open>One that loses nothing when it fails.\<close>

locale lossless_source = content_source +
  assumes keeps: "rd r n = (Err e, r') \<Longrightarrow> rest r' = rest r"

text \<open>What a sequence of reads delivered, whatever the sizes asked for; failed reads deliver nothing.\<close>

inductive delivers :: "'r reader \<Rightarrow> 'r \<Rightarrow> bytes \<Rightarrow> 'r \<Rightarrow> bool" for rd :: "'r reader" where
  delivers_nil: "delivers rd r [] r"
| delivers_ok: "delivers rd r bs r1 \<Longrightarrow> rd r1 n = (Ok cs, r2) \<Longrightarrow> delivers rd r (bs @ cs) r2"
| delivers_err: "delivers rd r bs r1 \<Longrightarrow> rd r1 n = (Err e, r2) \<Longrightarrow> delivers rd r bs r2"

lemma delivers_append:
  assumes "delivers rd r1 cs r2" and "delivers rd r bs r1"
  shows "delivers rd r (bs @ cs) r2"
  using assms
proof (induction rule: delivers.induct)
  case (delivers_ok r1 cs r2 n ds r3)
  then show ?case using delivers.delivers_ok [of rd r "bs @ cs" r2 n ds r3] by simp
qed (auto intro: delivers.intros)

context lossless_source
begin

lemma delivers_content: "delivers rd r bs r' \<Longrightarrow> rest r = bs @ rest r'"
  by (induction rule: delivers.induct) (auto dest: gives keeps)

end


section \<open>Loops over a reader\<close>

text \<open>
  A callback that gets a reader, \<open>FnOnce(&mut dyn Read) -> Result<(), R7zError>\<close>: all it
  can do with the reader is read. \<open>'c\<close> is what the callback closes over, its next action a
  function of it: to return, or to ask for bytes and go on with the answer.
\<close>

datatype 'c action = Return "unit r7z_result" | Ask nat "bytes io_result \<Rightarrow> 'c"

type_synonym 'c callback = "'c \<Rightarrow> 'c action"

partial_function (option) run_callback ::
  "'s reader \<Rightarrow> 'c callback \<Rightarrow> 'c \<Rightarrow> 's \<Rightarrow> (unit r7z_result \<times> 'c \<times> 's) option"
  where
  "run_callback rd cb c s =
     (case cb c of
        Return result \<Rightarrow> Some (result, c, s)
      | Ask n k \<Rightarrow> (case rd s n of (answer, s) \<Rightarrow> run_callback rd cb (k answer) s))"

text \<open>The callback \<open>|_| Ok(())\<close>.\<close>

definition consume_nothing :: "unit callback" where
  "consume_nothing c = Return (Ok ())"

text \<open>\<open>std::io::copy(reader, &mut std::io::sink())\<close>: its buffer has 8 KiB.\<close>

abbreviation COPY_BUFFER :: nat where
  "COPY_BUFFER \<equiv> 8192"

partial_function (option) drain :: "'s reader \<Rightarrow> 's \<Rightarrow> (unit io_result \<times> 's) option" where
  "drain rd s =
     (case rd s COPY_BUFFER of
        (Err e, s) \<Rightarrow> if e = IoKind Interrupted then drain rd s else Some (Err e, s)
      | (Ok bs, s) \<Rightarrow> if bs = [] then Some (Ok (), s) else drain rd s)"

declare run_callback.simps [code] drain.simps [code]

text \<open>An invariant of the single reads is an invariant of the loops.\<close>

lemma run_callback_invariant:
  assumes step: "\<And>s n answer s'. I s \<Longrightarrow> rd s n = (answer, s') \<Longrightarrow> I s'"
    and run: "run_callback rd cb c s = Some (result, c', s')" and "I s"
  shows "I s'"
proof -
  have "rd = rd \<longrightarrow> I s \<longrightarrow> I (snd (snd (result, c', s')))"
  proof (rule run_callback.raw_induct [where P = "\<lambda>rd' cb c s y. rd' = rd \<longrightarrow> I s \<longrightarrow> I (snd (snd y))", OF _ run])
    fix run rd' cb c s y
    assume IH: "\<And>rd' cb c s y. run rd' cb c s = Some y \<Longrightarrow> rd' = rd \<longrightarrow> I s \<longrightarrow> I (snd (snd y))"
      and "(case cb c of Return result \<Rightarrow> Some (result, c, s)
        | Ask n k \<Rightarrow> (case rd' s n of (answer, s) \<Rightarrow> run rd' cb (k answer) s)) = Some y"
    then show "rd' = rd \<longrightarrow> I s \<longrightarrow> I (snd (snd y))"
      by (cases "cb c") (auto split: prod.splits dest!: IH [rule_format] dest: step)
  qed
  with \<open>I s\<close> show ?thesis by simp
qed

lemma drain_invariant:
  assumes step: "\<And>s n answer s'. I s \<Longrightarrow> rd s n = (answer, s') \<Longrightarrow> I s'"
    and run: "drain rd s = Some (result, s')" and "I s"
  shows "I s' \<and> (result = Ok () \<longrightarrow> (\<exists>s1. I s1 \<and> rd s1 COPY_BUFFER = (Ok [], s')))"
proof -
  let ?P = "\<lambda>rd' s y. rd' = rd \<longrightarrow> I s \<longrightarrow>
      I (snd y) \<and> (fst y = Ok () \<longrightarrow> (\<exists>s1. I s1 \<and> rd s1 COPY_BUFFER = (Ok [], snd y)))"
  have "?P rd s (result, s')"
  proof (rule drain.raw_induct [where P = ?P, OF _ run])
    fix run rd' s y
    assume IH: "\<And>rd' s y. run rd' s = Some y \<Longrightarrow> ?P rd' s y"
      and "(case rd' s COPY_BUFFER of
          (Err e, s) \<Rightarrow> if e = IoKind Interrupted then run rd' s else Some (Err e, s)
        | (Ok bs, s) \<Rightarrow> if bs = [] then Some (Ok (), s) else run rd' s) = Some y"
    then show "?P rd' s y"
      by (cases "rd' s COPY_BUFFER"; cases "fst (rd' s COPY_BUFFER)")
         (auto split: if_splits dest!: IH [rule_format] dest: step)
  qed
  with \<open>I s\<close> show ?thesis by simp
qed

text \<open>A drain ends when every read that is not the last makes progress.\<close>

lemma drain_returns:
  assumes "\<And>s n e s'. I s \<Longrightarrow> rd s n = (Err e, s') \<Longrightarrow> e \<noteq> IoKind Interrupted"
    and "\<And>s n bs s'. I s \<Longrightarrow> rd s n = (Ok bs, s') \<Longrightarrow> bs \<noteq> [] \<Longrightarrow> I s' \<and> m s' < (m s :: nat)"
    and "I s"
  shows "\<exists>y. drain rd s = Some y"
  using assms(3)
proof (induction "m s" arbitrary: s rule: less_induct)
  case less
  obtain answer s' where rd: "rd s COPY_BUFFER = (answer, s')" by (cases "rd s COPY_BUFFER")
  show ?case
  proof (cases answer)
    case (Err e)
    then show ?thesis
      using assms(1) [OF less.prems] rd by (subst drain.simps) simp
  next
    case (Ok bs)
    show ?thesis
    proof (cases "bs = []")
      case False
      then have "I s'" "m s' < m s" using assms(2) [OF less.prems] rd Ok by auto
      then obtain y where "drain rd s' = Some y" using less.hyps by blast
      then show ?thesis using rd Ok False by (subst drain.simps) simp
    qed (use rd Ok in \<open>subst drain.simps, simp\<close>)
  qed
qed


section \<open>Readers of the standard library\<close>

text \<open>
  \<open>Read::read_to_end\<close>. How much room it offers to the reader is not documented: the
  argument \<open>sz\<close> chooses, knowing how much was read.
\<close>

partial_function (option) read_to_end ::
  "(nat \<Rightarrow> nat) \<Rightarrow> 's reader \<Rightarrow> 's \<Rightarrow> bytes \<Rightarrow> (bytes io_result \<times> 's) option"
  where
  "read_to_end sz rd s out =
     (case rd s (Suc (sz (length out))) of
        (Err e, s) \<Rightarrow> if e = IoKind Interrupted then read_to_end sz rd s out else Some (Err e, s)
      | (Ok bs, s) \<Rightarrow> if bs = [] then Some (Ok out, s) else read_to_end sz rd s (out @ bs))"

declare read_to_end.simps [code]

lemma read_to_end_next:
  "rd s (Suc (sz (length out))) = (Ok bs, s') \<Longrightarrow>
     read_to_end sz rd s out = (if bs = [] then Some (Ok out, s') else read_to_end sz rd s' (out @ bs))"
  by (simp add: read_to_end.simps)

lemma read_to_end_error:
  "rd s (Suc (sz (length out))) = (Err e, s') \<Longrightarrow>
     read_to_end sz rd s out = (if e = IoKind Interrupted then read_to_end sz rd s' out else Some (Err e, s'))"
  by (simp add: read_to_end.simps)

text \<open>\<open>std::io::Cursor\<close> over a byte vector; reading never moves its position past the end.\<close>

record Cursor =
  cur_data :: bytes
  cur_pos :: nat

definition Cursor_new :: "bytes \<Rightarrow> Cursor" where
  "Cursor_new data = \<lparr>cur_data = data, cur_pos = 0\<rparr>"

definition cursor_rest :: "Cursor \<Rightarrow> bytes" where
  "cursor_rest self = drop (cur_pos self) (cur_data self)"

definition Cursor_read :: "Cursor reader" where
  "Cursor_read self n =
     (let bs = take n (cursor_rest self) in
      (Ok bs, self\<lparr>cur_pos := cur_pos self + length bs\<rparr>))"

text \<open>\<open>std::io::Take\<close>.\<close>

record 'r Take =
  tk_inner :: 'r
  tk_limit :: u64

definition Take_read :: "'r reader \<Rightarrow> 'r Take reader" where
  "Take_read rd self n =
     (if tk_limit self = 0 then (Ok [], self)
      else
        case rd (tk_inner self) (min n (unat (tk_limit self))) of
          (Err e, r) \<Rightarrow> (Err e, self\<lparr>tk_inner := r\<rparr>)
        | (Ok bs, r) \<Rightarrow> (Ok bs, self\<lparr>tk_inner := r, tk_limit := tk_limit self - of_nat (length bs)\<rparr>))"


section \<open>Readers of the codecs\<close>

text \<open>\<open>FolderReader\<close>: a decoder that streams, or output that was decoded before.\<close>

datatype 'r FolderReader = Streamed 'r | Buffered Cursor

definition FolderReader_read :: "'r reader \<Rightarrow> 'r FolderReader reader" where
  "FolderReader_read rd self n =
     (case self of
        Streamed r \<Rightarrow> (case rd r n of (answer, r) \<Rightarrow> (answer, Streamed r))
      | Buffered c \<Rightarrow> (case Cursor_read c n of (answer, c) \<Rightarrow> (answer, Buffered c)))"

definition read_bounded_to_vec :: "(nat \<Rightarrow> nat) \<Rightarrow> 'r reader \<Rightarrow> 'r FolderReader \<Rightarrow> u64 \<Rightarrow> bytes r7z_result option" where
  "read_bounded_to_vec sz rd self read_limit =
     (case self of
        Streamed r \<Rightarrow>
          map_option (\<lambda>(result, _). map_err Io result)
            (read_to_end sz (Take_read rd) \<lparr>tk_inner = r, tk_limit = read_limit\<rparr> [])
      | Buffered c \<Rightarrow>
          let position = cur_pos c; output = cur_data c in
          Some (Ok (take (unat read_limit) (drop (min position (length output)) output))))"

text \<open>\<open>ExactSizeReader\<close>: a codec's output must have the declared size.\<close>

datatype OutputEnd = Sized | Terminated

record 'r ExactSizeReader =
  es_inner :: 'r
  es_remaining :: u64
  es_end :: OutputEnd

definition ExactSizeReader_sized :: "'r \<Rightarrow> u64 \<Rightarrow> 'r ExactSizeReader" where
  "ExactSizeReader_sized inner sz = \<lparr>es_inner = inner, es_remaining = sz, es_end = Sized\<rparr>"

definition ExactSizeReader_terminated :: "'r \<Rightarrow> u64 \<Rightarrow> 'r ExactSizeReader" where
  "ExactSizeReader_terminated inner sz = \<lparr>es_inner = inner, es_remaining = sz, es_end = Terminated\<rparr>"

definition ExactSizeReader_read :: "'r reader \<Rightarrow> 'r ExactSizeReader reader" where
  "ExactSizeReader_read rd self n =
     (if n = 0 then (Ok [], self)
      else if es_remaining self = 0 then
        case es_end self of
          Sized \<Rightarrow> (Ok [], self)
        | Terminated \<Rightarrow>
            (case rd (es_inner self) 1 of
               (Err e, r) \<Rightarrow> (Err e, self\<lparr>es_inner := r\<rparr>)
             | (Ok bs, r) \<Rightarrow>
                 (if bs = [] then Ok [] else Err (IoKind InvalidData), self\<lparr>es_inner := r\<rparr>))
      else
        case rd (es_inner self) (min (unat (es_remaining self)) n) of
          (Err e, r) \<Rightarrow> (Err e, self\<lparr>es_inner := r\<rparr>)
        | (Ok bs, r) \<Rightarrow>
            if bs = [] then (Err (IoKind UnexpectedEof), self\<lparr>es_inner := r\<rparr>)
            else (Ok bs, self\<lparr>es_inner := r, es_remaining := es_remaining self - of_nat (length bs)\<rparr>))"

text \<open>
  \<open>read_to_end_bounded\<close>: the output vector is its bytes and its capacity. The allocation
  of \<open>try_reserve_exact\<close> is taken to succeed with what was asked for; its errors all become
  \<open>Decompression\<close>, an interruption too.
\<close>

definition resource_limit :: "string \<Rightarrow> nat \<Rightarrow> R7zError" where
  "resource_limit resource limit = ResourceLimitExceeded resource (of_nat limit)"

partial_function (option) read_to_end_bounded ::
  "'r reader \<Rightarrow> nat \<Rightarrow> string \<Rightarrow> 'r \<Rightarrow> bytes \<Rightarrow> nat \<Rightarrow> (bytes r7z_result \<times> 'r) option"
  where
  "read_to_end_bounded rd max_len resource input output capacity =
     (case rd input 8192 of
        (Err _, input) \<Rightarrow> Some (Err Decompression, input)
      | (Ok bs, input) \<Rightarrow>
          if bs = [] then Some (Ok output, input)
          else
            (case usize_checked_add (length output) (length bs) of
               None \<Rightarrow> Some (Err Decompression, input)
             | Some new_len \<Rightarrow>
                 if new_len > max_len then Some (Err (resource_limit resource max_len), input)
                 else
                   (let capacity =
                      (if new_len > capacity then
                         min (max (min (max capacity 8192 * 2) (usize_limit - 1)) new_len) max_len
                       else capacity)
                    in
                    if capacity > max_len then Some (Err (resource_limit resource max_len), input)
                    else read_to_end_bounded rd max_len resource input (output @ bs) capacity)))"

declare read_to_end_bounded.simps [code]


section \<open>Copying\<close>

text \<open>A writer takes a prefix of what it is offered, or fails.\<close>

type_synonym 'w writer = "'w \<Rightarrow> bytes \<Rightarrow> nat io_result \<times> 'w"

partial_function (option) write_all :: "'w writer \<Rightarrow> 'w \<Rightarrow> bytes \<Rightarrow> (unit io_result \<times> 'w) option" where
  "write_all wr w bs =
     (if bs = [] then Some (Ok (), w)
      else
        case wr w bs of
          (Err e, w) \<Rightarrow> if e = IoKind Interrupted then write_all wr w bs else Some (Err e, w)
        | (Ok n, w) \<Rightarrow> if n = 0 then Some (Err (IoKind WriteZero), w) else write_all wr w (drop n bs))"

text \<open>\<open>std::io::copy\<close>; the count it returns is in \<open>u64\<close> and wraps.\<close>

partial_function (option) io_copy ::
  "'r reader \<Rightarrow> 'w writer \<Rightarrow> 'r \<Rightarrow> 'w \<Rightarrow> u64 \<Rightarrow> (u64 io_result \<times> 'r \<times> 'w) option"
  where
  "io_copy rd wr r w copied =
     (case rd r COPY_BUFFER of
        (Err e, r) \<Rightarrow> if e = IoKind Interrupted then io_copy rd wr r w copied else Some (Err e, r, w)
      | (Ok bs, r) \<Rightarrow>
          if bs = [] then Some (Ok copied, r, w)
          else
            Option.bind (write_all wr w bs) (\<lambda>(written, w).
              case written of
                Err e \<Rightarrow> Some (Err e, r, w)
              | Ok _ \<Rightarrow> io_copy rd wr r w (copied + of_nat (length bs))))"

text \<open>\<open>OperationMonitor::copy_to\<close>: with a control each read is checked and counted.\<close>

partial_function (option) monitored_copy ::
  "'r reader \<Rightarrow> 'w writer \<Rightarrow> OperationMonitor \<Rightarrow> 'r \<Rightarrow> 'w \<Rightarrow> u64 \<Rightarrow>
     (u64 r7z_result \<times> OperationMonitor \<times> 'r \<times> 'w) option"
  where
  "monitored_copy rd wr self r w copied =
     (case monitor_read rd self r COPY_BUFFER of
        (Err e, self, r) \<Rightarrow> Some (Err e, self, r, w)
      | (Ok bs, self, r) \<Rightarrow>
          if bs = [] then Some (Ok copied, self, r, w)
          else
            Option.bind (write_all wr w bs) (\<lambda>(written, w).
              case written of
                Err e \<Rightarrow> Some (Err (Io e), self, r, w)
              | Ok _ \<Rightarrow>
                  (case u64_checked_add copied (of_nat (length bs)) of
                     None \<Rightarrow> Some (Err Parse, self, r, w)
                   | Some copied \<Rightarrow> monitored_copy rd wr self r w copied)))"

definition copy_to :: "'r reader \<Rightarrow> 'w writer \<Rightarrow> OperationMonitor \<Rightarrow> 'r \<Rightarrow> 'w \<Rightarrow>
    (u64 r7z_result \<times> OperationMonitor \<times> 'r \<times> 'w) option" where
  "copy_to rd wr self r w =
     (case control self of
        None \<Rightarrow> map_option (\<lambda>(result, r, w). (map_err Io result, self, r, w)) (io_copy rd wr r w 0)
      | Some _ \<Rightarrow> monitored_copy rd wr self r w 0)"

declare write_all.simps [code] io_copy.simps [code] monitored_copy.simps [code]

end
