(* ===== verification/Reader_Laws.thy ===== *)
theory Reader_Laws
  imports Readers
begin

text \<open>
  What the readers of \<open>Readers\<close> do to the content of the reader behind them: they are sources
  themselves, and the loops over a source return its content.
\<close>

section \<open>Sources\<close>

text \<open>A source that never fails, as a decoder over valid data or a cursor.\<close>

locale infallible_source = lossless_source +
  assumes total: "\<exists>bs r'. rd r n = (Ok bs, r')"

lemma drop_taken: "take n (drop p xs) @ drop (p + min (length xs - p) n) xs = drop p xs"
  using append_take_drop_id [of n "drop p xs"] by (simp add: min_def add.commute)

interpretation cursor: infallible_source Cursor_read cursor_rest
  by unfold_locales (auto simp: Cursor_read_def cursor_rest_def Let_def drop_taken)

context infallible_source
begin

lemma rest_unfold:
  obtains bs r' where "rd r n = (Ok bs, r')" "rest r = bs @ rest r'" "length bs \<le> n"
  using total [of r n] gives fits by metis

lemma read_to_end_total: "\<exists>r'. read_to_end sz rd r out = Some (Ok (out @ rest r), r') \<and> rest r' = []"
proof (induction "length (rest r)" arbitrary: r out rule: less_induct)
  case less
  obtain bs r1 where rd: "rd r (Suc (sz (length out))) = (Ok bs, r1)" "rest r = bs @ rest r1"
    by (rule rest_unfold)
  show ?case
  proof (cases "bs = []")
    case True
    with rd ends show ?thesis by (subst read_to_end.simps) simp
  next
    case False
    then have "length (rest r1) < length (rest r)" using rd by simp
    from less [OF this, of "out @ bs"] show ?thesis
      using rd False by (subst read_to_end.simps) simp
  qed
qed

end

lemma take_add_append: "length bs \<le> n \<Longrightarrow> take n (bs @ xs) = bs @ take (n - length bs) xs"
  by simp

lemma unat_sub_length:
  "length bs \<le> unat (n :: u64) \<Longrightarrow> unat (n - of_nat (length bs)) = unat n - length bs"
  using unat_u64_less [of n] by (simp add: unat_sub word_le_nat_alt unat_of_nat)

context infallible_source
begin

lemma taken: "infallible_source (Take_read rd) (\<lambda>t. take (unat (tk_limit t)) (rest (tk_inner t)))"
proof
  fix t t' :: "'a Take" and n bs
  assume read: "Take_read rd t n = (Ok bs, t')"
  show "length bs \<le> n" 
    using read fits by (fastforce simp: Take_read_def split: if_splits prod.splits result.splits)
  show "take (unat (tk_limit t)) (rest (tk_inner t)) = bs @ take (unat (tk_limit t')) (rest (tk_inner t'))"
  proof (cases "tk_limit t = 0")
    case False
    obtain cs r where rd: "rd (tk_inner t) (min n (unat (tk_limit t))) = (Ok cs, r)"
      "rest (tk_inner t) = cs @ rest r" "length cs \<le> min n (unat (tk_limit t))"
      by (rule rest_unfold)
    then show ?thesis
      using read False by (auto simp: Take_read_def unat_sub_length)
  qed (use read in \<open>simp add: Take_read_def\<close>)
next
  fix t t' :: "'a Take" and n
  assume "Take_read rd t n = (Ok [], t')" and "0 < n"
  then show "take (unat (tk_limit t)) (rest (tk_inner t)) = []"
    using ends by (auto simp: Take_read_def unat_gt_0 split: if_splits prod.splits result.splits)
next
  fix t :: "'a Take" and n
  show "\<exists>bs t'. Take_read rd t n = (Ok bs, t')"
    using total [of "tk_inner t" "min n (unat (tk_limit t))"] by (auto simp: Take_read_def)
next
  fix t t' :: "'a Take" and n e
  assume "Take_read rd t n = (Err e, t')"
  then show "take (unat (tk_limit t')) (rest (tk_inner t')) = take (unat (tk_limit t)) (rest (tk_inner t))"
    using keeps by (auto simp: Take_read_def split: if_splits prod.splits result.splits)
qed

end


section \<open>Output of a declared size\<close>

context infallible_source
begin

lemma exact_size_step:
  assumes "es_remaining self \<noteq> 0" and "n \<noteq> 0"
  obtains (eof) r where "rest (es_inner self) = []" "ExactSizeReader_read rd self n = (Err (IoKind UnexpectedEof), self\<lparr>es_inner := r\<rparr>)"
  | (some) bs self' where "bs \<noteq> []" "rest (es_inner self) = bs @ rest (es_inner self')"
      "ExactSizeReader_read rd self n = (Ok bs, self')" "es_end self' = es_end self"
      "unat (es_remaining self) = length bs + unat (es_remaining self')"
proof -
  let ?n = "min (unat (es_remaining self)) n"
  obtain bs r where rd: "rd (es_inner self) ?n = (Ok bs, r)" "rest (es_inner self) = bs @ rest r" "length bs \<le> ?n"
    by (rule rest_unfold)
  have n: "0 < ?n" using assms by (simp add: unat_gt_0)
  show thesis
  proof (cases "bs = []")
    case True
    with ends n rd have "rest (es_inner self) = []" by simp
    with True rd assms show thesis by (intro eof) (auto simp: ExactSizeReader_read_def)
  next
    case False
    with rd assms show thesis
      by (intro some [of bs "self\<lparr>es_inner := r, es_remaining := es_remaining self - of_nat (length bs)\<rparr>"])
         (auto simp: ExactSizeReader_read_def unat_sub_length)
  qed
qed

lemma exact_size_total:
  "\<exists>s'. read_to_end sz (ExactSizeReader_read rd) self out = Some
     (if length (rest (es_inner self)) < unat (es_remaining self) then Err (IoKind UnexpectedEof)
      else if es_end self = Terminated \<and> unat (es_remaining self) < length (rest (es_inner self))
      then Err (IoKind InvalidData)
      else Ok (out @ take (unat (es_remaining self)) (rest (es_inner self))), s')"
proof (induction "unat (es_remaining self)" arbitrary: self out rule: less_induct)
  case less
  let ?n = "Suc (sz (length out))"
  show ?case
  proof (cases "es_remaining self = 0")
    case True
    obtain bs r where rd: "rd (es_inner self) 1 = (Ok bs, r)" "rest (es_inner self) = bs @ rest r"
      by (rule rest_unfold)
    have "bs = [] \<longleftrightarrow> rest (es_inner self) = []" using rd ends by auto
    moreover have "ExactSizeReader_read rd self ?n =
        (if es_end self = Sized then (Ok [], self)
         else (if bs = [] then Ok [] else Err (IoKind InvalidData), self\<lparr>es_inner := r\<rparr>))"
      using rd(1) True by (simp add: ExactSizeReader_read_def split: OutputEnd.split)
    ultimately show ?thesis
      using True by (cases "es_end self") (auto simp: read_to_end_next read_to_end_error)
  next
    case False
    then show ?thesis
    proof (cases rule: exact_size_step [of self ?n, case_names zero eof some])
      case eof
      then show ?thesis using False by (simp add: read_to_end_error unat_gt_0)
    next
      case (some bs self')
      then have "unat (es_remaining self') < unat (es_remaining self)" by simp
      from less [OF this, of "out @ bs"] show ?thesis
        using some by (auto simp: read_to_end_next split: if_splits)
    qed simp
  qed
qed

end


section \<open>Bounded collection\<close>

context infallible_source
begin

lemma bounded_total:
  assumes "max_len + COPY_BUFFER < usize_limit" and "length out \<le> capacity" and "capacity \<le> max_len"
  shows "\<exists>s. read_to_end_bounded rd max_len resource input out capacity = Some
    (if length out + length (rest input) \<le> max_len then Ok (out @ rest input)
     else Err (resource_limit resource max_len), s)"
  using assms(2,3)
proof (induction "length (rest input)" arbitrary: input out capacity rule: less_induct)
  case less
  obtain bs r where rd: "rd input 8192 = (Ok bs, r)" "rest input = bs @ rest r" "length bs \<le> 8192"
    by (rule rest_unfold)
  show ?case
  proof (cases "bs = [] \<or> length out + length bs > max_len")
    case True
    then show ?thesis
      using rd ends less.prems assms(1)
      by (subst read_to_end_bounded.simps) (auto simp: usize_checked_add_def)
  next
    case False
    let ?new = "length out + length bs"
    define grown where "grown = (if ?new > capacity then
      min (max (min (max capacity 8192 * 2) (usize_limit - 1)) ?new) max_len else capacity)"
    have grown: "length (out @ bs) \<le> grown" "grown \<le> max_len"
      using False less.prems by (auto simp: grown_def)
    have "length (rest r) < length (rest input)" using False rd by simp
    from less.hyps [OF this grown] obtain s where
      "read_to_end_bounded rd max_len resource r (out @ bs) grown = Some
        (if length (out @ bs) + length (rest r) \<le> max_len then Ok ((out @ bs) @ rest r)
         else Err (resource_limit resource max_len), s)" ..
    moreover have "read_to_end_bounded rd max_len resource input out capacity =
        read_to_end_bounded rd max_len resource r (out @ bs) grown"
      using rd False grown(2) assms(1)
      by (subst read_to_end_bounded.simps) (simp add: usize_checked_add_def Let_def flip: grown_def)
    ultimately show ?thesis using rd by (simp add: add.assoc)
  qed
qed

end


section \<open>Copying\<close>

text \<open>A writer that keeps what it takes; it may take less, and it may fail.\<close>

locale byte_sink =
  fixes wr :: "'w writer" and written :: "'w \<Rightarrow> bytes"
  assumes takes: "wr w bs = (Ok n, w') \<Longrightarrow> n \<le> length bs \<and> written w' = written w @ take n bs"
    and refuses: "wr w bs = (Err e, w') \<Longrightarrow> written w' = written w"
begin

text \<open>What a failed write left behind is the part before the failure.\<close>

lemma write_all_prefix:
  assumes "write_all wr w bs = Some (result, w')"
  shows "\<exists>n \<le> length bs. written w' = written w @ take n bs \<and> (result = Ok () \<longrightarrow> n = length bs)"
proof -
  let ?P = "\<lambda>wr' w bs y. wr' = wr \<longrightarrow> (\<exists>n \<le> length bs. written (snd y) = written w @ take n bs \<and>
      (fst y = Ok () \<longrightarrow> n = length bs))"
  have "?P wr w bs (result, w')"
  proof (rule write_all.raw_induct [where P = ?P, OF _ assms], intro impI)
    fix run wr' w bs y
    assume IH: "\<And>wr' w bs y. run wr' w bs = Some y \<Longrightarrow> ?P wr' w bs y"
      and step: "(if bs = [] then Some (Ok (), w)
        else case wr' w bs of
            (Err e, w) \<Rightarrow> if e = IoKind Interrupted then run wr' w bs else Some (Err e, w)
          | (Ok n, w) \<Rightarrow> if n = 0 then Some (Err (IoKind WriteZero), w) else run wr' w (drop n bs)) = Some y"
      and wr': "wr' = wr"
    obtain answer w1 where wr: "wr w bs = (answer, w1)" by (cases "wr w bs")
    show "\<exists>n \<le> length bs. written (snd y) = written w @ take n bs \<and> (fst y = Ok () \<longrightarrow> n = length bs)"
    proof (cases "bs = []")
      case False
      show ?thesis
      proof (cases answer)
        case (Err e)
        then show ?thesis
          using step wr wr' False refuses [of w bs e w1] IH [of wr' w1 bs y] by (auto split: if_splits)
      next
        case (Ok n)
        note n = takes [OF wr [unfolded Ok]]
        show ?thesis
        proof (cases "n = 0")
          case False
          then have "run wr' w1 (drop n bs) = Some y" using step wr wr' Ok \<open>bs \<noteq> []\<close> by simp
          from IH [OF this] wr' obtain m where m: "m \<le> length bs - n"
            "written (snd y) = written w1 @ take m (drop n bs)" "fst y = Ok () \<longrightarrow> m = length bs - n" by auto
          then show ?thesis
            using n by (intro exI [of _ "n + m"]) (auto simp: take_add)
        qed (use step wr wr' Ok n \<open>bs \<noteq> []\<close> in auto)
      qed
    qed (use step in auto)
  qed
  then show ?thesis by simp
qed

end

text \<open>Writing into a vector.\<close>

definition vec_write :: "bytes writer" where
  "vec_write w bs = (Ok (length bs), w @ bs)"

interpretation vec: byte_sink vec_write "\<lambda>w. w"
  by unfold_locales (auto simp: vec_write_def)


text \<open>
  Copying from \<open>r\<close> to \<open>w\<close> leaves \<open>w'\<close>: a prefix of the content went over, unchanged, and all of
  it if the copy succeeded.
\<close>

definition moved :: "bytes \<Rightarrow> bytes \<Rightarrow> bytes \<Rightarrow> bool \<Rightarrow> bool" where
  "moved content before after finished \<longleftrightarrow>
     (\<exists>xs ys. content = xs @ ys \<and> after = before @ xs \<and> (finished \<longrightarrow> ys = []))"


lemma moved_none: "moved content before before False"
  by (simp add: moved_def)

lemma moved_all: "moved [] before before finished"
  by (simp add: moved_def)

lemma moved_part: "moved (bs @ content) before (before @ take n bs) False"
  unfolding moved_def by (intro exI [of _ "take n bs"] exI [of _ "drop n bs @ content"]) simp

lemma moved_step: "moved content (before @ bs) after finished \<Longrightarrow> moved (bs @ content) before after finished"
  unfolding moved_def by force

locale copying = lossless_source rd rest + byte_sink wr written
  for rd :: "'r reader" and rest :: "'r \<Rightarrow> bytes" and wr :: "'w writer" and written :: "'w \<Rightarrow> bytes"
begin

lemma io_copy_moves:
  assumes "io_copy rd wr r w copied = Some (result, r', w')"
  shows "moved (rest r) (written w) (written w') (is_ok result) \<and>
    (\<forall>c. result = Ok c \<longrightarrow> c = copied + of_nat (length (rest r)))"
proof -
  let ?Q = "\<lambda>r w copied (result, r', w'). moved (rest r) (written w) (written w') (is_ok result) \<and>
    (\<forall>c. result = Ok c \<longrightarrow> c = copied + of_nat (length (rest r)))"
  let ?P = "\<lambda>rd' wr' r w copied y. rd' = rd \<longrightarrow> wr' = wr \<longrightarrow> ?Q r w copied y"
  have "?P rd wr r w copied (result, r', w')"
  proof (rule io_copy.raw_induct [where P = ?P, OF _ assms], intro impI)
    fix run rd' wr' r w copied y
    assume IH: "\<And>rd' wr' r w copied y. run rd' wr' r w copied = Some y \<Longrightarrow> ?P rd' wr' r w copied y"
      and step: "(case rd' r COPY_BUFFER of
          (Err e, r) \<Rightarrow> if e = IoKind Interrupted then run rd' wr' r w copied else Some (Err e, r, w)
        | (Ok bs, r) \<Rightarrow>
            if bs = [] then Some (Ok copied, r, w)
            else Option.bind (write_all wr' w bs) (\<lambda>(written, w).
                case written of
                  Err e \<Rightarrow> Some (Err e, r, w)
                | Ok _ \<Rightarrow> run rd' wr' r w (copied + of_nat (length bs)))) = Some y"
      and eqs: "rd' = rd" "wr' = wr"
    obtain answer r1 where rd: "rd r COPY_BUFFER = (answer, r1)" by (cases "rd r COPY_BUFFER")
    show "?Q r w copied y"
    proof (cases answer)
      case (Err e)
      then have "rest r1 = rest r" using rd keeps by simp
      then show ?thesis
        using step eqs rd Err IH [of rd wr r1 w copied y] by (auto simp: moved_none split: if_splits)
    next
      case (Ok bs)
      then have content: "rest r = bs @ rest r1" using rd gives by simp
      show ?thesis
      proof (cases "bs = []")
        case True
        then have "rest r = []" using rd ends Ok by simp
        then show ?thesis using step eqs rd Ok True by (auto simp: moved_all)
      next
        case False
        then obtain ok w1 where wa: "write_all wr w bs = Some (ok, w1)"
          and y: "(case ok of Err e \<Rightarrow> Some (Err e, r1, w1)
            | Ok _ \<Rightarrow> run rd wr r1 w1 (copied + of_nat (length bs))) = Some y"
          using step eqs rd Ok by (auto simp: bind_eq_Some_conv)
        from write_all_prefix [OF wa] obtain n where n: "written w1 = written w @ take n bs"
          "ok = Ok () \<longrightarrow> n = length bs" by blast
        show ?thesis
        proof (cases ok)
          case (Err e)
          then show ?thesis using y n content by (auto simp: moved_part)
        next
          case (Ok u)
          then have "run rd wr r1 w1 (copied + of_nat (length bs)) = Some y" using y by simp
          from IH [OF this] show ?thesis
            using n Ok content by (auto simp: add.assoc intro: moved_step)
        qed
      qed
    qed
  qed
  then show ?thesis by simp
qed

lemma monitor_read_source:
  assumes "monitor_read rd m r n = (Ok bs, m', r')" and "0 < n"
  shows "rest r = bs @ rest r' \<and> (bs = [] \<longrightarrow> rest r = []) \<and> length bs \<le> n \<and>
    monitor_check m = Ok () \<and> monitor_advance m (length bs) = (Ok (), m')"
proof -
  have "0 < buffer_size m n" "buffer_size m n \<le> n"
    using assms(2) by (simp_all add: buffer_size_def split: option.split)
  then show ?thesis
    using assms(1) gives ends fits unfolding monitor_read_def
    by (fastforce split: result.splits prod.splits)
qed

lemma monitored_copy_moves:
  assumes "monitored_copy rd wr m r w copied = Some (result, m', r', w')"
  shows "moved (rest r) (written w) (written w') (is_ok result) \<and>
    (\<forall>c. result = Ok c \<longrightarrow> unat c = unat copied + length (rest r))"
proof -
  let ?Q = "\<lambda>r w copied (result, m', r', w'). moved (rest r) (written w) (written w') (is_ok result) \<and>
    (\<forall>c. result = Ok c \<longrightarrow> unat c = unat copied + length (rest r))"
  let ?P = "\<lambda>rd' wr' m r w copied y. rd' = rd \<longrightarrow> wr' = wr \<longrightarrow> ?Q r w copied y"
  have "?P rd wr m r w copied (result, m', r', w')"
  proof (rule monitored_copy.raw_induct [where P = ?P, OF _ assms], intro impI)
    fix run rd' wr' m r w copied y
    assume IH: "\<And>rd' wr' m r w copied y. run rd' wr' m r w copied = Some y \<Longrightarrow> ?P rd' wr' m r w copied y"
      and step: "(case monitor_read rd' m r COPY_BUFFER of
          (Err e, m, r) \<Rightarrow> Some (Err e, m, r, w)
        | (Ok bs, m, r) \<Rightarrow>
            if bs = [] then Some (Ok copied, m, r, w)
            else Option.bind (write_all wr' w bs) (\<lambda>(written, w).
                case written of
                  Err e \<Rightarrow> Some (Err (Io e), m, r, w)
                | Ok _ \<Rightarrow>
                    (case u64_checked_add copied (of_nat (length bs)) of
                       None \<Rightarrow> Some (Err Parse, m, r, w)
                     | Some copied \<Rightarrow> run rd' wr' m r w copied))) = Some y"
      and eqs: "rd' = rd" "wr' = wr"
    obtain answer m1 r1 where rd: "monitor_read rd m r COPY_BUFFER = (answer, m1, r1)"
      by (cases "monitor_read rd m r COPY_BUFFER")
    show "?Q r w copied y"
    proof (cases answer)
      case (Err e)
      then show ?thesis using step eqs rd by (auto simp: moved_none)
    next
      case (Ok bs)
      note src = monitor_read_source [OF rd [unfolded Ok], simplified]
      show ?thesis
      proof (cases "bs = []")
        case True
        then show ?thesis using step eqs rd Ok src by (auto simp: moved_all)
      next
        case False
        then obtain ok w1 where wa: "write_all wr w bs = Some (ok, w1)"
          and y: "(case ok of Err e \<Rightarrow> Some (Err (Io e), m1, r1, w1)
            | Ok _ \<Rightarrow> (case u64_checked_add copied (of_nat (length bs)) of
                None \<Rightarrow> Some (Err Parse, m1, r1, w1)
              | Some copied \<Rightarrow> run rd wr m1 r1 w1 copied)) = Some y"
          using step eqs rd Ok by (auto simp: bind_eq_Some_conv)
        from write_all_prefix [OF wa] obtain n where n: "written w1 = written w @ take n bs"
          "ok = Ok () \<longrightarrow> n = length bs" by blast
        have len: "unat (of_nat (length bs) :: u64) = length bs" using src by (simp add: unat_of_nat)
        show ?thesis
        proof (cases "\<exists>c. ok = Ok () \<and> u64_checked_add copied (of_nat (length bs)) = Some c")
          case True
          then obtain c where ok: "ok = Ok ()" and c: "u64_checked_add copied (of_nat (length bs)) = Some c"
            by blast
          then have "run rd wr m1 r1 w1 c = Some y" using y by simp
          from IH [OF this] show ?thesis
            using n ok src c len by (auto simp: u64_checked_add_eq_Some intro: moved_step)
        next
          case False
          then show ?thesis
            using y n src moved_part [of bs "rest r1" "written w" "length bs"]
            by (cases ok) (auto simp: moved_part moved_none split: option.splits)
        qed
      qed
    qed
  qed
  then show ?thesis by simp
qed

end


section \<open>Properties\<close>

text \<open>
  C36. A codec's output has its declared size. Behind a decoder that does not fail on its own,
  collecting an \<open>ExactSizeReader\<close> always ends: too little output is an unexpected end of
  file; too much is invalid data if the codec must end with its output, and is cut off
  otherwise; anything else is exactly the decoder's output.
\<close>

theorem declared_size_enforced:
  assumes "infallible_source rd rest"
  shows "(\<exists>s. read_to_end sz (ExactSizeReader_read rd) (ExactSizeReader_terminated r declared) [] = Some
      (if length (rest r) < unat declared then Err (IoKind UnexpectedEof)
       else if unat declared < length (rest r) then Err (IoKind InvalidData)
       else Ok (rest r), s)) \<and>
    (\<exists>s. read_to_end sz (ExactSizeReader_read rd) (ExactSizeReader_sized r declared) [] = Some
      (if length (rest r) < unat declared then Err (IoKind UnexpectedEof)
       else Ok (take (unat declared) (rest r)), s))"
  using infallible_source.exact_size_total [OF assms, of sz "ExactSizeReader_terminated r declared" "[]"]
    infallible_source.exact_size_total [OF assms, of sz "ExactSizeReader_sized r declared" "[]"]
  by (auto simp: ExactSizeReader_terminated_def ExactSizeReader_sized_def split: if_splits)

theorem declared_size_enforced_witness:
  "(\<exists>s. read_to_end (\<lambda>_. 0) (ExactSizeReader_read Cursor_read) (ExactSizeReader_terminated (Cursor_new [1, 2, 3]) 2) [] =
      Some (Err (IoKind InvalidData), s)) \<and>
   (\<exists>s. read_to_end (\<lambda>_. 0) (ExactSizeReader_read Cursor_read) (ExactSizeReader_sized (Cursor_new [1, 2, 3]) 2) [] =
      Some (Ok [1, 2], s))"
  using declared_size_enforced [OF cursor.infallible_source_axioms, of "\<lambda>_. 0" "Cursor_new [1, 2, 3]" 2]
  by (simp add: cursor_rest_def Cursor_new_def)

text \<open>
  Collecting a folder's output does not depend on whether it is streamed or was
  decoded before: both give the first \<open>read_limit\<close> bytes of what is left.
\<close>

theorem read_bounded_same:
  assumes "infallible_source rd rest"
  shows "read_bounded_to_vec sz rd (Streamed r) read_limit = Some (Ok (take (unat read_limit) (rest r))) \<and>
    read_bounded_to_vec sz rd (Buffered c) read_limit = Some (Ok (take (unat read_limit) (cursor_rest c)))"
  using infallible_source.read_to_end_total [OF infallible_source.taken [OF assms], of sz
      "\<lparr>tk_inner = r, tk_limit = read_limit\<rparr>" "[]"]
  by (auto simp: read_bounded_to_vec_def cursor_rest_def min_def Let_def)

theorem read_bounded_same_witness:
  "read_bounded_to_vec (\<lambda>_. 7) Cursor_read (Streamed (Cursor_new [5, 6, 7])) 2 = Some (Ok [5, 6]) \<and>
   read_bounded_to_vec (\<lambda>_. 7) Cursor_read (Buffered (Cursor_new [5, 6, 7])) 2 = Some (Ok [5, 6])"
  using read_bounded_same [OF cursor.infallible_source_axioms, of "\<lambda>_. 7" "Cursor_new [5, 6, 7]" 2 "Cursor_new [5, 6, 7]"]
  by (simp add: cursor_rest_def Cursor_new_def)

text \<open>
  Copying is faithful. Whether or not a control watches it, a copy moves a prefix of the
  source's content into the sink, in order and unchanged; if it succeeds it moved all
  of it, and the count it returns is its length (modulo \<open>2 ^ 64\<close> for an unwatched copy).
\<close>

theorem copy_to_moves:
  assumes "lossless_source rd rest" and "byte_sink wr written"
    and "copy_to rd wr m r w = Some (result, m', r', w')"
  shows "\<exists>xs ys. rest r = xs @ ys \<and> written w' = written w @ xs \<and>
    (\<forall>n. result = Ok n \<longrightarrow> ys = [] \<and> n = of_nat (length (rest r)) \<and>
      (control m \<noteq> None \<longrightarrow> unat n = length (rest r)))"
proof -
  note copying = copying.intro [OF assms(1,2)]
  have "moved (rest r) (written w) (written w') (is_ok result) \<and>
      (\<forall>n. result = Ok n \<longrightarrow> n = of_nat (length (rest r)) \<and> (control m \<noteq> None \<longrightarrow> unat n = length (rest r)))"
  proof (cases "control m")
    case None
    then obtain res where "io_copy rd wr r w 0 = Some (res, r', w')" "result = map_err Io res"
      using assms(3) by (auto simp: copy_to_def)
    then show ?thesis using copying.io_copy_moves [OF copying, of r w 0 res r' w'] None by (cases res) auto
  next
    case (Some ctl)
    have conv: "n = of_nat k" if "unat n = k" for n :: u64 and k
      using that by auto
    with Some show ?thesis
      using assms(3) copying.monitored_copy_moves [OF copying, of m r w 0 result m' r' w']
      by (auto simp: copy_to_def intro: conv)
  qed
  then show ?thesis unfolding moved_def by (cases result) fastforce+
qed

theorem copy_to_moves_witness:
  "copy_to Cursor_read vec_write (OperationMonitor_new (Some OperationControl_new)) (Cursor_new [1, 2]) [9] =
     Some (Ok 2, (OperationMonitor_new (Some OperationControl_new))\<lparr>processed := 2\<rparr>, \<lparr>cur_data = [1, 2], cur_pos = 2\<rparr>, [9, 1, 2]) \<and>
   (\<exists>xs ys. cursor_rest (Cursor_new [1, 2]) = xs @ ys \<and> [9, 1, 2] = [9] @ xs)"
proof -
  let ?m = "OperationMonitor_new (Some OperationControl_new)"
  let ?after = "(?m\<lparr>processed := 2\<rparr>, \<lparr>cur_data = [1, 2], cur_pos = 2\<rparr>)"
  have read: "monitor_read Cursor_read ?m (Cursor_new [1, 2]) COPY_BUFFER = (Ok [1, 2], ?after)"
    and eof: "monitor_read Cursor_read (fst ?after) (snd ?after) COPY_BUFFER = (Ok [], ?after)"
    by (simp_all add: monitor_read_def monitor_check_def control_check_def monitor_advance_def buffer_size_def
        OperationMonitor_new_def OperationControl_new_def Cursor_read_def cursor_rest_def Cursor_new_def Let_def
        u64_saturating_add_def)
  have "write_all vec_write [9] [1, 2] = Some (Ok (), [9, 1, 2])"
    by (simp add: write_all.simps vec_write_def)
  moreover have "monitored_copy Cursor_read vec_write (fst ?after) (snd ?after) [9, 1, 2] 2 =
      Some (Ok 2, fst ?after, snd ?after, [9, 1, 2])"
    by (subst monitored_copy.simps) (simp only: eof, simp)
  ultimately have "monitored_copy Cursor_read vec_write ?m (Cursor_new [1, 2]) [9] 0 =
      Some (Ok 2, fst ?after, snd ?after, [9, 1, 2])"
    by (subst monitored_copy.simps) (simp add: read u64_checked_add_def)
  then have eq: "copy_to Cursor_read vec_write ?m (Cursor_new [1, 2]) [9] =
      Some (Ok 2, fst ?after, snd ?after, [9, 1, 2])"
    by (simp add: copy_to_def OperationMonitor_new_def)
  show ?thesis
    using eq copy_to_moves [OF cursor.lossless_source_axioms vec.byte_sink_axioms eq] by auto
qed

end
