(* ===== verification/Active_Folder.thy ===== *)
theory Active_Folder
  imports Folder_Tiling Reader_Laws
begin

text \<open>
  \<^verbatim>\<open>src/src/folder_decode.rs\<close>, second part: reading the output of a folder's decoder, substream
  by substream, with checksums, sizes and the budget of the operation.

  The decoder is a reader \<open>rd\<close>. The checksum of the crate crc32fast is a function
  \<open>crc\<close> of all the bytes a hasher was given. The outcome of an operation that calls back
  into the client or drains a reader is \<open>None\<close> if it does not return; else it is a result with the
  budget as it was left, which outlives the folder.
\<close>

section \<open>Checksums\<close>

datatype DigestState = Absent | Checking (expected: u32) (hasher: bytes)

fun DigestState_new :: "u32 option \<Rightarrow> DigestState" where
  "DigestState_new None = Absent"
| "DigestState_new (Some e) = Checking e []"

fun digest_update :: "DigestState \<Rightarrow> bytes \<Rightarrow> DigestState" where
  "digest_update Absent bs = Absent"
| "digest_update (Checking e h) bs = Checking e (h @ bs)"

fun digest_finish :: "(bytes \<Rightarrow> u32) \<Rightarrow> DigestState \<Rightarrow> unit r7z_result" where
  "digest_finish crc Absent = Ok ()"
| "digest_finish crc (Checking e h) = (if e = crc h then Ok () else Err Crc)"


section \<open>Reading one substream\<close>

record 'r SubstreamReader =
  sr_reader :: 'r
  sr_remaining :: u64
  sr_folder_digest :: DigestState
  sr_stream_digest :: DigestState
  sr_decoded_len :: u64
  sr_budget :: OperationBudget
  sr_limit_exceeded :: bool
  sr_charge_budget :: bool

text \<open>How much the budget lets through: \<open>None\<close> is the exhausted limit.\<close>

definition allowed_bytes :: "bool \<Rightarrow> OperationBudget \<Rightarrow> nat option" where
  "allowed_bytes charge budget =
     (if \<not> charge then Some (usize_limit - 1)
      else
        case decoded_remaining budget of
          None \<Rightarrow> Some (usize_limit - 1)
        | Some remaining \<Rightarrow> if remaining = 0 then None else Some (unat remaining))"

text \<open>The part of \<open>read\<close> after the reader returned \<open>bs\<close>, not empty.\<close>

definition account_read :: "'r SubstreamReader \<Rightarrow> bytes \<Rightarrow> bytes io_result \<times> 'r SubstreamReader" where
  "account_read self bs =
     (let n = of_nat (length bs);
          self = self\<lparr>sr_remaining := sr_remaining self - n\<rparr> in
      case (if sr_charge_budget self then charge_decoded (sr_budget self) n else Ok (sr_budget self)) of
        Err _ \<Rightarrow> (Err (IoKind InvalidData), self)
      | Ok budget \<Rightarrow>
          let self = self\<lparr>sr_budget := budget\<rparr> in
          case u64_checked_add (sr_decoded_len self) n of
            None \<Rightarrow> (Err (IoKind InvalidData), self)
          | Some len \<Rightarrow>
              let self = self\<lparr>sr_decoded_len := len,
                    sr_folder_digest := digest_update (sr_folder_digest self) bs,
                    sr_stream_digest := digest_update (sr_stream_digest self) bs\<rparr> in
              if sr_charge_budget self then
                (case monitor_advance (monitor (sr_budget self)) (length bs) of
                   (Err e, m) \<Rightarrow> (Err (read_io_error e), self\<lparr>sr_budget := (sr_budget self)\<lparr>monitor := m\<rparr>\<rparr>)
                 | (Ok _, m) \<Rightarrow> (Ok bs, self\<lparr>sr_budget := (sr_budget self)\<lparr>monitor := m\<rparr>\<rparr>))
              else (Ok bs, self))"

definition SubstreamReader_read :: "'r reader \<Rightarrow> 'r SubstreamReader reader" where
  "SubstreamReader_read rd self len =
     (case monitor_check (monitor (sr_budget self)) of
        Err e \<Rightarrow> (Err (read_io_error e), self)
      | Ok _ \<Rightarrow>
          let limit = min (unat (sr_remaining self)) len in
          if limit = 0 then (Ok [], self)
          else
            case allowed_bytes (sr_charge_budget self) (sr_budget self) of
              None \<Rightarrow> (Err (IoKind OtherKind), self\<lparr>sr_limit_exceeded := True\<rparr>)
            | Some allowed \<Rightarrow>
                (case rd (sr_reader self) (buffer_size (monitor (sr_budget self)) (min limit allowed)) of
                   (Err e, r) \<Rightarrow> (Err e, self\<lparr>sr_reader := r\<rparr>)
                 | (Ok bs, r) \<Rightarrow>
                     if bs = [] then (Err (IoKind UnexpectedEof), self\<lparr>sr_reader := r\<rparr>)
                     else account_read (self\<lparr>sr_reader := r\<rparr>) bs))"


section \<open>Active folders\<close>

record 'r ActiveFolder =
  af_reader :: 'r
  af_streams :: Substreams
  af_digest :: DigestState
  af_decoded_len :: u64
  af_unpack_size :: u64
  af_budgeted_eagerly :: bool

datatype CompletionMode = WholeFolder | SelectedStreams

definition position :: "'r ActiveFolder \<Rightarrow> nat" where
  "position self = ss_position (af_streams self)"

definition substream_reader :: "'r ActiveFolder \<Rightarrow> Substream \<Rightarrow> OperationBudget \<Rightarrow> 'r SubstreamReader" where
  "substream_reader self stream budget =
     \<lparr>sr_reader = af_reader self, sr_remaining = ByteRange_len (ss_range stream),
      sr_folder_digest = af_digest self, sr_stream_digest = DigestState_new (ss_digest stream),
      sr_decoded_len = af_decoded_len self, sr_budget = budget, sr_limit_exceeded = False,
      sr_charge_budget = \<not> af_budgeted_eagerly self\<rparr>"

text \<open>What the borrowed fields of the folder are when the reader of a substream is dropped.\<close>

definition put_back :: "'r ActiveFolder \<Rightarrow> Substreams \<Rightarrow> 'r SubstreamReader \<Rightarrow> 'r ActiveFolder" where
  "put_back self streams content =
     self\<lparr>af_reader := sr_reader content, af_streams := streams, af_digest := sr_folder_digest content,
       af_decoded_len := sr_decoded_len content\<rparr>"

text \<open>
  The checks after the callback: the limit first, then the callback's own error, then the
  rest of the substream is read, whatever the callback left.
\<close>

definition finish_stream :: "(bytes \<Rightarrow> u32) \<Rightarrow> 'r reader \<Rightarrow> unit r7z_result \<Rightarrow> 'r SubstreamReader \<Rightarrow>
    (unit r7z_result \<times> 'r SubstreamReader) option" where
  "finish_stream crc rd consume_result content =
     (if sr_limit_exceeded content then Some (Err (decoded_limit_error (sr_budget content)), content)
      else
        case map_err restore_callback_error consume_result of
          Err e \<Rightarrow> Some (Err e, content)
        | Ok _ \<Rightarrow>
            Option.bind (drain (SubstreamReader_read rd) content) (\<lambda>(drain_result, content). Some
              (if sr_limit_exceeded content then Err (decoded_limit_error (sr_budget content))
               else
                 and_then (map_err restore_read_error drain_result) (\<lambda>_.
                   if sr_remaining content \<noteq> 0 then Err Decompression
                   else digest_finish crc (sr_stream_digest content)), content)))"

text \<open>
  \<open>read_stream\<close>; \<open>c\<close> is what the callback closes over. The option around the outcome is
  \<open>None\<close> also for the panic of an inverted range.
\<close>

definition read_stream :: "(bytes \<Rightarrow> u32) \<Rightarrow> 'r reader \<Rightarrow> 'r ActiveFolder \<Rightarrow> OperationBudget \<Rightarrow>
    'c callback \<Rightarrow> 'c \<Rightarrow> ('r ActiveFolder r7z_result \<times> OperationBudget \<times> 'c) option" where
  "read_stream crc rd self budget consume c =
     Option.bind (substreams_next (af_streams self)) (\<lambda>(item, streams).
       case item of
         None \<Rightarrow> Some (Err Parse, budget, c)
       | Some stream \<Rightarrow>
           Option.bind (run_callback (SubstreamReader_read rd) consume c (substream_reader self stream budget))
             (\<lambda>(consume_result, c, content).
           Option.bind (finish_stream crc rd consume_result content) (\<lambda>(result, content).
             Some (and_then result (\<lambda>_. Ok (put_back self streams content)), sr_budget content, c))))"

text \<open>Reading and discarding the next \<open>k\<close> substreams: the \<open>try_fold\<close>s of \<open>skip_to\<close> and \<open>finish\<close>.\<close>

fun skip_streams :: "(bytes \<Rightarrow> u32) \<Rightarrow> 'r reader \<Rightarrow> nat \<Rightarrow> 'r ActiveFolder \<Rightarrow> OperationBudget \<Rightarrow>
    ('r ActiveFolder r7z_result \<times> OperationBudget) option" where
  "skip_streams crc rd 0 self budget = Some (Ok self, budget)"
| "skip_streams crc rd (Suc k) self budget =
     Option.bind (read_stream crc rd self budget consume_nothing ()) (\<lambda>(result, budget, _).
       case result of
         Err e \<Rightarrow> Some (Err e, budget)
       | Ok self \<Rightarrow> skip_streams crc rd k self budget)"

definition skip_to :: "(bytes \<Rightarrow> u32) \<Rightarrow> 'r reader \<Rightarrow> 'r ActiveFolder \<Rightarrow> nat \<Rightarrow> OperationBudget \<Rightarrow>
    ('r ActiveFolder r7z_result \<times> OperationBudget) option" where
  "skip_to crc rd self pos budget =
     (let current = position self in
      if \<not> (current \<le> pos \<and> pos \<le> layout_len (ss_layout (af_streams self))) then Some (Err Parse, budget)
      else skip_streams crc rd (pos - current) self budget)"

definition finish :: "(bytes \<Rightarrow> u32) \<Rightarrow> 'r reader \<Rightarrow> 'r ActiveFolder \<Rightarrow> CompletionMode \<Rightarrow> OperationBudget \<Rightarrow>
    (ReadVerification r7z_result \<times> OperationBudget) option" where
  "finish crc rd self mode budget =
     (if mode = SelectedStreams \<and> af_digest self = Absent \<and> substreams_len (af_streams self) \<noteq> 0
      then Some (Ok SelectedEntries, budget)
      else
        Option.bind (skip_streams crc rd (substreams_len (af_streams self)) self budget) (\<lambda>(result, budget).
          Some (and_then result (\<lambda>folder.
            if af_decoded_len folder \<noteq> af_unpack_size folder then Err Decompression
            else
              and_then (map_err restore_read_error (fst (rd (af_reader folder) 1))) (\<lambda>extra.
                if extra \<noteq> [] then Err Decompression
                else and_then (digest_finish crc (af_digest folder)) (\<lambda>_. Ok CompleteFolders))), budget)))"

text \<open>
  \<open>ReadyFolder::start\<close>: the decoder starts, charged at once if its output is decoded
  eagerly. \<open>start_decoder\<close> is the bound decoder's \<open>start\<close> with the password.
\<close>

record 'd ReadyFolder =
  rf_decoder :: 'd
  rf_layout :: FolderStreamLayout
  rf_unpack_size :: u64
  rf_crc :: "u32 option"

definition ReadyFolder_start ::
  "('d \<Rightarrow> u64 option) \<Rightarrow> ('d \<Rightarrow> OperationBudget \<Rightarrow> 'r r7z_result \<times> OperationBudget) \<Rightarrow>
     'd ReadyFolder \<Rightarrow> OperationBudget \<Rightarrow> 'r ActiveFolder r7z_result \<times> OperationBudget"
  where
  "ReadyFolder_start eager_output_size start_decoder self budget =
     (let eager = eager_output_size (rf_decoder self);
          (reader, budget) =
            (case eager of
               Some n \<Rightarrow> with_eager_decoded_output budget n (start_decoder (rf_decoder self))
             | None \<Rightarrow> start_decoder (rf_decoder self) budget)
      in
      (and_then reader (\<lambda>reader. Ok
         \<lparr>af_reader = reader, af_streams = layout_streams (rf_layout self),
          af_digest = DigestState_new (rf_crc self), af_decoded_len = 0,
          af_unpack_size = rf_unpack_size self, af_budgeted_eagerly = eager \<noteq> None\<rparr>), budget))"


section \<open>Collected folders\<close>

text \<open>A folder whose output is in memory.\<close>

record DecodedFolder =
  df_bytes :: bytes
  df_layout :: FolderStreamLayout

definition verify_folder_output :: "(bytes \<Rightarrow> u32) \<Rightarrow> FolderStreamLayout \<Rightarrow> u64 \<Rightarrow> u32 option \<Rightarrow> bytes \<Rightarrow>
    DecodedFolder r7z_result" where
  "verify_folder_output crc layout sz expected_crc bs =
     (if of_nat (length bs) \<noteq> sz then Err Decompression
      else
        and_then (digest_finish crc (digest_update (DigestState_new expected_crc) bs)) (\<lambda>_.
          Ok \<lparr>df_bytes = bs, df_layout = layout\<rparr>))"

text \<open>\<open>ReadyFolder::collect\<close>; the outer \<open>None\<close> is a decoder that does not return.\<close>

definition collect :: "(bytes \<Rightarrow> u32) \<Rightarrow> (nat \<Rightarrow> nat) \<Rightarrow> 'r reader \<Rightarrow>
    ('d \<Rightarrow> OperationBudget \<Rightarrow> 'r FolderReader r7z_result \<times> OperationBudget) \<Rightarrow>
    'd ReadyFolder \<Rightarrow> u64 \<Rightarrow> OperationBudget \<Rightarrow> (DecodedFolder r7z_result \<times> OperationBudget) option" where
  "collect crc chunk rd start_decoder self limit budget =
     (case (and_then (ok_or (LimitExceeded ''metadata'') (usize_try_from (rf_unpack_size self))) (\<lambda>capacity.
            and_then (ok_or (LimitExceeded ''metadata'') (u64_checked_add (rf_unpack_size self) 1)) (\<lambda>read_limit.
              if rf_unpack_size self > limit then Err (LimitExceeded ''metadata'') else Ok read_limit))) of
        Err e \<Rightarrow> Some (Err e, budget)
      | Ok read_limit \<Rightarrow>
          (case start_decoder (rf_decoder self) budget of
             (Err e, budget) \<Rightarrow> Some (Err e, budget)
           | (Ok reader, budget) \<Rightarrow>
               map_option (\<lambda>bytes. (and_then bytes (\<lambda>bytes.
                   verify_folder_output crc (rf_layout self) (rf_unpack_size self) (rf_crc self) bytes), budget))
                 (read_bounded_to_vec chunk rd reader read_limit)))"

text \<open>\<open>Bytes::slice\<close> panics outside of the bytes.\<close>

definition bytes_slice :: "bytes \<Rightarrow> nat \<Rightarrow> nat \<Rightarrow> bytes option" where
  "bytes_slice bs s e = (if s \<le> e \<and> e \<le> length bs then Some (take (e - s) (drop s bs)) else None)"

text \<open>
  \<open>DecodedFolder::streams\<close> under the loop of \<open>ExternalFolderCollector::append\<close>: \<open>k\<close> items
  are left. The outer \<open>None\<close> is a panic.
\<close>

fun append_streams :: "(bytes \<Rightarrow> u32) \<Rightarrow> bytes \<Rightarrow> nat \<Rightarrow> Substreams \<Rightarrow> bytes list \<Rightarrow> bytes list r7z_result option" where
  "append_streams crc data 0 streams out = Some (Ok out)"
| "append_streams crc data (Suc k) streams out =
     Option.bind (substreams_next streams) (\<lambda>(item, streams).
       case item of
         None \<Rightarrow> Some (Ok out)
       | Some s \<Rightarrow>
           Option.bind (bytes_slice data (unat (br_start (ss_range s))) (unat (br_end (ss_range s)))) (\<lambda>stream.
             if (case ss_digest s of None \<Rightarrow> False | Some e \<Rightarrow> crc stream \<noteq> e) then Some (Err Crc)
             else append_streams crc data k streams (out @ [stream])))"

record ExternalFolderCollector =
  ec_data :: "bytes list"
  ec_remaining :: nat

definition ExternalFolderData_reserve :: "nat \<Rightarrow> ExternalFolderCollector" where
  "ExternalFolderData_reserve stream_count = \<lparr>ec_data = [], ec_remaining = stream_count\<rparr>"

definition collector_append :: "(bytes \<Rightarrow> u32) \<Rightarrow> ExternalFolderCollector \<Rightarrow> DecodedFolder \<Rightarrow>
    ExternalFolderCollector r7z_result option" where
  "collector_append crc self folder =
     (case checked_sub (ec_remaining self) (layout_len (df_layout folder)) of
        None \<Rightarrow> Some (Err Parse)
      | Some remaining \<Rightarrow>
          map_option (\<lambda>data. and_then data (\<lambda>data. Ok \<lparr>ec_data = data, ec_remaining = remaining\<rparr>))
            (append_streams crc (df_bytes folder) (layout_len (df_layout folder))
               (layout_streams (df_layout folder)) (ec_data self)))"

definition collector_finish :: "ExternalFolderCollector \<Rightarrow> bytes list r7z_result" where
  "collector_finish self = (if ec_remaining self = 0 then Ok (ec_data self) else Err Parse)"


section \<open>What a substream reader accounts for\<close>

lemma digest_update_append [simp]: "digest_update (digest_update d a) b = digest_update d (a @ b)"
  by (cases d) simp_all

lemma digest_update_nil [simp]: "digest_update d [] = d"
  by (cases d) simp_all

lemma digest_verified:
  "digest_finish crc (digest_update (DigestState_new d) bs) = Ok () \<longleftrightarrow> (\<forall>e. d = Some e \<longrightarrow> crc bs = e)"
  by (cases d) auto

text \<open>
  From \<open>s0\<close> to \<open>s\<close> the decoder delivered \<open>bs\<close>, and all counters know exactly that: the remaining
  length, the decoded length, both digests, and the budget if it is charged.
\<close>

definition counts :: "'r SubstreamReader \<Rightarrow> bytes \<Rightarrow> 'r SubstreamReader \<Rightarrow> bool" where
  "counts s0 bs s \<longleftrightarrow>
     unat (sr_remaining s0) = length bs + unat (sr_remaining s) \<and>
     unat (sr_decoded_len s) = unat (sr_decoded_len s0) + length bs \<and>
     sr_folder_digest s = digest_update (sr_folder_digest s0) bs \<and>
     sr_stream_digest s = digest_update (sr_stream_digest s0) bs \<and>
     sr_charge_budget s = sr_charge_budget s0 \<and>
     limits (sr_budget s) = limits (sr_budget s0) \<and>
     unat (decoded (sr_budget s)) =
       (if sr_charge_budget s0 then min (usize_limit - 1) (unat (decoded (sr_budget s0)) + length bs)
        else unat (decoded (sr_budget s0)))"

text \<open>No sum overflows and the budget is within its limit.\<close>

definition room :: "'r SubstreamReader \<Rightarrow> bool" where
  "room s \<longleftrightarrow> unat (sr_decoded_len s) + unat (sr_remaining s) < usize_limit \<and>
     at_most (decoded (sr_budget s)) (max_total_decoded_bytes (limits (sr_budget s)))"

lemma counts_refl: "counts s [] s"
  using unat_u64_less [of "decoded (sr_budget s)"] by (simp add: counts_def)

lemma counts_trans: "counts s0 a s1 \<Longrightarrow> counts s1 b s2 \<Longrightarrow> counts s0 (a @ b) s2"
  by (auto simp: counts_def)

lemma allowed_charge:
  assumes "allowed_bytes True b = Some k" and "n \<le> k" and "n < usize_limit"
    and "at_most (decoded b) (max_total_decoded_bytes (limits b))"
  obtains b' where "charge_decoded b (of_nat n) = Ok b'" "limits b' = limits b" "monitor b' = monitor b"
    "unat (decoded b') = min (usize_limit - 1) (unat (decoded b) + n)"
    "at_most (decoded b') (max_total_decoded_bytes (limits b'))"
proof -
  have n: "unat (of_nat n :: u64) = n" using assms(3) by (simp add: unat_of_nat)
  show thesis
  proof (cases "max_total_decoded_bytes (limits b)")
    case None
    show thesis
    proof (cases "unat (decoded b) + n < usize_limit")
      case True
      then show thesis
        using None n unat_add_fits [of "decoded b" "of_nat n"]
        by (intro that [of "b\<lparr>decoded := decoded b + of_nat n\<rparr>"])
           (simp_all add: charge_decoded_def next_decoded_def u64_checked_add_def at_most_def)
    next
      case False
      then show thesis
        using None n
        by (intro that [of "b\<lparr>decoded := - 1\<rparr>"])
           (simp_all add: charge_decoded_def next_decoded_def u64_checked_add_def at_most_def unat_u64_max)
    qed
  next
    case (Some limit)
    then have "decoded b \<le> limit" "k = unat (limit - decoded b)"
      using assms(1,4) by (auto simp: at_most_def allowed_bytes_def decoded_remaining_def split: if_splits)
    then have le: "unat (decoded b) + n \<le> unat limit"
      using assms(2) by (simp add: unat_sub word_le_nat_alt)
    then have fits: "unat (decoded b) + n < usize_limit" using unat_u64_less [of limit] by linarith
    then show thesis
      using Some n le unat_add_fits [of "decoded b" "of_nat n"]
      by (intro that [of "b\<lparr>decoded := decoded b + of_nat n\<rparr>"])
         (simp_all add: charge_decoded_def next_decoded_def u64_checked_add_def at_most_def word_le_nat_alt word_less_nat_alt)
  qed
qed

lemma account_read_counts:
  assumes acc: "account_read s bs = (answer, s')" and "room s" and len: "length bs \<le> unat (sr_remaining s)"
    and allowed: "allowed_bytes (sr_charge_budget s) (sr_budget s) = Some k" "length bs \<le> k"
  shows "counts s bs s' \<and> room s' \<and> sr_reader s' = sr_reader s \<and> (\<forall>ds. answer = Ok ds \<longrightarrow> ds = bs) \<and>
    (sr_limit_exceeded s' \<longleftrightarrow> sr_limit_exceeded s)"
proof -
  let ?n = "of_nat (length bs) :: u64"
  have lim: "length bs < usize_limit" using len unat_u64_less [of "sr_remaining s"] by linarith
  then have n: "unat ?n = length bs" by (simp add: unat_of_nat)
  have rem: "unat (sr_remaining s - ?n) = unat (sr_remaining s) - length bs"
    by (rule unat_sub_length [OF len])
  have dl: "u64_checked_add (sr_decoded_len s) ?n = Some (sr_decoded_len s + ?n)"
    "unat (sr_decoded_len s + ?n) = unat (sr_decoded_len s) + length bs"
    using \<open>room s\<close> len n unat_add_fits [of "sr_decoded_len s" ?n]
    by (simp_all add: room_def u64_checked_add_def)
  show ?thesis
  proof (cases "sr_charge_budget s")
    case False
    then show ?thesis
      using acc dl rem len \<open>room s\<close> by (auto simp: account_read_def Let_def counts_def room_def)
  next
    case True
    then obtain b' where b': "charge_decoded (sr_budget s) ?n = Ok b'" "limits b' = limits (sr_budget s)"
      "unat (decoded b') = min (usize_limit - 1) (unat (decoded (sr_budget s)) + length bs)"
      "at_most (decoded b') (max_total_decoded_bytes (limits b'))"
      using allowed_charge [of "sr_budget s" k "length bs"] allowed lim \<open>room s\<close> unfolding room_def by metis
    obtain v m where adv: "monitor_advance (monitor b') (length bs) = (v, m)"
      by (cases "monitor_advance (monitor b') (length bs)")
    show ?thesis
      using acc dl rem len \<open>room s\<close> True b' adv
      by (cases v) (auto simp: account_read_def Let_def counts_def room_def)
  qed
qed

lemma min_eq_0_nat [simp]: "min a b = (0 :: nat) \<longleftrightarrow> a = 0 \<or> b = 0"
  by linarith

lemma SubstreamReader_read_counts:
  assumes "read_contract rd" and read: "SubstreamReader_read rd s n = (answer, s')" and "room s"
  shows "\<exists>bs. counts s bs s' \<and> room s' \<and> delivers rd (sr_reader s) bs (sr_reader s') \<and>
    (\<forall>ds. answer = Ok ds \<longrightarrow> ds = bs \<and> (ds = [] \<longrightarrow> 0 < n \<longrightarrow> sr_remaining s' = 0))"
proof -
  have keep: "counts s [] t \<and> room t" if "t = s\<lparr>sr_reader := r\<rparr> \<or> t = s\<lparr>sr_limit_exceeded := True\<rparr> \<or> t = s" for t r
    using that \<open>room s\<close> counts_refl [of s] by (auto simp: counts_def room_def)
  let ?limit = "min (unat (sr_remaining s)) n"
  consider (check) e where "monitor_check (monitor (sr_budget s)) = Err e"
    | (nothing) "is_ok (monitor_check (monitor (sr_budget s)))" "?limit = 0"
    | (exhausted) "is_ok (monitor_check (monitor (sr_budget s)))" "?limit \<noteq> 0"
        "allowed_bytes (sr_charge_budget s) (sr_budget s) = None"
    | (read) k r a where "is_ok (monitor_check (monitor (sr_budget s)))" "?limit \<noteq> 0"
        "allowed_bytes (sr_charge_budget s) (sr_budget s) = Some k"
        "rd (sr_reader s) (buffer_size (monitor (sr_budget s)) (min ?limit k)) = (a, r)"
    by (metis is_ok.elims(3) option.exhaust surj_pair)
  then show ?thesis
  proof cases
    case check
    then show ?thesis
      using read keep [of s] by (intro exI [of _ "[]"]) (auto simp: SubstreamReader_read_def delivers_nil)
  next
    case nothing
    then show ?thesis
      using read keep [of s]
      by (intro exI [of _ "[]"]) (auto simp: SubstreamReader_read_def delivers_nil is_ok_iff unat_eq_zero)
  next
    case exhausted
    then show ?thesis
      using read keep [of "s\<lparr>sr_limit_exceeded := True\<rparr>"]
      by (intro exI [of _ "[]"]) (auto simp: SubstreamReader_read_def delivers_nil is_ok_iff Let_def)
  next
    case (read k r a)
    note rd = read
    show ?thesis
    proof (cases a)
      case (Err e)
      then show ?thesis
        using assms(2) rd keep [of "s\<lparr>sr_reader := r\<rparr>" r] delivers_err [OF delivers_nil, of rd "sr_reader s"]
        by (intro exI [of _ "[]"]) (auto simp: SubstreamReader_read_def is_ok_iff Let_def)
    next
      case (Ok bs)
      have got: "delivers rd (sr_reader s) bs r"
        using delivers_ok [OF delivers_nil, of rd "sr_reader s"] rd(4) Ok by fastforce
      show ?thesis
      proof (cases "bs = []")
        case True
        then show ?thesis
          using assms(2) rd keep [of "s\<lparr>sr_reader := r\<rparr>" r] got Ok
          by (intro exI [of _ "[]"]) (auto simp: SubstreamReader_read_def is_ok_iff Let_def)
      next
        case False
        let ?s = "s\<lparr>sr_reader := r\<rparr>"
        have len: "length bs \<le> min ?limit k"
          using read_contract.fits [OF assms(1) rd(4) [unfolded Ok]]
          by (auto simp: buffer_size_def split: option.splits)
        have "account_read ?s bs = (answer, s')"
          using assms(2) rd Ok False by (auto simp: SubstreamReader_read_def is_ok_iff Let_def)
        from account_read_counts [OF this, of k] len \<open>room s\<close> rd(3)
        have "counts ?s bs s' \<and> room s' \<and> sr_reader s' = r \<and> (\<forall>ds. answer = Ok ds \<longrightarrow> ds = bs)"
          by (auto simp: room_def)
        then show ?thesis
          using got False by (intro exI [of _ bs]) (auto simp: counts_def)
      qed
    qed
  qed
qed


section \<open>One substream\<close>

definition read_so_far :: "'r reader \<Rightarrow> 'r SubstreamReader \<Rightarrow> 'r SubstreamReader \<Rightarrow> bool" where
  "read_so_far rd s0 s \<longleftrightarrow>
     room s \<and> (\<exists>bs. counts s0 bs s \<and> delivers rd (sr_reader s0) bs (sr_reader s))"

lemma read_so_far_step:
  assumes "read_contract rd" and "read_so_far rd s0 s" and "SubstreamReader_read rd s n = (answer, s')"
  shows "read_so_far rd s0 s'"
  using SubstreamReader_read_counts [OF assms(1,3)] assms(2) counts_trans delivers_append
  unfolding read_so_far_def by metis

lemma run_callback_read:
  assumes "read_contract rd" and "room s0"
    and "run_callback (SubstreamReader_read rd) cb c s0 = Some (result, c', s)"
  shows "read_so_far rd s0 s"
proof -
  have "read_so_far rd s0 s0"
    unfolding read_so_far_def by (intro conjI exI [of _ "[]"] assms(2) counts_refl delivers_nil)
  moreover have "read_so_far rd s0 s'" if "read_so_far rd s0 s" "SubstreamReader_read rd s n = (answer, s')"
    for s n answer s'
    using read_so_far_step [OF assms(1) that] .
  ultimately show ?thesis
    using run_callback_invariant [where I = "read_so_far rd s0" and rd = "SubstreamReader_read rd", OF _ assms(3)] by metis
qed

lemma finish_stream_read:
  assumes "read_contract rd" and "read_so_far rd s0 s"
    and "finish_stream crc rd cr s = Some (result, s')"
  shows "read_so_far rd s0 s' \<and>
    (result = Ok () \<longrightarrow> sr_remaining s' = 0 \<and> digest_finish crc (sr_stream_digest s') = Ok ())"
proof -
  have step: "read_so_far rd s0 s'" if "read_so_far rd s0 s" "SubstreamReader_read rd s n = (answer, s')"
    for s n answer s'
    using read_so_far_step [OF assms(1) that] .
  have "read_so_far rd s0 t" if "drain (SubstreamReader_read rd) s = Some (r, t)" for r t
    using drain_invariant [where I = "read_so_far rd s0" and rd = "SubstreamReader_read rd", OF _ that assms(2)] step
    by metis
  then show ?thesis
    using assms(2,3)
    by (cases "map_err restore_callback_error cr")
       (auto simp: finish_stream_def bind_eq_Some_conv split: if_splits)
qed

text \<open>The folder's position, offset and decoded length agree with the sizes of its substreams.\<close>

definition active_ok :: "'r ActiveFolder \<Rightarrow> bool" where
  "active_ok self \<longleftrightarrow>
     (let l = ss_layout (af_streams self) in
      position self \<le> layout_len l \<and> sizes_total (layout_sizes l) < usize_limit \<and>
      unat (ss_offset (af_streams self)) = sizes_total (take (position self) (layout_sizes l)) \<and>
      af_decoded_len self = ss_offset (af_streams self))"

definition within_limit :: "OperationBudget \<Rightarrow> bool" where
  "within_limit b \<longleftrightarrow> at_most (decoded b) (max_total_decoded_bytes (limits b))"

text \<open>The next substream was delivered whole, and it is what the header says.\<close>

definition stream_done :: "(bytes \<Rightarrow> u32) \<Rightarrow> 'r reader \<Rightarrow> 'r ActiveFolder \<Rightarrow> bytes \<Rightarrow> 'r ActiveFolder \<Rightarrow> bool" where
  "stream_done crc rd self bs self' \<longleftrightarrow>
     (let l = ss_layout (af_streams self); k = position self in
      k < layout_len l \<and> delivers rd (af_reader self) bs (af_reader self') \<and>
      length bs = unat (layout_sizes l ! k) \<and>
      (\<forall>d. digest_at (fsl_digests l) k = Some d \<longrightarrow> crc bs = d) \<and>
      af_digest self' = digest_update (af_digest self) bs \<and>
      position self' = Suc k \<and> ss_layout (af_streams self') = l \<and>
      af_unpack_size self' = af_unpack_size self \<and> af_budgeted_eagerly self' = af_budgeted_eagerly self)"

lemma sizes_total_take_Suc:
  "k < length xs \<Longrightarrow> sizes_total (take (Suc k) xs) = sizes_total (take k xs) + unat (xs ! k)"
  by (simp add: take_Suc_conv_app_nth)

lemma sizes_total_take_le: "sizes_total (take k xs) \<le> sizes_total xs"
  using sizes_total_simps(3) [of "take k xs" "drop k xs"] by simp

text \<open>The reader of the next substream, and what the folder is once all of it was read.\<close>

lemma next_substream:
  assumes ok: "active_ok self" and k: "position self < layout_len (ss_layout (af_streams self))"
  shows "\<exists>stream streams. substreams_next (af_streams self) = Some (Some stream, streams) \<and>
    (within_limit budget \<longrightarrow> room (substream_reader self stream budget)) \<and>
    (\<forall>bs s. counts (substream_reader self stream budget) bs s \<longrightarrow> delivers rd (af_reader self) bs (sr_reader s) \<longrightarrow>
       sr_remaining s = 0 \<longrightarrow> digest_finish crc (sr_stream_digest s) = Ok () \<longrightarrow>
       active_ok (put_back self streams s) \<and> stream_done crc rd self bs (put_back self streams s))"
proof -
  let ?l = "ss_layout (af_streams self)" let ?k = "position self" let ?off = "ss_offset (af_streams self)"
  let ?n = "layout_sizes ?l ! ?k"
  have "sizes_total (take (Suc ?k) (layout_sizes ?l)) < usize_limit"
    using ok sizes_total_take_le [of "Suc ?k" "layout_sizes ?l"] by (simp add: active_ok_def Let_def)
  then have fits: "unat ?off + unat ?n < usize_limit"
    using ok k by (simp add: active_ok_def Let_def sizes_total_take_Suc layout_len_sizes)
  from substreams_next_tile [OF k fits] obtain r where
    r: "span r = (unat ?off, unat ?off + unat ?n)" and
    step: "substreams_next (af_streams self) =
      Some (Some \<lparr>ss_range = r, ss_digest = digest_at (fsl_digests ?l) ?k\<rparr>,
        \<lparr>ss_layout = ?l, ss_position = Suc ?k, ss_offset = ?off + ?n\<rparr>)"
    by (metis (full_types) Substreams.surjective old.unit.exhaust position_def)
  let ?stream = "\<lparr>ss_range = r, ss_digest = digest_at (fsl_digests ?l) ?k\<rparr>"
  let ?streams = "\<lparr>ss_layout = ?l, ss_position = Suc ?k, ss_offset = ?off + ?n\<rparr>"
  let ?s0 = "substream_reader self ?stream budget"
  have len: "unat (ByteRange_len r) = unat ?n"
    using r by (simp add: ByteRange_len_def span_def unat_sub word_le_nat_alt)
  have room: "within_limit budget \<longrightarrow> room ?s0"
    using fits ok len by (simp add: room_def substream_reader_def within_limit_def active_ok_def Let_def)
  have "active_ok (put_back self ?streams s) \<and> stream_done crc rd self bs (put_back self ?streams s)"
    if s: "counts ?s0 bs s" "delivers rd (af_reader self) bs (sr_reader s)" "sr_remaining s = 0"
      "digest_finish crc (sr_stream_digest s) = Ok ()" for bs s
  proof
    have all: "length bs = unat ?n" using s(1,3) len by (simp add: counts_def substream_reader_def)
    have crc: "\<forall>d. digest_at (fsl_digests ?l) ?k = Some d \<longrightarrow> crc bs = d"
      using s(1,4) by (simp add: counts_def substream_reader_def digest_verified)
    have "sr_decoded_len s = ?off + ?n"
      using s(1) all ok unat_add_fits [OF fits]
      by (simp add: counts_def substream_reader_def active_ok_def Let_def word_unat_eq_iff)
    then show "active_ok (put_back self ?streams s)"
      using ok k unat_add_fits [OF fits]
      by (simp add: active_ok_def Let_def put_back_def position_def sizes_total_take_Suc layout_len_sizes)
    show "stream_done crc rd self bs (put_back self ?streams s)"
      using k s(1,2) all crc by (simp add: stream_done_def Let_def put_back_def position_def counts_def substream_reader_def)
  qed
  with step room show ?thesis by blast
qed

lemma read_stream_step:
  assumes contract: "read_contract rd" and ok: "active_ok self" and budget: "within_limit budget"
    and read: "read_stream crc rd self budget cb c = Some (result, budget', c')"
  shows "within_limit budget' \<and> limits budget' = limits budget \<and>
    (\<forall>self'. result = Ok self' \<longrightarrow> active_ok self' \<and> (\<exists>bs. stream_done crc rd self bs self' \<and>
       unat (decoded budget') = (if af_budgeted_eagerly self then unat (decoded budget)
         else min (usize_limit - 1) (unat (decoded budget) + length bs))))"
proof (cases "position self < layout_len (ss_layout (af_streams self))")
  case False
  then have "substreams_next (af_streams self) = Some (None, af_streams self)"
    using ok by (simp add: active_ok_def Let_def substreams_next_def position_def)
  then show ?thesis using read budget by (auto simp: read_stream_def)
next
  case k: True
  from next_substream [OF ok k, of budget rd crc] obtain stream streams where
    step: "substreams_next (af_streams self) = Some (Some stream, streams)" and
    room: "room (substream_reader self stream budget)" and
    put_back: "\<And>bs s. counts (substream_reader self stream budget) bs s \<Longrightarrow> delivers rd (af_reader self) bs (sr_reader s) \<Longrightarrow>
      sr_remaining s = 0 \<Longrightarrow> digest_finish crc (sr_stream_digest s) = Ok () \<Longrightarrow>
      active_ok (put_back self streams s) \<and> stream_done crc rd self bs (put_back self streams s)"
    using budget by blast
  let ?s0 = "substream_reader self stream budget"
  obtain cr s1 res s2 where
    cb: "run_callback (SubstreamReader_read rd) cb c ?s0 = Some (cr, c', s1)" and
    fin: "finish_stream crc rd cr s1 = Some (res, s2)" and
    result: "result = and_then res (\<lambda>_. Ok (put_back self streams s2))" "budget' = sr_budget s2"
    using read step by (auto simp: read_stream_def bind_eq_Some_conv)
  note all_read = finish_stream_read [OF contract run_callback_read [OF contract room cb] fin]
  then obtain bs where bs: "counts ?s0 bs s2" "delivers rd (af_reader self) bs (sr_reader s2)" "room s2"
    by (auto simp: read_so_far_def substream_reader_def)
  have "within_limit budget'" "limits budget' = limits budget"
    "unat (decoded budget') = (if af_budgeted_eagerly self then unat (decoded budget)
       else min (usize_limit - 1) (unat (decoded budget) + length bs))"
    using bs result by (simp_all add: room_def within_limit_def counts_def substream_reader_def)
  moreover have "active_ok self' \<and> stream_done crc rd self bs self'" if "result = Ok self'" for self'
  proof -
    have "res = Ok ()" "self' = put_back self streams s2" using that result by auto
    then show ?thesis using put_back [OF bs(1,2)] all_read by blast
  qed
  ultimately show ?thesis by blast
qed


section \<open>Sequences of substreams\<close>

inductive streams_done :: "(bytes \<Rightarrow> u32) \<Rightarrow> 'r reader \<Rightarrow> 'r ActiveFolder \<Rightarrow> bytes list \<Rightarrow> 'r ActiveFolder \<Rightarrow> bool"
  for crc rd where
  streams_nil: "streams_done crc rd self [] self"
| streams_cons: "stream_done crc rd self bs mid \<Longrightarrow> streams_done crc rd mid chunks self' \<Longrightarrow>
    streams_done crc rd self (bs # chunks) self'"

lemma streams_done_append:
  "streams_done crc rd self xs mid \<Longrightarrow> streams_done crc rd mid ys self' \<Longrightarrow> streams_done crc rd self (xs @ ys) self'"
  by (induction rule: streams_done.induct) (auto intro: streams_done.intros)

text \<open>What a run of substreams adds up to.\<close>

lemma streams_done_summary:
  assumes "streams_done crc rd self chunks self'"
  shows "delivers rd (af_reader self) (concat chunks) (af_reader self') \<and>
    af_digest self' = digest_update (af_digest self) (concat chunks) \<and>
    position self' = position self + length chunks \<and>
    ss_layout (af_streams self') = ss_layout (af_streams self) \<and>
    af_unpack_size self' = af_unpack_size self \<and> af_budgeted_eagerly self' = af_budgeted_eagerly self \<and>
    map length chunks = map unat (take (length chunks) (drop (position self) (layout_sizes (ss_layout (af_streams self))))) \<and>
    (\<forall>i < length chunks. \<forall>d. digest_at (fsl_digests (ss_layout (af_streams self))) (position self + i) = Some d \<longrightarrow>
       crc (chunks ! i) = d)"
  using assms
proof (induction rule: streams_done.induct)
  case (streams_cons self bs mid chunks self')
  let ?l = "ss_layout (af_streams self)" let ?k = "position self"
  note d = streams_cons(1) [unfolded stream_done_def Let_def]
  have "take (Suc (length chunks)) (drop ?k (layout_sizes ?l)) =
      layout_sizes ?l ! ?k # take (length chunks) (drop (Suc ?k) (layout_sizes ?l))"
    using d by (simp add: layout_len_sizes Cons_nth_drop_Suc [symmetric])
  moreover have "\<forall>i < length (bs # chunks). \<forall>e. digest_at (fsl_digests ?l) (?k + i) = Some e \<longrightarrow>
      crc ((bs # chunks) ! i) = e"
    using d streams_cons.IH by (auto simp: less_Suc_eq_0_disj)
  ultimately show ?case
    using d streams_cons.IH delivers_append [of rd "af_reader mid" "concat chunks" "af_reader self'"] by auto
qed (simp add: delivers_nil)

text \<open>
  A client that reads the next substreams one after the other, each with a callback of its own.
\<close>

fun read_streams :: "(bytes \<Rightarrow> u32) \<Rightarrow> 'r reader \<Rightarrow> ('c callback \<times> 'c) list \<Rightarrow> 'r ActiveFolder \<Rightarrow>
    OperationBudget \<Rightarrow> ('r ActiveFolder r7z_result \<times> OperationBudget) option" where
  "read_streams crc rd [] self budget = Some (Ok self, budget)"
| "read_streams crc rd ((cb, c) # cbs) self budget =
     Option.bind (read_stream crc rd self budget cb c) (\<lambda>(result, budget, _).
       case result of
         Err e \<Rightarrow> Some (Err e, budget)
       | Ok self \<Rightarrow> read_streams crc rd cbs self budget)"

lemma skip_streams_read: "skip_streams crc rd k = read_streams crc rd (replicate k (consume_nothing, ()))"
  by (intro ext, induction k) (auto split: prod.splits result.splits intro: bind_option_cong)

lemma read_streams_done:
  assumes "read_contract rd" and "active_ok self" and "within_limit budget"
    and "read_streams crc rd cbs self budget = Some (result, budget')"
  shows "within_limit budget' \<and> limits budget' = limits budget \<and>
    (\<forall>self'. result = Ok self' \<longrightarrow> active_ok self' \<and>
       (\<exists>chunks. streams_done crc rd self chunks self' \<and> length chunks = length cbs \<and>
          unat (decoded budget') = (if af_budgeted_eagerly self then unat (decoded budget)
            else min (usize_limit - 1) (unat (decoded budget) + length (concat chunks)))))"
  using assms(2-4)
proof (induction cbs arbitrary: self budget)
  case Nil
  then show ?case
    using streams_nil unat_u64_less [of "decoded budget"] by (fastforce intro: exI [of _ "[]"])
next
  case (Cons cbc cbs)
  obtain cb c where cbc: "cbc = (cb, c)" by (cases cbc)
  from Cons.prems(3) obtain r b c' where step: "read_stream crc rd self budget cb c = Some (r, b, c')"
    and rest: "(case r of Err e \<Rightarrow> Some (Err e, b) | Ok self \<Rightarrow> read_streams crc rd cbs self b) = Some (result, budget')"
    by (auto simp: cbc bind_eq_Some_conv)
  note s = read_stream_step [OF assms(1) Cons.prems(1,2) step]
  show ?case
  proof (cases r)
    case (Err e)
    then show ?thesis using s rest by auto
  next
    case (Ok mid)
    from s Ok obtain bs where mid: "active_ok mid" "stream_done crc rd self bs mid"
      "unat (decoded b) = (if af_budgeted_eagerly self then unat (decoded budget)
         else min (usize_limit - 1) (unat (decoded budget) + length bs))" by blast
    have eager: "af_budgeted_eagerly mid = af_budgeted_eagerly self"
      using mid(2) by (simp add: stream_done_def Let_def)
    have "read_streams crc rd cbs mid b = Some (result, budget')" using rest Ok by simp
    note IH = Cons.IH [OF mid(1) s [THEN conjunct1] this]
    show ?thesis
    proof (intro conjI allI impI)
      fix self' assume "result = Ok self'"
      with IH obtain chunks where c: "streams_done crc rd mid chunks self'" "length chunks = length cbs"
        "unat (decoded budget') = (if af_budgeted_eagerly mid then unat (decoded b)
          else min (usize_limit - 1) (unat (decoded b) + length (concat chunks)))" by blast
      show "\<exists>chunks. streams_done crc rd self chunks self' \<and> length chunks = length (cbc # cbs) \<and>
          unat (decoded budget') = (if af_budgeted_eagerly self then unat (decoded budget)
            else min (usize_limit - 1) (unat (decoded budget) + length (concat chunks)))"
        using streams_cons [OF mid(2) c(1)] c(2,3) mid(3) eager by (intro exI [of _ "bs # chunks"]) auto
    qed (use IH s in auto)
  qed
qed


section \<open>Starting and finishing\<close>

lemma ReadyFolder_start_Ok:
  assumes "ReadyFolder_start eager start_decoder self budget = (Ok f, b)"
  shows "af_streams f = layout_streams (rf_layout self) \<and> af_digest f = DigestState_new (rf_crc self) \<and>
    af_decoded_len f = 0 \<and> af_unpack_size f = rf_unpack_size self \<and>
    (af_budgeted_eagerly f \<longleftrightarrow> eager (rf_decoder self) \<noteq> None)"
  using assms by (auto simp: ReadyFolder_start_def Let_def split: prod.splits)

lemma started_ok:
  assumes "af_streams f = layout_streams layout" and "af_decoded_len f = 0"
    and "FolderStreamLayout_new len count explicit digests = Ok layout"
  shows "active_ok f"
proof -
  have "sizes_total (layout_sizes layout) < usize_limit"
    using FolderStreamLayout_new_Ok [OF assms(3)] unat_u64_less [of len] by (auto split: if_splits)
  then show ?thesis using assms(1,2) by (simp add: active_ok_def position_def layout_streams_def)
qed

lemma finish_complete:
  assumes "read_contract rd" and "active_ok f" and "within_limit b"
    and "finish crc rd f mode b = Some (Ok CompleteFolders, b')"
  shows "\<exists>chunks g. streams_done crc rd f chunks g \<and> length chunks = substreams_len (af_streams f) \<and>
    af_decoded_len g = af_unpack_size f \<and> active_ok g \<and> fst (rd (af_reader g) 1) = Ok [] \<and>
    digest_finish crc (af_digest g) = Ok () \<and>
    unat (decoded b') = (if af_budgeted_eagerly f then unat (decoded b)
      else min (usize_limit - 1) (unat (decoded b) + length (concat chunks)))"
proof -
  from assms(4) obtain r where run: "skip_streams crc rd (substreams_len (af_streams f)) f b = Some (r, b')"
    and res: "and_then r (\<lambda>folder.
            if af_decoded_len folder \<noteq> af_unpack_size folder then Err Decompression
            else
              and_then (map_err restore_read_error (fst (rd (af_reader folder) 1))) (\<lambda>extra.
                if extra \<noteq> [] then Err Decompression
                else and_then (digest_finish crc (af_digest folder)) (\<lambda>_. Ok CompleteFolders))) = Ok CompleteFolders"
    by (auto simp: finish_def bind_eq_Some_conv split: if_splits)
  then obtain g where g: "r = Ok g" "af_decoded_len g = af_unpack_size g"
    "fst (rd (af_reader g) 1) = Ok []" "digest_finish crc (af_digest g) = Ok ()"
    by (auto split: if_splits)
  from read_streams_done [OF assms(1-3) run [unfolded skip_streams_read]] g(1) obtain chunks where
    c: "active_ok g" "streams_done crc rd f chunks g" "length chunks = substreams_len (af_streams f)"
      "unat (decoded b') = (if af_budgeted_eagerly f then unat (decoded b)
        else min (usize_limit - 1) (unat (decoded b) + length (concat chunks)))"
    by auto
  then show ?thesis using g streams_done_summary [OF c(2)] by (intro exI [of _ chunks] exI [of _ g]) auto
qed

lemma active_ok_decoded:
  "active_ok f \<Longrightarrow> unat (af_decoded_len f) = sizes_total (take (position f) (layout_sizes (ss_layout (af_streams f))))"
  by (simp add: active_ok_def Let_def)


section \<open>Reading returns\<close>

locale uninterrupted = read_contract +
  assumes uninterrupted: "rd r n = (Err e, r') \<Longrightarrow> e \<noteq> IoKind Interrupted"
begin

lemma SubstreamReader_read_progress:
  assumes "SubstreamReader_read rd s n = (answer, s')"
  shows "answer \<noteq> Err (IoKind Interrupted)"
    and "answer = Ok bs \<Longrightarrow> bs \<noteq> [] \<Longrightarrow> unat (sr_remaining s') < unat (sr_remaining s)"
proof -
  have not_int: "read_io_error e \<noteq> IoKind Interrupted" for e
    by (cases e rule: read_io_error.cases) simp_all
  have acc: "fst (account_read t cs) \<noteq> Err (IoKind Interrupted) \<and>
      sr_remaining (snd (account_read t cs)) = sr_remaining t - of_nat (length cs) \<and>
      (\<forall>ds. fst (account_read t cs) = Ok ds \<longrightarrow> ds = cs)" for t :: "'a SubstreamReader" and cs
    using not_int by (auto simp: account_read_def Let_def split: result.splits option.splits prod.splits)
  have "answer \<noteq> Err (IoKind Interrupted) \<and>
      (\<forall>bs. answer = Ok bs \<longrightarrow> bs \<noteq> [] \<longrightarrow> unat (sr_remaining s') < unat (sr_remaining s))"
  proof (cases "is_ok (monitor_check (monitor (sr_budget s))) \<and> sr_remaining s \<noteq> 0 \<and> n \<noteq> 0 \<and>
      allowed_bytes (sr_charge_budget s) (sr_budget s) \<noteq> None")
    case False
    then show ?thesis
      using assms not_int
      by (cases "allowed_bytes (sr_charge_budget s) (sr_budget s)")
         (auto simp: SubstreamReader_read_def is_ok_iff unat_eq_zero split: result.splits if_splits)
  next
    case True
    then obtain k where k: "allowed_bytes (sr_charge_budget s) (sr_budget s) = Some k" by blast
    obtain a r where rd: "rd (sr_reader s) (buffer_size (monitor (sr_budget s)) (min (min (unat (sr_remaining s)) n) k)) = (a, r)"
      by (cases "rd (sr_reader s) (buffer_size (monitor (sr_budget s)) (min (min (unat (sr_remaining s)) n) k))")
    show ?thesis
    proof (cases a)
      case (Err e)
      then show ?thesis
        using assms True k rd uninterrupted by (auto simp: SubstreamReader_read_def is_ok_iff Let_def unat_eq_zero)
    next
      case (Ok cs)
      have len: "length cs \<le> unat (sr_remaining s)"
        using fits [OF rd [unfolded Ok]] by (auto simp: buffer_size_def split: option.splits)
      have read: "(answer, s') = (if cs = [] then (Err (IoKind UnexpectedEof), s\<lparr>sr_reader := r\<rparr>)
          else account_read (s\<lparr>sr_reader := r\<rparr>) cs)"
        using assms True k rd Ok by (auto simp: SubstreamReader_read_def is_ok_iff Let_def unat_eq_zero)
      show ?thesis
      proof (cases "cs = []")
        case False
        then have "unat (sr_remaining s) - length cs < unat (sr_remaining s)"
          using len by (cases cs) auto
        moreover have "answer = fst (account_read (s\<lparr>sr_reader := r\<rparr>) cs)"
          "sr_remaining s' = sr_remaining s - of_nat (length cs)"
          using read False acc [of "s\<lparr>sr_reader := r\<rparr>" cs] by (auto simp: prod_eq_iff)
        ultimately show ?thesis
          using acc [of "s\<lparr>sr_reader := r\<rparr>" cs] unat_sub_length [OF len] len by auto
      qed (use read in auto)
    qed
  qed
  then show "answer \<noteq> Err (IoKind Interrupted)"
    and "answer = Ok bs \<Longrightarrow> bs \<noteq> [] \<Longrightarrow> unat (sr_remaining s') < unat (sr_remaining s)" by blast+
qed

lemma finish_stream_returns: "\<exists>y. finish_stream crc rd result content = Some y"
proof -
  have "\<exists>y. drain (SubstreamReader_read rd) content = Some y"
    by (rule drain_returns [where I = "\<lambda>_. True" and m = "\<lambda>s. unat (sr_remaining s)"])
       (use SubstreamReader_read_progress in blast)+
  then show ?thesis
    by (auto simp: finish_stream_def split: result.split)
qed

text \<open>Reading a substream returns if the callback does.\<close>

lemma read_stream_returns:
  assumes "active_ok self"
    and "\<And>s. \<exists>y. run_callback (SubstreamReader_read rd) cb c s = Some y"
  shows "\<exists>y. read_stream crc rd self budget cb c = Some y"
proof -
  have "substreams_next (af_streams self) \<noteq> None"
  proof (cases "position self < layout_len (ss_layout (af_streams self))")
    case True
    have "sizes_total (take (Suc (position self)) (layout_sizes (ss_layout (af_streams self)))) < usize_limit"
      using assms(1) sizes_total_take_le [of "Suc (position self)" "layout_sizes (ss_layout (af_streams self))"]
      by (simp add: active_ok_def Let_def)
    then have "unat (ss_offset (af_streams self)) + unat (layout_sizes (ss_layout (af_streams self)) ! position self) < usize_limit"
      using assms(1) True by (simp add: active_ok_def Let_def sizes_total_take_Suc layout_len_sizes)
    from substreams_next_tile [OF True this] show ?thesis
      by (metis (full_types) Substreams.surjective old.unit.exhaust option.distinct(1) position_def)
  next
    case False
    then show ?thesis using assms(1) by (simp add: active_ok_def Let_def substreams_next_def position_def)
  qed
  then obtain item streams where nxt: "substreams_next (af_streams self) = Some (item, streams)" by auto
  show ?thesis
  proof (cases item)
    case (Some stream)
    let ?s = "substream_reader self stream budget"
    obtain r d t where cb: "run_callback (SubstreamReader_read rd) cb c ?s = Some (r, d, t)"
      using assms(2) [of ?s] by auto
    obtain r' t' where "finish_stream crc rd r t = Some (r', t')"
      using finish_stream_returns [of crc r t] by auto
    with nxt cb Some show ?thesis by (simp add: read_stream_def)
  qed (use nxt in \<open>simp add: read_stream_def\<close>)
qed

lemma skip_streams_returns:
  assumes "active_ok self" and "within_limit budget"
  shows "\<exists>y. skip_streams crc rd k self budget = Some y"
  using assms
proof (induction k arbitrary: self budget)
  case (Suc k)
  have "\<exists>y. run_callback (SubstreamReader_read rd) consume_nothing () s = Some y" for s
    by (simp add: run_callback.simps consume_nothing_def)
  from read_stream_returns [OF Suc.prems(1) this, of crc budget] obtain r b u where
    step: "read_stream crc rd self budget consume_nothing () = Some (r, b, u)" by auto
  note s = read_stream_step [OF read_contract_axioms Suc.prems step]
  show ?case using step s Suc.IH [of _ b] by (cases r) auto
qed simp

end

interpretation cursor: uninterrupted Cursor_read
  by unfold_locales (simp add: Cursor_read_def Let_def)


section \<open>Properties\<close>

text \<open>
  C7. A folder reported complete is verified byte for byte. However a client read its
  substreams, with whatever callbacks, and in either mode: if \<open>finish\<close> reports
  \<open>CompleteFolders\<close>, the decoder delivered exactly the unpacked size and then ended; the folder's
  checksum matches all of it; it falls into the announced substreams, each with its
  announced size and matching its checksum; and the budget was charged exactly once for every byte.
\<close>

theorem complete_folder_verified:
  assumes "read_contract rd"
    and "FolderStreamLayout_new (rf_unpack_size folder) count explicit digests = Ok (rf_layout folder)"
    and "ReadyFolder_start eager start_decoder folder budget = (Ok f, b)" and "within_limit b"
    and "read_streams crc rd cbs f b = Some (Ok g, b')"
    and "finish crc rd g mode b' = Some (Ok CompleteFolders, b'')"
  shows "\<exists>chunks r. delivers rd (af_reader f) (concat chunks) r \<and> fst (rd r 1) = Ok [] \<and>
    length (concat chunks) = unat (rf_unpack_size folder) \<and>
    (\<forall>e. rf_crc folder = Some e \<longrightarrow> crc (concat chunks) = e) \<and>
    length chunks = count \<and> map length (take (count - 1) chunks) = map unat explicit \<and>
    (\<forall>i < count. \<forall>e. digest_at digests i = Some e \<longrightarrow> crc (chunks ! i) = e) \<and>
    unat (decoded b'') = (if eager (rf_decoder folder) \<noteq> None then unat (decoded b)
      else min (usize_limit - 1) (unat (decoded b) + unat (rf_unpack_size folder)))"
proof -
  let ?l = "rf_layout folder"
  note l = FolderStreamLayout_new_Ok [OF assms(2)]
  note f = ReadyFolder_start_Ok [OF assms(3)]
  have ok: "active_ok f" using started_ok [of f, OF _ _ assms(2)] f by blast
  from read_streams_done [OF assms(1) ok assms(4,5)] obtain xs where
    g: "within_limit b'" "active_ok g" "streams_done crc rd f xs g"
      "unat (decoded b') = (if af_budgeted_eagerly f then unat (decoded b)
         else min (usize_limit - 1) (unat (decoded b) + length (concat xs)))" by auto
  from finish_complete [OF assms(1) g(2,1) assms(6)] obtain ys h where
    h: "streams_done crc rd g ys h" "length ys = substreams_len (af_streams g)"
      "af_decoded_len h = af_unpack_size g" "active_ok h" "fst (rd (af_reader h) 1) = Ok []"
      "digest_finish crc (af_digest h) = Ok ()"
      "unat (decoded b'') = (if af_budgeted_eagerly g then unat (decoded b')
         else min (usize_limit - 1) (unat (decoded b') + length (concat ys)))" by blast
  let ?chunks = "xs @ ys"
  note all = streams_done_summary [OF streams_done_append [OF g(3) h(1)]]
  note gs = streams_done_summary [OF g(3)]
  have pos: "position f = 0" "ss_layout (af_streams f) = ?l" using f by (simp_all add: position_def layout_streams_def)
  have "position g \<le> layout_len ?l" using g(2) gs pos by (simp add: active_ok_def Let_def)
  then have n: "length ?chunks = count"
    using gs h(2) pos l by (simp add: substreams_len_def position_def)
  have lens: "map length ?chunks = map unat (layout_sizes ?l)"
    using all pos n l by (simp add: layout_len_sizes)
  have "length (concat ?chunks) = unat (af_decoded_len h)"
    unfolding length_concat lens
    using active_ok_decoded [OF h(4)] all pos n l by (simp add: sizes_total_def layout_len_sizes)
  then have size: "length (concat ?chunks) = unat (rf_unpack_size folder)"
    using h(3) gs f by simp
  have crc: "\<forall>e. rf_crc folder = Some e \<longrightarrow> crc (concat ?chunks) = e"
    using h(6) all f by (simp add: digest_verified)
  have "map length (take (count - 1) ?chunks) = map unat explicit"
    by (subst take_map [symmetric], subst lens) (use l in \<open>simp add: layout_sizes_def\<close>)
  moreover have "unat (decoded b'') = (if eager (rf_decoder folder) \<noteq> None then unat (decoded b)
      else min (usize_limit - 1) (unat (decoded b) + unat (rf_unpack_size folder)))"
    using h(7) g(4) gs f size [symmetric] by auto
  ultimately show ?thesis
    using all n size crc h(5) pos l by (intro exI [of _ ?chunks] exI [of _ "af_reader h"]) auto
qed

text \<open>
  C38. Skipping and finishing always return. Behind a decoder that does not report
  interruptions forever, here: that reports none, both end for any folder in a consistent state, with a
  result or an error: the loops that drain a substream make progress or stop.
\<close>

theorem folder_reading_returns:
  assumes "uninterrupted rd" and "active_ok self" and "within_limit budget"
  shows "(\<exists>y. skip_to crc rd self pos budget = Some y) \<and> (\<exists>y. finish crc rd self mode budget = Some y)"
proof -
  have skip: "\<exists>r b. skip_streams crc rd k self budget = Some (r, b)" for k
    using uninterrupted.skip_streams_returns [OF assms, of crc k] by auto
  from skip [of "substreams_len (af_streams self)"] skip [of "pos - position self"] show ?thesis
    by (auto simp: skip_to_def finish_def Let_def)
qed

text \<open>An example: three bytes, cut into one and two, behind a decoder that has them in memory.\<close>

definition example_crc :: "bytes \<Rightarrow> u32" where
  "example_crc bs = of_nat (sum_list (map unat bs))"

definition example_ready :: "Cursor ReadyFolder" where
  "example_ready = \<lparr>rf_decoder = Cursor_new [10, 20, 30],
     rf_layout = \<lparr>explicit_sizes = [1], final_size = Some 2, fsl_digests = [Some 10, None]\<rparr>,
     rf_unpack_size = 3, rf_crc = Some 60\<rparr>"

definition example_active :: "Cursor ActiveFolder" where
  "example_active = \<lparr>af_reader = Cursor_new [10, 20, 30], af_streams = layout_streams (rf_layout example_ready),
     af_digest = Checking 60 [], af_decoded_len = 0, af_unpack_size = 3, af_budgeted_eagerly = False\<rparr>"

abbreviation example_budget :: OperationBudget where
  "example_budget \<equiv> OperationBudget_new example_limits"

lemma example_started:
  "FolderStreamLayout_new (rf_unpack_size example_ready) 2 [1] [Some 10, None] = Ok (rf_layout example_ready)"
  "ReadyFolder_start (\<lambda>_. None) (\<lambda>d b. (Ok d, b)) example_ready example_budget = (Ok example_active, example_budget)"
  "within_limit example_budget"
  by (simp_all add: example_ready_def example_active_def FolderStreamLayout_new_def sum_sizes_def u64_checked_add_def
      u64_checked_sub_def ReadyFolder_start_def within_limit_def OperationBudget_new_def example_limits_def at_most_def)

lemma bind_weak_cong: "m = m' \<Longrightarrow> Option.bind m f = Option.bind m' f"
  and and_then_weak_cong: "r = r' \<Longrightarrow> and_then r g = and_then r' g"
  by simp_all

lemma skip_two:
  "skip_streams crc rd 2 self budget =
     Option.bind (read_stream crc rd self budget consume_nothing ()) (\<lambda>(result, budget, _).
       case result of
         Err e \<Rightarrow> Some (Err e, budget)
       | Ok self \<Rightarrow> skip_streams crc rd (Suc 0) self budget)"
  by (simp add: numeral_2_eq_2)

theorem complete_folder_verified_witness:
  "map_option fst (finish example_crc Cursor_read example_active WholeFolder example_budget) = Some (Ok CompleteFolders) \<and>
   (\<exists>chunks r. delivers Cursor_read (af_reader example_active) (concat chunks) r \<and> length (concat chunks) = 3 \<and>
      example_crc (concat chunks) = 60 \<and> length chunks = 2 \<and> example_crc (chunks ! 0) = 10)"
proof -
  have fin: "map_option fst (finish example_crc Cursor_read example_active WholeFolder example_budget) =
      Some (Ok CompleteFolders)"
    by (simp add: finish_def example_active_def example_ready_def layout_streams_def substreams_len_def layout_len_def
        skip_two read_stream_def substreams_next_def ByteRange_from_range_def run_callback.simps consume_nothing_def
        finish_stream_def substream_reader_def drain.simps SubstreamReader_read_def monitor_check_def control_check_def
        OperationBudget_new_def OperationMonitor_new_def ByteRange_len_def allowed_bytes_def decoded_remaining_def
        example_limits_def buffer_size_def Cursor_read_def Cursor_new_def cursor_rest_def account_read_def
        charge_decoded_def next_decoded_def u64_checked_add_def monitor_advance_def put_back_def digest_at_def get_def
        example_crc_def Let_def cong: bind_weak_cong and_then_weak_cong)
  then obtain b where "finish example_crc Cursor_read example_active WholeFolder example_budget = Some (Ok CompleteFolders, b)"
    by auto
  from complete_folder_verified [OF cursor.read_contract_axioms example_started _ this, of "[]"]
  show ?thesis using fin by (auto simp: example_ready_def digest_at_def get_def)
qed

theorem folder_reading_returns_witness:
  "active_ok example_active \<and> (\<exists>y. skip_to example_crc Cursor_read example_active 1 example_budget = Some y) \<and>
   (\<exists>y. finish example_crc Cursor_read example_active SelectedStreams example_budget = Some y)"
proof -
  have "active_ok example_active"
    using started_ok [of example_active, OF _ _ example_started(1)] ReadyFolder_start_Ok [OF example_started(2)] by blast
  with folder_reading_returns [OF cursor.uninterrupted_axioms this example_started(3)] show ?thesis by blast
qed

end
