(* ===== verification/Aes.thy ===== *)
theory Aes
  imports Entries Reader_Laws
begin

text \<open>
  \<^verbatim>\<open>src/src/aes.rs\<close>: properties of the AES coder, key derivation, and encryption and decryption
  of streams. The block modes of the crates aes and cbc and the hash of the crate sha2 are
  parameters: a block mode maps a state and a block of 16 bytes to a block and the next state,
  \<open>sha\<close> maps all bytes a hasher was given to a digest of 32 bytes.
\<close>

section \<open>Properties of the coder\<close>

abbreviation MAX_AES_NUM_CYCLES_POWER :: u8 where
  "MAX_AES_NUM_CYCLES_POWER \<equiv> 24"

record AesProperties =
  ap_num_cycles_power :: u8
  ap_salt :: bytes
  ap_iv :: bytes

definition flag :: "bool \<Rightarrow> u8" where
  "flag b = (if b then 1 else 0)"

definition AesProperties_parse :: "bytes \<Rightarrow> AesProperties r7z_result" where
  "AesProperties_parse props =
     (case props of
        [] \<Rightarrow> Err Decompression
      | byte0 # tail \<Rightarrow>
          let cycles = byte0 AND 0x3F;
              has_salt = (drop_bit 7 byte0 AND 1 \<noteq> 0);
              has_iv = (drop_bit 6 byte0 AND 1 \<noteq> 0) in
          and_then
            (if has_salt \<or> has_iv then
               case tail of
                 [] \<Rightarrow> Err Decompression
               | byte1 # rest \<Rightarrow>
                   Ok (unat (flag has_salt + drop_bit 4 byte1), unat (flag has_iv + (byte1 AND 0x0F)), rest)
             else Ok (0, 0, tail))
            (\<lambda>(salt_size, iv_size, rest).
               if length rest < salt_size + iv_size then Err Decompression
               else
                 let iv_bytes = take iv_size (drop salt_size rest) in
                 Ok \<lparr>ap_num_cycles_power = cycles, ap_salt = take salt_size rest,
                     ap_iv = iv_bytes @ replicate (16 - length iv_bytes) 0\<rparr>))"

text \<open>The encoder asserts its preconditions: \<open>None\<close> is the failing assertion.\<close>

definition encode_aes_properties :: "u8 \<Rightarrow> bytes \<Rightarrow> bytes \<Rightarrow> bytes option" where
  "encode_aes_properties cycles salt iv =
     (if length salt > 16 \<or> length iv > 16 then None
      else
        let has_salt = (salt \<noteq> []); has_iv = (iv \<noteq> []);
            first = (cycles AND 0x3F) OR (if has_salt then 0x80 else 0) OR (if has_iv then 0x40 else 0) in
        Some (first #
          (if has_salt \<or> has_iv then
             (push_bit 4 (of_nat (length salt - (if has_salt then 1 else 0))) OR
              of_nat (length iv - (if has_iv then 1 else 0))) # salt @ iv
           else [])))"


section \<open>Key derivation\<close>

definition password_utf16 :: "code_point list \<Rightarrow> bytes" where
  "password_utf16 password = concat (map (to_le_bytes 2) (encode_utf16 password))"

definition check_control :: "OperationControl option \<Rightarrow> unit r7z_result" where
  "check_control ctl = (case ctl of None \<Rightarrow> Ok () | Some c \<Rightarrow> control_check c)"

text \<open>The rounds from \<open>i\<close> on, \<open>k\<close> of them; \<open>hashed\<close> is what the hasher was given.\<close>

fun kdf_rounds :: "OperationControl option \<Rightarrow> bytes \<Rightarrow> nat \<Rightarrow> nat \<Rightarrow> bytes \<Rightarrow> bytes r7z_result" where
  "kdf_rounds ctl lead i 0 hashed = Ok hashed"
| "kdf_rounds ctl lead i (Suc k) hashed =
     and_then (if i mod 1024 = 0 then check_control ctl else Ok ()) (\<lambda>_.
       kdf_rounds ctl lead (Suc i) k (hashed @ lead @ to_le_bytes 8 (of_nat i :: u64)))"

definition derive_key_with_control :: "(bytes \<Rightarrow> bytes) \<Rightarrow> code_point list \<Rightarrow> bytes \<Rightarrow> u8 \<Rightarrow>
    OperationControl option \<Rightarrow> bytes r7z_result" where
  "derive_key_with_control sha password slt cycles ctl =
     and_then (check_control ctl) (\<lambda>_.
       if cycles = 0x3F then
         let all = take 32 (slt @ password_utf16 password) in
         Ok (all @ replicate (32 - length all) 0)
       else if cycles > MAX_AES_NUM_CYCLES_POWER then Err Decompression
       else
         and_then (kdf_rounds ctl (slt @ password_utf16 password) 0 (2 ^ unat cycles) []) (\<lambda>hashed.
         and_then (check_control ctl) (\<lambda>_. Ok (sha hashed))))"


section \<open>Chained blocks\<close>

text \<open>
  \<open>BlockModeEncrypt::encrypt_block\<close> and \<open>BlockModeDecrypt::decrypt_block\<close> of the crate cbc: an
  encryptor or decryptor and a block of 16 bytes give a block, and the state for the next one.
\<close>

type_synonym 'c block_mode = "'c \<Rightarrow> bytes \<Rightarrow> bytes \<times> 'c"

text \<open>
  \<open>encrypt_padded\<close> with \<open>NoPadding\<close>: all blocks of a buffer whose length is a multiple of 16, in
  order.
\<close>

function encrypt_blocks :: "'c block_mode \<Rightarrow> 'c \<Rightarrow> bytes \<Rightarrow> bytes" where
  "encrypt_blocks enc s data =
     (if data = [] then []
      else let (c, s) = enc s (take 16 data) in c @ encrypt_blocks enc s (drop 16 data))"
  by pat_completeness auto
termination by (relation "measure (\<lambda>(enc, s, data). length data)") auto

declare encrypt_blocks.simps [simp del]

definition encrypt_aes256_cbc_zero_pad :: "(bytes \<Rightarrow> bytes \<Rightarrow> 'c) \<Rightarrow> 'c block_mode \<Rightarrow> bytes \<Rightarrow> bytes \<Rightarrow> bytes \<Rightarrow> bytes" where
  "encrypt_aes256_cbc_zero_pad cbc_new enc data key iv =
     (let padded_len = max ((length data + 15) div 16 * 16) 16 in
      encrypt_blocks enc (cbc_new key iv) (data @ replicate (padded_len - length data) 0))"

definition encrypted_size_for_plaintext :: "u64 \<Rightarrow> u64 r7z_result" where
  "encrypted_size_for_plaintext sz =
     (if sz = 0 then Ok 16
      else and_then (ok_or Decompression (u64_checked_add sz 15)) (\<lambda>sz. Ok (sz div 16 * 16)))"


section \<open>The encrypting writer\<close>

abbreviation CIPHERTEXT_BUFFER_SIZE :: nat where
  "CIPHERTEXT_BUFFER_SIZE \<equiv> 8192"

text \<open>
  \<open>pending\<close> and \<open>ciphertext\<close> are the filled parts of the two arrays, so the two length fields of the
  source are their lengths.
\<close>

record ('w, 'c) Aes256CbcEncryptWriter =
  ew_inner :: 'w
  ew_cipher :: 'c
  ew_pending :: bytes
  ew_ciphertext :: bytes
  ew_plaintext_size :: u64
  ew_encrypted_block :: bool

definition EncryptWriter_new :: "(bytes \<Rightarrow> bytes \<Rightarrow> 'c) \<Rightarrow> 'w \<Rightarrow> bytes \<Rightarrow> bytes \<Rightarrow> ('w, 'c) Aes256CbcEncryptWriter" where
  "EncryptWriter_new cbc_new inner key iv =
     \<lparr>ew_inner = inner, ew_cipher = cbc_new key iv, ew_pending = [], ew_ciphertext = [],
      ew_plaintext_size = 0, ew_encrypted_block = False\<rparr>"

definition flush_ciphertext :: "'w writer \<Rightarrow> ('w, 'c) Aes256CbcEncryptWriter \<Rightarrow>
    (unit io_result \<times> ('w, 'c) Aes256CbcEncryptWriter) option" where
  "flush_ciphertext wr self =
     (if ew_ciphertext self = [] then Some (Ok (), self)
      else
        map_option (\<lambda>(result, w).
            case result of
              Err e \<Rightarrow> (Err e, self\<lparr>ew_inner := w\<rparr>)
            | Ok _ \<Rightarrow> (Ok (), self\<lparr>ew_inner := w, ew_ciphertext := []\<rparr>))
          (write_all wr (ew_inner self) (ew_ciphertext self)))"

text \<open>
  No room for another block in the array is a failing bounds check: the call does not return, \<open>None\<close>.
\<close>

definition encrypt_pending :: "'c block_mode \<Rightarrow> 'w writer \<Rightarrow> ('w, 'c) Aes256CbcEncryptWriter \<Rightarrow>
    (unit io_result \<times> ('w, 'c) Aes256CbcEncryptWriter) option" where
  "encrypt_pending enc wr self =
     (let block = ew_pending self @ replicate (16 - length (ew_pending self)) 0;
          (c, cipher) = enc (ew_cipher self) block in
      if length (ew_ciphertext self) + length c > CIPHERTEXT_BUFFER_SIZE then None
      else
        let self = self\<lparr>ew_cipher := cipher, ew_ciphertext := ew_ciphertext self @ c, ew_pending := [],
              ew_encrypted_block := True\<rparr> in
        if length (ew_ciphertext self) = CIPHERTEXT_BUFFER_SIZE then flush_ciphertext wr self
        else Some (Ok (), self))"

text \<open>The loop of \<open>write\<close>, which takes at least one byte a round as the buffer is never full.\<close>

partial_function (option) encrypt_loop :: "'c block_mode \<Rightarrow> 'w writer \<Rightarrow> ('w, 'c) Aes256CbcEncryptWriter \<Rightarrow> bytes \<Rightarrow>
    (unit io_result \<times> ('w, 'c) Aes256CbcEncryptWriter) option" where
  "encrypt_loop enc wr self input =
     (if input = [] then Some (Ok (), self)
      else
        let copied = min (16 - length (ew_pending self)) (length input);
            self = self\<lparr>ew_pending := ew_pending self @ take copied input\<rparr>;
            input = drop copied input in
        if length (ew_pending self) = 16 then
          Option.bind (encrypt_pending enc wr self) (\<lambda>(result, self).
            case result of
              Err e \<Rightarrow> Some (Err e, self)
            | Ok _ \<Rightarrow> encrypt_loop enc wr self input)
        else encrypt_loop enc wr self input)"

definition EncryptWriter_write :: "'c block_mode \<Rightarrow> 'w writer \<Rightarrow> ('w, 'c) Aes256CbcEncryptWriter \<Rightarrow> bytes \<Rightarrow>
    (nat io_result \<times> ('w, 'c) Aes256CbcEncryptWriter) option" where
  "EncryptWriter_write enc wr self input =
     (case u64_checked_add (ew_plaintext_size self) (of_nat (length input)) of
        None \<Rightarrow> Some (Err (IoKind InvalidData), self)
      | Some sz \<Rightarrow>
          map_option (\<lambda>(result, self).
              case result of
                Err e \<Rightarrow> (Err e, self)
              | Ok _ \<Rightarrow> (Ok (length input), self\<lparr>ew_plaintext_size := sz\<rparr>))
            (encrypt_loop enc wr self input))"

text \<open>\<open>Write::flush\<close> and \<open>finish\<close>; \<open>fl\<close> flushes the writer inside.\<close>

type_synonym 'w flusher = "'w \<Rightarrow> unit io_result \<times> 'w"

definition EncryptWriter_flush :: "'w writer \<Rightarrow> 'w flusher \<Rightarrow> ('w, 'c) Aes256CbcEncryptWriter \<Rightarrow>
    (unit io_result \<times> ('w, 'c) Aes256CbcEncryptWriter) option" where
  "EncryptWriter_flush wr fl self =
     map_option (\<lambda>(result, self).
         case result of
           Err e \<Rightarrow> (Err e, self)
         | Ok _ \<Rightarrow> (case fl (ew_inner self) of (flushed, w) \<Rightarrow> (flushed, self\<lparr>ew_inner := w\<rparr>)))
       (flush_ciphertext wr self)"

definition EncryptWriter_finish :: "'c block_mode \<Rightarrow> 'w writer \<Rightarrow> 'w flusher \<Rightarrow> ('w, 'c) Aes256CbcEncryptWriter \<Rightarrow>
    ('w \<times> u64) io_result option" where
  "EncryptWriter_finish enc wr fl self =
     Option.bind (if ew_pending self \<noteq> [] \<or> \<not> ew_encrypted_block self then encrypt_pending enc wr self
                  else Some (Ok (), self)) (\<lambda>(result, self).
       case result of
         Err e \<Rightarrow> Some (Err e)
       | Ok _ \<Rightarrow>
           map_option (\<lambda>(result, self).
               and_then result (\<lambda>_.
                 case fl (ew_inner self) of
                   (flushed, w) \<Rightarrow> and_then flushed (\<lambda>_. Ok (w, ew_plaintext_size self))))
             (flush_ciphertext wr self))"

declare encrypt_loop.simps [code]


section \<open>The decrypting reader\<close>

text \<open>\<open>read_one\<close> and \<open>Read::read_exact\<close>: both try again after an interruption.\<close>

partial_function (option) read_one :: "'r reader \<Rightarrow> 'r \<Rightarrow> nat \<Rightarrow> (bytes io_result \<times> 'r) option" where
  "read_one rd r n =
     (case rd r n of
        (Err e, r) \<Rightarrow> if e = IoKind Interrupted then read_one rd r n else Some (Err e, r)
      | (Ok bs, r) \<Rightarrow> Some (Ok bs, r))"

partial_function (option) read_exact :: "'r reader \<Rightarrow> 'r \<Rightarrow> nat \<Rightarrow> bytes \<Rightarrow> (bytes io_result \<times> 'r) option" where
  "read_exact rd r n filled =
     (if n = 0 then Some (Ok filled, r)
      else
        case rd r n of
          (Err e, r) \<Rightarrow> if e = IoKind Interrupted then read_exact rd r n filled else Some (Err e, r)
        | (Ok bs, r) \<Rightarrow>
            if bs = [] then Some (Err (IoKind UnexpectedEof), r)
            else read_exact rd r (n - length bs) (filled @ bs))"

record ('r, 'd) Aes256CbcDecryptReader =
  dr_inner :: 'r
  dr_cipher :: 'd
  dr_plaintext :: bytes
  dr_plaintext_position :: nat
  dr_plaintext_length :: nat
  dr_plaintext_size :: "u64 option"
  dr_plaintext_read :: u64
  dr_ciphertext_size :: "u64 option"
  dr_ciphertext_read :: u64
  dr_expected_ciphertext_size :: "u64 option"
  dr_finished :: bool

definition DecryptReader_new :: "(bytes \<Rightarrow> bytes \<Rightarrow> 'd) \<Rightarrow> 'r \<Rightarrow> bytes \<Rightarrow> bytes \<Rightarrow> u64 option \<Rightarrow> u64 option \<Rightarrow>
    ('r, 'd) Aes256CbcDecryptReader r7z_result" where
  "DecryptReader_new cbc_new inner key iv ciphertext_size plaintext_size =
     (if (case ciphertext_size of None \<Rightarrow> False | Some sz \<Rightarrow> sz mod 16 \<noteq> 0) then Err Decompression
      else
        and_then (case plaintext_size of
                    None \<Rightarrow> Ok None
                  | Some sz \<Rightarrow> and_then (encrypted_size_for_plaintext sz) (\<lambda>p. Ok (Some p)))
          (\<lambda>padded_plaintext_size.
             if (case (ciphertext_size, padded_plaintext_size) of
                   (Some ciphertext, Some padded) \<Rightarrow>
                     ciphertext \<noteq> padded \<and> \<not> (plaintext_size = Some 0 \<and> ciphertext = 0)
                 | _ \<Rightarrow> False)
             then Err Decompression
             else Ok \<lparr>dr_inner = inner, dr_cipher = cbc_new key iv,
                 dr_plaintext = replicate 16 0, dr_plaintext_position = 0, dr_plaintext_length = 0,
                 dr_plaintext_size = plaintext_size, dr_plaintext_read = 0,
                 dr_ciphertext_size = ciphertext_size, dr_ciphertext_read = 0,
                 dr_expected_ciphertext_size =
                   (case ciphertext_size of Some sz \<Rightarrow> Some sz | None \<Rightarrow> padded_plaintext_size),
                 dr_finished = False\<rparr>))"

definition read_block :: "'d block_mode \<Rightarrow> 'r reader \<Rightarrow> ('r, 'd) Aes256CbcDecryptReader \<Rightarrow>
    (bool io_result \<times> ('r, 'd) Aes256CbcDecryptReader) option" where
  "read_block dec rd self =
     (if dr_finished self then Some (Ok False, self)
      else if (case dr_expected_ciphertext_size self of None \<Rightarrow> False | Some sz \<Rightarrow> dr_ciphertext_read self = sz) then
        map_option (\<lambda>(extra, r). let self = self\<lparr>dr_inner := r\<rparr> in
            case extra of
              Err e \<Rightarrow> (Err e, self)
            | Ok bs \<Rightarrow>
                if bs \<noteq> [] then (Err (IoKind InvalidData), self)
                else (Ok False, self\<lparr>dr_finished := True\<rparr>))
          (read_one rd (dr_inner self) 1)
      else
        Option.bind (read_one rd (dr_inner self) 1) (\<lambda>(first, r). let self = self\<lparr>dr_inner := r\<rparr> in
          case first of
            Err e \<Rightarrow> Some (Err e, self)
          | Ok bs \<Rightarrow>
              if bs = [] then
                if (case dr_expected_ciphertext_size self of None \<Rightarrow> False | Some sz \<Rightarrow> dr_ciphertext_read self \<noteq> sz) \<and>
                   \<not> (dr_ciphertext_size self = None \<and> dr_plaintext_size self = Some 0 \<and> dr_ciphertext_read self = 0)
                then Some (Err (IoKind UnexpectedEof), self)
                else Some (Ok False, self\<lparr>dr_finished := True\<rparr>)
              else
                map_option (\<lambda>(tail, r). let self = self\<lparr>dr_inner := r\<rparr> in
                    case tail of
                      Err e \<Rightarrow> (Err e, self)
                    | Ok block \<Rightarrow>
                        (let (plain, cipher) = dec (dr_cipher self) block;
                             self = self\<lparr>dr_cipher := cipher\<rparr> in
                         case u64_checked_add (dr_ciphertext_read self) 16 of
                           None \<Rightarrow> (Err (IoKind InvalidData), self)
                         | Some n \<Rightarrow>
                             (Ok True, self\<lparr>dr_ciphertext_read := n, dr_plaintext := plain, dr_plaintext_position := 0,
                                dr_plaintext_length :=
                                  (case dr_plaintext_size self of
                                     None \<Rightarrow> 16
                                   | Some sz \<Rightarrow> unat (min (u64_saturating_sub sz (dr_plaintext_read self)) 16))\<rparr>)))
                  (read_exact rd r 15 bs)))"

partial_function (option) fill_plaintext :: "'d block_mode \<Rightarrow> 'r reader \<Rightarrow> ('r, 'd) Aes256CbcDecryptReader \<Rightarrow>
    (bool io_result \<times> ('r, 'd) Aes256CbcDecryptReader) option" where
  "fill_plaintext dec rd self =
     (if dr_plaintext_position self \<noteq> dr_plaintext_length self then Some (Ok True, self)
      else
        Option.bind (read_block dec rd self) (\<lambda>(got, self).
          if got = Ok True then fill_plaintext dec rd self else Some (got, self)))"

definition DecryptReader_read :: "'d block_mode \<Rightarrow> 'r reader \<Rightarrow> ('r, 'd) Aes256CbcDecryptReader \<Rightarrow> nat \<Rightarrow>
    (bytes io_result \<times> ('r, 'd) Aes256CbcDecryptReader) option" where
  "DecryptReader_read dec rd self n =
     (if n = 0 then Some (Ok [], self)
      else
        map_option (\<lambda>(filled, self).
            case filled of
              Err e \<Rightarrow> (Err e, self)
            | Ok got \<Rightarrow>
                if \<not> got then (Ok [], self)
                else
                  (let len = min n (dr_plaintext_length self - dr_plaintext_position self);
                       bs = take len (drop (dr_plaintext_position self) (dr_plaintext self));
                       self = self\<lparr>dr_plaintext_position := dr_plaintext_position self + len\<rparr> in
                   case u64_checked_add (dr_plaintext_read self) (of_nat len) of
                     None \<Rightarrow> (Err (IoKind InvalidData), self)
                   | Some k \<Rightarrow> (Ok bs, self\<lparr>dr_plaintext_read := k\<rparr>)))
          (fill_plaintext dec rd self))"

text \<open>
  The reader as a client's loop sees it. A read that does not return is no answer; it is an error
  here, so that a loop that succeeds had an answer to each of its reads.
\<close>

definition settled :: "('s \<Rightarrow> nat \<Rightarrow> (bytes io_result \<times> 's) option) \<Rightarrow> 's reader" where
  "settled rd self n = (case rd self n of Some answer \<Rightarrow> answer | None \<Rightarrow> (Err (IoKind UnexpectedEof), self))"

declare read_one.simps [code] read_exact.simps [code] fill_plaintext.simps [code]


section \<open>Laws\<close>

lemma word_of_unat: "unat (w :: u64) = k \<Longrightarrow> w = of_nat k"
  by auto

subsection \<open>Properties\<close>

lemma flag_bytes: "(0x3F :: u8) = mask 6" "(0x0F :: u8) = mask 4"
  by (simp_all add: mask_eq_exp_minus_1)

lemma bit_flags: "bit (0x80 :: u8) n \<longleftrightarrow> n = 7" "bit (0x40 :: u8) n \<longleftrightarrow> n = 6"
proof -
  have "(0x80 :: u8) = 2 ^ 7" "(0x40 :: u8) = 2 ^ 6" by simp_all
  then show "bit (0x80 :: u8) n \<longleftrightarrow> n = 7" "bit (0x40 :: u8) n \<longleftrightarrow> n = 6"
    by (simp_all only: bit_exp_iff) auto
qed

lemma flags_read_back:
  fixes c :: u8 and s i :: bool
  defines "f \<equiv> (c AND 0x3F) OR (if s then 0x80 else 0) OR (if i then 0x40 else 0)"
  shows "f AND 0x3F = c AND 0x3F" and "(drop_bit 7 f AND 1 \<noteq> 0) = s" and "(drop_bit 6 f AND 1 \<noteq> 0) = i"
proof -
  show "f AND 0x3F = c AND 0x3F"
    unfolding f_def flag_bytes by (rule bit_word_eqI) (auto simp: bit_and_iff bit_or_iff bit_mask_iff bit_flags simp del: bit_numeral_word_iff)
  have odd: "(w AND 1 \<noteq> 0) = bit w 0" for w :: u8
    by (simp add: and_one_eq odd_iff_mod_2_eq_one bit_0)
  show "(drop_bit 7 f AND 1 \<noteq> 0) = s" "(drop_bit 6 f AND 1 \<noteq> 0) = i"
    unfolding f_def odd by (auto simp: bit_and_iff bit_or_iff bit_drop_bit_eq bit_flags simp del: bit_numeral_word_iff)
qed

lemma bit_of_small_nat: "a < 16 \<Longrightarrow> bit a n \<Longrightarrow> n < 4" for a :: nat
proof -
  assume "a < 16" and b: "bit a n"
  then have "take_bit 4 a = a" by (simp add: take_bit_nat_eq_self)
  with b have "bit (take_bit 4 a) n" by simp
  then show "n < 4" by (simp add: bit_take_bit_iff)
qed

lemma nibbles_read_back:
  assumes "a < 16" and "b < 16"
  shows "drop_bit 4 (push_bit 4 (of_nat a) OR of_nat b :: u8) = of_nat a"
    and "(push_bit 4 (of_nat a) OR of_nat b :: u8) AND 0x0F = of_nat b"
  using bit_of_small_nat [OF assms(1)] bit_of_small_nat [OF assms(2)] unfolding flag_bytes
  by (auto intro!: bit_word_eqI simp: bit_simps dest: bit_of_small_nat [OF assms(2), of "4 + _"])


lemma flag_length:
  assumes "length xs \<le> 16"
  shows "unat (flag (xs \<noteq> []) + of_nat (length xs - (if xs \<noteq> [] then 1 else 0))) = length xs"
proof -
  have "flag (xs \<noteq> []) + of_nat (length xs - (if xs \<noteq> [] then 1 else 0)) = (of_nat (length xs) :: u8)"
    by (cases xs) (simp_all add: flag_def)
  then show ?thesis using assms by (simp only: unat_of_nat) simp
qed

lemma AesProperties_encode_parse:
  assumes "length slt \<le> 16" and "length ivb \<le> 16"
  shows "\<exists>props. encode_aes_properties cycles slt ivb = Some props \<and>
    AesProperties_parse props = Ok \<lparr>ap_num_cycles_power = cycles AND 0x3F, ap_salt = slt,
      ap_iv = ivb @ replicate (16 - length ivb) 0\<rparr>"
proof -
  let ?s = "slt \<noteq> []" and ?i = "ivb \<noteq> []"
  let ?a = "length slt - (if ?s then 1 else 0)" and ?b = "length ivb - (if ?i then 1 else 0)"
  let ?f = "(cycles AND 0x3F) OR (if ?s then 0x80 else 0) OR (if ?i then 0x40 else 0)"
  let ?n = "push_bit 4 (of_nat ?a) OR of_nat ?b :: u8"
  have "?a < 16" "?b < 16" using assms by (cases slt; cases ivb; simp)+
  note n = nibbles_read_back [OF this]
  have len: "unat (flag ?s + of_nat ?a) = length slt" "unat (flag ?i + of_nat ?b) = length ivb"
    using flag_length [OF assms(1)] flag_length [OF assms(2)] by blast+
  have enc: "encode_aes_properties cycles slt ivb = Some (?f # (if ?s \<or> ?i then ?n # slt @ ivb else []))"
    using assms by (simp add: encode_aes_properties_def Let_def)
  have "AesProperties_parse (?f # (if ?s \<or> ?i then ?n # slt @ ivb else [])) =
      Ok \<lparr>ap_num_cycles_power = cycles AND 0x3F, ap_salt = slt, ap_iv = ivb @ replicate (16 - length ivb) 0\<rparr>"
    unfolding AesProperties_parse_def list.case Let_def flags_read_back
    using n len by (cases "?s \<or> ?i") auto
  with enc show ?thesis by blast
qed

subsection \<open>Key derivation\<close>

lemma kdf_rounds_eq:
  assumes "check_control ctl = Ok ()"
  shows "kdf_rounds ctl lead i k hashed =
    Ok (hashed @ concat (map (\<lambda>j. lead @ to_le_bytes 8 (of_nat j :: u64)) [i..<i + k]))"
proof (induction k arbitrary: i hashed)
  case (Suc k)
  have "[i..<i + Suc k] = i # [Suc i..<Suc i + k]" by (simp add: upt_conv_Cons del: upt_Suc)
  then show ?case using Suc assms by (simp del: upt_Suc)
qed simp

lemma derive_key_documented:
  assumes "check_control ctl = Ok ()" and "cycles \<le> MAX_AES_NUM_CYCLES_POWER"
  shows "derive_key_with_control sha password slt cycles ctl =
    Ok (sha (concat (map (\<lambda>j. slt @ password_utf16 password @ to_le_bytes 8 (of_nat j :: u64)) [0..<2 ^ unat cycles])))"
proof -
  have "cycles \<noteq> 0x3F" using assms(2) by (auto simp: word_le_nat_alt)
  then show ?thesis
    using assms kdf_rounds_eq [OF assms(1), of "slt @ password_utf16 password" 0 "2 ^ unat cycles" "[]"]
    by (simp add: derive_key_with_control_def Let_def not_less)
qed

subsection \<open>Chaining\<close>

text \<open>The state after a string of whole blocks.\<close>

function blocks_after :: "'c block_mode \<Rightarrow> 'c \<Rightarrow> bytes \<Rightarrow> 'c" where
  "blocks_after enc s data =
     (if data = [] then s else blocks_after enc (snd (enc s (take 16 data))) (drop 16 data))"
  by pat_completeness auto
termination by (relation "measure (\<lambda>(enc, s, data). length data)") auto

declare blocks_after.simps [simp del]

lemma encrypt_blocks_Nil [simp]: "encrypt_blocks enc s [] = []" "blocks_after enc s [] = s"
  by (simp_all add: encrypt_blocks.simps blocks_after.simps)

lemma encrypt_blocks_block:
  assumes "length block = 16" and "enc s block = (c, s')"
  shows "encrypt_blocks enc s (block @ data) = c @ encrypt_blocks enc s' data"
    and "blocks_after enc s (block @ data) = blocks_after enc s' data"
  using assms by (subst encrypt_blocks.simps blocks_after.simps; auto)+

lemma blocks_induct [consumes 1, case_names Nil block]:
  assumes "16 dvd length data"
    and "\<And>s. P s []"
    and "\<And>s block data c s'. length block = 16 \<Longrightarrow> 16 dvd length data \<Longrightarrow>
      enc s block = (c, s') \<Longrightarrow> P s' data \<Longrightarrow> P s (block @ data)"
  shows "P s data"
  using assms(1)
proof (induction "length data" arbitrary: s data rule: less_induct)
  case less
  show ?case
  proof (cases "data = []")
    case False
    then have len: "16 \<le> length data" using less.prems by (auto dest: dvd_imp_le)
    obtain c s' where "enc s (take 16 data) = (c, s')" by (cases "enc s (take 16 data)")
    moreover have "P s' (drop 16 data)"
      using len less.prems by (intro less.hyps) (auto simp: dvd_diff_nat)
    ultimately have "P s (take 16 data @ drop 16 data)"
      using len less.prems by (intro assms(3)) (auto simp: dvd_diff_nat)
    then show ?thesis by simp
  qed (simp add: assms(2))
qed

lemma encrypt_blocks_append:
  assumes "16 dvd length a"
  shows "encrypt_blocks enc s (a @ b) = encrypt_blocks enc s a @ encrypt_blocks enc (blocks_after enc s a) b \<and>
    blocks_after enc s (a @ b) = blocks_after enc (blocks_after enc s a) b"
  using assms by (induction s a rule: blocks_induct [where enc = enc]) (simp_all add: encrypt_blocks_block)


subsection \<open>The writer\<close>

text \<open>The writer has taken \<open>data\<close>: the whole blocks went through the cipher, the rest is pending.\<close>

definition encrypting :: "'c block_mode \<Rightarrow> 'c \<Rightarrow> ('w \<Rightarrow> bytes) \<Rightarrow> bytes \<Rightarrow> bytes \<Rightarrow> ('w, 'c) Aes256CbcEncryptWriter \<Rightarrow> bool" where
  "encrypting enc s0 written before data self \<longleftrightarrow>
     (\<exists>full. data = full @ ew_pending self \<and> 16 dvd length full \<and>
        written (ew_inner self) @ ew_ciphertext self = before @ encrypt_blocks enc s0 full \<and>
        ew_cipher self = blocks_after enc s0 full \<and> (ew_encrypted_block self \<longleftrightarrow> full \<noteq> []))"

context byte_sink
begin

lemma flush_ciphertext_written:
  assumes "flush_ciphertext wr self = Some (Ok (), self')"
  shows "written (ew_inner self') = written (ew_inner self) @ ew_ciphertext self \<and> ew_ciphertext self' = [] \<and>
    ew_pending self' = ew_pending self \<and> ew_cipher self' = ew_cipher self \<and>
    ew_encrypted_block self' = ew_encrypted_block self \<and> ew_plaintext_size self' = ew_plaintext_size self"
proof (cases "ew_ciphertext self = []")
  case False
  then obtain r w where wa: "write_all wr (ew_inner self) (ew_ciphertext self) = Some (r, w)"
    and self': "(case r of Err e \<Rightarrow> (Err e, self\<lparr>ew_inner := w\<rparr>)
      | Ok _ \<Rightarrow> (Ok (), self\<lparr>ew_inner := w, ew_ciphertext := []\<rparr>)) = (Ok (), self')"
    using assms by (auto simp: flush_ciphertext_def)
  then show ?thesis
    using write_all_prefix [OF wa] by (cases r) auto
qed (use assms in \<open>simp add: flush_ciphertext_def\<close>)

lemma encrypt_pending_written:
  assumes "encrypt_pending enc wr self = Some (Ok (), self')" and "encrypting enc s0 written before data self"
    and "length (ew_pending self) \<le> 16"
  shows "encrypting enc s0 written before (data @ replicate (16 - length (ew_pending self)) 0) self' \<and>
    ew_pending self' = [] \<and> ew_encrypted_block self' \<and> ew_plaintext_size self' = ew_plaintext_size self"
proof -
  let ?block = "ew_pending self @ replicate (16 - length (ew_pending self)) 0"
  obtain c s where c: "enc (ew_cipher self) ?block = (c, s)"
    by (cases "enc (ew_cipher self) ?block")
  let ?mid = "self\<lparr>ew_cipher := s, ew_ciphertext := ew_ciphertext self @ c, ew_pending := [], ew_encrypted_block := True\<rparr>"
  from assms(2) obtain full where full: "data = full @ ew_pending self" "16 dvd length full"
    "written (ew_inner self) @ ew_ciphertext self = before @ encrypt_blocks enc s0 full"
    "ew_cipher self = blocks_after enc s0 full" by (auto simp: encrypting_def)
  have len: "length ?block = 16" using assms(3) by simp
  have "encrypt_blocks enc s0 (full @ ?block) = encrypt_blocks enc s0 full @ c"
    "blocks_after enc s0 (full @ ?block) = s"
    using encrypt_blocks_append [OF full(2), of enc s0 ?block] encrypt_blocks_block [of ?block enc "ew_cipher self" c s "[]", OF len c] full(4)
    by simp_all
  then have all: "written (ew_inner ?mid) @ ew_ciphertext ?mid = before @ encrypt_blocks enc s0 (full @ ?block)"
    "ew_cipher ?mid = blocks_after enc s0 (full @ ?block)" "16 dvd length (full @ ?block)"
    using full len by (simp_all flip: append_assoc)
  have "?mid = self' \<or> flush_ciphertext wr ?mid = Some (Ok (), self')"
    using assms(1) c by (auto simp: encrypt_pending_def Let_def split: if_splits)
  then have "written (ew_inner self') @ ew_ciphertext self' = written (ew_inner ?mid) @ ew_ciphertext ?mid \<and>
      ew_cipher self' = ew_cipher ?mid \<and> ew_pending self' = [] \<and> ew_encrypted_block self' \<and>
      ew_plaintext_size self' = ew_plaintext_size self"
    by (auto dest: flush_ciphertext_written)
  then show ?thesis
    using all full len unfolding encrypting_def by (intro conjI exI [of _ "full @ ?block"]) auto
qed

lemma encrypt_loop_written:
  assumes "encrypt_loop enc wr self input = Some (Ok (), self')" and "encrypting enc s0 written before data self"
    and "length (ew_pending self) < 16"
  shows "encrypting enc s0 written before (data @ input) self' \<and> length (ew_pending self') < 16 \<and>
    ew_plaintext_size self' = ew_plaintext_size self"
  using assms
proof (induction "length input" arbitrary: self input data rule: less_induct)
  case less
  show ?case
  proof (cases "input = []")
    case True
    then show ?thesis using less.prems by (auto simp: encrypt_loop.simps)
  next
    case False
    define n where n: "n = min (16 - length (ew_pending self)) (length input)"
    let ?self = "self\<lparr>ew_pending := ew_pending self @ take n input\<rparr>"
    have shorter: "length (drop n input) < length input" using False less.prems(3) by (cases input) (auto simp: n)
    have taken: "encrypting enc s0 written before (data @ take n input) ?self"
      using less.prems(2) by (auto simp: encrypting_def)
    have split: "data @ input = (data @ take n input) @ drop n input" by simp
    have step: "encrypt_loop enc wr self input =
        (if length (ew_pending ?self) = 16 then
           Option.bind (encrypt_pending enc wr ?self) (\<lambda>(result, self).
             case result of
               Err e \<Rightarrow> Some (Err e, self)
             | Ok _ \<Rightarrow> encrypt_loop enc wr self (drop n input))
         else encrypt_loop enc wr ?self (drop n input))"
      by (subst encrypt_loop.simps) (simp only: Let_def False if_False n)
    have room: "length (ew_pending ?self) \<le> 16" using less.prems(3) by (simp add: n)
    show ?thesis
    proof (cases "length (ew_pending ?self) = 16")
      case True
      then obtain r s1 where ep: "encrypt_pending enc wr ?self = Some (r, s1)"
        and rest: "(case r of Err e \<Rightarrow> Some (Err e, s1) | Ok _ \<Rightarrow> encrypt_loop enc wr s1 (drop n input)) = Some (Ok (), self')"
        using less.prems(1) unfolding step by (auto simp: bind_eq_Some_conv simp del: length_append)
      then have r: "r = Ok ()" by (cases r) auto
      from encrypt_pending_written [OF ep [unfolded r] taken] True have
        s1: "encrypting enc s0 written before (data @ take n input) s1" "ew_pending s1 = []"
          "ew_plaintext_size s1 = ew_plaintext_size self" by simp_all
      have "encrypt_loop enc wr s1 (drop n input) = Some (Ok (), self')" using rest r by simp
      from less.hyps [OF shorter this s1(1)] s1(2,3) show ?thesis unfolding split by simp
    next
      case notfull: False
      then have "encrypt_loop enc wr ?self (drop n input) = Some (Ok (), self')"
        using less.prems(1) unfolding step by (simp del: length_append)
      from less.hyps [OF shorter this taken] notfull room show ?thesis unfolding split by simp
    qed
  qed
qed

end

text \<open>A client that writes pieces one after the other, until one fails.\<close>

fun write_pieces :: "'c block_mode \<Rightarrow> 'w writer \<Rightarrow> ('w, 'c) Aes256CbcEncryptWriter \<Rightarrow> bytes list \<Rightarrow>
    (unit io_result \<times> ('w, 'c) Aes256CbcEncryptWriter) option" where
  "write_pieces enc wr self [] = Some (Ok (), self)"
| "write_pieces enc wr self (p # ps) =
     Option.bind (EncryptWriter_write enc wr self p) (\<lambda>(result, self).
       case result of
         Err e \<Rightarrow> Some (Err e, self)
       | Ok _ \<Rightarrow> write_pieces enc wr self ps)"

context byte_sink
begin

lemma write_pieces_written:
  assumes "write_pieces enc wr self ps = Some (Ok (), self')" and "encrypting enc s0 written before data self"
    and "length (ew_pending self) < 16" and "list_all (\<lambda>p. length p < usize_limit) ps"
    and "unat (ew_plaintext_size self) = length data"
  shows "encrypting enc s0 written before (data @ concat ps) self' \<and> length (ew_pending self') < 16 \<and>
    unat (ew_plaintext_size self') = length (data @ concat ps)"
  using assms
proof (induction ps arbitrary: self data)
  case (Cons p ps)
  from Cons.prems(1) obtain r s1 where w: "EncryptWriter_write enc wr self p = Some (r, s1)"
    and rest: "(case r of Err e \<Rightarrow> Some (Err e, s1) | Ok _ \<Rightarrow> write_pieces enc wr s1 ps) = Some (Ok (), self')"
    by (auto simp: bind_eq_Some_conv)
  then obtain n where r: "r = Ok n" by (cases r) auto
  from w r obtain sz s2 where sz: "u64_checked_add (ew_plaintext_size self) (of_nat (length p)) = Some sz"
    and loop: "encrypt_loop enc wr self p = Some (Ok (), s2)" and s1: "s1 = s2\<lparr>ew_plaintext_size := sz\<rparr>"
    by (auto simp: EncryptWriter_write_def split: option.splits) (case_tac a; auto)
  from encrypt_loop_written [OF loop Cons.prems(2,3)] have
    "encrypting enc s0 written before (data @ p) s1" "length (ew_pending s1) < 16"
    by (auto simp: s1 encrypting_def)
  moreover have "unat (ew_plaintext_size s1) = length (data @ p)"
    using sz Cons.prems(4,5) by (simp add: s1 u64_checked_add_eq_Some unat_of_nat)
  ultimately show ?case using Cons.IH [of s1 "data @ p"] rest r Cons.prems(4) by simp
qed simp

end


subsection \<open>Writers that take what they are offered\<close>

text \<open>A sink that makes progress on every write, with a flush that leaves what was written.\<close>

locale willing_sink = byte_sink wr written for wr :: "'w writer" and written :: "'w \<Rightarrow> bytes" +
  fixes fl :: "'w flusher"
  assumes progress: "bs \<noteq> [] \<Longrightarrow> \<exists>n w'. wr w bs = (Ok n, w') \<and> n \<noteq> 0"
    and flushes: "\<exists>w'. fl w = (Ok (), w') \<and> written w' = written w"

text \<open>Room for the next block.\<close>

definition roomy :: "('w, 'c) Aes256CbcEncryptWriter \<Rightarrow> bool" where
  "roomy self \<longleftrightarrow> 16 dvd length (ew_ciphertext self) \<and> length (ew_ciphertext self) < CIPHERTEXT_BUFFER_SIZE"

definition block_sized :: "'c block_mode \<Rightarrow> bool" where
  "block_sized enc \<longleftrightarrow> (\<forall>s block. length block = 16 \<longrightarrow> length (fst (enc s block)) = 16)"

text \<open>
  A flush that failed leaves the array full, and the next block then has no room: a writer must
  not be used again after an error.
\<close>

lemma full_buffer_stuck:
  assumes "block_sized enc" and "length (ew_ciphertext self) = CIPHERTEXT_BUFFER_SIZE" and "length (ew_pending self) \<le> 16"
  shows "encrypt_pending enc wr self = None"
proof -
  let ?block = "ew_pending self @ replicate (16 - length (ew_pending self)) 0"
  have "length ?block = 16" using assms(3) by simp
  then have "length (fst (enc (ew_cipher self) ?block)) = 16" using assms(1) unfolding block_sized_def by blast
  then show ?thesis using assms(2) by (auto simp: encrypt_pending_def Let_def split: prod.splits)
qed

context willing_sink
begin

lemma write_all_total: "\<exists>w'. write_all wr w bs = Some (Ok (), w')"
proof (induction "length bs" arbitrary: w bs rule: less_induct)
  case less
  show ?case
  proof (cases "bs = []")
    case False
    then obtain n w1 where wr: "wr w bs = (Ok n, w1)" "n \<noteq> 0" using progress by blast
    then have "length (drop n bs) < length bs" using False by simp
    from less [OF this] obtain w2 where "write_all wr w1 (drop n bs) = Some (Ok (), w2)" by blast
    then show ?thesis using wr False by (subst write_all.simps) simp
  qed (simp add: write_all.simps)
qed

lemma flush_ciphertext_total: "\<exists>self'. flush_ciphertext wr self = Some (Ok (), self') \<and> ew_ciphertext self' = []"
  using write_all_total [of "ew_inner self" "ew_ciphertext self"] by (auto simp: flush_ciphertext_def)

lemma encrypt_pending_total:
  assumes "block_sized enc" and "roomy self" and "length (ew_pending self) \<le> 16"
  shows "\<exists>self'. encrypt_pending enc wr self = Some (Ok (), self') \<and> roomy self'"
proof -
  let ?block = "ew_pending self @ replicate (16 - length (ew_pending self)) 0"
  obtain c s where c: "enc (ew_cipher self) ?block = (c, s)" by (cases "enc (ew_cipher self) ?block")
  have "length ?block = 16" using assms(3) by simp
  then have "length c = 16" using assms(1) c unfolding block_sized_def by (metis fst_conv)
  moreover obtain k where "length (ew_ciphertext self) = 16 * k" "k < 512"
    using assms(2) by (auto simp: roomy_def)
  ultimately have "\<not> length (ew_ciphertext self) + length c > CIPHERTEXT_BUFFER_SIZE"
    "16 dvd length (ew_ciphertext self) + length c" by auto
  then show ?thesis
    using c flush_ciphertext_total [of "self\<lparr>ew_cipher := s, ew_ciphertext := ew_ciphertext self @ c, ew_pending := [],
        ew_encrypted_block := True\<rparr>"]
    by (auto simp: encrypt_pending_def Let_def roomy_def)
qed

lemma encrypt_loop_total:
  assumes "block_sized enc" and "roomy self" and "length (ew_pending self) < 16"
  shows "\<exists>self'. encrypt_loop enc wr self input = Some (Ok (), self') \<and> roomy self'"
  using assms(2,3)
proof (induction "length input" arbitrary: self input rule: less_induct)
  case less
  show ?case
  proof (cases "input = []")
    case False
    define n where n: "n = min (16 - length (ew_pending self)) (length input)"
    let ?self = "self\<lparr>ew_pending := ew_pending self @ take n input\<rparr>"
    have shorter: "length (drop n input) < length input" using False less.prems(2) by (cases input) (auto simp: n)
    have room: "length (ew_pending ?self) \<le> 16" "roomy ?self" using less.prems by (simp_all add: n roomy_def)
    have step: "encrypt_loop enc wr self input =
        (if length (ew_pending ?self) = 16 then
           Option.bind (encrypt_pending enc wr ?self) (\<lambda>(result, self).
             case result of
               Err e \<Rightarrow> Some (Err e, self)
             | Ok _ \<Rightarrow> encrypt_loop enc wr self (drop n input))
         else encrypt_loop enc wr ?self (drop n input))"
      by (subst encrypt_loop.simps) (simp only: Let_def False if_False n)
    show ?thesis
    proof (cases "length (ew_pending ?self) = 16")
      case True
      obtain s1 where s1: "encrypt_pending enc wr ?self = Some (Ok (), s1)" "roomy s1"
        using encrypt_pending_total [OF assms(1) room(2,1)] by blast
      then have "ew_pending s1 = []"
        unfolding encrypt_pending_def by (auto simp: Let_def split: if_splits prod.splits dest: flush_ciphertext_written)
      with less.hyps [OF shorter s1(2)] s1(1) True show ?thesis unfolding step by simp
    next
      case False
      with less.hyps [OF shorter room(2)] room(1) show ?thesis unfolding step by simp
    qed
  qed (use less.prems in \<open>simp add: encrypt_loop.simps\<close>)
qed

lemma write_pieces_total:
  assumes "block_sized enc" and "roomy self" and "length (ew_pending self) < 16"
    and "encrypting enc s0 written before data self"
    and "unat (ew_plaintext_size self) + length (concat ps) < 2 ^ 64"
  shows "\<exists>self'. write_pieces enc wr self ps = Some (Ok (), self') \<and> roomy self'"
  using assms(2-)
proof (induction ps arbitrary: self data)
  case (Cons p ps)
  obtain s1 where s1: "encrypt_loop enc wr self p = Some (Ok (), s1)" "roomy s1"
    using encrypt_loop_total [OF assms(1) Cons.prems(1,2)] by blast
  note s1' = encrypt_loop_written [OF s1(1) Cons.prems(3,2)]
  have len: "unat (of_nat (length p) :: u64) = length p" using Cons.prems(4) by (simp add: unat_of_nat)
  let ?sz = "ew_plaintext_size self + of_nat (length p)"
  have sz: "u64_checked_add (ew_plaintext_size self) (of_nat (length p)) = Some ?sz"
    "unat ?sz = unat (ew_plaintext_size self) + length p"
    using Cons.prems(4) len by (simp_all add: u64_checked_add_eq_Some unat_word_ariths)
  let ?s = "s1\<lparr>ew_plaintext_size := ?sz\<rparr>"
  have "EncryptWriter_write enc wr self p = Some (Ok (length p), ?s)"
    using s1 sz by (simp add: EncryptWriter_write_def)
  moreover have "\<exists>self'. write_pieces enc wr ?s ps = Some (Ok (), self') \<and> roomy self'"
    by (rule Cons.IH) (use s1 s1' sz Cons.prems(4) in \<open>auto simp: roomy_def encrypting_def\<close>)
  ultimately show ?case by simp
qed simp

lemma encrypting_finished:
  assumes "encrypting enc s0 written before (data @ replicate (16 - length (ew_pending self)) 0) self'"
    and "ew_pending self' = []" and "encrypting enc s0 written before data self"
    and "ew_pending self \<noteq> [] \<or> \<not> ew_encrypted_block self" and "length (ew_pending self) < 16"
  shows "written (ew_inner self') @ ew_ciphertext self' =
    before @ encrypt_blocks enc s0 (data @ replicate (max ((length data + 15) div 16 * 16) 16 - length data) 0)"
proof -
  obtain full where full: "data = full @ ew_pending self" "16 dvd length full" "ew_encrypted_block self \<longleftrightarrow> full \<noteq> []"
    using assms(3) by (auto simp: encrypting_def)
  then obtain k where k: "length full = 16 * k" by blast
  have "max ((length data + 15) div 16 * 16) 16 = 16 * k + 16"
  proof (cases "ew_pending self = []")
    case False
    then have "(length (ew_pending self) + 15) div 16 = 1" using assms(5) by (cases "ew_pending self") auto
    then show ?thesis using full(1) k by (simp add: add.assoc)
  qed (use full assms(4) k in auto)
  then have "max ((length data + 15) div 16 * 16) 16 - length data = 16 - length (ew_pending self)"
    using full(1) k by simp
  then show ?thesis using assms(1,2) by (auto simp: encrypting_def)
qed

lemma encrypting_whole:
  assumes "encrypting enc s0 written before data self" and "\<not> (ew_pending self \<noteq> [] \<or> \<not> ew_encrypted_block self)"
  shows "written (ew_inner self) @ ew_ciphertext self =
    before @ encrypt_blocks enc s0 (data @ replicate (max ((length data + 15) div 16 * 16) 16 - length data) 0)"
proof -
  obtain full where full: "data = full" "16 dvd length full" "full \<noteq> []"
    "written (ew_inner self) @ ew_ciphertext self = before @ encrypt_blocks enc s0 full"
    using assms by (auto simp: encrypting_def)
  then obtain k where k: "length full = 16 * k" by blast
  moreover from this full(3) have "0 < k" by (cases k) auto
  ultimately have "max ((length data + 15) div 16 * 16) 16 = length data" using full(1) by simp
  then show ?thesis using full by simp
qed

lemma finish_total:
  assumes "block_sized enc" and "encrypting enc s0 written before data self" and "roomy self"
    and "length (ew_pending self) < 16"
  shows "\<exists>w. EncryptWriter_finish enc wr fl self = Some (Ok (w, ew_plaintext_size self)) \<and>
    written w = before @ encrypt_blocks enc s0 (data @ replicate (max ((length data + 15) div 16 * 16) 16 - length data) 0)"
proof -
  let ?tail = "ew_pending self \<noteq> [] \<or> \<not> ew_encrypted_block self"
  have "\<exists>s1. (if ?tail then encrypt_pending enc wr self else Some (Ok (), self)) = Some (Ok (), s1) \<and>
      ew_plaintext_size s1 = ew_plaintext_size self \<and> written (ew_inner s1) @ ew_ciphertext s1 =
      before @ encrypt_blocks enc s0 (data @ replicate (max ((length data + 15) div 16 * 16) 16 - length data) 0)"
  proof (cases ?tail)
    case True
    obtain s1 where s1: "encrypt_pending enc wr self = Some (Ok (), s1)"
      using encrypt_pending_total [OF assms(1,3)] assms(4) by fastforce
    from encrypt_pending_written [OF this assms(2)] assms(4) encrypting_finished [OF _ _ assms(2) True assms(4), of s1]
    show ?thesis using True s1 by simp
  next
    case False
    with encrypting_whole [OF assms(2) False] show ?thesis by simp
  qed
  then obtain s1 where s1: "(if ?tail then encrypt_pending enc wr self else Some (Ok (), self)) = Some (Ok (), s1)"
    "ew_plaintext_size s1 = ew_plaintext_size self" "written (ew_inner s1) @ ew_ciphertext s1 =
      before @ encrypt_blocks enc s0 (data @ replicate (max ((length data + 15) div 16 * 16) 16 - length data) 0)" by blast
  obtain s2 where s2: "flush_ciphertext wr s1 = Some (Ok (), s2)" using flush_ciphertext_total by blast
  obtain w where w: "fl (ew_inner s2) = (Ok (), w)" "written w = written (ew_inner s2)" using flushes by blast
  show ?thesis
    using s1 s2 w flush_ciphertext_written [OF s2] unfolding EncryptWriter_finish_def by simp
qed

lemma writer_encrypts:
  assumes "block_sized enc" and "length (concat ps) < 2 ^ 64"
  shows "\<exists>self w. write_pieces enc wr (EncryptWriter_new cbc_new w0 key iv) ps = Some (Ok (), self) \<and>
    EncryptWriter_finish enc wr fl self = Some (Ok (w, of_nat (length (concat ps)))) \<and>
    written w = written w0 @ encrypt_aes256_cbc_zero_pad cbc_new enc (concat ps) key iv"
proof -
  let ?new = "EncryptWriter_new cbc_new w0 key iv"
  have start: "encrypting enc (cbc_new key iv) written (written w0) [] ?new" "roomy ?new"
    "length (ew_pending ?new) < 16" "ew_plaintext_size ?new = 0"
    by (simp_all add: EncryptWriter_new_def encrypting_def roomy_def)
  obtain self where self: "write_pieces enc wr ?new ps = Some (Ok (), self)" "roomy self"
    using write_pieces_total [OF assms(1) start(2,3,1)] assms(2) start(4) by auto
  have "list_all (\<lambda>p. length p < usize_limit) ps"
    using assms(2) by (induction ps) auto
  from write_pieces_written [OF self(1) start(1,3) this] start(4)
  have w: "encrypting enc (cbc_new key iv) written (written w0) (concat ps) self" "length (ew_pending self) < 16"
    "unat (ew_plaintext_size self) = length (concat ps)" by simp_all
  from w(3) have "ew_plaintext_size self = of_nat (length (concat ps))" by (rule word_of_unat)
  with finish_total [OF assms(1) w(1) self(2) w(2)] self(1) show ?thesis
    by (auto simp: encrypt_aes256_cbc_zero_pad_def)
qed

end

text \<open>A vector, and its \<open>flush\<close>, which does nothing.\<close>

definition vec_flush :: "bytes flusher" where
  "vec_flush w = (Ok (), w)"

interpretation vec_out: willing_sink vec_write "\<lambda>w. w" vec_flush
  by unfold_locales (auto simp: vec_write_def vec_flush_def)


subsection \<open>The reader\<close>

context infallible_source
begin

lemma read_one_total:
  obtains bs r' where "read_one rd r n = Some (Ok bs, r')" "rest r = bs @ rest r'" "length bs \<le> n"
    "0 < n \<Longrightarrow> bs = [] \<Longrightarrow> rest r = []"
proof -
  obtain bs r' where "rd r n = (Ok bs, r')" "rest r = bs @ rest r'" "length bs \<le> n" by (rule rest_unfold)
  then show thesis using ends by (intro that [of bs r']) (auto simp: read_one.simps)
qed

lemma read_exact_total:
  "n \<le> length (rest r) \<Longrightarrow>
     \<exists>r'. read_exact rd r n filled = Some (Ok (filled @ take n (rest r)), r') \<and> rest r' = drop n (rest r)"
proof (induction n arbitrary: r filled rule: less_induct)
  case (less n)
  show ?case
  proof (cases "n = 0")
    case False
    obtain bs r1 where rd: "rd r n = (Ok bs, r1)" "rest r = bs @ rest r1" "length bs \<le> n" by (rule rest_unfold)
    then have bs: "bs \<noteq> []" using ends False less.prems by fastforce
    then have "n - length bs < n" "n - length bs \<le> length (rest r1)" using False rd less.prems by auto
    from less.IH [OF this, of "filled @ bs"] show ?thesis
      using rd bs False by (subst read_exact.simps) auto
  qed (simp add: read_exact.simps)
qed

end

text \<open>
  What the crate cbc documents of an encryptor and the decryptor with the same key and initialization
  vector: blocks of 16 bytes, and each decrypted block is the one that was encrypted. \<open>paired\<close>
  relates their states.
\<close>

definition modes_paired :: "'c block_mode \<Rightarrow> 'd block_mode \<Rightarrow> ('c \<Rightarrow> 'd \<Rightarrow> bool) \<Rightarrow> bool" where
  "modes_paired enc dec paired \<longleftrightarrow> (\<forall>c d block x c'. paired c d \<longrightarrow> length block = 16 \<longrightarrow> enc c block = (x, c') \<longrightarrow>
     length x = 16 \<and> (\<exists>d'. dec d x = (block, d') \<and> paired c' d'))"

text \<open>
  The plaintext still to come is \<open>todo\<close>: what is left of the decrypted block, then the front of
  \<open>pad\<close>, whose encryption is what the reader inside still has.
\<close>

definition decrypting :: "'c block_mode \<Rightarrow> ('c \<Rightarrow> 'd \<Rightarrow> bool) \<Rightarrow> ('r \<Rightarrow> bytes) \<Rightarrow> bytes \<Rightarrow> bytes \<Rightarrow>
    ('r, 'd) Aes256CbcDecryptReader \<Rightarrow> bool" where
  "decrypting enc paired rest todo pad self \<longleftrightarrow>
     (let here = take (dr_plaintext_length self - dr_plaintext_position self)
            (drop (dr_plaintext_position self) (dr_plaintext self)) in
      (\<exists>c. paired c (dr_cipher self) \<and> rest (dr_inner self) = encrypt_blocks enc c pad) \<and>
      16 dvd length pad \<and> dr_plaintext_position self \<le> dr_plaintext_length self \<and> dr_plaintext_length self \<le> 16 \<and>
      length (dr_plaintext self) = 16 \<and> todo = here @ take (length todo - length here) pad \<and>
      (\<exists>sz. dr_plaintext_size self = Some sz \<and> unat sz = unat (dr_plaintext_read self) + length todo) \<and>
      (\<exists>sz. dr_expected_ciphertext_size self = Some sz \<and> unat sz = unat (dr_ciphertext_read self) + length pad) \<and>
      (dr_finished self \<longrightarrow> pad = []))"

lemma paired_blocks_length:
  assumes "modes_paired enc dec paired" and "16 dvd length data" and "paired c d"
  shows "length (encrypt_blocks enc c data) = length data"
  using assms(2,3)
proof (induction c data arbitrary: d rule: blocks_induct [where enc = enc])
  case (block c block data x c')
  then obtain d' where "paired c' d'" "length x = 16" using assms(1) unfolding modes_paired_def by blast
  with block show ?case by (simp add: encrypt_blocks_block)
qed simp

context infallible_source
begin

lemma read_block_next:
  assumes "modes_paired enc dec paired" and "decrypting enc paired rest todo pad self"
    and "dr_plaintext_position self = dr_plaintext_length self"
  shows "\<exists>self' pad'. read_block dec rd self = Some (Ok (pad \<noteq> []), self') \<and> decrypting enc paired rest todo pad' self' \<and>
    (if pad = [] then pad' = [] else length pad = length pad' + 16)"
proof -
  from assms(2,3) obtain c N X where inv: "paired c (dr_cipher self)" "rest (dr_inner self) = encrypt_blocks enc c pad"
    "16 dvd length pad" "dr_plaintext_length self \<le> 16" "length (dr_plaintext self) = 16" "todo = take (length todo) pad"
    "dr_plaintext_size self = Some N" "unat N = unat (dr_plaintext_read self) + length todo"
    "dr_expected_ciphertext_size self = Some X" "unat X = unat (dr_ciphertext_read self) + length pad"
    "dr_finished self \<Longrightarrow> pad = []"
    by (auto simp: decrypting_def Let_def)
  have whole: "dr_ciphertext_read self = X \<longleftrightarrow> pad = []" using inv(10) by (auto simp: word_unat_eq_iff)
  show ?thesis
  proof (cases "pad = []")
    case True
    then have empty: "rest (dr_inner self) = []" using inv by simp
    obtain bs r where r: "read_one rd (dr_inner self) 1 = Some (Ok bs, r)" "rest (dr_inner self) = bs @ rest r"
      by (rule read_one_total)
    then have "read_block dec rd self =
        Some (Ok False, if dr_finished self then self else self\<lparr>dr_inner := r, dr_finished := True\<rparr>)"
      using whole True inv(9) empty by (simp add: read_block_def Let_def)
    then show ?thesis
      using True inv assms(3) r empty by (auto simp: decrypting_def Let_def intro!: exI [of _ "[]"])
  next
    case False
    then have "16 \<le> length pad" using inv(3) by (auto dest: dvd_imp_le)
    define block pad' where "block = take 16 pad" and "pad' = drop 16 pad"
    have pad: "pad = block @ pad'" "length block = 16" "16 dvd length pad'"
      using \<open>16 \<le> length pad\<close> inv(3) by (simp_all add: block_def pad'_def dvd_diff_nat)
    obtain x c' where x: "enc c block = (x, c')" by (cases "enc c block")
    with assms(1) inv(1) pad(2) obtain d' where d': "length x = 16" "dec (dr_cipher self) x = (block, d')" "paired c' d'"
      unfolding modes_paired_def by blast
    have content: "rest (dr_inner self) = x @ encrypt_blocks enc c' pad'"
      using inv(2) pad x by (simp add: encrypt_blocks_block)
    obtain bs r where r: "read_one rd (dr_inner self) 1 = Some (Ok bs, r)" "rest (dr_inner self) = bs @ rest r"
      "length bs \<le> 1" "bs = [] \<Longrightarrow> rest (dr_inner self) = []" by (rule read_one_total [of "dr_inner self" 1]) auto
    have "bs \<noteq> []" using content d'(1) r(4) by auto
    with r(3) have bs: "length bs = 1" "bs \<noteq> []" by (cases bs; simp)+
    have all: "bs @ rest r = x @ encrypt_blocks enc c' pad'" using r(2) content by simp
    then have "length (bs @ rest r) = length (x @ encrypt_blocks enc c' pad')" by simp
    then have "15 \<le> length (rest r)" using d'(1) bs(1) by simp
    from read_exact_total [OF this, of bs] obtain r' where r': "read_exact rd r 15 bs = Some (Ok (bs @ take 15 (rest r)), r')"
      "rest r' = drop 15 (rest r)" by blast
    have "bs @ take 15 (rest r) = take 16 (bs @ rest r)" "drop 15 (rest r) = drop 16 (bs @ rest r)"
      using bs(1) by simp_all
    then have "bs @ take 15 (rest r) = x" "rest r' = encrypt_blocks enc c' pad'"
      unfolding all r'(2) using d'(1) by simp_all
    note r' = r'(1) [unfolded this(1)] this(2)
    have X: "unat (dr_ciphertext_read self) + 16 \<le> unat X" using inv(10) pad by simp
    then have next_read: "u64_checked_add (dr_ciphertext_read self) 16 = Some (dr_ciphertext_read self + 16)"
      "unat (dr_ciphertext_read self + 16) = unat (dr_ciphertext_read self) + 16"
      using unat_u64_less [of X] by (simp_all add: u64_checked_add_eq_Some unat_word_ariths)
    define len where "len = min (length todo) 16"
    have len: "unat (min (u64_saturating_sub N (dr_plaintext_read self)) 16) = len"
      using inv(8) by (simp add: len_def u64_saturating_sub_def min_def word_le_nat_alt unat_sub)
    let ?self = "self\<lparr>dr_inner := r', dr_cipher := d', dr_ciphertext_read := dr_ciphertext_read self + 16,
      dr_plaintext := block, dr_plaintext_position := 0, dr_plaintext_length := len\<rparr>"
    have running: "\<not> dr_finished self" using inv(11) False by blast
    have "read_block dec rd self = Some (Ok True, ?self)"
      using inv(7,9) running False whole r bs r' d' next_read len
      by (simp add: read_block_def Let_def)
    moreover have "todo = take len block @ take (length todo - len) pad'"
      using inv(6) pad(1,2) unfolding len_def by (metis min.commute min_def take_all take_append append_Nil2 diff_is_0_eq' nle_le take0)
    then have "decrypting enc paired rest todo pad' ?self"
      using inv(7-10) pad next_read d' r' running unfolding decrypting_def Let_def
      by (auto simp: len_def)
    ultimately show ?thesis using False pad by auto
  qed
qed

lemma fill_plaintext_total:
  assumes "modes_paired enc dec paired" and "decrypting enc paired rest todo pad self"
  shows "\<exists>got self' pad'. fill_plaintext dec rd self = Some (Ok got, self') \<and> decrypting enc paired rest todo pad' self' \<and>
    (if got then dr_plaintext_position self' \<noteq> dr_plaintext_length self' else todo = [])"
  using assms(2)
proof (induction "length pad" arbitrary: pad self rule: less_induct)
  case less
  show ?case
  proof (cases "dr_plaintext_position self = dr_plaintext_length self")
    case True
    from read_block_next [OF assms(1) less.prems True] obtain self' pad' where next_block:
      "read_block dec rd self = Some (Ok (pad \<noteq> []), self')" "decrypting enc paired rest todo pad' self'"
      "if pad = [] then pad' = [] else length pad = length pad' + 16" by blast
    show ?thesis
    proof (cases "pad = []")
      case empty: True
      then have "todo = []" using less.prems True by (simp add: decrypting_def Let_def)
      with next_block empty show ?thesis using True by (subst fill_plaintext.simps) auto
    next
      case False
      then have "length pad' < length pad" using next_block(3) by simp
      from less.hyps [OF this next_block(2)] show ?thesis
        using next_block(1) False True by (subst fill_plaintext.simps) simp
    qed
  next
    case False
    with less.prems show ?thesis by (subst fill_plaintext.simps) auto
  qed
qed

lemma decrypt_read_total:
  assumes "modes_paired enc dec paired" and "decrypting enc paired rest todo pad self" and "n \<noteq> 0"
  shows "\<exists>bs self' todo' pad'. DecryptReader_read dec rd self n = Some (Ok bs, self') \<and> todo = bs @ todo' \<and>
    decrypting enc paired rest todo' pad' self' \<and> (bs = [] \<longrightarrow> todo = [])"
proof -
  from fill_plaintext_total [OF assms(1,2)] obtain got s1 pad' where s1:
    "fill_plaintext dec rd self = Some (Ok got, s1)" "decrypting enc paired rest todo pad' s1"
    "if got then dr_plaintext_position s1 \<noteq> dr_plaintext_length s1 else todo = []" by blast
  show ?thesis
  proof (cases got)
    case True
    define here where "here = take (dr_plaintext_length s1 - dr_plaintext_position s1)
      (drop (dr_plaintext_position s1) (dr_plaintext s1))"
    define len where "len = min n (dr_plaintext_length s1 - dr_plaintext_position s1)"
    have inv: "dr_plaintext_position s1 < dr_plaintext_length s1" "dr_plaintext_length s1 \<le> 16"
      "length (dr_plaintext s1) = 16" "todo = here @ take (length todo - length here) pad'"
      using s1(2,3) True by (auto simp: decrypting_def Let_def here_def)
    have taken: "take len (drop (dr_plaintext_position s1) (dr_plaintext s1)) = take len here"
      "length here = dr_plaintext_length s1 - dr_plaintext_position s1"
      using inv(2,3) by (auto simp: here_def len_def)
    have rest_here: "drop len here = take (dr_plaintext_length s1 - (dr_plaintext_position s1 + len))
        (drop (dr_plaintext_position s1 + len) (dr_plaintext s1))"
      by (simp add: here_def drop_take add.commute diff_diff_left)
    from s1(2) obtain sz where sz: "dr_plaintext_size s1 = Some sz" "unat sz = unat (dr_plaintext_read s1) + length todo"
      by (auto simp: decrypting_def Let_def)
    have len: "0 < len" "len \<le> length here" using inv assms(3) taken(2) by (auto simp: len_def)
    moreover have "length here \<le> length todo" by (subst inv(4)) simp
    ultimately have k: "u64_checked_add (dr_plaintext_read s1) (of_nat len) = Some (dr_plaintext_read s1 + of_nat len)"
      "unat (dr_plaintext_read s1 + of_nat len) = unat (dr_plaintext_read s1) + len"
      using sz(2) unat_u64_less [of sz] by (simp_all add: u64_checked_add_eq_Some unat_word_ariths unat_of_nat)
    let ?s = "s1\<lparr>dr_plaintext_position := dr_plaintext_position s1 + len, dr_plaintext_read := dr_plaintext_read s1 + of_nat len\<rparr>"
    have read: "DecryptReader_read dec rd self n = Some (Ok (take len here), ?s)"
      using s1(1) True assms(3) k taken(1) by (simp add: DecryptReader_read_def Let_def flip: len_def)
    define todo' where "todo' = drop len here @ take (length todo - length here) pad'"
    have todo: "todo = take len here @ todo'" by (subst inv(4)) (simp add: todo'_def flip: append_assoc)
    have "length todo' - length (drop len here) = length todo - length here"
    proof -
      have "length todo = length (take len here) + length todo'" by (subst todo) simp
      then show ?thesis using len(2) by simp
    qed
    then have "todo' = drop len here @ take (length todo' - length (drop len here)) pad'" by (simp add: todo'_def)
    moreover have "unat sz = unat (dr_plaintext_read s1 + of_nat len) + length todo'"
    proof -
      have "length todo = length (take len here) + length todo'" by (subst todo) simp
      then show ?thesis using len(2) k(2) sz(2) by simp
    qed
    ultimately have "decrypting enc paired rest todo' pad' ?s"
      using s1(2) sz(1) len taken(2) inv(1) unfolding decrypting_def Let_def rest_here by auto
    moreover have "take len here \<noteq> []" using len by (cases here) auto
    ultimately show ?thesis using read todo by blast
  next
    case False
    then show ?thesis using s1 assms(3) by (auto simp: DecryptReader_read_def)
  qed
qed

lemma decrypt_to_end_total:
  assumes "modes_paired enc dec paired" and "decrypting enc paired rest todo pad self"
  shows "\<exists>self'. read_to_end sz (settled (DecryptReader_read dec rd)) self out = Some (Ok (out @ todo), self')"
  using assms(2)
proof (induction "length todo" arbitrary: todo pad self out rule: less_induct)
  case less
  from decrypt_read_total [OF assms(1) less.prems, of "Suc (sz (length out))"] obtain bs s1 todo' pad' where s1:
    "DecryptReader_read dec rd self (Suc (sz (length out))) = Some (Ok bs, s1)" "todo = bs @ todo'"
    "decrypting enc paired rest todo' pad' s1" "bs = [] \<longrightarrow> todo = []" by auto
  from s1(1) have step: "settled (DecryptReader_read dec rd) self (Suc (sz (length out))) = (Ok bs, s1)"
    by (simp add: settled_def)
  note next_step = read_to_end_next [of "settled (DecryptReader_read dec rd)" self sz out, OF step]
  show ?case
  proof (cases "bs = []")
    case False
    then have "length todo' < length todo" using s1(2) by simp
    from less.hyps [OF this s1(3), of "out @ bs"] show ?thesis
      using next_step False s1(2) by auto
  qed (use next_step s1(4) in auto)
qed

lemma padded_size:
  assumes "length data + 15 < 2 ^ 64"
  shows "encrypted_size_for_plaintext (of_nat (length data)) = Ok (of_nat (max ((length data + 15) div 16 * 16) 16)) \<and>
    max ((length data + 15) div 16 * 16) 16 < 2 ^ 64"
proof (cases "data = []")
  case False
  let ?n = "of_nat (length data) :: u64"
  have n: "unat ?n = length data" using assms by (simp add: unat_of_nat)
  then have "?n \<noteq> 0" using False by (metis length_0_conv unat_eq_zero)
  moreover have sum: "unat (?n + 15) = length data + 15" using assms n by (simp add: unat_word_ariths)
  then have "u64_checked_add ?n 15 = Some (?n + 15)"
    using n by (simp add: u64_checked_add_eq_Some)
  moreover have le: "(length data + 15) div 16 * 16 \<le> length data + 15" by simp
  moreover have "16 \<le> (length data + 15) div 16 * 16" using False by (cases data) auto
  moreover have "(?n + 15) div 16 * 16 = of_nat ((length data + 15) div 16 * 16)"
  proof (rule word_of_unat)
    show "unat ((?n + 15) div 16 * 16) = (length data + 15) div 16 * 16"
      using sum le assms by (simp add: unat_word_ariths unat_div)
  qed
  ultimately show ?thesis
    using assms by (auto simp: encrypted_size_for_plaintext_def max_def)
qed (simp add: encrypted_size_for_plaintext_def)

lemma DecryptReader_new_decrypting:
  assumes "paired (enc_new key iv) (dec_new key iv)" and "length data + 15 < 2 ^ 64"
    and "rest r = encrypt_aes256_cbc_zero_pad enc_new enc data key iv"
    and "known = None \<or> known = Some (of_nat (max ((length data + 15) div 16 * 16) 16))"
  shows "\<exists>self pad. DecryptReader_new dec_new r key iv known (Some (of_nat (length data))) = Ok self \<and>
    decrypting enc paired rest data pad self"
proof -
  define L where "L = max ((length data + 15) div 16 * 16) 16"
  let ?pad = "data @ replicate (L - length data) 0"
  note padded = padded_size [OF assms(2), folded L_def]
  have "length data \<le> (length data + 15) div 16 * 16" by linarith
  then have dvd: "16 dvd L" "length data \<le> L" by (simp_all add: L_def max_def)
  have len: "unat (of_nat L :: u64) = L" using padded by (simp add: unat_of_nat)
  have data: "unat (of_nat (length data) :: u64) = length data" using assms(2) by (simp add: unat_of_nat)
  have "unat ((of_nat L :: u64) mod 16) = L mod 16" using len by (simp add: unat_mod)
  then have mod: "(of_nat L :: u64) mod 16 = 0" using dvd by (metis dvd_imp_mod_0 unat_eq_zero)
  define self where "self = \<lparr>dr_inner = r, dr_cipher = dec_new key iv, dr_plaintext = replicate 16 0,
      dr_plaintext_position = 0, dr_plaintext_length = 0, dr_plaintext_size = Some (of_nat (length data)),
      dr_plaintext_read = 0, dr_ciphertext_size = known, dr_ciphertext_read = 0,
      dr_expected_ciphertext_size = Some (of_nat L), dr_finished = False\<rparr>"
  have "DecryptReader_new dec_new r key iv known (Some (of_nat (length data))) = Ok self"
    using assms(4) padded unfolding L_def [symmetric]
    by (auto simp: DecryptReader_new_def self_def mod)
  moreover have "rest r = encrypt_blocks enc (enc_new key iv) ?pad"
    using assms(3) by (simp add: encrypt_aes256_cbc_zero_pad_def flip: L_def)
  then have "decrypting enc paired rest data ?pad self"
    unfolding decrypting_def Let_def self_def
    using assms(1) dvd len data by auto
  ultimately show ?thesis by blast
qed

end


section \<open>Properties\<close>

text \<open>
  C39. Encrypting as the data come is encrypting at once. Over a sink that takes what it is
  offered, any sequence of writes and a \<open>finish\<close> succeed; the sink then has exactly what
  \<open>encrypt_aes256_cbc_zero_pad\<close> makes of the pieces together, and the plaintext size that is
  returned is theirs.
\<close>

theorem encrypt_writer_whole:
  assumes "willing_sink wr written fl" and "block_sized enc" and "length (concat ps) < 2 ^ 64"
  shows "\<exists>self w. write_pieces enc wr (EncryptWriter_new cbc_new w0 key iv) ps = Some (Ok (), self) \<and>
    EncryptWriter_finish enc wr fl self = Some (Ok (w, of_nat (length (concat ps)))) \<and>
    written w = written w0 @ encrypt_aes256_cbc_zero_pad cbc_new enc (concat ps) key iv"
  by (rule willing_sink.writer_encrypts [OF assms])

text \<open>A block mode for examples: each block is combined with the key and the block before.\<close>

definition xor_mode :: "(bytes \<times> bytes) block_mode" where
  "xor_mode s block = (let c = map2 (XOR) (map2 (XOR) block (snd s @ replicate 16 0)) (fst s @ replicate 16 0) in (c, fst s, c))"

lemma xor_mode_sized: "block_sized xor_mode"
  by (auto simp: block_sized_def xor_mode_def Let_def)

theorem encrypt_writer_whole_witness:
  "\<exists>self w. write_pieces xor_mode vec_write (EncryptWriter_new Pair [7] [1] [2]) [[1, 2], [3]] = Some (Ok (), self) \<and>
    EncryptWriter_finish xor_mode vec_write vec_flush self = Some (Ok (w, 3)) \<and>
    w = [7] @ encrypt_aes256_cbc_zero_pad Pair xor_mode [1, 2, 3] [1] [2]"
  using encrypt_writer_whole [OF vec_out.willing_sink_axioms xor_mode_sized, of "[[1, 2], [3]]" Pair "[7]" "[1]" "[2]"]
  by simp

text \<open>
  C8. Decryption undoes encryption. For an encryptor and a decryptor of the same key and vector,
  a reader over what \<open>encrypt_aes256_cbc_zero_pad\<close> made is accepted with or without the size
  of the ciphertext, and reading it to the end returns the data, without the padding, whatever
  pieces the reader inside delivers and whatever sizes are asked for.
\<close>

theorem decrypt_undoes_encrypt:
  assumes "modes_paired enc dec paired" and "paired (enc_new key iv) (dec_new key iv)"
    and "infallible_source rd rest" and "length data + 15 < 2 ^ 64"
    and "rest r = encrypt_aes256_cbc_zero_pad enc_new enc data key iv"
    and "known = None \<or> known = Some (of_nat (max ((length data + 15) div 16 * 16) 16))"
  shows "\<exists>self self'. DecryptReader_new dec_new r key iv known (Some (of_nat (length data))) = Ok self \<and>
    read_to_end sz (settled (DecryptReader_read dec rd)) self [] = Some (Ok data, self')"
  using infallible_source.DecryptReader_new_decrypting [OF assms(3), where paired = paired and enc_new = enc_new and dec_new = dec_new and key = key and iv = iv, OF assms(2,4,5,6)]
    infallible_source.decrypt_to_end_total [OF assms(3,1), of data _ _ sz "[]"]
  by fastforce

text \<open>The decryptor of the example.\<close>

definition unxor_mode :: "(bytes \<times> bytes) block_mode" where
  "unxor_mode s c = (map2 (XOR) (map2 (XOR) c (fst s @ replicate 16 0)) (snd s @ replicate 16 0), fst s, c)"

lemma map2_xor_twice: "length xs \<le> length ys \<Longrightarrow> map2 (XOR) (map2 (XOR) xs ys) ys = (xs :: bytes)"
  by (induction xs ys rule: list_induct2') (simp_all add: xor.assoc)

lemma xor_modes_paired: "modes_paired xor_mode unxor_mode (=)"
  by (auto simp: modes_paired_def xor_mode_def unxor_mode_def Let_def map2_xor_twice)

theorem decrypt_undoes_encrypt_witness:
  "\<exists>self self'. DecryptReader_new Pair (Cursor_new (encrypt_aes256_cbc_zero_pad Pair xor_mode [1, 2, 3] [5] [6])) [5] [6]
      None (Some 3) = Ok self \<and>
    read_to_end (\<lambda>_. 4) (settled (DecryptReader_read unxor_mode Cursor_read)) self [] = Some (Ok [1, 2, 3], self')"
  using decrypt_undoes_encrypt [where data = "[1, 2, 3]" and known = None and sz = "\<lambda>_. 4",
      OF xor_modes_paired _ cursor.infallible_source_axioms, where key = "[5]" and iv = "[6]" and enc_new = Pair and
      dec_new = Pair and r = "Cursor_new (encrypt_aes256_cbc_zero_pad Pair xor_mode [1, 2, 3] [5] [6])"]
  by (simp add: cursor_rest_def Cursor_new_def)

text \<open>
  Coder properties survive the round trip. Properties written for a salt and a vector of at
  most 16 bytes parse back to the salt, the vector with its zeros, and the lowest six bits of the
  power, which is what the format has room for; for more the encoder fails its assertions.
\<close>

theorem aes_properties_round_trip:
  "(\<exists>props. encode_aes_properties cycles slt ivb = Some props \<and>
      AesProperties_parse props = Ok \<lparr>ap_num_cycles_power = cycles AND 0x3F, ap_salt = slt,
        ap_iv = ivb @ replicate (16 - length ivb) 0\<rparr>) =
   (length slt \<le> 16 \<and> length ivb \<le> 16)"
proof
  assume "length slt \<le> 16 \<and> length ivb \<le> 16"
  then show "\<exists>props. encode_aes_properties cycles slt ivb = Some props \<and>
      AesProperties_parse props = Ok \<lparr>ap_num_cycles_power = cycles AND 0x3F, ap_salt = slt,
        ap_iv = ivb @ replicate (16 - length ivb) 0\<rparr>"
    by (intro AesProperties_encode_parse) simp_all
qed (auto simp: encode_aes_properties_def split: if_splits)

end
