(* ===== verification/Byte_Swap.thy ===== *)
theory Byte_Swap
  imports Reader_Laws
begin

text \<open>
  \<^verbatim>\<open>src/src/byte_swap.rs\<close>: the reader that reverses the bytes of each group of two or four. A
  group may be split by the reads of the reader inside and by the buffers of the client, so
  the reader keeps the part of a group that was read and the part that was not yet handed out, both
  in one small array.
\<close>

section \<open>The reader\<close>

abbreviation MAX_SWAP_WIDTH :: nat where
  "MAX_SWAP_WIDTH \<equiv> 4"

text \<open>\<open>new\<close> asserts that the width is 2 or 4, and \<open>swap_groups_scalar\<close> has no other case.\<close>

datatype SwapWidth = Two | Four

definition width_of :: "SwapWidth \<Rightarrow> nat" where
  "width_of w = (case w of Two \<Rightarrow> 2 | Four \<Rightarrow> 4)"

record 'r ByteSwapReader =
  sw_inner :: 'r
  sw_width :: SwapWidth
  sw_pending :: bytes
  sw_pending_len :: nat
  sw_pending_output_position :: nat
  sw_pending_output_length :: nat
  sw_eof :: bool

definition ByteSwapReader_new :: "'r \<Rightarrow> SwapWidth \<Rightarrow> 'r ByteSwapReader" where
  "ByteSwapReader_new inner w =
     \<lparr>sw_inner = inner, sw_width = w, sw_pending = replicate MAX_SWAP_WIDTH 0, sw_pending_len = 0,
      sw_pending_output_position = 0, sw_pending_output_length = 0, sw_eof = False\<rparr>"

text \<open>
  The chunks of \<open>as_chunks_mut\<close>; the rest that fills no chunk stays. Reading a chunk as a word,
  swapping the bytes of the word and writing it back in the same byte order reverses the chunk.
\<close>

function swap_groups :: "nat \<Rightarrow> bytes \<Rightarrow> bytes" where
  "swap_groups w xs = (if w = 0 \<or> length xs < w then xs else rev (take w xs) @ swap_groups w (drop w xs))"
  by pat_completeness auto
termination by (relation "measure (\<lambda>(w, xs). length xs)") auto

declare swap_groups.simps [simp del]

text \<open>Copying into a part of an array.\<close>

definition put :: "nat \<Rightarrow> bytes \<Rightarrow> bytes \<Rightarrow> bytes" where
  "put p xs ys = take p ys @ xs @ drop (p + length xs) ys"

definition drain_pending_output :: "'r ByteSwapReader \<Rightarrow> nat \<Rightarrow> bytes \<times> 'r ByteSwapReader" where
  "drain_pending_output self n =
     (let remaining = sw_pending_output_length self - sw_pending_output_position self;
          count = min remaining n;
          start = sw_pending_output_position self;
          bs = take count (drop start (sw_pending self));
          self = self\<lparr>sw_pending_output_position := start + count\<rparr> in
      (bs,
       if sw_pending_output_position self = sw_pending_output_length self
       then self\<lparr>sw_pending_output_position := 0, sw_pending_output_length := 0\<rparr>
       else self))"

text \<open>The loop of \<open>read_small\<close>.\<close>

function fill_group :: "'r reader \<Rightarrow> 'r ByteSwapReader \<Rightarrow> unit io_result \<times> 'r ByteSwapReader" where
  "fill_group rd self =
     (if sw_pending_len self < width_of (sw_width self) \<and> \<not> sw_eof self then
        case rd (sw_inner self) (width_of (sw_width self) - sw_pending_len self) of
          (Err e, r) \<Rightarrow> (Err e, self\<lparr>sw_inner := r\<rparr>)
        | (Ok bs, r) \<Rightarrow>
            if bs = [] then fill_group rd (self\<lparr>sw_inner := r, sw_eof := True\<rparr>)
            else fill_group rd (self\<lparr>sw_inner := r, sw_pending := put (sw_pending_len self) bs (sw_pending self),
                   sw_pending_len := sw_pending_len self + length bs\<rparr>)
      else (Ok (), self))"
  by pat_completeness auto
termination
proof (relation "measure (\<lambda>(rd, self). width_of (sw_width self) - sw_pending_len self + (if sw_eof self then 0 else 1))", goal_cases)
  case (3 rd self answer r bs)
  then show ?case by (cases bs) auto
qed auto

declare fill_group.simps [simp del]

definition read_small :: "'r reader \<Rightarrow> 'r ByteSwapReader \<Rightarrow> nat \<Rightarrow> bytes io_result \<times> 'r ByteSwapReader" where
  "read_small rd self n =
     (if sw_pending_output_length self > 0 then
        (case drain_pending_output self n of (bs, self) \<Rightarrow> (Ok bs, self))
      else
        case fill_group rd self of
          (Err e, self) \<Rightarrow> (Err e, self)
        | (Ok _, self) \<Rightarrow>
            if sw_pending_len self = 0 then (Ok [], self)
            else
              (let w = width_of (sw_width self);
                   self = (if sw_pending_len self = w
                     then self\<lparr>sw_pending := put 0 (swap_groups w (take w (sw_pending self))) (sw_pending self)\<rparr>
                     else self);
                   self = self\<lparr>sw_pending_output_length := sw_pending_len self, sw_pending_len := 0\<rparr> in
               case drain_pending_output self n of (bs, self) \<Rightarrow> (Ok bs, self)))"

text \<open>The loop of \<open>read\<close>; \<open>filled\<close> is the filled front of the buffer, of \<open>n\<close> bytes.\<close>

function read_groups :: "'r reader \<Rightarrow> 'r ByteSwapReader \<Rightarrow> nat \<Rightarrow> bytes \<Rightarrow> bytes io_result \<times> 'r ByteSwapReader" where
  "read_groups rd self n filled =
     (if sw_eof self then (Ok filled, self)
      else
        case rd (sw_inner self) (n - length filled) of
          (Err e, r) \<Rightarrow>
            (Err e, self\<lparr>sw_inner := r, sw_pending := put 0 filled (sw_pending self), sw_pending_len := length filled\<rparr>)
        | (Ok bs, r) \<Rightarrow>
            (let self = self\<lparr>sw_inner := r, sw_eof := (bs = [])\<rparr>;
                 filled = filled @ bs;
                 w = width_of (sw_width self);
                 complete = length filled div w * w in
             if complete > 0 then
               (Ok (swap_groups w (take complete filled)),
                self\<lparr>sw_pending_len := length filled - complete,
                     sw_pending := put 0 (drop complete filled) (sw_pending self)\<rparr>)
             else if sw_eof self then (Ok filled, self)
             else read_groups rd self n filled))"
  by pat_completeness auto
termination
proof (relation "measure (\<lambda>(rd, self, n, filled). width_of (sw_width self) - length filled)", goal_cases)
  case (2 rd self n filled answer r bs self' filled' w complete)
  then have "bs \<noteq> []" "length filled' < w"
    by (auto simp: width_of_def div_eq_0_iff split: SwapWidth.splits)
  then show ?case using 2 by (cases bs) auto
qed auto

declare read_groups.simps [simp del]

definition ByteSwapReader_read :: "'r reader \<Rightarrow> 'r ByteSwapReader reader" where
  "ByteSwapReader_read rd self n =
     (if n = 0 then (Ok [], self)
      else if sw_pending_output_length self > 0 then
        (case drain_pending_output self n of (bs, self) \<Rightarrow> (Ok bs, self))
      else if n < width_of (sw_width self) then read_small rd self n
      else read_groups rd (self\<lparr>sw_pending_len := 0\<rparr>) n (take (sw_pending_len self) (sw_pending self)))"


section \<open>Laws\<close>

lemma swap_groups_append:
  "w dvd length xs \<Longrightarrow> 0 < w \<Longrightarrow> swap_groups w (xs @ ys) = swap_groups w xs @ swap_groups w ys"
proof (induction w xs rule: swap_groups.induct)
  case (1 w xs)
  show ?case
  proof (cases "xs = []")
    case False
    then have "w \<le> length xs" using 1 by (auto dest: dvd_imp_le)
    then show ?thesis
      using 1 by (subst (1 2) swap_groups.simps) (simp add: dvd_diff_nat)
  qed (use 1 in \<open>simp add: swap_groups.simps [of w "[]"]\<close>)
qed

lemma swap_groups_short: "length xs < w \<Longrightarrow> swap_groups w xs = xs"
  by (simp add: swap_groups.simps)

lemma length_swap_groups [simp]: "length (swap_groups w xs) = length xs"
  by (induction w xs rule: swap_groups.induct) (subst swap_groups.simps, auto simp: not_less)

lemma width_bounds: "0 < width_of w" "width_of w \<le> MAX_SWAP_WIDTH"
  by (simp_all add: width_of_def split: SwapWidth.split)

text \<open>The content: what is ready to be handed out, then the swapped groups of what is not.\<close>

definition ready :: "'r ByteSwapReader \<Rightarrow> bytes" where
  "ready self = take (sw_pending_output_length self - sw_pending_output_position self)
     (drop (sw_pending_output_position self) (sw_pending self))"

definition swapped_rest :: "('r \<Rightarrow> bytes) \<Rightarrow> 'r ByteSwapReader \<Rightarrow> bytes" where
  "swapped_rest rest self =
     ready self @ swap_groups (width_of (sw_width self)) (take (sw_pending_len self) (sw_pending self) @ rest (sw_inner self))"

definition swap_state :: "('r \<Rightarrow> bytes) \<Rightarrow> 'r ByteSwapReader \<Rightarrow> bool" where
  "swap_state rest self \<longleftrightarrow>
     length (sw_pending self) = MAX_SWAP_WIDTH \<and> sw_pending_len self < width_of (sw_width self) \<and>
     sw_pending_output_length self \<le> MAX_SWAP_WIDTH \<and>
     (if sw_pending_output_length self = 0 then sw_pending_output_position self = 0
      else sw_pending_output_position self < sw_pending_output_length self \<and> sw_pending_len self = 0) \<and>
     (sw_eof self \<longrightarrow> rest (sw_inner self) = [])"

text \<open>A read hands out a front part of the content, and none only at its end; a failed one loses nothing.\<close>

definition swap_step :: "('r \<Rightarrow> bytes) \<Rightarrow> nat \<Rightarrow> 'r ByteSwapReader \<Rightarrow> bytes io_result \<Rightarrow> 'r ByteSwapReader \<Rightarrow> bool" where
  "swap_step rest n self result self' \<longleftrightarrow> swap_state rest self' \<and>
    (case result of
       Err _ \<Rightarrow> swapped_rest rest self' = swapped_rest rest self
     | Ok bs \<Rightarrow> swapped_rest rest self = bs @ swapped_rest rest self' \<and> length bs \<le> n \<and>
         (bs = [] \<longrightarrow> 0 < n \<longrightarrow> swapped_rest rest self = []))"

lemma length_put: "p + length xs \<le> length ys \<Longrightarrow> length (put p xs ys) = length ys"
  by (simp add: put_def)

lemma take_put: "p + length xs \<le> length ys \<Longrightarrow> take (p + length xs) (put p xs ys) = take p ys @ xs"
  by (simp add: put_def)

lemma drain_pending_output_ready:
  assumes "drain_pending_output self n = (bs, self')" and "length (sw_pending self) = MAX_SWAP_WIDTH"
    and "sw_pending_output_position self < sw_pending_output_length self"
    and "sw_pending_output_length self \<le> MAX_SWAP_WIDTH"
  shows "ready self = bs @ ready self' \<and> length bs \<le> n \<and> (0 < n \<longrightarrow> bs \<noteq> []) \<and>
    sw_pending self' = sw_pending self \<and> sw_pending_len self' = sw_pending_len self \<and>
    sw_inner self' = sw_inner self \<and> sw_width self' = sw_width self \<and> sw_eof self' = sw_eof self \<and>
    sw_pending_output_length self' \<le> MAX_SWAP_WIDTH \<and>
    (if sw_pending_output_length self' = 0 then sw_pending_output_position self' = 0
     else sw_pending_output_position self' < sw_pending_output_length self')"
proof -
  define a b count where "a = sw_pending_output_position self" and "b = sw_pending_output_length self"
    and "count = min (b - a) n"
  have bs: "bs = take count (drop a (sw_pending self))"
    and self': "self' = (if a + count = b then self\<lparr>sw_pending_output_position := 0, sw_pending_output_length := 0\<rparr>
      else self\<lparr>sw_pending_output_position := a + count\<rparr>)"
    using assms(1) by (auto simp: drain_pending_output_def Let_def a_def b_def count_def)
  have "count + (b - (a + count)) = b - a" by (auto simp: count_def min_def)
  then have "take (b - a) xs = take count xs @ take (b - (a + count)) (drop count xs)" for xs :: bytes
    by (metis take_add)
  then have "take (b - a) (drop a (sw_pending self)) = bs @ take (b - (a + count)) (drop (a + count) (sw_pending self))"
    by (simp add: bs add.commute)
  then show ?thesis
    using assms(2-) self' by (auto simp: ready_def bs count_def simp flip: a_def b_def)
qed

context lossless_source
begin

lemma fill_group_source:
  assumes "fill_group rd self = (result, self')" and "length (sw_pending self) = MAX_SWAP_WIDTH"
    and "sw_pending_len self \<le> width_of (sw_width self)" and "sw_eof self \<longrightarrow> rest (sw_inner self) = []"
  shows "length (sw_pending self') = MAX_SWAP_WIDTH \<and> sw_width self' = sw_width self \<and>
    sw_pending_output_position self' = sw_pending_output_position self \<and>
    sw_pending_output_length self' = sw_pending_output_length self \<and>
    take (sw_pending_len self') (sw_pending self') @ rest (sw_inner self') =
      take (sw_pending_len self) (sw_pending self) @ rest (sw_inner self) \<and>
    (sw_eof self' \<longrightarrow> rest (sw_inner self') = []) \<and>
    (case result of
       Err _ \<Rightarrow> sw_pending_len self' < width_of (sw_width self)
     | Ok _ \<Rightarrow> sw_pending_len self' = width_of (sw_width self) \<or>
         sw_pending_len self' < width_of (sw_width self) \<and> rest (sw_inner self') = [])"
  using assms
proof (induction "width_of (sw_width self) - sw_pending_len self + (if sw_eof self then 0 else 1)" arbitrary: self rule: less_induct)
  case less
  let ?w = "width_of (sw_width self)" and ?p = "sw_pending_len self"
  show ?case
  proof (cases "?p < ?w \<and> \<not> sw_eof self")
    case True
    obtain answer r where rd: "rd (sw_inner self) (?w - ?p) = (answer, r)" by (cases "rd (sw_inner self) (?w - ?p)")
    show ?thesis
    proof (cases answer)
      case (Err e)
      then show ?thesis
        using less.prems True rd keeps by (subst (asm) fill_group.simps) auto
    next
      case (Ok bs)
      note src = gives [OF rd [unfolded Ok]] fits [OF rd [unfolded Ok]]
      show ?thesis
      proof (cases "bs = []")
        case empty: True
        let ?s = "self\<lparr>sw_inner := r, sw_eof := True\<rparr>"
        have "fill_group rd ?s = (result, self')"
          using less.prems(1) True rd Ok empty by (subst (asm) fill_group.simps) simp
        from less.hyps [OF _ this] show ?thesis
          using less.prems True src ends [OF rd [unfolded Ok empty]] empty by (auto split: result.splits)
      next
        case False
        let ?s = "self\<lparr>sw_inner := r, sw_pending := put ?p bs (sw_pending self), sw_pending_len := ?p + length bs\<rparr>"
        have run: "fill_group rd ?s = (result, self')"
          using less.prems(1) True rd Ok False by (subst (asm) fill_group.simps) simp
        have fit: "?p + length bs \<le> ?w" using src(2) True by linarith
        have room: "?p + length bs \<le> length (sw_pending self)"
          using less.prems(2) src(2) width_bounds(2) [of "sw_width self"] True by linarith
        have "length bs > 0" using False by simp
        then have "width_of (sw_width ?s) - sw_pending_len ?s + (if sw_eof ?s then 0 else 1) <
            ?w - ?p + (if sw_eof self then 0 else 1)" using True False by (cases bs) auto
        from less.hyps [OF this run] show ?thesis
          using less.prems True src(1) room fit by (auto simp: length_put take_put split: result.splits)
      qed
    qed
  next
    case False
    then show ?thesis using less.prems by (subst (asm) fill_group.simps) auto
  qed
qed

lemma read_groups_source:
  assumes "read_groups rd self n filled = (result, self')" and "width_of (sw_width self) = w" and "w \<le> n"
    and "length filled < w" and "swap_state rest self" and "sw_pending_output_length self = 0" and "sw_pending_len self = 0"
  shows "swap_state rest self' \<and>
    (case result of
       Err _ \<Rightarrow> swapped_rest rest self' = swap_groups w (filled @ rest (sw_inner self))
     | Ok bs \<Rightarrow> swap_groups w (filled @ rest (sw_inner self)) = bs @ swapped_rest rest self' \<and> length bs \<le> n \<and>
         (bs = [] \<longrightarrow> filled @ rest (sw_inner self) = []))"
  using assms
proof (induction "w - length filled" arbitrary: self filled rule: less_induct)
  case less
  have w: "0 < w" "w \<le> MAX_SWAP_WIDTH" using width_bounds less.prems(2) by metis+
  show ?case
  proof (cases "sw_eof self")
    case True
    then show ?thesis
      using less.prems by (subst (asm) read_groups.simps)
        (auto simp: swap_state_def swapped_rest_def ready_def swap_groups_short)
  next
    case False
    obtain answer r where rd: "rd (sw_inner self) (n - length filled) = (answer, r)"
      by (cases "rd (sw_inner self) (n - length filled)")
    show ?thesis
    proof (cases answer)
      case (Err e)
      have "result = Err e" "self' = self\<lparr>sw_inner := r, sw_pending := put 0 filled (sw_pending self), sw_pending_len := length filled\<rparr>"
        using less.prems(1) False rd Err by (subst (asm) read_groups.simps; simp)+
      then show ?thesis
        using less.prems(2-) w False keeps [OF rd [unfolded Err]]
        by (simp add: swap_state_def swapped_rest_def ready_def length_put take_put [of 0, simplified])
    next
      case (Ok bs)
      note src = gives [OF rd [unfolded Ok]] fits [OF rd [unfolded Ok]]
      let ?filled = "filled @ bs" and ?s = "self\<lparr>sw_inner := r, sw_eof := (bs = [])\<rparr>"
      define complete where "complete = length ?filled div w * w"
      have eof: "bs = [] \<Longrightarrow> rest (sw_inner self) = [] \<and> rest r = []"
        using ends [of "sw_inner self" "n - length filled" r] rd Ok src less.prems(3,4) by auto
      have state: "swap_state rest ?s" using less.prems(5) eof False by (auto simp: swap_state_def)
      have step: "(if complete > 0 then
          (Ok (swap_groups w (take complete ?filled)),
           ?s\<lparr>sw_pending_len := length ?filled - complete, sw_pending := put 0 (drop complete ?filled) (sw_pending self)\<rparr>)
        else if bs = [] then (Ok ?filled, ?s) else read_groups rd ?s n ?filled) = (result, self')"
        unfolding less.prems(1) [symmetric] using less.prems(2)
        by (subst (2) read_groups.simps) (simp add: False rd Ok Let_def complete_def cong: if_cong)
      consider (some) "complete > 0" | (none) "complete = 0" "bs = []" | (more) "complete = 0" "bs \<noteq> []" by auto
      then show ?thesis
      proof cases
        case some
        have le: "complete \<le> length ?filled" and dvd: "w dvd complete" by (simp_all add: complete_def)
        have left: "length ?filled - complete < w"
          using w by (simp add: complete_def minus_div_mult_eq_mod)
        from some step have out: "result = Ok (swap_groups w (take complete ?filled))"
          "self' = ?s\<lparr>sw_pending_len := length ?filled - complete, sw_pending := put 0 (drop complete ?filled) (sw_pending self)\<rparr>"
          by simp_all
        have len: "length (drop complete ?filled) = length ?filled - complete" "length (sw_pending self) = MAX_SWAP_WIDTH"
          using less.prems(5) by (simp_all add: swap_state_def)
        have "w dvd length (take complete ?filled)" using dvd le by (metis length_take min_absorb2)
        from swap_groups_append [OF this w(1), of "drop complete ?filled @ rest r"]
        have "swap_groups w (?filled @ rest r) = swap_groups w (take complete ?filled) @ swap_groups w (drop complete ?filled @ rest r)"
          by (simp flip: append_assoc add: append_take_drop_id del: take_append drop_append)
        moreover have "take (length ?filled - complete) (put 0 (drop complete ?filled) (sw_pending self)) = drop complete ?filled"
          using take_put [of 0 "drop complete ?filled" "sw_pending self"] len left w by simp
        moreover have "swap_groups w (take complete ?filled) \<noteq> []"
          using some le by (metis length_0_conv length_swap_groups length_take min_absorb2 nat_neq_iff)
        moreover have "length ?filled \<le> n" using src(2) less.prems(3,4) by simp
        moreover have "swap_state rest self'"
          using state left w len less.prems(2,6) by (simp add: out swap_state_def length_put)
        ultimately show ?thesis
          using src(1) less.prems(2,6) le by (simp add: out swapped_rest_def ready_def flip: append_assoc)
      next
        case none
        then have out: "result = Ok filled" "self' = ?s" using step by simp_all
        have "swap_groups w filled = filled" using less.prems(4) by (rule swap_groups_short)
        moreover have "swap_groups w [] = []" using w by (simp add: swap_groups_short)
        ultimately show ?thesis
          using state eof none(2) less.prems by (simp add: out swapped_rest_def ready_def)
      next
        case more
        then have "length ?filled < w" using w by (simp add: complete_def div_eq_0_iff)
        moreover have "w - length ?filled < w - length filled" using less.prems(4) more(2) by (cases bs) auto
        moreover have "read_groups rd ?s n ?filled = (result, self')" using step more by simp
        ultimately show ?thesis
          using less.hyps [of ?filled ?s] state less.prems src(1) by (auto split: result.splits)
      qed
    qed
  qed
qed

lemma drain_pending_output_step:
  assumes "drain_pending_output self n = (bs, self')" and "swap_state rest self"
    and "sw_pending_output_length self > 0"
  shows "swap_step rest n self (Ok bs) self'"
  using drain_pending_output_ready [OF assms(1)] assms(2,3)
  by (auto simp: swap_step_def swap_state_def swapped_rest_def split: if_splits)

lemma read_small_step:
  assumes "read_small rd self n = (result, self')" and "swap_state rest self"
  shows "swap_step rest n self result self'"
proof (cases "sw_pending_output_length self > 0")
  case True
  then show ?thesis
    using assms drain_pending_output_step [OF _ assms(2) True, of n]
    by (auto simp: read_small_def split: prod.splits)
next
  case False
  let ?w = "width_of (sw_width self)"
  obtain ok s1 where fill: "fill_group rd self = (ok, s1)" by (cases "fill_group rd self")
  note filled = fill_group_source [OF fill]
  have s: "length (sw_pending self) = MAX_SWAP_WIDTH" "sw_pending_len self < ?w" "sw_pending_output_position self = 0"
    "sw_eof self \<longrightarrow> rest (sw_inner self) = []"
    using assms(2) False by (simp_all add: swap_state_def)
  note s1 = filled [OF s(1) less_imp_le [OF s(2)] s(4)]
  show ?thesis
  proof (cases "ok = Ok () \<and> sw_pending_len s1 \<noteq> 0")
    case True
    define s2 where "s2 = (if sw_pending_len s1 = ?w
      then s1\<lparr>sw_pending := put 0 (swap_groups ?w (take ?w (sw_pending s1))) (sw_pending s1)\<rparr> else s1)"
    let ?s3 = "s2\<lparr>sw_pending_output_length := sw_pending_len s2, sw_pending_len := 0\<rparr>"
    obtain bs s4 where drain: "drain_pending_output ?s3 n = (bs, s4)" by (cases "drain_pending_output ?s3 n")
    have len: "sw_pending_len s2 = sw_pending_len s1" "sw_pending_len s1 \<le> ?w" "sw_width s1 = sw_width self"
      "length (sw_pending s1) = MAX_SWAP_WIDTH"
      using s1 True by (auto simp: s2_def)
    have out: "result = Ok bs" "self' = s4"
      using assms(1) fill drain True False len(3) unfolding read_small_def s2_def [symmetric]
      by (auto simp: Let_def simp flip: s2_def)
    have front: "take (sw_pending_len s2) (sw_pending s2) = swap_groups ?w (take (sw_pending_len s1) (sw_pending s1)) \<and>
        (sw_pending_len s1 < ?w \<longrightarrow> rest (sw_inner s1) = [])"
      using s1 True len width_bounds [of "sw_width self"] take_put [of 0 "swap_groups ?w (take ?w (sw_pending s1))" "sw_pending s1"]
      by (auto simp: s2_def swap_groups_short)
    have "swapped_rest rest self = swap_groups ?w (take (sw_pending_len s1) (sw_pending s1) @ rest (sw_inner s1))"
      using False s1 s(3) by (simp add: swapped_rest_def ready_def)
    also have "\<dots> = take (sw_pending_len s2) (sw_pending s2) @ swap_groups ?w (rest (sw_inner s1))"
    proof (cases "sw_pending_len s1 = ?w")
      case True
      then have "?w dvd length (take (sw_pending_len s1) (sw_pending s1))"
        using len(4) width_bounds [of "sw_width self"] by simp
      from swap_groups_append [OF this width_bounds(1)] show ?thesis using front by simp
    qed (use front len(2) width_bounds(1) in \<open>simp add: swap_groups_short\<close>)
    also have "\<dots> = swapped_rest rest ?s3"
      using s1 s(3) by (simp add: swapped_rest_def ready_def s2_def)
    finally have content: "swapped_rest rest self = swapped_rest rest ?s3" .
    have "swap_state rest ?s3"
      using s1 s(3) True len width_bounds [of "sw_width self"] by (auto simp: swap_state_def s2_def length_put)
    moreover have "sw_pending_output_length ?s3 > 0" using True len(1) by simp
    ultimately show ?thesis
      using drain_pending_output_step [OF drain] unfolding out swap_step_def content by blast
  next
    case none: False
    then have out: "self' = s1" "case ok of Err e \<Rightarrow> result = Err e | Ok _ \<Rightarrow> result = Ok [] \<and> sw_pending_len s1 = 0"
      using assms(1) fill False by (auto simp: read_small_def Let_def split: result.splits prod.splits if_splits)
    have "swapped_rest rest self = swapped_rest rest s1"
      using s1 s(3) False by (simp add: swapped_rest_def ready_def)
    moreover have "swap_state rest s1"
      using s1 s(3) False out(2) width_bounds [of "sw_width self"] by (auto simp: swap_state_def split: result.splits)
    moreover have "ok = Ok () \<Longrightarrow> swapped_rest rest s1 = []"
      using s1 s(3) False out(2) width_bounds [of "sw_width self"] by (auto simp: swapped_rest_def ready_def swap_groups_short)
    ultimately show ?thesis
      using out by (cases ok) (auto simp: swap_step_def)
  qed
qed

lemma ByteSwapReader_read_step:
  assumes "ByteSwapReader_read rd self n = (result, self')" and "swap_state rest self"
  shows "swap_step rest n self result self'"
proof -
  let ?w = "width_of (sw_width self)"
  consider (nothing) "n = 0" | (drain) "n \<noteq> 0" "sw_pending_output_length self > 0"
    | (small) "n \<noteq> 0" "sw_pending_output_length self = 0" "n < ?w"
    | (large) "n \<noteq> 0" "sw_pending_output_length self = 0" "?w \<le> n" by fastforce
  then show ?thesis
  proof cases
    case nothing
    then show ?thesis using assms by (auto simp: ByteSwapReader_read_def swap_step_def)
  next
    case drain
    then show ?thesis
      using assms drain_pending_output_step [OF _ assms(2) drain(2), of n]
      by (auto simp: ByteSwapReader_read_def split: prod.splits)
  next
    case small
    then show ?thesis
      using assms by (intro read_small_step) (simp_all add: ByteSwapReader_read_def)
  next
    case large
    let ?s = "self\<lparr>sw_pending_len := 0\<rparr>" and ?filled = "take (sw_pending_len self) (sw_pending self)"
    have "read_groups rd ?s n ?filled = (result, self')" using assms(1) large by (simp add: ByteSwapReader_read_def)
    from read_groups_source [OF this _ large(3)] have "swap_state rest self' \<and>
        (case result of
           Err _ \<Rightarrow> swapped_rest rest self' = swap_groups ?w (?filled @ rest (sw_inner self))
         | Ok bs \<Rightarrow> swap_groups ?w (?filled @ rest (sw_inner self)) = bs @ swapped_rest rest self' \<and> length bs \<le> n \<and>
             (bs = [] \<longrightarrow> ?filled @ rest (sw_inner self) = []))"
      using assms(2) large(2) width_bounds [of "sw_width self"] by (auto simp: swap_state_def split: result.splits)
    moreover have "swapped_rest rest self = swap_groups ?w (?filled @ rest (sw_inner self))"
      using large(2) by (simp add: swapped_rest_def ready_def)
    moreover have "swap_groups ?w [] = []" using width_bounds by (simp add: swap_groups_short)
    ultimately show ?thesis by (auto simp: swap_step_def split: result.splits)
  qed
qed

lemma swap_delivers:
  assumes "delivers (ByteSwapReader_read rd) self bs self'" and "swap_state rest self"
  shows "swap_state rest self' \<and> swapped_rest rest self = bs @ swapped_rest rest self'"
  using assms
  by (induction rule: delivers.induct)
     (auto dest!: ByteSwapReader_read_step simp: swap_step_def)

end


section \<open>Property\<close>

text \<open>
  C40. The byte-swapping reader is a reader of the swapped content. Whatever pieces the reader
  inside delivers and whatever sizes the client asks for, failures that are tried again included,
  what was delivered is a front part of the content with its groups reversed (an incomplete last
  group as it is), and a read that delivers nothing into a non-empty buffer comes at its end.
\<close>

theorem byte_swap_content:
  assumes "lossless_source rd rest" and "delivers (ByteSwapReader_read rd) (ByteSwapReader_new r w) bs self"
  shows "\<exists>left. swap_groups (width_of w) (rest r) = bs @ left \<and>
    (\<forall>n self'. ByteSwapReader_read rd self n = (Ok [], self') \<longrightarrow> n = 0 \<or> left = [])"
proof -
  have new: "swap_state rest (ByteSwapReader_new r w)" "swapped_rest rest (ByteSwapReader_new r w) = swap_groups (width_of w) (rest r)"
    by (simp_all add: ByteSwapReader_new_def swap_state_def swapped_rest_def ready_def width_bounds)
  note state = lossless_source.swap_delivers [OF assms new(1)]
  have "swapped_rest rest self = []" if "ByteSwapReader_read rd self n = (Ok [], self')" "n \<noteq> 0" for n self'
    using lossless_source.ByteSwapReader_read_step [OF assms(1) that(1) conjunct1 [OF state]] that(2)
    by (auto simp: swap_step_def)
  then show ?thesis using state new(2) by (intro exI [of _ "swapped_rest rest self"]) auto
qed

theorem byte_swap_content_witness:
  "\<exists>self left. ByteSwapReader_read Cursor_read (ByteSwapReader_new (Cursor_new [1, 2, 3]) Two) 2 = (Ok [2, 1], self) \<and>
    swap_groups (width_of Two) (cursor_rest (Cursor_new [1, 2, 3])) = [2, 1] @ left"
proof -
  obtain self where read: "ByteSwapReader_read Cursor_read (ByteSwapReader_new (Cursor_new [1, 2, 3]) Two) 2 = (Ok [2, 1], self)"
    by (simp add: ByteSwapReader_read_def ByteSwapReader_new_def Cursor_new_def read_groups.simps Cursor_read_def
        cursor_rest_def width_of_def swap_groups.simps Let_def)
  have delivers: "delivers (ByteSwapReader_read Cursor_read) (ByteSwapReader_new (Cursor_new [1, 2, 3]) Two) [2, 1] self"
    using delivers_ok [of "ByteSwapReader_read Cursor_read" _ "[]" _ 2 "[2, 1]" self, OF delivers_nil read] by simp
  from byte_swap_content [OF cursor.lossless_source_axioms delivers]
  show ?thesis using read by blast
qed

end
