(* ===== verification/Decoder_Plan.thy ===== *)
theory Decoder_Plan
  imports Folder_Bcj2 Aes Byte_Swap
begin

text \<open>
  \<^verbatim>\<open>src/src/codec/sizes.rs\<close>, \<^verbatim>\<open>src/src/codec/plan.rs\<close> and the helpers of \<^verbatim>\<open>src/src/codec.rs\<close> they
  use: the plan of a decoder. Before anything is decoded the properties of every coder are parsed,
  the sizes between the coders are resolved, and the memory of all of them is admitted.
  The memory estimates of the crate lzma_rust2 are parameters: \<open>lzma_mem\<close> is
  \<open>lzma_get_memory_usage_by_props\<close>, \<open>lzma2_mem\<close> is \<open>lzma2_get_memory_usage\<close>.
\<close>

section \<open>Sizes\<close>

datatype OutputSize = Known u64 | Unknown

definition reconcile :: "OutputSize \<Rightarrow> OutputSize \<Rightarrow> OutputSize r7z_result" where
  "reconcile self other =
     (case (self, other) of
        (Known a, Known b) \<Rightarrow> if a \<noteq> b then Err Parse else Ok self
      | (Unknown, sz) \<Rightarrow> Ok sz
      | (sz, _) \<Rightarrow> Ok sz)"

definition require :: "OutputSize \<Rightarrow> u64 r7z_result" where
  "require self =
     (case self of
        Known sz \<Rightarrow> Ok sz
      | Unknown \<Rightarrow> Err (InvalidOptions ''coder requires an output size''))"

record CoderOutputSizes =
  cs_declared :: "u64 list"
  cs_final_index :: nat
  cs_final_size :: u64

definition CoderOutputSizes_partial :: "Folder \<Rightarrow> FolderGraph \<Rightarrow> u64 \<Rightarrow> u64 list \<Rightarrow> CoderOutputSizes r7z_result" where
  "CoderOutputSizes_partial folder g final_size declared =
     (if length declared > total_out_streams folder then Err InvalidFolderGraph
      else
        let final_index = g_final_output g in
        if (case get declared final_index of None \<Rightarrow> False | Some sz \<Rightarrow> sz \<noteq> final_size) then Err Parse
        else Ok \<lparr>cs_declared = declared, cs_final_index = final_index, cs_final_size = final_size\<rparr>)"

definition CoderOutputSizes_complete :: "Folder \<Rightarrow> FolderGraph \<Rightarrow> u64 \<Rightarrow> u64 list \<Rightarrow> CoderOutputSizes r7z_result" where
  "CoderOutputSizes_complete folder g final_size declared =
     (if length declared \<noteq> total_out_streams folder then Err InvalidFolderGraph
      else CoderOutputSizes_partial folder g final_size declared)"

definition CoderOutputSizes_get :: "CoderOutputSizes \<Rightarrow> nat \<Rightarrow> OutputSize" where
  "CoderOutputSizes_get self index =
     (if index = cs_final_index self then Known (cs_final_size self)
      else (case get (cs_declared self) index of None \<Rightarrow> Unknown | Some sz \<Rightarrow> Known sz))"


section \<open>Limits and properties\<close>

abbreviation MAX_LZMA_DICTIONARY_BYTES :: nat where "MAX_LZMA_DICTIONARY_BYTES \<equiv> 268435456"
abbreviation MAX_PPMD_MEMORY_BYTES :: nat where "MAX_PPMD_MEMORY_BYTES \<equiv> 268435456"
abbreviation MAX_MATERIALIZED_OUTPUT_BYTES :: nat where "MAX_MATERIALIZED_OUTPUT_BYTES \<equiv> 536870912"
abbreviation MAX_BCJ2_OUTPUT_BYTES :: nat where "MAX_BCJ2_OUTPUT_BYTES \<equiv> 268435456"
abbreviation OTHER_CODER_WORKING_SET_BYTES :: nat where "OTHER_CODER_WORKING_SET_BYTES \<equiv> 2097152"
abbreviation DECODER_OVERHEAD_BYTES :: nat where "DECODER_OVERHEAD_BYTES \<equiv> 131072"
abbreviation AES_CBC_WORKING_SET_BYTES :: nat where "AES_CBC_WORKING_SET_BYTES \<equiv> 1024"
abbreviation BCJ_READER_WORKING_SET_BYTES :: nat where "BCJ_READER_WORKING_SET_BYTES \<equiv> 4096"
abbreviation DELTA_READER_WORKING_SET_BYTES :: nat where "DELTA_READER_WORKING_SET_BYTES \<equiv> 256"
abbreviation BCJ2_READER_WORKING_SET_BYTES :: nat where "BCJ2_READER_WORKING_SET_BYTES \<equiv> 1048576"
abbreviation MAX_FOLDER_CODERS :: nat where "MAX_FOLDER_CODERS \<equiv> 64"
abbreviation MAX_BCJ2_WORKING_BYTES :: nat where "MAX_BCJ2_WORKING_BYTES \<equiv> 536870912"

definition lzma2_dict_size :: "bytes option \<Rightarrow> u32 r7z_result" where
  "lzma2_dict_size props =
     (case props of
        None \<Rightarrow> Err (resource_limit ''LZMA dictionary'' MAX_LZMA_DICTIONARY_BYTES)
      | Some [p] \<Rightarrow>
          if p > 40 then Err Decompression
          else if p = 40 then Err (resource_limit ''LZMA dictionary'' MAX_LZMA_DICTIONARY_BYTES)
          else
            (let p = ucast p :: u32;
                 dict_size = push_bit (unat (drop_bit 1 p + 11)) (2 OR (p AND 1)) in
             if unat dict_size > MAX_LZMA_DICTIONARY_BYTES
             then Err (resource_limit ''LZMA dictionary'' MAX_LZMA_DICTIONARY_BYTES)
             else Ok dict_size)
      | Some _ \<Rightarrow> Err Decompression)"

definition branch_start_pos :: "bytes option \<Rightarrow> u32 \<Rightarrow> nat r7z_result" where
  "branch_start_pos props alignment =
     and_then
       (case (case props of None \<Rightarrow> [] | Some ps \<Rightarrow> ps) of
          [] \<Rightarrow> Ok 0
        | [a, b, c, d] \<Rightarrow> Ok (from_le_bytes [a, b, c, d])
        | _ \<Rightarrow> Err Decompression)
       (\<lambda>pos. if pos mod alignment \<noteq> 0 then Err Decompression else Ok (unat pos))"

definition ppmd_properties :: "bytes \<Rightarrow> (u32 \<times> u32) r7z_result" where
  "ppmd_properties props =
     (case props of
        [order, a, b, c, d] \<Rightarrow>
          (let mem_size = from_le_bytes [a, b, c, d] in
           if unat mem_size > MAX_PPMD_MEMORY_BYTES
           then Err (resource_limit ''PPMd memory'' MAX_PPMD_MEMORY_BYTES)
           else Ok (ucast order, mem_size))
      | _ \<Rightarrow> Err Decompression)"

definition growth_safe_output_limit :: "nat \<Rightarrow> nat" where
  "growth_safe_output_limit available = available div 2"

definition validate_folder_coder_count :: "Folder \<Rightarrow> unit r7z_result" where
  "validate_folder_coder_count folder =
     (if length (coders folder) > MAX_FOLDER_CODERS then Err (LimitExceeded ''folder coder count'') else Ok ())"

definition bcj2_output_size :: "u64 \<Rightarrow> nat r7z_result" where
  "bcj2_output_size unpack_size =
     and_then (ok_or Parse (usize_try_from unpack_size)) (\<lambda>output_size.
       if output_size > MAX_BCJ2_OUTPUT_BYTES then Err (resource_limit ''BCJ2 output'' MAX_BCJ2_OUTPUT_BYTES)
       else Ok output_size)"

definition ensure_bcj2_working_budget :: "nat \<Rightarrow> nat \<Rightarrow> unit r7z_result" where
  "ensure_bcj2_working_budget output_size decoder_memory =
     and_then (ok_or Decompression (usize_checked_add output_size decoder_memory)) (\<lambda>committed.
       if committed > MAX_BCJ2_WORKING_BYTES then Err (resource_limit ''BCJ2 working buffers'' MAX_BCJ2_WORKING_BYTES)
       else Ok ())"


section \<open>Working sets\<close>

text \<open>A \<open>WorkingSet\<close> is its number of bytes.\<close>

type_synonym WorkingSet = nat

definition WorkingSet_decoder :: "u32 \<Rightarrow> WorkingSet r7z_result" where
  "WorkingSet_decoder memory_kib =
     ok_or Decompression
       (Option.bind (usize_checked_mul (unat memory_kib) 1024) (\<lambda>n. usize_checked_add n DECODER_OVERHEAD_BYTES))"

definition WorkingSet_add :: "WorkingSet \<Rightarrow> WorkingSet \<Rightarrow> WorkingSet r7z_result" where
  "WorkingSet_add self other = ok_or Decompression (usize_checked_add self other)"

definition WorkingSet_admit :: "WorkingSet \<Rightarrow> OperationBudget \<Rightarrow> (WorkingSet \<times> OperationBudget) r7z_result" where
  "WorkingSet_admit self budget =
     and_then (admit_decoder_working_set budget (of_nat self)) (\<lambda>budget. Ok (self, budget))"

definition WorkingSet_output_limit :: "WorkingSet \<Rightarrow> nat r7z_result" where
  "WorkingSet_output_limit self =
     ok_or (resource_limit ''decoder working set'' MAX_MATERIALIZED_OUTPUT_BYTES)
       (map_option growth_safe_output_limit (checked_sub MAX_MATERIALIZED_OUTPUT_BYTES self))"


section \<open>Coders\<close>

record LzmaProperties =
  lp_props :: u8
  lp_dictionary :: u32
  lp_memory :: nat

definition LzmaProperties_parse :: "(u32 \<Rightarrow> u8 \<Rightarrow> u32 option) \<Rightarrow> bytes \<Rightarrow> LzmaProperties r7z_result" where
  "LzmaProperties_parse lzma_mem bs =
     (case bs of
        [props, a, b, c, d] \<Rightarrow>
          (let dictionary = from_le_bytes [a, b, c, d] in
           if unat dictionary > MAX_LZMA_DICTIONARY_BYTES
           then Err (resource_limit ''LZMA dictionary'' MAX_LZMA_DICTIONARY_BYTES)
           else
             and_then (ok_or Decompression (lzma_mem dictionary props)) (\<lambda>memory_kib.
             and_then (WorkingSet_decoder memory_kib) (\<lambda>memory.
               Ok \<lparr>lp_props = props, lp_dictionary = dictionary, lp_memory = memory\<rparr>)))
      | _ \<Rightarrow> Err Decompression)"

datatype CoderPlan =
    C_Copy
  | C_Lzma LzmaProperties
  | C_Lzma2 u32
  | C_X86 | C_Arm | C_ArmThumb | C_Ia64 | C_Ppc | C_Sparc
  | C_Arm64 nat
  | C_Riscv nat
  | C_Deflate
  | C_Bzip2
  | C_Ppmd u32 u32 u64
  | C_Deflate64
  | C_Delta nat
  | C_Swap SwapWidth
  | C_Aes AesProperties

definition no_properties :: "CoderInfo \<Rightarrow> unit r7z_result" where
  "no_properties coder =
     (case properties coder of
        None \<Rightarrow> Ok ()
      | Some ps \<Rightarrow> if ps = [] then Ok () else Err Decompression)"

definition CoderPlan_compile :: "(u32 \<Rightarrow> u8 \<Rightarrow> u32 option) \<Rightarrow> CoderInfo \<Rightarrow> OutputSize \<Rightarrow> CoderPlan r7z_result" where
  "CoderPlan_compile lzma_mem coder sz =
     (let props = ok_or Decompression (properties coder);
          plain = (\<lambda>plan. and_then (no_properties coder) (\<lambda>_. Ok plan));
          unsupported = Err (UnsupportedCodec (codec_id coder)) in
      case method_info (codec_id coder) of
        None \<Rightarrow> unsupported
      | Some info \<Rightarrow>
          if \<not> can_decode info then unsupported
          else
            (case mi_method info of
               M_Copy \<Rightarrow> plain C_Copy
             | M_Lzma \<Rightarrow> and_then props (\<lambda>ps. and_then (LzmaProperties_parse lzma_mem ps) (\<lambda>p. Ok (C_Lzma p)))
             | M_Lzma2 \<Rightarrow> and_then (lzma2_dict_size (properties coder)) (\<lambda>dict_size. Ok (C_Lzma2 dict_size))
             | M_Bcj \<Rightarrow> plain C_X86
             | M_Arm \<Rightarrow> plain C_Arm
             | M_ArmThumb \<Rightarrow> plain C_ArmThumb
             | M_Ia64 \<Rightarrow> plain C_Ia64
             | M_Ppc \<Rightarrow> plain C_Ppc
             | M_Sparc \<Rightarrow> plain C_Sparc
             | M_Arm64 \<Rightarrow> and_then (branch_start_pos (properties coder) 4) (\<lambda>pos. Ok (C_Arm64 pos))
             | M_Riscv \<Rightarrow> and_then (branch_start_pos (properties coder) 2) (\<lambda>pos. Ok (C_Riscv pos))
             | M_Deflate \<Rightarrow> plain C_Deflate
             | M_BZip2 \<Rightarrow> plain C_Bzip2
             | M_Ppmd \<Rightarrow>
                 and_then props (\<lambda>ps. and_then (ppmd_properties ps) (\<lambda>(order, memory).
                   and_then (require sz) (\<lambda>n. Ok (C_Ppmd order memory n))))
             | M_Deflate64 \<Rightarrow> plain C_Deflate64
             | M_Delta \<Rightarrow>
                 and_then props (\<lambda>ps. case ps of [distance] \<Rightarrow> Ok (C_Delta (unat distance + 1)) | _ \<Rightarrow> Err Decompression)
             | M_Swap2 \<Rightarrow> plain (C_Swap Two)
             | M_Swap4 \<Rightarrow> plain (C_Swap Four)
             | M_SevenZAes \<Rightarrow> and_then props (\<lambda>ps. and_then (AesProperties_parse ps) (\<lambda>p. Ok (C_Aes p)))
             | _ \<Rightarrow> unsupported))"

definition CoderPlan_working_set :: "(u32 \<Rightarrow> u32) \<Rightarrow> CoderPlan \<Rightarrow> WorkingSet r7z_result" where
  "CoderPlan_working_set lzma2_mem self =
     (case self of
        C_Lzma p \<Rightarrow> Ok (lp_memory p)
      | C_Lzma2 dictionary \<Rightarrow> WorkingSet_decoder (lzma2_mem dictionary)
      | C_Ppmd _ memory _ \<Rightarrow> ok_or Decompression (usize_checked_add (unat memory) DECODER_OVERHEAD_BYTES)
      | C_Aes _ \<Rightarrow> ok_or Decompression (usize_checked_add AES_CBC_WORKING_SET_BYTES DECODER_OVERHEAD_BYTES)
      | C_Copy \<Rightarrow> Ok 0
      | C_Swap _ \<Rightarrow> Ok 0
      | C_X86 \<Rightarrow> Ok BCJ_READER_WORKING_SET_BYTES
      | C_Arm \<Rightarrow> Ok BCJ_READER_WORKING_SET_BYTES
      | C_ArmThumb \<Rightarrow> Ok BCJ_READER_WORKING_SET_BYTES
      | C_Ia64 \<Rightarrow> Ok BCJ_READER_WORKING_SET_BYTES
      | C_Ppc \<Rightarrow> Ok BCJ_READER_WORKING_SET_BYTES
      | C_Sparc \<Rightarrow> Ok BCJ_READER_WORKING_SET_BYTES
      | C_Delta _ \<Rightarrow> Ok DELTA_READER_WORKING_SET_BYTES
      | C_Arm64 _ \<Rightarrow> Ok BCJ_READER_WORKING_SET_BYTES
      | C_Riscv _ \<Rightarrow> Ok BCJ_READER_WORKING_SET_BYTES
      | C_Deflate \<Rightarrow> Ok OTHER_CODER_WORKING_SET_BYTES
      | C_Bzip2 \<Rightarrow> Ok OTHER_CODER_WORKING_SET_BYTES
      | C_Deflate64 \<Rightarrow> Ok OTHER_CODER_WORKING_SET_BYTES)"

definition preserves_size :: "CoderPlan \<Rightarrow> bool" where
  "preserves_size self =
     (case self of
        C_Copy \<Rightarrow> True | C_X86 \<Rightarrow> True | C_Arm \<Rightarrow> True | C_ArmThumb \<Rightarrow> True | C_Ia64 \<Rightarrow> True | C_Ppc \<Rightarrow> True
      | C_Sparc \<Rightarrow> True | C_Arm64 _ \<Rightarrow> True | C_Riscv _ \<Rightarrow> True | C_Delta _ \<Rightarrow> True | C_Swap _ \<Rightarrow> True
      | _ \<Rightarrow> False)"

record SizedCoder =
  sc_coder :: CoderPlan
  sc_output :: OutputSize

record DecodeStep =
  ds_coder :: CoderPlan
  ds_input :: OutputSize
  ds_output :: OutputSize

definition SizedCoder_compile :: "(u32 \<Rightarrow> u8 \<Rightarrow> u32 option) \<Rightarrow> CoderInfo \<Rightarrow> OutputSize \<Rightarrow> SizedCoder r7z_result" where
  "SizedCoder_compile lzma_mem coder output =
     and_then (CoderPlan_compile lzma_mem coder output) (\<lambda>plan. Ok \<lparr>sc_coder = plan, sc_output = output\<rparr>)"

definition bind_size :: "SizedCoder \<Rightarrow> OutputSize \<Rightarrow> DecodeStep r7z_result" where
  "bind_size self input =
     and_then (if preserves_size (sc_coder self) then reconcile (sc_output self) input else Ok (sc_output self))
       (\<lambda>output. Ok \<lparr>ds_coder = sc_coder self, ds_input = input, ds_output = output\<rparr>)"

definition DecodeStep_working_set :: "(u32 \<Rightarrow> u32) \<Rightarrow> DecodeStep \<Rightarrow> WorkingSet r7z_result" where
  "DecodeStep_working_set lzma2_mem self = CoderPlan_working_set lzma2_mem (ds_coder self)"


section \<open>Packed inputs\<close>

text \<open>A \<open>PackedInputSlot\<close> is a position in the list of packed streams; a \<open>PackedLayout\<close> is the list of their sizes.\<close>

definition PackedLayout_size :: "u64 list \<Rightarrow> nat \<Rightarrow> nat r7z_result" where
  "PackedLayout_size sizes slot =
     and_then (ok_or InvalidFolderGraph (get sizes slot)) (\<lambda>sz. ok_or Parse (usize_try_from sz))"

record 'r PackedInput =
  pi_reader :: 'r
  pi_size :: nat

type_synonym 'r BoundInputs = "'r Take option list"

definition PackedLayout_bind :: "u64 list \<Rightarrow> 'r PackedInput list \<Rightarrow> 'r BoundInputs r7z_result" where
  "PackedLayout_bind sizes given =
     (if length given \<noteq> length sizes then Err InvalidFolderGraph
      else if list_ex (\<lambda>(input, sz). of_nat (pi_size input) \<noteq> sz) (zip given sizes) then Err Parse
      else Ok (map (\<lambda>(input, sz). Some \<lparr>tk_inner = pi_reader input, tk_limit = sz\<rparr>) (zip given sizes)))"

definition BoundInputs_take :: "'r BoundInputs \<Rightarrow> nat \<Rightarrow> ('r Take \<times> 'r BoundInputs) r7z_result" where
  "BoundInputs_take self slot =
     and_then (ok_or InvalidFolderGraph (Option.bind (get self slot) (\<lambda>input. input)))
       (\<lambda>input. Ok (input, self[slot := None]))"


section \<open>Plans\<close>

record Bcj2Slots =
  sl_main :: nat
  sl_call :: nat
  sl_jump :: nat
  sl_control :: nat

datatype Topology =
    Chain "DecodeStep list"
  | Bcj2 "DecodeStep list" "DecodeStep list" "DecodeStep list" "DecodeStep list" Bcj2Slots nat

record DecoderPlan =
  dp_topology :: Topology
  dp_memory :: WorkingSet
  dp_inputs :: "u64 list"

datatype DecoderTopology = DT_Chain | DT_Bcj2 Bcj2Layout

text \<open>
  \<open>None\<close> is a search for the BCJ2 channels that does not end; a method that is not in
  the registry is an error only without a BCJ2 coder, where the coder itself is refused later.
\<close>

definition decoder_topology :: "Folder \<Rightarrow> FolderGraph \<Rightarrow> DecoderTopology r7z_result option" where
  "decoder_topology folder g =
     map_option (\<lambda>found.
         and_then found (\<lambda>found.
           case found of
             Some layout \<Rightarrow>
               and_then (ok_or InvalidFolderGraph (List.find (\<lambda>coder. codec_id coder = CODEC_BCJ2) (coders folder)))
                 (\<lambda>bcj2. and_then (no_properties bcj2) (\<lambda>_. Ok (DT_Bcj2 layout)))
           | None \<Rightarrow>
               (case List.find (\<lambda>coder. method_from_id (codec_id coder) = None) (coders folder) of
                  Some coder \<Rightarrow> Err (UnsupportedCodec (codec_id coder))
                | None \<Rightarrow>
                    if list_all (\<lambda>coder. num_in_streams coder = 1 \<and> num_out_streams coder = 1) (coders folder)
                    then Ok DT_Chain else Err InvalidFolderGraph)))
       (bcj2_layout g folder)"

text \<open>
  The two passes over a chain: backwards over the execution order to compile the coders and to
  resolve omitted sizes through the filters, forwards to connect inputs with outputs.
\<close>

fun compile_backwards :: "(u32 \<Rightarrow> u8 \<Rightarrow> u32 option) \<Rightarrow> Folder \<Rightarrow> CoderOutputSizes \<Rightarrow> nat list \<Rightarrow> OutputSize \<Rightarrow>
    SizedCoder list r7z_result" where
  "compile_backwards lzma_mem folder szs [] next_input = Ok []"
| "compile_backwards lzma_mem folder szs (index # rest) next_input =
     and_then (ok_or InvalidFolderGraph (get (coders folder) index)) (\<lambda>coder.
     and_then (reconcile (CoderOutputSizes_get szs index) next_input) (\<lambda>output.
     and_then (SizedCoder_compile lzma_mem coder output) (\<lambda>step.
     and_then (compile_backwards lzma_mem folder szs rest
       (if preserves_size (sc_coder step) then output else Unknown)) (\<lambda>steps.
       Ok (step # steps)))))"

fun bind_sizes :: "SizedCoder list \<Rightarrow> OutputSize \<Rightarrow> DecodeStep list r7z_result" where
  "bind_sizes [] input_size = Ok []"
| "bind_sizes (step # steps) input_size =
     and_then (bind_size step input_size) (\<lambda>step.
     and_then (bind_sizes steps (ds_output step)) (\<lambda>steps. Ok (step # steps)))"

definition add_working_sets :: "(u32 \<Rightarrow> u32) \<Rightarrow> DecodeStep list \<Rightarrow> WorkingSet r7z_result" where
  "add_working_sets lzma2_mem steps =
     try_fold (\<lambda>sofar step. and_then (DecodeStep_working_set lzma2_mem step) (WorkingSet_add sofar)) 0 steps"

definition compile_chain :: "(u32 \<Rightarrow> u8 \<Rightarrow> u32 option) \<Rightarrow> (u32 \<Rightarrow> u32) \<Rightarrow> Folder \<Rightarrow> FolderGraph \<Rightarrow> CoderOutputSizes \<Rightarrow>
    u64 list \<Rightarrow> OperationBudget \<Rightarrow> (DecoderPlan \<times> OperationBudget) r7z_result" where
  "compile_chain lzma_mem lzma2_mem folder g szs layout budget =
     (case layout of
        [packed_size] \<Rightarrow>
          and_then (compile_backwards lzma_mem folder szs (rev (g_execution_order g)) Unknown) (\<lambda>steps.
          and_then (bind_sizes (rev steps) (Known packed_size)) (\<lambda>steps.
          and_then (add_working_sets lzma2_mem steps) (\<lambda>memory.
          and_then (WorkingSet_admit memory budget) (\<lambda>(memory, budget).
            Ok (\<lparr>dp_topology = Chain steps, dp_memory = memory, dp_inputs = layout\<rparr>, budget)))))
      | _ \<Rightarrow> Err InvalidFolderGraph)"

fun compile_channel_coders :: "(u32 \<Rightarrow> u8 \<Rightarrow> u32 option) \<Rightarrow> Folder \<Rightarrow> CoderOutputSizes \<Rightarrow> Bcj2Coder list \<Rightarrow>
    OutputSize \<Rightarrow> DecodeStep list r7z_result" where
  "compile_channel_coders lzma_mem folder szs [] input_size = Ok []"
| "compile_channel_coders lzma_mem folder szs (channel_coder # rest) input_size =
     and_then (ok_or InvalidFolderGraph (get (coders folder) (bc_index channel_coder))) (\<lambda>coder.
     and_then (SizedCoder_compile lzma_mem coder (CoderOutputSizes_get szs (bc_output channel_coder))) (\<lambda>sized.
     and_then (bind_size sized input_size) (\<lambda>step.
     and_then (compile_channel_coders lzma_mem folder szs rest (ds_output step)) (\<lambda>steps.
       Ok (step # steps)))))"

definition compile_channel :: "(u32 \<Rightarrow> u8 \<Rightarrow> u32 option) \<Rightarrow> Folder \<Rightarrow> CoderOutputSizes \<Rightarrow> u64 list \<Rightarrow> Bcj2Channel \<Rightarrow> nat \<Rightarrow>
    DecodeStep list r7z_result" where
  "compile_channel lzma_mem folder szs layout channel slot =
     and_then (PackedLayout_size layout slot) (\<lambda>n.
       compile_channel_coders lzma_mem folder szs (ch_coders channel) (Known (of_nat n)))"

text \<open>What a data channel yields: the output of its last coder, or its packed stream.\<close>

definition channel_output :: "u64 list \<Rightarrow> DecodeStep list \<Rightarrow> nat \<Rightarrow> u64 r7z_result" where
  "channel_output layout steps slot =
     (if steps = [] then and_then (PackedLayout_size layout slot) (\<lambda>n. Ok (of_nat n))
      else require (ds_output (last steps)))"

definition declared_output :: "u64 list \<Rightarrow> (DecodeStep list \<times> nat) list \<Rightarrow> u64 r7z_result" where
  "declared_output layout channels =
     try_fold (\<lambda>sofar (steps, slot).
         and_then (channel_output layout steps slot) (\<lambda>output. ok_or Decompression (u64_checked_add sofar output)))
       0 channels"

definition compile_bcj2 :: "(u32 \<Rightarrow> u8 \<Rightarrow> u32 option) \<Rightarrow> (u32 \<Rightarrow> u32) \<Rightarrow> Folder \<Rightarrow> Bcj2Layout \<Rightarrow> u64 \<Rightarrow> CoderOutputSizes \<Rightarrow>
    u64 list \<Rightarrow> OperationBudget \<Rightarrow> (DecoderPlan \<times> OperationBudget) r7z_result" where
  "compile_bcj2 lzma_mem lzma2_mem folder layout unpack_size szs packed budget =
     and_then (bcj2_output_size unpack_size) (\<lambda>output_size.
       let slots = \<lparr>sl_main = ch_packed (l_main layout), sl_call = ch_packed (l_call layout),
             sl_jump = ch_packed (l_jump layout), sl_control = ch_packed (l_control layout)\<rparr>;
           compile = compile_channel lzma_mem folder szs packed in
       and_then (compile (l_main layout) (sl_main slots)) (\<lambda>main_steps.
       and_then (compile (l_call layout) (sl_call slots)) (\<lambda>call.
       and_then (compile (l_jump layout) (sl_jump slots)) (\<lambda>jump.
       and_then (compile (l_control layout) (sl_control slots)) (\<lambda>ctl.
       and_then (declared_output packed [(main_steps, sl_main slots), (call, sl_call slots), (jump, sl_jump slots)]) (\<lambda>declared.
         if declared \<noteq> unpack_size then Err Decompression
         else
           and_then (add_working_sets lzma2_mem (main_steps @ call @ jump @ ctl)) (\<lambda>coder_memory.
           and_then (WorkingSet_add coder_memory BCJ2_READER_WORKING_SET_BYTES) (\<lambda>memory.
           and_then (ensure_bcj2_working_budget output_size memory) (\<lambda>_.
           and_then (WorkingSet_add memory output_size) (\<lambda>memory.
           and_then (WorkingSet_admit memory budget) (\<lambda>(memory, budget).
             Ok (\<lparr>dp_topology = Bcj2 main_steps call jump ctl slots output_size, dp_memory = memory,
                  dp_inputs = packed\<rparr>, budget))))))))))))"

definition with_output_sizes :: "(u32 \<Rightarrow> u8 \<Rightarrow> u32 option) \<Rightarrow> (u32 \<Rightarrow> u32) \<Rightarrow> Folder \<Rightarrow> FolderGraph \<Rightarrow> u64 \<Rightarrow>
    CoderOutputSizes \<Rightarrow> u64 list \<Rightarrow> OperationBudget \<Rightarrow> (DecoderPlan \<times> OperationBudget) r7z_result option" where
  "with_output_sizes lzma_mem lzma2_mem folder g unpack_size szs packed_sizes budget =
     (case validate_folder_coder_count folder of
        Err e \<Rightarrow> Some (Err e)
      | Ok _ \<Rightarrow>
          if length (g_packed_inputs g) \<noteq> length packed_sizes then Some (Err InvalidFolderGraph)
          else
            map_option (\<lambda>topology.
                and_then topology (\<lambda>topology.
                  case topology of
                    DT_Chain \<Rightarrow> compile_chain lzma_mem lzma2_mem folder g szs packed_sizes budget
                  | DT_Bcj2 layout \<Rightarrow> compile_bcj2 lzma_mem lzma2_mem folder layout unpack_size szs packed_sizes budget))
              (decoder_topology folder g))"

definition compile_with_budget :: "(u32 \<Rightarrow> u8 \<Rightarrow> u32 option) \<Rightarrow> (u32 \<Rightarrow> u32) \<Rightarrow> Folder \<Rightarrow> FolderGraph \<Rightarrow> u64 \<Rightarrow>
    u64 list \<Rightarrow> u64 list \<Rightarrow> OperationBudget \<Rightarrow> (DecoderPlan \<times> OperationBudget) r7z_result option" where
  "compile_with_budget lzma_mem lzma2_mem folder g unpack_size declared packed_sizes budget =
     (case CoderOutputSizes_complete folder g unpack_size declared of
        Err e \<Rightarrow> Some (Err e)
      | Ok szs \<Rightarrow> with_output_sizes lzma_mem lzma2_mem folder g unpack_size szs packed_sizes budget)"


section \<open>Binding a plan to its inputs\<close>

record 'r BoundInput =
  bi_input :: "'r Take"
  bi_coders :: "DecodeStep list"

datatype 'r BoundTopology =
    BChain "DecodeStep list" "'r Take"
  | BBcj2 "'r BoundInput" "'r BoundInput" "'r BoundInput" "'r BoundInput" nat

record 'r ReadyDecoder =
  rdy_topology :: "'r BoundTopology"
  rdy_memory :: WorkingSet

definition DecoderPlan_bind :: "DecoderPlan \<Rightarrow> 'r PackedInput list \<Rightarrow> 'r ReadyDecoder r7z_result" where
  "DecoderPlan_bind self given =
     and_then (PackedLayout_bind (dp_inputs self) given) (\<lambda>bound_given.
     and_then
       (case dp_topology self of
          Chain steps \<Rightarrow> and_then (BoundInputs_take bound_given 0) (\<lambda>(input, bound_given). Ok (BChain steps input))
        | Bcj2 main_steps call jump ctl slots output_size \<Rightarrow>
            and_then (BoundInputs_take bound_given (sl_main slots)) (\<lambda>(main_input, bound_given).
            and_then (BoundInputs_take bound_given (sl_call slots)) (\<lambda>(call_input, bound_given).
            and_then (BoundInputs_take bound_given (sl_jump slots)) (\<lambda>(jump_input, bound_given).
            and_then (BoundInputs_take bound_given (sl_control slots)) (\<lambda>(control_input, bound_given).
              Ok (BBcj2 \<lparr>bi_input = main_input, bi_coders = main_steps\<rparr> \<lparr>bi_input = call_input, bi_coders = call\<rparr>
                \<lparr>bi_input = jump_input, bi_coders = jump\<rparr> \<lparr>bi_input = control_input, bi_coders = ctl\<rparr> output_size))))))
       (\<lambda>bound. Ok \<lparr>rdy_topology = bound, rdy_memory = dp_memory self\<rparr>))"

text \<open>The last AES coder followed only by filters, if there is one.\<close>

fun eager_step :: "DecodeStep list \<Rightarrow> u64 option" where
  "eager_step [] = None"
| "eager_step (step # following) =
     (case eager_step following of
        Some sz \<Rightarrow> Some sz
      | None \<Rightarrow>
          (case (ds_coder step, ds_output step) of
             (C_Aes _, Known sz) \<Rightarrow> if list_all (\<lambda>s. preserves_size (ds_coder s)) following then Some sz else None
           | _ \<Rightarrow> None))"

definition eager_output_size :: "'r ReadyDecoder \<Rightarrow> u64 option" where
  "eager_output_size self =
     (case rdy_topology self of
        BBcj2 _ _ _ _ output_size \<Rightarrow> Some (of_nat output_size)
      | BChain steps _ \<Rightarrow> eager_step steps)"


section \<open>Laws\<close>

subsection \<open>Memory\<close>

lemma WorkingSet_add_eq_Ok [simp]: "WorkingSet_add a b = Ok n \<longleftrightarrow> n = a + b \<and> a + b < usize_limit"
  by (simp add: WorkingSet_add_def)

definition plan_steps :: "Topology \<Rightarrow> DecodeStep list" where
  "plan_steps t = (case t of Chain steps \<Rightarrow> steps | Bcj2 a b c d _ _ \<Rightarrow> a @ b @ c @ d)"

text \<open>What a plan holds beside its coders: the buffers of the BCJ2 reader and the whole output.\<close>

definition plan_buffers :: "Topology \<Rightarrow> nat" where
  "plan_buffers t = (case t of Chain _ \<Rightarrow> 0 | Bcj2 _ _ _ _ _ output_size \<Rightarrow> BCJ2_READER_WORKING_SET_BYTES + output_size)"

definition step_memory :: "(u32 \<Rightarrow> u32) \<Rightarrow> DecodeStep \<Rightarrow> nat" where
  "step_memory lzma2_mem step = (case DecodeStep_working_set lzma2_mem step of Ok n \<Rightarrow> n | Err _ \<Rightarrow> 0)"

definition steps_memory :: "(u32 \<Rightarrow> u32) \<Rightarrow> DecodeStep list \<Rightarrow> nat" where
  "steps_memory lzma2_mem steps = sum_list (map (step_memory lzma2_mem) steps)"

lemma add_working_sets_Ok:
  assumes "add_working_sets lzma2_mem steps = Ok n"
  shows "n = steps_memory lzma2_mem steps \<and> (\<forall>step \<in> set steps. is_ok (DecodeStep_working_set lzma2_mem step))"
proof -
  let ?f = "\<lambda>sofar step. and_then (DecodeStep_working_set lzma2_mem step) (WorkingSet_add sofar)"
  have "try_fold ?f sofar steps = Ok n \<Longrightarrow>
      n = sofar + steps_memory lzma2_mem steps \<and> (\<forall>step \<in> set steps. is_ok (DecodeStep_working_set lzma2_mem step))" for sofar
  proof (induction steps arbitrary: sofar)
    case (Cons step steps)
    then obtain m where "DecodeStep_working_set lzma2_mem step = Ok m" "try_fold ?f (sofar + m) steps = Ok n"
      by (auto simp: WorkingSet_add_eq_Ok)
    with Cons.IH [of "sofar + m"] show ?case by (auto simp: steps_memory_def step_memory_def)
  qed (simp add: steps_memory_def)
  from this [of 0] assms show ?thesis by (simp add: add_working_sets_def)
qed

definition admission_limit :: "OperationBudget \<Rightarrow> u64" where
  "admission_limit budget =
     (case max_decoder_working_set_bytes (limits budget) of
        None \<Rightarrow> MAX_DECODER_WORKING_SET_BYTES
      | Some configured \<Rightarrow> min configured MAX_DECODER_WORKING_SET_BYTES)"

lemma WorkingSet_admit_Ok:
  assumes "WorkingSet_admit n budget = Ok (m, budget')" and "n < usize_limit"
  shows "m = n \<and> n \<le> unat (admission_limit budget) \<and>
    budget' = budget\<lparr>peak_decoder_working_set := max (peak_decoder_working_set budget) (of_nat n)\<rparr>"
proof -
  have "unat (of_nat n :: u64) = n" using assms(2) by (simp add: unat_of_nat)
  then show ?thesis
    using assms(1) by (auto simp: WorkingSet_admit_def admit_decoder_working_set_def admission_limit_def Let_def
      word_le_nat_alt not_less word_less_nat_alt split: if_splits)
qed

text \<open>Small steps of the estimates: nothing a plan adds up overflows, as each part is bounded.\<close>

lemma try_fold_below:
  assumes "try_fold (\<lambda>sofar step. and_then (DecodeStep_working_set lzma2_mem step) (WorkingSet_add sofar)) sofar steps = Ok n"
    and "sofar < usize_limit"
  shows "n < usize_limit"
  using try_fold_invariant [OF assms(1), of "\<lambda>n. n < usize_limit"] assms(2) by (auto simp: WorkingSet_add_eq_Ok)

lemma compile_chain_Ok:
  assumes "compile_chain lzma_mem lzma2_mem folder g szs layout budget = Ok (plan, budget')"
  obtains packed_size steps sized where "layout = [packed_size]" "dp_topology plan = Chain steps" "dp_inputs plan = layout"
    "compile_backwards lzma_mem folder szs (rev (g_execution_order g)) Unknown = Ok sized"
    "bind_sizes (rev sized) (Known packed_size) = Ok steps"
    "add_working_sets lzma2_mem steps = Ok (dp_memory plan)"
    "WorkingSet_admit (dp_memory plan) budget = Ok (dp_memory plan, budget')"
proof -
  obtain packed_size where layout: "layout = [packed_size]"
    using assms by (auto simp: compile_chain_def split: list.splits)
  then obtain sized steps memory m where run: "compile_backwards lzma_mem folder szs (rev (g_execution_order g)) Unknown = Ok sized"
    "bind_sizes (rev sized) (Known packed_size) = Ok steps" "add_working_sets lzma2_mem steps = Ok memory"
    "WorkingSet_admit memory budget = Ok (m, budget')" "plan = \<lparr>dp_topology = Chain steps, dp_memory = m, dp_inputs = layout\<rparr>"
    using assms by (auto simp: compile_chain_def)
  then have "m = memory" by (auto simp: WorkingSet_admit_def)
  with run layout show thesis by (intro that [of packed_size steps sized]) simp_all
qed

lemma compile_bcj2_Ok:
  assumes "compile_bcj2 lzma_mem lzma2_mem folder layout unpack_size szs packed budget = Ok (plan, budget')"
  obtains a b c d where "dp_inputs plan = packed"
    "dp_topology plan = Bcj2 a b c d \<lparr>sl_main = ch_packed (l_main layout), sl_call = ch_packed (l_call layout),
       sl_jump = ch_packed (l_jump layout), sl_control = ch_packed (l_control layout)\<rparr> (unat unpack_size)"
    "compile_channel lzma_mem folder szs packed (l_main layout) (ch_packed (l_main layout)) = Ok a"
    "compile_channel lzma_mem folder szs packed (l_call layout) (ch_packed (l_call layout)) = Ok b"
    "compile_channel lzma_mem folder szs packed (l_jump layout) (ch_packed (l_jump layout)) = Ok c"
    "compile_channel lzma_mem folder szs packed (l_control layout) (ch_packed (l_control layout)) = Ok d"
    "declared_output packed [(a, ch_packed (l_main layout)), (b, ch_packed (l_call layout)), (c, ch_packed (l_jump layout))]
       = Ok unpack_size"
    "unat unpack_size \<le> MAX_BCJ2_OUTPUT_BYTES"
    "add_working_sets lzma2_mem (a @ b @ c @ d) = Ok (dp_memory plan - (BCJ2_READER_WORKING_SET_BYTES + unat unpack_size))"
    "BCJ2_READER_WORKING_SET_BYTES + unat unpack_size \<le> dp_memory plan" "dp_memory plan < usize_limit"
    "WorkingSet_admit (dp_memory plan) budget = Ok (dp_memory plan, budget')"
proof -
  obtain output_size a b c d declared coder_memory memory memory' m where run:
    "bcj2_output_size unpack_size = Ok output_size"
    "compile_channel lzma_mem folder szs packed (l_main layout) (ch_packed (l_main layout)) = Ok a"
    "compile_channel lzma_mem folder szs packed (l_call layout) (ch_packed (l_call layout)) = Ok b"
    "compile_channel lzma_mem folder szs packed (l_jump layout) (ch_packed (l_jump layout)) = Ok c"
    "compile_channel lzma_mem folder szs packed (l_control layout) (ch_packed (l_control layout)) = Ok d"
    "declared_output packed [(a, ch_packed (l_main layout)), (b, ch_packed (l_call layout)), (c, ch_packed (l_jump layout))]
       = Ok declared" "declared = unpack_size"
    "add_working_sets lzma2_mem (a @ b @ c @ d) = Ok coder_memory"
    "WorkingSet_add coder_memory BCJ2_READER_WORKING_SET_BYTES = Ok memory"
    "WorkingSet_add memory output_size = Ok memory'" "WorkingSet_admit memory' budget = Ok (m, budget')"
    "plan = \<lparr>dp_topology = Bcj2 a b c d \<lparr>sl_main = ch_packed (l_main layout), sl_call = ch_packed (l_call layout),
       sl_jump = ch_packed (l_jump layout), sl_control = ch_packed (l_control layout)\<rparr> output_size, dp_memory = m, dp_inputs = packed\<rparr>"
    using assms unfolding compile_bcj2_def by (auto simp: Let_def split: if_splits)
  moreover have "m = memory'" using run by (auto simp: WorkingSet_admit_def)
  moreover have "output_size = unat unpack_size" "unat unpack_size \<le> MAX_BCJ2_OUTPUT_BYTES"
    using run(1) by (auto simp: bcj2_output_size_def split: if_splits)
  ultimately show thesis by (intro that [of a b c d]) (simp_all add: WorkingSet_add_eq_Ok)
qed

text \<open>Where a compiled plan comes from.\<close>

lemma with_output_sizes_Ok:
  assumes "with_output_sizes lzma_mem lzma2_mem f g unpack_size szs packed budget = Some (Ok (plan, budget'))"
  obtains (chain) "length (g_packed_inputs g) = length packed" "length (coders f) \<le> MAX_FOLDER_CODERS"
      "bcj2_layout g f = Some (Ok None)"
      "list_all (\<lambda>coder. num_in_streams coder = 1 \<and> num_out_streams coder = 1) (coders f)"
      "compile_chain lzma_mem lzma2_mem f g szs packed budget = Ok (plan, budget')"
  | (bcj2) layout where "length (g_packed_inputs g) = length packed" "length (coders f) \<le> MAX_FOLDER_CODERS"
      "bcj2_layout g f = Some (Ok (Some layout))"
      "compile_bcj2 lzma_mem lzma2_mem f layout unpack_size szs packed budget = Ok (plan, budget')"
proof -
  obtain topology where len: "length (g_packed_inputs g) = length packed" "length (coders f) \<le> MAX_FOLDER_CODERS"
    and top: "decoder_topology f g = Some (Ok topology)"
    and run: "(case topology of
        DT_Chain \<Rightarrow> compile_chain lzma_mem lzma2_mem f g szs packed budget
      | DT_Bcj2 layout \<Rightarrow> compile_bcj2 lzma_mem lzma2_mem f layout unpack_size szs packed budget) = Ok (plan, budget')"
    using assms by (auto simp: with_output_sizes_def validate_folder_coder_count_def split: if_splits)
  from top show thesis
    using run len chain bcj2
    by (auto simp: decoder_topology_def split: option.splits if_splits)
qed

lemma plan_memory:
  assumes "with_output_sizes lzma_mem lzma2_mem f g unpack_size szs packed budget = Some (Ok (plan, budget'))"
  shows "dp_memory plan = steps_memory lzma2_mem (plan_steps (dp_topology plan)) + plan_buffers (dp_topology plan) \<and>
    (\<forall>step \<in> set (plan_steps (dp_topology plan)). is_ok (DecodeStep_working_set lzma2_mem step)) \<and>
    dp_memory plan \<le> unat (admission_limit budget) \<and>
    budget' = budget\<lparr>peak_decoder_working_set := max (peak_decoder_working_set budget) (of_nat (dp_memory plan))\<rparr>"
  using assms
proof (cases rule: with_output_sizes_Ok)
  case chain
  from chain(5) obtain steps where run: "dp_topology plan = Chain steps"
    "add_working_sets lzma2_mem steps = Ok (dp_memory plan)" "WorkingSet_admit (dp_memory plan) budget = Ok (dp_memory plan, budget')"
    by (rule compile_chain_Ok)
  have "dp_memory plan < usize_limit" by (rule try_fold_below [OF run(2) [unfolded add_working_sets_def]]) simp
  then show ?thesis
    using add_working_sets_Ok [OF run(2)] WorkingSet_admit_Ok [OF run(3)] run(1)
    by (simp add: plan_steps_def plan_buffers_def)
next
  case (bcj2 layout)
  from bcj2(4) obtain a b c d slots where run: "dp_topology plan = Bcj2 a b c d slots (unat unpack_size)"
    "add_working_sets lzma2_mem (a @ b @ c @ d) = Ok (dp_memory plan - (BCJ2_READER_WORKING_SET_BYTES + unat unpack_size))"
    "BCJ2_READER_WORKING_SET_BYTES + unat unpack_size \<le> dp_memory plan" "dp_memory plan < usize_limit"
    "WorkingSet_admit (dp_memory plan) budget = Ok (dp_memory plan, budget')"
    by (rule compile_bcj2_Ok) simp
  then show ?thesis
    using add_working_sets_Ok [OF run(2)] WorkingSet_admit_Ok [OF run(5,4)]
    by (auto simp: plan_steps_def plan_buffers_def)
qed


subsection \<open>Sizes\<close>

text \<open>Each step reads what the one before it wrote, and a filter writes as much as it reads.\<close>

fun connected :: "OutputSize \<Rightarrow> DecodeStep list \<Rightarrow> bool" where
  "connected input_size [] = True"
| "connected input_size (step # steps) \<longleftrightarrow>
     ds_input step = input_size \<and>
     (preserves_size (ds_coder step) \<longrightarrow> ds_input step \<noteq> Unknown \<longrightarrow> ds_output step = ds_input step) \<and>
     connected (ds_output step) steps"

lemma reconcile_Ok:
  "reconcile a b = Ok c \<longleftrightarrow> (a = Unknown \<and> c = b) \<or> (a \<noteq> Unknown \<and> (b = Unknown \<or> b = a) \<and> c = a)"
  by (cases a; cases b) (auto simp: reconcile_def)

lemma bind_size_Ok:
  assumes "bind_size sized input = Ok step"
  shows "ds_coder step = sc_coder sized \<and> ds_input step = input \<and>
    (preserves_size (ds_coder step) \<longrightarrow> input \<noteq> Unknown \<longrightarrow> ds_output step = input) \<and>
    (sc_output sized \<noteq> Unknown \<longrightarrow> ds_output step = sc_output sized)"
  using assms by (auto simp: bind_size_def reconcile_Ok split: if_splits)

lemma bind_sizes_Ok:
  assumes "bind_sizes sized input = Ok steps"
  shows "connected input steps \<and>
    list_all2 (\<lambda>sc step. ds_coder step = sc_coder sc \<and> (sc_output sc \<noteq> Unknown \<longrightarrow> ds_output step = sc_output sc)) sized steps"
  using assms
proof (induction sized arbitrary: input steps)
  case (Cons sc sized)
  then obtain step rest where "bind_size sc input = Ok step" "bind_sizes sized (ds_output step) = Ok rest"
    "steps = step # rest" by auto
  with Cons.IH bind_size_Ok show ?case by auto
qed simp

lemma compile_backwards_Ok:
  assumes "compile_backwards lzma_mem f szs order next_input = Ok sized"
  shows "list_all2 (\<lambda>index sc. index < length (coders f) \<and>
    CoderPlan_compile lzma_mem (coders f ! index) (sc_output sc) = Ok (sc_coder sc) \<and>
    (CoderOutputSizes_get szs index \<noteq> Unknown \<longrightarrow> sc_output sc = CoderOutputSizes_get szs index)) order sized"
  using assms
proof (induction order arbitrary: next_input sized)
  case (Cons index order)
  then obtain out step rest where "index < length (coders f)" "reconcile (CoderOutputSizes_get szs index) next_input = Ok out"
    "SizedCoder_compile lzma_mem (coders f ! index) out = Ok step"
    "compile_backwards lzma_mem f szs order (if preserves_size (sc_coder step) then out else Unknown) = Ok rest"
    "sized = step # rest" by auto
  with Cons.IH show ?case by (auto simp: SizedCoder_compile_def reconcile_Ok)
qed simp

lemma chain_sizes:
  assumes "compile_chain lzma_mem lzma2_mem f g szs layout budget = Ok (plan, budget')"
  shows "\<exists>packed_size steps. layout = [packed_size] \<and> dp_topology plan = Chain steps \<and> connected (Known packed_size) steps \<and>
    list_all2 (\<lambda>index step. index < length (coders f) \<and>
      (\<exists>sz. CoderPlan_compile lzma_mem (coders f ! index) sz = Ok (ds_coder step) \<and> (sz \<noteq> Unknown \<longrightarrow> ds_output step = sz) \<and>
        (CoderOutputSizes_get szs index \<noteq> Unknown \<longrightarrow> sz = CoderOutputSizes_get szs index)) \<and>
      (CoderOutputSizes_get szs index \<noteq> Unknown \<longrightarrow> ds_output step = CoderOutputSizes_get szs index)) (g_execution_order g) steps"
proof -
  from assms obtain packed_size steps sized where run: "layout = [packed_size]" "dp_topology plan = Chain steps"
    "compile_backwards lzma_mem f szs (rev (g_execution_order g)) Unknown = Ok sized"
    "bind_sizes (rev sized) (Known packed_size) = Ok steps" by (rule compile_chain_Ok)
  note b = bind_sizes_Ok [OF run(4)]
  have compiled: "list_all2 (\<lambda>index sc. index < length (coders f) \<and>
      CoderPlan_compile lzma_mem (coders f ! index) (sc_output sc) = Ok (sc_coder sc) \<and>
      (CoderOutputSizes_get szs index \<noteq> Unknown \<longrightarrow> sc_output sc = CoderOutputSizes_get szs index)) (g_execution_order g) (rev sized)"
    using compile_backwards_Ok [OF run(3)] by (simp add: list_all2_rev1)
  have "list_all2 (\<lambda>index step. index < length (coders f) \<and>
      (\<exists>sz. CoderPlan_compile lzma_mem (coders f ! index) sz = Ok (ds_coder step) \<and> (sz \<noteq> Unknown \<longrightarrow> ds_output step = sz) \<and>
        (CoderOutputSizes_get szs index \<noteq> Unknown \<longrightarrow> sz = CoderOutputSizes_get szs index)) \<and>
      (CoderOutputSizes_get szs index \<noteq> Unknown \<longrightarrow> ds_output step = CoderOutputSizes_get szs index)) (g_execution_order g) steps"
    by (rule list_all2_trans [OF _ compiled conjunct2 [OF b]]) metis
  with run b show ?thesis by blast
qed

text \<open>In a folder of one-to-one coders the last coder of the execution order produces the folder's output.\<close>

lemma owner_list_of_ones: "owner_list (replicate n 1) = [0..<n]"
proof -
  have "concat (map (\<lambda>(i, n). replicate n (i :: nat)) (List.enumerate k (replicate n 1))) = [k..<k + n]" for k
    by (induction n arbitrary: k) (simp_all add: upt_conv_Cons del: upt_Suc)
  from this [of 0] show ?thesis by (simp add: owner_list_def)
qed

lemma one_to_one_owners:
  assumes "list_all (\<lambda>coder. num_in_streams coder = 1 \<and> num_out_streams coder = 1) (coders f)"
  shows "owners_of (coders f) = \<lparr>own_inputs = [0..<length (coders f)], own_outputs = [0..<length (coders f)]\<rparr>"
    and "total_out_streams f = length (coders f)"
proof -
  have ones: "map (\<lambda>c. unat (num_in_streams c)) (coders f) = replicate (length (coders f)) 1"
    "map (\<lambda>c. unat (num_out_streams c)) (coders f) = replicate (length (coders f)) 1"
    using assms by (auto simp: list_all_iff intro!: nth_equalityI)
  then show "owners_of (coders f) = \<lparr>own_inputs = [0..<length (coders f)], own_outputs = [0..<length (coders f)]\<rparr>"
    by (simp add: owners_of_def owner_list_of_ones [unfolded One_nat_def])
  show "total_out_streams f = length (coders f)"
    unfolding total_out_streams_def ones by (simp add: sum_list_replicate)
qed

lemma chain_final:
  assumes g: "graph f = Ok g"
    and ones: "list_all (\<lambda>coder. num_in_streams coder = 1 \<and> num_out_streams coder = 1) (coders f)"
  shows "g_execution_order g \<noteq> [] \<and> last (g_execution_order g) = g_final_output g \<and>
    set (g_execution_order g) = {..<length (coders f)} \<and> distinct (g_execution_order g)"
proof -
  let ?n = "length (coders f)" and ?ps = "map nat_pair (bind_pairs f)" and ?ord = "g_execution_order g"
  note ow = one_to_one_owners(1) [OF ones]
  from graph_Ok_iff [OF g] have ok: "graph_valid f" and desc: "graph_describes f g" by simp_all
  from ok have valid: "length ?ps + 1 = ?n" "matching (owners_of (coders f)) ?ps"
    unfolding graph_valid_def Let_def ow by simp_all
  note parts = desc [unfolded graph_describes_def Let_def ow StreamOwners.select_convs length_upt diff_zero]
  from parts have final: "{..<?n} - snd ` set ?ps = {g_final_output g}" by (elim conjE)
  from parts have ord: "distinct ?ord" by (elim conjE)
  from parts have order: "set ?ord = {..<?n}" by (elim conjE)
  let ?ow = "\<lparr>own_inputs = [0..<?n], own_outputs = [0..<?n]\<rparr>"
  have edges: "\<forall>(u, v)\<in>coder_edges ?ow ?ps. \<exists>xs ys zs. ?ord = xs @ u # ys @ v # zs"
    by (rule parts [THEN conjunct2, THEN conjunct2, THEN conjunct2, THEN conjunct2, THEN conjunct2, THEN conjunct2,
          THEN conjunct2, THEN conjunct2, THEN conjunct2, THEN conjunct2])
  have "0 < ?n" using valid(1) by linarith
  then have "0 \<in> set ?ord" unfolding order by simp
  then have ne: "?ord \<noteq> []" by (metis empty_iff empty_set)
  have "last ?ord = g_final_output g"
  proof (rule ccontr)
    assume "last ?ord \<noteq> g_final_output g"
    moreover have "last ?ord < ?n" using ne order last_in_set by blast
    ultimately have "last ?ord \<in> snd ` set ?ps" using final by blast
    then obtain i where i: "(i, last ?ord) \<in> set ?ps" by force
    then have "i < ?n" using valid(2) by (auto simp: matching_def ow)
    then have "(last ?ord, i) \<in> coder_edges ?ow ?ps"
      using i \<open>last ?ord < ?n\<close> by (force simp: coder_edges_def)
    from bspec [OF edges this] obtain xs ys zs where split: "?ord = xs @ last ?ord # ys @ i # zs" by auto
    then have "last ?ord = last (i # zs)" by (metis append_Cons append_is_Nil_conv last_append list.distinct(1) last_ConsR)
    then have "last ?ord \<in> set (i # zs)" by (metis last_in_set list.distinct(1))
    moreover from ord have "distinct (xs @ last ?ord # ys @ i # zs)" by (subst (asm) split)
    ultimately show False by auto
  qed
  then show ?thesis using ne ord order by simp
qed

lemma complete_get:
  assumes "CoderOutputSizes_complete f g unpack_size declared = Ok szs"
  shows "length declared = total_out_streams f" and "CoderOutputSizes_get szs (g_final_output g) = Known unpack_size"
    and "i < length declared \<Longrightarrow> CoderOutputSizes_get szs i = Known (declared ! i)"
  using assms
  by (auto simp: CoderOutputSizes_complete_def CoderOutputSizes_partial_def CoderOutputSizes_get_def Let_def get_def
      split: if_splits)

text \<open>The bytes a data channel yields, as a number.\<close>

definition channel_bytes :: "u64 list \<Rightarrow> DecodeStep list \<Rightarrow> nat \<Rightarrow> nat" where
  "channel_bytes packed steps slot =
     (if steps = [] then unat (packed ! slot) else (case ds_output (last steps) of Known n \<Rightarrow> unat n | Unknown \<Rightarrow> 0))"

lemma channel_output_Ok:
  assumes "channel_output packed steps slot = Ok n"
  shows "unat n = channel_bytes packed steps slot"
  using assms unat_u64_less [of "packed ! slot"]
  by (auto simp: channel_output_def channel_bytes_def PackedLayout_size_def require_def unat_of_nat
      split: if_splits OutputSize.splits)

lemma declared_output_Ok:
  assumes "declared_output packed channels = Ok n"
  shows "unat n = sum_list (map (\<lambda>(steps, slot). channel_bytes packed steps slot) channels)"
proof -
  let ?f = "\<lambda>sofar (steps, slot).
    and_then (channel_output packed steps slot) (\<lambda>out. ok_or Decompression (u64_checked_add sofar out))"
  have "try_fold ?f sofar channels = Ok n \<Longrightarrow>
      unat n = unat sofar + sum_list (map (\<lambda>(steps, slot). channel_bytes packed steps slot) channels)" for sofar
  proof (induction channels arbitrary: sofar)
    case (Cons channel channels)
    obtain steps slot where ch: "channel = (steps, slot)" by (cases channel)
    with Cons.prems obtain out sofar' where "channel_output packed steps slot = Ok out"
      "unat sofar' = unat sofar + unat out" "try_fold ?f sofar' channels = Ok n"
      by (auto simp: u64_checked_add_eq_Some)
    with Cons.IH [of sofar'] channel_output_Ok ch show ?case by simp
  qed simp
  from this [of 0] assms show ?thesis by (simp add: declared_output_def)
qed


subsection \<open>Channels\<close>

lemma compile_channel_coders_Ok:
  assumes "compile_channel_coders lzma_mem f szs cs input = Ok steps"
  shows "connected input steps \<and> list_all2 (\<lambda>c step. bc_index c < length (coders f) \<and>
    CoderPlan_compile lzma_mem (coders f ! bc_index c) (CoderOutputSizes_get szs (bc_output c)) = Ok (ds_coder step) \<and>
    (CoderOutputSizes_get szs (bc_output c) \<noteq> Unknown \<longrightarrow> ds_output step = CoderOutputSizes_get szs (bc_output c))) cs steps"
  using assms
proof (induction cs arbitrary: input steps)
  case (Cons c cs)
  then obtain sized step rest where "bc_index c < length (coders f)"
    "SizedCoder_compile lzma_mem (coders f ! bc_index c) (CoderOutputSizes_get szs (bc_output c)) = Ok sized"
    "bind_size sized input = Ok step" "compile_channel_coders lzma_mem f szs cs (ds_output step) = Ok rest"
    "steps = step # rest" by auto
  with Cons.IH bind_size_Ok show ?case by (fastforce simp: SizedCoder_compile_def)
qed simp

lemma compile_channel_connected:
  assumes "compile_channel lzma_mem f szs packed ch slot = Ok steps"
  shows "slot < length packed \<and> connected (Known (packed ! slot)) steps"
  using assms compile_channel_coders_Ok by (auto simp: compile_channel_def PackedLayout_size_def)

text \<open>
  What a channel of a layout is compiled to: one step per coder, compiled for the size the header declares
  for the coder's output, which is the size of the step's output; the first step reads the packed stream.
\<close>

definition channel_sized :: "(u32 \<Rightarrow> u8 \<Rightarrow> u32 option) \<Rightarrow> Folder \<Rightarrow> u64 list \<Rightarrow> u64 list \<Rightarrow> Bcj2Channel \<Rightarrow> DecodeStep list \<Rightarrow> bool" where
  "channel_sized lzma_mem f declared packed ch steps \<longleftrightarrow>
     ch_packed ch < length packed \<and> connected (Known (packed ! ch_packed ch)) steps \<and>
     list_all2 (\<lambda>c step. CoderPlan_compile lzma_mem (coders f ! bc_index c) (ds_output step) = Ok (ds_coder step) \<and>
       ds_output step = Known (declared ! bc_output c)) (ch_coders ch) steps"

lemma compile_channel_sized:
  assumes "CoderOutputSizes_complete f g unpack_size declared = Ok szs"
    and "\<forall>c \<in> set (ch_coders ch). bc_output c < total_out_streams f"
    and "compile_channel lzma_mem f szs packed ch (ch_packed ch) = Ok steps"
  shows "channel_sized lzma_mem f declared packed ch steps"
proof -
  have "list_all2 (\<lambda>c step. CoderPlan_compile lzma_mem (coders f ! bc_index c) (CoderOutputSizes_get szs (bc_output c)) = Ok (ds_coder step) \<and>
    (CoderOutputSizes_get szs (bc_output c) \<noteq> Unknown \<longrightarrow> ds_output step = CoderOutputSizes_get szs (bc_output c))) (ch_coders ch) steps"
    using assms(3) compile_channel_coders_Ok by (fastforce simp: compile_channel_def intro: list_all2_mono)
  moreover have "CoderOutputSizes_get szs (bc_output c) = Known (declared ! bc_output c)" if "c \<in> set (ch_coders ch)" for c
    using complete_get [OF assms(1)] assms(2) that by simp
  ultimately have "list_all2 (\<lambda>c step. CoderPlan_compile lzma_mem (coders f ! bc_index c) (ds_output step) = Ok (ds_coder step) \<and>
       ds_output step = Known (declared ! bc_output c)) (ch_coders ch) steps"
    by (auto simp: list_all2_conv_all_nth)
  then show ?thesis using compile_channel_connected [OF assms(3)] by (simp add: channel_sized_def)
qed

lemma graph_outputs: "graph f = Ok g \<Longrightarrow> length (g_output_owners g) = total_out_streams f \<and> g_final_output g < total_out_streams f"
  using graph_Ok_iff [of f g] by (auto simp: graph_describes_def Let_def owners_of_def total_out_streams_def)

lemma channel_chain_outputs:
  "channel_chain g i cs p \<Longrightarrow> c \<in> set cs \<Longrightarrow> bc_output c < length (g_output_owners g)"
  by (induction cs arbitrary: i) auto

lemma layout_outputs:
  assumes "graph f = Ok g" and "bcj2_layout g f = Some (Ok (Some layout))"
    and "ch \<in> {l_main layout, l_call layout, l_jump layout, l_control layout}" and "c \<in> set (ch_coders ch)"
  shows "bc_output c < total_out_streams f"
proof -
  obtain b ins where "list_all2 (\<lambda>i ch. channel_chain g i (rev (ch_coders ch)) (ch_packed ch)) ins
      [l_main layout, l_call layout, l_jump layout, l_control layout]"
    using bcj2_layout_Ok [OF assms(2)] unfolding layout_of_def by blast
  then obtain i where "channel_chain g i (rev (ch_coders ch)) (ch_packed ch)"
    using assms(3) by (fastforce dest: list_all2_right)
  from channel_chain_outputs [OF this] show ?thesis using assms(1,4) graph_outputs by simp
qed

lemma BoundInputs_take_Ok:
  assumes "slot < length bound" and "bound ! slot = Some input"
  shows "BoundInputs_take bound slot = Ok (input, bound[slot := None])"
  using assms by (simp add: BoundInputs_take_def get_def)

text \<open>The slots a plan takes, in order, and the readers it gets.\<close>

definition plan_slots :: "Topology \<Rightarrow> nat list" where
  "plan_slots t = (case t of Chain _ \<Rightarrow> [0] | Bcj2 _ _ _ _ s _ \<Rightarrow> [sl_main s, sl_call s, sl_jump s, sl_control s])"

definition bound_inputs_of :: "'r BoundTopology \<Rightarrow> 'r Take list" where
  "bound_inputs_of t = (case t of BChain _ r \<Rightarrow> [r] | BBcj2 a b c d _ \<Rightarrow> map bi_input [a, b, c, d])"

definition bound_steps_of :: "'r BoundTopology \<Rightarrow> DecodeStep list" where
  "bound_steps_of t = (case t of BChain steps _ \<Rightarrow> steps | BBcj2 a b c d _ \<Rightarrow> concat (map bi_coders [a, b, c, d]))"

definition bounded_input :: "u64 list \<Rightarrow> 'r PackedInput list \<Rightarrow> nat \<Rightarrow> 'r Take" where
  "bounded_input packed given slot = \<lparr>tk_inner = pi_reader (given ! slot), tk_limit = packed ! slot\<rparr>"

lemma bind_slots:
  assumes "distinct (plan_slots (dp_topology plan))" and "set (plan_slots (dp_topology plan)) \<subseteq> {..<length (dp_inputs plan)}"
    and "length given = length (dp_inputs plan)" and "map (\<lambda>i. of_nat (pi_size i)) given = dp_inputs plan"
  shows "\<exists>bound. DecoderPlan_bind plan given = Ok \<lparr>rdy_topology = bound, rdy_memory = dp_memory plan\<rparr> \<and>
    bound_inputs_of bound = map (bounded_input (dp_inputs plan) given) (plan_slots (dp_topology plan)) \<and>
    bound_steps_of bound = plan_steps (dp_topology plan)"
proof -
  let ?n = "length (dp_inputs plan)"
  let ?all = "map (\<lambda>i. Some (bounded_input (dp_inputs plan) given i)) [0..<?n]"
  have "\<not> list_ex (\<lambda>(i, sz). of_nat (pi_size i) \<noteq> sz) (zip given (dp_inputs plan))"
    using assms(3) unfolding assms(4) [symmetric] by (auto simp: list_ex_iff in_set_zip)
  moreover have "map (\<lambda>(i, sz). Some \<lparr>tk_inner = pi_reader i, tk_limit = sz\<rparr>) (zip given (dp_inputs plan)) = ?all"
    using assms(3) by (intro nth_equalityI) (simp_all add: bounded_input_def)
  ultimately have bind: "PackedLayout_bind (dp_inputs plan) given = Ok ?all"
    using assms(3) by (simp add: PackedLayout_bind_def)
  show ?thesis
  proof (cases "dp_topology plan")
    case (Chain steps)
    then have "BoundInputs_take ?all 0 = Ok (bounded_input (dp_inputs plan) given 0, ?all[0 := None])"
      using assms(2) by (intro BoundInputs_take_Ok) (auto simp: plan_slots_def)
    then show ?thesis
      using bind Chain by (simp add: DecoderPlan_bind_def plan_slots_def bound_inputs_of_def bound_steps_of_def plan_steps_def)
  next
    case (Bcj2 a b c d s out)
    then have s: "distinct [sl_main s, sl_call s, sl_jump s, sl_control s]"
      "\<forall>i \<in> {sl_main s, sl_call s, sl_jump s, sl_control s}. i < ?n"
      using assms(1,2) by (auto simp: plan_slots_def)
    define all2 all3 all4 where "all2 = ?all[sl_main s := None]" and "all3 = all2[sl_call s := None]" and "all4 = all3[sl_jump s := None]"
    let ?b = "bounded_input (dp_inputs plan) given"
    have "BoundInputs_take ?all (sl_main s) = Ok (?b (sl_main s), all2)"
      "BoundInputs_take all2 (sl_call s) = Ok (?b (sl_call s), all3)"
      "BoundInputs_take all3 (sl_jump s) = Ok (?b (sl_jump s), all4)"
      "BoundInputs_take all4 (sl_control s) = Ok (?b (sl_control s), all4[sl_control s := None])"
      using s unfolding all4_def all3_def all2_def
      by (auto intro!: BoundInputs_take_Ok)
    then show ?thesis
      using bind Bcj2
      by (simp add: DecoderPlan_bind_def plan_slots_def bound_inputs_of_def bound_steps_of_def plan_steps_def)
  qed
qed

lemma plan_slots_distinct:
  assumes "graph f = Ok g"
    and "with_output_sizes lzma_mem lzma2_mem f g unpack_size szs packed budget = Some (Ok (plan, budget'))"
  shows "dp_inputs plan = packed \<and> distinct (plan_slots (dp_topology plan)) \<and>
    set (plan_slots (dp_topology plan)) \<subseteq> {..<length packed}"
  using assms(2)
proof (cases rule: with_output_sizes_Ok)
  case chain
  from chain(5) show ?thesis by (rule compile_chain_Ok) (simp add: plan_slots_def)
next
  case (bcj2 layout)
  from bcj2_layout_Ok [OF bcj2(3)] obtain b ins where "layout_of g f b ins layout" by blast
  note distinct = layout_of_distinct_packed [OF assms(1) this]
  from bcj2(4) obtain a b c d where run: "dp_inputs plan = packed"
    "dp_topology plan = Bcj2 a b c d \<lparr>sl_main = ch_packed (l_main layout), sl_call = ch_packed (l_call layout),
       sl_jump = ch_packed (l_jump layout), sl_control = ch_packed (l_control layout)\<rparr> (unat unpack_size)"
    "compile_channel lzma_mem f szs packed (l_main layout) (ch_packed (l_main layout)) = Ok a"
    "compile_channel lzma_mem f szs packed (l_call layout) (ch_packed (l_call layout)) = Ok b"
    "compile_channel lzma_mem f szs packed (l_jump layout) (ch_packed (l_jump layout)) = Ok c"
    "compile_channel lzma_mem f szs packed (l_control layout) (ch_packed (l_control layout)) = Ok d"
    by (rule compile_bcj2_Ok)
  then show ?thesis
    using distinct run(3-6) [THEN compile_channel_connected] by (simp add: plan_slots_def)
qed


section \<open>Properties\<close>

lemma compile_with_budget_Ok:
  assumes "compile_with_budget lzma_mem lzma2_mem f g unpack_size declared packed budget = Some (Ok (plan, budget'))"
  obtains szs where "CoderOutputSizes_complete f g unpack_size declared = Ok szs"
    "with_output_sizes lzma_mem lzma2_mem f g unpack_size szs packed budget = Some (Ok (plan, budget'))"
  using assms by (auto simp: compile_with_budget_def split: result.splits)

lemma compile_with_budget_total:
  assumes "graph f = Ok g"
  shows "\<exists>r. compile_with_budget lzma_mem lzma2_mem f g unpack_size declared packed budget = Some r"
  using bcj2_layout_total [OF assms]
  by (auto simp: compile_with_budget_def with_output_sizes_def decoder_topology_def split: result.split)

text \<open>
  C14. No decoder starts without its memory. What a compiled plan claims is exactly the sum of what
  its coders claim, plus the channel buffers and the whole output if the folder uses BCJ2; it is within
  the limit of the operation, which is never above the hard limit; and compiling changes
  nothing of the budget but the peak.
\<close>

theorem plan_memory_admitted:
  assumes "compile_with_budget lzma_mem lzma2_mem f g unpack_size declared packed budget = Some (Ok (plan, budget'))"
  shows "dp_memory plan = steps_memory lzma2_mem (plan_steps (dp_topology plan)) + plan_buffers (dp_topology plan) \<and>
    (\<forall>step \<in> set (plan_steps (dp_topology plan)). is_ok (DecodeStep_working_set lzma2_mem step)) \<and>
    dp_memory plan \<le> unat (admission_limit budget) \<and> admission_limit budget \<le> MAX_DECODER_WORKING_SET_BYTES \<and>
    budget' = budget\<lparr>peak_decoder_working_set := max (peak_decoder_working_set budget) (of_nat (dp_memory plan))\<rparr>"
  using assms
proof (rule compile_with_budget_Ok)
  fix szs
  assume "with_output_sizes lzma_mem lzma2_mem f g unpack_size szs packed budget = Some (Ok (plan, budget'))"
  from plan_memory [OF this] show ?thesis by (simp add: admission_limit_def split: option.split)
qed

lemma plan_sizes:
  assumes "graph f = Ok g"
    and "compile_with_budget lzma_mem lzma2_mem f g unpack_size declared packed budget = Some (Ok (plan, budget'))"
  shows "case dp_topology plan of
      Chain steps \<Rightarrow> steps \<noteq> [] \<and> ds_output (last steps) = Known unpack_size \<and>
        (\<exists>packed_size. packed = [packed_size] \<and> connected (Known packed_size) steps) \<and>
        list_all2 (\<lambda>index step. CoderPlan_compile lzma_mem (coders f ! index) (ds_output step) = Ok (ds_coder step) \<and>
          ds_output step = Known (declared ! index)) (g_execution_order g) steps
    | Bcj2 a b c d slots output_size \<Rightarrow>
        (\<exists>layout. bcj2_layout g f = Some (Ok (Some layout)) \<and>
          slots = \<lparr>sl_main = ch_packed (l_main layout), sl_call = ch_packed (l_call layout),
            sl_jump = ch_packed (l_jump layout), sl_control = ch_packed (l_control layout)\<rparr> \<and>
          list_all2 (channel_sized lzma_mem f declared packed)
            [l_main layout, l_call layout, l_jump layout, l_control layout] [a, b, c, d]) \<and>
        unat unpack_size = channel_bytes packed a (sl_main slots) + channel_bytes packed b (sl_call slots) +
          channel_bytes packed c (sl_jump slots) \<and>
        output_size = unat unpack_size \<and> declared ! g_final_output g = unpack_size"
  using assms(2)
proof (rule compile_with_budget_Ok)
  fix szs
  assume szs: "CoderOutputSizes_complete f g unpack_size declared = Ok szs"
    and "with_output_sizes lzma_mem lzma2_mem f g unpack_size szs packed budget = Some (Ok (plan, budget'))"
  from this(2) show ?thesis
  proof (cases rule: with_output_sizes_Ok)
    case chain
    from chain_sizes [OF chain(5)] obtain p steps where run: "packed = [p]" "dp_topology plan = Chain steps" "connected (Known p) steps"
      and all: "list_all2 (\<lambda>index step. index < length (coders f) \<and>
        (\<exists>sz. CoderPlan_compile lzma_mem (coders f ! index) sz = Ok (ds_coder step) \<and> (sz \<noteq> Unknown \<longrightarrow> ds_output step = sz) \<and>
          (CoderOutputSizes_get szs index \<noteq> Unknown \<longrightarrow> sz = CoderOutputSizes_get szs index)) \<and>
        (CoderOutputSizes_get szs index \<noteq> Unknown \<longrightarrow> ds_output step = CoderOutputSizes_get szs index)) (g_execution_order g) steps"
      by blast
    note order = chain_final [OF assms(1) chain(4)]
    have len: "length steps = length (g_execution_order g)" using all by (simp add: list_all2_lengthD)
    from order have some: "g_execution_order g \<noteq> []" and final: "last (g_execution_order g) = g_final_output g" by blast+
    from some len have ne: "steps \<noteq> []" by (metis length_0_conv)
    have "length steps - 1 < length (g_execution_order g)" using ne len by (cases steps) simp_all
    from list_all2_nthD [OF all this] have "CoderOutputSizes_get szs (last (g_execution_order g)) \<noteq> Unknown \<longrightarrow>
        ds_output (last steps) = CoderOutputSizes_get szs (last (g_execution_order g))"
      using ne len some by (simp add: last_conv_nth)
    then have "ds_output (last steps) = Known unpack_size"
      using final complete_get(2) [OF szs] by simp
    moreover have "list_all2 (\<lambda>index step. CoderPlan_compile lzma_mem (coders f ! index) (ds_output step) = Ok (ds_coder step) \<and>
          ds_output step = Known (declared ! index)) (g_execution_order g) steps"
      by (rule list_all2_mono [OF all])
        (use complete_get [OF szs] one_to_one_owners(2) [OF chain(4)] in auto)
    ultimately show ?thesis using run ne by simp
  next
    case (bcj2 layout)
    from bcj2(4) obtain a b c d where run:
      "dp_topology plan = Bcj2 a b c d \<lparr>sl_main = ch_packed (l_main layout), sl_call = ch_packed (l_call layout),
         sl_jump = ch_packed (l_jump layout), sl_control = ch_packed (l_control layout)\<rparr> (unat unpack_size)"
      "declared_output packed [(a, ch_packed (l_main layout)), (b, ch_packed (l_call layout)), (c, ch_packed (l_jump layout))]
         = Ok unpack_size"
      "compile_channel lzma_mem f szs packed (l_main layout) (ch_packed (l_main layout)) = Ok a"
      "compile_channel lzma_mem f szs packed (l_call layout) (ch_packed (l_call layout)) = Ok b"
      "compile_channel lzma_mem f szs packed (l_jump layout) (ch_packed (l_jump layout)) = Ok c"
      "compile_channel lzma_mem f szs packed (l_control layout) (ch_packed (l_control layout)) = Ok d"
      by (rule compile_bcj2_Ok)
    have sized: "channel_sized lzma_mem f declared packed ch steps"
      if "ch \<in> {l_main layout, l_call layout, l_jump layout, l_control layout}"
        "compile_channel lzma_mem f szs packed ch (ch_packed ch) = Ok steps" for ch steps
      using layout_outputs [OF assms(1) bcj2(3)] that by (blast intro: compile_channel_sized [OF szs])
    have "declared ! g_final_output g = unpack_size"
      using complete_get [OF szs] graph_outputs [OF assms(1)] by (metis OutputSize.inject)
    then show ?thesis
      using run(1) bcj2(3) declared_output_Ok [OF run(2)] sized [OF _ run(3)] sized [OF _ run(4)] sized [OF _ run(5)]
        sized [OF _ run(6)] by simp
  qed
qed

text \<open>
  C12. The sizes of a plan fit together. In a chain the first coder reads the packed stream, each
  other one what the one before wrote, in execution order; every output has its declared size, a
  filter writes as much as it reads, and the last coder writes the folder's output. With BCJ2
  the four channels are those of the folder's layout, each connected in the same way from its packed stream; every
  coder of a channel writes what is declared for its output; and the three data channels together
  have as many bytes as the folder's output, which is what is declared for it.
\<close>

theorem plan_sizes_agree:
  assumes "graph f = Ok g"
    and "compile_with_budget lzma_mem lzma2_mem f g unpack_size declared packed budget = Some (Ok (plan, budget'))"
  shows "case dp_topology plan of
      Chain steps \<Rightarrow> steps \<noteq> [] \<and> ds_output (last steps) = Known unpack_size \<and>
        (\<exists>packed_size. packed = [packed_size] \<and> connected (Known packed_size) steps) \<and>
        list_all2 (\<lambda>index step. CoderPlan_compile lzma_mem (coders f ! index) (ds_output step) = Ok (ds_coder step) \<and>
          ds_output step = Known (declared ! index)) (g_execution_order g) steps
    | Bcj2 a b c d slots output_size \<Rightarrow>
        (\<exists>layout. bcj2_layout g f = Some (Ok (Some layout)) \<and>
          slots = \<lparr>sl_main = ch_packed (l_main layout), sl_call = ch_packed (l_call layout),
            sl_jump = ch_packed (l_jump layout), sl_control = ch_packed (l_control layout)\<rparr> \<and>
          list_all2 (channel_sized lzma_mem f declared packed)
            [l_main layout, l_call layout, l_jump layout, l_control layout] [a, b, c, d]) \<and>
        unat unpack_size = channel_bytes packed a (sl_main slots) + channel_bytes packed b (sl_call slots) +
          channel_bytes packed c (sl_jump slots) \<and>
        output_size = unat unpack_size \<and> declared ! g_final_output g = unpack_size"
  by (rule plan_sizes [OF assms])

text \<open>
  C13. Compiling the plan of a resolved folder returns, and a plan binds to the packed streams it was
  compiled for: with the number and the sizes that the header declares, and only then, every
  coder gets its reader, no packed stream is used twice, and none can be read beyond its size.
\<close>

theorem plan_binds_inputs:
  assumes "graph f = Ok g"
  shows "\<exists>r. compile_with_budget lzma_mem lzma2_mem f g unpack_size declared packed budget = Some r \<and>
    (\<forall>plan budget'. r = Ok (plan, budget') \<longrightarrow>
      distinct (plan_slots (dp_topology plan)) \<and>
      (if length given \<noteq> length packed then DecoderPlan_bind plan given = Err InvalidFolderGraph
       else if map (\<lambda>i. of_nat (pi_size i)) given \<noteq> packed then DecoderPlan_bind plan given = Err Parse
       else \<exists>bound. DecoderPlan_bind plan given = Ok \<lparr>rdy_topology = bound, rdy_memory = dp_memory plan\<rparr> \<and>
         bound_inputs_of bound = map (bounded_input packed given) (plan_slots (dp_topology plan)) \<and>
         bound_steps_of bound = plan_steps (dp_topology plan)))"
proof -
  obtain r where r: "compile_with_budget lzma_mem lzma2_mem f g unpack_size declared packed budget = Some r"
    using compile_with_budget_total [OF assms] by blast
  have "distinct (plan_slots (dp_topology plan)) \<and>
      (if length given \<noteq> length packed then DecoderPlan_bind plan given = Err InvalidFolderGraph
       else if map (\<lambda>i. of_nat (pi_size i)) given \<noteq> packed then DecoderPlan_bind plan given = Err Parse
       else \<exists>bound. DecoderPlan_bind plan given = Ok \<lparr>rdy_topology = bound, rdy_memory = dp_memory plan\<rparr> \<and>
         bound_inputs_of bound = map (bounded_input packed given) (plan_slots (dp_topology plan)) \<and>
         bound_steps_of bound = plan_steps (dp_topology plan))"
    if plan: "r = Ok (plan, budget')" for plan budget'
  proof -
    from r plan have "compile_with_budget lzma_mem lzma2_mem f g unpack_size declared packed budget = Some (Ok (plan, budget'))"
      by simp
    then obtain szs where "with_output_sizes lzma_mem lzma2_mem f g unpack_size szs packed budget = Some (Ok (plan, budget'))"
      by (rule compile_with_budget_Ok)
    note slots = plan_slots_distinct [OF assms this]
    then have inputs: "dp_inputs plan = packed" by blast
    consider (number) "length given \<noteq> length packed"
      | (sizes) "length given = length packed" "map (\<lambda>i. of_nat (pi_size i)) given \<noteq> packed"
      | (fits) "length given = length packed" "map (\<lambda>i. of_nat (pi_size i)) given = packed" by blast
    then show ?thesis
    proof cases
      case number
      then show ?thesis using slots by (simp add: DecoderPlan_bind_def PackedLayout_bind_def)
    next
      case sizes
      then have "list_ex (\<lambda>(i, sz). of_nat (pi_size i) \<noteq> sz) (zip given packed)"
        by (induction given packed rule: list_induct2) auto
      then have "DecoderPlan_bind plan given = Err Parse"
        using sizes(1) inputs by (simp add: DecoderPlan_bind_def PackedLayout_bind_def)
      then show ?thesis using sizes slots by simp
    next
      case fits
      with slots bind_slots [of plan given] show ?thesis by simp
    qed
  qed
  with r show ?thesis by blast
qed

text \<open>A folder with one delta filter over five bytes.\<close>

definition delta_folder :: Folder where
  "delta_folder = \<lparr>coders = [\<lparr>codec_id = CODEC_DELTA, num_in_streams = 1, num_out_streams = 1, properties = Some [3]\<rparr>],
     bind_pairs = [], packed_indices = []\<rparr>"

definition delta_graph :: FolderGraph where
  "delta_graph = \<lparr>g_execution_order = [0], g_packed_inputs = [(0, 0)], g_final_output = 0,
     g_input_owners = [0], g_output_owners = [0], g_input_sources = [None]\<rparr>"

definition delta_plan :: DecoderPlan where
  "delta_plan = \<lparr>dp_topology = Chain [\<lparr>ds_coder = C_Delta 4, ds_input = Known 5, ds_output = Known 5\<rparr>],
     dp_memory = 256, dp_inputs = [5]\<rparr>"

lemma delta_method: "method_info CODEC_DELTA = Some \<lparr>mi_method = M_Delta, mi_id = CODEC_DELTA, mi_name = ''Delta'', mi_kind = Filter,
    mi_decode = Tested, mi_encode = Unsupported, mi_stream_arity = (1, 1)\<rparr>"
  by (simp add: method_info_def METHOD_REGISTRY_def codec_ids)

lemma delta_graph_eq: "graph delta_folder = Ok delta_graph"
proof -
  have owners: "StreamOwners_from_coders (coders delta_folder) = Ok \<lparr>own_inputs = [0], own_outputs = [0]\<rparr>"
    by (simp add: StreamOwners_from_coders_def StreamArity_try_from_def delta_folder_def method_from_id_def delta_method
        method_stream_arity add_arity_def capped_add_def usize_checked_add_def owner_list_def)
  let ?b = "\<lparr>bound_inputs = [False], bound_outputs = [False], input_sources = [None], edges = [[]], indegree = [0]\<rparr>"
  have bindings: "Bindings_new (bind_pairs delta_folder) \<lparr>own_inputs = [0], own_outputs = [0]\<rparr> (length (coders delta_folder)) = Ok ?b"
    by (simp add: delta_folder_def Bindings_new_def)
  have order: "execution_order ?b = Ok [0]"
    by (simp add: execution_order_def zero_positions_def get_def
        execution_loop.simps [of _ _ "[]"] execution_loop.simps [of _ _ "_ # _"])
  show ?thesis
    by (simp add: graph_def owners bindings order)
       (simp add: delta_folder_def delta_graph_def final_output_def packed_inputs_def unset_positions_def)
qed

definition delta_budget :: OperationBudget where
  "delta_budget = OperationBudget_new ResourceLimits_default"

lemma delta_layout: "bcj2_layout delta_graph delta_folder = Some (Ok None)"
  by (simp add: bcj2_layout_def delta_folder_def codec_ids)

lemma delta_compile: "CoderPlan_compile lzma_mem (coders delta_folder ! 0) sz = Ok (C_Delta 4)"
  by (simp add: CoderPlan_compile_def delta_folder_def delta_method can_decode_def Let_def)

lemma delta_plan_eq:
  "compile_with_budget lzma_mem lzma2_mem delta_folder delta_graph 5 [5] [5] delta_budget =
     Some (Ok (delta_plan, delta_budget\<lparr>peak_decoder_working_set := 256\<rparr>))"
proof -
  let ?szs = "\<lparr>cs_declared = [5], cs_final_index = 0, cs_final_size = 5\<rparr>"
  have sizes: "CoderOutputSizes_complete delta_folder delta_graph 5 [5] = Ok ?szs"
    by (simp add: CoderOutputSizes_complete_def CoderOutputSizes_partial_def total_out_streams_def delta_folder_def
        delta_graph_def get_def)
  have topology: "decoder_topology delta_folder delta_graph = Some (Ok DT_Chain)"
    by (simp add: decoder_topology_def delta_layout) (simp add: delta_folder_def method_from_id_def delta_method)
  have "length (coders delta_folder) = 1" by (simp add: delta_folder_def)
  then have coder: "get (coders delta_folder) 0 = Some (coders delta_folder ! 0)" by simp
  have steps: "compile_backwards lzma_mem delta_folder ?szs [0] Unknown = Ok [\<lparr>sc_coder = C_Delta 4, sc_output = Known 5\<rparr>]"
    by (simp add: coder delta_compile SizedCoder_compile_def CoderOutputSizes_get_def reconcile_def del: get_eq_Some)
  have admit: "WorkingSet_admit 256 delta_budget = Ok (256, delta_budget\<lparr>peak_decoder_working_set := 256\<rparr>)"
    by (simp add: WorkingSet_admit_def admit_decoder_working_set_def delta_budget_def OperationBudget_new_def
        ResourceLimits_default_def)
  let ?step = "\<lparr>ds_coder = C_Delta 4, ds_input = Known 5, ds_output = Known 5\<rparr>"
  have bind: "bind_sizes [\<lparr>sc_coder = C_Delta 4, sc_output = Known 5\<rparr>] (Known 5) = Ok [?step]"
    by (simp add: bind_size_def reconcile_def preserves_size_def)
  have memory: "add_working_sets lzma2_mem [?step] = Ok 256"
    by (simp add: add_working_sets_def DecodeStep_working_set_def CoderPlan_working_set_def WorkingSet_add_def usize_checked_add_def)
  have order: "rev (g_execution_order delta_graph) = [0]" by (simp add: delta_graph_def)
  have "compile_chain lzma_mem lzma2_mem delta_folder delta_graph ?szs [5] delta_budget =
      Ok (delta_plan, delta_budget\<lparr>peak_decoder_working_set := 256\<rparr>)"
    unfolding compile_chain_def order by (simp only: list.case steps and_then.simps rev.simps append_Nil bind memory admit prod.case delta_plan_def)
  then show ?thesis
    by (simp add: compile_with_budget_def sizes with_output_sizes_def topology validate_folder_coder_count_def)
       (simp add: delta_folder_def delta_graph_def)
qed

theorem plan_memory_admitted_witness:
  "dp_memory delta_plan = 256 \<and> steps_memory (\<lambda>_. 0) (plan_steps (dp_topology delta_plan)) + plan_buffers (dp_topology delta_plan) = 256 \<and>
   256 \<le> unat (admission_limit delta_budget)"
  using plan_memory_admitted [OF delta_plan_eq [of "\<lambda>_ _. None" "\<lambda>_. 0"]] by (simp add: delta_plan_def)

theorem plan_sizes_agree_witness:
  "graph delta_folder = Ok delta_graph \<and> dp_topology delta_plan = Chain [\<lparr>ds_coder = C_Delta 4, ds_input = Known 5, ds_output = Known 5\<rparr>] \<and>
   (\<exists>packed_size. [5 :: u64] = [packed_size] \<and> connected (Known packed_size) [\<lparr>ds_coder = C_Delta 4, ds_input = Known 5, ds_output = Known 5\<rparr>])"
  using plan_sizes_agree [OF delta_graph_eq delta_plan_eq [of "\<lambda>_ _. None" "\<lambda>_. 0"]] delta_graph_eq by (simp add: delta_plan_def)

theorem plan_binds_inputs_witness:
  "\<exists>bound. DecoderPlan_bind delta_plan [\<lparr>pi_reader = Cursor_new [1, 2, 3, 4, 5, 6], pi_size = 5\<rparr>] =
      Ok \<lparr>rdy_topology = bound, rdy_memory = 256\<rparr> \<and>
    bound_inputs_of bound = [\<lparr>tk_inner = Cursor_new [1, 2, 3, 4, 5, 6], tk_limit = 5\<rparr>]"
proof -
  note eq = delta_plan_eq [of "\<lambda>_ _. None" "\<lambda>_. 0"]
  let ?given = "[\<lparr>pi_reader = Cursor_new [1, 2, 3, 4, 5, 6], pi_size = 5\<rparr>]"
  have "\<exists>bound. DecoderPlan_bind delta_plan ?given = Ok \<lparr>rdy_topology = bound, rdy_memory = dp_memory delta_plan\<rparr> \<and>
      bound_inputs_of bound = map (bounded_input [5] ?given) (plan_slots (dp_topology delta_plan))"
    using plan_binds_inputs [OF delta_graph_eq, of "\<lambda>_ _. None" "\<lambda>_. 0" 5 "[5]" "[5]" delta_budget ?given] eq by auto
  then show ?thesis by (simp add: delta_plan_def plan_slots_def bounded_input_def)
qed

end
