(* ===== verification/Decoder_Open.thy ===== *)
theory Decoder_Open
  imports Decoder_Plan
begin

text \<open>
  \<^verbatim>\<open>src/src/codec/plan.rs\<close>, second part, and \<^verbatim>\<open>src/src/codec.rs\<close>: opening the readers of a bound plan.
  The readers of the third-party codecs are a parameter, the record \<open>codecs\<close>: the constructors
  the sources call, each from a boxed reader to a boxed reader, or to nothing where they fail.
\<close>

section \<open>Boxed readers\<close>

text \<open>\<open>Box<dyn Read>\<close>: all there is to know of it is how it answers.\<close>

codatatype dyn = Dyn (dyn_read: "nat \<Rightarrow> bytes io_result \<times> dyn")

text \<open>\<open>Box::new\<close>.\<close>

primcorec boxed :: "'r reader \<Rightarrow> 'r \<Rightarrow> dyn" where
  "dyn_read (boxed rd r) = map_prod (\<lambda>answer. answer) (boxed rd) \<circ> rd r"

lemma dyn_read_boxed: "dyn_read (boxed rd r) n = (case rd r n of (answer, r) \<Rightarrow> (answer, boxed rd r))"
  by (simp add: map_prod_def split: prod.split)

text \<open>
  The crates: lzma_rust2, flate2, bzip2_rs, deflate64, ppmd_rust, and for AES the block mode and the hash.
  \<open>BcjReader\<close> takes the position its filter starts at.
\<close>

record ('b, 'd) codecs =
  lzma_reader :: "dyn \<Rightarrow> u64 \<Rightarrow> u8 \<Rightarrow> u32 \<Rightarrow> dyn option"
  lzma2_reader :: "dyn \<Rightarrow> u32 \<Rightarrow> dyn"
  bcj_x86 :: "dyn \<Rightarrow> nat \<Rightarrow> dyn"
  bcj_arm :: "dyn \<Rightarrow> nat \<Rightarrow> dyn"
  bcj_arm_thumb :: "dyn \<Rightarrow> nat \<Rightarrow> dyn"
  bcj_ia64 :: "dyn \<Rightarrow> nat \<Rightarrow> dyn"
  bcj_ppc :: "dyn \<Rightarrow> nat \<Rightarrow> dyn"
  bcj_sparc :: "dyn \<Rightarrow> nat \<Rightarrow> dyn"
  bcj_arm64 :: "dyn \<Rightarrow> nat \<Rightarrow> dyn"
  bcj_riscv :: "dyn \<Rightarrow> nat \<Rightarrow> dyn"
  deflate_reader :: "dyn \<Rightarrow> dyn"
  bzip2_reader :: "dyn \<Rightarrow> dyn"
  deflate64_reader :: "dyn \<Rightarrow> dyn"
  ppmd_reader :: "dyn \<Rightarrow> u32 \<Rightarrow> u32 \<Rightarrow> dyn option"
  delta_reader :: "dyn \<Rightarrow> nat \<Rightarrow> dyn"
  bcj2_try_new :: "dyn list \<Rightarrow> u64 \<Rightarrow> 'b option"
  bcj2_read :: "'b reader"
  bcj2_finish :: "'b \<Rightarrow> unit option"
  cbc_decryptor :: "bytes \<Rightarrow> bytes \<Rightarrow> 'd"
  cbc_decrypt :: "'d block_mode"
  sha256 :: "bytes \<Rightarrow> bytes"


section \<open>Opening one coder\<close>

definition size_of :: "OutputSize \<Rightarrow> u64 option" where
  "size_of sz = (case sz of Known n \<Rightarrow> Some n | Unknown \<Rightarrow> None)"

definition aes_coder_reader :: "('b, 'd) codecs \<Rightarrow> AesProperties \<Rightarrow> dyn \<Rightarrow> OutputSize \<Rightarrow> OutputSize \<Rightarrow>
    code_point list option \<Rightarrow> OperationBudget \<Rightarrow> (dyn, 'd) Aes256CbcDecryptReader r7z_result \<times> OperationBudget" where
  "aes_coder_reader C props input input_size unpack_size password budget =
     (case password of
        None \<Rightarrow> (Err PasswordRequired, budget)
      | Some password \<Rightarrow>
          let power = ap_num_cycles_power props in
          case (if power = 0x3F then Ok 0
                else if power \<le> MAX_AES_NUM_CYCLES_POWER then Ok (push_bit (unat power) 1)
                else Err Decompression) of
            Err e \<Rightarrow> (Err e, budget)
          | Ok cycles \<Rightarrow>
              (case charge_kdf_cycles budget cycles of
                 Err e \<Rightarrow> (Err e, budget)
               | Ok budget \<Rightarrow>
                   (and_then (derive_key_with_control (sha256 C) password (ap_salt props) power (control (monitor budget)))
                      (\<lambda>key. DecryptReader_new (cbc_decryptor C) input key (ap_iv props) (size_of input_size) (size_of unpack_size)),
                    budget)))"

definition checked_reader :: "'r reader \<Rightarrow> 'r \<Rightarrow> OutputSize \<Rightarrow> dyn" where
  "checked_reader rd r output =
     (case output of
        Known sz \<Rightarrow> boxed (ExactSizeReader_read rd) (ExactSizeReader_terminated r sz)
      | Unknown \<Rightarrow> boxed rd r)"

definition CoderPlan_open :: "('b, 'd) codecs \<Rightarrow> CoderPlan \<Rightarrow> dyn \<Rightarrow> OutputSize \<Rightarrow> OutputSize \<Rightarrow>
    code_point list option \<Rightarrow> OperationBudget \<Rightarrow> dyn r7z_result \<times> OperationBudget" where
  "CoderPlan_open C self input input_size output password budget =
     (let checked = (\<lambda>d. (Ok (checked_reader dyn_read d output), budget)) in
      case self of
        C_Copy \<Rightarrow>
          (case output of
             Known sz \<Rightarrow> (Ok (boxed (ExactSizeReader_read dyn_read) (ExactSizeReader_terminated input sz)), budget)
           | Unknown \<Rightarrow> (Ok input, budget))
      | C_Lzma p \<Rightarrow>
          (case lzma_reader C input (case output of Known sz \<Rightarrow> sz | Unknown \<Rightarrow> - 1) (lp_props p) (lp_dictionary p) of
             None \<Rightarrow> (Err Decompression, budget)
           | Some d \<Rightarrow> checked d)
      | C_Lzma2 dictionary \<Rightarrow> checked (lzma2_reader C input dictionary)
      | C_X86 \<Rightarrow> checked (bcj_x86 C input 0)
      | C_Arm \<Rightarrow> checked (bcj_arm C input 0)
      | C_ArmThumb \<Rightarrow> checked (bcj_arm_thumb C input 0)
      | C_Ia64 \<Rightarrow> checked (bcj_ia64 C input 0)
      | C_Ppc \<Rightarrow> checked (bcj_ppc C input 0)
      | C_Sparc \<Rightarrow> checked (bcj_sparc C input 0)
      | C_Arm64 pos \<Rightarrow> checked (bcj_arm64 C input pos)
      | C_Riscv pos \<Rightarrow> checked (bcj_riscv C input pos)
      | C_Deflate \<Rightarrow> checked (deflate_reader C input)
      | C_Bzip2 \<Rightarrow> checked (bzip2_reader C input)
      | C_Ppmd order memory sz \<Rightarrow>
          (case ppmd_reader C input order memory of
             None \<Rightarrow> (Err Decompression, budget)
           | Some d \<Rightarrow> (Ok (boxed (ExactSizeReader_read dyn_read) (ExactSizeReader_sized d sz)), budget))
      | C_Deflate64 \<Rightarrow> checked (deflate64_reader C input)
      | C_Delta distance \<Rightarrow> checked (delta_reader C input distance)
      | C_Swap w \<Rightarrow> (Ok (checked_reader (ByteSwapReader_read dyn_read) (ByteSwapReader_new input w) output), budget)
      | C_Aes props \<Rightarrow>
          (case aes_coder_reader C props input input_size output password budget of
             (Err e, budget) \<Rightarrow> (Err e, budget)
           | (Ok r, budget) \<Rightarrow>
               (Ok (checked_reader (settled (DecryptReader_read (cbc_decrypt C) dyn_read)) r output), budget)))"

definition DecodeStep_open :: "('b, 'd) codecs \<Rightarrow> DecodeStep \<Rightarrow> dyn \<Rightarrow> code_point list option \<Rightarrow> OperationBudget \<Rightarrow>
    dyn r7z_result \<times> OperationBudget" where
  "DecodeStep_open C self input password budget =
     CoderPlan_open C (ds_coder self) input (ds_input self) (ds_output self) password budget"

text \<open>The loop of \<open>start\<close> over a chain and the fold of \<open>BoundInput::open\<close> over a channel.\<close>

fun open_steps :: "('b, 'd) codecs \<Rightarrow> DecodeStep list \<Rightarrow> dyn \<Rightarrow> code_point list option \<Rightarrow> OperationBudget \<Rightarrow>
    dyn r7z_result \<times> OperationBudget" where
  "open_steps C [] reader password budget = (Ok reader, budget)"
| "open_steps C (step # steps) reader password budget =
     (case DecodeStep_open C step reader password budget of
        (Err e, budget) \<Rightarrow> (Err e, budget)
      | (Ok reader, budget) \<Rightarrow> open_steps C steps reader password budget)"

definition BoundInput_open :: "('b, 'd) codecs \<Rightarrow> 'r reader \<Rightarrow> 'r BoundInput \<Rightarrow> code_point list option \<Rightarrow> OperationBudget \<Rightarrow>
    dyn r7z_result \<times> OperationBudget" where
  "BoundInput_open C rd self password budget =
     open_steps C (bi_coders self) (boxed (Take_read rd) (bi_input self)) password budget"

fun open_channels :: "('b, 'd) codecs \<Rightarrow> 'r reader \<Rightarrow> 'r BoundInput list \<Rightarrow> code_point list option \<Rightarrow> OperationBudget \<Rightarrow>
    dyn list r7z_result \<times> OperationBudget" where
  "open_channels C rd [] password budget = (Ok [], budget)"
| "open_channels C rd (channel # channels) password budget =
     (case BoundInput_open C rd channel password budget of
        (Err e, budget) \<Rightarrow> (Err e, budget)
      | (Ok d, budget) \<Rightarrow>
          (case open_channels C rd channels password budget of
             (Err e, budget) \<Rightarrow> (Err e, budget)
           | (Ok ds, budget) \<Rightarrow> (Ok (d # ds), budget)))"


section \<open>Starting a decoder\<close>

text \<open>The loop that decodes the whole output of a BCJ2 folder.\<close>

function bcj2_output :: "'b reader \<Rightarrow> nat \<Rightarrow> 'b \<Rightarrow> bytes \<Rightarrow> OperationBudget \<Rightarrow> (bytes \<times> 'b) r7z_result \<times> OperationBudget" where
  "bcj2_output rd output_size reader output budget =
     (if length output < output_size then
        case monitor_check (monitor budget) of
          Err e \<Rightarrow> (Err e, budget)
        | Ok _ \<Rightarrow>
            let before = length output;
                room = buffer_size (monitor budget) (output_size - before) in
            (case usize_checked_add before room of
               None \<Rightarrow> (Err Decompression, budget)
             | Some after \<Rightarrow>
                 (case rd reader room of
                    (Err e, reader) \<Rightarrow> (Err Decompression, budget)
                  | (Ok bs, reader) \<Rightarrow>
                      (case monitor_advance (monitor budget) (length bs) of
                         (Err e, m) \<Rightarrow> (Err e, budget\<lparr>monitor := m\<rparr>)
                       | (Ok _, m) \<Rightarrow>
                           if bs = [] then (Ok (output, reader), budget\<lparr>monitor := m\<rparr>)
                           else bcj2_output rd output_size reader (output @ bs) (budget\<lparr>monitor := m\<rparr>))))
      else (Ok (output, reader), budget))"
  by pat_completeness auto
termination
  by (relation "measure (\<lambda>(rd, output_size, reader, output, budget). output_size - length output)")
     (auto intro!: diff_less_mono2 simp: neq_Nil_conv)

declare bcj2_output.simps [simp del]

definition start_bcj2 :: "('b, 'd) codecs \<Rightarrow> 'r reader \<Rightarrow> 'r BoundInput list \<Rightarrow> nat \<Rightarrow> code_point list option \<Rightarrow> OperationBudget \<Rightarrow>
    dyn FolderReader r7z_result \<times> OperationBudget" where
  "start_bcj2 C rd channels output_size password budget =
     (case monitor_check (monitor budget) of
        Err e \<Rightarrow> (Err e, budget)
      | Ok _ \<Rightarrow>
          (case open_channels C rd channels password budget of
             (Err e, budget) \<Rightarrow> (Err e, budget)
           | (Ok ds, budget) \<Rightarrow>
               (case bcj2_try_new C ds (of_nat output_size) of
                  None \<Rightarrow> (Err Decompression, budget)
                | Some reader \<Rightarrow>
                    (case bcj2_output (bcj2_read C) output_size reader [] budget of
                       (Err e, budget) \<Rightarrow> (Err e, budget)
                     | (Ok (output, reader), budget) \<Rightarrow>
                         if length output \<noteq> output_size then (Err Decompression, budget)
                         else
                           (and_then (ok_or Decompression (bcj2_finish C reader)) (\<lambda>_.
                              and_then (monitor_check (monitor budget)) (\<lambda>_. Ok (Buffered (Cursor_new output)))),
                            budget)))))"

definition ReadyDecoder_start :: "('b, 'd) codecs \<Rightarrow> 'r reader \<Rightarrow> 'r ReadyDecoder \<Rightarrow> code_point list option \<Rightarrow> OperationBudget \<Rightarrow>
    dyn FolderReader r7z_result \<times> OperationBudget" where
  "ReadyDecoder_start C rd self password budget =
     (case rdy_topology self of
        BChain steps input \<Rightarrow>
          (case open_steps C steps (boxed (Take_read rd) input) password budget of
             (Err e, budget) \<Rightarrow> (Err e, budget)
           | (Ok reader, budget) \<Rightarrow> (Ok (Streamed reader), budget))
      | BBcj2 a b c d output_size \<Rightarrow> start_bcj2 C rd [a, b, c, d] output_size password budget)"

definition materialize :: "('b, 'd) codecs \<Rightarrow> 'r reader \<Rightarrow> 'r ReadyDecoder \<Rightarrow> code_point list option \<Rightarrow> OperationBudget \<Rightarrow>
    (bytes r7z_result \<times> OperationBudget) option" where
  "materialize C rd self password budget =
     (case WorkingSet_output_limit (rdy_memory self) of
        Err e \<Rightarrow> Some (Err e, budget)
      | Ok limit \<Rightarrow>
          (case ReadyDecoder_start C rd self password budget of
             (Err e, budget) \<Rightarrow> Some (Err e, budget)
           | (Ok reader, budget) \<Rightarrow>
               map_option (\<lambda>(result, _). (result, budget))
                 (read_to_end_bounded (FolderReader_read dyn_read) limit ''materialized output'' reader [] 0)))"


section \<open>Decoding a folder in memory\<close>

definition prepare_folder_decoder :: "(u32 \<Rightarrow> u8 \<Rightarrow> u32 option) \<Rightarrow> (u32 \<Rightarrow> u32) \<Rightarrow> Folder \<Rightarrow> 'r PackedInput list \<Rightarrow> u64 \<Rightarrow>
    u64 list \<Rightarrow> OperationBudget \<Rightarrow> ('r ReadyDecoder \<times> OperationBudget) r7z_result option" where
  "prepare_folder_decoder lzma_mem lzma2_mem folder packed_streams unpack_size coder_unpack_sizes budget =
     (case graph folder of
        Err e \<Rightarrow> Some (Err e)
      | Ok g \<Rightarrow>
          (case CoderOutputSizes_partial folder g unpack_size coder_unpack_sizes of
             Err e \<Rightarrow> Some (Err e)
           | Ok szs \<Rightarrow>
               map_option (\<lambda>r. and_then r (\<lambda>(plan, budget).
                   and_then (DecoderPlan_bind plan packed_streams) (\<lambda>bound. Ok (bound, budget))))
                 (with_output_sizes lzma_mem lzma2_mem folder g unpack_size szs
                   (map (\<lambda>input. of_nat (pi_size input)) packed_streams) budget)))"

definition decompress_folder_with_password_and_sizes :: "('b, 'd) codecs \<Rightarrow> (u32 \<Rightarrow> u8 \<Rightarrow> u32 option) \<Rightarrow> (u32 \<Rightarrow> u32) \<Rightarrow>
    Folder \<Rightarrow> bytes \<Rightarrow> u64 \<Rightarrow> u64 list \<Rightarrow> code_point list option \<Rightarrow> bytes r7z_result option" where
  "decompress_folder_with_password_and_sizes C lzma_mem lzma2_mem folder packed_data unpack_size coder_unpack_sizes password =
     Option.bind (prepare_folder_decoder lzma_mem lzma2_mem folder
         [\<lparr>pi_reader = Cursor_new packed_data, pi_size = length packed_data\<rparr>] unpack_size coder_unpack_sizes
         (OperationBudget_new ResourceLimits_default)) (\<lambda>r.
       case r of
         Err e \<Rightarrow> Some (Err e)
       | Ok (decoder, budget) \<Rightarrow> map_option fst (materialize C Cursor_read decoder password budget))"

definition decompress_folder_with_password :: "('b, 'd) codecs \<Rightarrow> (u32 \<Rightarrow> u8 \<Rightarrow> u32 option) \<Rightarrow> (u32 \<Rightarrow> u32) \<Rightarrow>
    Folder \<Rightarrow> bytes \<Rightarrow> u64 \<Rightarrow> code_point list option \<Rightarrow> bytes r7z_result option" where
  "decompress_folder_with_password C lzma_mem lzma2_mem folder packed_data unpack_size password =
     decompress_folder_with_password_and_sizes C lzma_mem lzma2_mem folder packed_data unpack_size [] password"

definition decompress_folder :: "('b, 'd) codecs \<Rightarrow> (u32 \<Rightarrow> u8 \<Rightarrow> u32 option) \<Rightarrow> (u32 \<Rightarrow> u32) \<Rightarrow>
    Folder \<Rightarrow> bytes \<Rightarrow> u64 \<Rightarrow> bytes r7z_result option" where
  "decompress_folder C lzma_mem lzma2_mem folder packed_data unpack_size =
     decompress_folder_with_password C lzma_mem lzma2_mem folder packed_data unpack_size None"


section \<open>Laws\<close>

subsection \<open>Readers that keep the contract\<close>

text \<open>A reader that, however it is used, never returns more bytes than it was asked for.\<close>

coinductive obeys :: "dyn \<Rightarrow> bool" where
  "(\<And>n. case dyn_read d n of (answer, d') \<Rightarrow> (\<forall>bs. answer = Ok bs \<longrightarrow> length bs \<le> n) \<and> obeys d') \<Longrightarrow> obeys d"

lemma obeys_step: "obeys d \<Longrightarrow> dyn_read d n = (answer, d') \<Longrightarrow> (\<forall>bs. answer = Ok bs \<longrightarrow> length bs \<le> n) \<and> obeys d'"
  by (erule obeys.cases) (metis (mono_tags, lifting) case_prod_conv)

text \<open>The contract for the states with an invariant \<open>I\<close>, which reading keeps.\<close>

definition contract :: "('r \<Rightarrow> bool) \<Rightarrow> 'r reader \<Rightarrow> bool" where
  "contract I rd \<longleftrightarrow> (\<forall>r n answer r'. I r \<longrightarrow> rd r n = (answer, r') \<longrightarrow> (\<forall>bs. answer = Ok bs \<longrightarrow> length bs \<le> n) \<and> I r')"

lemma contractD: "contract I rd \<Longrightarrow> I r \<Longrightarrow> rd r n = (answer, r') \<Longrightarrow> (\<forall>bs. answer = Ok bs \<longrightarrow> length bs \<le> n) \<and> I r'"
  by (simp add: contract_def)

lemma dyn_contract: "contract obeys dyn_read"
  unfolding contract_def using obeys_step by blast

lemma boxed_obeys:
  assumes "I r" and "contract I rd"
  shows "obeys (boxed rd r)"
  using assms(1)
proof (coinduction arbitrary: r rule: obeys.coinduct)
  case obeys
  have "case dyn_read (boxed rd r) n of (answer, d') \<Rightarrow>
      (\<forall>bs. answer = Ok bs \<longrightarrow> length bs \<le> n) \<and> ((\<exists>r. d' = boxed rd r \<and> I r) \<or> obeys d')" for n
  proof -
    obtain answer r' where rd: "rd r n = (answer, r')" by (cases "rd r n")
    with contractD [OF assms(2) obeys rd] show ?thesis by (auto simp: dyn_read_boxed)
  qed
  then show ?case by blast
qed

lemma exact_size_contract:
  assumes "contract I rd"
  shows "contract (\<lambda>s. I (es_inner s)) (ExactSizeReader_read rd)"
  unfolding contract_def
  using contractD [OF assms]
  by (fastforce simp: ExactSizeReader_read_def split: if_splits prod.splits result.splits OutputEnd.splits)

lemma checked_obeys:
  assumes "I r" and "contract I rd"
  shows "obeys (checked_reader rd r outsz)"
  using boxed_obeys [OF _ exact_size_contract [OF assms(2)]] boxed_obeys [OF assms] assms(1)
  by (auto simp: checked_reader_def ExactSizeReader_terminated_def split: OutputSize.split)

lemma sized_obeys: "obeys d \<Longrightarrow> obeys (boxed (ExactSizeReader_read dyn_read) (ExactSizeReader_sized d sz))"
  using boxed_obeys [OF _ exact_size_contract [OF dyn_contract]] by (simp add: ExactSizeReader_sized_def)

lemma decrypt_read_fits:
  assumes "settled (DecryptReader_read dec rd) r n = (answer, r')"
  shows "\<forall>bs. answer = Ok bs \<longrightarrow> length bs \<le> n"
proof (cases "fill_plaintext dec rd r")
  case (Some p)
  obtain f s where "p = (f, s)" by (cases p)
  with Some assms show ?thesis
    by (cases f) (auto simp: settled_def DecryptReader_read_def Let_def split: if_splits option.splits)
qed (use assms in \<open>auto simp: settled_def DecryptReader_read_def split: if_splits\<close>)

text \<open>The byte-swapping reader over such a reader.\<close>

definition swap_obeys :: "dyn ByteSwapReader \<Rightarrow> bool" where
  "swap_obeys self \<longleftrightarrow> obeys (sw_inner self) \<and> sw_pending_len self < width_of (sw_width self)"

lemma drain_obeys:
  assumes "drain_pending_output self n = (bs, self')"
  shows "length bs \<le> n \<and> sw_inner self' = sw_inner self \<and> sw_width self' = sw_width self \<and> sw_pending_len self' = sw_pending_len self"
  using assms by (auto simp: drain_pending_output_def Let_def)

lemma fill_group_obeys:
  assumes "fill_group dyn_read self = (answer, self')" and "obeys (sw_inner self)"
    and "sw_pending_len self \<le> width_of (sw_width self)"
  shows "obeys (sw_inner self') \<and> sw_width self' = sw_width self \<and>
    (answer \<noteq> Ok () \<longrightarrow> sw_pending_len self' < width_of (sw_width self))"
  using assms
proof (induction "width_of (sw_width self) - sw_pending_len self + (if sw_eof self then 0 else 1)" arbitrary: self rule: less_induct)
  case less
  let ?w = "width_of (sw_width self)" and ?p = "sw_pending_len self"
  show ?case
  proof (cases "?p < ?w \<and> \<not> sw_eof self")
    case True
    obtain ans r where rd: "dyn_read (sw_inner self) (?w - ?p) = (ans, r)" by (cases "dyn_read (sw_inner self) (?w - ?p)")
    note r = obeys_step [OF less.prems(2) rd]
    show ?thesis
    proof (cases ans)
      case (Err e)
      then show ?thesis using less.prems True rd r by (subst (asm) fill_group.simps) auto
    next
      case (Ok bs)
      show ?thesis
      proof (cases "bs = []")
        case empty: True
        let ?s = "self\<lparr>sw_inner := r, sw_eof := True\<rparr>"
        have "fill_group dyn_read ?s = (answer, self')"
          using less.prems(1) True rd Ok empty by (subst (asm) fill_group.simps) simp
        from less.hyps [OF _ this] show ?thesis using less.prems True r by simp
      next
        case False
        let ?s = "self\<lparr>sw_inner := r, sw_pending := put ?p bs (sw_pending self), sw_pending_len := ?p + length bs\<rparr>"
        have run: "fill_group dyn_read ?s = (answer, self')"
          using less.prems(1) True rd Ok False by (subst (asm) fill_group.simps) simp
        have "?p + length bs \<le> ?w" using r Ok True by auto
        moreover have "width_of (sw_width ?s) - sw_pending_len ?s + (if sw_eof ?s then 0 else 1) <
            ?w - ?p + (if sw_eof self then 0 else 1)" using True False by (cases bs) auto
        ultimately show ?thesis using less.hyps [OF _ run] r by simp
      qed
    qed
  next
    case False
    then show ?thesis using less.prems by (subst (asm) fill_group.simps) auto
  qed
qed

lemma read_groups_obeys:
  assumes "read_groups dyn_read self n filled = (answer, self')" and "obeys (sw_inner self)"
    and "length filled < width_of (sw_width self)" and "width_of (sw_width self) \<le> n" and "sw_pending_len self = 0"
  shows "(\<forall>bs. answer = Ok bs \<longrightarrow> length bs \<le> n) \<and> obeys (sw_inner self') \<and> sw_width self' = sw_width self \<and>
    sw_pending_len self' < width_of (sw_width self)"
  using assms
proof (induction "width_of (sw_width self) - length filled" arbitrary: self filled rule: less_induct)
  case less
  let ?w = "width_of (sw_width self)"
  have w: "0 < ?w" by (rule width_bounds)
  show ?case
  proof (cases "sw_eof self")
    case True
    then show ?thesis using less.prems w by (subst (asm) read_groups.simps) auto
  next
    case False
    obtain ans r where rd: "dyn_read (sw_inner self) (n - length filled) = (ans, r)"
      by (cases "dyn_read (sw_inner self) (n - length filled)")
    note r = obeys_step [OF less.prems(2) rd]
    show ?thesis
    proof (cases ans)
      case (Err e)
      then show ?thesis using less.prems False rd r by (subst (asm) read_groups.simps) auto
    next
      case (Ok bs)
      let ?filled = "filled @ bs" and ?s = "self\<lparr>sw_inner := r, sw_eof := (bs = [])\<rparr>"
      define complete where "complete = length ?filled div ?w * ?w"
      have step: "read_groups dyn_read self n filled =
        (if complete > 0 then
          (Ok (swap_groups ?w (take complete ?filled)),
           ?s\<lparr>sw_pending_len := length ?filled - complete, sw_pending := put 0 (drop complete ?filled) (sw_pending self)\<rparr>)
        else if bs = [] then (Ok ?filled, ?s) else read_groups dyn_read ?s n ?filled)"
        by (subst read_groups.simps) (simp add: False rd Ok Let_def complete_def cong: if_cong)
      have len: "length ?filled \<le> n" using r Ok less.prems(3,4) by auto
      have left: "length ?filled - complete < ?w" using w by (simp add: complete_def minus_div_mult_eq_mod)
      consider (some) "complete > 0" | (none) "complete = 0" "bs = []" | (again) "complete = 0" "bs \<noteq> []" by auto
      then show ?thesis
      proof cases
        case some
        then show ?thesis using less.prems(1) r len left unfolding step by auto
      next
        case none
        then show ?thesis using less.prems r len w unfolding step by auto
      next
        case again
        then have "length ?filled < ?w" using w by (simp add: complete_def div_eq_0_iff)
        moreover have "?w - length ?filled < ?w - length filled" using less.prems(3) again(2) by (cases bs) auto
        moreover have "read_groups dyn_read ?s n ?filled = (answer, self')" using less.prems(1) again unfolding step by simp
        ultimately show ?thesis using less.hyps [of ?s ?filled] less.prems r by simp
      qed
    qed
  qed
qed

lemma swap_read_obeys:
  assumes "swap_obeys self" and "ByteSwapReader_read dyn_read self n = (answer, self')"
  shows "(\<forall>bs. answer = Ok bs \<longrightarrow> length bs \<le> n) \<and> swap_obeys self'"
proof -
  let ?w = "width_of (sw_width self)"
  have inv: "obeys (sw_inner self)" "sw_pending_len self < ?w" using assms(1) by (simp_all add: swap_obeys_def)
  have drain: ?thesis if "drain_pending_output s n = (bs, self')" "answer = Ok bs" "swap_obeys s" for s bs
    using drain_obeys [OF that(1)] that(2,3) by (simp add: swap_obeys_def)
  consider (nothing) "n = 0" | (drain) "n \<noteq> 0" "sw_pending_output_length self > 0"
    | (small) "n \<noteq> 0" "sw_pending_output_length self = 0" "n < ?w"
    | (large) "n \<noteq> 0" "sw_pending_output_length self = 0" "?w \<le> n" by fastforce
  then show ?thesis
  proof cases
    case nothing
    then show ?thesis using assms by (auto simp: ByteSwapReader_read_def)
  next
    case drain
    then show ?thesis
      using assms \<open>\<And>s bs. drain_pending_output s n = (bs, self') \<Longrightarrow> answer = Ok bs \<Longrightarrow> swap_obeys s \<Longrightarrow> _\<close>
      by (auto simp: ByteSwapReader_read_def split: prod.splits)
  next
    case small
    obtain ok s1 where fill: "fill_group dyn_read self = (ok, s1)" by (cases "fill_group dyn_read self")
    note s1 = fill_group_obeys [OF fill inv(1) less_imp_le [OF inv(2)]]
    have run: "read_small dyn_read self n = (answer, self')" using assms(2) small by (simp add: ByteSwapReader_read_def)
    show ?thesis
    proof (cases "ok = Ok () \<and> sw_pending_len s1 \<noteq> 0")
      case True
      define s2 where "s2 = (if sw_pending_len s1 = width_of (sw_width s1)
        then s1\<lparr>sw_pending := put 0 (swap_groups (width_of (sw_width s1)) (take (width_of (sw_width s1)) (sw_pending s1))) (sw_pending s1)\<rparr> else s1)"
      let ?s3 = "s2\<lparr>sw_pending_output_length := sw_pending_len s2, sw_pending_len := 0\<rparr>"
      obtain bs s4 where out: "drain_pending_output ?s3 n = (bs, s4)" by (cases "drain_pending_output ?s3 n")
      have "answer = Ok bs \<and> self' = s4"
        using run fill out True small unfolding read_small_def s2_def [symmetric]
        by (auto simp: Let_def simp flip: s2_def)
      moreover have "swap_obeys ?s3" using s1 width_bounds by (simp add: swap_obeys_def s2_def)
      ultimately show ?thesis using drain_obeys [OF out] by (auto simp: swap_obeys_def)
    next
      case False
      then show ?thesis
        using run fill s1 small width_bounds(1) [of "sw_width self"]
        by (auto simp: read_small_def Let_def swap_obeys_def split: result.splits prod.splits if_splits)
    qed
  next
    case large
    let ?s = "self\<lparr>sw_pending_len := 0\<rparr>" and ?filled = "take (sw_pending_len self) (sw_pending self)"
    have "read_groups dyn_read ?s n ?filled = (answer, self')" using assms(2) large by (simp add: ByteSwapReader_read_def)
    from read_groups_obeys [OF this] show ?thesis using inv large by (simp add: swap_obeys_def)
  qed
qed

text \<open>What the documentation of the crates promises of their readers: they keep the contract of \<open>Read\<close>.\<close>

definition codecs_obey :: "('b, 'd) codecs \<Rightarrow> bool" where
  "codecs_obey C \<longleftrightarrow> (\<forall>d. obeys d \<longrightarrow>
     (\<forall>sz props dictionary d'. lzma_reader C d sz props dictionary = Some d' \<longrightarrow> obeys d') \<and>
     (\<forall>dictionary. obeys (lzma2_reader C d dictionary)) \<and>
     (\<forall>pos. obeys (bcj_x86 C d pos) \<and> obeys (bcj_arm C d pos) \<and> obeys (bcj_arm_thumb C d pos) \<and> obeys (bcj_ia64 C d pos) \<and>
       obeys (bcj_ppc C d pos) \<and> obeys (bcj_sparc C d pos) \<and> obeys (bcj_arm64 C d pos) \<and> obeys (bcj_riscv C d pos)) \<and>
     obeys (deflate_reader C d) \<and> obeys (bzip2_reader C d) \<and> obeys (deflate64_reader C d) \<and>
     (\<forall>order memory d'. ppmd_reader C d order memory = Some d' \<longrightarrow> obeys d') \<and>
     (\<forall>distance. obeys (delta_reader C d distance)))"

text \<open>
  A reader that delivers \<open>sz\<close> bytes and no more: it may fail at any time, but it does not
  end earlier.
\<close>

definition exact :: "nat \<Rightarrow> dyn \<Rightarrow> bool" where
  "exact sz d \<longleftrightarrow> (\<forall>bs d'. delivers dyn_read d bs d' \<longrightarrow>
     length bs \<le> sz \<and> (\<forall>n d''. dyn_read d' n = (Ok [], d'') \<longrightarrow> n = 0 \<or> length bs = sz))"

lemma boxed_delivers:
  assumes "delivers dyn_read (boxed rd r) bs d"
  shows "\<exists>r'. d = boxed rd r' \<and> delivers rd r bs r'"
  using assms
proof (induction "boxed rd r" bs d rule: delivers.induct)
  case (delivers_ok bs d n cs d')
  then obtain r1 where r1: "d = boxed rd r1" "delivers rd r bs r1" by blast
  obtain answer r2 where "rd r1 n = (answer, r2)" by (cases "rd r1 n")
  then show ?case using delivers_ok.hyps(3) r1 delivers.delivers_ok [OF r1(2)] by (auto simp: dyn_read_boxed)
next
  case (delivers_err bs d n e d')
  then obtain r1 where r1: "d = boxed rd r1" "delivers rd r bs r1" by blast
  obtain answer r2 where "rd r1 n = (answer, r2)" by (cases "rd r1 n")
  then show ?case using delivers_err.hyps(3) r1 delivers.delivers_err [OF r1(2)] by (auto simp: dyn_read_boxed)
qed (auto intro: delivers_nil)

lemma exact_step_delivers:
  assumes "ExactSizeReader_read rd s n = (answer, s')" and "I (es_inner s)"
    and step: "contract I rd"
  shows "I (es_inner s') \<and> (\<forall>bs. answer = Ok bs \<longrightarrow> unat (es_remaining s) = length bs + unat (es_remaining s') \<and>
      (bs = [] \<longrightarrow> n = 0 \<or> es_remaining s = 0)) \<and>
    (\<forall>e. answer = Err e \<longrightarrow> es_remaining s' = es_remaining s)"
proof -
  consider (nothing) "n = 0" | (over) "n \<noteq> 0" "es_remaining s = 0" | (left) "n \<noteq> 0" "es_remaining s \<noteq> 0" by blast
  then show ?thesis
  proof cases
    case over
    obtain a r where rd: "rd (es_inner s) 1 = (a, r)" by (cases "rd (es_inner s) 1")
    then show ?thesis
      using over assms(1,2) contractD [OF step assms(2) rd]
      by (cases a) (auto simp: ExactSizeReader_read_def split: OutputEnd.splits if_splits)
  next
    case left
    let ?n = "min (unat (es_remaining s)) n"
    obtain a r where rd: "rd (es_inner s) ?n = (a, r)" by (cases "rd (es_inner s) ?n")
    then show ?thesis
      using left assms(1) contractD [OF step assms(2) rd]
      by (cases a) (auto simp: ExactSizeReader_read_def unat_sub_length split: if_splits)
  qed (use assms in \<open>auto simp: ExactSizeReader_read_def\<close>)
qed

lemma exact_size_delivers:
  assumes "delivers (ExactSizeReader_read rd) s bs s'" and "I (es_inner s)"
    and step: "contract I rd"
  shows "I (es_inner s') \<and> unat (es_remaining s) = length bs + unat (es_remaining s')"
  using assms(1,2)
proof (induction rule: delivers.induct)
  case (delivers_ok r bs r1 n cs r2)
  then show ?case using exact_step_delivers [OF delivers_ok(2) _ step] by auto
next
  case (delivers_err r bs r1 n e r2)
  then show ?case using exact_step_delivers [OF delivers_err(2) _ step] by auto
qed simp

lemma exact_size_exact:
  assumes "I (es_inner s)"
    and step: "contract I rd"
  shows "exact (unat (es_remaining s)) (boxed (ExactSizeReader_read rd) s)"
  unfolding exact_def
proof (intro allI impI)
  fix bs d'
  assume "delivers dyn_read (boxed (ExactSizeReader_read rd) s) bs d'"
  from boxed_delivers [OF this]
  obtain s' where s': "d' = boxed (ExactSizeReader_read rd) s'" "delivers (ExactSizeReader_read rd) s bs s'" by blast
  note inv = exact_size_delivers [OF s'(2) assms(1) step]
  have "n = 0 \<or> length bs = unat (es_remaining s)" if "dyn_read d' n = (Ok [], d'')" for n d''
  proof -
    obtain a s2 where read: "ExactSizeReader_read rd s' n = (a, s2)" by (cases "ExactSizeReader_read rd s' n")
    then have "a = Ok []" using that s'(1) by (simp add: dyn_read_boxed)
    then show ?thesis using exact_step_delivers [OF read _ step] inv by auto
  qed
  then show "length bs \<le> unat (es_remaining s) \<and> (\<forall>n d''. dyn_read d' n = (Ok [], d'') \<longrightarrow> n = 0 \<or> length bs = unat (es_remaining s))"
    using inv by auto
qed

lemma swap_contract: "contract swap_obeys (ByteSwapReader_read dyn_read)"
  unfolding contract_def using swap_read_obeys by blast

lemma decrypt_contract: "contract (\<lambda>_. True) (settled (DecryptReader_read dec rd))"
  unfolding contract_def using decrypt_read_fits by blast

lemma checked_exact:
  assumes "I r" and "contract I rd"
  shows "exact (unat sz) (checked_reader rd r (Known sz))"
  using exact_size_exact [of I "ExactSizeReader_terminated r sz", OF _ assms(2)] assms(1)
  by (simp add: checked_reader_def ExactSizeReader_terminated_def)

lemma sized_exact:
  assumes "obeys d"
  shows "exact (unat sz) (boxed (ExactSizeReader_read dyn_read) (ExactSizeReader_sized d sz))"
  using exact_size_exact [of obeys "ExactSizeReader_sized d sz", OF _ dyn_contract] assms
  by (simp add: ExactSizeReader_sized_def)


subsection \<open>Opened readers\<close>

text \<open>A PPMd coder carries the size it was compiled with.\<close>

definition size_kept :: "CoderPlan \<Rightarrow> u64 \<Rightarrow> bool" where
  "size_kept plan sz \<longleftrightarrow> (\<forall>order memory n. plan = C_Ppmd order memory n \<longrightarrow> n = sz)"

lemma checked_opened:
  assumes "I r" and "contract I rd" and "d = checked_reader rd r outsz"
  shows "obeys d \<and> (\<forall>sz. outsz = Known sz \<longrightarrow> exact (unat sz) d)"
  using checked_obeys [OF assms(1,2)] checked_exact [OF assms(1,2)] assms(3) by auto

lemma CoderPlan_open_Ok:
  assumes C: "codecs_obey C" and d: "obeys d"
    and run: "CoderPlan_open C plan d insz outsz password budget = (Ok d', budget')"
  shows "obeys d' \<and> (\<forall>sz. outsz = Known sz \<longrightarrow> size_kept plan sz \<longrightarrow> exact (unat sz) d')"
proof -
  have dyn: ?thesis if "obeys e" "d' = checked_reader dyn_read e outsz" for e
    using checked_opened [OF that(1) dyn_contract that(2)] by simp
  note obey = C [unfolded codecs_obey_def, rule_format, OF d]
  show ?thesis
  proof (cases plan)
    case C_Copy
    show ?thesis
    proof (cases outsz)
      case (Known sz)
      then have "d' = checked_reader dyn_read d outsz"
        using run C_Copy by (simp add: CoderPlan_open_def checked_reader_def)
      then show ?thesis by (rule dyn [OF d])
    qed (use run C_Copy d in \<open>simp add: CoderPlan_open_def\<close>)
  next
    case (C_Lzma p)
    then obtain e where "lzma_reader C d (case outsz of Known sz \<Rightarrow> sz | Unknown \<Rightarrow> - 1) (lp_props p) (lp_dictionary p) = Some e"
      "d' = checked_reader dyn_read e outsz"
      using run by (auto simp: CoderPlan_open_def Let_def split: option.splits)
    then show ?thesis using obey dyn [of e] by blast
  next
    case (C_Ppmd order memory n)
    then obtain e where e: "ppmd_reader C d order memory = Some e"
      "d' = boxed (ExactSizeReader_read dyn_read) (ExactSizeReader_sized e n)"
      using run by (auto simp: CoderPlan_open_def split: option.splits)
    then have "obeys e" using obey by blast
    then show ?thesis using e(2) C_Ppmd sized_obeys sized_exact by (auto simp: size_kept_def)
  next
    case (C_Swap w)
    then have "d' = checked_reader (ByteSwapReader_read dyn_read) (ByteSwapReader_new d w) outsz"
      using run by (simp add: CoderPlan_open_def)
    moreover have "swap_obeys (ByteSwapReader_new d w)"
      using d by (simp add: swap_obeys_def ByteSwapReader_new_def width_bounds)
    ultimately show ?thesis using checked_opened [OF _ swap_contract] by blast
  next
    case (C_Aes props)
    then obtain r where "d' = checked_reader (settled (DecryptReader_read (cbc_decrypt C) dyn_read)) r outsz"
      using run by (auto simp: CoderPlan_open_def split: prod.splits result.splits)
    then show ?thesis using checked_opened [OF _ decrypt_contract] by blast
  qed (use run obey dyn in \<open>auto simp: CoderPlan_open_def Let_def\<close>)
qed

lemma open_steps_Ok:
  assumes C: "codecs_obey C" and "obeys d" and "open_steps C steps d password budget = (Ok d', budget')"
  shows "obeys d' \<and> (\<forall>sz. steps \<noteq> [] \<longrightarrow> ds_output (last steps) = Known sz \<longrightarrow> size_kept (ds_coder (last steps)) sz \<longrightarrow>
    exact (unat sz) d')"
  using assms(2,3)
proof (induction steps arbitrary: d budget)
  case (Cons step steps)
  then obtain d1 budget1 where s: "CoderPlan_open C (ds_coder step) d (ds_input step) (ds_output step) password budget = (Ok d1, budget1)"
    and rest: "open_steps C steps d1 password budget1 = (Ok d', budget')"
    by (auto simp: DecodeStep_open_def split: prod.splits result.splits)
  note d1 = CoderPlan_open_Ok [OF C Cons.prems(1) s]
  show ?case
  proof (cases "steps = []")
    case True
    then show ?thesis using rest d1 by simp
  next
    case False
    then show ?thesis using Cons.IH [OF _ rest] d1 by simp
  qed
qed simp

lemma take_contract:
  assumes "read_contract rd"
  shows "contract (\<lambda>_. True) (Take_read rd)"
  using read_contract.fits [OF assms]
  by (fastforce simp: contract_def Take_read_def split: if_splits prod.splits result.splits)

lemma start_bcj2_Ok:
  assumes "start_bcj2 C rd channels output_size password budget = (Ok reader, budget')"
  shows "\<exists>c. reader = Buffered c \<and> length (cursor_rest c) = output_size"
  using assms
  by (auto simp: start_bcj2_def cursor_rest_def Cursor_new_def split: result.splits prod.splits option.splits if_splits)

lemma single_eq_Ok: "(case xs of [x] \<Rightarrow> Ok (f x) | _ \<Rightarrow> Err e) = Ok y \<longleftrightarrow> (\<exists>x. xs = [x] \<and> y = f x)"
  by (auto split: list.splits)

lemma compiled_size_kept:
  assumes "CoderPlan_compile lzma_mem coder sz = Ok plan" and "sz = Known n"
  shows "size_kept plan n"
proof -
  have "m = n" if "plan = C_Ppmd order memory m" for order memory m
  proof (cases "method_info (codec_id coder)")
    case (Some info)
    then show ?thesis
      using assms that
      by (cases "mi_method info") (auto simp: CoderPlan_compile_def Let_def require_def single_eq_Ok split: if_splits)
  qed (use assms in \<open>simp add: CoderPlan_compile_def Let_def\<close>)
  then show ?thesis by (simp add: size_kept_def)
qed


section \<open>Property\<close>

text \<open>
  C6. What a decoder delivers has the declared size. Whatever the codecs, the packed data and
  the reads, as long as no reader returns more than it was asked for: the reader that a bound plan
  starts never delivers more than the folder's declared size, and ends only when it delivered all of it;
  a folder that is decoded at once has exactly that size.
\<close>

theorem started_output_exact:
  assumes "graph f = Ok g"
    and "compile_with_budget lzma_mem lzma2_mem f g unpack_size declared packed budget = Some (Ok (plan, budget1))"
    and "DecoderPlan_bind plan given = Ok decoder"
    and "codecs_obey C" and "read_contract rd"
    and "ReadyDecoder_start C rd decoder password budget2 = (Ok reader, budget3)"
  shows "case reader of
      Streamed d \<Rightarrow> exact (unat unpack_size) d
    | Buffered c \<Rightarrow> length (cursor_rest c) = unat unpack_size"
proof (cases "dp_topology plan")
  case (Chain steps)
  then obtain input where bound: "rdy_topology decoder = BChain steps input"
    using assms(3) by (auto simp: DecoderPlan_bind_def)
  then obtain d where run: "open_steps C steps (boxed (Take_read rd) input) password budget2 = (Ok d, budget3)" "reader = Streamed d"
    using assms(6) by (auto simp: ReadyDecoder_start_def split: prod.splits result.splits)
  from plan_sizes [OF assms(1,2)] Chain have steps: "steps \<noteq> []" "ds_output (last steps) = Known unpack_size"
    and all: "list_all2 (\<lambda>index step. CoderPlan_compile lzma_mem (coders f ! index) (ds_output step) = Ok (ds_coder step) \<and>
      ds_output step = Known (declared ! index)) (g_execution_order g) steps" by simp_all
  have "last steps \<in> set steps" using steps(1) by simp
  with all have "\<exists>index. CoderPlan_compile lzma_mem (coders f ! index) (ds_output (last steps)) = Ok (ds_coder (last steps))"
    by (auto dest: list_all2_right)
  then have "size_kept (ds_coder (last steps)) unpack_size" using steps(2) compiled_size_kept by metis
  moreover have "obeys (boxed (Take_read rd) input)" by (rule boxed_obeys [OF _ take_contract [OF assms(5)]]) simp
  ultimately show ?thesis using open_steps_Ok [OF assms(4) _ run(1)] steps run(2) by simp
next
  case (Bcj2 a b c d slots output_size)
  then have size: "output_size = unat unpack_size" using plan_sizes [OF assms(1,2)] by simp
  from Bcj2 obtain ins where "rdy_topology decoder = BBcj2 (ins ! 0) (ins ! 1) (ins ! 2) (ins ! 3) output_size"
    using assms(3) by (auto simp: DecoderPlan_bind_def intro: that [of "[_, _, _, _]"])
  then have "start_bcj2 C rd [ins ! 0, ins ! 1, ins ! 2, ins ! 3] output_size password budget2 = (Ok reader, budget3)"
    using assms(6) by (simp add: ReadyDecoder_start_def)
  from start_bcj2_Ok [OF this] size show ?thesis by auto
qed

text \<open>Codecs that pass everything on, and the delta filter over a packed stream of five bytes.\<close>

definition plain_codecs :: "(unit, unit) codecs" where
  "plain_codecs = \<lparr>lzma_reader = (\<lambda>d _ _ _. Some d), lzma2_reader = (\<lambda>d _. d), bcj_x86 = (\<lambda>d _. d), bcj_arm = (\<lambda>d _. d),
     bcj_arm_thumb = (\<lambda>d _. d), bcj_ia64 = (\<lambda>d _. d), bcj_ppc = (\<lambda>d _. d), bcj_sparc = (\<lambda>d _. d), bcj_arm64 = (\<lambda>d _. d),
     bcj_riscv = (\<lambda>d _. d), deflate_reader = (\<lambda>d. d), bzip2_reader = (\<lambda>d. d), deflate64_reader = (\<lambda>d. d),
     ppmd_reader = (\<lambda>d _ _. Some d), delta_reader = (\<lambda>d _. d), bcj2_try_new = (\<lambda>_ _. None), bcj2_read = (\<lambda>u _. (Ok [], u)),
     bcj2_finish = (\<lambda>_. None), cbc_decryptor = (\<lambda>_ _. ()), cbc_decrypt = (\<lambda>u b. (b, u)), sha256 = (\<lambda>_. replicate 32 0)\<rparr>"

lemma plain_codecs_obey: "codecs_obey plain_codecs"
  by (simp add: codecs_obey_def plain_codecs_def)

definition delta_reader_started :: dyn where
  "delta_reader_started = boxed (ExactSizeReader_read dyn_read) (ExactSizeReader_terminated
     (boxed (Take_read Cursor_read) \<lparr>tk_inner = Cursor_new [1, 2, 3, 4, 5, 6], tk_limit = 5\<rparr>) 5)"

theorem started_output_exact_witness:
  "(\<exists>decoder. DecoderPlan_bind delta_plan [\<lparr>pi_reader = Cursor_new [1, 2, 3, 4, 5, 6], pi_size = 5\<rparr>] = Ok decoder \<and>
     ReadyDecoder_start plain_codecs Cursor_read decoder None delta_budget = (Ok (Streamed delta_reader_started), delta_budget)) \<and>
   exact 5 delta_reader_started"
proof -
  let ?decoder = "\<lparr>rdy_topology = BChain [\<lparr>ds_coder = C_Delta 4, ds_input = Known 5, ds_output = Known 5\<rparr>]
      \<lparr>tk_inner = Cursor_new [1, 2, 3, 4, 5, 6], tk_limit = 5\<rparr>, rdy_memory = 256\<rparr>"
  have bind: "DecoderPlan_bind delta_plan [\<lparr>pi_reader = Cursor_new [1, 2, 3, 4, 5, 6], pi_size = 5\<rparr>] = Ok ?decoder"
    by (simp add: DecoderPlan_bind_def delta_plan_def PackedLayout_bind_def BoundInputs_take_def get_def)
  have start: "ReadyDecoder_start plain_codecs Cursor_read ?decoder None delta_budget = (Ok (Streamed delta_reader_started), delta_budget)"
    by (simp add: ReadyDecoder_start_def DecodeStep_open_def CoderPlan_open_def checked_reader_def delta_reader_started_def
        plain_codecs_def)
  from started_output_exact [OF delta_graph_eq delta_plan_eq [of "\<lambda>_ _. None" "\<lambda>_. 0"] bind plain_codecs_obey
      cursor.read_contract_axioms start]
  show ?thesis using bind start by auto
qed

end
