(* ===== verification/Entry_Cursor.thy ===== *)
theory Entry_Cursor
  imports Entries
begin

text \<open>
  The iterators of \<^verbatim>\<open>src/src/entries.rs\<close> as cursors over lists: an interface of iterators whose
  remaining items are known, with what consumers of them see, and the entry iterator and the
  selection as instances.
\<close>

text \<open>\<open>by_ref().take(n)\<close>: what a consumer that runs it to its end has seen.\<close>

fun by_ref_take :: "('s \<Rightarrow> 'a option \<times> 's) \<Rightarrow> nat \<Rightarrow> 's \<Rightarrow> 'a list \<times> 's" where
  "by_ref_take step 0 s = ([], s)"
| "by_ref_take step (Suc n) s =
     (case step s of
        (None, s) \<Rightarrow> ([], s)
      | (Some x, s) \<Rightarrow> (case by_ref_take step n s of (xs, s) \<Rightarrow> (x # xs, s)))"

section \<open>Cursors\<close>

text \<open>An iterator whose remaining items are known.\<close>

locale cursor =
  fixes step :: "'s \<Rightarrow> 'a option \<times> 's" and valid :: "'s \<Rightarrow> bool" and items :: "'s \<Rightarrow> 'a list"
  assumes step_end: "valid s \<Longrightarrow> items s = [] \<Longrightarrow> \<exists>s'. step s = (None, s') \<and> valid s' \<and> items s' = []"
    and step_item: "valid s \<Longrightarrow> items s = x # xs \<Longrightarrow> \<exists>s'. step s = (Some x, s') \<and> valid s' \<and> items s' = xs"
begin

lemma take_items:
  "valid s \<Longrightarrow> \<exists>s'. by_ref_take step n s = (take n (items s), s') \<and> valid s' \<and> items s' = drop n (items s)"
proof (induction n arbitrary: s)
  case (Suc n)
  show ?case
  proof (cases "items s")
    case Nil
    then show ?thesis using step_end [OF Suc.prems] by fastforce
  next
    case (Cons x xs)
    from step_item [OF Suc.prems Cons] obtain s' where "step s = (Some x, s')" "valid s'" "items s' = xs" by blast
    then show ?thesis using Suc.IH [of s'] Cons by fastforce
  qed
qed simp

end


section \<open>The cursor over the file table\<close>

definition entry_at :: "Entries \<Rightarrow> nat \<Rightarrow> unit Entry" where
  "entry_at self k =
     \<lparr>ent_metadata = \<lparr>em_index = en_start self + k,
        em_name = Option.bind (en_names self) (\<lambda>names. Option.bind (fst (name_slices_nth names k)) (\<lambda>x. x)),
        em_modified = Option.bind (en_files self) (\<lambda>files.
          Option.bind (get (mtimes files) (en_start self + k)) (\<lambda>x. x)),
        em_attributes = Option.bind (en_files self) (\<lambda>files.
          Option.bind (get (attributes files) (en_start self + k)) (\<lambda>x. x))\<rparr>,
      ent_kind = Entries_kind self (en_start self + k)\<rparr>"

definition entry_items :: "Entries \<Rightarrow> unit Entry list" where
  "entry_items self = map (entry_at self) [0..<Entries_len self]"

definition entries_valid :: "nat \<Rightarrow> Entries \<Rightarrow> bool" where
  "entries_valid m self \<longleftrightarrow> en_start self \<le> m \<and> en_end self = m \<and> m < usize_limit"

lemma name_slices_nth_next:
  "fst (name_slices_nth (snd (name_slices_next ns)) k) = fst (name_slices_nth ns (Suc k))"
proof (cases "ns_index ns \<ge> ns_count ns")
  case True
  then have "name_slices_next ns = (None, ns)" by (simp add: name_slices_next_def)
  then show ?thesis by (cases k) simp_all
next
  case False
  then obtain x ns' where "name_slices_next ns = (Some x, ns')"
    by (cases "name_slices_next ns") (auto simp: name_slices_next_def Let_def split: if_splits prod.splits)
  then show ?thesis by simp
qed

lemma Entries_next_item:
  assumes "entries_valid m self" and "en_start self < en_end self"
  shows "\<exists>self'. Entries_next self = (Some (entry_at self 0), self') \<and> en_start self' = Suc (en_start self) \<and>
    en_end self' = en_end self \<and> en_files self' = en_files self \<and>
    (\<forall>k. entry_at self' k = entry_at self (Suc k))"
proof -
  have r: "range_nth (en_start self) (en_end self) 0 = (Some (en_start self), Suc (en_start self))"
    using assms by (simp add: range_nth_def usize_checked_add_def entries_valid_def)
  show ?thesis
  proof (cases "en_names self")
    case None
    then show ?thesis
      by (cases "en_files self") (simp_all add: Entries_next_def Entries_nth_def r entry_at_def Entries_kind_def)
  next
    case (Some names)
    have "fst (name_slices_nth (snd (name_slices_next names)) k) = fst (name_slices_nth names (Suc k))" for k
      by (rule name_slices_nth_next)
    with Some show ?thesis
      by (cases "en_files self")
         (simp_all add: Entries_next_def Entries_nth_def r entry_at_def Entries_kind_def Let_def split_beta
           del: name_slices_nth.simps(2))
  qed
qed

lemma Entries_next_end:
  assumes "entries_valid m self" and "en_end self \<le> en_start self"
  shows "Entries_next self = (None, self\<lparr>en_start := en_end self\<rparr>)"
  using assms by (auto simp: Entries_next_def Entries_nth_def range_nth_def split: option.splits)

lemma entry_items_Nil [simp]: "entry_items self = [] \<longleftrightarrow> en_end self \<le> en_start self"
  by (auto simp: entry_items_def Entries_len_def)

lemma entry_items_Cons:
  assumes "en_start self < en_end self"
  shows "entry_items self = entry_at self 0 # map (\<lambda>k. entry_at self (Suc k)) [0..<Entries_len self - 1]"
proof -
  have "Entries_len self = Suc (Entries_len self - 1)" using assms by (simp add: Entries_len_def)
  then have "[0..<Entries_len self] = 0 # map Suc [0..<Entries_len self - 1]"
    by (metis map_Suc_upt upt_conv_Cons zero_less_Suc)
  then show ?thesis by (simp add: entry_items_def)
qed

interpretation ec: cursor Entries_next "entries_valid m" entry_items for m
proof
  fix m and s :: Entries
  assume valid: "entries_valid m s" "entry_items s = []"
  then have "Entries_next s = (None, s\<lparr>en_start := en_end s\<rparr>)"
    by (intro Entries_next_end [of m]) simp_all
  then show "\<exists>s'. Entries_next s = (None, s') \<and> entries_valid m s' \<and> entry_items s' = []"
    using valid by (simp add: entries_valid_def)
next
  fix m and s :: Entries and x xs
  assume valid: "entries_valid m s" and items: "entry_items s = x # xs"
  have less: "en_start s < en_end s" using items by (metis entry_items_Nil list.distinct(1) not_le)
  from Entries_next_item [OF valid less] obtain s' where s': "Entries_next s = (Some (entry_at s 0), s')"
    "en_start s' = Suc (en_start s)" "en_end s' = en_end s" "\<forall>k. entry_at s' k = entry_at s (Suc k)" by blast
  have "entry_items s' = map (\<lambda>k. entry_at s (Suc k)) [0..<Entries_len s - 1]"
    using s' by (simp add: entry_items_def Entries_len_def)
  then show "\<exists>s'. Entries_next s = (Some x, s') \<and> entries_valid m s' \<and> entry_items s' = xs"
    using items s' valid less unfolding entry_items_Cons [OF less] by (auto simp: entries_valid_def)
qed

text \<open>The other iterator of \<^verbatim>\<open>entries.rs\<close>, the selection, is a cursor as well.\<close>

interpretation sc: cursor EntrySelection_next "\<lambda>_. True" selection_run
proof
  fix s
  assume "selection_run s = []"
  moreover have "EntrySelection_next s = (None, s) \<or> (\<exists>i s'. EntrySelection_next s = (Some i, s'))"
    by (auto simp: EntrySelection_next_def split: option.splits EntrySelection.splits)
  ultimately show "\<exists>s'. EntrySelection_next s = (None, s') \<and> True \<and> selection_run s' = []"
    by (auto simp: selection_run.simps [of s])
next
  fix s x xs
  assume "selection_run s = x # xs"
  then show "\<exists>s'. EntrySelection_next s = (Some x, s') \<and> True \<and> selection_run s' = xs"
    by (cases "EntrySelection_next s") (auto simp: selection_run.simps [of s] split: option.splits)
qed

text \<open>A step that yields an entry leaves fewer of them.\<close>

lemma Entries_next_less:
  "Entries_next en = (Some x, en') \<Longrightarrow> Entries_len en' < Entries_len en"
  by (auto simp: Entries_next_def Entries_nth_def range_nth_def Entries_len_def usize_checked_add_def Let_def
      split: option.splits if_splits prod.splits)

end
