(* ===== verification/File_Streams.thy ===== *)
theory File_Streams
  imports Entry_Cursor Folder_Tiling
begin

text \<open>
  \<^verbatim>\<open>src/src/file_streams.rs\<close>: the walk that pairs the entries of the file table with the
  substreams of the folders. Two cursors advance side by side, one over the file table and one
  over the folders and their substreams, and only an entry that has data moves the second.
  An operation that can run into the assertion of a byte range returns an option whose \<open>None\<close>
  is that panic; none of them does, as the lemmas show.
\<close>

section \<open>Locations\<close>

text \<open>The two index types of the source wrap a \<open>usize\<close>.\<close>

definition SubstreamIndex_is_first :: "nat \<Rightarrow> bool" where
  "SubstreamIndex_is_first self = (self = 0)"

record StreamLocation =
  loc_folder_index :: nat
  loc_stream_index :: nat
  loc_folder :: FolderLayout
  loc_stream :: Substream

type_synonym FileStream = "StreamLocation Entry"

text \<open>\<open>Enumerate<Substreams>\<close> is its counter and the iterator below it.\<close>

record FolderStreams =
  fos_index :: nat
  fos_folder :: FolderLayout
  fos_count :: nat
  fos_streams :: Substreams

definition FolderStreams_new :: "nat \<Rightarrow> FolderLayout \<Rightarrow> FolderStreams" where
  "FolderStreams_new index folder =
     \<lparr>fos_index = index, fos_folder = folder, fos_count = 0, fos_streams = layout_streams (fl_layout folder)\<rparr>"

text \<open>\<open>Iterator::nth\<close> on the substreams, and on the enumeration of them.\<close>

fun substreams_nth :: "nat \<Rightarrow> Substreams \<Rightarrow> (Substream option \<times> Substreams) option" where
  "substreams_nth 0 self = substreams_next self"
| "substreams_nth (Suc n) self =
     (case substreams_next self of
        None \<Rightarrow> None
      | Some (None, self) \<Rightarrow> Some (None, self)
      | Some (Some _, self) \<Rightarrow> substreams_nth n self)"

definition FolderStreams_nth :: "FolderStreams \<Rightarrow> nat \<Rightarrow> ((nat \<times> Substream) option \<times> FolderStreams) option" where
  "FolderStreams_nth self n =
     (case substreams_nth n (fos_streams self) of
        None \<Rightarrow> None
      | Some (None, streams) \<Rightarrow> Some (None, self\<lparr>fos_streams := streams\<rparr>)
      | Some (Some stream, streams) \<Rightarrow>
          let index = fos_count self + n in
          Some (Some (index, stream), self\<lparr>fos_count := index + 1, fos_streams := streams\<rparr>))"

text \<open>\<open>Enumerate<FolderLayouts>\<close>, too, is a counter and the iterator below it.\<close>

record StreamLocations =
  sl_folders :: "(nat \<times> FolderPlans) option"
  sl_current :: "FolderStreams option"

text \<open>
  The search of \<open>StreamLocations::nth\<close> among the folders that have not been opened: folders whose
  substreams are all skipped are passed over.
\<close>

function find_folder :: "nom \<Rightarrow> nat \<Rightarrow> FolderPlans \<Rightarrow> nat \<Rightarrow> FolderStreams r7z_result option \<times> nat \<times> nat \<times> FolderPlans" where
  "find_folder N index plans n =
     (case FolderPlans_next N plans of
        (None, plans) \<Rightarrow> (None, n, index, plans)
      | (Some (Err e), plans) \<Rightarrow> (Some (Err e), n, index + 1, plans)
      | (Some (Ok folder), plans) \<Rightarrow>
          let folder = FolderStreams_new index folder in
          if substreams_len (fos_streams folder) \<le> n
          then find_folder N (index + 1) plans (n - substreams_len (fos_streams folder))
          else (Some (Ok folder), n, index + 1, plans))"
  by pat_completeness auto
termination
  by (relation "measure (\<lambda>(N, index, plans, n). plans_left plans)") (auto dest: FolderPlans_next_progress [OF sym])

declare find_folder.simps [simp del]

definition find_remaining :: "nom \<Rightarrow> (nat \<times> FolderPlans) option \<Rightarrow> nat \<Rightarrow>
    FolderStreams r7z_result option \<times> nat \<times> (nat \<times> FolderPlans) option" where
  "find_remaining N folders n =
     (case folders of
        None \<Rightarrow> (None, n, None)
      | Some (index, plans) \<Rightarrow>
          (case find_folder N index plans n of (found, n, index, plans) \<Rightarrow> (found, n, Some (index, plans))))"

definition find_current :: "nom \<Rightarrow> StreamLocations \<Rightarrow> nat \<Rightarrow>
    FolderStreams r7z_result option \<times> nat \<times> (nat \<times> FolderPlans) option" where
  "find_current N self n =
     (case sl_current self of
        None \<Rightarrow> find_remaining N (sl_folders self) n
      | Some folder \<Rightarrow>
          if substreams_len (fos_streams folder) \<le> n
          then find_remaining N (sl_folders self) (n - substreams_len (fos_streams folder))
          else (Some (Ok folder), n, sl_folders self))"

definition StreamLocations_nth :: "nom \<Rightarrow> StreamLocations \<Rightarrow> nat \<Rightarrow>
    (StreamLocation r7z_result \<times> StreamLocations) option" where
  "StreamLocations_nth N self n =
     (case find_current N self n of
        (None, n, folders) \<Rightarrow> Some (Err Parse, \<lparr>sl_folders = folders, sl_current = None\<rparr>)
      | (Some (Err e), n, folders) \<Rightarrow> Some (Err e, \<lparr>sl_folders = folders, sl_current = None\<rparr>)
      | (Some (Ok current), n, folders) \<Rightarrow>
          (case FolderStreams_nth current n of
             None \<Rightarrow> None
           | Some (None, current) \<Rightarrow> Some (Err Parse, \<lparr>sl_folders = folders, sl_current = Some current\<rparr>)
           | Some (Some (index, stream), current) \<Rightarrow>
               Some (Ok \<lparr>loc_folder_index = fos_index current, loc_stream_index = index,
                       loc_folder = fos_folder current, loc_stream = stream\<rparr>,
                     \<lparr>sl_folders = folders, sl_current = Some current\<rparr>)))"

definition StreamLocations_advance_by :: "nom \<Rightarrow> StreamLocations \<Rightarrow> nat \<Rightarrow>
    (unit r7z_result \<times> StreamLocations) option" where
  "StreamLocations_advance_by N self count =
     (if count = 0 then Some (Ok (), self)
      else
        map_option (\<lambda>(located, self). (and_then located (\<lambda>_. Ok ()), self))
          (StreamLocations_nth N self (count - 1)))"

text \<open>The loop of \<open>finish\<close>: every folder that is left must be readable and own no substream.\<close>

function finish_folders :: "nom \<Rightarrow> nat \<Rightarrow> FolderPlans \<Rightarrow> (unit r7z_result \<times> nat \<times> FolderPlans) option" where
  "finish_folders N index plans =
     (case FolderPlans_next N plans of
        (None, plans) \<Rightarrow> Some (Ok (), index, plans)
      | (Some (Err e), plans) \<Rightarrow> Some (Err e, index + 1, plans)
      | (Some (Ok folder), plans) \<Rightarrow>
          (case substreams_next (layout_streams (fl_layout folder)) of
             None \<Rightarrow> None
           | Some (None, _) \<Rightarrow> finish_folders N (index + 1) plans
           | Some (Some _, _) \<Rightarrow> Some (Err Parse, index + 1, plans)))"
  by pat_completeness auto
termination
  by (relation "measure (\<lambda>(N, index, plans). plans_left plans)") (auto dest: FolderPlans_next_progress [OF sym])

declare finish_folders.simps [simp del]

definition StreamLocations_finish :: "nom \<Rightarrow> StreamLocations \<Rightarrow> (unit r7z_result \<times> StreamLocations) option" where
  "StreamLocations_finish N self =
     (if (case sl_current self of None \<Rightarrow> False | Some folder \<Rightarrow> substreams_len (fos_streams folder) \<noteq> 0)
      then Some (Err Parse, self\<lparr>sl_current := None\<rparr>)
      else
        (case sl_folders self of
           None \<Rightarrow> Some (Ok (), self\<lparr>sl_current := None\<rparr>)
         | Some (index, plans) \<Rightarrow>
             map_option (\<lambda>(done, folders). (done, \<lparr>sl_folders = Some folders, sl_current = None\<rparr>))
               (finish_folders N index plans)))"


section \<open>Files and their streams\<close>

record FileStreams =
  fs_entries :: Entries
  fs_streams :: StreamLocations
  fs_pack_pos :: u64

definition layouts_pack_pos :: "FolderLayouts \<Rightarrow> u64" where
  "layouts_pack_pos self = pack_pos (fp_pack_info (fls_plans self))"

text \<open>\<open>streams.filter(..).map(for_streams).transpose()?\<close>.\<close>

definition file_folders :: "StreamInfo option \<Rightarrow> FolderLayouts option r7z_result" where
  "file_folders streams =
     (case streams of
        None \<Rightarrow> Ok None
      | Some streams \<Rightarrow>
          if unpack_info streams = None then Ok None
          else and_then (for_streams streams) (\<lambda>folders. Ok (Some folders)))"

definition FileStreams_new :: "FilesInfo option \<Rightarrow> nat \<Rightarrow> StreamInfo option \<Rightarrow> FileStreams r7z_result" where
  "FileStreams_new files file_count streams =
     (let entries = Entries_new files file_count; count = Entries_stream_count entries in
      and_then (file_folders streams) (\<lambda>folders.
        if (case folders of None \<Rightarrow> 0 | Some f \<Rightarrow> fls_stream_count f) \<noteq> count then Err Parse
        else
          let position = (case folders of None \<Rightarrow> 0 | Some f \<Rightarrow> layouts_pack_pos f) in
          Ok \<lparr>fs_entries = entries,
              fs_streams = \<lparr>sl_folders = map_option (\<lambda>f. (0, fls_plans f)) folders, sl_current = None\<rparr>,
              fs_pack_pos = position\<rparr>))"

definition FileStreams_len :: "FileStreams \<Rightarrow> nat" where
  "FileStreams_len self = Entries_len (fs_entries self)"

text \<open>
  The closure that binds an entry is called exactly if the entry has a stream, and then once.
\<close>

definition FileStreams_next :: "nom \<Rightarrow> FileStreams \<Rightarrow> (FileStream option r7z_result \<times> FileStreams) option" where
  "FileStreams_next N self =
     (case Entries_next (fs_entries self) of
        (Some entry, entries) \<Rightarrow>
          let self = self\<lparr>fs_entries := entries\<rparr> in
          if has_stream (ent_kind entry) then
            map_option (\<lambda>(located, streams).
                (and_then (Entry_bind entry (\<lambda>_. located)) (\<lambda>file. Ok (Some file)), self\<lparr>fs_streams := streams\<rparr>))
              (StreamLocations_nth N (fs_streams self) 0)
          else Some (and_then (Entry_bind entry (\<lambda>_. Err Parse)) (\<lambda>file. Ok (Some file)), self)
      | (None, entries) \<Rightarrow>
          map_option (\<lambda>(done, streams).
              (and_then done (\<lambda>_. Ok None), self\<lparr>fs_entries := entries, fs_streams := streams\<rparr>))
            (StreamLocations_finish N (fs_streams self)))"

definition FileStreams_nth :: "nom \<Rightarrow> FileStreams \<Rightarrow> nat \<Rightarrow> (FileStream option r7z_result \<times> FileStreams) option" where
  "FileStreams_nth N self n =
     (case by_ref_take Entries_next n (fs_entries self) of
        (skipped, entries) \<Rightarrow>
          let skipped_streams = length (filter (\<lambda>entry. has_stream (ent_kind entry)) skipped) in
          (case StreamLocations_advance_by N (fs_streams self) skipped_streams of
             None \<Rightarrow> None
           | Some (Err e, streams) \<Rightarrow> Some (Err e, self\<lparr>fs_entries := entries, fs_streams := streams\<rparr>)
           | Some (Ok _, streams) \<Rightarrow> FileStreams_next N (self\<lparr>fs_entries := entries, fs_streams := streams\<rparr>)))"

text \<open>
  The two mapping iterators: their \<open>next\<close>. The callback is an \<open>FnMut\<close>, so its state is passed along.
\<close>

type_synonym ('c, 't) callback = "'c \<Rightarrow> FileStream \<Rightarrow> 't r7z_result \<times> 'c"

definition map_selected_next :: "nom \<Rightarrow> ('c, 't) callback \<Rightarrow> FileStreams \<times> EntrySelection \<times> 'c \<Rightarrow>
    ('t r7z_result option \<times> FileStreams \<times> EntrySelection \<times> 'c) option" where
  "map_selected_next N f state =
     (case state of (self, selection, c) \<Rightarrow>
        (case EntrySelection_next selection of
           (None, selection) \<Rightarrow> Some (None, self, selection, c)
         | (Some index, selection) \<Rightarrow>
             (case checked_sub index (next_index (fs_entries self)) of
                None \<Rightarrow> Some (Some (Err Parse), self, selection, c)
              | Some skip \<Rightarrow>
                  (case FileStreams_nth N self skip of
                     None \<Rightarrow> None
                   | Some (Err e, self) \<Rightarrow> Some (Some (Err e), self, selection, c)
                   | Some (Ok None, self) \<Rightarrow> Some (Some (Err Parse), self, selection, c)
                   | Some (Ok (Some file), self) \<Rightarrow>
                       (case f c file of (mapped, c) \<Rightarrow> Some (Some mapped, self, selection, c))))))"

definition map_all_next :: "nom \<Rightarrow> ('c, 't) callback \<Rightarrow> bool \<times> FileStreams \<times> 'c \<Rightarrow>
    ('t r7z_result option \<times> bool \<times> FileStreams \<times> 'c) option" where
  "map_all_next N f state =
     (case state of (finished, self, c) \<Rightarrow>
        if finished then Some (None, finished, self, c)
        else
          (case FileStreams_next N self of
             None \<Rightarrow> None
           | Some (Ok (Some file), self) \<Rightarrow> (case f c file of (mapped, c) \<Rightarrow> Some (Some mapped, False, self, c))
           | Some (Ok None, self) \<Rightarrow> Some (None, True, self, c)
           | Some (Err error, self) \<Rightarrow> Some (Some (Err error), True, self, c)))"

end
