(* ===== verification/File_Binding.thy ===== *)
theory File_Binding
  imports File_Streams
begin

text \<open>
  What the walk of \<^verbatim>\<open>file_streams.rs\<close> promises. The cursor over the folders refines a plain
  list of locations; the cursor over the file table refines a plain list of entries; the
  iterators over both refine one pass over the two lists, and a selection gets for each index
  exactly what the full walk would have given it.
\<close>

section \<open>The substreams of one folder\<close>

definition at_position :: "FolderStreamLayout \<Rightarrow> nat \<Rightarrow> Substreams" where
  "at_position l p = \<lparr>ss_layout = l, ss_position = p, ss_offset = sum_list (take p (layout_sizes l))\<rparr>"

definition substream_at :: "FolderStreamLayout \<Rightarrow> nat \<Rightarrow> Substream" where
  "substream_at l p =
     \<lparr>ss_range = \<lparr>br_start = sum_list (take p (layout_sizes l)), br_end = sum_list (take (Suc p) (layout_sizes l))\<rparr>,
      ss_digest = digest_at (fsl_digests l) p\<rparr>"

definition fitting :: "FolderStreamLayout \<Rightarrow> bool" where
  "fitting l \<longleftrightarrow> sizes_total (layout_sizes l) < usize_limit"

lemma layout_streams_start: "layout_streams l = at_position l 0"
  by (simp add: layout_streams_def at_position_def)

lemma unat_sum_sizes: "sizes_total xs < usize_limit \<Longrightarrow> unat (sum_list xs) = sizes_total xs"
  by (induction xs) (simp_all add: unat_add_fits)

lemma sizes_total_take: "sizes_total (take p xs) \<le> sizes_total xs"
  by (metis append_take_drop_id le_add1 sizes_total_simps(3))

lemma unat_offset:
  assumes "fitting l"
  shows "unat (sum_list (take p (layout_sizes l))) = sizes_total (take p (layout_sizes l))"
  using assms sizes_total_take [of p "layout_sizes l"] by (intro unat_sum_sizes) (simp add: fitting_def)

lemma substreams_next_at:
  assumes "fitting l" and p: "p < layout_len l"
  shows "substreams_next (at_position l p) = Some (Some (substream_at l p), at_position l (Suc p))"
proof -
  have step: "take (Suc p) (layout_sizes l) = take p (layout_sizes l) @ [layout_sizes l ! p]"
    using p by (simp add: layout_len_sizes take_Suc_conv_app_nth)
  have "sizes_total (take p (layout_sizes l)) \<le> sizes_total (take (Suc p) (layout_sizes l))"
    by (simp add: step)
  then have "unat (sum_list (take p (layout_sizes l))) \<le> unat (sum_list (take (Suc p) (layout_sizes l)))"
    by (simp only: unat_offset [OF assms(1)])
  then show ?thesis
    using layout_size_at [OF p] p
    by (auto simp: substreams_next_def at_position_def substream_at_def step ByteRange_from_range_def
        word_le_nat_alt Let_def)
qed

lemma substreams_next_end: "substreams_next (at_position l (layout_len l)) = Some (None, at_position l (layout_len l))"
  by (simp add: substreams_next_def at_position_def)

lemma substreams_len_at [simp]: "substreams_len (at_position l p) = layout_len l - p"
  by (simp add: substreams_len_def at_position_def)

lemma substreams_nth_at:
  "fitting l \<Longrightarrow> p + n < layout_len l \<Longrightarrow>
   substreams_nth n (at_position l p) = Some (Some (substream_at l (p + n)), at_position l (Suc (p + n)))"
  by (induction n arbitrary: p) (simp_all add: substreams_next_at)

lemma FolderStreamLayout_new_fits:
  "FolderStreamLayout_new len count explicit digests = Ok l \<Longrightarrow> fitting l"
  using FolderStreamLayout_new_Ok [of len count explicit digests l] unat_u64_less [of len]
  by (auto simp: fitting_def split: if_splits)


section \<open>The cursor over the folders\<close>

definition location :: "nat \<Rightarrow> FolderLayout \<Rightarrow> nat \<Rightarrow> StreamLocation" where
  "location k f j =
     \<lparr>loc_folder_index = k, loc_stream_index = j, loc_folder = f, loc_stream = substream_at (fl_layout f) j\<rparr>"

definition owned :: "nat \<Rightarrow> FolderLayout \<Rightarrow> nat \<Rightarrow> StreamLocation list" where
  "owned k f p = map (location k f) [p..<layout_len (fl_layout f)]"

text \<open>All substreams of the folders in order: the list the cursor walks.\<close>

fun locations :: "nat \<Rightarrow> FolderLayout list \<Rightarrow> StreamLocation list" where
  "locations k [] = []"
| "locations k (f # fs) = owned k f 0 @ locations (Suc k) fs"

definition folder_at :: "nat \<Rightarrow> FolderLayout \<Rightarrow> nat \<Rightarrow> FolderStreams" where
  "folder_at k f p = \<lparr>fos_index = k, fos_folder = f, fos_count = p, fos_streams = at_position (fl_layout f) p\<rparr>"

lemma FolderStreams_new_at: "FolderStreams_new k f = folder_at k f 0"
  by (simp add: FolderStreams_new_def folder_at_def layout_streams_start)

lemma length_owned [simp]: "length (owned k f p) = layout_len (fl_layout f) - p"
  by (simp add: owned_def)

lemma owned_drop: "drop n (owned k f p) = owned k f (p + n)"
  by (simp add: owned_def drop_map)

lemma owned_nth: "n < layout_len (fl_layout f) - p \<Longrightarrow> owned k f p ! n = location k f (p + n)"
  by (simp add: owned_def)

lemma FolderStreams_nth_at:
  assumes "fitting (fl_layout f)" and "p + n < layout_len (fl_layout f)"
  shows "FolderStreams_nth (folder_at k f p) n =
    Some (Some (p + n, substream_at (fl_layout f) (p + n)), folder_at k f (Suc (p + n)))"
  using substreams_nth_at [OF assms] by (simp add: FolderStreams_nth_def folder_at_def Let_def)

text \<open>Every folder the plans hand out has a layout that fits.\<close>

lemma plans_run_fits: "plans_run N plans = (fs, e) \<Longrightarrow> \<forall>f \<in> set fs. fitting (fl_layout f)"
proof (induction N plans arbitrary: fs e rule: plans_run.induct)
  case (1 N self)
  obtain item s where item: "FolderPlans_next N self = (item, s)" by (cases "FolderPlans_next N self")
  show ?case
  proof (cases "\<exists>f. item = Some (Ok f)")
    case False
    then have "fs = []"
      using "1.prems" item by (auto simp: plans_run.simps [of N self] split: option.splits result.splits)
    then show ?thesis by simp
  next
    case True
    then obtain f where f: "item = Some (Ok f)" by blast
    obtain fs' where fs: "plans_run N s = (fs', e)" "fs = f # fs'"
      using "1.prems" item f by (auto simp: plans_run.simps [of N self] split: prod.splits)
    have "next_folder N self = Ok (f, s)"
      using item f by (auto simp: FolderPlans_next_def split: if_splits result.splits prod.splits)
    then obtain count ds where
      "FolderStreamLayout_new (lo_unpack_size (fl_state f)) count (explicit_sizes (fl_layout f)) ds = Ok (fl_layout f)"
      using next_folder_Ok by blast
    then show ?thesis
      using "1.IH" [OF item [symmetric] f refl fs(1)] fs(2) FolderStreamLayout_new_fits by auto
  qed
qed

lemma plans_run_finished: "fp_finished plans \<Longrightarrow> plans_run N plans = ([], None)"
  by (simp add: plans_run.simps [of N plans] FolderPlans_next_def)

lemma FolderPlans_next_stops:
  "FolderPlans_next N plans = (item, plans') \<Longrightarrow> item = None \<or> item = Some (Err e) \<Longrightarrow> fp_finished plans'"
  by (auto simp: FolderPlans_next_def split: if_splits result.splits prod.splits)

text \<open>What is left of a cursor, and the error its folder tables end in, if any.\<close>

definition plans_locations :: "nom \<Rightarrow> (nat \<times> FolderPlans) option \<Rightarrow> StreamLocation list \<times> R7zError option" where
  "plans_locations N folders =
     (case folders of
        None \<Rightarrow> ([], None)
      | Some (k, plans) \<Rightarrow> (case plans_run N plans of (fs, e) \<Rightarrow> (locations k fs, e)))"

definition current_locations :: "FolderStreams option \<Rightarrow> StreamLocation list" where
  "current_locations current =
     (case current of None \<Rightarrow> [] | Some fo \<Rightarrow> owned (fos_index fo) (fos_folder fo) (fos_count fo))"

definition remaining :: "nom \<Rightarrow> StreamLocations \<Rightarrow> StreamLocation list \<times> R7zError option" where
  "remaining N self =
     (case plans_locations N (sl_folders self) of
        (locs, e) \<Rightarrow> (current_locations (sl_current self) @ locs, e))"

definition streams_valid :: "StreamLocations \<Rightarrow> bool" where
  "streams_valid self \<longleftrightarrow>
     (\<forall>fo. sl_current self = Some fo \<longrightarrow>
        (\<exists>k f p. fo = folder_at k f p \<and> fitting (fl_layout f) \<and> p \<le> layout_len (fl_layout f)))"

text \<open>The search stops in the folder that owns the wanted location, or at the end of the tables.\<close>

definition error_of :: "R7zError option \<Rightarrow> R7zError" where
  "error_of e = (case e of None \<Rightarrow> Parse | Some x \<Rightarrow> x)"

lemma find_folder_spec:
  assumes "plans_run N plans = (fs, e)" and "find_folder N k plans n = (found, n', k', plans')"
  shows "if n < length (locations k fs)
    then \<exists>i f fs'. found = Some (Ok (folder_at i f 0)) \<and> fitting (fl_layout f) \<and> n' < layout_len (fl_layout f) \<and>
      plans_run N plans' = (fs', e) \<and> n' \<le> n \<and> drop (n - n') (locations k fs) = owned i f 0 @ locations k' fs'
    else found = map_option Err e \<and> fp_finished plans'"
  using assms
proof (induction N k plans n arbitrary: fs rule: find_folder.induct)
  case (1 N k plans n)
  obtain item s where item: "FolderPlans_next N plans = (item, s)" by (cases "FolderPlans_next N plans")
  show ?case
  proof (cases "\<exists>f. item = Some (Ok f)")
    case False
    then have "fs = []" "found = map_option Err e" "plans' = s"
      using 1(2,3) item by (auto simp: plans_run.simps [of N plans] find_folder.simps [of N k plans] split: option.splits result.splits)
    moreover have "fp_finished s"
      using False FolderPlans_next_stops [OF item] by (cases item) (auto, metis result.exhaust)
    ultimately show ?thesis by simp
  next
    case True
    then obtain f where f: "item = Some (Ok f)" by blast
    obtain gs where run: "plans_run N s = (gs, e)" and fs: "fs = f # gs"
      using 1(2) item f by (auto simp: plans_run.simps [of N plans] split: prod.splits)
    have fit: "fitting (fl_layout f)" using plans_run_fits [OF 1(2)] fs by simp
    have len: "substreams_len (fos_streams (FolderStreams_new k f)) = layout_len (fl_layout f)"
      by (simp add: FolderStreams_new_at folder_at_def)
    show ?thesis
    proof (cases "layout_len (fl_layout f) \<le> n")
      case True
      have rest: "find_folder N (k + 1) s (n - layout_len (fl_layout f)) = (found, n', k', plans')"
        using 1(3) item f True len by (simp add: find_folder.simps [of N k plans] Let_def)
      have "drop (n - m) (locations k fs) = drop (n - layout_len (fl_layout f) - m) (locations (Suc k) gs)"
        if "m \<le> n - layout_len (fl_layout f)" for m
        using that True by (simp add: fs add.commute)
      with 1(1) [OF item [symmetric] f refl refl _ run] rest True len show ?thesis
        by (auto simp: fs split: if_splits) (blast intro: order.trans [OF _ diff_le_self])
    next
      case False
      then have "found = Some (Ok (folder_at k f 0))" "n' = n" "k' = Suc k" "plans' = s"
        using 1(3) item f len by (simp_all add: find_folder.simps [of N k plans] Let_def FolderStreams_new_at)
      then show ?thesis using False fit run by (simp add: fs) (metis not_le)
    qed
  qed
qed

text \<open>The cursor over the folders is a cursor over the list of their substreams, errors included.\<close>

lemma find_remaining_spec:
  assumes "plans_locations N folders = (locs, e)" and "find_remaining N folders n = (found, n', folders')"
  shows "if n < length locs
    then \<exists>i f rest. found = Some (Ok (folder_at i f 0)) \<and> fitting (fl_layout f) \<and> n' < layout_len (fl_layout f) \<and>
      plans_locations N folders' = (rest, e) \<and> n' \<le> n \<and> drop (n - n') locs = owned i f 0 @ rest
    else found = map_option Err e \<and> plans_locations N folders' = ([], None)"
proof (cases folders)
  case None
  then show ?thesis using assms by (auto simp: plans_locations_def find_remaining_def)
next
  case (Some p)
  obtain k plans where p: "p = (k, plans)" by (cases p)
  obtain fs where run: "plans_run N plans = (fs, e)" and locs: "locs = locations k fs"
    using assms(1) Some p by (auto simp: plans_locations_def split: prod.splits)
  obtain k' plans' where find: "find_folder N k plans n = (found, n', k', plans')" "folders' = Some (k', plans')"
    using assms(2) Some p by (auto simp: find_remaining_def split: prod.splits)
  from find_folder_spec [OF run find(1)] show ?thesis
    by (fastforce simp: find(2) locs plans_locations_def plans_run_finished split: if_splits)
qed

lemma find_current_spec:
  assumes "streams_valid self" and "remaining N self = (locs, e)" and "find_current N self n = (found, n', folders')"
  shows "if n < length locs
    then \<exists>i f p rest. found = Some (Ok (folder_at i f p)) \<and> fitting (fl_layout f) \<and> p + n' < layout_len (fl_layout f) \<and>
      plans_locations N folders' = (rest, e) \<and> n' \<le> n \<and> drop (n - n') locs = owned i f p @ rest
    else found = map_option Err e \<and> plans_locations N folders' = ([], None)"
proof -
  obtain ls where ls: "plans_locations N (sl_folders self) = (ls, e)" "locs = current_locations (sl_current self) @ ls"
    using assms(2) by (auto simp: remaining_def split: prod.splits)
  show ?thesis
  proof (cases "sl_current self")
    case None
    then have "find_remaining N (sl_folders self) n = (found, n', folders')" "locs = ls"
      using assms(3) ls by (simp_all add: find_current_def current_locations_def)
    with find_remaining_spec [OF ls(1)] show ?thesis by (fastforce split: if_splits)
  next
    case (Some fo)
    then obtain k f p where fo: "fo = folder_at k f p" "fitting (fl_layout f)" "p \<le> layout_len (fl_layout f)"
      using assms(1) by (auto simp: streams_valid_def)
    have locs: "locs = owned k f p @ ls" using ls Some fo by (simp add: current_locations_def folder_at_def)
    have len: "substreams_len (fos_streams fo) = layout_len (fl_layout f) - p"
      by (simp add: fo folder_at_def)
    show ?thesis
    proof (cases "layout_len (fl_layout f) - p \<le> n")
      case True
      then have "find_remaining N (sl_folders self) (n - (layout_len (fl_layout f) - p)) = (found, n', folders')"
        using assms(3) Some len by (simp add: find_current_def)
      moreover have "drop (n - m) locs = drop (n - (layout_len (fl_layout f) - p) - m) ls"
        if "m \<le> n - (layout_len (fl_layout f) - p)" for m
        using that True by (simp add: locs add.commute)
      ultimately show ?thesis
        using find_remaining_spec [OF ls(1)] True by (fastforce simp: locs split: if_splits)
    next
      case False
      then have "found = Some (Ok fo)" "n' = n" "folders' = sl_folders self"
        using assms(3) Some len by (simp_all add: find_current_def)
      moreover have "p + n < layout_len (fl_layout f)" "n < length locs" using False by (simp_all add: locs)
      ultimately show ?thesis using fo ls(1) by (simp add: locs) blast
    qed
  qed
qed

lemma StreamLocations_nth_spec:
  assumes valid: "streams_valid self" and rem: "remaining N self = (locs, e)"
  shows "\<exists>self'. StreamLocations_nth N self n =
      Some (if n < length locs then Ok (locs ! n) else Err (error_of e), self') \<and>
    streams_valid self' \<and>
    remaining N self' = (if n < length locs then (drop (Suc n) locs, e) else ([], None))"
proof -
  obtain found n' folders' where find: "find_current N self n = (found, n', folders')"
    by (cases "find_current N self n")
  note spec = find_current_spec [OF valid rem find]
  show ?thesis
  proof (cases "n < length locs")
    case False
    then have "found = map_option Err e" "plans_locations N folders' = ([], None)" using spec by simp_all
    then show ?thesis
      using False find by (cases e) (auto simp: StreamLocations_nth_def error_of_def streams_valid_def remaining_def current_locations_def)
  next
    case True
    then obtain i f p rest where found: "found = Some (Ok (folder_at i f p))" "fitting (fl_layout f)"
      "p + n' < layout_len (fl_layout f)" "plans_locations N folders' = (rest, e)" "n' \<le> n"
      "drop (n - n') locs = owned i f p @ rest"
      using spec by auto
    have "locs ! n = (owned i f p @ rest) ! n'"
      using found(5) nth_drop [of "n - n'" locs n'] True by (simp add: found(6) [symmetric])
    also have "\<dots> = location i f (p + n')" using found(3) by (simp add: nth_append owned_nth)
    finally have item: "locs ! n = location i f (p + n')" .
    have "drop (Suc n) locs = drop (Suc n') (owned i f p @ rest)"
      using found(5) by (simp add: found(6) [symmetric] add.commute)
    also have "\<dots> = owned i f (Suc (p + n')) @ rest" using found(3) by (simp add: owned_drop)
    finally have rest: "drop (Suc n) locs = owned i f (Suc (p + n')) @ rest" .
    show ?thesis
      using True find found FolderStreams_nth_at [OF found(2,3), of i] rest
      by (auto simp: StreamLocations_nth_def item location_def folder_at_def streams_valid_def remaining_def current_locations_def)
  qed
qed

lemma StreamLocations_advance_by_spec:
  assumes valid: "streams_valid self" and rem: "remaining N self = (locs, e)"
  shows "\<exists>self'. StreamLocations_advance_by N self n =
      Some (if n \<le> length locs then Ok () else Err (error_of e), self') \<and>
    streams_valid self' \<and>
    remaining N self' = (if n \<le> length locs then (drop n locs, e) else ([], None))"
proof (cases n)
  case 0
  then show ?thesis using assms by (simp add: StreamLocations_advance_by_def)
next
  case (Suc m)
  then show ?thesis
    using StreamLocations_nth_spec [OF assms, of m] by (auto simp: StreamLocations_advance_by_def Suc_le_eq)
qed

lemma finish_folders_spec:
  "plans_run N plans = (fs, e) \<Longrightarrow>
   \<exists>k' plans'. finish_folders N k plans =
     Some (if locations k fs = [] then (case e of None \<Rightarrow> Ok () | Some x \<Rightarrow> Err x) else Err Parse, k', plans')"
proof (induction N k plans arbitrary: fs rule: finish_folders.induct)
  case (1 N k plans)
  obtain item s where item: "FolderPlans_next N plans = (item, s)" by (cases "FolderPlans_next N plans")
  show ?case
  proof (cases "\<exists>f. item = Some (Ok f)")
    case False
    then show ?thesis
      using 1(2) item by (auto simp: plans_run.simps [of N plans] finish_folders.simps [of N k plans] split: option.splits result.splits)
  next
    case True
    then obtain f where f: "item = Some (Ok f)" by blast
    obtain gs where run: "plans_run N s = (gs, e)" and fs: "fs = f # gs"
      using 1(2) item f by (auto simp: plans_run.simps [of N plans] split: prod.splits)
    have fit: "fitting (fl_layout f)" using plans_run_fits [OF 1(2)] fs by simp
    show ?thesis
    proof (cases "layout_len (fl_layout f) = 0")
      case True
      then have next_end: "substreams_next (layout_streams (fl_layout f)) = Some (None, at_position (fl_layout f) 0)"
        using substreams_next_end [of "fl_layout f"] by (simp add: layout_streams_start)
      from 1(1) [OF item [symmetric] f refl next_end refl refl run] True show ?thesis
        using item f next_end by (auto simp: finish_folders.simps [of N k plans] fs owned_def)
    next
      case False
      then show ?thesis
        using item f substreams_next_at [OF fit, of 0]
        by (auto simp: finish_folders.simps [of N k plans] fs owned_def layout_streams_start)
    qed
  qed
qed

definition finish_error :: "StreamLocation list \<Rightarrow> R7zError option \<Rightarrow> R7zError option" where
  "finish_error locs e = (if locs \<noteq> [] then Some Parse else e)"

lemma StreamLocations_finish_spec:
  assumes "streams_valid self" and "remaining N self = (locs, e)"
  shows "\<exists>self'. StreamLocations_finish N self =
    Some (case finish_error locs e of None \<Rightarrow> Ok () | Some x \<Rightarrow> Err x, self')"
proof -
  obtain ls where ls: "plans_locations N (sl_folders self) = (ls, e)" "locs = current_locations (sl_current self) @ ls"
    using assms(2) by (auto simp: remaining_def split: prod.splits)
  have open_folder: "(case sl_current self of None \<Rightarrow> False | Some folder \<Rightarrow> substreams_len (fos_streams folder) \<noteq> 0) \<longleftrightarrow>
      current_locations (sl_current self) \<noteq> []"
    using assms(1) by (auto simp: streams_valid_def current_locations_def folder_at_def owned_def split: option.splits)
  show ?thesis
  proof (cases "sl_folders self")
    case None
    then show ?thesis
      using ls open_folder by (auto simp: StreamLocations_finish_def finish_error_def plans_locations_def)
  next
    case (Some p)
    obtain k plans where p: "p = (k, plans)" by (cases p)
    obtain fs where run: "plans_run N plans = (fs, e)" "ls = locations k fs"
      using ls(1) Some p by (auto simp: plans_locations_def split: prod.splits)
    from finish_folders_spec [OF run(1), of k] obtain k' plans' where
      "finish_folders N k plans =
        Some (if ls = [] then (case e of None \<Rightarrow> Ok () | Some x \<Rightarrow> Err x) else Err Parse, k', plans')"
      unfolding run(2) by blast
    then show ?thesis
      unfolding StreamLocations_finish_def open_folder using Some p ls(2)
      by (auto simp: finish_error_def split: option.splits)
  qed
qed


section \<open>One pass over the two lists\<close>

definition bound :: "unit Entry \<Rightarrow> StreamLocation \<Rightarrow> FileStream" where
  "bound entry l = \<lparr>ent_metadata = ent_metadata entry, ent_kind = map_EntryKind (\<lambda>_. l) (ent_kind entry)\<rparr>"

abbreviation owns :: "unit Entry \<Rightarrow> bool" where
  "owns entry \<equiv> has_stream (ent_kind entry)"

text \<open>The reference: each entry that owns a stream takes the next location.\<close>

fun bind_entries :: "unit Entry list \<Rightarrow> StreamLocation list \<Rightarrow> R7zError option \<Rightarrow> FileStream list \<times> R7zError option" where
  "bind_entries [] locs e = ([], finish_error locs e)"
| "bind_entries (x # xs) locs e =
     (if owns x \<and> locs = [] then ([], Some (error_of e))
      else (case bind_entries xs (if owns x then tl locs else locs) e of
        (ys, r) \<Rightarrow> (bound x (hd locs) # ys, r)))"

lemma Entry_bind_owns: "owns x \<Longrightarrow> Entry_bind x (\<lambda>_. Ok l) = Ok (bound x l)"
  by (cases "ent_kind x") (simp_all add: Entry_bind_def EntryKind_bind_def bound_def)

lemma Entry_bind_Err: "owns x \<Longrightarrow> Entry_bind x (\<lambda>_. Err e) = Err e"
  by (cases "ent_kind x") (simp_all add: Entry_bind_def EntryKind_bind_def)

lemma Entry_bind_other: "\<not> owns x \<Longrightarrow> Entry_bind x f = Ok (bound x l)"
  by (cases "ent_kind x") (simp_all add: Entry_bind_def EntryKind_bind_def bound_def)

definition walk_at :: "nom \<Rightarrow> nat \<Rightarrow> FileStreams \<Rightarrow> unit Entry list \<Rightarrow> StreamLocation list \<Rightarrow> R7zError option \<Rightarrow> bool" where
  "walk_at N m self es locs e \<longleftrightarrow> entries_valid m (fs_entries self) \<and> entry_items (fs_entries self) = es \<and>
     streams_valid (fs_streams self) \<and> remaining N (fs_streams self) = (locs, e)"

lemma FileStreams_next_entry:
  assumes "walk_at N m self (x # xs) locs e" and "\<not> (owns x \<and> locs = [])"
  shows "\<exists>self'. FileStreams_next N self = Some (Ok (Some (bound x (hd locs))), self') \<and>
    walk_at N m self' xs (if owns x then tl locs else locs) e"
proof -
  obtain en where en: "Entries_next (fs_entries self) = (Some x, en)" "entries_valid m en" "entry_items en = xs"
    using ec.step_item [of m "fs_entries self" x xs] assms(1) by (auto simp: walk_at_def)
  show ?thesis
  proof (cases "owns x")
    case False
    then show ?thesis
      using en assms(1) Entry_bind_other [OF False, of _ "hd locs"]
      by (simp add: FileStreams_next_def walk_at_def Let_def)
  next
    case True
    then obtain l ls where locs: "locs = l # ls" using assms(2) by (cases locs) auto
    from StreamLocations_nth_spec [of "fs_streams self" N locs e 0] obtain ss where
      "StreamLocations_nth N (fs_streams self) 0 = Some (Ok l, ss)" "streams_valid ss" "remaining N ss = (ls, e)"
      using assms(1) by (auto simp: walk_at_def locs)
    then show ?thesis
      using en assms(1) True Entry_bind_owns [OF True]
      by (simp add: FileStreams_next_def walk_at_def Let_def locs)
  qed
qed

lemma FileStreams_next_missing:
  assumes "walk_at N m self (x # xs) [] e" and "owns x"
  shows "\<exists>self'. FileStreams_next N self = Some (Err (error_of e), self')"
proof -
  obtain en where en: "Entries_next (fs_entries self) = (Some x, en)"
    using ec.step_item [of m "fs_entries self" x xs] assms(1) by (auto simp: walk_at_def)
  from StreamLocations_nth_spec [of "fs_streams self" N "[]" e 0] obtain ss where
    "StreamLocations_nth N (fs_streams self) 0 = Some (Err (error_of e), ss)"
    using assms(1) by (auto simp: walk_at_def)
  then show ?thesis
    using en assms(2) by (simp add: FileStreams_next_def Let_def Entry_bind_Err [OF assms(2)])
qed

lemma FileStreams_next_end:
  assumes "walk_at N m self [] locs e"
  shows "\<exists>self'. FileStreams_next N self =
    Some (case finish_error locs e of None \<Rightarrow> Ok None | Some x \<Rightarrow> Err x, self')"
proof -
  obtain en where en: "Entries_next (fs_entries self) = (None, en)"
    using ec.step_end [of m "fs_entries self"] assms by (auto simp: walk_at_def)
  from StreamLocations_finish_spec [of "fs_streams self" N locs e] show ?thesis
    using en assms by (auto simp: FileStreams_next_def walk_at_def split: option.splits)
qed


section \<open>Running the iterators\<close>

text \<open>A step that yields a file leaves fewer entries.\<close>

lemma FileStreams_next_less:
  assumes "FileStreams_next N self = Some (Ok (Some file), self')"
  shows "FileStreams_len self' < FileStreams_len self"
  using assms Entries_next_less [of "fs_entries self"]
  by (auto simp: FileStreams_next_def FileStreams_len_def Let_def split: option.splits prod.splits if_splits)

text \<open>Consumers that run an iterator to its end; they collect every item, errors included.\<close>

function map_all_run :: "nom \<Rightarrow> ('c, 't) callback \<Rightarrow> bool \<times> FileStreams \<times> 'c \<Rightarrow> ('t r7z_result list \<times> 'c) option" where
  "map_all_run N f state =
     (case map_all_next N f state of
        None \<Rightarrow> None
      | Some (None, state) \<Rightarrow> Some ([], snd (snd state))
      | Some (Some mapped, state) \<Rightarrow> map_option (\<lambda>(rest, c). (mapped # rest, c)) (map_all_run N f state))"
  by pat_completeness auto
termination
  by (relation "measure (\<lambda>(N, f, finished, self, c). if finished then 0 else Suc (FileStreams_len self))")
     (auto simp: map_all_next_def split: prod.splits if_splits option.splits result.splits dest: FileStreams_next_less)

declare map_all_run.simps [simp del]

function map_selected_run :: "nom \<Rightarrow> ('c, 't) callback \<Rightarrow> FileStreams \<times> EntrySelection \<times> 'c \<Rightarrow>
    ('t r7z_result list \<times> 'c) option" where
  "map_selected_run N f state =
     (case map_selected_next N f state of
        None \<Rightarrow> None
      | Some (None, state) \<Rightarrow> Some ([], snd (snd state))
      | Some (Some mapped, state) \<Rightarrow> map_option (\<lambda>(rest, c). (mapped # rest, c)) (map_selected_run N f state))"
  by pat_completeness auto
termination
  by (relation "measure (\<lambda>(N, f, self, selection, c). EntrySelection_len selection)")
     (auto simp: map_selected_next_def split: prod.splits option.splits result.splits dest: EntrySelection_next_len)

declare map_selected_run.simps [simp del]

text \<open>The calls of the callback on a list of files, in order.\<close>

fun callbacks :: "('c, 't) callback \<Rightarrow> 'c \<Rightarrow> FileStream list \<Rightarrow> 't r7z_result list \<times> 'c" where
  "callbacks f c [] = ([], c)"
| "callbacks f c (y # ys) =
     (case f c y of (r, c) \<Rightarrow> (case callbacks f c ys of (rs, c) \<Rightarrow> (r # rs, c)))"

definition error_item :: "R7zError option \<Rightarrow> 't r7z_result list" where
  "error_item e = (case e of None \<Rightarrow> [] | Some x \<Rightarrow> [Err x])"

lemma map_all_run_finished: "map_all_run N f (True, self, c) = Some ([], c)"
  by (simp add: map_all_run.simps map_all_next_def)

lemma map_all_run_binds:
  assumes "walk_at N m self es locs e"
  shows "map_all_run N f (False, self, c) =
    (case bind_entries es locs e of (ys, r) \<Rightarrow>
     case callbacks f c ys of (rs, c) \<Rightarrow> Some (rs @ error_item r, c))"
  using assms
proof (induction es arbitrary: self locs c)
  case Nil
  from FileStreams_next_end [OF Nil] show ?case
    by (cases "finish_error locs e")
       (auto simp: map_all_run.simps [of N f "(False, self, c)"] map_all_next_def error_item_def map_all_run_finished)
next
  case (Cons x xs)
  show ?case
  proof (cases "owns x \<and> locs = []")
    case True
    then obtain self' where "FileStreams_next N self = Some (Err (error_of e), self')"
      using FileStreams_next_missing [of N m self x xs e] Cons.prems by auto
    then show ?thesis
      using True by (simp add: map_all_run.simps [of N f "(False, self, c)"] map_all_next_def error_item_def map_all_run_finished)
  next
    case False
    from FileStreams_next_entry [OF Cons.prems False] obtain self' where
      step: "FileStreams_next N self = Some (Ok (Some (bound x (hd locs))), self')"
      "walk_at N m self' xs (if owns x then tl locs else locs) e" by blast
    show ?thesis
      using False step(1) Cons.IH [OF step(2)]
      by (simp add: map_all_run.simps [of N f "(False, self, c)"] map_all_next_def split: prod.split)
  qed
qed

text \<open>In closed form, when the tables are complete: entry \<open>i\<close> gets the location its ordinal says.\<close>

definition ordinal :: "unit Entry list \<Rightarrow> nat \<Rightarrow> nat" where
  "ordinal es i = length (filter owns (take i es))"

definition bound_entry :: "unit Entry list \<Rightarrow> StreamLocation list \<Rightarrow> nat \<Rightarrow> FileStream" where
  "bound_entry es locs i = bound (es ! i) (locs ! ordinal es i)"

lemma bound_other: "\<not> owns x \<Longrightarrow> bound x l = bound x l'"
  by (cases "ent_kind x") (simp_all add: bound_def)

lemma ordinal_Cons: "ordinal (x # xs) (Suc i) = (if owns x then Suc (ordinal xs i) else ordinal xs i)"
  by (simp add: ordinal_def)

lemma bind_entries_closed:
  "length (filter owns es) = length locs \<Longrightarrow>
   bind_entries es locs None = (map (bound_entry es locs) [0..<length es], None)"
proof (induction es arbitrary: locs)
  case Nil
  then show ?case by (simp add: finish_error_def)
next
  case (Cons x xs)
  define ls where "ls = (if owns x then tl locs else locs)"
  have "length (filter owns xs) = length ls" using Cons.prems by (auto simp: ls_def)
  from Cons.IH [OF this] have rest: "bind_entries xs ls None = (map (bound_entry xs ls) [0..<length xs], None)" .
  have "bound_entry (x # xs) locs (Suc i) = bound_entry xs ls i" for i
    using Cons.prems by (cases locs) (auto simp: bound_entry_def ordinal_Cons ls_def)
  moreover have "bound_entry (x # xs) locs 0 = bound x (hd locs)"
    using Cons.prems bound_other [of x] by (cases "owns x"; cases locs) (auto simp: bound_entry_def ordinal_def)
  moreover have "[0..<length (x # xs)] = 0 # map Suc [0..<length xs]"
    by (metis length_Cons map_Suc_upt upt_conv_Cons zero_less_Suc)
  ultimately show ?case
    using Cons.prems rest by (auto simp: ls_def [symmetric] simp del: upt_Suc)
qed


section \<open>Selections\<close>

lemma ordinal_add: "ordinal es (j + n) = ordinal es j + length (filter owns (take n (drop j es)))"
  by (simp add: ordinal_def take_add)

lemma ordinal_le: "ordinal es j \<le> length (filter owns es)"
  by (metis append_take_drop_id filter_append le_add1 length_append ordinal_def)

lemma ordinal_Suc: "j < length es \<Longrightarrow> ordinal es (Suc j) = (if owns (es ! j) then Suc (ordinal es j) else ordinal es j)"
  by (simp add: ordinal_def take_Suc_conv_app_nth)

lemma ordinal_less: "j < length es \<Longrightarrow> owns (es ! j) \<Longrightarrow> ordinal es j < length (filter owns es)"
  using ordinal_le [of es "Suc j"] by (simp add: ordinal_Suc)

text \<open>The walk stands before entry \<open>j\<close>.\<close>

abbreviation stands_at :: "nom \<Rightarrow> FileStreams \<Rightarrow> unit Entry list \<Rightarrow> StreamLocation list \<Rightarrow> nat \<Rightarrow> bool" where
  "stands_at N self es locs j \<equiv> walk_at N (length es) self (drop j es) (drop (ordinal es j) locs) None"

lemma next_index_at:
  assumes "stands_at N self es locs j" and "j \<le> length es"
  shows "next_index (fs_entries self) = j"
proof -
  have "length (entry_items (fs_entries self)) = length es - en_start (fs_entries self)"
    using assms(1) by (simp add: walk_at_def entries_valid_def entry_items_def Entries_len_def)
  moreover have "length (entry_items (fs_entries self)) = length es - j" "en_start (fs_entries self) \<le> length es"
    using assms(1) by (simp_all add: walk_at_def entries_valid_def)
  ultimately show ?thesis using assms(2) by (simp add: next_index_def)
qed

lemma FileStreams_nth_at:
  assumes at: "stands_at N self es locs j" and complete: "length (filter owns es) = length locs"
    and less: "j + n < length es"
  shows "\<exists>self'. FileStreams_nth N self n = Some (Ok (Some (bound_entry es locs (j + n))), self') \<and>
    stands_at N self' es locs (Suc (j + n))"
proof -
  obtain en where en: "by_ref_take Entries_next n (fs_entries self) = (take n (drop j es), en)"
    "entries_valid (length es) en" "entry_items en = drop (j + n) es"
    using ec.take_items [of "length es" "fs_entries self" n] at by (auto simp: walk_at_def add.commute)
  define k where "k = length (filter owns (take n (drop j es)))"
  have k: "ordinal es (j + n) = ordinal es j + k" by (simp add: ordinal_add k_def)
  then have "k \<le> length (drop (ordinal es j) locs)"
    using ordinal_le [of es "j + n"] complete by simp
  then obtain ss where ss: "StreamLocations_advance_by N (fs_streams self) k = Some (Ok (), ss)" "streams_valid ss"
    "remaining N ss = (drop (ordinal es (j + n)) locs, None)"
    using StreamLocations_advance_by_spec [of "fs_streams self" N "drop (ordinal es j) locs" None k] at
    by (auto simp: walk_at_def k add.commute)
  define self1 where "self1 = self\<lparr>fs_entries := en, fs_streams := ss\<rparr>"
  have nth: "FileStreams_nth N self n = FileStreams_next N self1"
    using en(1) ss(1) by (simp add: FileStreams_nth_def k_def self1_def)
  have at1: "walk_at N (length es) self1 (es ! (j + n) # drop (Suc (j + n)) es) (drop (ordinal es (j + n)) locs) None"
    using en ss less by (simp add: walk_at_def self1_def Cons_nth_drop_Suc)
  have some: "drop (ordinal es (j + n)) locs \<noteq> []" if "owns (es ! (j + n))"
    using ordinal_less [OF less that] complete by simp
  have "bound (es ! (j + n)) (hd (drop (ordinal es (j + n)) locs)) = bound_entry es locs (j + n)"
  proof (cases "owns (es ! (j + n))")
    case True
    then show ?thesis using some [OF True] by (simp add: bound_entry_def hd_drop_conv_nth)
  qed (auto simp: bound_entry_def intro: bound_other)
  moreover have "(if owns (es ! (j + n)) then tl (drop (ordinal es (j + n)) locs) else drop (ordinal es (j + n)) locs) =
      drop (ordinal es (Suc (j + n))) locs"
    using less by (simp add: ordinal_Suc drop_Suc tl_drop)
  ultimately show ?thesis
    using FileStreams_next_entry [OF at1] some unfolding nth by auto
qed

lemma map_selected_run_binds:
  assumes "stands_at N self es locs j" and "length (filter owns es) = length locs"
    and "sorted_wrt (<) (selection_run selection)" and "\<forall>i \<in> set (selection_run selection). j \<le> i \<and> i < length es"
    and "j \<le> length es"
  shows "map_selected_run N f (self, selection, c) =
    Some (callbacks f c (map (bound_entry es locs) (selection_run selection)))"
  using assms
proof (induction "selection_run selection" arbitrary: self selection j c)
  case Nil
  with sc.step_end [of selection] show ?case
    by (auto simp: map_selected_run.simps [of N f "(self, selection, c)"] map_selected_next_def)
next
  case (Cons i later_ixs)
  obtain selection' where sel: "EntrySelection_next selection = (Some i, selection')" "selection_run selection' = later_ixs"
    using sc.step_item [of selection i later_ixs] Cons.hyps(2) by auto
  have i: "j \<le> i" "i < length es" and later: "\<forall>k \<in> set later_ixs. i < k \<and> k < length es" "sorted_wrt (<) later_ixs"
    using Cons.prems(3,4) Cons.hyps(2) [symmetric] by auto
  obtain self' where self': "FileStreams_nth N self (i - j) = Some (Ok (Some (bound_entry es locs i)), self')"
    "stands_at N self' es locs (Suc i)"
    using FileStreams_nth_at [OF Cons.prems(1,2), of "i - j"] i by auto
  have run: "map_selected_run N f (self', selection', d) = Some (callbacks f d (map (bound_entry es locs) later_ixs))" for d
    using Cons.hyps(1) [of selection' self' "Suc i" d] self'(2) Cons.prems(2) later i sel(2) by (auto simp: Suc_le_eq)
  show ?case
    using self'(1) i
    by (simp add: map_selected_run.simps [of N f "(self, selection, c)"] map_selected_next_def sel
        next_index_at [OF Cons.prems(1,5)] checked_sub_def run Cons.hyps(2) [symmetric] split: prod.split)
qed

lemma selection_run_new:
  assumes "EntrySelection_new indices count = Ok selection"
  shows "sorted_wrt (<) (selection_run selection) \<and> (\<forall>i \<in> set (selection_run selection). i < count)"
proof (cases indices)
  case None
  then show ?thesis
    using assms by (auto simp: EntrySelection_new_def selection_run_all sorted_wrt_upt)
next
  case (Some ixs)
  then show ?thesis
    using assms
    by (auto simp: EntrySelection_new_Some selection_run_selected list_ex_iff strict_sorted_iff not_le split: if_splits)
qed


section \<open>Opening the walk\<close>

text \<open>The substreams the folder tables of an archive describe, in order.\<close>

definition stream_locations :: "nom \<Rightarrow> StreamInfo option \<Rightarrow> StreamLocation list \<times> R7zError option" where
  "stream_locations N streams =
     (case file_folders streams of
        Ok (Some folders) \<Rightarrow> plans_locations N (Some (0, fls_plans folders))
      | _ \<Rightarrow> ([], None))"

definition stream_count_at :: "SubstreamInfo option \<Rightarrow> nat \<Rightarrow> nat" where
  "stream_count_at sub i = (case sub of None \<Rightarrow> 1 | Some info \<Rightarrow> unat (num_unpack_streams_per_folder info ! i))"

lemma length_locations: "length (locations k fs) = sum_list (map (layout_len \<circ> fl_layout) fs)"
  by (induction fs arbitrary: k) simp_all

lemma plans_run_counts:
  "plans_run N plans = (fs, e) \<Longrightarrow>
   map (layout_len \<circ> fl_layout) fs =
     map (stream_count_at (fp_substream_info plans)) [fp_folder_index plans..<fp_folder_index plans + length fs]"
proof (induction N plans arbitrary: fs e rule: plans_run.induct)
  case (1 N self)
  obtain item s where item: "FolderPlans_next N self = (item, s)" by (cases "FolderPlans_next N self")
  show ?case
  proof (cases "\<exists>f. item = Some (Ok f)")
    case False
    then have "fs = []"
      using "1.prems" item by (auto simp: plans_run.simps [of N self] split: option.splits result.splits)
    then show ?thesis by simp
  next
    case True
    then obtain f where f: "item = Some (Ok f)" by blast
    obtain fs' where fs: "plans_run N s = (fs', e)" "fs = f # fs'"
      using "1.prems" item f by (auto simp: plans_run.simps [of N self] split: prod.splits)
    have nf: "next_folder N self = Ok (f, s)"
      using item f by (auto simp: FolderPlans_next_def split: if_splits result.splits prod.splits)
    obtain count ds where count: "folder_stream_count self = Ok count"
      "FolderStreamLayout_new (lo_unpack_size (fl_state f)) count (explicit_sizes (fl_layout f)) ds = Ok (fl_layout f)"
      using next_folder_Ok [OF nf] by blast
    then have "layout_len (fl_layout f) = stream_count_at (fp_substream_info self) (fp_folder_index self)"
      using FolderStreamLayout_new_Ok [OF count(2)]
      by (cases "fp_substream_info self") (auto simp: folder_stream_count_def stream_count_at_def)
    moreover have "fp_folder_index s = Suc (fp_folder_index self)" "fp_substream_info s = fp_substream_info self"
      using next_folder_index [OF nf] next_folder_Ok [OF nf] by (simp_all add: same_tables_def)
    ultimately show ?thesis
      using "1.IH" [OF item [symmetric] f refl fs(1)] by (simp add: fs(2) upt_conv_Cons del: upt_Suc)
  qed
qed

lemma count_fold_Ok:
  "try_fold (\<lambda>acc count. ok_or Parse (usize_checked_add acc (unat count))) acc counts = Ok s \<Longrightarrow>
   s = acc + sum_list (map unat counts)"
proof (induction counts arbitrary: acc)
  case (Cons x xs)
  from Cons.prems have "try_fold (\<lambda>acc count. ok_or Parse (usize_checked_add acc (unat count))) (acc + unat x) xs = Ok s"
    by auto
  from Cons.IH [OF this] show ?case by simp
qed simp

lemma substream_count_Ok:
  assumes "substream_count folders sub = Ok s"
  shows "s = sum_list (map (stream_count_at sub) [0..<folders])"
proof (cases sub)
  case None
  moreover have "stream_count_at None = (\<lambda>i. 1)" by (simp add: fun_eq_iff stream_count_at_def)
  ultimately show ?thesis using assms by (simp add: substream_count_def sum_list_triv)
next
  case (Some info)
  then have len: "length (num_unpack_streams_per_folder info) = folders" and
    "try_fold (\<lambda>acc count. ok_or Parse (usize_checked_add acc (unat count))) 0 (num_unpack_streams_per_folder info) = Ok s"
    using assms by (simp_all add: substream_count_def usize_try_from_total split: if_splits)
  then have "s = sum_list (map unat (num_unpack_streams_per_folder info))" using count_fold_Ok [of 0] by simp
  also have "map unat (num_unpack_streams_per_folder info) = map (stream_count_at sub) [0..<folders]"
    using Some len by (intro nth_equalityI) (simp_all add: stream_count_at_def)
  finally show ?thesis .
qed

lemma stream_locations_count:
  assumes "file_folders streams = Ok (Some folders)" and "stream_locations N streams = (locs, None)"
  shows "length locs = fls_stream_count folders"
proof -
  obtain fs where run: "plans_run N (fls_plans folders) = (fs, None)" and locs: "locs = locations 0 fs"
    using assms by (auto simp: stream_locations_def plans_locations_def split: prod.splits)
  obtain pack unpack sub count where plans: "fls_plans folders = FolderPlans_new pack unpack sub"
    "substream_count (num_folders_usize unpack) sub = Ok (fls_stream_count folders)"
    using assms(1)
    by (auto simp: file_folders_def for_streams_def Let_def split: option.splits if_splits)
  have "\<not> fp_finished (fls_plans folders)" by (simp add: plans FolderPlans_new_def)
  then have "length fs = num_folders_usize unpack"
    using plans_run_walk [OF run] new_plans_bases by (auto simp: walk_ok_def plans(1)) (simp add: FolderPlans_new_def)
  then show ?thesis
    using plans_run_counts [OF run] substream_count_Ok [OF plans(2)]
    by (simp add: locs length_locations plans(1)) (simp add: FolderPlans_new_def)
qed

lemma stream_count_items: "Entries_stream_count (Entries_new files n) = length (filter owns (entry_items (Entries_new files n)))"
  by (simp add: Entries_stream_count_def entry_items_def Entries_len_def entry_at_def Entries_new_def filter_map o_def)

lemma length_entry_items [simp]: "length (entry_items (Entries_new files n)) = n"
  by (simp add: entry_items_def Entries_len_def Entries_new_def)

lemma FileStreams_new_walk:
  assumes new: "FileStreams_new files n streams = Ok self" and n: "n < usize_limit"
    and locs: "stream_locations N streams = (locs, e)"
  shows "walk_at N n self (entry_items (Entries_new files n)) locs e \<and>
    (e = None \<longrightarrow> length (filter owns (entry_items (Entries_new files n))) = length locs)"
proof -
  obtain folders where folders: "file_folders streams = Ok folders"
    "(case folders of None \<Rightarrow> 0 | Some f \<Rightarrow> fls_stream_count f) = Entries_stream_count (Entries_new files n)"
    "fs_entries self = Entries_new files n"
    "fs_streams self = \<lparr>sl_folders = map_option (\<lambda>f. (0, fls_plans f)) folders, sl_current = None\<rparr>"
    using new by (auto simp: FileStreams_new_def Let_def split: if_splits)
  have "remaining N (fs_streams self) = (locs, e)"
    using locs folders(1) unfolding folders(4)
    by (cases folders) (auto simp: remaining_def stream_locations_def current_locations_def plans_locations_def split: prod.splits)
  then have "walk_at N n self (entry_items (Entries_new files n)) locs e"
    using n by (simp add: walk_at_def folders(3) entries_valid_def streams_valid_def) (simp add: Entries_new_def folders(4))
  moreover have "length (filter owns (entry_items (Entries_new files n))) = length locs" if "e = None"
  proof (cases folders)
    case None
    then show ?thesis using folders(1,2) locs by (simp add: stream_count_items stream_locations_def)
  next
    case (Some f)
    then show ?thesis
      using stream_locations_count [of streams f N locs] folders(1,2) locs that by (simp add: stream_count_items)
  qed
  ultimately show ?thesis by blast
qed


section \<open>A worked example\<close>

text \<open>An archive without a file table: one folder with the copy method that holds one file.\<close>

definition copy_streams :: StreamInfo where
  "copy_streams = \<lparr>pack_info = Some copy_pack, unpack_info = Some copy_unpack, substream_info = None\<rparr>"

definition copy_file_streams :: FileStreams where
  "copy_file_streams = \<lparr>fs_entries = Entries_new None 1,
     fs_streams = \<lparr>sl_folders = Some (0, copy_plans), sl_current = None\<rparr>, fs_pack_pos = 0\<rparr>"

lemma copy_file_folders: "file_folders (Some copy_streams) = Ok (Some \<lparr>fls_plans = copy_plans, fls_stream_count = 1\<rparr>)"
  by (simp add: file_folders_def for_streams_def packed_folders_def copy_streams_def copy_plans_def copy_pack_def
      copy_unpack_def num_folders_usize_def substream_count_def Let_def)

lemma copy_file_streams_new: "FileStreams_new None 1 (Some copy_streams) = Ok copy_file_streams"
  by (simp add: FileStreams_new_def copy_file_folders Let_def copy_file_streams_def Entries_stream_count_def
      Entries_new_def Entries_kind_def layouts_pack_pos_def copy_plans_def FolderPlans_new_def copy_pack_def)

lemma copy_locations: "stream_locations nom_reference (Some copy_streams) = ([location 0 copy_layout 0], None)"
  using copy_plans_run
  by (simp add: stream_locations_def copy_file_folders plans_locations_def copy_plans_def [symmetric] owned_def
      copy_layout_def layout_len_def)

definition seen_indices :: "(nat list, nat) callback" where
  "seen_indices c file = (Ok (em_index (ent_metadata file)), c @ [em_index (ent_metadata file)])"


section \<open>Properties\<close>

text \<open>
  C10. Files get their streams in archive order. Once the tables are accepted, a full walk calls
  the callback on exactly the files a single pass over two lists gives, the entries of the file
  table and the substreams of the folders, and ends in the error that pass ends in, if any: that
  of the folder tables, or a parse error if the two lists do not end together. No step panics.
\<close>

theorem files_bound_in_order:
  assumes "FileStreams_new files count streams = Ok self" and "count < usize_limit"
    and "stream_locations N streams = (locs, e)"
  shows "map_all_run N f (False, self, c) =
    (case bind_entries (entry_items (Entries_new files count)) locs e of (ys, r) \<Rightarrow>
     case callbacks f c ys of (rs, c) \<Rightarrow> Some (rs @ error_item r, c))"
  by (rule map_all_run_binds [OF conjunct1 [OF FileStreams_new_walk [OF assms]]])

theorem files_bound_in_order_witness:
  "\<exists>ys r. bind_entries (entry_items (Entries_new None 1)) [location 0 copy_layout 0] None = (ys, r) \<and>
     map_all_run nom_reference seen_indices (False, copy_file_streams, []) =
       (case callbacks seen_indices [] ys of (rs, c) \<Rightarrow> Some (rs @ error_item r, c))"
  using files_bound_in_order [OF copy_file_streams_new _ copy_locations, of seen_indices "[]"]
  by (cases "bind_entries (entry_items (Entries_new None 1)) [location 0 copy_layout 0] None") simp

text \<open>
  C37. A selection sees the files the full walk sees. If the folder tables of an accepted archive
  hold together, entry \<open>i\<close> is bound to the substream whose number is the count of entries with
  data before it; the full walk hands out all entries so bound, and a selection exactly its own,
  in archive order, whatever gaps it skips.
\<close>

theorem selection_sees_same_files:
  assumes "FileStreams_new files count streams = Ok self" and "count < usize_limit"
    and "stream_locations N streams = (locs, None)" and "EntrySelection_new indices count = Ok selection"
  defines "es \<equiv> entry_items (Entries_new files count)"
  shows "map_all_run N f (False, self, c) = Some (callbacks f c (map (bound_entry es locs) [0..<count])) \<and>
    map_selected_run N f (self, selection, c) =
      Some (callbacks f c (map (bound_entry es locs) (selection_run selection)))"
proof -
  from FileStreams_new_walk [OF assms(1-3)] have walk: "walk_at N count self es locs None"
    and complete: "length (filter owns es) = length locs"
    by (simp_all add: es_def)
  have "length es = count" by (simp add: es_def)
  with walk have "stands_at N self es locs 0" by (simp add: ordinal_def)
  with complete selection_run_new [OF assms(4)] \<open>length es = count\<close>
  have "map_selected_run N f (self, selection, c) =
      Some (callbacks f c (map (bound_entry es locs) (selection_run selection)))"
    by (intro map_selected_run_binds) auto
  then show ?thesis
    using map_all_run_binds [OF walk] bind_entries_closed [OF complete] \<open>length es = count\<close>
    by (simp add: error_item_def split: prod.split)
qed

theorem selection_sees_same_files_witness:
  "map_selected_run nom_reference seen_indices (copy_file_streams, SelectAll 0 1, []) = Some ([Ok 0], [0])"
proof -
  have "EntrySelection_new None 1 = Ok (SelectAll 0 1)" by (simp add: EntrySelection_new_def)
  from selection_sees_same_files [OF copy_file_streams_new _ copy_locations this, of seen_indices "[]"]
  show ?thesis
    by (simp add: selection_run_all bound_entry_def bound_def seen_indices_def entry_items_def Entries_len_def
        Entries_new_def entry_at_def)
qed

end
