(* ===== verification/Archive_Paths.thy ===== *)
theory Archive_Paths
  imports Entry_Cursor
begin

text \<open>
  \<^verbatim>\<open>src/src/archive.rs\<close>: which entry names become paths below an extraction directory, and
  the high-level description of an entry. A name is a list of code points and a path the text
  of a \<open>PathBuf\<close>, on either platform the standard library distinguishes.
\<close>

section \<open>Separators and prefixes\<close>

abbreviation SLASH :: code_point where "SLASH \<equiv> 0x2F"
abbreviation BACKSLASH :: code_point where "BACKSLASH \<equiv> 0x5C"
abbreviation COLON :: code_point where "COLON \<equiv> 0x3A"
abbreviation DOT :: code_point where "DOT \<equiv> 0x2E"

definition is_separator :: "code_point \<Rightarrow> bool" where
  "is_separator c = (c = SLASH \<or> c = BACKSLASH)"

text \<open>\<open>str::split\<close> on a set of characters: at least one part, the separators dropped.\<close>

fun split_on :: "('a \<Rightarrow> bool) \<Rightarrow> 'a list \<Rightarrow> 'a list list" where
  "split_on p [] = [[]]"
| "split_on p (x # xs) =
     (if p x then [] # split_on p xs
      else (case split_on p xs of [] \<Rightarrow> [[x]] | w # ws \<Rightarrow> (x # w) # ws))"

definition has_parent_component :: "code_point list \<Rightarrow> bool" where
  "has_parent_component name = list_ex (\<lambda>part. part = [DOT, DOT]) (split_on is_separator name)"

definition is_ascii_alphabetic :: "code_point \<Rightarrow> bool" where
  "is_ascii_alphabetic c = (0x41 \<le> c \<and> c \<le> 0x5A \<or> 0x61 \<le> c \<and> c \<le> 0x7A)"

text \<open>
  The source looks at the first two bytes of the UTF-8 text. An ASCII letter is one byte, so the
  byte after it is a colon exactly if the next character is.
\<close>

definition has_windows_prefix :: "code_point list \<Rightarrow> bool" where
  "has_windows_prefix name =
     ((case name of a # b # _ \<Rightarrow> is_ascii_alphabetic a \<and> b = COLON | _ \<Rightarrow> False) \<or>
      (case name of a # b # _ \<Rightarrow> a = BACKSLASH \<and> b = BACKSLASH | _ \<Rightarrow> False))"


section \<open>Paths of the standard library\<close>

datatype platform = Unix | Windows

text \<open>
  \<open>PathBuf::push\<close> with an argument free of separators, as documented: on Windows an argument
  with a drive prefix replaces the path; otherwise it is appended, after a separator unless the
  path is empty or, on Windows, a bare drive.
\<close>

definition starts_with_drive :: "code_point list \<Rightarrow> bool" where
  "starts_with_drive path = (case path of a # b # _ \<Rightarrow> is_ascii_alphabetic a \<and> b = COLON | _ \<Rightarrow> False)"

definition main_separator :: "platform \<Rightarrow> code_point" where
  "main_separator platform = (case platform of Unix \<Rightarrow> SLASH | Windows \<Rightarrow> BACKSLASH)"

definition PathBuf_push :: "platform \<Rightarrow> code_point list \<Rightarrow> code_point list \<Rightarrow> code_point list" where
  "PathBuf_push platform self part =
     (if platform = Windows \<and> starts_with_drive part then part
      else if self = [] \<or> platform = Windows \<and> starts_with_drive self \<and> length self = 2 then self @ part
      else self @ main_separator platform # part)"

text \<open>The loop of \<open>safe_archive_name\<close>; \<open>None\<close> is the return on a parent component.\<close>

fun normalize_parts :: "platform \<Rightarrow> code_point list \<Rightarrow> code_point list list \<Rightarrow> code_point list option" where
  "normalize_parts platform normalized [] = Some normalized"
| "normalize_parts platform normalized (part # parts) =
     (if part = [] \<or> part = [DOT] then normalize_parts platform normalized parts
      else if part = [DOT, DOT] then None
      else normalize_parts platform (PathBuf_push platform normalized part) parts)"

definition safe_archive_name :: "platform \<Rightarrow> code_point list \<Rightarrow> code_point list r7z_result" where
  "safe_archive_name platform name =
     (if name = [] \<or> 0 \<in> set name \<or> is_separator (hd name) \<or> has_windows_prefix name \<or>
         has_parent_component name
      then Err (UnsafePath name)
      else
        (case normalize_parts platform [] (split_on is_separator name) of
           None \<Rightarrow> Err (UnsafePath name)
         | Some normalized \<Rightarrow> if normalized = [] then Err (UnsafePath name) else Ok normalized))"


section \<open>Descriptions of entries\<close>

record ArchiveEntryInfo =
  ai_index :: nat
  ai_name :: "code_point list"
  ai_raw_name :: "RawEntryName option"
  ai_safe_name :: "code_point list option"
  ai_entry_type :: EntryType

fun ok :: "('e, 'a) result \<Rightarrow> 'a option" where
  "ok (Ok x) = Some x"
| "ok (Err e) = None"

definition ArchiveEntryInfo_from_metadata :: "platform \<Rightarrow> EntryMetadata \<Rightarrow> EntryType \<Rightarrow> ArchiveEntryInfo" where
  "ArchiveEntryInfo_from_metadata platform md etype =
     (let name = EntryMetadata_name md; safe_name = ok (safe_archive_name platform name) in
      \<lparr>ai_index = em_index md, ai_name = name, ai_raw_name = em_name md, ai_safe_name = safe_name,
       ai_entry_type = etype\<rparr>)"

definition ArchiveEntryInfo_from_entry :: "platform \<Rightarrow> 's Entry \<Rightarrow> ArchiveEntryInfo" where
  "ArchiveEntryInfo_from_entry platform entry =
     ArchiveEntryInfo_from_metadata platform (ent_metadata entry) (EntryKind_entry_type (ent_kind entry))"

definition ai_is_file :: "ArchiveEntryInfo \<Rightarrow> bool" where
  "ai_is_file self = (ai_entry_type self \<in> {ET_File, ET_EmptyFile, ET_Symlink, ET_EmptySymlink})"

definition ai_has_data_stream :: "ArchiveEntryInfo \<Rightarrow> bool" where
  "ai_has_data_stream self = (ai_entry_type self \<in> {ET_File, ET_Symlink})"

definition ai_is_directory :: "ArchiveEntryInfo \<Rightarrow> bool" where
  "ai_is_directory self = (ai_entry_type self = ET_Directory)"

definition ai_is_anti :: "ArchiveEntryInfo \<Rightarrow> bool" where
  "ai_is_anti self = (ai_entry_type self = ET_Anti)"

definition ai_safe_path :: "ArchiveEntryInfo \<Rightarrow> code_point list option" where
  "ai_safe_path self = ai_safe_name self"

text \<open>The iterator \<open>ArchiveEntries\<close> wraps the entry iterator.\<close>

definition ArchiveEntries_nth :: "platform \<Rightarrow> Entries \<Rightarrow> nat \<Rightarrow> ArchiveEntryInfo option \<times> Entries" where
  "ArchiveEntries_nth platform self n =
     (case Entries_nth self n of (entry, self) \<Rightarrow> (map_option (ArchiveEntryInfo_from_entry platform) entry, self))"

definition ArchiveEntries_next :: "platform \<Rightarrow> Entries \<Rightarrow> ArchiveEntryInfo option \<times> Entries" where
  "ArchiveEntries_next platform self = ArchiveEntries_nth platform self 0"

text \<open>\<open>Archive::entry\<close> and the functions on it; the archive is its file table and file count.\<close>

definition Archive_entry :: "platform \<Rightarrow> FilesInfo option \<Rightarrow> nat \<Rightarrow> nat \<Rightarrow> ArchiveEntryInfo option" where
  "Archive_entry platform files count index =
     map_option (ArchiveEntryInfo_from_entry platform) (fst (Entries_nth (Entries_new files count) index))"

definition Archive_safe_name :: "platform \<Rightarrow> FilesInfo option \<Rightarrow> nat \<Rightarrow> nat \<Rightarrow> code_point list r7z_result" where
  "Archive_safe_name platform files count index =
     and_then (ok_or Parse (Archive_entry platform files count index)) (\<lambda>entry.
       safe_archive_name platform (ai_name entry))"

definition Archive_enclosed_name :: "platform \<Rightarrow> FilesInfo option \<Rightarrow> nat \<Rightarrow> nat \<Rightarrow> code_point list option" where
  "Archive_enclosed_name platform files count index = ok (Archive_safe_name platform files count index)"

text \<open>\<open>Iterator::find\<close> on the entries.\<close>

lemma ArchiveEntries_next_less:
  "ArchiveEntries_next platform self = (Some entry, self') \<Longrightarrow> Entries_len self' < Entries_len self"
  by (auto simp: ArchiveEntries_next_def ArchiveEntries_nth_def Entries_next_def [symmetric] split: prod.splits
      dest: Entries_next_less)

function find_entry :: "platform \<Rightarrow> (ArchiveEntryInfo \<Rightarrow> bool) \<Rightarrow> Entries \<Rightarrow> ArchiveEntryInfo option" where
  "find_entry platform p self =
     (case ArchiveEntries_next platform self of
        (None, _) \<Rightarrow> None
      | (Some entry, self) \<Rightarrow> if p entry then Some entry else find_entry platform p self)"
  by pat_completeness auto
termination
  by (relation "measure (\<lambda>(_, _, self). Entries_len self)") (auto dest: ArchiveEntries_next_less [OF sym])

declare find_entry.simps [simp del]

definition entry_index_by_name :: "platform \<Rightarrow> FilesInfo option \<Rightarrow> nat \<Rightarrow> code_point list \<Rightarrow> nat r7z_result" where
  "entry_index_by_name platform files count name =
     (case find_entry platform (\<lambda>entry. ai_name entry = name) (Entries_new files count) of
        Some entry \<Rightarrow> Ok (ai_index entry)
      | None \<Rightarrow>
          (case ok (safe_archive_name platform name) of
             Some requested \<Rightarrow>
               (case find_entry platform (\<lambda>entry. ai_safe_name entry = Some requested) (Entries_new files count) of
                  Some entry \<Rightarrow> Ok (ai_index entry)
                | None \<Rightarrow> Err (EntryNotFound name))
           | None \<Rightarrow> Err (EntryNotFound name)))"


text \<open>The lookup is the first hit in the list of entries.\<close>

lemma find_entry_find:
  "entries_valid m self \<Longrightarrow>
   find_entry platform p self = List.find p (map (ArchiveEntryInfo_from_entry platform) (entry_items self))"
proof (induction "entry_items self" arbitrary: self)
  case Nil
  then obtain s' where "Entries_next self = (None, s')" using ec.step_end [of m self] by auto
  then show ?case
    using Nil(1) by (simp add: find_entry.simps [of _ _ self] ArchiveEntries_next_def ArchiveEntries_nth_def
        Entries_next_def [symmetric])
next
  case (Cons x xs)
  then obtain s' where "Entries_next self = (Some x, s')" "entries_valid m s'" "entry_items s' = xs"
    using ec.step_item [of m self x xs] by auto
  with Cons.hyps(1) [of s'] Cons.hyps(2) [symmetric] show ?case
    by (simp add: find_entry.simps [of _ _ self] ArchiveEntries_next_def ArchiveEntries_nth_def
        Entries_next_def [symmetric])
qed


section \<open>What a safe name is\<close>

text \<open>The parts of a name that count.\<close>

definition name_parts :: "code_point list \<Rightarrow> code_point list list" where
  "name_parts name = filter (\<lambda>part. part \<noteq> [] \<and> part \<noteq> [DOT]) (split_on is_separator name)"

text \<open>
  Going from a directory along components: a parent component leaves a directory.
\<close>

fun walk :: "code_point list list \<Rightarrow> code_point list list \<Rightarrow> code_point list list" where
  "walk dir [] = dir"
| "walk dir (c # cs) =
     (if c = [] \<or> c = [DOT] then walk dir cs
      else if c = [DOT, DOT] then walk (butlast dir) cs
      else walk (dir @ [c]) cs)"

text \<open>
  How a path is resolved from a directory, by the components the standard library splits
  it into: those of a rooted path start at the root, and on Windows a path that begins with a drive
  does not start at the directory at all (\<open>None\<close>).
\<close>

definition path_separator :: "platform \<Rightarrow> code_point \<Rightarrow> bool" where
  "path_separator platform c = (case platform of Unix \<Rightarrow> c = SLASH | Windows \<Rightarrow> is_separator c)"

definition resolve :: "platform \<Rightarrow> code_point list list \<Rightarrow> code_point list \<Rightarrow> code_point list list option" where
  "resolve platform dir path =
     (if platform = Windows \<and> starts_with_drive path then None
      else Some (walk (if path \<noteq> [] \<and> path_separator platform (hd path) then [] else dir)
        (split_on (path_separator platform) path)))"

lemma split_on_nonempty [simp]: "split_on p xs \<noteq> []"
  by (induction xs) (auto split: list.splits)

lemma split_on_free: "\<forall>x \<in> set xs. \<not> p x \<Longrightarrow> split_on p xs = [xs]"
  by (induction xs) auto

lemma split_on_append: "p x \<Longrightarrow> split_on p (xs @ x # ys) = split_on p xs @ split_on p ys"
proof (induction xs)
  case (Cons a xs)
  then show ?case by (cases "split_on p xs") auto
qed simp

lemma split_on_parts: "part \<in> set (split_on p xs) \<Longrightarrow> x \<in> set part \<Longrightarrow> \<not> p x \<and> x \<in> set xs"
proof (induction xs arbitrary: part)
  case (Cons a xs)
  show ?case
  proof (cases "p a")
    case True
    then show ?thesis using Cons by auto
  next
    case False
    obtain w ws where w: "split_on p xs = w # ws" by (cases "split_on p xs") auto
    then show ?thesis using Cons.prems Cons.IH [of w] Cons.IH [of part] False by (auto simp: w)
  qed
qed simp

lemma normalize_parts_fold:
  "normalize_parts platform acc parts =
     (if [DOT, DOT] \<in> set parts then None
      else Some (foldl (PathBuf_push platform) acc (filter (\<lambda>part. part \<noteq> [] \<and> part \<noteq> [DOT]) parts)))"
  by (induction parts arbitrary: acc) auto

lemma main_path_separator [simp]: "path_separator platform (main_separator platform)"
  by (cases platform) (simp_all add: path_separator_def main_separator_def is_separator_def)

lemma drive_stays: "acc \<noteq> [] \<Longrightarrow> starts_with_drive (acc @ BACKSLASH # part) = starts_with_drive acc"
  by (cases acc; cases "tl acc") (simp_all add: starts_with_drive_def)

lemma drive_pushed:
  "starts_with_drive acc \<Longrightarrow> starts_with_drive (foldl (PathBuf_push Windows) acc parts)"
proof (induction parts arbitrary: acc)
  case (Cons part parts)
  have "starts_with_drive (PathBuf_push Windows acc part)"
    using Cons.prems by (auto simp: PathBuf_push_def main_separator_def starts_with_drive_def split: list.splits)
  then show ?case using Cons.IH by simp
qed simp

lemma drive_part_pushed:
  "list_ex starts_with_drive parts \<Longrightarrow> starts_with_drive (foldl (PathBuf_push Windows) acc parts)"
proof (induction parts arbitrary: acc)
  case (Cons part parts)
  have "PathBuf_push Windows acc part = part" if "starts_with_drive part"
    using that by (simp add: PathBuf_push_def)
  then show ?case using Cons by (cases "starts_with_drive part") (auto intro: drive_pushed)
qed simp

text \<open>The parts come back from the path they are pushed to.\<close>

definition drive_free :: "platform \<Rightarrow> code_point list \<Rightarrow> bool" where
  "drive_free platform part \<longleftrightarrow> \<not> (platform = Windows \<and> starts_with_drive part)"

lemma push_drive_free:
  assumes "drive_free platform acc" and "drive_free platform part" and "acc \<noteq> []"
  shows "PathBuf_push platform acc part = acc @ main_separator platform # part \<and>
    drive_free platform (acc @ main_separator platform # part)"
  using assms by (cases platform) (auto simp: PathBuf_push_def drive_free_def main_separator_def drive_stays)

lemma pushed_parts:
  assumes "\<forall>part \<in> set parts. drive_free platform part \<and> (\<forall>c \<in> set part. \<not> path_separator platform c)"
    and "acc \<noteq> []" and "drive_free platform acc"
  defines "path \<equiv> foldl (PathBuf_push platform) acc parts"
  shows "split_on (path_separator platform) path = split_on (path_separator platform) acc @ parts \<and>
    path \<noteq> [] \<and> hd path = hd acc \<and> drive_free platform path"
  using assms(1-3) unfolding path_def
proof (induction parts arbitrary: acc)
  case (Cons part parts)
  note push = push_drive_free [of platform acc part]
  have "split_on (path_separator platform) part = [part]"
    using Cons.prems(1) by (intro split_on_free) simp
  then show ?case
    using Cons.IH [of "acc @ main_separator platform # part"] Cons.prems push by (simp add: split_on_append)
qed simp

lemma walk_plain:
  "\<forall>c \<in> set cs. c \<noteq> [] \<and> c \<noteq> [DOT] \<and> c \<noteq> [DOT, DOT] \<Longrightarrow> walk dir cs = dir @ cs"
  by (induction cs arbitrary: dir) auto

definition plain_part :: "code_point list \<Rightarrow> bool" where
  "plain_part c \<longleftrightarrow> c \<noteq> [] \<and> c \<noteq> [DOT] \<and> c \<noteq> [DOT, DOT] \<and> 0 \<notin> set c \<and> SLASH \<notin> set c \<and> BACKSLASH \<notin> set c"

lemma name_parts_plain:
  assumes "0 \<notin> set name" and "[DOT, DOT] \<notin> set (split_on is_separator name)"
  shows "list_all plain_part (name_parts name)"
  using assms split_on_parts [of _ is_separator name]
  by (fastforce simp: list_all_iff name_parts_def plain_part_def is_separator_def)

lemma has_parent_component_iff: "has_parent_component name \<longleftrightarrow> [DOT, DOT] \<in> set (split_on is_separator name)"
  by (simp add: has_parent_component_def list_ex_iff)

lemma plain_part_separator: "plain_part part \<Longrightarrow> c \<in> set part \<Longrightarrow> \<not> path_separator platform c"
  by (auto simp: plain_part_def path_separator_def is_separator_def split: platform.splits)

lemma safe_path_resolves:
  assumes "list_all plain_part (part # parts)" and "list_all (drive_free platform) (part # parts)"
  defines "path \<equiv> foldl (PathBuf_push platform) [] (part # parts)"
  shows "path \<noteq> [] \<and> \<not> path_separator platform (hd path) \<and> resolve platform dir path = Some (dir @ part # parts)"
proof -
  have plain: "part \<noteq> []" "\<forall>c \<in> set part. \<not> path_separator platform c"
    using assms(1) plain_part_separator by (auto simp: plain_part_def)
  then have part: "split_on (path_separator platform) part = [part]" "\<not> path_separator platform (hd part)"
    by (auto intro: split_on_free)
  have path: "path = foldl (PathBuf_push platform) part parts"
    using assms(2) by (simp add: path_def PathBuf_push_def drive_free_def)
  have "split_on (path_separator platform) path = part # parts \<and> path \<noteq> [] \<and> hd path = hd part \<and>
      drive_free platform path"
    unfolding path using pushed_parts [of parts platform part] assms(1,2) plain(1) part(1) plain_part_separator
    by (auto simp: list_all_iff)
  moreover have "walk dir (part # parts) = dir @ part # parts" for dir
    using assms(1) by (intro walk_plain) (auto simp: list_all_iff plain_part_def)
  ultimately show ?thesis using part(2) by (simp add: resolve_def drive_free_def del: walk.simps)
qed

text \<open>A drive in a later part replaces the path before it: the path leads to that drive.\<close>

lemma drive_path_leaves:
  assumes "list_all plain_part parts" and "list_ex starts_with_drive parts"
  defines "path \<equiv> foldl (PathBuf_push Windows) [] parts"
  shows "path \<noteq> [] \<and> \<not> path_separator Windows (hd path) \<and> resolve Windows dir path = None"
proof -
  have "starts_with_drive path" using drive_part_pushed [OF assms(2)] by (simp add: path_def)
  moreover from this have "path \<noteq> [] \<and> \<not> path_separator Windows (hd path)"
    by (auto simp: starts_with_drive_def path_separator_def is_separator_def is_ascii_alphabetic_def
        split: list.splits)
  ultimately show ?thesis by (simp add: resolve_def)
qed

text \<open>
  C9. What an accepted name becomes. No part of the name is empty, a dot, a parent, or holds a
  separator or a null character, and there is at least one part. The path made from the name is not rooted.
  On Unix, resolving it from any directory descends from that directory by the parts of the name
  and nothing else. On Windows the same holds exactly if no part begins with a drive: an
  accepted name with such a part gives a path that leaves the directory for that drive.
  A refused name is reported as unsafe, and it is empty, absolute, begins with a drive or
  share, contains a null character or a parent component, or has no part.
\<close>

theorem safe_name_stays_below:
  "case safe_archive_name platform name of
     Ok path \<Rightarrow>
       path \<noteq> [] \<and> \<not> path_separator platform (hd path) \<and>
       resolve platform dir path =
         (if platform = Windows \<and> list_ex starts_with_drive (name_parts name) then None
          else Some (dir @ name_parts name)) \<and>
       name_parts name \<noteq> [] \<and> list_all plain_part (name_parts name)
   | Err e \<Rightarrow>
       e = UnsafePath name \<and>
       (name = [] \<or> 0 \<in> set name \<or> is_separator (hd name) \<or> has_windows_prefix name \<or>
        [DOT, DOT] \<in> set (split_on is_separator name) \<or> name_parts name = [])"
proof (cases "name = [] \<or> 0 \<in> set name \<or> is_separator (hd name) \<or> has_windows_prefix name \<or>
    has_parent_component name")
  case True
  then show ?thesis by (auto simp: safe_archive_name_def has_parent_component_iff)
next
  case False
  then have plain: "list_all plain_part (name_parts name)"
    by (intro name_parts_plain) (simp_all add: has_parent_component_iff)
  let ?path = "foldl (PathBuf_push platform) [] (name_parts name)"
  have result: "safe_archive_name platform name = (if ?path = [] then Err (UnsafePath name) else Ok ?path)"
    using False by (simp add: safe_archive_name_def normalize_parts_fold name_parts_def has_parent_component_iff)
  show ?thesis
  proof (cases "name_parts name")
    case Nil
    then show ?thesis by (simp add: result)
  next
    case (Cons part parts)
    show ?thesis
    proof (cases "platform = Windows \<and> list_ex starts_with_drive (name_parts name)")
      case True
      then have windows: "platform = Windows" by simp
      show ?thesis
        using drive_path_leaves [OF plain, of dir] True plain Cons result unfolding windows
        by (simp del: foldl_Cons)
    next
      case no_drive: False
      then have "list_all (drive_free platform) (name_parts name)"
        by (auto simp: list_all_iff list_ex_iff drive_free_def)
      then show ?thesis using safe_path_resolves [of part parts platform dir] plain Cons no_drive
        by (simp add: result del: foldl_Cons)
    qed
  qed
qed

text \<open>
  The drive prefix is looked for at the start of the name only. A name that begins with a dot component
  brings a drive to the front of the path, and on Windows a drive in any later part replaces
  all of the path before it.
\<close>

lemma drive_after_dot_accepted:
  "safe_archive_name Windows [DOT, SLASH, 0x43, COLON, SLASH, 0x78] = Ok [0x43, COLON, 0x78]"
  "safe_archive_name Windows [0x61, SLASH, 0x43, COLON, SLASH, 0x78] = Ok [0x43, COLON, 0x78]"
  by (simp_all add: safe_archive_name_def is_separator_def has_windows_prefix_def has_parent_component_def
      PathBuf_push_def starts_with_drive_def is_ascii_alphabetic_def word_le_nat_alt main_separator_def)

end
