(* ===== verification/Archive_Source.thy ===== *)
theory Archive_Source
  imports Active_Folder
begin

text \<open>
  \<^verbatim>\<open>src/src/archive_source.rs\<close>: where the bytes of an archive come from. A source is a byte
  string, a file, a seekable reader or a sequence of volumes; reads are positioned, and the
  signature of an archive is searched in chunks. With it the signature header of
  \<^verbatim>\<open>src/src/headers.rs\<close> and the search in a byte string of \<^verbatim>\<open>src/src/archive.rs\<close>.

  The operating system is a parameter, the record \<open>file_env\<close>: a positioned read of an open file, and the
  lock, seek and read of the seekable reader, each with the state \<open>'w\<close> of the world. A read that keeps
  being interrupted does not return, which is \<open>None\<close>. The checksum is a function \<open>crc\<close>.
\<close>

section \<open>The signature header\<close>

record SignatureHeader =
  sh_signature :: bytes
  sh_major_version :: u8
  sh_minor_version :: u8
  sh_start_header_crc :: u32
  sh_next_header_offset :: u64
  sh_next_header_size :: u64
  sh_next_header_crc :: u32

definition SignatureHeader_parse :: "bytes \<Rightarrow> SignatureHeader iresult" where
  "SignatureHeader_parse input =
     (if length input < 32 then Err (Error input Eof)
      else Ok (drop 32 input,
        \<lparr>sh_signature = take 6 input, sh_major_version = input ! 6, sh_minor_version = input ! 7,
         sh_start_header_crc = from_le_bytes (take 4 (drop 8 input)),
         sh_next_header_offset = from_le_bytes (take 8 (drop 12 input)),
         sh_next_header_size = from_le_bytes (take 8 (drop 20 input)),
         sh_next_header_crc = from_le_bytes (take 4 (drop 28 input))\<rparr>))"

definition validate_start_header_crc :: "(bytes \<Rightarrow> u32) \<Rightarrow> SignatureHeader \<Rightarrow> unit r7z_result" where
  "validate_start_header_crc crc self =
     (if crc (to_le_bytes 8 (sh_next_header_offset self) @ to_le_bytes 8 (sh_next_header_size self) @
              to_le_bytes 4 (sh_next_header_crc self)) = sh_start_header_crc self
      then Ok () else Err Crc)"

definition SEVEN_Z_MAGIC :: bytes where
  "SEVEN_Z_MAGIC = [0x37, 0x7A, 0xBC, 0xAF, 0x27, 0x1C]"

text \<open>\<open>signature_bytes\<close> of \<^verbatim>\<open>src/src/write/encode.rs\<close>.\<close>

definition signature_bytes :: "(bytes \<Rightarrow> u32) \<Rightarrow> u64 \<Rightarrow> bytes \<Rightarrow> bytes" where
  "signature_bytes crc next_header_offset next_header =
     (let next_header_size = of_nat (length next_header) :: u64;
          next_header_crc = crc next_header;
          start_header = to_le_bytes 8 next_header_offset @ to_le_bytes 8 next_header_size @
            to_le_bytes 4 next_header_crc;
          start_header_crc = crc start_header
      in [0x37, 0x7A, 0xBC, 0xAF, 0x27, 0x1C] @ [0x00] @ [0x04] @ to_le_bytes 4 start_header_crc @
         to_le_bytes 8 next_header_offset @ to_le_bytes 8 next_header_size @ to_le_bytes 4 next_header_crc)"

definition find_magic_offsets :: "bytes \<Rightarrow> nat list" where
  "find_magic_offsets haystack =
     filter (\<lambda>idx. take 6 (drop idx haystack) = SEVEN_Z_MAGIC) [0..<length haystack - 5]"

text \<open>The loop and the end of \<open>find_signature_in_slice\<close>.\<close>

fun slice_candidates :: "(bytes \<Rightarrow> u32) \<Rightarrow> bytes \<Rightarrow> nat list \<Rightarrow> bool \<Rightarrow> nat r7z_result" where
  "slice_candidates crc data [] saw_bad_signature = (if saw_bad_signature then Err Crc else Err Parse)"
| "slice_candidates crc data (offset # offsets) saw_bad_signature =
     (case get_range data offset (min (offset + 32) (usize_limit - 1)) of
        None \<Rightarrow> slice_candidates crc data offsets saw_bad_signature
      | Some signature \<Rightarrow>
          if length signature < 32 then slice_candidates crc data offsets saw_bad_signature
          else
            (case SignatureHeader_parse signature of
               Err _ \<Rightarrow> Err Parse
             | Ok (_, signature) \<Rightarrow>
                 (case validate_start_header_crc crc signature of
                    Ok _ \<Rightarrow> Ok offset
                  | Err e \<Rightarrow> if e = Crc then slice_candidates crc data offsets True else Err e)))"

definition find_signature_in_slice :: "(bytes \<Rightarrow> u32) \<Rightarrow> bytes \<Rightarrow> nat r7z_result" where
  "find_signature_in_slice crc data = slice_candidates crc data (find_magic_offsets data) False"


section \<open>Positioned reads\<close>

record ('w, 'f) file_env =
  env_read_at :: "'w \<Rightarrow> 'f \<Rightarrow> u64 \<Rightarrow> nat \<Rightarrow> bytes io_result \<times> 'w"
  env_lock :: "'w \<Rightarrow> bool"
  env_seek :: "'w \<Rightarrow> u64 \<Rightarrow> unit io_result \<times> 'w"
  env_read_exact :: "'w \<Rightarrow> nat \<Rightarrow> bytes io_result \<times> 'w"

text \<open>\<open>PositionedFile::read_exact_at\<close> on Unix and Windows; \<open>filled\<close> is the part of the buffer that is done.\<close>

partial_function (option) positioned_read :: "('w, 'f) file_env \<Rightarrow> 'w \<Rightarrow> 'f \<Rightarrow> u64 \<Rightarrow> nat \<Rightarrow> bytes \<Rightarrow>
    (bytes io_result \<times> 'w) option" where
  "positioned_read E w f offset n filled =
     (if n = 0 then Some (Ok filled, w)
      else
        case env_read_at E w f offset n of
          (Err e, w) \<Rightarrow> if e = IoKind Interrupted then positioned_read E w f offset n filled else Some (Err e, w)
        | (Ok bs, w) \<Rightarrow>
            if bs = [] then Some (Err (IoKind UnexpectedEof), w)
            else
              (case u64_checked_add offset (of_nat (length bs)) of
                 None \<Rightarrow> Some (Err (IoKind OtherKind), w)
               | Some offset \<Rightarrow> positioned_read E w f offset (n - length bs) (filled @ bs)))"

record 'f VolumeReader =
  vr_file :: 'f
  vr_start :: u64
  vr_end :: u64

datatype 'f ArchiveSource =
    Source_Bytes Bytes
  | Source_File 'f u64
  | Source_Seekable u64
  | Source_Volumes "'f VolumeReader list" u64

definition ArchiveSource_from_bytes :: "Bytes \<Rightarrow> 'f ArchiveSource" where
  "ArchiveSource_from_bytes bytes = Source_Bytes bytes"

definition source_len :: "'f ArchiveSource \<Rightarrow> u64 r7z_result" where
  "source_len self =
     (case self of
        Source_Bytes bytes \<Rightarrow>
          if length (b_data bytes) < usize_limit then Ok (of_nat (length (b_data bytes))) else Err Parse
      | Source_File _ len \<Rightarrow> Ok len
      | Source_Seekable len \<Rightarrow> Ok len
      | Source_Volumes _ len \<Rightarrow> Ok len)"

text \<open>The loop over the volumes.\<close>

partial_function (option) volumes_read :: "('w, 'f) file_env \<Rightarrow> 'f VolumeReader list \<Rightarrow> u64 \<Rightarrow> nat \<Rightarrow> bytes \<Rightarrow> 'w \<Rightarrow>
    (bytes r7z_result \<times> 'w) option" where
  "volumes_read E readers logical_offset n filled w =
     (if n = 0 then Some (Ok filled, w)
      else
        case List.find (\<lambda>v. logical_offset \<ge> vr_start v \<and> logical_offset < vr_end v) readers of
          None \<Rightarrow> Some (Err Parse, w)
        | Some volume \<Rightarrow>
            let volume_offset = logical_offset - vr_start volume;
                available = vr_end volume - logical_offset;
                k = min (unat available) n
            in
            Option.bind (positioned_read E w (vr_file volume) volume_offset k []) (\<lambda>(part, w).
              case part of
                Err e \<Rightarrow> Some (Err (R7zError_from_io e), w)
              | Ok part \<Rightarrow>
                  (case u64_checked_add logical_offset (of_nat k) of
                     None \<Rightarrow> Some (Err Parse, w)
                   | Some logical_offset \<Rightarrow> volumes_read E readers logical_offset (n - k) (filled @ part) w)))"

text \<open>\<open>read_exact_at\<close> into a buffer of \<open>n\<close> bytes.\<close>

definition read_exact_at :: "('w, 'f) file_env \<Rightarrow> 'f ArchiveSource \<Rightarrow> u64 \<Rightarrow> nat \<Rightarrow> 'w \<Rightarrow>
    (bytes r7z_result \<times> 'w) option" where
  "read_exact_at E self offset n w =
     (if n = 0 then Some (Ok [], w)
      else
        case (and_then (ok_or Parse (if n < usize_limit then Some (of_nat n) else None)) (\<lambda>n.
              and_then (ok_or Parse (u64_checked_add offset n)) (\<lambda>after.
              and_then (source_len self) (\<lambda>len. if after > len then Err Parse else Ok after)))) of
          Err e \<Rightarrow> Some (Err e, w)
        | Ok after \<Rightarrow>
            (case self of
               Source_Bytes bytes \<Rightarrow>
                 Some (ok_or Parse (get_range (b_data bytes) (unat offset) (unat after)), w)
             | Source_File f _ \<Rightarrow>
                 map_option (\<lambda>(result, w). (map_err Io result, w)) (positioned_read E w f offset n [])
             | Source_Seekable _ \<Rightarrow>
                 if \<not> env_lock E w then Some (Err Parse, w)
                 else
                   (case env_seek E w offset of
                      (Err e, w) \<Rightarrow> Some (Err (R7zError_from_io e), w)
                    | (Ok _, w) \<Rightarrow>
                        (case env_read_exact E w n of
                           (result, w) \<Rightarrow> Some (map_err R7zError_from_io result, w)))
             | Source_Volumes readers _ \<Rightarrow> volumes_read E readers offset n [] w))"

definition read_range_to_vec :: "('w, 'f) file_env \<Rightarrow> 'f ArchiveSource \<Rightarrow> ByteRange \<Rightarrow> u64 \<Rightarrow> 'w \<Rightarrow>
    (bytes r7z_result \<times> 'w) option" where
  "read_range_to_vec E self rng limit w =
     (let len = ByteRange_len rng in
      if len > limit then Some (Err (LimitExceeded ''metadata''), w)
      else read_exact_at E self (br_start rng) (unat len) w)"

text \<open>A reader of a range; its state is the position, the end and the world.\<close>

record ArchiveRangeReader =
  rr_pos :: u64
  rr_end :: u64

definition range_reader :: "'f ArchiveSource \<Rightarrow> ByteRange \<Rightarrow> ArchiveRangeReader r7z_result" where
  "range_reader self rng =
     and_then (source_len self) (\<lambda>len.
       if br_end rng > len then Err Parse else Ok \<lparr>rr_pos = br_start rng, rr_end = br_end rng\<rparr>)"

definition packed_input :: "'f ArchiveSource \<Rightarrow> ByteRange \<Rightarrow> (ArchiveRangeReader \<times> nat) r7z_result" where
  "packed_input self rng =
     and_then (ok_or Parse (usize_try_from (ByteRange_len rng))) (\<lambda>sz.
     and_then (range_reader self rng) (\<lambda>reader. Ok (reader, sz)))"

text \<open>\<open>std::io::Error::other\<close> keeps the error of the crate as its payload.\<close>

definition ArchiveRangeReader_read :: "('w, 'f) file_env \<Rightarrow> 'f ArchiveSource \<Rightarrow> ArchiveRangeReader \<times> 'w \<Rightarrow> nat \<Rightarrow>
    (bytes io_result \<times> ArchiveRangeReader \<times> 'w) option" where
  "ArchiveRangeReader_read E source state buf =
     (case state of (self, w) \<Rightarrow>
        if rr_pos self \<ge> rr_end self \<or> buf = 0 then Some (Ok [], self, w)
        else
          let remaining = rr_end self - rr_pos self; n = min (unat remaining) buf in
          Option.bind (read_exact_at E source (rr_pos self) n w) (\<lambda>(result, w).
            case result of
              Err e \<Rightarrow> Some (Err (IoWrapped e), self, w)
            | Ok bs \<Rightarrow> Some (Ok bs, self\<lparr>rr_pos := rr_pos self + of_nat n\<rparr>, w)))"


section \<open>Searching the signature\<close>

datatype SignatureCandidate = Valid SignatureHeader | BadCrc | Candidate_Incomplete

definition signature_at :: "('w, 'f) file_env \<Rightarrow> (bytes \<Rightarrow> u32) \<Rightarrow> 'f ArchiveSource \<Rightarrow> u64 \<Rightarrow> 'w \<Rightarrow>
    (SignatureCandidate r7z_result \<times> 'w) option" where
  "signature_at E crc self offset w =
     (case (and_then (ok_or Parse (u64_checked_add offset 32)) (\<lambda>after.
            and_then (source_len self) (\<lambda>len. Ok (after > len)))) of
        Err e \<Rightarrow> Some (Err e, w)
      | Ok True \<Rightarrow> Some (Ok Candidate_Incomplete, w)
      | Ok False \<Rightarrow>
          map_option (\<lambda>(signature, w).
              (and_then signature (\<lambda>signature.
               and_then (map_err (\<lambda>_. Parse) (SignatureHeader_parse signature)) (\<lambda>(_, signature).
                 if sh_signature signature \<noteq> SEVEN_Z_MAGIC then Ok Candidate_Incomplete
                 else
                   (case validate_start_header_crc crc signature of
                      Ok _ \<Rightarrow> Ok (Valid signature)
                    | Err e \<Rightarrow> if e = Crc then Ok BadCrc else Err e))), w))
            (read_exact_at E self offset 32 w))"

type_synonym found = "(u64 \<times> SignatureHeader) option \<times> bool"

text \<open>The inner loop: the candidates of one chunk.\<close>

fun try_candidates :: "('w, 'f) file_env \<Rightarrow> (bytes \<Rightarrow> u32) \<Rightarrow> 'f ArchiveSource \<Rightarrow> u64 \<Rightarrow> nat \<Rightarrow> nat list \<Rightarrow> bool \<Rightarrow> 'w \<Rightarrow>
    (found r7z_result \<times> 'w) option" where
  "try_candidates E crc self base search_start [] saw_bad w = Some (Ok (None, saw_bad), w)"
| "try_candidates E crc self base search_start (pos # positions) saw_bad w =
     (case (and_then (ok_or Parse (usize_checked_add search_start pos)) (\<lambda>pos.
            ok_or Parse (u64_checked_add base (of_nat pos)))) of
        Err e \<Rightarrow> Some (Err e, w)
      | Ok candidate \<Rightarrow>
          Option.bind (signature_at E crc self candidate w) (\<lambda>(outcome, w).
            case outcome of
              Err e \<Rightarrow> Some (Err e, w)
            | Ok (Valid signature) \<Rightarrow> Some (Ok (Some (candidate, signature), saw_bad), w)
            | Ok BadCrc \<Rightarrow> try_candidates E crc self base search_start positions True w
            | Ok Candidate_Incomplete \<Rightarrow> try_candidates E crc self base search_start positions saw_bad w))"

abbreviation SIGNATURE_SCAN_CHUNK :: nat where
  "SIGNATURE_SCAN_CHUNK \<equiv> 65536"

definition chunk_length :: "u64 \<Rightarrow> u64 \<Rightarrow> nat" where
  "chunk_length scan_len offset = min (unat (scan_len - offset)) SIGNATURE_SCAN_CHUNK"

lemma chunk_length_step:
  assumes "offset < scan_len" and "u64_checked_add offset (of_nat (chunk_length scan_len offset)) = Some offset'"
  shows "unat offset' = unat offset + chunk_length scan_len offset" "0 < chunk_length scan_len offset"
    "unat offset' \<le> unat scan_len"
proof -
  have sub: "unat (scan_len - offset) = unat scan_len - unat offset" and less: "unat offset < unat scan_len"
    using assms(1) by (simp_all add: unat_sub word_less_nat_alt word_le_nat_alt)
  then show "0 < chunk_length scan_len offset" by (simp add: chunk_length_def)
  have "chunk_length scan_len offset < usize_limit" by (simp add: chunk_length_def)
  then have "unat (of_nat (chunk_length scan_len offset) :: u64) = chunk_length scan_len offset"
    by (simp add: unat_of_nat)
  then show "unat offset' = unat offset + chunk_length scan_len offset"
    using assms(2) by (simp add: u64_checked_add_eq_Some)
  then show "unat offset' \<le> unat scan_len" using sub less by (simp add: chunk_length_def)
qed

lemma chunk_length_less:
  assumes "offset < scan_len" and "u64_checked_add offset (of_nat (chunk_length scan_len offset)) = Some offset'"
  shows "unat scan_len - unat offset' < unat scan_len - unat offset"
  using chunk_length_step [OF assms] by linarith

function signature_scan :: "('w, 'f) file_env \<Rightarrow> (bytes \<Rightarrow> u32) \<Rightarrow> 'f ArchiveSource \<Rightarrow> u64 \<Rightarrow> u64 \<Rightarrow> bytes \<Rightarrow> bool \<Rightarrow> 'w \<Rightarrow>
    (found r7z_result \<times> 'w) option" where
  "signature_scan E crc self scan_len offset carry saw_bad w =
     (if offset < scan_len then
        Option.bind (read_exact_at E self offset (chunk_length scan_len offset) w) (\<lambda>(chunk, w).
          case chunk of
            Err e \<Rightarrow> Some (Err e, w)
          | Ok chunk \<Rightarrow>
              let carry_len = length carry; carry = carry @ chunk; search_start = carry_len - 5 in
              (case u64_checked_sub offset (of_nat carry_len) of
                 None \<Rightarrow> Some (Err Parse, w)
               | Some base \<Rightarrow>
                   Option.bind (try_candidates E crc self base search_start
                       (find_magic_offsets (drop search_start carry)) saw_bad w) (\<lambda>(tried, w).
                     case tried of
                       Err e \<Rightarrow> Some (Err e, w)
                     | Ok (Some signature, saw_bad) \<Rightarrow> Some (Ok (Some signature, saw_bad), w)
                     | Ok (None, saw_bad) \<Rightarrow>
                         let carry = (if length carry \<ge> 5 then drop (length carry - 5) carry else carry) in
                         (case u64_checked_add offset (of_nat (chunk_length scan_len offset)) of
                            None \<Rightarrow> Some (Err Parse, w)
                          | Some offset \<Rightarrow> signature_scan E crc self scan_len offset carry saw_bad w))))
      else Some (Ok (None, saw_bad), w))"
  by pat_completeness auto
termination
  by (relation "measure (\<lambda>(E, crc, self, scan_len, offset, carry, saw_bad, w). unat scan_len - unat offset)")
     (auto dest: chunk_length_less)

declare signature_scan.simps [simp del]

definition find_signature :: "('w, 'f) file_env \<Rightarrow> (bytes \<Rightarrow> u32) \<Rightarrow> 'f ArchiveSource \<Rightarrow> u64 \<Rightarrow> 'w \<Rightarrow>
    ((u64 \<times> SignatureHeader) r7z_result \<times> 'w) option" where
  "find_signature E crc self limit w =
     (case source_len self of
        Err e \<Rightarrow> Some (Err e, w)
      | Ok len \<Rightarrow>
          map_option (\<lambda>(outcome, w).
              (and_then outcome (\<lambda>(found, saw_bad).
                 case found of
                   Some signature \<Rightarrow> Ok signature
                 | None \<Rightarrow>
                     if saw_bad then Err Crc
                     else if len > limit then Err (ResourceLimitExceeded ''signature scan'' limit)
                     else Err Parse), w))
            (signature_scan E crc self (min len limit) 0 [] False w))"

end
