(* ===== verification/Source_Laws.thy ===== *)
theory Source_Laws
  imports Archive_Source
begin

text \<open>
  What an archive source promises: whatever it is made of, it reads as one byte string, and the search
  in chunks finds the signature a search of the whole string finds.
\<close>

section \<open>Faithful files\<close>

text \<open>
  What a positioned read may return, by its documentation: a piece of the file at the offset; and
  what the seekable reader may: the bytes at the position it was set to.
\<close>

definition faithful :: "('w, 'f) file_env \<Rightarrow> ('f \<Rightarrow> bytes) \<Rightarrow> bytes \<Rightarrow> bool" where
  "faithful E content whole \<longleftrightarrow>
     (\<forall>w f off n bs w'. env_read_at E w f off n = (Ok bs, w') \<longrightarrow>
        length bs \<le> n \<and> bs = take (length bs) (drop (unat off) (content f))) \<and>
     (\<forall>w off w1 n bs w2. env_seek E w off = (Ok (), w1) \<longrightarrow> env_read_exact E w1 n = (Ok bs, w2) \<longrightarrow>
        bs = take n (drop (unat off) whole) \<and> length bs = n)"

text \<open>Files that do not fail: a read inside of the file delivers something.\<close>

definition reliable :: "('w, 'f) file_env \<Rightarrow> ('f \<Rightarrow> bytes) \<Rightarrow> bytes \<Rightarrow> bool" where
  "reliable E content whole \<longleftrightarrow>
     (\<forall>w f off n. 0 < n \<longrightarrow> unat off < length (content f) \<longrightarrow>
        (\<exists>bs w'. env_read_at E w f off n = (Ok bs, w') \<and> bs \<noteq> [])) \<and>
     (\<forall>w. env_lock E w) \<and>
     (\<forall>w off. \<exists>w'. env_seek E w off = (Ok (), w') \<and>
        (\<forall>n. unat off + n \<le> length whole \<longrightarrow> (\<exists>bs w''. env_read_exact E w' n = (Ok bs, w''))))"

lemma faithful_read:
  "faithful E content whole \<Longrightarrow> env_read_at E w f off n = (Ok bs, w') \<Longrightarrow>
   length bs \<le> n \<and> bs = take (length bs) (drop (unat off) (content f))"
  unfolding faithful_def by blast

lemma reliable_read:
  "reliable E content whole \<Longrightarrow> 0 < n \<Longrightarrow> unat off < length (content f) \<Longrightarrow>
   \<exists>bs w'. env_read_at E w f off n = (Ok bs, w') \<and> bs \<noteq> []"
  unfolding reliable_def by blast

lemma piece_fits:
  assumes "bs = take (length bs) (drop a xs)" and "bs \<noteq> []"
  shows "a + length bs \<le> length xs"
proof -
  have "length bs \<le> length xs - a" using arg_cong [OF assms(1), of length] by simp
  with assms(2) show ?thesis by (cases "length bs") auto
qed

lemma take_pieces:
  assumes "bs = take (length bs) (drop a xs)" and "length bs \<le> n"
  shows "bs @ take (n - length bs) (drop (a + length bs) xs) = take n (drop a xs)"
proof -
  have "take n (drop a xs) = take (length bs) (drop a xs) @ take (n - length bs) (drop (length bs) (drop a xs))"
    using assms(2) by (metis le_add_diff_inverse take_add)
  then show ?thesis using assms(1) by (simp add: add.commute)
qed

lemma unat_advance:
  "u64_checked_add a (of_nat k) = Some b \<Longrightarrow> k < usize_limit \<Longrightarrow> unat b = unat a + k"
  by (simp add: u64_checked_add_eq_Some unat_of_nat)

lemma advance_fits:
  assumes "unat (a :: u64) + k < usize_limit"
  shows "\<exists>b. u64_checked_add a (of_nat k) = Some b \<and> unat b = unat a + k"
  using assms unat_add_fits [of a "of_nat k"] by (auto simp: u64_checked_add_def unat_of_nat)

lemma positioned_read_content:
  fixes E :: "('w, 'f) file_env"
  assumes "faithful E content whole" and small: "\<And>f. length (content f) < usize_limit"
    and run: "positioned_read E w f off n filled = Some (Ok out, w')"
  shows "out = filled @ take n (drop (unat off) (content f)) \<and> (n = 0 \<or> unat off + n \<le> length (content f))"
proof -
  let ?P = "\<lambda>E' (w :: 'w) (f :: 'f) off n filled (y :: bytes io_result \<times> 'w). E' = E \<longrightarrow> (\<forall>out. fst y = Ok out \<longrightarrow>
      out = filled @ take n (drop (unat off) (content f)) \<and> (n = 0 \<or> unat off + n \<le> length (content f)))"
  have "?P E w f off n filled (Ok out, w')"
  proof (rule positioned_read.raw_induct [where P = ?P, OF _ run])
    fix run E' w f off n filled y
    assume IH: "\<And>E' w f off n filled y. run E' w f off n filled = Some y \<Longrightarrow> ?P E' w f off n filled y"
      and eq: "(if n = 0 then Some (Ok filled, w)
        else case env_read_at E' w f off n of
            (Err e, w) \<Rightarrow> if e = IoKind Interrupted then run E' w f off n filled else Some (Err e, w)
          | (Ok bs, w) \<Rightarrow>
              if bs = [] then Some (Err (IoKind UnexpectedEof), w)
              else (case u64_checked_add off (of_nat (length bs)) of
                   None \<Rightarrow> Some (Err (IoKind OtherKind), w)
                 | Some offset \<Rightarrow> run E' w f offset (n - length bs) (filled @ bs))) = Some y"
    show "?P E' w f off n filled y"
    proof (intro impI allI)
      fix out
      assume E: "E' = E" and ok: "fst y = Ok out"
      show "out = filled @ take n (drop (unat off) (content f)) \<and> (n = 0 \<or> unat off + n \<le> length (content f))"
      proof (cases "n = 0")
        case True
        then show ?thesis using eq ok by auto
      next
        case False
        obtain answer w1 where read: "env_read_at E w f off n = (answer, w1)" by (cases "env_read_at E w f off n")
        show ?thesis
        proof (cases answer)
          case (Err e)
          then have "run E w1 f off n filled = Some y"
            using eq ok E False by (auto simp: read Err split: if_splits)
          from IH [OF this] show ?thesis using ok by simp
        next
          case (Ok bs)
          then obtain off' where off': "bs \<noteq> []" "u64_checked_add off (of_nat (length bs)) = Some off'"
            "run E w1 f off' (n - length bs) (filled @ bs) = Some y"
            using eq ok E False by (auto simp: read Ok split: if_splits option.splits)
          have bs: "length bs \<le> n" "bs = take (length bs) (drop (unat off) (content f))"
            using faithful_read [OF assms(1)] read Ok by blast+
          have fits: "unat off + length bs \<le> length (content f)" by (rule piece_fits [OF bs(2) off'(1)])
          then have "unat off' = unat off + length bs"
            using unat_advance [OF off'(2)] small [of f] by simp
          with IH [OF off'(3)] ok bs(1) fits show ?thesis
            by (auto simp: take_pieces [OF bs(2,1)])
        qed
      qed
    qed
  qed
  then show ?thesis by simp
qed

lemma positioned_read_returns:
  assumes "faithful E content whole" and "reliable E content whole" and small: "length (content f) < usize_limit"
    and "unat off + n \<le> length (content f)"
  shows "\<exists>w'. positioned_read E w f off n filled = Some (Ok (filled @ take n (drop (unat off) (content f))), w')"
  using assms(4)
proof (induction n arbitrary: w off filled rule: less_induct)
  case (less n)
  show ?case
  proof (cases "n = 0")
    case True
    then show ?thesis by (simp add: positioned_read.simps)
  next
    case False
    then obtain bs w1 where read: "env_read_at E w f off n = (Ok bs, w1)" "bs \<noteq> []"
      using reliable_read [OF assms(2), of n off f w] less.prems by auto
    have bs: "length bs \<le> n" "bs = take (length bs) (drop (unat off) (content f))"
      using faithful_read [OF assms(1) read(1)] by blast+
    obtain off' where off': "u64_checked_add off (of_nat (length bs)) = Some off'" "unat off' = unat off + length bs"
      using advance_fits [of off "length bs"] less.prems bs(1) small by auto
    have "n - length bs < n" "unat off' + (n - length bs) \<le> length (content f)"
      using read(2) bs(1) off'(2) less.prems False by (auto simp: diff_less)
    from less.IH [OF this, of w1 "filled @ bs"] show ?thesis
      using read off' False take_pieces [OF bs(2,1)] by (auto simp: positioned_read.simps [of E w])
  qed
qed


section \<open>Volumes\<close>

text \<open>The volumes follow each other; \<open>z\<close> is where they end.\<close>

fun volumes_tile :: "('f \<Rightarrow> bytes) \<Rightarrow> nat \<Rightarrow> 'f VolumeReader list \<Rightarrow> nat \<Rightarrow> bool" where
  "volumes_tile content a [] z \<longleftrightarrow> z = a"
| "volumes_tile content a (v # vs) z \<longleftrightarrow>
     unat (vr_start v) = a \<and> unat (vr_end v) = a + length (content (vr_file v)) \<and>
     volumes_tile content (a + length (content (vr_file v))) vs z"

definition volumes_bytes :: "('f \<Rightarrow> bytes) \<Rightarrow> 'f VolumeReader list \<Rightarrow> bytes" where
  "volumes_bytes content vs = concat (map (\<lambda>v. content (vr_file v)) vs)"

lemma volumes_tile_length: "volumes_tile content a vs z \<Longrightarrow> z = a + length (volumes_bytes content vs)"
  by (induction content a vs z rule: volumes_tile.induct) (simp_all add: volumes_bytes_def)

lemma volume_found:
  assumes "volumes_tile content a vs z" and "a \<le> unat l" and "unat l < z"
  shows "\<exists>v. List.find (\<lambda>v. l \<ge> vr_start v \<and> l < vr_end v) vs = Some v \<and>
    unat (vr_start v) \<le> unat l \<and> unat l < unat (vr_end v) \<and>
    unat (vr_end v) = unat (vr_start v) + length (content (vr_file v)) \<and> unat (vr_end v) \<le> z \<and>
    (\<forall>k \<le> unat (vr_end v) - unat l.
       take k (drop (unat l - a) (volumes_bytes content vs)) =
       take k (drop (unat l - unat (vr_start v)) (content (vr_file v))))"
  using assms
proof (induction content a vs z rule: volumes_tile.induct)
  case (2 content a v vs z)
  let ?n = "length (content (vr_file v))"
  show ?case
  proof (cases "unat l < a + ?n")
    case True
    then show ?thesis
      using 2 volumes_tile_length [of content "a + ?n" vs z]
      by (intro exI [of _ v]) (auto simp: word_le_nat_alt word_less_nat_alt volumes_bytes_def)
  next
    case False
    then have "\<not> (l \<ge> vr_start v \<and> l < vr_end v)" using 2(2) by (simp add: word_less_nat_alt)
    moreover have "drop (unat l - a) (volumes_bytes content (v # vs)) = drop (unat l - (a + ?n)) (volumes_bytes content vs)"
      using False by (simp add: volumes_bytes_def)
    ultimately show ?thesis using 2 False by auto
  qed
qed simp


text \<open>One volume's part of a read and what is left after it.\<close>

definition volume_part :: "'f VolumeReader \<Rightarrow> u64 \<Rightarrow> nat \<Rightarrow> nat" where
  "volume_part v l n = min (unat (vr_end v - l)) n"

lemma volume_step:
  assumes "volumes_tile content 0 vs z" and "unat l < z" and "z < usize_limit" and "0 < n"
  obtains v l' where "List.find (\<lambda>v. l \<ge> vr_start v \<and> l < vr_end v) vs = Some v"
    "unat (l - vr_start v) + volume_part v l n \<le> length (content (vr_file v))"
    "0 < volume_part v l n" "volume_part v l n \<le> n" "unat l + volume_part v l n \<le> z"
    "u64_checked_add l (of_nat (volume_part v l n)) = Some l'" "unat l' = unat l + volume_part v l n"
    "take (volume_part v l n) (drop (unat l) (volumes_bytes content vs)) =
     take (volume_part v l n) (drop (unat (l - vr_start v)) (content (vr_file v)))"
proof -
  from volume_found [OF assms(1) _ assms(2)] obtain v where
    v: "List.find (\<lambda>v. l \<ge> vr_start v \<and> l < vr_end v) vs = Some v"
      "unat (vr_start v) \<le> unat l" "unat l < unat (vr_end v)"
      "unat (vr_end v) = unat (vr_start v) + length (content (vr_file v))" "unat (vr_end v) \<le> z"
    and same: "\<And>k. k \<le> unat (vr_end v) - unat l \<Longrightarrow> take k (drop (unat l) (volumes_bytes content vs)) =
        take k (drop (unat l - unat (vr_start v)) (content (vr_file v)))"
    by auto
  have sub: "unat (vr_end v - l) = unat (vr_end v) - unat l" "unat (l - vr_start v) = unat l - unat (vr_start v)"
    using v(2,3) by (simp_all add: unat_sub word_le_nat_alt)
  have part: "volume_part v l n \<le> unat (vr_end v) - unat l" "0 < volume_part v l n" "volume_part v l n \<le> n"
    using v(3) assms(4) by (simp_all add: volume_part_def sub)
  then have fits: "unat l + volume_part v l n \<le> z" using v(3,5) by linarith
  then obtain l' where l': "u64_checked_add l (of_nat (volume_part v l n)) = Some l'"
    "unat l' = unat l + volume_part v l n"
    using advance_fits [of l "volume_part v l n"] assms(3) by auto
  have inside: "unat (l - vr_start v) + volume_part v l n \<le> length (content (vr_file v))"
    using part(1) sub(2) v(2,3,4) by linarith
  show thesis
    by (rule that [OF v(1) inside part(2,3) fits l']) (simp add: same [OF part(1)] sub(2))
qed

lemma volumes_read_unfold:
  assumes "List.find (\<lambda>v. l \<ge> vr_start v \<and> l < vr_end v) vs = Some v"
    and "u64_checked_add l (of_nat (volume_part v l n)) = Some l'" and "0 < n"
  shows "volumes_read E vs l n filled w =
    Option.bind (positioned_read E w (vr_file v) (l - vr_start v) (volume_part v l n) []) (\<lambda>(part, w).
      case part of
        Err e \<Rightarrow> Some (Err (R7zError_from_io e), w)
      | Ok part \<Rightarrow> volumes_read E vs l' (n - volume_part v l n) (filled @ part) w)"
  using assms by (subst volumes_read.simps) (simp add: Let_def volume_part_def cong: result.case_cong)

lemma volumes_read_returns:
  assumes "faithful E content whole" and "reliable E content whole" and "\<And>f. length (content f) < usize_limit"
    and tile: "volumes_tile content 0 vs z" and z: "z < usize_limit" and "unat l + n \<le> z"
  shows "\<exists>w'. volumes_read E vs l n filled w = Some (Ok (filled @ take n (drop (unat l) (volumes_bytes content vs))), w')"
  using assms(6)
proof (induction n arbitrary: l filled w rule: less_induct)
  case (less n)
  show ?case
  proof (cases "n = 0")
    case True
    then show ?thesis by (simp add: volumes_read.simps)
  next
    case False
    then have n: "0 < n" "unat l < z" using less.prems by simp_all
    obtain v l' where v: "List.find (\<lambda>v. l \<ge> vr_start v \<and> l < vr_end v) vs = Some v"
      "unat (l - vr_start v) + volume_part v l n \<le> length (content (vr_file v))"
      "0 < volume_part v l n" "volume_part v l n \<le> n" "unat l + volume_part v l n \<le> z"
      "u64_checked_add l (of_nat (volume_part v l n)) = Some l'" "unat l' = unat l + volume_part v l n"
      "take (volume_part v l n) (drop (unat l) (volumes_bytes content vs)) =
       take (volume_part v l n) (drop (unat (l - vr_start v)) (content (vr_file v)))"
      by (rule volume_step [OF tile n(2) z n(1)])
    define part where "part = take (volume_part v l n) (drop (unat (l - vr_start v)) (content (vr_file v)))"
    obtain w1 where read: "positioned_read E w (vr_file v) (l - vr_start v) (volume_part v l n) [] = Some (Ok part, w1)"
      using positioned_read_returns [OF assms(1,2) assms(3) v(2), of w "[]"] by (auto simp: part_def)
    have "n - volume_part v l n < n" "unat l' + (n - volume_part v l n) \<le> z"
      using v(3,4,7) less.prems n by simp_all
    from less.IH [OF this, of "filled @ part" w1] obtain w2 where
      "volumes_read E vs l' (n - volume_part v l n) (filled @ part) w1 =
       Some (Ok ((filled @ part) @ take (n - volume_part v l n) (drop (unat l') (volumes_bytes content vs))), w2)" by blast
    moreover have "part @ take (n - volume_part v l n) (drop (unat l') (volumes_bytes content vs)) =
        take n (drop (unat l) (volumes_bytes content vs))"
      using v(4) unfolding part_def v(8) [symmetric] v(7)
      by (metis add.commute drop_drop le_add_diff_inverse take_add)
    ultimately show ?thesis
      by (simp add: volumes_read_unfold [OF v(1,6) n(1)] read)
  qed
qed


section \<open>Sources\<close>

text \<open>The byte string a source stands for, and what it knows of its length.\<close>

definition archive_bytes :: "('f \<Rightarrow> bytes) \<Rightarrow> bytes \<Rightarrow> 'f ArchiveSource \<Rightarrow> bytes" where
  "archive_bytes content whole self =
     (case self of
        Source_Bytes bytes \<Rightarrow> b_data bytes
      | Source_File f _ \<Rightarrow> content f
      | Source_Seekable _ \<Rightarrow> whole
      | Source_Volumes vs _ \<Rightarrow> volumes_bytes content vs)"

definition source_ok :: "('f \<Rightarrow> bytes) \<Rightarrow> bytes \<Rightarrow> 'f ArchiveSource \<Rightarrow> bool" where
  "source_ok content whole self \<longleftrightarrow>
     (\<forall>f. length (content f) < usize_limit) \<and>
     (case self of
        Source_Bytes bytes \<Rightarrow> length (b_data bytes) < usize_limit
      | Source_File f len \<Rightarrow> length (content f) = unat len
      | Source_Seekable len \<Rightarrow> length whole = unat len
      | Source_Volumes vs len \<Rightarrow> volumes_tile content 0 vs (unat len))"

lemma source_len_ok:
  assumes "source_ok content whole self"
  shows "\<exists>len. source_len self = Ok len \<and> unat len = length (archive_bytes content whole self)"
  using assms volumes_tile_length [of content 0]
  by (cases self) (auto simp: source_ok_def source_len_def archive_bytes_def unat_of_nat)

lemma read_request:
  assumes "source_ok content whole self" and "0 < n" and "n < usize_limit"
  shows "and_then (ok_or Parse (if n < usize_limit then Some (of_nat n :: u64) else None)) (\<lambda>n.
      and_then (ok_or Parse (u64_checked_add offset n)) (\<lambda>after.
      and_then (source_len self) (\<lambda>len. if after > len then Err Parse else Ok after))) =
    (if unat offset + n \<le> length (archive_bytes content whole self) then Ok (offset + of_nat n) else Err Parse)"
proof -
  obtain len where len: "source_len self = Ok len" "unat len = length (archive_bytes content whole self)"
    using source_len_ok [OF assms(1)] by blast
  have n: "unat (of_nat n :: u64) = n" using assms(3) by (simp add: unat_of_nat)
  show ?thesis
  proof (cases "unat offset + n < usize_limit")
    case True
    then show ?thesis
      using assms(3) n unat_add_fits [of offset "of_nat n"]
      by (simp add: len u64_checked_add_def word_less_nat_alt not_less)
  next
    case False
    then show ?thesis
      using assms(3) n unat_u64_less [of len] by (simp add: len u64_checked_add_def)
  qed
qed


text \<open>What a read may return at most, and what it does return if the files do not fail.\<close>

lemma volumes_read_content:
  fixes E :: "('w, 'f) file_env"
  assumes "faithful E content whole" and small: "\<And>f. length (content f) < usize_limit"
    and tile: "volumes_tile content 0 vs z" and z: "z < usize_limit"
    and run: "volumes_read E vs l n filled w = Some (Ok out, w')" and "unat l + n \<le> z"
  shows "out = filled @ take n (drop (unat l) (volumes_bytes content vs))"
proof -
  let ?P = "\<lambda>E' vs' l n filled (w :: 'w) (y :: bytes r7z_result \<times> 'w). E' = E \<longrightarrow> vs' = vs \<longrightarrow> unat l + n \<le> z \<longrightarrow>
      (\<forall>out. fst y = Ok out \<longrightarrow> out = filled @ take n (drop (unat l) (volumes_bytes content vs)))"
  have "?P E vs l n filled w (Ok out, w')"
  proof (rule volumes_read.raw_induct [where P = ?P, OF _ run])
    fix run E' vs' l n filled w y
    assume IH: "\<And>E' vs' l n filled w y. run E' vs' l n filled w = Some y \<Longrightarrow> ?P E' vs' l n filled w y"
      and eq: "(if n = 0 then Some (Ok filled, w)
        else case List.find (\<lambda>v. l \<ge> vr_start v \<and> l < vr_end v) vs' of
            None \<Rightarrow> Some (Err Parse, w)
          | Some volume \<Rightarrow>
              let volume_offset = l - vr_start volume; available = vr_end volume - l; k = min (unat available) n
              in Option.bind (positioned_read E' w (vr_file volume) volume_offset k []) (\<lambda>(part, w).
                  case part of
                    Err e \<Rightarrow> Some (Err (R7zError_from_io e), w)
                  | Ok part \<Rightarrow>
                      (case u64_checked_add l (of_nat k) of
                         None \<Rightarrow> Some (Err Parse, w)
                       | Some l \<Rightarrow> run E' vs' l (n - k) (filled @ part) w))) = Some y"
    show "?P E' vs' l n filled w y"
    proof (intro impI allI)
      fix out
      assume E: "E' = E" "vs' = vs" and fits: "unat l + n \<le> z" and ok: "fst y = Ok out"
      show "out = filled @ take n (drop (unat l) (volumes_bytes content vs))"
      proof (cases "n = 0")
        case True
        then show ?thesis using eq ok by auto
      next
        case False
        then have n: "0 < n" "unat l < z" using fits by simp_all
        obtain v l' where v: "List.find (\<lambda>v. l \<ge> vr_start v \<and> l < vr_end v) vs = Some v"
          "unat (l - vr_start v) + volume_part v l n \<le> length (content (vr_file v))"
          "0 < volume_part v l n" "volume_part v l n \<le> n" "unat l + volume_part v l n \<le> z"
          "u64_checked_add l (of_nat (volume_part v l n)) = Some l'" "unat l' = unat l + volume_part v l n"
          "take (volume_part v l n) (drop (unat l) (volumes_bytes content vs)) =
           take (volume_part v l n) (drop (unat (l - vr_start v)) (content (vr_file v)))"
          by (rule volume_step [OF tile n(2) z n(1)])
        have "Option.bind (positioned_read E w (vr_file v) (l - vr_start v) (volume_part v l n) []) (\<lambda>(part, w).
            case part of
              Err e \<Rightarrow> Some (Err (R7zError_from_io e), w)
            | Ok part \<Rightarrow> run E vs l' (n - volume_part v l n) (filled @ part) w) = Some y"
          using eq False v(1,6) by (simp add: E Let_def volume_part_def cong: result.case_cong)
        then obtain answer w1 where answer:
          "positioned_read E w (vr_file v) (l - vr_start v) (volume_part v l n) [] = Some (answer, w1)"
          "(case answer of
              Err e \<Rightarrow> Some (Err (R7zError_from_io e), w1)
            | Ok part \<Rightarrow> run E vs l' (n - volume_part v l n) (filled @ part) w1) = Some y"
          by (cases "positioned_read E w (vr_file v) (l - vr_start v) (volume_part v l n) []") auto
        then obtain part where part: "positioned_read E w (vr_file v) (l - vr_start v) (volume_part v l n) [] = Some (Ok part, w1)"
          "run E vs l' (n - volume_part v l n) (filled @ part) w1 = Some y"
          using ok by (cases answer) auto
        have "out = (filled @ part) @ take (n - volume_part v l n) (drop (unat l') (volumes_bytes content vs))"
          using IH [OF part(2)] ok v(4,7) fits by simp
        moreover have "part @ take (n - volume_part v l n) (drop (unat l') (volumes_bytes content vs)) =
            take n (drop (unat l) (volumes_bytes content vs))"
          using positioned_read_content [OF assms(1) small part(1)] v(4) unfolding v(7)
          by (metis (no_types) add.commute append_Nil drop_drop le_add_diff_inverse take_add v(8))
        ultimately show ?thesis by simp
      qed
    qed
  qed
  then show ?thesis using assms(6) by simp
qed

lemma read_exact_at_content:
  assumes E: "faithful E content whole" and ok: "source_ok content whole self" and n: "n < usize_limit"
    and run: "read_exact_at E self offset n w = Some (Ok bs, w')"
  shows "bs = take n (drop (unat offset) (archive_bytes content whole self)) \<and>
    (n = 0 \<or> unat offset + n \<le> length (archive_bytes content whole self))"
proof (cases "n = 0")
  case True
  then show ?thesis using run by (simp add: read_exact_at_def)
next
  case False
  note request = read_request [OF ok _ n, of offset]
  have fits: "unat offset + n \<le> length (archive_bytes content whole self)"
    using run request False by (auto simp: read_exact_at_def split: if_splits)
  have small: "length (content f) < usize_limit" for f using ok by (simp add: source_ok_def)
  obtain len where len: "source_len self = Ok len" "unat len = length (archive_bytes content whole self)"
    using source_len_ok [OF ok] by blast
  then have after: "unat (offset + of_nat n) = unat offset + n"
    using fits unat_u64_less [of len] n unat_add_fits [of offset "of_nat n"] by (simp add: unat_of_nat)
  show ?thesis
  proof (cases self)
    case (Source_Bytes b)
    then show ?thesis
      using run request False fits after
      by (auto simp: read_exact_at_def archive_bytes_def get_range_eq_Some)
  next
    case (Source_File f len)
    then obtain r where "positioned_read E w f offset n [] = Some (r, w')" "map_err Io r = Ok bs"
      using run request False fits by (auto simp: read_exact_at_def)
    with positioned_read_content [OF E small, of w f offset n "[]" bs w'] fits Source_File show ?thesis
      by (simp add: archive_bytes_def)
  next
    case (Source_Seekable len)
    then obtain w1 w2 where "env_seek E w offset = (Ok (), w1)" "env_read_exact E w1 n = (Ok bs, w2)"
      using run request False fits
      by (auto simp: read_exact_at_def split: if_splits prod.splits result.splits)
    with E show ?thesis
      using fits Source_Seekable unfolding faithful_def archive_bytes_def by (metis ArchiveSource.simps(19))
  next
    case (Source_Volumes vs len)
    then have "volumes_read E vs offset n [] w = Some (Ok bs, w')"
      using run request False fits by (auto simp: read_exact_at_def)
    moreover have tile: "volumes_tile content 0 vs (unat len)" using ok Source_Volumes by (simp add: source_ok_def)
    ultimately show ?thesis
      using volumes_read_content [OF E small tile unat_u64_less, of offset n "[]" w bs w'] fits Source_Volumes
        volumes_tile_length [OF tile]
      by (simp add: archive_bytes_def)
  qed
qed

lemma read_exact_at_returns:
  assumes E: "faithful E content whole" "reliable E content whole" and ok: "source_ok content whole self"
    and n: "n < usize_limit"
  shows "\<exists>w'. read_exact_at E self offset n w =
    Some (if n = 0 \<or> unat offset + n \<le> length (archive_bytes content whole self)
      then Ok (take n (drop (unat offset) (archive_bytes content whole self))) else Err Parse, w')"
proof (cases "0 < n \<and> unat offset + n \<le> length (archive_bytes content whole self)")
  case False
  then show ?thesis using read_request [OF ok _ n, of offset] by (auto simp: read_exact_at_def)
next
  case True
  note request = read_request [OF ok _ n, of offset]
  have small: "length (content f) < usize_limit" for f using ok by (simp add: source_ok_def)
  have "\<exists>bs w'. read_exact_at E self offset n w = Some (Ok bs, w')"
  proof (cases self)
    case (Source_Bytes b)
    obtain len where len: "source_len self = Ok len" "unat len = length (archive_bytes content whole self)"
      using source_len_ok [OF ok] by blast
    then have "unat (offset + of_nat n) = unat offset + n"
      using True unat_u64_less [of len] n unat_add_fits [of offset "of_nat n"] by (simp add: unat_of_nat)
    then show ?thesis
      using request True Source_Bytes n by (auto simp: read_exact_at_def archive_bytes_def get_range_def)
  next
    case (Source_File f len)
    then show ?thesis
      using positioned_read_returns [OF E small, where f = f and off = offset and n = n and w = w and filled = "[]"] request True n
      by (auto simp: read_exact_at_def archive_bytes_def)
  next
    case (Source_Seekable len)
    obtain w1 where "env_seek E w offset = (Ok (), w1)" "\<exists>bs w2. env_read_exact E w1 n = (Ok bs, w2)"
      using E(2) True Source_Seekable unfolding reliable_def archive_bytes_def by auto metis
    moreover have "env_lock E w" using E(2) by (simp add: reliable_def)
    ultimately show ?thesis
      using request True Source_Seekable n by (auto simp: read_exact_at_def)
  next
    case (Source_Volumes vs len)
    then have tile: "volumes_tile content 0 vs (unat len)" using ok by (simp add: source_ok_def)
    with volumes_read_returns [OF E small tile unat_u64_less, of offset n "[]" w] request True Source_Volumes n
      volumes_tile_length [OF tile] show ?thesis
      by (auto simp: read_exact_at_def archive_bytes_def)
  qed
  then show ?thesis using read_exact_at_content [OF E(1) ok n] True by fastforce
qed



section \<open>The signature\<close>

text \<open>The search of the whole string: the first candidate that is complete and has its checksum.\<close>

definition candidate_at :: "(bytes \<Rightarrow> u32) \<Rightarrow> bytes \<Rightarrow> nat \<Rightarrow> SignatureCandidate" where
  "candidate_at crc bs c =
     (if length bs < c + 32 then Candidate_Incomplete
      else
        case SignatureHeader_parse (take 32 (drop c bs)) of
          Err _ \<Rightarrow> Candidate_Incomplete
        | Ok (_, signature) \<Rightarrow>
            if sh_signature signature \<noteq> SEVEN_Z_MAGIC then Candidate_Incomplete
            else if is_ok (validate_start_header_crc crc signature) then Valid signature else BadCrc)"

fun first_valid :: "(bytes \<Rightarrow> u32) \<Rightarrow> bytes \<Rightarrow> nat list \<Rightarrow> bool \<Rightarrow> (nat \<times> SignatureHeader) option \<times> bool" where
  "first_valid crc bs [] saw_bad = (None, saw_bad)"
| "first_valid crc bs (c # cs) saw_bad =
     (case candidate_at crc bs c of
        Valid signature \<Rightarrow> (Some (c, signature), saw_bad)
      | BadCrc \<Rightarrow> first_valid crc bs cs True
      | Candidate_Incomplete \<Rightarrow> first_valid crc bs cs saw_bad)"

lemma first_valid_append:
  "first_valid crc bs (xs @ ys) saw =
     (case first_valid crc bs xs saw of (Some r, s) \<Rightarrow> (Some r, s) | (None, s) \<Rightarrow> first_valid crc bs ys s)"
  by (induction xs arbitrary: saw) (auto split: SignatureCandidate.split)

lemma first_valid_mem: "first_valid crc bs cs saw = (Some (c, signature), s) \<Longrightarrow> c \<in> set cs"
  by (induction cs arbitrary: saw) (auto split: SignatureCandidate.splits)

definition found_at :: "(nat \<times> SignatureHeader) option \<times> bool \<Rightarrow> found" where
  "found_at r = (case r of (found, saw_bad) \<Rightarrow> (map_option (\<lambda>(c, signature). (of_nat c, signature)) found, saw_bad))"

lemma validate_result: "validate_start_header_crc crc signature = Ok () \<or> validate_start_header_crc crc signature = Err Crc"
  by (simp add: validate_start_header_crc_def)

lemma SignatureHeader_parse_32: "32 \<le> length bs \<Longrightarrow> \<exists>r signature. SignatureHeader_parse bs = Ok (r, signature)"
  by (simp add: SignatureHeader_parse_def)

lemma signature_at_pure:
  assumes E: "faithful E content whole" "reliable E content whole" and ok: "source_ok content whole self"
    and c: "unat c + 32 < usize_limit"
  shows "\<exists>w'. signature_at E crc self c w = Some (Ok (candidate_at crc (archive_bytes content whole self) (unat c)), w')"
proof -
  let ?bs = "archive_bytes content whole self"
  obtain len where len: "source_len self = Ok len" "unat len = length ?bs"
    using source_len_ok [OF ok] by blast
  obtain after where after: "u64_checked_add c 32 = Some after" "unat after = unat c + 32"
    using advance_fits [of c 32] c by auto
  show ?thesis
  proof (cases "after > len")
    case True
    then show ?thesis
      using len after by (auto simp: signature_at_def candidate_at_def word_less_nat_alt)
  next
    case False
    then have fits: "unat c + 32 \<le> length ?bs" using len after by (simp add: word_less_nat_alt)
    then obtain w' where read: "read_exact_at E self c 32 w = Some (Ok (take 32 (drop (unat c) ?bs)), w')"
      using read_exact_at_returns [OF E ok, of 32 c w] by auto
    obtain r signature where parse: "SignatureHeader_parse (take 32 (drop (unat c) ?bs)) = Ok (r, signature)"
      using SignatureHeader_parse_32 [of "take 32 (drop (unat c) ?bs)"] fits by auto
    show ?thesis
      using False fits validate_result [of crc signature]
      by (auto simp: signature_at_def len after read parse candidate_at_def)
  qed
qed

lemma try_candidates_pure:
  assumes E: "faithful E content whole" "reliable E content whole" and ok: "source_ok content whole self"
    and "\<forall>p \<in> set positions. unat base + start + p + 32 < usize_limit"
  shows "\<exists>w'. try_candidates E crc self base start positions saw w =
    Some (Ok (found_at (first_valid crc (archive_bytes content whole self)
      (map (\<lambda>p. unat base + start + p) positions) saw)), w')"
  using assms(4)
proof (induction positions arbitrary: saw w)
  case Nil
  show ?case by (simp add: found_at_def)
next
  case (Cons p ps)
  have fits: "unat base + start + p + 32 < usize_limit" using Cons.prems by simp
  then obtain c where c: "u64_checked_add base (of_nat (start + p)) = Some c" "unat c = unat base + start + p"
    using advance_fits [of base "start + p"] by (auto simp: add.assoc)
  have add: "usize_checked_add start p = Some (start + p)" using fits by (simp add: usize_checked_add_def)
  obtain w1 where at: "signature_at E crc self c w = Some (Ok (candidate_at crc (archive_bytes content whole self) (unat c)), w1)"
    using signature_at_pure [OF E ok, of c crc w] c fits by auto
  have c_nat: "of_nat (unat base + start + p) = c" by (simp flip: c(2))
  from Cons.IH [of _ w1] Cons.prems show ?case
    by (cases "candidate_at crc (archive_bytes content whole self) (unat base + start + p)")
       (simp_all add: add c(1) [unfolded of_nat_add] at c(2) found_at_def c_nat [simplified])
qed

text \<open>Where the magic bytes lie, and what a piece of the string shows of them.\<close>

lemma magic_offsets_window:
  assumes "b \<le> length bs" and "a \<le> b"
  shows "map (\<lambda>p. a + p) (find_magic_offsets (drop a (take b bs))) =
    filter (\<lambda>i. take 6 (drop i bs) = SEVEN_Z_MAGIC) [a..<b - 5]"
proof -
  have same: "take 6 (drop (a + p) bs) = take 6 (drop p (drop a (take b bs)))" if "p < b - a - 5" for p
  proof -
    have "take 6 (drop p (drop a (take b bs))) = take 6 (take (b - (a + p)) (drop (a + p) bs))"
      by (simp add: drop_take add.commute)
    moreover have "6 \<le> b - (a + p)" using that by simp
    ultimately show ?thesis by (simp add: min_absorb1)
  qed
  have len: "length (drop a (take b bs)) - 5 = b - a - 5" using assms by simp
  have "map (\<lambda>p. a + p) (find_magic_offsets (drop a (take b bs))) =
      map (\<lambda>p. a + p) (filter (\<lambda>p. take 6 (drop (a + p) bs) = SEVEN_Z_MAGIC) [0..<b - a - 5])"
    unfolding find_magic_offsets_def len by (rule arg_cong [where f = "map _"], rule filter_cong) (simp_all add: same)
  also have "\<dots> = filter (\<lambda>i. take 6 (drop i bs) = SEVEN_Z_MAGIC) (map (\<lambda>p. a + p) [0..<b - a - 5])"
    by (simp add: filter_map o_def)
  also have "map (\<lambda>p. a + p) [0..<b - a - 5] = [a..<b - 5]"
    using map_add_upt [of a "b - a - 5"] by (cases "a + 5 \<le> b") (auto simp: add.commute)
  finally show ?thesis .
qed

definition magic_between :: "bytes \<Rightarrow> nat \<Rightarrow> nat \<Rightarrow> nat list" where
  "magic_between bs a b = filter (\<lambda>i. take 6 (drop i bs) = SEVEN_Z_MAGIC) [a..<b]"

lemma magic_between_split: "a \<le> b \<Longrightarrow> b \<le> c \<Longrightarrow> magic_between bs a c = magic_between bs a b @ magic_between bs b c"
  using upt_add_eq_append [of a b "c - b"] by (simp add: magic_between_def)


text \<open>The search in chunks: what is carried over is the end of what was read.\<close>

lemma signature_scan_pure:
  assumes E: "faithful E content whole" "reliable E content whole" and ok: "source_ok content whole self"
    and small: "length (archive_bytes content whole self) + 32 \<le> usize_limit"
    and "unat offset \<le> unat scan_len" and len: "unat scan_len \<le> length (archive_bytes content whole self)"
    and "carry = drop (unat offset - 5) (take (unat offset) (archive_bytes content whole self))"
  shows "\<exists>w'. signature_scan E crc self scan_len offset carry saw w =
    Some (Ok (found_at (first_valid crc (archive_bytes content whole self)
      (magic_between (archive_bytes content whole self) (unat offset - 5) (unat scan_len - 5)) saw)), w')"
  using assms(5,7)
proof (induction "unat scan_len - unat offset" arbitrary: offset carry saw w rule: less_induct)
  case less
  let ?bs = "archive_bytes content whole self" and ?k = "chunk_length scan_len offset"
  show ?case
  proof (cases "offset < scan_len")
    case False
    then have "unat offset = unat scan_len" using less.prems(1) by (simp add: word_less_nat_alt)
    then show ?thesis
      using False by (simp add: signature_scan.simps [of E crc self scan_len offset] magic_between_def found_at_def)
  next
    case True
    have k: "?k < usize_limit" "unat offset + ?k \<le> unat scan_len"
      using True by (simp_all add: chunk_length_def unat_sub word_less_nat_alt word_le_nat_alt)
    then obtain offset' where offset': "u64_checked_add offset (of_nat ?k) = Some offset'" "unat offset' = unat offset + ?k"
      using advance_fits [of offset ?k] unat_u64_less [of scan_len] by auto
    obtain w1 where read: "read_exact_at E self offset ?k w = Some (Ok (take ?k (drop (unat offset) ?bs)), w1)"
      using read_exact_at_returns [OF E ok k(1), of offset w] k(2) len by auto
    define joined where "joined = drop (unat offset - 5) (take (unat offset') ?bs)"
    have split: "take (unat offset') ?bs = take (unat offset) ?bs @ take ?k (drop (unat offset) ?bs)"
      unfolding offset'(2) by (rule take_add)
    have join: "carry @ take ?k (drop (unat offset) ?bs) = joined"
      using len k(2) by (simp add: less.prems(2) joined_def split)
    have carry_len: "length carry = min 5 (unat offset)" using less.prems k len by auto
    then have start: "length carry - 5 = 0" by simp
    have "unat (of_nat (length carry) :: u64) = length carry" using carry_len by (simp add: unat_of_nat)
    then obtain base where base: "u64_checked_sub offset (of_nat (length carry)) = Some base"
      "unat base = unat offset - 5"
      using carry_len by (auto simp: u64_checked_sub_def word_le_nat_alt unat_sub)
    have offsets: "map (\<lambda>p. unat base + 0 + p) (find_magic_offsets joined) =
        magic_between ?bs (unat offset - 5) (unat offset' - 5)"
      using magic_offsets_window [of "unat offset'" ?bs "unat offset - 5"] len k(2) offset'(2)
      by (simp add: base(2) joined_def magic_between_def)
    have "\<forall>p \<in> set (find_magic_offsets joined). unat base + 0 + p + 32 < usize_limit"
    proof
      fix p assume "p \<in> set (find_magic_offsets joined)"
      then have "unat base + 0 + p \<in> set (magic_between ?bs (unat offset - 5) (unat offset' - 5))"
        unfolding offsets [symmetric] by auto
      then have "unat base + 0 + p < length ?bs" using k(2) len offset'(2) by (auto simp: magic_between_def)
      then show "unat base + 0 + p + 32 < usize_limit" using small by simp
    qed
    from try_candidates_pure [OF E ok this, of crc saw w1] obtain w2 where
      tried: "try_candidates E crc self base 0 (find_magic_offsets joined) saw w1 =
        Some (Ok (found_at (first_valid crc ?bs (magic_between ?bs (unat offset - 5) (unat offset' - 5)) saw)), w2)"
      unfolding offsets by blast
    have all: "magic_between ?bs (unat offset - 5) (unat scan_len - 5) =
        magic_between ?bs (unat offset - 5) (unat offset' - 5) @ magic_between ?bs (unat offset' - 5) (unat scan_len - 5)"
      using k(2) offset'(2) by (intro magic_between_split) simp_all
    define kept where "kept = (if 5 \<le> length joined then drop (length joined - 5) joined else joined)"
    have keep: "kept = drop (unat offset' - 5) (take (unat offset') ?bs)"
      using k(2) len offset'(2) by (auto simp: kept_def joined_def)
    obtain found s where first: "first_valid crc ?bs (magic_between ?bs (unat offset - 5) (unat offset' - 5)) saw = (found, s)"
      by (cases "first_valid crc ?bs (magic_between ?bs (unat offset - 5) (unat offset' - 5)) saw")
    have unfold: "signature_scan E crc self scan_len offset carry saw w =
        (case found_at (found, s) of
           (Some signature, saw_bad) \<Rightarrow> Some (Ok (Some signature, saw_bad), w2)
         | (None, saw_bad) \<Rightarrow>
             signature_scan E crc self scan_len offset' (drop (unat offset' - 5) (take (unat offset') ?bs)) saw_bad w2)"
      using True unfolding keep [symmetric]
      by (cases found)
         (simp_all add: signature_scan.simps [of E crc self scan_len offset] read join base(1) start tried first
          offset'(1) Let_def found_at_def split_beta kept_def [symmetric])
    show ?thesis
    proof (cases found)
      case (Some r)
      then show ?thesis by (cases r) (simp add: unfold all first_valid_append first found_at_def)
    next
      case None
      have "unat scan_len - unat offset' < unat scan_len - unat offset" "unat offset' \<le> unat scan_len"
        using chunk_length_step [OF True offset'(1)] chunk_length_less [OF True offset'(1)] by simp_all
      from less.hyps [OF this refl, of s w2] None show ?thesis
        by (simp add: unfold all first_valid_append first found_at_def)
    qed
  qed
qed


lemma magic_between_all: "b \<le> length bs \<Longrightarrow> magic_between bs 0 (b - 5) = find_magic_offsets (take b bs)"
  using magic_offsets_window [of b bs 0] by (simp add: magic_between_def map_idI)

lemma slice_candidates_valid:
  assumes "length data + 32 \<le> usize_limit"
    and "\<forall>c \<in> set cs. c < length data \<and> take 6 (drop c data) = SEVEN_Z_MAGIC"
  shows "slice_candidates crc data cs saw =
    (case first_valid crc data cs saw of
       (Some (c, _), _) \<Rightarrow> Ok c
     | (None, saw_bad) \<Rightarrow> if saw_bad then Err Crc else Err Parse)"
  using assms(2)
proof (induction cs arbitrary: saw)
  case (Cons c cs)
  have c: "min (c + 32) (usize_limit - 1) = c + 32" using Cons.prems assms(1) by auto
  show ?case
  proof (cases "length data < c + 32")
    case True
    then show ?thesis using Cons by (simp add: c get_range_def candidate_at_def)
  next
    case False
    then obtain r signature where parse: "SignatureHeader_parse (take 32 (drop c data)) = Ok (r, signature)"
      using SignatureHeader_parse_32 [of "take 32 (drop c data)"] by auto
    have "sh_signature signature = take 6 (take 32 (drop c data))"
      using parse by (auto simp: SignatureHeader_parse_def split: if_splits)
    then have "sh_signature signature = SEVEN_Z_MAGIC" using Cons.prems by simp
    moreover have "get_range data c (min (c + 32) 18446744073709551615) = Some (take 32 (drop c data))"
      using False assms(1) by (simp add: get_range_def min_def)
    ultimately show ?thesis
      using Cons False parse validate_result [of crc signature] by (auto simp: candidate_at_def)
  qed
qed simp

lemma find_magic_offsets_mem:
  "c \<in> set (find_magic_offsets data) \<Longrightarrow> c < length data \<and> take 6 (drop c data) = SEVEN_Z_MAGIC"
  by (simp add: find_magic_offsets_def) linarith

lemma find_signature_in_slice_valid:
  "length data + 32 \<le> usize_limit \<Longrightarrow>
   find_signature_in_slice crc data =
    (case first_valid crc data (find_magic_offsets data) False of
       (Some (c, _), _) \<Rightarrow> Ok c
     | (None, saw_bad) \<Rightarrow> if saw_bad then Err Crc else Err Parse)"
  unfolding find_signature_in_slice_def
  by (intro slice_candidates_valid) (auto dest: find_magic_offsets_mem)


lemma find_signature_whole:
  assumes "faithful E content whole" and "reliable E content whole" and "source_ok content whole self"
    and "length (archive_bytes content whole self) + 32 \<le> usize_limit"
  defines "bs \<equiv> archive_bytes content whole self"
  shows "\<exists>w'. find_signature E crc self limit w = Some
    (case first_valid crc bs (find_magic_offsets (take (unat limit) bs)) False of
       (Some (c, signature), _) \<Rightarrow> Ok (of_nat c, signature)
     | (None, saw_bad) \<Rightarrow>
         if saw_bad then Err Crc
         else if unat limit < length bs then Err (ResourceLimitExceeded ''signature scan'' limit)
         else Err Parse, w')"
proof -
  obtain len where len: "source_len self = Ok len" "unat len = length bs"
    using source_len_ok [OF assms(3)] by (auto simp: bs_def)
  have scan: "unat (min len limit) = min (length bs) (unat limit)"
    by (simp add: min_def word_le_nat_alt len(2))
  have all: "magic_between bs 0 (unat (min len limit) - 5) = find_magic_offsets (take (unat limit) bs)"
    using magic_between_all [of "min (length bs) (unat limit)" bs] unfolding scan by (simp add: min_def)
  obtain found saw_bad where first: "first_valid crc bs (find_magic_offsets (take (unat limit) bs)) False = (found, saw_bad)"
    by (cases "first_valid crc bs (find_magic_offsets (take (unat limit) bs)) False")
  have "\<exists>w'. signature_scan E crc self (min len limit) 0 [] False w = Some (Ok (found_at (found, saw_bad)), w')"
    using signature_scan_pure [OF assms(1-4), of 0 "min len limit" "[]" crc False w]
    by (simp add: bs_def [symmetric] all [symmetric] scan first [symmetric])
  then show ?thesis
    by (cases found) (auto simp: find_signature_def len(1) found_at_def word_less_nat_alt len(2) first)
qed


section \<open>A world to run in\<close>

text \<open>Two files in memory, read three bytes at a time at most.\<close>

definition two_files :: "bool \<Rightarrow> bytes" where
  "two_files f = (if f then [1, 2, 3, 4, 5] else [6, 7])"

definition memory_env :: "(u64, bool) file_env" where
  "memory_env =
     \<lparr>env_read_at = (\<lambda>w f off n. (Ok (take (min n 3) (drop (unat off) (two_files f))), w)),
      env_lock = (\<lambda>w. True),
      env_seek = (\<lambda>w off. (Ok (), off)),
      env_read_exact = (\<lambda>w n. if unat w + n \<le> 5 then (Ok (take n (drop (unat w) [1, 2, 3, 4, 5])), w)
         else (Err (IoKind UnexpectedEof), w))\<rparr>"

definition two_volumes :: "bool ArchiveSource" where
  "two_volumes = Source_Volumes
     [\<lparr>vr_file = True, vr_start = 0, vr_end = 5\<rparr>, \<lparr>vr_file = False, vr_start = 5, vr_end = 7\<rparr>] 7"

lemma memory_env_faithful: "faithful memory_env two_files [1, 2, 3, 4, 5]"
  by (auto simp: faithful_def memory_env_def min_def split: if_splits)

lemma memory_env_reliable: "reliable memory_env two_files [1, 2, 3, 4, 5]"
  by (auto simp: reliable_def memory_env_def)

lemma two_volumes_ok: "source_ok two_files [1, 2, 3, 4, 5] two_volumes"
  by (simp add: source_ok_def two_volumes_def two_files_def)


section \<open>Properties\<close>

text \<open>
  C19. An archive reads as one byte string, whatever it is stored in. A read that succeeds returns
  exactly the bytes of the range, also across volumes and however short the reads below are, and
  only for a range inside of the archive. If the files do not fail, every range inside is read and every other is
  refused.
\<close>

theorem source_reads_content:
  assumes "faithful E content whole" and "source_ok content whole self" and "n < usize_limit"
  shows "(\<forall>bs w'. read_exact_at E self offset n w = Some (Ok bs, w') \<longrightarrow>
      bs = take n (drop (unat offset) (archive_bytes content whole self)) \<and>
      (n = 0 \<or> unat offset + n \<le> length (archive_bytes content whole self))) \<and>
    (reliable E content whole \<longrightarrow>
      (\<exists>w'. read_exact_at E self offset n w =
        Some (if n = 0 \<or> unat offset + n \<le> length (archive_bytes content whole self)
          then Ok (take n (drop (unat offset) (archive_bytes content whole self))) else Err Parse, w')))"
  using read_exact_at_content [OF assms] read_exact_at_returns [OF assms(1) _ assms(2,3)] by blast

theorem source_reads_content_witness:
  "\<exists>w'. read_exact_at memory_env two_volumes 3 4 0 = Some (Ok [4, 5, 6, 7], w')"
  using source_reads_content [OF memory_env_faithful two_volumes_ok, of 4 3 0] memory_env_reliable
  by (simp add: archive_bytes_def two_volumes_def volumes_bytes_def two_files_def)

text \<open>
  C20. The search in chunks misses nothing. Whatever the archive is stored in, the search for its
  signature gives what a search of the whole byte string up to the limit gives: the first
  complete signature header with a matching checksum, although signatures may lie across chunks and a
  header may end behind the limit; if there is none, a checksum error if a header had a wrong one, else that
  the limit was reached or that this is no archive.
\<close>

theorem signature_search_exact:
  assumes "faithful E content whole" and "reliable E content whole" and "source_ok content whole self"
    and "length (archive_bytes content whole self) + 32 \<le> usize_limit"
  defines "bs \<equiv> archive_bytes content whole self"
  shows "\<exists>w'. find_signature E crc self limit w = Some
    (case first_valid crc bs (find_magic_offsets (take (unat limit) bs)) False of
       (Some (c, signature), _) \<Rightarrow> Ok (of_nat c, signature)
     | (None, saw_bad) \<Rightarrow>
         if saw_bad then Err Crc
         else if unat limit < length bs then Err (ResourceLimitExceeded ''signature scan'' limit)
         else Err Parse, w')"
  unfolding bs_def using find_signature_whole [OF assms(1-4)] .

theorem signature_search_exact_witness:
  "\<exists>w'. find_signature memory_env (\<lambda>_. 0) two_volumes 100 0 = Some (Err Parse, w')"
proof -
  have bs: "archive_bytes two_files [1, 2, 3, 4, 5] two_volumes = [1, 2, 3, 4, 5, 6, 7]"
    by (simp add: archive_bytes_def two_volumes_def volumes_bytes_def two_files_def)
  have "find_magic_offsets [1, 2, 3, 4, 5, 6, 7] = []"
    by (simp add: find_magic_offsets_def SEVEN_Z_MAGIC_def upt_rec)
  then show ?thesis
    using signature_search_exact [OF memory_env_faithful memory_env_reliable two_volumes_ok, of "\<lambda>_. 0" 100 0]
    by (simp add: bs)
qed

lemma signature_fields:
  assumes "length m = 6" and "length A = 4" and "length B = 8" and "length C = 8" and "length D = 4"
  shows "SignatureHeader_parse (m @ [a, b] @ A @ B @ C @ D @ rest) = Ok (rest,
    \<lparr>sh_signature = m, sh_major_version = a, sh_minor_version = b, sh_start_header_crc = from_le_bytes A,
     sh_next_header_offset = from_le_bytes B, sh_next_header_size = from_le_bytes C,
     sh_next_header_crc = from_le_bytes D\<rparr>)"
  using assms by (simp add: SignatureHeader_parse_def nth_append)

lemma written_signature:
  fixes crc :: "bytes \<Rightarrow> u32" and offset :: u64
  assumes "length next_header < usize_limit"
  defines "written \<equiv> signature_bytes crc offset next_header"
  obtains signature where "\<And>rest. SignatureHeader_parse (written @ rest) = Ok (rest, signature)"
    "sh_signature signature = SEVEN_Z_MAGIC" "sh_next_header_offset signature = offset"
    "unat (sh_next_header_size signature) = length next_header" "sh_next_header_crc signature = crc next_header"
    "validate_start_header_crc crc signature = Ok ()" "\<And>rest. candidate_at crc (written @ rest) 0 = Valid signature"
    "length written = 32" "\<And>rest n. 6 \<le> n \<Longrightarrow> \<exists>cs. find_magic_offsets (take n (written @ rest)) = 0 # cs"
proof -
  define signature where "signature = \<lparr>sh_signature = SEVEN_Z_MAGIC, sh_major_version = 0, sh_minor_version = 4,
    sh_start_header_crc = crc (to_le_bytes 8 offset @ to_le_bytes 8 (of_nat (length next_header) :: u64) @
      to_le_bytes 4 (crc next_header)),
    sh_next_header_offset = offset, sh_next_header_size = of_nat (length next_header),
    sh_next_header_crc = crc next_header\<rparr>"
  have written: "written = SEVEN_Z_MAGIC @ [0, 4] @ to_le_bytes 4 (sh_start_header_crc signature) @
      to_le_bytes 8 offset @ to_le_bytes 8 (of_nat (length next_header) :: u64) @ to_le_bytes 4 (crc next_header)"
    by (simp add: written_def signature_bytes_def Let_def signature_def SEVEN_Z_MAGIC_def)
  have len: "length written = 32" by (simp add: written SEVEN_Z_MAGIC_def)
  have parse: "SignatureHeader_parse (written @ rest) = Ok (rest, signature)" for rest
    using signature_fields [of SEVEN_Z_MAGIC "to_le_bytes 4 (sh_start_header_crc signature)" "to_le_bytes 8 offset"
      "to_le_bytes 8 (of_nat (length next_header) :: u64)" "to_le_bytes 4 (crc next_header)" 0 4 rest]
    by (simp add: written SEVEN_Z_MAGIC_def) (simp add: signature_def SEVEN_Z_MAGIC_def)
  have valid: "validate_start_header_crc crc signature = Ok ()"
    by (simp add: validate_start_header_crc_def signature_def)
  have candidate: "candidate_at crc (written @ rest) 0 = Valid signature" for rest
    using parse [of "[]"] valid by (simp add: candidate_at_def len) (simp add: signature_def)
  have first: "\<exists>cs. find_magic_offsets (take n (written @ rest)) = 0 # cs" if "6 \<le> n" for n rest
  proof -
    have "take 6 (take n (written @ rest)) = SEVEN_Z_MAGIC" using that by (simp add: written SEVEN_Z_MAGIC_def min_def)
    moreover have "0 < length (take n (written @ rest)) - 5" using that by (simp add: len)
    ultimately show ?thesis unfolding find_magic_offsets_def by (simp add: upt_conv_Cons del: upt_Suc take_take)
  qed
  show thesis
    using assms(1) by (intro that [of signature] parse valid candidate len first) (simp_all add: signature_def unat_of_nat)
qed

text \<open>
  The signature header the writer puts in front of an archive is read back: it parses to the
  offset, the size and the checksum of the header it was made for, its own checksum holds, and a search
  finds it at once.
\<close>

theorem signature_read_back:
  fixes crc :: "bytes \<Rightarrow> u32" and offset :: u64
  assumes "length next_header < usize_limit" and "length rest + 64 \<le> usize_limit"
  defines "written \<equiv> signature_bytes crc offset next_header"
  shows "\<exists>signature. SignatureHeader_parse (written @ rest) = Ok (rest, signature) \<and>
    sh_signature signature = SEVEN_Z_MAGIC \<and> sh_next_header_offset signature = offset \<and>
    unat (sh_next_header_size signature) = length next_header \<and>
    sh_next_header_crc signature = crc next_header \<and> validate_start_header_crc crc signature = Ok () \<and>
    find_signature_in_slice crc (written @ rest) = Ok 0"
proof -
  obtain signature where sig: "\<And>rest. SignatureHeader_parse (written @ rest) = Ok (rest, signature)"
    "sh_signature signature = SEVEN_Z_MAGIC" "sh_next_header_offset signature = offset"
    "unat (sh_next_header_size signature) = length next_header" "sh_next_header_crc signature = crc next_header"
    "validate_start_header_crc crc signature = Ok ()" "\<And>rest. candidate_at crc (written @ rest) 0 = Valid signature"
    "length written = 32" and first: "\<And>rest n. 6 \<le> n \<Longrightarrow> \<exists>cs. find_magic_offsets (take n (written @ rest)) = 0 # cs"
    using written_signature [OF assms(1), of crc offset] unfolding written_def by metis
  obtain cs where "find_magic_offsets (written @ rest) = 0 # cs"
    using first [of "length (written @ rest)" rest] sig(8) by auto
  then have "find_signature_in_slice crc (written @ rest) = Ok 0"
    using find_signature_in_slice_valid [of "written @ rest" crc] assms(2) sig(7,8) by simp
  then show ?thesis using sig by blast
qed

theorem signature_read_back_witness:
  "\<exists>signature. SignatureHeader_parse (signature_bytes (\<lambda>_. 7) 5 [1, 2, 3] @ [9]) = Ok ([9], signature) \<and>
     unat (sh_next_header_size signature) = 3 \<and> find_signature_in_slice (\<lambda>_. 7) (signature_bytes (\<lambda>_. 7) 5 [1, 2, 3] @ [9]) = Ok 0"
  using signature_read_back [of "[1, 2, 3]" "[9]" "\<lambda>_. 7" 5] by auto

end
