(* ===== verification/Packed_Source.thy ===== *)
theory Packed_Source
  imports Archive_Source Decoder_Open
begin

text \<open>
  From the folder tables to a started decoder: \<open>PackedSource\<close> and the checksums of packed
  streams in \<^verbatim>\<open>src/src/archive.rs\<close>, \<open>FolderLayout::bind\<close> and
  \<open>ExternalFolderPlan::decode\<close> in \<^verbatim>\<open>src/src/folder_decode.rs\<close>.
\<close>

section \<open>Checked arithmetic\<close>

definition checked_add_u64 :: "u64 \<Rightarrow> u64 \<Rightarrow> u64 r7z_result" where
  "checked_add_u64 lhs rhs = ok_or Parse (u64_checked_add lhs rhs)"

text \<open>\<open>from_range\<close> panics on an inverted range; the sum does not wrap, so it is not inverted.\<close>

definition checked_range_u64 :: "u64 \<Rightarrow> u64 \<Rightarrow> u64 \<Rightarrow> ByteRange r7z_result" where
  "checked_range_u64 total_len start len =
     and_then (ok_or Parse (u64_checked_add start len)) (\<lambda>end.
       if end \<le> total_len then Ok \<lparr>br_start = start, br_end = end\<rparr> else Err Parse)"

lemma checked_range_Ok:
  assumes "checked_range_u64 total_len start len = Ok rng"
  shows "br_start rng = start" "unat (br_end rng) = unat start + unat len" "br_end rng \<le> total_len"
proof -
  from assms obtain e where "u64_checked_add start len = Some e" "e \<le> total_len" "rng = \<lparr>br_start = start, br_end = e\<rparr>"
    by (auto simp: checked_range_u64_def split: if_splits)
  then show "br_start rng = start" "unat (br_end rng) = unat start + unat len" "br_end rng \<le> total_len"
    by (simp_all add: u64_checked_add_eq_Some)
qed



section \<open>Checksums of packed streams\<close>

text \<open>The loop of \<open>verify_source_crc\<close>; \<open>fed\<close> is what the hasher was given.\<close>

partial_function (option) crc_loop :: "('w, 'f) file_env \<Rightarrow> 'f ArchiveSource \<Rightarrow> ArchiveRangeReader \<Rightarrow> bytes \<Rightarrow> 'w \<Rightarrow>
    (bytes r7z_result \<times> 'w) option" where
  "crc_loop E source reader fed w =
     Option.bind (ArchiveRangeReader_read E source (reader, w) 65536) (\<lambda>(result, reader, w).
       case result of
         Err e \<Rightarrow> Some (Err (Io e), w)
       | Ok bs \<Rightarrow> if bs = [] then Some (Ok fed, w) else crc_loop E source reader (fed @ bs) w)"

definition verify_source_crc :: "('w, 'f) file_env \<Rightarrow> (bytes \<Rightarrow> u32) \<Rightarrow> 'f ArchiveSource \<Rightarrow> ByteRange \<Rightarrow> u32 \<Rightarrow> 'w \<Rightarrow>
    (unit r7z_result \<times> 'w) option" where
  "verify_source_crc E crc source rng expected_crc w =
     (case range_reader source rng of
        Err e \<Rightarrow> Some (Err e, w)
      | Ok reader \<Rightarrow>
          map_option (\<lambda>(result, w).
              (and_then result (\<lambda>bs. if crc bs = expected_crc then Ok () else Err Crc), w))
            (crc_loop E source reader [] w))"

text \<open>The loop of \<open>verify_additional_pack_crcs\<close> over the enumerated sizes.\<close>

fun pack_crcs_loop :: "('w, 'f) file_env \<Rightarrow> (bytes \<Rightarrow> u32) \<Rightarrow> 'f ArchiveSource \<Rightarrow> u32 option list \<Rightarrow> u64 \<Rightarrow> nat \<Rightarrow> u64 \<Rightarrow>
    u64 list \<Rightarrow> 'w \<Rightarrow> (unit r7z_result \<times> 'w) option" where
  "pack_crcs_loop E crc source digests data_start index pack_offset [] w = Some (Ok (), w)"
| "pack_crcs_loop E crc source digests data_start index pack_offset (sz # sizes) w =
     (case (and_then (checked_add_u64 data_start pack_offset) (\<lambda>start.
            and_then (source_len source) (\<lambda>len. checked_range_u64 len start sz))) of
        Err e \<Rightarrow> Some (Err e, w)
      | Ok rng \<Rightarrow>
          Option.bind
            (case digest_at digests index of
               Some expected_crc \<Rightarrow> verify_source_crc E crc source rng expected_crc w
             | None \<Rightarrow> Some (Ok (), w)) (\<lambda>(verified, w).
            case (and_then verified (\<lambda>_. checked_add_u64 pack_offset sz)) of
              Err e \<Rightarrow> Some (Err e, w)
            | Ok pack_offset \<Rightarrow> pack_crcs_loop E crc source digests data_start (index + 1) pack_offset sizes w))"

definition verify_additional_pack_crcs :: "('w, 'f) file_env \<Rightarrow> (bytes \<Rightarrow> u32) \<Rightarrow> 'f ArchiveSource \<Rightarrow> u64 \<Rightarrow> PackInfo \<Rightarrow> 'w \<Rightarrow>
    (unit r7z_result \<times> 'w) option" where
  "verify_additional_pack_crcs E crc source base_offset pack w =
     (case (and_then (checked_add_u64 base_offset 32) (\<lambda>n. checked_add_u64 n (pack_pos pack))) of
        Err e \<Rightarrow> Some (Err e, w)
      | Ok data_start \<Rightarrow> pack_crcs_loop E crc source (pi_digests pack) data_start 0 0 (pack_size pack) w)"

text \<open>\<open>PackedSource\<close> is the source and the offset its packed streams are counted from.\<close>

record 'f PackedSource =
  pso_source :: "'f ArchiveSource"
  pso_start :: u64

definition PackedSource_new :: "'f ArchiveSource \<Rightarrow> u64 \<Rightarrow> u64 \<Rightarrow> 'f PackedSource r7z_result" where
  "PackedSource_new source base_offset packed =
     and_then (and_then (checked_add_u64 base_offset 32) (\<lambda>n. checked_add_u64 n packed)) (\<lambda>start.
       Ok \<lparr>pso_source = source, pso_start = start\<rparr>)"

definition PackedSource_range :: "('w, 'f) file_env \<Rightarrow> (bytes \<Rightarrow> u32) \<Rightarrow> 'f PackedSource \<Rightarrow> PackedStream \<Rightarrow> 'w \<Rightarrow>
    (ByteRange r7z_result \<times> 'w) option" where
  "PackedSource_range E crc self stream w =
     (case (and_then (checked_add_u64 (pso_start self) (br_start (ps_range stream))) (\<lambda>start.
            let sz = ByteRange_len (ps_range stream) in
            and_then (source_len (pso_source self)) (\<lambda>len. checked_range_u64 len start sz))) of
        Err e \<Rightarrow> Some (Err e, w)
      | Ok rng \<Rightarrow>
          (case ps_crc stream of
             None \<Rightarrow> Some (Ok rng, w)
           | Some expected_crc \<Rightarrow>
               map_option (\<lambda>(verified, w). (and_then verified (\<lambda>_. Ok rng), w))
                 (verify_source_crc E crc (pso_source self) rng expected_crc w)))"

definition PackedSource_reader :: "('w, 'f) file_env \<Rightarrow> (bytes \<Rightarrow> u32) \<Rightarrow> 'f PackedSource \<Rightarrow> PackedStream \<Rightarrow> 'w \<Rightarrow>
    (ArchiveRangeReader PackedInput r7z_result \<times> 'w) option" where
  "PackedSource_reader E crc self stream w =
     map_option (\<lambda>(rng, w).
         (and_then rng (\<lambda>rng. and_then (packed_input (pso_source self) rng) (\<lambda>(reader, sz).
            Ok \<lparr>pi_reader = reader, pi_size = sz\<rparr>)), w))
       (PackedSource_range E crc self stream w)"


section \<open>Binding a folder to its packed streams\<close>

text \<open>
  What a decoder is made of: the codecs, the memory their crates announce, the checksum, the password, and the
  closure \<open>open\<close> that gives the reader of a packed stream (\<open>PackedSource_reader\<close> for an archive) with what it
  closes over. A reader of packed data answers by its own position: the archive does not change while it is read.
\<close>

record ('b, 'd, 'r, 'w) engine =
  eng_codecs :: "('b, 'd) codecs"
  eng_lzma_mem :: "u32 \<Rightarrow> u8 \<Rightarrow> u32 option"
  eng_lzma2_mem :: "u32 \<Rightarrow> u32"
  eng_crc :: "bytes \<Rightarrow> u32"
  eng_read :: "'r reader"
  eng_open :: "PackedStream \<Rightarrow> 'w \<Rightarrow> ('r PackedInput r7z_result \<times> 'w) option"
  eng_password :: "code_point list option"

text \<open>\<open>iter().map(&mut open).collect()\<close>; an item that is \<open>None\<close> is the panic of an inverted range.\<close>

fun open_streams :: "(PackedStream \<Rightarrow> 'w \<Rightarrow> ('r PackedInput r7z_result \<times> 'w) option) \<Rightarrow> PackedStream option list \<Rightarrow> 'w \<Rightarrow>
    ('r PackedInput list r7z_result \<times> 'w) option" where
  "open_streams opn [] w = Some (Ok [], w)"
| "open_streams opn (None # streams) w = None"
| "open_streams opn (Some stream # streams) w =
     Option.bind (opn stream w) (\<lambda>(input, w).
       case input of
         Err e \<Rightarrow> Some (Err e, w)
       | Ok input \<Rightarrow>
           map_option (\<lambda>(inputs, w). (and_then inputs (\<lambda>inputs. Ok (input # inputs)), w)) (open_streams opn streams w))"

definition FolderLayout_bind :: "('b, 'd, 'r, 'w) engine \<Rightarrow> FolderLayout \<Rightarrow> OperationBudget \<Rightarrow> 'w \<Rightarrow>
    ('r ReadyDecoder ReadyFolder r7z_result \<times> OperationBudget \<times> 'w) option" where
  "FolderLayout_bind G self budget w =
     (let state = fl_state self in
      Option.bind (compile_with_budget (eng_lzma_mem G) (eng_lzma2_mem G) (lo_folder state) (lo_graph state)
          (lo_unpack_size state) (lo_coder_sizes state) (ps_sizes (lo_streams state)) budget) (\<lambda>compiled.
        case compiled of
          Err e \<Rightarrow> Some (Err e, budget, w)
        | Ok (plan, budget) \<Rightarrow>
            map_option (\<lambda>(inputs, w).
                (and_then inputs (\<lambda>inputs. and_then (DecoderPlan_bind plan inputs) (\<lambda>decoder.
                   Ok \<lparr>rf_decoder = decoder, rf_layout = fl_layout self,
                       rf_unpack_size = lo_unpack_size state, rf_crc = lo_crc state\<rparr>)), budget, w))
              (open_streams (eng_open G) (packed_streams_iter (lo_streams state)) w)))"

definition start_folder :: "('b, 'd, 'r, 'w) engine \<Rightarrow> 'r ReadyDecoder ReadyFolder \<Rightarrow> OperationBudget \<Rightarrow>
    dyn FolderReader ActiveFolder r7z_result \<times> OperationBudget" where
  "start_folder G =
     ReadyFolder_start eager_output_size
       (\<lambda>decoder budget. ReadyDecoder_start (eng_codecs G) (eng_read G) decoder (eng_password G) budget)"

text \<open>\<open>collect\<close> of a bound folder. How \<open>read_to_end\<close> sizes its reads is \<open>chunk\<close>.\<close>

definition collect_folder :: "('b, 'd, 'r, 'w) engine \<Rightarrow> (nat \<Rightarrow> nat) \<Rightarrow> 'r ReadyDecoder ReadyFolder \<Rightarrow> u64 \<Rightarrow> OperationBudget \<Rightarrow>
    (DecodedFolder r7z_result \<times> OperationBudget) option" where
  "collect_folder G chunk =
     collect (eng_crc G) chunk dyn_read
       (\<lambda>decoder budget. ReadyDecoder_start (eng_codecs G) (eng_read G) decoder (eng_password G) budget)"

definition decode_metadata_folder :: "('b, 'd, 'r, 'w) engine \<Rightarrow> (nat \<Rightarrow> nat) \<Rightarrow> FolderLayout \<Rightarrow> u64 \<Rightarrow> OperationBudget \<Rightarrow> 'w \<Rightarrow>
    (DecodedFolder r7z_result \<times> OperationBudget \<times> 'w) option" where
  "decode_metadata_folder G chunk folder metadata_limit budget w =
     Option.bind (FolderLayout_bind G folder budget w) (\<lambda>(prepared, budget, w).
       case prepared of
         Err e \<Rightarrow> Some (Err e, budget, w)
       | Ok prepared \<Rightarrow>
           map_option (\<lambda>(dfolder, budget). (dfolder, budget, w)) (collect_folder G chunk prepared metadata_limit budget))"


section \<open>External folder definitions\<close>

text \<open>The loop of \<open>ExternalFolderPlan::decode\<close> over the folders.\<close>

function decode_folders :: "('b, 'd, 'r, 'w) engine \<Rightarrow> (nat \<Rightarrow> nat) \<Rightarrow> nom \<Rightarrow> FolderPlans \<Rightarrow> u64 \<Rightarrow> ExternalFolderCollector \<Rightarrow>
    OperationBudget \<Rightarrow> 'w \<Rightarrow> (ExternalFolderCollector r7z_result \<times> OperationBudget \<times> 'w) option" where
  "decode_folders G chunk N folders output_limit output budget w =
     (case FolderPlans_next N folders of
        (None, _) \<Rightarrow> Some (Ok output, budget, w)
      | (Some (Err e), _) \<Rightarrow> Some (Err e, budget, w)
      | (Some (Ok folder), folders) \<Rightarrow>
          Option.bind (decode_metadata_folder G chunk folder output_limit budget w) (\<lambda>(dfolder, budget, w).
            case dfolder of
              Err e \<Rightarrow> Some (Err e, budget, w)
            | Ok dfolder \<Rightarrow>
                Option.bind (collector_append (eng_crc G) output dfolder) (\<lambda>output.
                  case output of
                    Err e \<Rightarrow> Some (Err e, budget, w)
                  | Ok output \<Rightarrow> decode_folders G chunk N folders output_limit output budget w)))"
  by pat_completeness auto
termination
  by (relation "measure (\<lambda>(G, chunk, N, folders, output_limit, output, budget, w). plans_left folders)")
     (auto dest: FolderPlans_next_progress [OF sym])

declare decode_folders.simps [simp del]

definition ExternalFolderPlan_decode :: "('b, 'd, 'r, 'w) engine \<Rightarrow> (nat \<Rightarrow> nat) \<Rightarrow> nom \<Rightarrow> ExternalFolderPlan \<Rightarrow> OperationBudget \<Rightarrow> 'w \<Rightarrow>
    (bytes list r7z_result \<times> OperationBudget \<times> 'w) option" where
  "ExternalFolderPlan_decode G chunk N self budget w =
     map_option (\<lambda>(output, budget, w). (and_then output collector_finish, budget, w))
       (decode_folders G chunk N (fls_plans (ep_folders self)) (ep_output_limit self)
         (ExternalFolderData_reserve (fls_stream_count (ep_folders self))) budget w)"

end
