(* ===== verification/Entry_Decoder.thy ===== *)
theory Entry_Decoder
  imports Packed_Source Archive_Paths File_Streams
begin

text \<open>
  \<^verbatim>\<open>src/src/archive.rs\<close>: the decoder that serves the entries of an archive one after the other, the read
  session and the streaming functions on top of it, and the copy of an entry into memory.

  Every operation that runs a decoder has an option around its outcome: \<open>None\<close> is a decoder or a
  callback that does not return, or a panic. The state of the decoder is returned whatever the outcome.
\<close>

section \<open>Readable entries\<close>

datatype EntryContent = Content_Empty | Content_Stream StreamLocation

record ReadableEntry =
  re_info :: ArchiveEntryInfo
  re_content :: EntryContent

definition ReadableEntry_from_file :: "platform \<Rightarrow> FileStream \<Rightarrow> ReadableEntry option" where
  "ReadableEntry_from_file platform file =
     (let etype = EntryKind_entry_type (ent_kind file);
          readable = (\<lambda>content. Some
            \<lparr>re_info = ArchiveEntryInfo_from_metadata platform (ent_metadata file) etype, re_content = content\<rparr>)
      in
      case ent_kind file of
        EK_File location \<Rightarrow> readable (Content_Stream location)
      | EK_Symlink location \<Rightarrow> readable (Content_Stream location)
      | EK_EmptyFile \<Rightarrow> readable Content_Empty
      | EK_EmptySymlink \<Rightarrow> readable Content_Empty
      | EK_Directory \<Rightarrow> None
      | EK_Anti \<Rightarrow> None)"


section \<open>The decoder of entries\<close>

text \<open>
  \<open>ed_world\<close> is what the closure that opens packed streams closes over. The source and the password
  of the decoder are in its \<open>engine\<close>.
\<close>

abbreviation "folder_read \<equiv> FolderReader_read dyn_read"

type_synonym active = "nat \<times> dyn FolderReader ActiveFolder"

record 'w EntryDecoder =
  ed_verification :: ReadVerification
  ed_current :: "active option"
  ed_mode :: CompletionMode
  ed_budget :: OperationBudget
  ed_world :: 'w

definition EntryDecoder_complete :: "('b, 'd, 'r, 'w) engine \<Rightarrow> 'w EntryDecoder \<Rightarrow> active option \<Rightarrow>
    (unit r7z_result \<times> 'w EntryDecoder) option" where
  "EntryDecoder_complete G self active =
     (case active of
        None \<Rightarrow> Some (Ok (), self)
      | Some (_, folder) \<Rightarrow>
          map_option (\<lambda>(result, budget).
              let self = self\<lparr>ed_budget := budget\<rparr> in
              (case result of
                 Ok verification \<Rightarrow>
                   (Ok (), self\<lparr>ed_verification := combine (ed_verification self) verification\<rparr>)
               | Err error \<Rightarrow> (Err error, self\<lparr>ed_verification := Incomplete_read\<rparr>)))
            (finish (eng_crc G) folder_read folder (ed_mode self) (ed_budget self)))"

text \<open>The folder that is read next: the current one, or a new one once the old one is completed.\<close>

definition switch_folder :: "('b, 'd, 'r, 'w) engine \<Rightarrow> 'w EntryDecoder \<Rightarrow> StreamLocation \<Rightarrow>
    (dyn FolderReader ActiveFolder r7z_result \<times> 'w EntryDecoder) option" where
  "switch_folder G self location =
     (let current = ed_current self; self = self\<lparr>ed_current := None\<rparr> in
      let open_next =
        Option.bind (EntryDecoder_complete G self current) (\<lambda>(completed, self).
          case completed of
            Err e \<Rightarrow> Some (Err e, self)
          | Ok _ \<Rightarrow>
              map_option (\<lambda>(prepared, budget, w).
                  (case prepared of
                     Err e \<Rightarrow> (Err e, self\<lparr>ed_budget := budget, ed_world := w\<rparr>)
                   | Ok prepared \<Rightarrow>
                       (case start_folder G prepared budget of
                          (started, budget) \<Rightarrow> (started, self\<lparr>ed_budget := budget, ed_world := w\<rparr>))))
                (FolderLayout_bind G (loc_folder location) (ed_budget self) (ed_world self)))
      in
      case current of
        Some (index, folder) \<Rightarrow> if index = loc_folder_index location then Some (Ok folder, self) else open_next
      | None \<Rightarrow> open_next)"

definition EntryDecoder_read_stream :: "('b, 'd, 'r, 'w) engine \<Rightarrow> 'w EntryDecoder \<Rightarrow> StreamLocation \<Rightarrow>
    'c Readers.callback \<Rightarrow> 'c \<Rightarrow> (unit r7z_result \<times> 'w EntryDecoder \<times> 'c) option" where
  "EntryDecoder_read_stream G self location cb c =
     Option.bind (switch_folder G self location) (\<lambda>(folder, self).
       case folder of
         Err e \<Rightarrow> Some (Err e, self, c)
       | Ok folder \<Rightarrow>
           Option.bind (skip_to (eng_crc G) folder_read folder (loc_stream_index location) (ed_budget self))
             (\<lambda>(folder, budget).
             case folder of
               Err e \<Rightarrow> Some (Err e, self\<lparr>ed_budget := budget\<rparr>, c)
             | Ok folder \<Rightarrow>
                 map_option (\<lambda>(folder, budget, c).
                     (case folder of
                        Err e \<Rightarrow> (Err e, self\<lparr>ed_budget := budget\<rparr>, c)
                      | Ok folder \<Rightarrow>
                          (Ok (), self\<lparr>ed_budget := budget, ed_current := Some (loc_folder_index location, folder)\<rparr>, c)))
                   (read_stream (eng_crc G) folder_read folder budget cb c)))"

text \<open>An empty entry is read from \<open>std::io::empty\<close>.\<close>

definition empty_read :: "unit reader" where
  "empty_read r n = (Ok [], r)"

definition EntryDecoder_read :: "('b, 'd, 'r, 'w) engine \<Rightarrow> 'w EntryDecoder \<Rightarrow> ReadableEntry \<Rightarrow>
    (ArchiveEntryInfo \<Rightarrow> 'c Readers.callback) \<Rightarrow> 'c \<Rightarrow> (unit r7z_result \<times> 'w EntryDecoder \<times> 'c) option" where
  "EntryDecoder_read G self entry cb c =
     map_option (\<lambda>(result, self, c).
         (result, (case result of Err _ \<Rightarrow> self\<lparr>ed_verification := Incomplete_read\<rparr> | Ok _ \<Rightarrow> self), c))
       (case monitor_check (monitor (ed_budget self)) of
          Err e \<Rightarrow> Some (Err e, self, c)
        | Ok _ \<Rightarrow>
            (case re_content entry of
               Content_Empty \<Rightarrow>
                 map_option (\<lambda>(result, c, _). (result, self, c)) (run_callback empty_read (cb (re_info entry)) c ())
             | Content_Stream location \<Rightarrow> EntryDecoder_read_stream G self location (cb (re_info entry)) c))"

definition EntryDecoder_finish :: "('b, 'd, 'r, 'w) engine \<Rightarrow> 'w EntryDecoder \<Rightarrow>
    (ReadVerification r7z_result \<times> 'w EntryDecoder) option" where
  "EntryDecoder_finish G self =
     map_option (\<lambda>(completed, self).
         (and_then completed (\<lambda>_. and_then (monitor_check (monitor (ed_budget self))) (\<lambda>_. Ok (ed_verification self))), self))
       (EntryDecoder_complete G (self\<lparr>ed_current := None\<rparr>) (ed_current self))"


section \<open>Read sessions\<close>

text \<open>
  An opened archive. Its identity, which only tells the raw folders of archives apart, is left out.
  The sections of the header are parsed on demand.
\<close>

record 'f Archive =
  ar_source :: "'f ArchiveSource"
  ar_base_offset :: u64
  ar_signature :: SignatureHeader
  ar_encoded_header :: "EncodedHeader option"
  ar_header :: Header

definition Archive_num_files :: "'f Archive \<Rightarrow> nat" where
  "Archive_num_files self = (case usize_try_from (h_num_files (ar_header self)) of Some n \<Rightarrow> n | None \<Rightarrow> 0)"

lemma Archive_num_files_less: "Archive_num_files self < usize_limit"
  using unsigned_less [of "h_num_files (ar_header self)"] by (simp add: Archive_num_files_def usize_try_from_def)

definition Archive_try_files_info :: "nom \<Rightarrow> 'f Archive \<Rightarrow> FilesInfo option r7z_result" where
  "Archive_try_files_info N self = try_files_info N (ar_header self)"

definition Archive_try_streams_info :: "nom \<Rightarrow> 'f Archive \<Rightarrow> StreamInfo option r7z_result" where
  "Archive_try_streams_info N self = try_streams_info N (ar_header self)"

record ArchiveReadConfig =
  rc_options :: ResourceLimits
  rc_control :: "OperationControl option"

record 'w ArchiveReadSession =
  rs_files :: FileStreams
  rs_decoder :: "'w EntryDecoder"
  rs_count :: nat

definition archive_file_streams :: "nom \<Rightarrow> 'f Archive \<Rightarrow> FileStreams r7z_result" where
  "archive_file_streams N self =
     and_then (Archive_try_files_info N self) (\<lambda>files.
     and_then (Archive_try_streams_info N self) (\<lambda>streams. FileStreams_new files (Archive_num_files self) streams))"

text \<open>
  \<open>connect\<close> makes the engine and its world for a position of the packed data; it fails where
  \<open>PackedSource::new\<close> does.
\<close>

type_synonym ('b, 'd, 'r, 'w) connect = "u64 \<Rightarrow> (('b, 'd, 'r, 'w) engine \<times> 'w) r7z_result"

definition new_decoder :: "'w \<Rightarrow> CompletionMode \<Rightarrow> ArchiveReadConfig \<Rightarrow> 'w EntryDecoder" where
  "new_decoder w mode config =
     \<lparr>ed_verification = CompleteFolders, ed_current = None, ed_mode = mode,
      ed_budget = with_control (OperationBudget_new (rc_options config)) (rc_control config), ed_world = w\<rparr>"

definition files_pack_pos :: "FileStreams \<Rightarrow> u64" where
  "files_pack_pos self = fs_pack_pos self"

definition read_session_with_options :: "('b, 'd, 'r, 'w) connect \<Rightarrow> nom \<Rightarrow> 'f Archive \<Rightarrow> ArchiveReadConfig \<Rightarrow>
    (('b, 'd, 'r, 'w) engine \<times> 'w ArchiveReadSession) r7z_result" where
  "read_session_with_options connect N self config =
     and_then (archive_file_streams N self) (\<lambda>files.
     and_then (connect (files_pack_pos files)) (\<lambda>(G, w).
       Ok (G, \<lparr>rs_files = files, rs_decoder = new_decoder w SelectedStreams config, rs_count = Archive_num_files self\<rparr>)))"

text \<open>The subtraction panics below zero.\<close>

definition read_entry :: "('b, 'd, 'r, 'w) engine \<Rightarrow> nom \<Rightarrow> platform \<Rightarrow> 'w ArchiveReadSession \<Rightarrow> nat \<Rightarrow> 'c Readers.callback \<Rightarrow> 'c \<Rightarrow>
    (unit r7z_result \<times> 'w ArchiveReadSession \<times> 'c) option" where
  "read_entry G N platform self index cb c =
     (case checked_sub (rs_count self) (FileStreams_len (rs_files self)) of
        None \<Rightarrow> None
      | Some first \<Rightarrow>
          if \<not> (first \<le> index \<and> index < rs_count self)
          then Some (Err (InvalidOptions ''read session requires increasing valid entry indexes''), self, c)
          else
            (case FileStreams_nth N (rs_files self) (index - first) of
               None \<Rightarrow> None
             | Some (file, files) \<Rightarrow>
                 let self = self\<lparr>rs_files := files\<rparr> in
                 (case (and_then file (\<lambda>file. and_then (ok_or Parse file) (\<lambda>file.
                        ok_or Directory (ReadableEntry_from_file platform file)))) of
                    Err e \<Rightarrow> Some (Err e, self, c)
                  | Ok entry \<Rightarrow>
                      map_option (\<lambda>(result, decoder, c). (result, self\<lparr>rs_decoder := decoder\<rparr>, c))
                        (EntryDecoder_read G (rs_decoder self) entry (\<lambda>_. cb) c))))"

definition session_finish :: "('b, 'd, 'r, 'w) engine \<Rightarrow> 'w ArchiveReadSession \<Rightarrow>
    (ReadVerification r7z_result \<times> 'w ArchiveReadSession) option" where
  "session_finish G self =
     map_option (\<lambda>(result, decoder). (result, self\<lparr>rs_decoder := decoder\<rparr>)) (EntryDecoder_finish G (rs_decoder self))"

end
