(* ===== verification/Guarded_Readers.thy ===== *)
theory Guarded_Readers
  imports Entry_Decoder
begin

text \<open>
  The laws of active folders hold for readers that never return more than they are asked for. A started
  decoder is such a reader in every state it can reach, though not every boxed reader is. A reader
  that is made to keep the contract everywhere behaves the same on those states, so the laws carry over.
\<close>

definition guarded :: "'r reader \<Rightarrow> 'r reader" where
  "guarded rd r n = (case rd r n of (Ok bs, r') \<Rightarrow> (Ok (take n bs), r') | (Err e, r') \<Rightarrow> (Err e, r'))"

interpretation guarded: read_contract "guarded rd" for rd :: "'r reader"
  by unfold_locales (auto simp: guarded_def split: prod.splits result.splits)

lemma guarded_same:
  assumes "contract I rd" and "I r" and "rd r n = (answer, r')"
  shows "guarded rd r n = (answer, r')" "I r'"
  using contractD [OF assms] assms(3) by (auto simp: guarded_def split: result.splits)

lemma guarded_delivers:
  assumes "contract I rd" and "delivers (guarded rd) r bs r'" and "I r"
  shows "delivers rd r bs r' \<and> I r'"
  using assms(2,3)
proof (induction rule: delivers.induct)
  case (delivers_ok r bs r1 n cs r2)
  then show ?case
    using guarded_same [OF assms(1), of r1] delivers.delivers_ok [of rd r bs r1 n cs r2] by (metis surj_pair prod.inject)
next
  case (delivers_err r bs r1 n e r2)
  then show ?case
    using guarded_same [OF assms(1), of r1] delivers.delivers_err [of rd r bs r1 n e r2] by (metis surj_pair prod.inject)
qed (auto intro: delivers_nil)


section \<open>Runs are the same\<close>

lemma account_reader: "account_read s bs = (answer, s') \<Longrightarrow> sr_reader s' = sr_reader s"
  by (auto simp: account_read_def Let_def split: result.splits option.splits prod.splits if_splits)

lemma substream_same:
  assumes "contract I rd" and "I (sr_reader s)" and "SubstreamReader_read rd s n = (answer, s')"
  shows "SubstreamReader_read (guarded rd) s n = (answer, s') \<and> I (sr_reader s')"
proof (cases "allowed_bytes (sr_charge_budget s) (sr_budget s)")
  case None
  then show ?thesis using assms(2,3) by (auto simp: SubstreamReader_read_def Let_def split: result.splits if_splits)
next
  case (Some limit)
  let ?n = "buffer_size (monitor (sr_budget s)) (min (min (unat (sr_remaining s)) n) limit)"
  obtain a r where rd: "rd (sr_reader s) ?n = (a, r)" by (cases "rd (sr_reader s) ?n")
  note same = guarded_same [OF assms(1,2) rd]
  have "SubstreamReader_read (guarded rd) s n = SubstreamReader_read rd s n"
    by (cases "monitor_check (monitor (sr_budget s))") (simp_all add: SubstreamReader_read_def Let_def Some rd same(1))
  moreover have "sr_reader s' \<in> {sr_reader s, r}"
    using assms(3) Some rd
    by (cases a) (auto simp: SubstreamReader_read_def Let_def dest!: account_reader split: result.splits if_splits)
  ultimately show ?thesis using assms(2,3) same(2) by auto
qed

lemma callback_same:
  assumes step: "\<And>s n answer s'. I s \<Longrightarrow> rd s n = (answer, s') \<Longrightarrow> rd2 s n = (answer, s') \<and> I s'"
    and run: "run_callback rd cb c s = Some y" and "I s"
  shows "run_callback rd2 cb c s = Some y \<and> I (snd (snd y))"
proof -
  let ?P = "\<lambda>rd' cb c s y. rd' = rd \<longrightarrow> I s \<longrightarrow> run_callback rd2 cb c s = Some y \<and> I (snd (snd y))"
  have "?P rd cb c s y"
  proof (rule run_callback.raw_induct [where P = ?P, OF _ run])
    fix run rd' cb c s y
    assume IH: "\<And>rd' cb c s y. run rd' cb c s = Some y \<Longrightarrow> ?P rd' cb c s y"
      and eq: "(case cb c of Return result \<Rightarrow> Some (result, c, s)
        | Ask n k \<Rightarrow> (case rd' s n of (answer, s) \<Rightarrow> run rd' cb (k answer) s)) = Some y"
    show "?P rd' cb c s y"
    proof (intro impI)
      assume "rd' = rd" "I s"
      then show "run_callback rd2 cb c s = Some y \<and> I (snd (snd y))"
        using eq by (cases "cb c") (auto simp: run_callback.simps [of rd2 cb c s] split: prod.splits dest!: IH [rule_format] dest: step)
    qed
  qed
  with \<open>I s\<close> show ?thesis by simp
qed

lemma drain_same:
  assumes step: "\<And>s n answer s'. I s \<Longrightarrow> rd s n = (answer, s') \<Longrightarrow> rd2 s n = (answer, s') \<and> I s'"
    and run: "drain rd s = Some y" and "I s"
  shows "drain rd2 s = Some y \<and> I (snd y)"
proof -
  let ?P = "\<lambda>rd' s y. rd' = rd \<longrightarrow> I s \<longrightarrow> drain rd2 s = Some y \<and> I (snd y)"
  have "?P rd s y"
  proof (rule drain.raw_induct [where P = ?P, OF _ run])
    fix run rd' s y
    assume IH: "\<And>rd' s y. run rd' s = Some y \<Longrightarrow> ?P rd' s y"
      and eq: "(case rd' s COPY_BUFFER of
          (Err e, s) \<Rightarrow> if e = IoKind Interrupted then run rd' s else Some (Err e, s)
        | (Ok bs, s) \<Rightarrow> if bs = [] then Some (Ok (), s) else run rd' s) = Some y"
    show "?P rd' s y"
    proof (intro impI)
      assume rd': "rd' = rd" and s: "I s"
      obtain a t where read: "rd s COPY_BUFFER = (a, t)" by (cases "rd s COPY_BUFFER")
      from step [OF s this] have "rd2 s COPY_BUFFER = (a, t)" "I t" by simp_all
      then show "drain rd2 s = Some y \<and> I (snd y)"
        using eq read rd' by (cases a) (auto simp: drain.simps [of rd2 s] split: if_splits dest!: IH [rule_format])
    qed
  qed
  with \<open>I s\<close> show ?thesis by simp
qed

lemma finish_stream_same:
  assumes "contract I rd" and "I (sr_reader s)" and "finish_stream crc rd cr s = Some (result, s')"
  shows "finish_stream crc (guarded rd) cr s = Some (result, s') \<and> I (sr_reader s')"
proof (cases "sr_limit_exceeded s \<or> (\<exists>e. map_err restore_callback_error cr = Err e)")
  case True
  then show ?thesis using assms(2,3) by (auto simp: finish_stream_def split: result.splits if_splits)
next
  case False
  then obtain r t where d: "drain (SubstreamReader_read rd) s = Some (r, t)"
    using assms(3) by (auto simp: finish_stream_def bind_eq_Some_conv split: result.splits)
  have "drain (SubstreamReader_read (guarded rd)) s = Some (r, t) \<and> I (sr_reader (snd (r, t)))"
    by (rule drain_same [where I = "\<lambda>s. I (sr_reader s)", OF _ d assms(2)]) (rule substream_same [OF assms(1)])
  then show ?thesis using False d assms(3) by (auto simp: finish_stream_def split: result.splits)
qed

lemma read_stream_same:
  assumes "contract I rd" and "I (af_reader f)" and "read_stream crc rd f b cb c = Some (result, b', c')"
  shows "read_stream crc (guarded rd) f b cb c = Some (result, b', c') \<and> (\<forall>f'. result = Ok f' \<longrightarrow> I (af_reader f'))"
proof -
  obtain item streams where nxt: "substreams_next (af_streams f) = Some (item, streams)"
    using assms(3) by (auto simp: read_stream_def bind_eq_Some_conv)
  show ?thesis
  proof (cases item)
    case None
    then show ?thesis using nxt assms(3) by (auto simp: read_stream_def)
  next
    case (Some stream)
    let ?s = "substream_reader f stream b"
    obtain r d t where cb: "run_callback (SubstreamReader_read rd) cb c ?s = Some (r, d, t)"
      using nxt Some assms(3) by (auto simp: read_stream_def bind_eq_Some_conv)
    have s: "I (sr_reader ?s)" using assms(2) by (simp add: substream_reader_def)
    have cb2: "run_callback (SubstreamReader_read (guarded rd)) cb c ?s = Some (r, d, t) \<and> I (sr_reader (snd (snd (r, d, t))))"
      by (rule callback_same [where I = "\<lambda>s. I (sr_reader s)", OF _ cb s]) (rule substream_same [OF assms(1)])
    obtain q u where fin: "finish_stream crc rd r t = Some (q, u)"
      using nxt Some cb assms(3) by (auto simp: read_stream_def bind_eq_Some_conv)
    have "finish_stream crc (guarded rd) r t = Some (q, u) \<and> I (sr_reader u)"
      using finish_stream_same [OF assms(1) _ fin] cb2 by simp
    then show ?thesis using nxt Some cb cb2 fin assms(3) by (auto simp: read_stream_def put_back_def)
  qed
qed

lemma skip_streams_same:
  assumes "contract I rd" and "I (af_reader f)" and "skip_streams crc rd k f b = Some (result, b')"
  shows "skip_streams crc (guarded rd) k f b = Some (result, b') \<and> (\<forall>f'. result = Ok f' \<longrightarrow> I (af_reader f'))"
  using assms(2,3)
proof (induction k arbitrary: f b)
  case (Suc k)
  obtain r b1 u where step: "read_stream crc rd f b consume_nothing () = Some (r, b1, u)"
    using Suc.prems(2) by (auto simp: bind_eq_Some_conv)
  note same = read_stream_same [OF assms(1) Suc.prems(1) step]
  show ?case
  proof (cases r)
    case (Ok g)
    then show ?thesis using Suc.IH [of g b1] Suc.prems(2) same step by simp
  qed (use Suc.prems(2) same step in auto)
qed auto

lemma skip_to_same:
  assumes "contract I rd" and "I (af_reader f)" and "skip_to crc rd f pos b = Some (result, b')"
  shows "skip_to crc (guarded rd) f pos b = Some (result, b') \<and> (\<forall>f'. result = Ok f' \<longrightarrow> I (af_reader f'))"
  using assms(3) skip_streams_same [OF assms(1,2), of crc] by (auto simp: skip_to_def Let_def split: if_splits)

lemma finish_same:
  assumes "contract I rd" and "I (af_reader f)" and "finish crc rd f mode b = Some (result, b')"
  shows "finish crc (guarded rd) f mode b = Some (result, b')"
proof (cases "mode = SelectedStreams \<and> af_digest f = Absent \<and> substreams_len (af_streams f) \<noteq> 0")
  case True
  then show ?thesis using assms(3) by (simp add: finish_def)
next
  case False
  obtain r b1 where skip: "skip_streams crc rd (substreams_len (af_streams f)) f b = Some (r, b1)"
    using False assms(3) by (auto simp: finish_def bind_eq_Some_conv)
  note same = skip_streams_same [OF assms(1,2) skip]
  have "fst (guarded rd (af_reader g) 1) = fst (rd (af_reader g) 1)" if "r = Ok g" for g
    using guarded_same(1) [OF assms(1)] same that by (metis prod.collapse)
  then show ?thesis
    using False assms(3) skip same by (cases r) (auto simp: finish_def)
qed


section \<open>Started folders\<close>

definition folder_obeys :: "dyn FolderReader \<Rightarrow> bool" where
  "folder_obeys r = (case r of Streamed d \<Rightarrow> obeys d | Buffered c \<Rightarrow> True)"

lemma folder_contract: "contract folder_obeys folder_read"
  unfolding contract_def
proof (intro allI impI)
  fix r n answer r'
  assume r: "folder_obeys r" and read: "folder_read r n = (answer, r')"
  show "(\<forall>bs. answer = Ok bs \<longrightarrow> length bs \<le> n) \<and> folder_obeys r'"
  proof (cases r)
    case (Streamed d)
    obtain a e where d: "dyn_read d n = (a, e)" by (cases "dyn_read d n")
    then show ?thesis
      using obeys_step [OF _ d] r read Streamed by (auto simp: folder_obeys_def FolderReader_read_def)
  next
    case (Buffered c)
    then show ?thesis
      using read cursor.fits by (auto simp: folder_obeys_def FolderReader_read_def split: prod.splits)
  qed
qed

definition engine_ok :: "('b, 'd, 'r, 'w) engine \<Rightarrow> bool" where
  "engine_ok G \<longleftrightarrow> codecs_obey (eng_codecs G) \<and> read_contract (eng_read G)"

lemma ReadyDecoder_start_obeys:
  assumes "codecs_obey C" and "read_contract rd" and "ReadyDecoder_start C rd decoder password b = (Ok reader, b')"
  shows "folder_obeys reader"
proof (cases "rdy_topology decoder")
  case (BChain steps input)
  then obtain d where run: "open_steps C steps (boxed (Take_read rd) input) password b = (Ok d, b')" "reader = Streamed d"
    using assms(3) by (auto simp: ReadyDecoder_start_def split: prod.splits result.splits)
  have "obeys (boxed (Take_read rd) input)" by (rule boxed_obeys [OF _ take_contract [OF assms(2)]]) simp
  then show ?thesis using open_steps_Ok [OF assms(1) _ run(1)] run(2) by (simp add: folder_obeys_def)
next
  case (BBcj2 x y z u output_size)
  then have "start_bcj2 C rd [x, y, z, u] output_size password b = (Ok reader, b')"
    using assms(3) by (simp add: ReadyDecoder_start_def)
  from start_bcj2_Ok [OF this] show ?thesis by (auto simp: folder_obeys_def)
qed

lemma start_folder_obeys:
  assumes "engine_ok G" and "start_folder G prepared b = (Ok f, b')"
  shows "folder_obeys (af_reader f)"
  using assms ReadyDecoder_start_obeys [of "eng_codecs G" "eng_read G"]
  by (auto simp: start_folder_def ReadyFolder_start_def with_eager_decoded_output_def engine_ok_def Let_def
      split: prod.splits option.splits result.splits if_splits)

end
