(* ===== verification/Decoder_Runs.thy ===== *)
theory Decoder_Runs
  imports Guarded_Readers File_Binding
begin

text \<open>
  What a decoder of entries knows of the folders it went through: its state machine, whose steps are
  the requests a client makes, and the invariant that its verification summarises them.
\<close>

section \<open>The budget of a started folder\<close>

definition budget_kept :: "OperationBudget \<Rightarrow> OperationBudget \<Rightarrow> bool" where
  "budget_kept b b' \<longleftrightarrow> decoded b' = decoded b \<and> limits b' = limits b"

lemma budget_kept_refl [simp]: "budget_kept b b"
  by (simp add: budget_kept_def)

lemma budget_kept_trans [trans]: "budget_kept a b \<Longrightarrow> budget_kept b c \<Longrightarrow> budget_kept a c"
  by (simp add: budget_kept_def)

lemma within_limit_kept: "budget_kept b b' \<Longrightarrow> within_limit b \<Longrightarrow> within_limit b'"
  by (simp add: budget_kept_def within_limit_def)

lemma charge_kdf_kept: "charge_kdf_cycles b n = Ok b' \<Longrightarrow> budget_kept b b'"
  by (auto simp: charge_kdf_cycles_def budget_kept_def)

lemma CoderPlan_open_kept: "CoderPlan_open C plan d insz outsz password b = (r, b') \<Longrightarrow> budget_kept b b'"
  by (cases plan)
     (auto simp: CoderPlan_open_def aes_coder_reader_def Let_def
        split: option.splits OutputSize.splits if_splits result.splits prod.splits dest: charge_kdf_kept)

lemma open_steps_kept: "open_steps C steps d password b = (r, b') \<Longrightarrow> budget_kept b b'"
proof (induction steps arbitrary: d b)
  case (Cons step steps)
  obtain r1 b1 where s: "CoderPlan_open C (ds_coder step) d (ds_input step) (ds_output step) password b = (r1, b1)"
    by (cases "CoderPlan_open C (ds_coder step) d (ds_input step) (ds_output step) password b")
  show ?case
    using Cons.prems s CoderPlan_open_kept [OF s] Cons.IH
    by (cases r1) (auto simp: DecodeStep_open_def intro: budget_kept_trans)
qed simp

lemma open_channels_kept: "open_channels C rd channels password b = (r, b') \<Longrightarrow> budget_kept b b'"
proof (induction channels arbitrary: r b b')
  case (Cons channel channels)
  obtain r1 b1 where s: "BoundInput_open C rd channel password b = (r1, b1)"
    by (cases "BoundInput_open C rd channel password b")
  then have k: "budget_kept b b1" by (auto simp: BoundInput_open_def dest: open_steps_kept)
  obtain r2 b2 where t: "open_channels C rd channels password b1 = (r2, b2)"
    by (cases "open_channels C rd channels password b1")
  show ?case
    using Cons.prems s t k Cons.IH [OF t] by (cases r1; cases r2) (auto intro: budget_kept_trans)
qed simp

lemma bcj2_output_kept: "bcj2_output rd n reader out b = (r, b') \<Longrightarrow> budget_kept b b'"
proof (induction rd n reader out b rule: bcj2_output.induct)
  case (1 rd n reader out b)
  have monitor: "budget_kept c (c\<lparr>monitor := m\<rparr>)" for c m by (simp add: budget_kept_def)
  show ?case
  proof (cases "length out < n \<and> is_ok (monitor_check (monitor b))")
    case False
    then show ?thesis
      using "1.prems" by (auto simp: bcj2_output.simps [of rd n reader out b] is_ok_iff split: result.splits if_splits)
  next
    case True
    let ?room = "buffer_size (monitor b) (n - length out)"
    show ?thesis
    proof (cases "usize_checked_add (length out) ?room")
      case None
      then show ?thesis
        using "1.prems" True
        by (auto simp: bcj2_output.simps [of rd n reader out b] is_ok_iff Let_def split: result.splits if_splits)
    next
      case (Some after)
      obtain a reader' where rd: "rd reader ?room = (a, reader')" by (cases "rd reader ?room")
      obtain v m where adv: "monitor_advance (monitor b) (case a of Ok bs \<Rightarrow> length bs | Err _ \<Rightarrow> 0) = (v, m)"
        by (cases "monitor_advance (monitor b) (case a of Ok bs \<Rightarrow> length bs | Err _ \<Rightarrow> 0)")
      show ?thesis
      proof (cases "\<exists>bs u. a = Ok bs \<and> v = Ok u \<and> bs \<noteq> []")
        case False
        then show ?thesis
          using "1.prems" True Some rd adv monitor
          by (cases a; cases v) (auto simp: bcj2_output.simps [of rd n reader out b] is_ok_iff Let_def)
      next
        case step: True
        then obtain bs where a: "a = Ok bs" "bs \<noteq> []" "v = Ok ()" by auto
        obtain u where check: "monitor_check (monitor b) = Ok u" using True by (auto simp: is_ok_iff)
        have rest: "bcj2_output rd n reader' (out @ bs) (b\<lparr>monitor := m\<rparr>) = (r, b')"
          using "1.prems" True Some rd adv a check by (simp add: bcj2_output.simps [of rd n reader out b] Let_def)
        have adv: "(Ok (), m) = monitor_advance (monitor b) (length bs)" using adv a by simp
        from "1.IH" [OF _ check refl refl Some rd [symmetric] a(1) adv refl a(2) rest] True
        have "budget_kept (b\<lparr>monitor := m\<rparr>) b'" by simp
        then show ?thesis using monitor budget_kept_trans by blast
      qed
    qed
  qed
qed

lemma ReadyDecoder_start_kept:
  assumes "ReadyDecoder_start C rd decoder password b = (r, b')"
  shows "budget_kept b b'"
proof (cases "rdy_topology decoder")
  case (BChain steps input)
  obtain r1 b1 where s: "open_steps C steps (boxed (Take_read rd) input) password b = (r1, b1)"
    by (cases "open_steps C steps (boxed (Take_read rd) input) password b")
  then show ?thesis
    using assms BChain open_steps_kept [OF s] by (cases r1) (auto simp: ReadyDecoder_start_def)
next
  case (BBcj2 x y z u n)
  obtain r1 b1 where s: "open_channels C rd [x, y, z, u] password b = (r1, b1)"
    by (cases "open_channels C rd [x, y, z, u] password b")
  note k = open_channels_kept [OF s]
  show ?thesis
  proof (cases "is_ok (monitor_check (monitor b)) \<and> (\<exists>ds reader. r1 = Ok ds \<and> bcj2_try_new C ds (of_nat n) = Some reader)")
    case False
    then show ?thesis
      using assms BBcj2 s k
      by (cases r1) (auto simp: ReadyDecoder_start_def start_bcj2_def is_ok_iff split: result.splits option.splits)
  next
    case True
    then obtain ds reader where d: "r1 = Ok ds" "bcj2_try_new C ds (of_nat n) = Some reader" by blast
    obtain r2 b2 where o: "bcj2_output (bcj2_read C) n reader [] b1 = (r2, b2)"
      by (cases "bcj2_output (bcj2_read C) n reader [] b1")
    have "b' = b2"
      using True assms BBcj2 s d o
      by (cases r2) (auto simp: ReadyDecoder_start_def start_bcj2_def is_ok_iff split: if_splits)
    then show ?thesis using k bcj2_output_kept [OF o] budget_kept_trans by blast
  qed
qed

lemma start_folder_within:
  assumes "start_folder G prepared b = (r, b')" and "within_limit b"
  shows "within_limit b'"
proof -
  let ?start = "\<lambda>b. ReadyDecoder_start (eng_codecs G) (eng_read G) (rf_decoder prepared) b"
  obtain r1 b1 where s: "ReadyDecoder_start (eng_codecs G) (eng_read G) (rf_decoder prepared) (eng_password G) b = (r1, b1)"
    by (cases "ReadyDecoder_start (eng_codecs G) (eng_read G) (rf_decoder prepared) (eng_password G) b")
  note kept = ReadyDecoder_start_kept [OF s]
  show ?thesis
  proof (cases "eager_output_size (rf_decoder prepared)")
    case None
    then show ?thesis
      using assms s within_limit_kept [OF kept] by (simp add: start_folder_def ReadyFolder_start_def Let_def)
  next
    case (Some n)
    show ?thesis
    proof (cases "next_decoded b n")
      case (Err e)
      then show ?thesis
        using assms s Some by (simp add: start_folder_def ReadyFolder_start_def with_eager_decoded_output_def Let_def)
    next
      case (Ok total)
      then have "within_limit (b1\<lparr>decoded := total\<rparr>)"
        using kept
        by (auto simp: within_limit_def budget_kept_def at_most_def next_decoded_def split: option.splits if_splits)
      then show ?thesis
        using assms s Some Ok within_limit_kept [OF kept]
        by (cases r1) (auto simp: start_folder_def ReadyFolder_start_def with_eager_decoded_output_def Let_def split: if_splits)
    qed
  qed
qed

lemma FolderLayout_bind_kept:
  assumes "FolderLayout_bind G L b w = Some (r, b', w')"
  shows "budget_kept b b'"
proof -
  let ?state = "fl_state L"
  obtain c where c: "compile_with_budget (eng_lzma_mem G) (eng_lzma2_mem G) (lo_folder ?state) (lo_graph ?state)
      (lo_unpack_size ?state) (lo_coder_sizes ?state) (ps_sizes (lo_streams ?state)) b = Some c"
    using assms by (auto simp: FolderLayout_bind_def Let_def bind_eq_Some_conv)
  show ?thesis
  proof (cases c)
    case (Err e)
    then show ?thesis using assms c by (simp add: FolderLayout_bind_def Let_def)
  next
    case (Ok p)
    obtain plan b1 where p: "p = (plan, b1)" by (cases p)
    have "budget_kept b b1"
      by (rule compile_with_budget_Ok [OF c [unfolded Ok p]]) (auto dest: plan_memory simp: budget_kept_def)
    moreover have "b' = b1" using assms c Ok p by (auto simp: FolderLayout_bind_def Let_def)
    ultimately show ?thesis by simp
  qed
qed


section \<open>The state machine\<close>

text \<open>
  A client reads entries, each with a callback and what it closes over, and completes folders in between.
  \<open>reads\<close> records which of the reads succeeded, \<open>visited\<close> the folders that were opened.
\<close>

datatype 'c request = Read_request ReadableEntry "ArchiveEntryInfo \<Rightarrow> 'c Readers.callback" 'c | Finish_request

definition opens :: "'w EntryDecoder \<Rightarrow> ReadableEntry \<Rightarrow> FolderLayout list" where
  "opens S entry =
     (case re_content entry of
        Content_Empty \<Rightarrow> []
      | Content_Stream place \<Rightarrow>
          if (\<exists>f. ed_current S = Some (loc_folder_index place, f)) then [] else [loc_folder place])"

inductive serves :: "('b, 'd, 'r, 'w) engine \<Rightarrow> 'w EntryDecoder \<Rightarrow> 'c request list \<Rightarrow> bool list \<Rightarrow> FolderLayout list \<Rightarrow>
    'w EntryDecoder \<Rightarrow> bool" for G S0 where
  serves_nil: "serves G S0 [] [] [] S0"
| serves_read: "serves G S0 reqs reads visited S \<Longrightarrow> EntryDecoder_read G S entry cb c = Some (result, S', c') \<Longrightarrow>
    serves G S0 (reqs @ [Read_request entry cb c]) (reads @ [is_ok result]) (visited @ opens S entry) S'"
| serves_finish: "serves G S0 reqs reads visited S \<Longrightarrow> EntryDecoder_finish G S = Some (result, S') \<Longrightarrow>
    serves G S0 (reqs @ [Finish_request]) reads visited S'"

text \<open>A folder that was decoded from its packed streams to the end, with every size and checksum the header announces.\<close>

definition folder_verified :: "('b, 'd, 'r, 'w) engine \<Rightarrow> FolderLayout \<Rightarrow> bool" where
  "folder_verified G L \<longleftrightarrow> (\<exists>w0 b0 prepared b1 w1 f b2 chunks r.
     FolderLayout_bind G L b0 w0 = Some (Ok prepared, b1, w1) \<and> start_folder G prepared b1 = (Ok f, b2) \<and>
     delivers folder_read (af_reader f) (concat chunks) r \<and> fst (folder_read r 1) = Ok [] \<and>
     length (concat chunks) = unat (lo_unpack_size (fl_state L)) \<and>
     (\<forall>e. lo_crc (fl_state L) = Some e \<longrightarrow> eng_crc G (concat chunks) = e) \<and>
     map length chunks = map unat (layout_sizes (fl_layout L)) \<and>
     (\<forall>i < length chunks. \<forall>e. digest_at (fsl_digests (fl_layout L)) i = Some e \<longrightarrow> eng_crc G (chunks ! i) = e))"

text \<open>A folder that is being read: what it delivered so far is its first substreams.\<close>

definition usable :: "dyn FolderReader ActiveFolder \<Rightarrow> bool" where
  "usable f \<longleftrightarrow> active_ok f \<and> folder_obeys (af_reader f)"

definition reading :: "('b, 'd, 'r, 'w) engine \<Rightarrow> FolderLayout \<Rightarrow> dyn FolderReader ActiveFolder \<Rightarrow> bool" where
  "reading G L f \<longleftrightarrow> (\<exists>w0 b0 prepared b1 w1 f0 b2 chunks.
     FolderLayout_bind G L b0 w0 = Some (Ok prepared, b1, w1) \<and> start_folder G prepared b1 = (Ok f0, b2) \<and> usable f0 \<and>
     streams_done (eng_crc G) (guarded folder_read) f0 chunks f)"

lemma bound_fields:
  assumes "FolderLayout_bind G L b w = Some (Ok prepared, b', w')"
  shows "rf_layout prepared = fl_layout L" "rf_unpack_size prepared = lo_unpack_size (fl_state L)"
    "rf_crc prepared = lo_crc (fl_state L)"
proof -
  let ?state = "fl_state L"
  obtain c where c: "compile_with_budget (eng_lzma_mem G) (eng_lzma2_mem G) (lo_folder ?state) (lo_graph ?state)
      (lo_unpack_size ?state) (lo_coder_sizes ?state) (ps_sizes (lo_streams ?state)) b = Some c"
    using assms by (auto simp: FolderLayout_bind_def Let_def bind_eq_Some_conv)
  then have "rf_layout prepared = fl_layout L \<and> rf_unpack_size prepared = lo_unpack_size ?state \<and> rf_crc prepared = lo_crc ?state"
    using assms by (cases c) (auto simp: FolderLayout_bind_def Let_def)
  then show "rf_layout prepared = fl_layout L" "rf_unpack_size prepared = lo_unpack_size (fl_state L)"
    "rf_crc prepared = lo_crc (fl_state L)" by simp_all
qed

lemma started_usable:
  assumes "engine_ok G" and "FolderLayout_bind G L b w = Some (Ok prepared, b1, w1)" and "start_folder G prepared b1 = (Ok f, b2)"
    and "fitting (fl_layout L)"
  shows "usable f" "reading G L f"
proof -
  note start = ReadyFolder_start_Ok [OF assms(3) [unfolded start_folder_def]]
  then show usable: "usable f"
    using start_folder_obeys [OF assms(1,3)] assms(4) bound_fields [OF assms(2)]
    by (simp add: usable_def active_ok_def fitting_def Let_def Active_Folder.position_def layout_streams_def Let_def)
  show "reading G L f" unfolding reading_def using assms(2,3) usable streams_nil by blast
qed

lemma reading_on: "reading G L f \<Longrightarrow> streams_done (eng_crc G) (guarded folder_read) f chunks g \<Longrightarrow> reading G L g"
  unfolding reading_def using streams_done_append by blast

lemma finish_verified:
  assumes "reading G L f" and "usable f" and "within_limit b"
    and "finish (eng_crc G) folder_read f mode b = Some (Ok CompleteFolders, b')"
  shows "folder_verified G L"
proof -
  obtain w0 b0 prepared b1 w1 f0 b2 xs where f0: "FolderLayout_bind G L b0 w0 = Some (Ok prepared, b1, w1)"
    "start_folder G prepared b1 = (Ok f0, b2)" "usable f0" "streams_done (eng_crc G) (guarded folder_read) f0 xs f"
    using assms(1) unfolding reading_def by blast
  have fin: "finish (eng_crc G) (guarded folder_read) f mode b = Some (Ok CompleteFolders, b')"
    using finish_same [OF folder_contract _ assms(4)] assms(2) by (simp add: usable_def)
  have ok: "active_ok f" using assms(2) by (simp add: usable_def)
  from finish_complete [OF guarded.read_contract_axioms ok assms(3) fin] obtain ys h where
    h: "streams_done (eng_crc G) (guarded folder_read) f ys h" "length ys = substreams_len (af_streams f)"
      "af_decoded_len h = af_unpack_size f" "active_ok h" "fst (guarded folder_read (af_reader h) 1) = Ok []"
      "digest_finish (eng_crc G) (af_digest h) = Ok ()" by blast
  let ?chunks = "xs @ ys" let ?l = "fl_layout L"
  note all = streams_done_summary [OF streams_done_append [OF f0(4) h(1)]] and fs = streams_done_summary [OF f0(4)]
  note start = ReadyFolder_start_Ok [OF f0(2) [unfolded start_folder_def]] and fields = bound_fields [OF f0(1)]
  have pos: "Active_Folder.position f0 = 0" "ss_layout (af_streams f0) = ?l"
    using start fields by (simp_all add: Active_Folder.position_def layout_streams_def)
  have "Active_Folder.position f \<le> layout_len ?l" using ok fs pos by (simp add: active_ok_def Let_def)
  then have n: "length ?chunks = layout_len ?l" using fs h(2) pos by (simp add: substreams_len_def Active_Folder.position_def)
  then have lens: "map length ?chunks = map unat (layout_sizes ?l)"
    using all pos by (simp add: layout_len_sizes)
  have "length (concat ?chunks) = unat (af_decoded_len h)"
    unfolding length_concat lens
    using active_ok_decoded [OF h(4)] all pos n by (simp add: sizes_total_def layout_len_sizes)
  then have size: "length (concat ?chunks) = unat (lo_unpack_size (fl_state L))" using h(3) fs start fields by simp
  have crc: "\<forall>e. lo_crc (fl_state L) = Some e \<longrightarrow> eng_crc G (concat ?chunks) = e"
    using h(6) all start fields by (simp add: digest_verified)
  have del: "delivers folder_read (af_reader f0) (concat ?chunks) (af_reader h)" "folder_obeys (af_reader h)"
    using guarded_delivers [OF folder_contract] all f0(3) by (auto simp: usable_def)
  obtain a r' where last: "folder_read (af_reader h) 1 = (a, r')" by (cases "folder_read (af_reader h) 1")
  have ended: "fst (folder_read (af_reader h) 1) = Ok []"
    using guarded_same(1) [OF folder_contract del(2) last] h(5) last by simp
  have "\<forall>i < length ?chunks. \<forall>e. digest_at (fsl_digests ?l) i = Some e \<longrightarrow> eng_crc G (?chunks ! i) = e"
    using all pos by simp
  with f0(1,2) del(1) ended size crc lens show ?thesis unfolding folder_verified_def by blast
qed

lemma finish_within:
  assumes "usable f" and "within_limit b" and "finish crc folder_read f mode b = Some (r, b')"
  shows "within_limit b'"
proof (cases "mode = SelectedStreams \<and> af_digest f = Absent \<and> substreams_len (af_streams f) \<noteq> 0")
  case True
  then show ?thesis using assms(2,3) by (simp add: finish_def)
next
  case False
  obtain r1 b1 where skip: "skip_streams crc folder_read (substreams_len (af_streams f)) f b = Some (r1, b1)"
    using False assms(3) by (auto simp: finish_def bind_eq_Some_conv)
  have "skip_streams crc (guarded folder_read) (substreams_len (af_streams f)) f b = Some (r1, b1)"
    using skip_streams_same [OF folder_contract _ skip] assms(1) by (simp add: usable_def)
  from read_streams_done [OF guarded.read_contract_axioms _ assms(2) this [unfolded skip_streams_read]] assms(1)
  have "within_limit b1" by (simp add: usable_def)
  moreover have "b' = b1" using False skip assms(3) by (auto simp: finish_def)
  ultimately show ?thesis by simp
qed

lemma skip_to_reading:
  assumes "usable f" and "within_limit b" and "skip_to (eng_crc G) folder_read f pos b = Some (r, b')"
  shows "within_limit b' \<and> (\<forall>g. r = Ok g \<longrightarrow> usable g \<and> (\<forall>L. reading G L f \<longrightarrow> reading G L g))"
proof (cases "Active_Folder.position f \<le> pos \<and> pos \<le> layout_len (ss_layout (af_streams f))")
  case False
  then show ?thesis using assms(2,3) by (auto simp: skip_to_def Let_def)
next
  case True
  then have skip: "skip_streams (eng_crc G) folder_read (pos - Active_Folder.position f) f b = Some (r, b')"
    using assms(3) by (simp add: skip_to_def Let_def)
  note same = skip_streams_same [OF folder_contract assms(1) [unfolded usable_def, THEN conjunct2] skip]
  then have run: "read_streams (eng_crc G) (guarded folder_read) (replicate (pos - Active_Folder.position f) (consume_nothing, ())) f b = Some (r, b')"
    by (simp add: skip_streams_read)
  note all_done = read_streams_done [OF guarded.read_contract_axioms assms(1) [unfolded usable_def, THEN conjunct1] assms(2) run]
  show ?thesis
  proof (intro conjI allI impI)
    show "within_limit b'" using all_done by simp
    fix g assume g: "r = Ok g"
    show "usable g" using all_done same g by (simp add: usable_def)
    fix L assume "reading G L f"
    with all_done g show "reading G L g" using reading_on by blast
  qed
qed

lemma read_stream_reading:
  assumes "usable f" and "within_limit b" and "read_stream (eng_crc G) folder_read f b cb c = Some (r, b', c')"
  shows "within_limit b' \<and> (\<forall>g. r = Ok g \<longrightarrow> usable g \<and> (\<forall>L. reading G L f \<longrightarrow> reading G L g))"
proof -
  note same = read_stream_same [OF folder_contract assms(1) [unfolded usable_def, THEN conjunct2] assms(3)]
  note step = read_stream_step [OF guarded.read_contract_axioms assms(1) [unfolded usable_def, THEN conjunct1] assms(2) same [THEN conjunct1]]
  show ?thesis
  proof (intro conjI allI impI)
    show "within_limit b'" using step by simp
    fix g assume g: "r = Ok g"
    show "usable g" using step same g by (simp add: usable_def)
    fix L assume "reading G L f"
    with step g show "reading G L g" using reading_on streams_cons [OF _ streams_nil] by metis
  qed
qed

end
