(* ===== verification/Session_Laws.thy ===== *)
theory Session_Laws
  imports Decoder_Runs
begin

text \<open>What the verification of a session stands for, and what a session does with an index.\<close>

section \<open>The invariant of the decoder\<close>

definition decoder_ok :: "('b, 'd, 'r, 'w) engine \<Rightarrow> bool list \<Rightarrow> FolderLayout list \<Rightarrow> 'w EntryDecoder \<Rightarrow> bool" where
  "decoder_ok G reads visited S \<longleftrightarrow>
     within_limit (ed_budget S) \<and> (\<forall>i f. ed_current S = Some (i, f) \<longrightarrow> usable f) \<and>
     (ed_verification S \<noteq> Incomplete_read \<longrightarrow> (\<forall>ok \<in> set reads. ok) \<and>
        (ed_verification S = CompleteFolders \<longrightarrow>
           (\<forall>L \<in> set visited. folder_verified G L \<or> (\<exists>i f. ed_current S = Some (i, f) \<and> reading G L f))))"

text \<open>How a step may change the verification: never upwards.\<close>

definition no_better :: "'w EntryDecoder \<Rightarrow> 'w EntryDecoder \<Rightarrow> bool" where
  "no_better S S' \<longleftrightarrow> weakness (ed_verification S) \<le> weakness (ed_verification S')"

lemma weakness_combine: "weakness (combine a b) = max (weakness a) (weakness b)"
  by (cases a; cases b) simp_all

lemma weakness_least: "weakness v = 0 \<longleftrightarrow> v = CompleteFolders"
  by (cases v) simp_all

lemma weakness_most: "weakness v = 2 \<longleftrightarrow> v = Incomplete_read" "weakness v \<le> 2"
  by (cases v; simp)+

lemma complete_step:
  assumes "EntryDecoder_complete G S active = Some (r, S')" and "within_limit (ed_budget S)"
    and "\<forall>i f. active = Some (i, f) \<longrightarrow> usable f"
  shows "within_limit (ed_budget S') \<and> ed_current S' = ed_current S \<and> no_better S S' \<and> (\<forall>e. r = Err e \<longrightarrow> ed_verification S' = Incomplete_read) \<and>
    (ed_verification S' = CompleteFolders \<longrightarrow> (\<forall>i f L. active = Some (i, f) \<longrightarrow> reading G L f \<longrightarrow> folder_verified G L))"
proof (cases active)
  case None
  then show ?thesis using assms(1,2) by (auto simp: EntryDecoder_complete_def no_better_def)
next
  case (Some p)
  obtain i f where p: "p = (i, f)" by (cases p)
  obtain v b where fin: "finish (eng_crc G) folder_read f (ed_mode S) (ed_budget S) = Some (v, b)"
    using assms(1) Some p by (auto simp: EntryDecoder_complete_def)
  have f: "usable f" using assms(3) Some p by blast
  have b: "within_limit b" by (rule finish_within [OF f assms(2) fin])
  show ?thesis
  proof (cases v)
    case (Err e)
    then show ?thesis
      using assms(1) Some p fin b
      by (auto simp: EntryDecoder_complete_def no_better_def Let_def weakness_most)
  next
    case (Ok verification)
    then have S': "r = Ok ()" "S' = S\<lparr>ed_budget := b, ed_verification := combine (ed_verification S) verification\<rparr>"
      using assms(1) Some p fin by (simp_all add: EntryDecoder_complete_def Let_def)
    have "verification = CompleteFolders" if "combine (ed_verification S) verification = CompleteFolders"
      using that by (cases "ed_verification S"; cases verification) simp_all
    with fin Ok finish_verified [OF _ f assms(2), of G _ "ed_mode S" b]
    have "folder_verified G L" if "combine (ed_verification S) verification = CompleteFolders" "reading G L f" for L
      using that by blast
    then show ?thesis using S' b Some p by (auto simp: no_better_def weakness_combine)
  qed
qed

lemma switch_step:
  assumes G: "engine_ok G" and run: "switch_folder G S loc = Some (r, S')"
    and S: "within_limit (ed_budget S)" "\<forall>i f. ed_current S = Some (i, f) \<longrightarrow> usable f"
    and fit: "fitting (fl_layout (loc_folder loc))"
  shows "within_limit (ed_budget S') \<and> ed_current S' = None \<and> no_better S S' \<and>
    (\<forall>g. r = Ok g \<longrightarrow> usable g \<and> (ed_verification S' = CompleteFolders \<longrightarrow>
       (\<forall>i f L. ed_current S = Some (i, f) \<longrightarrow> reading G L f \<longrightarrow> folder_verified G L \<or> reading G L g)) \<and>
       ((\<nexists>f. ed_current S = Some (loc_folder_index loc, f)) \<longrightarrow> reading G (loc_folder loc) g))"
proof (cases "\<exists>f. ed_current S = Some (loc_folder_index loc, f)")
  case True
  then obtain f where f: "ed_current S = Some (loc_folder_index loc, f)" ..
  with run have "r = Ok f" "S' = S\<lparr>ed_current := None\<rparr>" by (simp_all add: switch_folder_def Let_def)
  then show ?thesis using S f by (auto simp: no_better_def)
next
  case False
  let ?S = "S\<lparr>ed_current := None\<rparr>"
  from False run have run: "Option.bind (EntryDecoder_complete G ?S (ed_current S)) (\<lambda>(completed, self).
          case completed of
            Err e \<Rightarrow> Some (Err e, self)
          | Ok _ \<Rightarrow>
              map_option (\<lambda>(prepared, budget, w).
                  (case prepared of
                     Err e \<Rightarrow> (Err e, self\<lparr>ed_budget := budget, ed_world := w\<rparr>)
                   | Ok prepared \<Rightarrow>
                       (case start_folder G prepared budget of
                          (started, budget) \<Rightarrow> (started, self\<lparr>ed_budget := budget, ed_world := w\<rparr>))))
                (FolderLayout_bind G (loc_folder loc) (ed_budget self) (ed_world self))) = Some (r, S')"
    by (cases "ed_current S") (auto simp: switch_folder_def Let_def split: prod.splits if_splits)
  then obtain c S1 where complete: "EntryDecoder_complete G ?S (ed_current S) = Some (c, S1)"
    by (auto simp: bind_eq_Some_conv)
  have "within_limit (ed_budget ?S)" using S(1) by simp
  note one = complete_step [OF complete this S(2)]
  show ?thesis
  proof (cases c)
    case (Err e)
    then show ?thesis using run complete one weakness_most(2) [of "ed_verification S"] by (auto simp: no_better_def)
  next
    case (Ok u)
    from run complete Ok obtain p b w where bind:
        "FolderLayout_bind G (loc_folder loc) (ed_budget S1) (ed_world S1) = Some (p, b, w)" by auto
    have b: "within_limit b" using within_limit_kept [OF FolderLayout_bind_kept [OF bind]] one by blast
    show ?thesis
    proof (cases p)
      case (Err e)
      then show ?thesis using run complete Ok bind one b by (auto simp: no_better_def)
    next
      case prepared: (Ok prepared)
      obtain started b2 where start: "start_folder G prepared b = (started, b2)" by (cases "start_folder G prepared b")
      have res: "r = started" "S' = S1\<lparr>ed_budget := b2, ed_world := w\<rparr>"
        using run complete Ok bind prepared start by simp_all
      have "usable g \<and> reading G (loc_folder loc) g" if "started = Ok g" for g
        using started_usable [OF G bind [unfolded prepared] start [unfolded that] fit] by blast
      then show ?thesis
        using res one start_folder_within [OF start b] by (auto simp: no_better_def)
    qed
  qed
qed

lemma read_stream_step_ok:
  assumes G: "engine_ok G" and ok: "decoder_ok G reads visited S" and fit: "fitting (fl_layout (loc_folder loc))"
    and run: "EntryDecoder_read_stream G S loc cb c = Some (r, S', c')"
  shows "within_limit (ed_budget S') \<and> (\<forall>e. r = Err e \<longrightarrow> ed_current S' = None) \<and>
    (r = Ok () \<longrightarrow> decoder_ok G reads
       (visited @ (if \<exists>f. ed_current S = Some (loc_folder_index loc, f) then [] else [loc_folder loc])) S')"
proof -
  obtain f1 S1 where switch: "switch_folder G S loc = Some (f1, S1)"
    using run by (auto simp: EntryDecoder_read_stream_def bind_eq_Some_conv)
  note S = ok [unfolded decoder_ok_def]
  from switch_step [OF G switch S [THEN conjunct1] S [THEN conjunct2, THEN conjunct1] fit]
  have one: "within_limit (ed_budget S1)" "ed_current S1 = None" "no_better S S1"
    and f: "\<And>g. f1 = Ok g \<Longrightarrow> usable g \<and> (ed_verification S1 = CompleteFolders \<longrightarrow>
       (\<forall>i f L. ed_current S = Some (i, f) \<longrightarrow> reading G L f \<longrightarrow> folder_verified G L \<or> reading G L g)) \<and>
       ((\<nexists>f. ed_current S = Some (loc_folder_index loc, f)) \<longrightarrow> reading G (loc_folder loc) g)"
    by blast+
  show ?thesis
  proof (cases f1)
    case (Err e)
    then show ?thesis using run switch one by (auto simp: EntryDecoder_read_stream_def)
  next
    case f1: (Ok g)
    note g = f [OF f1]
    obtain f2 b2 where skip: "skip_to (eng_crc G) folder_read g (loc_stream_index loc) (ed_budget S1) = Some (f2, b2)"
      using run switch f1 by (auto simp: EntryDecoder_read_stream_def bind_eq_Some_conv)
    note two = skip_to_reading [OF g [THEN conjunct1] one(1) skip]
    show ?thesis
    proof (cases f2)
      case (Err e)
      then show ?thesis using run switch f1 skip one two by (auto simp: EntryDecoder_read_stream_def)
    next
      case f2: (Ok h)
      obtain f3 b3 c3 where read: "read_stream (eng_crc G) folder_read h b2 cb c = Some (f3, b3, c3)"
        using run switch f1 skip f2 by (auto simp: EntryDecoder_read_stream_def)
      have h: "usable h" "within_limit b2" using two f2 by blast+
      note three = read_stream_reading [OF h read]
      show ?thesis
      proof (cases f3)
        case (Err e)
        then show ?thesis using run switch f1 skip f2 read one three by (auto simp: EntryDecoder_read_stream_def)
      next
        case f3: (Ok k)
        have S': "r = Ok ()" "S' = S1\<lparr>ed_budget := b3, ed_current := Some (loc_folder_index loc, k)\<rparr>"
          using run switch f1 skip f2 read f3 by (simp_all add: EntryDecoder_read_stream_def)
        have reach: "reading G L k" if "reading G L g" for L using that two three f2 f3 by blast
        have k: "usable k" "within_limit b3" using three f3 by blast+
        have better: "ed_verification S1 \<noteq> Incomplete_read \<Longrightarrow> ed_verification S \<noteq> Incomplete_read"
          "ed_verification S1 = CompleteFolders \<Longrightarrow> ed_verification S = CompleteFolders"
          using one(3) weakness_most [of "ed_verification S1"] weakness_most [of "ed_verification S"]
            weakness_least [of "ed_verification S1"] weakness_least [of "ed_verification S"]
          by (auto simp: no_better_def)
        have "folder_verified G L \<or> reading G L k"
          if "ed_verification S1 = CompleteFolders"
            "L \<in> set visited \<or> (\<nexists>f. ed_current S = Some (loc_folder_index loc, f)) \<and> L = loc_folder loc" for L
          using that(2)
        proof (elim disjE conjE)
          assume "L \<in> set visited"
          with S better(2) [OF that(1)] have "folder_verified G L \<or> (\<exists>i f. ed_current S = Some (i, f) \<and> reading G L f)" by auto
          with g that(1) reach show ?thesis by blast
        next
          assume "\<nexists>f. ed_current S = Some (loc_folder_index loc, f)" "L = loc_folder loc"
          with g reach show ?thesis by blast
        qed
        then show ?thesis using S' k S better by (auto simp: decoder_ok_def)
      qed
    qed
  qed
qed

lemma read_keeps_ok:
  assumes G: "engine_ok G" and ok: "decoder_ok G reads visited S"
    and fit: "\<forall>L \<in> set (opens S entry). fitting (fl_layout L)" "\<forall>loc. re_content entry = Content_Stream loc \<longrightarrow> fitting (fl_layout (loc_folder loc))"
    and run: "EntryDecoder_read G S entry cb c = Some (r, S', c')"
  shows "decoder_ok G (reads @ [is_ok r]) (visited @ opens S entry) S'"
proof -
  let ?mark = "\<lambda>r S. case r of Err _ \<Rightarrow> S\<lparr>ed_verification := Incomplete_read\<rparr> | Ok _ \<Rightarrow> S"
  have failed: "decoder_ok G (reads @ [is_ok r]) (visited @ opens S entry) (T\<lparr>ed_verification := Incomplete_read\<rparr>)"
    if "within_limit (ed_budget T)" "\<And>i f. ed_current T = Some (i, f) \<Longrightarrow> usable f" for T
    using that by (simp add: decoder_ok_def)
  show ?thesis
  proof (cases "monitor_check (monitor (ed_budget S))")
    case (Err e)
    then show ?thesis using run failed [of S] ok by (auto simp: EntryDecoder_read_def decoder_ok_def)
  next
    case check: (Ok u)
    show ?thesis
    proof (cases "re_content entry")
      case Content_Empty
      then obtain S1 where "S' = ?mark r S" using run check by (auto simp: EntryDecoder_read_def)
      then show ?thesis
        using failed [of S] ok Content_Empty by (cases r) (auto simp: decoder_ok_def opens_def)
    next
      case (Content_Stream loc)
      then obtain S1 where run1: "EntryDecoder_read_stream G S loc (cb (re_info entry)) c = Some (r, S1, c')"
        and S': "S' = ?mark r S1" using run check by (auto simp: EntryDecoder_read_def)
      note step = read_stream_step_ok [OF G ok fit(2) [rule_format, OF Content_Stream] run1]
      show ?thesis
      proof (cases r)
        case (Err e)
        then show ?thesis using failed [of S1] step S' by auto
      next
        case (Ok v)
        then have "decoder_ok G reads (visited @ opens S entry) S1" using step Content_Stream by (auto simp: opens_def)
        then show ?thesis using S' Ok by (auto simp: decoder_ok_def)
      qed
    qed
  qed
qed


lemma finish_keeps_ok:
  assumes ok: "decoder_ok G reads visited S" and run: "EntryDecoder_finish G S = Some (r, S')"
  shows "decoder_ok G reads visited S' \<and> ed_current S' = None \<and> no_better S S' \<and>
    (\<forall>v. r = Ok v \<longrightarrow> v = ed_verification S')"
proof -
  let ?S = "S\<lparr>ed_current := None\<rparr>"
  obtain c where complete: "EntryDecoder_complete G ?S (ed_current S) = Some (c, S')"
    and r: "r = and_then c (\<lambda>_. and_then (monitor_check (monitor (ed_budget S'))) (\<lambda>_. Ok (ed_verification S')))"
    using run by (auto simp: EntryDecoder_finish_def)
  note S = ok [unfolded decoder_ok_def]
  have "within_limit (ed_budget ?S)" using S by simp
  note one = complete_step [OF complete this S [THEN conjunct2, THEN conjunct1]]
  have better: "ed_verification S' \<noteq> Incomplete_read \<Longrightarrow> ed_verification S \<noteq> Incomplete_read"
    "ed_verification S' = CompleteFolders \<Longrightarrow> ed_verification S = CompleteFolders"
    using one weakness_most [of "ed_verification S'"] weakness_most [of "ed_verification S"]
      weakness_least [of "ed_verification S'"] weakness_least [of "ed_verification S"]
    by (auto simp: no_better_def)
  have "folder_verified G L" if "ed_verification S' = CompleteFolders" "L \<in> set visited" for L
  proof -
    have "folder_verified G L \<or> (\<exists>i f. ed_current S = Some (i, f) \<and> reading G L f)"
      using S better(2) [OF that(1)] that(2) by auto
    then show ?thesis using one that(1) by blast
  qed
  then have "decoder_ok G reads visited S'" using one S better by (auto simp: decoder_ok_def)
  then show ?thesis using one r by (auto simp: no_better_def)
qed


section \<open>Runs of a decoder\<close>

text \<open>The layout of every folder that is asked for is one the folder tables can have.\<close>

definition request_fits :: "'c request \<Rightarrow> bool" where
  "request_fits request =
     (case request of
        Finish_request \<Rightarrow> True
      | Read_request entry _ _ \<Rightarrow>
          (case re_content entry of Content_Empty \<Rightarrow> True | Content_Stream place \<Rightarrow> fitting (fl_layout (loc_folder place))))"

lemma serves_ok:
  assumes "serves G S0 reqs reads visited S" and "engine_ok G" and "decoder_ok G [] [] S0" and "list_all request_fits reqs"
  shows "decoder_ok G reads visited S"
  using assms(1,3,4)
proof (induction rule: serves.induct)
  case (serves_read reqs reads visited S entry cb c result S' c')
  then have ok: "decoder_ok G reads visited S" and fits: "request_fits (Read_request entry cb c)" by simp_all
  have "\<forall>loc. re_content entry = Content_Stream loc \<longrightarrow> fitting (fl_layout (loc_folder loc))"
    using fits by (auto simp: request_fits_def)
  moreover from this have "\<forall>L \<in> set (opens S entry). fitting (fl_layout L)"
    by (auto simp: opens_def split: EntryContent.splits if_splits)
  ultimately show ?case using read_keeps_ok [OF assms(2) ok _ _ serves_read.hyps(2)] by blast
next
  case (serves_finish reqs reads visited S result S')
  then show ?case using finish_keeps_ok [OF _ serves_finish.hyps(2)] by simp
qed simp

lemma new_decoder_ok: "decoder_ok G [] [] (new_decoder w mode config)"
  by (simp add: decoder_ok_def new_decoder_def within_limit_def at_most_def with_control_def OperationBudget_new_def)

text \<open>
  C1. The verification of a session can be trusted. Whatever a client reads, with whatever callbacks, and
  whatever folders it completes on the way: if completing the last folder reports more than
  an incomplete read, every read succeeded; if it reports complete folders, every folder that was
  opened was decoded from its packed streams to its end, has the size and the checksum the
  header announces, and falls into substreams of the announced sizes and checksums. The codecs
  need no property but that they never return more bytes than they are asked for.
\<close>

theorem session_verification_sound:
  assumes "engine_ok G" and "serves G (new_decoder w mode config) reqs reads visited S" and "list_all request_fits reqs"
    and "EntryDecoder_finish G S = Some (Ok v, S')"
  shows "(v \<noteq> Incomplete_read \<longrightarrow> (\<forall>ok \<in> set reads. ok)) \<and>
    (v = CompleteFolders \<longrightarrow> (\<forall>L \<in> set visited. folder_verified G L))"
proof -
  from finish_keeps_ok [OF serves_ok [OF assms(2,1) new_decoder_ok assms(3)] assms(4)]
  have "decoder_ok G reads visited S'" "ed_current S' = None" "v = ed_verification S'" by auto
  then show ?thesis unfolding decoder_ok_def by (cases v) auto
qed

end
