(* ===== verification/Entry_Extraction.thy ===== *)
theory Entry_Extraction
  imports Entry_Decoder
begin

text \<open>
  \<^verbatim>\<open>src/src/archive.rs\<close>: streaming all or selected entries through a callback, copying an entry
  into memory under a limit, and the functions that find the entry by name or read the target of a symlink.
\<close>

section \<open>Streaming\<close>

text \<open>
  The closures of \<open>stream_entry_selection\<close> read the entry inside of the mapping iterator. Collecting stops
  at the first error, so the file may as well be handed out first and read then.
\<close>

abbreviation hand_out :: "(unit, FileStream) callback" where
  "hand_out \<equiv> \<lambda>c file. (Ok file, c)"

definition read_file :: "('b, 'd, 'r, 'w) engine \<Rightarrow> platform \<Rightarrow> FileStream \<Rightarrow> (ArchiveEntryInfo \<Rightarrow> 'c Readers.callback) \<Rightarrow>
    'w EntryDecoder \<Rightarrow> 'c \<Rightarrow> (unit r7z_result \<times> 'w EntryDecoder \<times> 'c) option" where
  "read_file G platform file cb decoder c =
     (case ReadableEntry_from_file platform file of
        None \<Rightarrow> Some (Ok (), decoder, c)
      | Some entry \<Rightarrow> EntryDecoder_read G decoder entry cb c)"

partial_function (option) stream_all :: "('b, 'd, 'r, 'w) engine \<Rightarrow> nom \<Rightarrow> platform \<Rightarrow> (ArchiveEntryInfo \<Rightarrow> 'c Readers.callback) \<Rightarrow>
    bool \<Rightarrow> FileStreams \<Rightarrow> 'w EntryDecoder \<Rightarrow> 'c \<Rightarrow> (unit r7z_result \<times> 'w EntryDecoder \<times> 'c) option" where
  "stream_all G N platform cb finished files decoder c =
     Option.bind (map_all_next N hand_out (finished, files, ())) (\<lambda>(item, finished, files, _).
       case item of
         None \<Rightarrow> Some (Ok (), decoder, c)
       | Some (Err e) \<Rightarrow> Some (Err e, decoder, c)
       | Some (Ok file) \<Rightarrow>
           Option.bind (read_file G platform file cb decoder c) (\<lambda>(result, decoder, c).
             case result of
               Err e \<Rightarrow> Some (Err e, decoder, c)
             | Ok _ \<Rightarrow> stream_all G N platform cb finished files decoder c))"

partial_function (option) stream_selected :: "('b, 'd, 'r, 'w) engine \<Rightarrow> nom \<Rightarrow> platform \<Rightarrow> (ArchiveEntryInfo \<Rightarrow> 'c Readers.callback) \<Rightarrow>
    FileStreams \<Rightarrow> EntrySelection \<Rightarrow> 'w EntryDecoder \<Rightarrow> 'c \<Rightarrow> (unit r7z_result \<times> 'w EntryDecoder \<times> 'c) option" where
  "stream_selected G N platform cb files selection decoder c =
     Option.bind (map_selected_next N hand_out (files, selection, ())) (\<lambda>(item, files, selection, _).
       case item of
         None \<Rightarrow> Some (Ok (), decoder, c)
       | Some (Err e) \<Rightarrow> Some (Err e, decoder, c)
       | Some (Ok file) \<Rightarrow>
           Option.bind (read_file G platform file cb decoder c) (\<lambda>(result, decoder, c).
             case result of
               Err e \<Rightarrow> Some (Err e, decoder, c)
             | Ok _ \<Rightarrow> stream_selected G N platform cb files selection decoder c))"

definition stream_entry_selection :: "('b, 'd, 'r, 'w) connect \<Rightarrow> nom \<Rightarrow> platform \<Rightarrow> 'f Archive \<Rightarrow> EntrySelection \<Rightarrow> CompletionMode \<Rightarrow>
    ArchiveReadConfig \<Rightarrow> (ArchiveEntryInfo \<Rightarrow> 'c Readers.callback) \<Rightarrow> 'c \<Rightarrow> (unit r7z_result \<times> 'c) option" where
  "stream_entry_selection connect N platform self selected mode config cb c =
     (case (and_then (archive_file_streams N self) (\<lambda>files.
            and_then (connect (files_pack_pos files)) (\<lambda>(G, w). Ok (files, G, w)))) of
        Err e \<Rightarrow> Some (Err e, c)
      | Ok (files, G, w) \<Rightarrow>
          let decoder = new_decoder w mode config in
          Option.bind
            (case selected of
               SelectAll _ _ \<Rightarrow> stream_all G N platform cb False files decoder c
             | selection \<Rightarrow> stream_selected G N platform cb files selection decoder c)
            (\<lambda>(result, decoder, c).
              case result of
                Err e \<Rightarrow> Some (Err e, c)
              | Ok _ \<Rightarrow> map_option (\<lambda>(result, _). (and_then result (\<lambda>_. Ok ()), c)) (EntryDecoder_finish G decoder)))"

definition stream_files_impl :: "('b, 'd, 'r, 'w) connect \<Rightarrow> nom \<Rightarrow> platform \<Rightarrow> 'f Archive \<Rightarrow> nat list option \<Rightarrow>
    ArchiveReadConfig \<Rightarrow> (ArchiveEntryInfo \<Rightarrow> 'c Readers.callback) \<Rightarrow> 'c \<Rightarrow> (unit r7z_result \<times> 'c) option" where
  "stream_files_impl connect N platform self indices config cb c =
     (case EntrySelection_new indices (Archive_num_files self) of
        Err e \<Rightarrow> Some (Err e, c)
      | Ok SelectNone \<Rightarrow> Some (Ok (), c)
      | Ok (SelectAll a b) \<Rightarrow>
          stream_entry_selection connect N platform self (SelectAll a b) WholeFolder config cb c
      | Ok selected \<Rightarrow> stream_entry_selection connect N platform self selected SelectedStreams config cb c)"

text \<open>Where the content of a file lies: its folder and its place in it.\<close>

definition folder_stream_for_file :: "nom \<Rightarrow> 'f Archive \<Rightarrow> nat \<Rightarrow> (nat \<times> nat) option r7z_result option" where
  "folder_stream_for_file N self file_index =
     (case archive_file_streams N self of
        Err e \<Rightarrow> Some (Err e)
      | Ok files \<Rightarrow>
          map_option (\<lambda>(file, _). and_then file (\<lambda>file. Ok (Option.bind file (\<lambda>file.
              case ent_kind file of
                EK_File location \<Rightarrow> Some (loc_folder_index location, loc_stream_index location)
              | EK_Symlink location \<Rightarrow> Some (loc_folder_index location, loc_stream_index location)
              | _ \<Rightarrow> None))))
            (FileStreams_nth N files file_index))"


section \<open>Copying an entry\<close>

text \<open>
  \<open>EntryReader\<close>: the error of a read as the kind \<open>std::io::copy\<close> sees and the error of the crate it stands for.
\<close>

fun io_error_kind :: "io_error \<Rightarrow> io_kind" where
  "io_error_kind (IoKind k) = k"
| "io_error_kind _ = OtherKind"

definition entry_read_error :: "io_error \<Rightarrow> io_kind \<times> R7zError" where
  "entry_read_error error =
     (let error =
        (if io_error_kind error = Interrupted then Io error
         else case error of CancelledRead \<Rightarrow> Cancelled | IoWrapped e \<Rightarrow> e | IoKind _ \<Rightarrow> Decompression)
      in (case error of Io error \<Rightarrow> io_error_kind error | _ \<Rightarrow> OtherKind, error))"

record LimitedOutput =
  lo_bytes :: bytes
  lo_limit :: "u64 option"
  lo_limit_exceeded :: bool

definition LimitedOutput_new :: "u64 option \<Rightarrow> LimitedOutput" where
  "LimitedOutput_new limit = \<lparr>lo_bytes = [], lo_limit = limit, lo_limit_exceeded = False\<rparr>"

definition LimitedOutput_limit_error :: "LimitedOutput \<Rightarrow> R7zError" where
  "LimitedOutput_limit_error self = ResourceLimitExceeded ''retained output'' (the (lo_limit self))"

definition LimitedOutput_write :: "LimitedOutput writer" where
  "LimitedOutput_write self buffer =
     (let remaining =
        (case lo_limit self of
           None \<Rightarrow> length buffer
         | Some limit \<Rightarrow> unat limit - length (lo_bytes self));
          n = min (length buffer) remaining;
          self = self\<lparr>lo_bytes := lo_bytes self @ take n buffer\<rparr>
      in
      if n < length buffer then
        let self = self\<lparr>lo_limit_exceeded := True\<rparr> in
        if n = 0 then (Err (IoKind OtherKind), self) else (Ok n, self)
      else (Ok n, self))"

text \<open>\<open>write_all\<close> into it; it is never interrupted.\<close>

function LimitedOutput_write_all :: "LimitedOutput \<Rightarrow> bytes \<Rightarrow> unit io_result \<times> LimitedOutput" where
  "LimitedOutput_write_all self bs =
     (if bs = [] then (Ok (), self)
      else
        case LimitedOutput_write self bs of
          (Err e, self) \<Rightarrow> (Err e, self)
        | (Ok n, self) \<Rightarrow> if n = 0 then (Err (IoKind WriteZero), self) else LimitedOutput_write_all self (drop n bs))"
  by pat_completeness auto
termination by (relation "measure (\<lambda>(self, bs). length bs)") auto

declare LimitedOutput_write_all.simps [simp del]

text \<open>
  \<open>copy_entry\<close> into a limited output, as the callback of a read: the loop of \<open>std::io::copy\<close> over an
  \<open>EntryReader\<close>, which caps a read at 8 KiB and lets interrupted reads be tried again.
\<close>

datatype memory_copy =
    Copying LimitedOutput u64
  | Copied "unit r7z_result" LimitedOutput u64

definition copy_step :: "LimitedOutput \<Rightarrow> u64 \<Rightarrow> bytes io_result \<Rightarrow> memory_copy" where
  "copy_step output copied answer =
     (case answer of
        Err e \<Rightarrow>
          (case entry_read_error e of (kind, error) \<Rightarrow>
             if kind = Interrupted then Copying output copied else Copied (Err error) output copied)
      | Ok bs \<Rightarrow>
          if bs = [] then Copied (Ok ()) output copied
          else
            (case LimitedOutput_write_all output bs of
               (Err e, output) \<Rightarrow> Copied (Err (Io e)) output copied
             | (Ok _, output) \<Rightarrow> Copying output (copied + of_nat (length bs))))"

definition copy_entry :: "memory_copy Readers.callback" where
  "copy_entry c =
     (case c of
        Copying output copied \<Rightarrow> Ask 8192 (copy_step output copied)
      | Copied result _ _ \<Rightarrow> Return result)"

fun copy_output :: "memory_copy \<Rightarrow> LimitedOutput" where
  "copy_output (Copying output _) = output"
| "copy_output (Copied _ output _) = output"

fun copy_count :: "memory_copy \<Rightarrow> u64" where
  "copy_count (Copying _ copied) = copied"
| "copy_count (Copied _ _ copied) = copied"

definition session_extract_to_writer :: "('b, 'd, 'r, 'w) engine \<Rightarrow> nom \<Rightarrow> platform \<Rightarrow> 'w ArchiveReadSession \<Rightarrow> nat \<Rightarrow> LimitedOutput \<Rightarrow>
    (u64 r7z_result \<times> 'w ArchiveReadSession \<times> LimitedOutput) option" where
  "session_extract_to_writer G N platform self index writer =
     map_option (\<lambda>(result, self, c). (and_then result (\<lambda>_. Ok (copy_count c)), self, copy_output c))
       (read_entry G N platform self index copy_entry (Copying writer 0))"

text \<open>One entry: \<open>extract_to_writer_with_options\<close> and its users, with the limited output as the writer.\<close>

definition extract_to_writer_with_options :: "('b, 'd, 'r, 'w) connect \<Rightarrow> nom \<Rightarrow> platform \<Rightarrow> 'f Archive \<Rightarrow> nat \<Rightarrow> LimitedOutput \<Rightarrow>
    ArchiveReadConfig \<Rightarrow> (u64 r7z_result \<times> LimitedOutput) option" where
  "extract_to_writer_with_options connect N platform self file_index writer config =
     (case (and_then (Archive_try_files_info N self) (\<lambda>files.
            ok_or Parse (fst (Entries_nth (Entries_new files (Archive_num_files self)) file_index)))) of
        Err e \<Rightarrow> Some (Err e, writer)
      | Ok entry \<Rightarrow>
          let extract =
            (case read_session_with_options connect N self config of
               Err e \<Rightarrow> Some (Err e, writer)
             | Ok (G, session) \<Rightarrow>
                 Option.bind (session_extract_to_writer G N platform session file_index writer) (\<lambda>(written, session, writer).
                   case written of
                     Err e \<Rightarrow> Some (Err e, writer)
                   | Ok written \<Rightarrow>
                       map_option (\<lambda>(result, _). (and_then result (\<lambda>_. Ok written), writer)) (session_finish G session)))
          in
          (case ent_kind entry of
             EK_Directory \<Rightarrow> Some (Err Directory, writer)
           | EK_Anti \<Rightarrow> Some (Err Directory, writer)
           | EK_EmptyFile \<Rightarrow> Some (Ok 0, writer)
           | EK_EmptySymlink \<Rightarrow> Some (Ok 0, writer)
           | EK_File _ \<Rightarrow> extract
           | EK_Symlink _ \<Rightarrow> extract))"

definition extract_to_memory_with_options :: "('b, 'd, 'r, 'w) connect \<Rightarrow> nom \<Rightarrow> platform \<Rightarrow> 'f Archive \<Rightarrow> nat \<Rightarrow> ArchiveReadConfig \<Rightarrow>
    bytes r7z_result option" where
  "extract_to_memory_with_options connect N platform self file_index config =
     map_option (\<lambda>(result, output).
         if lo_limit_exceeded output then Err (LimitedOutput_limit_error output)
         else and_then result (\<lambda>_. Ok (lo_bytes output)))
       (extract_to_writer_with_options connect N platform self file_index
         (LimitedOutput_new (max_retained_output_bytes (rc_options config))) config)"

text \<open>The listing that \<open>entries\<close> runs through: a table that does not parse counts as none.\<close>

definition listed_files :: "nom \<Rightarrow> 'f Archive \<Rightarrow> FilesInfo option" where
  "listed_files N self = header_files_info N (ar_header self)"

definition extract_to_memory_by_name_with_options :: "('b, 'd, 'r, 'w) connect \<Rightarrow> nom \<Rightarrow> platform \<Rightarrow> 'f Archive \<Rightarrow> code_point list \<Rightarrow>
    ArchiveReadConfig \<Rightarrow> bytes r7z_result option" where
  "extract_to_memory_by_name_with_options connect N platform self name config =
     (case entry_index_by_name platform (listed_files N self) (Archive_num_files self) name of
        Err e \<Rightarrow> Some (Err e)
      | Ok index \<Rightarrow> extract_to_memory_with_options connect N platform self index config)"

text \<open>\<open>String::from_utf8\<close> is the parameter \<open>utf8\<close>.\<close>

definition symlink_target_with_options :: "(bytes \<Rightarrow> code_point list option) \<Rightarrow> ('b, 'd, 'r, 'w) connect \<Rightarrow> nom \<Rightarrow> platform \<Rightarrow>
    'f Archive \<Rightarrow> nat \<Rightarrow> ArchiveReadConfig \<Rightarrow> code_point list option r7z_result option" where
  "symlink_target_with_options utf8 connect N platform self file_index config =
     (case Archive_try_files_info N self of
        Err e \<Rightarrow> Some (Err e)
      | Ok files \<Rightarrow>
          (case fst (Entries_nth (Entries_new files (Archive_num_files self)) file_index) of
             None \<Rightarrow> Some (Ok None)
           | Some entry \<Rightarrow>
               let target =
                 map_option (\<lambda>target. and_then target (\<lambda>target. and_then (ok_or Parse (utf8 target)) (\<lambda>text. Ok (Some text))))
                   (extract_to_memory_with_options connect N platform self file_index config)
               in
               (case ent_kind entry of
                  EK_Symlink _ \<Rightarrow> target
                | EK_EmptySymlink \<Rightarrow> target
                | _ \<Rightarrow> Some (Ok None))))"

end
