(* ===== verification/Extraction_Laws.thy ===== *)
theory Extraction_Laws
  imports Session_Laws Entry_Extraction
begin

text \<open>What a session hands out for an index, and what extraction to memory returns.\<close>

section \<open>Requests by index\<close>

definition session_at :: "nom \<Rightarrow> 'w ArchiveReadSession \<Rightarrow> unit Entry list \<Rightarrow> StreamLocation list \<Rightarrow> nat \<Rightarrow> bool" where
  "session_at N self es locs j \<longleftrightarrow>
     stands_at N (rs_files self) es locs j \<and> length (filter owns es) = length locs \<and> rs_count self = length es \<and> j \<le> length es"

lemma session_first:
  assumes "session_at N self es locs j"
  shows "checked_sub (rs_count self) (FileStreams_len (rs_files self)) = Some j"
proof -
  have "length (entry_items (fs_entries (rs_files self))) = Entries_len (fs_entries (rs_files self))"
    by (simp add: entry_items_def Entries_len_def)
  then have "FileStreams_len (rs_files self) = length es - j"
    using assms by (simp add: session_at_def walk_at_def FileStreams_len_def)
  then show ?thesis using assms by (simp add: session_at_def checked_sub_def)
qed

lemma session_at_serves:
  assumes "session_at N self es locs j" and index: "j \<le> index \<and> index < length es"
  shows "\<exists>files. stands_at N files es locs (Suc index) \<and>
      read_entry G N platform self index cb c =
        (case ReadableEntry_from_file platform (bound_entry es locs index) of
           None \<Rightarrow> Some (Err Directory, self\<lparr>rs_files := files\<rparr>, c)
         | Some entry \<Rightarrow>
             map_option (\<lambda>(result, decoder, c). (result, self\<lparr>rs_files := files, rs_decoder := decoder\<rparr>, c))
               (EntryDecoder_read G (rs_decoder self) entry (\<lambda>_. cb) c))"
proof -
  from assms have at: "stands_at N (rs_files self) es locs j" "length (filter owns es) = length locs" by (simp_all add: session_at_def)
  from FileStreams_nth_at [OF at, of "index - j"] index
  obtain files where files: "FileStreams_nth N (rs_files self) (index - j) = Some (Ok (Some (bound_entry es locs index)), files)"
    "stands_at N files es locs (Suc index)" by auto
  have count: "rs_count self = length es" using assms by (simp add: session_at_def)
  have "read_entry G N platform self index cb c =
        (case ReadableEntry_from_file platform (bound_entry es locs index) of
           None \<Rightarrow> Some (Err Directory, self\<lparr>rs_files := files\<rparr>, c)
         | Some entry \<Rightarrow>
             map_option (\<lambda>(result, decoder, c). (result, self\<lparr>rs_files := files, rs_decoder := decoder\<rparr>, c))
               (EntryDecoder_read G (rs_decoder self) entry (\<lambda>_. cb) c))"
    using index files(1)
    by (cases "ReadableEntry_from_file platform (bound_entry es locs index)")
       (simp_all add: read_entry_def session_first [OF assms(1), unfolded count] count)
  with files(2) show ?thesis by auto
qed

lemma session_at_refuses:
  assumes "session_at N self es locs j" and index: "\<not> (j \<le> index \<and> index < length es)"
  shows "read_entry G N platform self index cb c =
      Some (Err (InvalidOptions ''read session requires increasing valid entry indexes''), self, c)"
proof -
  have count: "rs_count self = length es" using assms by (simp add: session_at_def)
  show ?thesis
    using index by (simp add: read_entry_def session_first [OF assms(1), unfolded count] count)
qed

text \<open>
  C18. A session serves exactly the entry that is asked for, each at most once and in
  order. An index below the next one or past the last is refused and leaves the session as
  it was. Any other index moves the session behind it whatever the read comes to, and what
  is read is the entry of that index with the substream that belongs to it; directories and
  anti-items are refused.
\<close>

theorem session_serves_index:
  assumes "session_at N self es locs j"
  shows "if j \<le> index \<and> index < length es
    then \<exists>files. stands_at N files es locs (Suc index) \<and>
      read_entry G N platform self index cb c =
        (case ReadableEntry_from_file platform (bound_entry es locs index) of
           None \<Rightarrow> Some (Err Directory, self\<lparr>rs_files := files\<rparr>, c)
         | Some entry \<Rightarrow>
             map_option (\<lambda>(result, decoder, c). (result, self\<lparr>rs_files := files, rs_decoder := decoder\<rparr>, c))
               (EntryDecoder_read G (rs_decoder self) entry (\<lambda>_. cb) c))
    else read_entry G N platform self index cb c =
      Some (Err (InvalidOptions ''read session requires increasing valid entry indexes''), self, c)"
proof (cases "j \<le> index \<and> index < length es")
  case True
  show ?thesis unfolding if_P [OF True] by (rule session_at_serves [OF assms True])
next
  case False
  show ?thesis unfolding if_not_P [OF False] by (rule session_at_refuses [OF assms False])
qed


section \<open>Copying into a limited output\<close>

definition within_output :: "LimitedOutput \<Rightarrow> bool" where
  "within_output out \<longleftrightarrow> (\<forall>limit. lo_limit out = Some limit \<longrightarrow> length (lo_bytes out) \<le> unat limit)"

lemma LimitedOutput_write_step:
  assumes "LimitedOutput_write out bs = (r, out')"
  shows "lo_limit out' = lo_limit out" "within_output out \<Longrightarrow> within_output out'" "lo_limit_exceeded out \<Longrightarrow> lo_limit_exceeded out'"
    "\<not> lo_limit_exceeded out' \<Longrightarrow> r = Ok (length bs) \<and> lo_bytes out' = lo_bytes out @ bs"
  using assms by (auto simp: LimitedOutput_write_def within_output_def Let_def split: if_splits option.splits)

lemma LimitedOutput_write_all_step:
  assumes "LimitedOutput_write_all out bs = (r, out')"
  shows "lo_limit out' = lo_limit out \<and> (within_output out \<longrightarrow> within_output out') \<and>
    (lo_limit_exceeded out \<longrightarrow> lo_limit_exceeded out') \<and>
    (\<not> lo_limit_exceeded out' \<longrightarrow> r = Ok () \<and> lo_bytes out' = lo_bytes out @ bs)"
  using assms
proof (induction out bs rule: LimitedOutput_write_all.induct)
  case (1 out bs)
  show ?case
  proof (cases "bs = []")
    case True
    then show ?thesis using "1.prems" LimitedOutput_write_all.simps [of out "[]"] by simp
  next
    case False
    obtain a out1 where w: "LimitedOutput_write out bs = (a, out1)" by (cases "LimitedOutput_write out bs")
    note step = LimitedOutput_write_step [OF w]
    show ?thesis
    proof (cases "\<exists>n. a = Ok n \<and> n \<noteq> 0")
      case True
      then obtain n where n: "a = Ok n" "n \<noteq> 0" by blast
      then have rest: "LimitedOutput_write_all out1 (drop n bs) = (r, out')"
        using "1.prems" False w by (simp add: LimitedOutput_write_all.simps [of out bs])
      from "1.IH" [OF False w [symmetric] n(1,2) rest] step n show ?thesis by auto
    next
      case stuck: False
      then have "out' = out1" using "1.prems" False w
        by (cases a) (auto simp: LimitedOutput_write_all.simps [of out bs] split: if_splits)
      then show ?thesis using stuck step False by (cases a) auto
    qed
  qed
qed

text \<open>A read that is tried again delivered nothing.\<close>

lemma check_error: "control_check m = Err x \<Longrightarrow> x = Cancelled" "monitor_check n = Err x \<Longrightarrow> x = Cancelled"
  by (auto simp: monitor_check_def control_check_def split: option.splits if_splits)

lemma advance_error: "monitor_advance m k = (Err x, m') \<Longrightarrow> x = Cancelled"
  by (auto simp: monitor_advance_def Let_def split: option.splits if_splits dest: check_error)

lemma account_read_error: "account_read t bs = (Err e, s') \<Longrightarrow> e = IoKind InvalidData \<or> e = CancelledRead"
  by (auto simp: account_read_def Let_def split: result.splits option.splits prod.splits if_splits dest!: advance_error)

lemma final_errors [simp]:
  "fst (entry_read_error CancelledRead) = OtherKind" "fst (entry_read_error (IoKind k)) = (if k = Interrupted then Interrupted else OtherKind)"
  by (simp_all add: entry_read_error_def)

lemma read_again:
  assumes read: "SubstreamReader_read rd s n = (Err e, s')" and again: "fst (entry_read_error e) = Interrupted"
  shows "\<exists>k r. s' = s\<lparr>sr_reader := r\<rparr> \<and> rd (sr_reader s) k = (Err e, r)"
proof -
  have check: "is_ok (monitor_check (monitor (sr_budget s)))"
    using read again by (cases "monitor_check (monitor (sr_budget s))") (auto simp: SubstreamReader_read_def dest!: check_error)
  let ?limit = "min (unat (sr_remaining s)) n"
  have limit: "?limit \<noteq> 0" using read check by (auto simp: SubstreamReader_read_def is_ok_iff Let_def split: if_splits)
  then obtain k where k: "allowed_bytes (sr_charge_budget s) (sr_budget s) = Some k"
    using read again check
    by (cases "allowed_bytes (sr_charge_budget s) (sr_budget s)") (auto simp: SubstreamReader_read_def is_ok_iff Let_def)
  let ?k = "buffer_size (monitor (sr_budget s)) (min ?limit k)"
  obtain a r where rd: "rd (sr_reader s) ?k = (a, r)" by (cases "rd (sr_reader s) ?k")
  show ?thesis
  proof (cases a)
    case (Err x)
    then show ?thesis using read check limit k rd by (auto simp: SubstreamReader_read_def is_ok_iff Let_def)
  next
    case (Ok bs)
    then have "e = IoKind UnexpectedEof \<or> account_read (s\<lparr>sr_reader := r\<rparr>) bs = (Err e, s')"
      using read check limit k rd by (auto simp: SubstreamReader_read_def is_ok_iff Let_def split: if_splits)
    then show ?thesis using again account_read_error [of "s\<lparr>sr_reader := r\<rparr>" bs e s'] by auto
  qed
qed

text \<open>An invariant of the callback together with the reader.\<close>

lemma run_callback_together:
  assumes step: "\<And>c s n k answer s'. J c s \<Longrightarrow> cb c = Ask n k \<Longrightarrow> rd s n = (answer, s') \<Longrightarrow> J (k answer) s'"
    and run: "run_callback rd cb c s = Some y" and "J c s"
  shows "J (fst (snd y)) (snd (snd y)) \<and> cb (fst (snd y)) = Return (fst y)"
proof -
  let ?P = "\<lambda>rd' cb' c s y. rd' = rd \<longrightarrow> cb' = cb \<longrightarrow> J c s \<longrightarrow> J (fst (snd y)) (snd (snd y)) \<and> cb (fst (snd y)) = Return (fst y)"
  have "?P rd cb c s y"
  proof (rule run_callback.raw_induct [where P = ?P, OF _ run])
    fix run rd' cb' c s y
    assume IH: "\<And>rd' cb' c s y. run rd' cb' c s = Some y \<Longrightarrow> ?P rd' cb' c s y"
      and eq: "(case cb' c of Return result \<Rightarrow> Some (result, c, s)
        | Ask n k \<Rightarrow> (case rd' s n of (answer, s) \<Rightarrow> run rd' cb' (k answer) s)) = Some y"
    show "?P rd' cb' c s y"
    proof (intro impI)
      assume same: "rd' = rd" "cb' = cb" and J: "J c s"
      show "J (fst (snd y)) (snd (snd y)) \<and> cb (fst (snd y)) = Return (fst y)"
      proof (cases "cb c")
        case (Return result)
        then show ?thesis using eq same J by auto
      next
        case (Ask n k)
        obtain a t where read: "rd s n = (a, t)" by (cases "rd s n")
        then have "run rd cb (k a) t = Some y" using eq same Ask by simp
        then show ?thesis using IH [of rd cb "k a" t y] step [OF J Ask read] same by blast
      qed
    qed
  qed
  with \<open>J c s\<close> show ?thesis by simp
qed


text \<open>What was copied is what the substream delivered, as long as the output had room.\<close>

definition copy_ok :: "'r reader \<Rightarrow> LimitedOutput \<Rightarrow> 'r SubstreamReader \<Rightarrow> memory_copy \<Rightarrow> 'r SubstreamReader \<Rightarrow> bool" where
  "copy_ok rd out0 s0 c s \<longleftrightarrow> room s \<and> lo_limit (copy_output c) = lo_limit out0 \<and> within_output (copy_output c) \<and>
     (\<exists>bs. counts s0 bs s \<and> delivers rd (sr_reader s0) bs (sr_reader s) \<and>
       (case c of
          Copying out _ \<Rightarrow> \<not> lo_limit_exceeded out \<longrightarrow> lo_bytes out = lo_bytes out0 @ bs
        | Copied result out _ \<Rightarrow> result = Ok () \<longrightarrow> \<not> lo_limit_exceeded out \<longrightarrow> lo_bytes out = lo_bytes out0 @ bs \<and> sr_remaining s = 0))"

lemma copy_ok_start: "room s \<Longrightarrow> within_output out \<Longrightarrow> copy_ok rd out s (Copying out k) s"
  unfolding copy_ok_def using counts_refl delivers_nil by force

lemma counts_reader: "counts s0 bs (s\<lparr>sr_reader := r\<rparr>) = counts s0 bs s" "room (s\<lparr>sr_reader := r\<rparr>) = room s"
  by (simp_all add: counts_def room_def)

lemma copy_ok_step:
  assumes contract: "read_contract rd" and ok: "copy_ok rd out0 s0 c s" and ask: "copy_entry c = Ask n k"
    and read: "SubstreamReader_read rd s n = (answer, s')"
  shows "copy_ok rd out0 s0 (k answer) s'"
proof -
  obtain out copied where c: "c = Copying out copied" and n: "n = 8192" and k: "k = copy_step out copied"
    using ask by (cases c) (simp_all add: copy_entry_def)
  obtain bs where bs: "room s" "lo_limit out = lo_limit out0" "within_output out" "counts s0 bs s"
    "delivers rd (sr_reader s0) bs (sr_reader s)" "\<not> lo_limit_exceeded out \<longrightarrow> lo_bytes out = lo_bytes out0 @ bs"
    using ok c by (auto simp: copy_ok_def)
  from SubstreamReader_read_counts [OF contract read bs(1)] obtain cs where
    cs: "counts s cs s'" "room s'" "delivers rd (sr_reader s) cs (sr_reader s')"
      "\<And>ds. answer = Ok ds \<Longrightarrow> ds = cs \<and> (ds = [] \<longrightarrow> sr_remaining s' = 0)" using n by auto
  have all: "counts s0 (bs @ cs) s'" "delivers rd (sr_reader s0) (bs @ cs) (sr_reader s')"
    using counts_trans [OF bs(4) cs(1)] delivers_append [OF cs(3) bs(5)] by simp_all
  show ?thesis
  proof (cases answer)
    case (Err e)
    show ?thesis
    proof (cases "fst (entry_read_error e) = Interrupted")
      case True
      then obtain m r where r: "s' = s\<lparr>sr_reader := r\<rparr>" "rd (sr_reader s) m = (Err e, r)"
        using read_again [OF read [unfolded Err] True] by blast
      have "delivers rd (sr_reader s0) bs (sr_reader s')" using delivers_err [OF bs(5) r(2)] r(1) by simp
      moreover have "k answer = Copying out copied" using True Err k by (simp add: copy_step_def case_prod_beta)
      moreover have "counts s0 bs s'" "room s'" using bs r by (simp_all add: counts_reader)
      ultimately show ?thesis using bs unfolding copy_ok_def by auto
    next
      case False
      then have "k answer = Copied (Err (snd (entry_read_error e))) out copied"
        using Err k by (simp add: copy_step_def case_prod_beta)
      then show ?thesis using all bs cs unfolding copy_ok_def by auto
    qed
  next
    case (Ok ds)
    note ds = cs(4) [OF Ok]
    show ?thesis
    proof (cases "ds = []")
      case True
      then have "k answer = Copied (Ok ()) out copied" using Ok k by (simp add: copy_step_def)
      then show ?thesis using all bs cs ds True unfolding copy_ok_def by auto
    next
      case False
      obtain w out' where w: "LimitedOutput_write_all out ds = (w, out')" by (cases "LimitedOutput_write_all out ds")
      note step = LimitedOutput_write_all_step [OF w]
      then have "copy_ok rd out0 s0 (Copying out' x) s'" for x
        using all bs cs ds unfolding copy_ok_def by (auto intro!: exI [of _ "bs @ cs"])
      moreover have "copy_ok rd out0 s0 (Copied (Err x) out' y) s'" for x y
        using all bs cs ds step unfolding copy_ok_def by (auto intro!: exI [of _ "bs @ cs"])
      ultimately show ?thesis using Ok False k w by (cases w) (simp_all add: copy_step_def)
    qed
  qed
qed


lemma copied_stream:
  assumes contract: "read_contract rd" and ok: "active_ok f" and budget: "within_limit b" and room_left: "within_output out"
    and read: "read_stream crc rd f b copy_entry (Copying out n) = Some (Ok g, b', c')"
  shows "within_output (copy_output c') \<and> lo_limit (copy_output c') = lo_limit out \<and>
    (\<not> lo_limit_exceeded (copy_output c') \<longrightarrow> (\<exists>bs. stream_done crc rd f bs g \<and> lo_bytes (copy_output c') = lo_bytes out @ bs))"
proof -
  obtain k: "Active_Folder.position f < layout_len (ss_layout (af_streams f))"
  proof (rule ccontr)
    assume no: "\<not> thesis"
    then have "\<not> Active_Folder.position f < layout_len (ss_layout (af_streams f))" using that by blast
    then have "substreams_next (af_streams f) = Some (None, af_streams f)"
      using ok by (simp add: active_ok_def Let_def substreams_next_def Active_Folder.position_def)
    then show False using read by (simp add: read_stream_def)
  qed
  from next_substream [OF ok k, of b rd crc] obtain stream streams where
    step: "substreams_next (af_streams f) = Some (Some stream, streams)" and
    room: "room (substream_reader f stream b)" and
    put_back: "\<And>bs s. counts (substream_reader f stream b) bs s \<Longrightarrow> delivers rd (af_reader f) bs (sr_reader s) \<Longrightarrow>
      sr_remaining s = 0 \<Longrightarrow> digest_finish crc (sr_stream_digest s) = Ok () \<Longrightarrow>
      active_ok (put_back f streams s) \<and> stream_done crc rd f bs (put_back f streams s)"
    using budget by blast
  let ?s0 = "substream_reader f stream b"
  obtain cr s1 s2 where
    cb: "run_callback (SubstreamReader_read rd) copy_entry (Copying out n) ?s0 = Some (cr, c', s1)" and
    fin: "finish_stream crc rd cr s1 = Some (Ok (), s2)" and g: "g = put_back f streams s2"
    using read step by (auto simp: read_stream_def bind_eq_Some_conv and_then_eq_Ok)
  have "copy_ok rd out ?s0 (fst (snd (cr, c', s1))) (snd (snd (cr, c', s1))) \<and> copy_entry (fst (snd (cr, c', s1))) = Return (fst (cr, c', s1))"
    by (rule run_callback_together [where J = "copy_ok rd out ?s0" and rd = "SubstreamReader_read rd", OF _ cb copy_ok_start [OF room room_left]])
       (rule copy_ok_step [OF contract])
  then have J: "copy_ok rd out ?s0 c' s1" and last: "copy_entry c' = Return cr" by simp_all
  from last obtain out' m where c': "c' = Copied cr out' m" by (cases c') (auto simp: copy_entry_def)
  have cr: "cr = Ok ()" and "\<not> sr_limit_exceeded s1"
    using fin by (cases cr; auto simp: finish_stream_def split: if_splits)+
  have s2: "s2 = s1" "digest_finish crc (sr_stream_digest s2) = Ok ()" if "sr_remaining s1 = 0"
  proof -
    have "SubstreamReader_read rd s1 COPY_BUFFER = (Ok [], s1) \<or> SubstreamReader_read rd s1 COPY_BUFFER = (Err CancelledRead, s1)"
      using that by (cases "monitor_check (monitor (sr_budget s1))") (auto simp: SubstreamReader_read_def dest!: check_error)
    then have "drain (SubstreamReader_read rd) s1 \<in> {Some (Ok (), s1), Some (Err CancelledRead, s1)}"
      by (auto simp: drain.simps [of "SubstreamReader_read rd" s1])
    then show "s2 = s1" "digest_finish crc (sr_stream_digest s2) = Ok ()"
      using fin cr that by (auto simp: finish_stream_def split: if_splits)
  qed
  have start: "sr_reader ?s0 = af_reader f" by (simp add: substream_reader_def)
  from J obtain bs where bs: "counts ?s0 bs s1" "delivers rd (af_reader f) bs (sr_reader s1)"
    "\<not> lo_limit_exceeded out' \<longrightarrow> lo_bytes out' = lo_bytes out @ bs \<and> sr_remaining s1 = 0"
    unfolding copy_ok_def c' cr start by auto
  have "stream_done crc rd f bs g" if "sr_remaining s1 = 0"
    using put_back [OF bs(1,2) that] s2 [OF that] g by simp
  then show ?thesis using bs(3) J c' by (auto simp: copy_ok_def)
qed


section \<open>The entry behind an index\<close>

lemma Entries_nth_items:
  assumes "n < usize_limit"
  shows "fst (Entries_nth (Entries_new files n) index) =
    (if index < n then Some (entry_items (Entries_new files n) ! index) else None)"
proof (cases "index < n")
  case True
  then have r: "range_nth (en_start (Entries_new files n)) (en_end (Entries_new files n)) index = (Some index, Suc index)"
    using assms by (simp add: range_nth_def usize_checked_add_def Entries_new_def)
  show ?thesis
    using True
    by (cases "en_names (Entries_new files n)"; cases "en_files (Entries_new files n)")
       (simp_all add: Entries_nth_def r entry_items_def Entries_len_def entry_at_def Entries_kind_def split_beta,
        simp_all add: Entries_new_def entry_at_def Entries_kind_def)
next
  case False
  then have "range_nth (en_start (Entries_new files n)) (en_end (Entries_new files n)) index = (None, n)"
    by (auto simp: range_nth_def Entries_new_def split: option.split)
  then show ?thesis using False by (simp add: Entries_nth_def)
qed

lemma FileStreams_nth_Ok:
  assumes at: "walk_at N m self es locs e" and n: "n < length es"
    and run: "FileStreams_nth N self n = Some (Ok (Some file), self')"
  shows "(owns (es ! n) \<longrightarrow> ordinal es n < length locs) \<and> file = bound (es ! n) (locs ! ordinal es n)"
proof -
  obtain en where en: "by_ref_take Entries_next n (fs_entries self) = (take n es, en)"
    "entries_valid m en" "entry_items en = drop n es"
    using ec.take_items [of m "fs_entries self" n] at by (auto simp: walk_at_def)
  let ?k = "ordinal es n"
  from at have "streams_valid (fs_streams self)" "remaining N (fs_streams self) = (locs, e)" by (simp_all add: walk_at_def)
  from StreamLocations_advance_by_spec [OF this, of ?k] obtain ss where
    ss: "StreamLocations_advance_by N (fs_streams self) ?k = Some (if ?k \<le> length locs then Ok () else Err (error_of e), ss)"
      "streams_valid ss" "remaining N ss = (if ?k \<le> length locs then (drop ?k locs, e) else ([], None))" by blast
  have le: "?k \<le> length locs" using run en(1) ss(1) by (auto simp: FileStreams_nth_def ordinal_def split: if_splits)
  let ?self = "self\<lparr>fs_entries := en, fs_streams := ss\<rparr>"
  have nxt: "FileStreams_next N ?self = Some (Ok (Some file), self')"
    using run en(1) ss(1) le by (simp add: FileStreams_nth_def ordinal_def)
  have at': "walk_at N m ?self (es ! n # drop (Suc n) es) (drop ?k locs) e"
    using en ss le n by (simp add: walk_at_def Cons_nth_drop_Suc)
  have some: "drop ?k locs \<noteq> []" if "owns (es ! n)"
    using FileStreams_next_missing [of N m ?self "es ! n" "drop (Suc n) es" e] at' nxt that by auto
  then have less: "owns (es ! n) \<longrightarrow> ?k < length locs" by auto
  have "file = bound (es ! n) (hd (drop ?k locs))"
    using FileStreams_next_entry [OF at'] some nxt by auto
  moreover have "bound (es ! n) (hd (drop ?k locs)) = bound (es ! n) (locs ! ?k)"
    using less bound_other [of "es ! n"] by (cases "owns (es ! n)") (auto simp: hd_drop_conv_nth)
  ultimately show ?thesis using less by simp
qed

text \<open>Every location the folder tables describe is in a folder whose sizes add up.\<close>

lemma locations_fit: "\<forall>f \<in> set fs. fitting (fl_layout f) \<Longrightarrow> \<forall>l \<in> set (locations k fs). fitting (fl_layout (loc_folder l))"
  by (induction fs arbitrary: k) (auto simp: owned_def location_def)

lemma stream_locations_fit:
  assumes "stream_locations N streams = (locs, e)"
  shows "\<forall>l \<in> set locs. fitting (fl_layout (loc_folder l))"
proof (cases "\<exists>folders. file_folders streams = Ok (Some folders)")
  case True
  then obtain folders where folders: "file_folders streams = Ok (Some folders)" by blast
  obtain fs e' where run: "plans_run N (fls_plans folders) = (fs, e')" by (cases "plans_run N (fls_plans folders)")
  then have "locs = locations 0 fs" using assms folders by (simp add: stream_locations_def plans_locations_def)
  with run show ?thesis using plans_run_fits locations_fit by blast
next
  case False
  then show ?thesis using assms by (auto simp: stream_locations_def split: result.splits option.splits)
qed


section \<open>Extraction to memory\<close>

text \<open>
  The bytes of a substream: what the decoder of its folder delivers there, with the announced
  size and checksum.
\<close>

definition entry_bytes :: "('b, 'd, 'r, 'w) engine \<Rightarrow> StreamLocation \<Rightarrow> bytes \<Rightarrow> bool" where
  "entry_bytes G place bs \<longleftrightarrow>
     (let l = fl_layout (loc_folder place); k = loc_stream_index place in
      k < layout_len l \<and> length bs = unat (layout_sizes l ! k) \<and>
      (\<forall>e. digest_at (fsl_digests l) k = Some e \<longrightarrow> eng_crc G bs = e) \<and>
      (\<exists>w0 b0 prepared b1 w1 f b2 before r.
         FolderLayout_bind G (loc_folder place) b0 w0 = Some (Ok prepared, b1, w1) \<and>
         start_folder G prepared b1 = (Ok f, b2) \<and> delivers folder_read (af_reader f) (before @ bs) r \<and>
         length before = sizes_total (take k (layout_sizes l))))"

lemma new_decoder_budget: "within_limit (ed_budget (new_decoder w mode config))" "ed_current (new_decoder w mode config) = None"
  using new_decoder_ok [of _ w mode config] by (simp_all add: decoder_ok_def new_decoder_def)

lemma fresh_switch:
  assumes "switch_folder G S place = Some (Ok f, S')" and "ed_current S = None"
  shows "\<exists>prepared b w b2. FolderLayout_bind G (loc_folder place) (ed_budget S) (ed_world S) = Some (Ok prepared, b, w) \<and>
    start_folder G prepared b = (Ok f, b2) \<and> S' = S\<lparr>ed_current := None, ed_budget := b2, ed_world := w\<rparr>"
proof -
  let ?bind = "FolderLayout_bind G (loc_folder place) (ed_budget S) (ed_world S)"
  obtain p b w where bind: "?bind = Some (p, b, w)"
    using assms by (auto simp: switch_folder_def Let_def EntryDecoder_complete_def)
  then obtain prepared where p: "p = Ok prepared"
    using assms by (cases p) (auto simp: switch_folder_def Let_def EntryDecoder_complete_def)
  obtain r b2 where "start_folder G prepared b = (r, b2)" by (cases "start_folder G prepared b")
  then show ?thesis
    using assms bind p by (auto simp: switch_folder_def Let_def EntryDecoder_complete_def)
qed

lemma read_copied:
  assumes G: "engine_ok G" and fit: "fitting (fl_layout (loc_folder place))" and room_left: "within_output out"
    and S: "within_limit (ed_budget S)" "ed_current S = None"
    and run: "EntryDecoder_read_stream G S place copy_entry (Copying out n) = Some (Ok (), S', c')"
  shows "within_output (copy_output c') \<and> lo_limit (copy_output c') = lo_limit out \<and>
    (\<not> lo_limit_exceeded (copy_output c') \<longrightarrow> (\<exists>bs. entry_bytes G place bs \<and> lo_bytes (copy_output c') = lo_bytes out @ bs))"
proof -
  let ?l = "fl_layout (loc_folder place)" let ?k = "loc_stream_index place" let ?rd = "guarded folder_read"
  obtain r1 S1 where switch1: "switch_folder G S place = Some (r1, S1)"
    using run by (auto simp: EntryDecoder_read_stream_def bind_eq_Some_conv)
  then obtain f where switch: "switch_folder G S place = Some (Ok f, S1)"
    using run by (cases r1) (auto simp: EntryDecoder_read_stream_def)
  from fresh_switch [OF switch S(2)] obtain prepared b w b2 where
    bind: "FolderLayout_bind G (loc_folder place) (ed_budget S) (ed_world S) = Some (Ok prepared, b, w)" and
    start: "start_folder G prepared b = (Ok f, b2)" and S1: "ed_budget S1 = b2" by auto
  have b2: "within_limit b2" using start_folder_within [OF start within_limit_kept [OF FolderLayout_bind_kept [OF bind] S(1)]] .
  have f: "usable f" using started_usable [OF G bind start fit] by simp
  have pos: "Active_Folder.position f = 0" "ss_layout (af_streams f) = ?l"
    using ReadyFolder_start_Ok [OF start [unfolded start_folder_def]] bound_fields [OF bind]
    by (simp_all add: Active_Folder.position_def layout_streams_def)
  obtain r2 b3 where skip1: "skip_to (eng_crc G) folder_read f ?k b2 = Some (r2, b3)"
    using run switch S1 by (auto simp: EntryDecoder_read_stream_def bind_eq_Some_conv)
  then obtain g where skip: "skip_to (eng_crc G) folder_read f ?k b2 = Some (Ok g, b3)"
    using run switch S1 by (cases r2) (auto simp: EntryDecoder_read_stream_def)
  obtain r3 b4 c4 where read1: "read_stream (eng_crc G) folder_read g b3 copy_entry (Copying out n) = Some (r3, b4, c4)"
    using run switch S1 skip by (auto simp: EntryDecoder_read_stream_def)
  then obtain h where read: "read_stream (eng_crc G) folder_read g b3 copy_entry (Copying out n) = Some (Ok h, b4, c')"
    using run switch S1 skip by (cases r3) (auto simp: EntryDecoder_read_stream_def)
  note skipped = skip_to_same [OF folder_contract f [unfolded usable_def, THEN conjunct2] skip]
  then have streams: "read_streams (eng_crc G) ?rd (replicate ?k (consume_nothing, ())) f b2 = Some (Ok g, b3)"
    by (auto simp: skip_to_def Let_def pos skip_streams_read split: if_splits)
  from read_streams_done [OF guarded.read_contract_axioms f [unfolded usable_def, THEN conjunct1] b2 streams] obtain chunks where
    g: "within_limit b3" "active_ok g" "streams_done (eng_crc G) ?rd f chunks g" "length chunks = ?k" by auto
  note at_k = streams_done_summary [OF g(3)]
  have lens: "length (concat chunks) = sizes_total (take ?k (layout_sizes ?l))"
    using at_k pos g(4) by (simp add: length_concat sizes_total_def)
  have "folder_obeys (af_reader g)" using skipped by simp
  from read_stream_same [OF folder_contract this read]
  have "read_stream (eng_crc G) ?rd g b3 copy_entry (Copying out n) = Some (Ok h, b4, c')" by simp
  note copied = copied_stream [OF guarded.read_contract_axioms g(2,1) room_left this]
  have "entry_bytes G place bs" if bs: "stream_done (eng_crc G) ?rd g bs h" for bs
  proof -
    note d = bs [unfolded stream_done_def Let_def]
    have "delivers ?rd (af_reader f) (concat chunks @ bs) (af_reader h)"
      by (rule delivers_append [OF d [THEN conjunct2, THEN conjunct1] at_k [THEN conjunct1]])
    then have "delivers folder_read (af_reader f) (concat chunks @ bs) (af_reader h)"
      using guarded_delivers [OF folder_contract] f by (auto simp: usable_def)
    then have "\<exists>w0 b0 prepared b1 w1 f b2 before r.
         FolderLayout_bind G (loc_folder place) b0 w0 = Some (Ok prepared, b1, w1) \<and>
         start_folder G prepared b1 = (Ok f, b2) \<and> delivers folder_read (af_reader f) (before @ bs) r \<and>
         length before = sizes_total (take ?k (layout_sizes ?l))"
      by (intro exI [of _ "ed_world S"] exI [of _ "ed_budget S"] exI [of _ prepared] exI [of _ b] exI [of _ w] exI [of _ f] exI [of _ b2]
          exI [of _ "concat chunks"] exI [of _ "af_reader h"] conjI bind start lens)
    moreover have "Active_Folder.position g = ?k" "ss_layout (af_streams g) = ?l" using at_k pos g(4) by simp_all
    ultimately show ?thesis using d by (simp add: entry_bytes_def Let_def)
  qed
  with copied show ?thesis by blast
qed


lemma memory_writer:
  assumes "extract_to_memory_with_options connect N platform self index config = Some (Ok bytes)"
  shows "\<exists>written out. extract_to_writer_with_options connect N platform self index
      (LimitedOutput_new (max_retained_output_bytes (rc_options config))) config = Some (Ok written, out) \<and>
    \<not> lo_limit_exceeded out \<and> bytes = lo_bytes out"
proof -
  obtain r out where run: "extract_to_writer_with_options connect N platform self index
      (LimitedOutput_new (max_retained_output_bytes (rc_options config))) config = Some (r, out)"
    and res: "(if lo_limit_exceeded out then Err (LimitedOutput_limit_error out) else and_then r (\<lambda>_. Ok (lo_bytes out))) = Ok bytes"
    using assms by (auto simp: extract_to_memory_with_options_def)
  then show ?thesis by (cases r) (auto split: if_splits)
qed

lemma session_extracts:
  assumes "session_extract_to_writer G N platform self index out = Some (Ok written, self', out')"
  shows "\<exists>c'. read_entry G N platform self index copy_entry (Copying out 0) = Some (Ok (), self', c') \<and> out' = copy_output c'"
proof -
  obtain r c' where run: "read_entry G N platform self index copy_entry (Copying out 0) = Some (r, self', c')"
    and "and_then r (\<lambda>_. Ok (copy_count c')) = Ok written" "out' = copy_output c'"
    using assms by (auto simp: session_extract_to_writer_def)
  then show ?thesis by (cases r) auto
qed

lemma fresh_read_entry:
  assumes "read_entry G N platform self index cb c = Some (Ok (), self', c')" and "FileStreams_len (rs_files self) = rs_count self"
  shows "\<exists>item files' entry decoder. FileStreams_nth N (rs_files self) index = Some (Ok (Some item), files') \<and> index < rs_count self \<and>
    ReadableEntry_from_file platform item = Some entry \<and>
    EntryDecoder_read G (rs_decoder self) entry (\<lambda>_. cb) c = Some (Ok (), decoder, c')"
proof -
  have first: "checked_sub (rs_count self) (FileStreams_len (rs_files self)) = Some 0"
    using assms(2) by (simp add: checked_sub_def)
  have index: "index < rs_count self" using assms(1) first by (auto simp: read_entry_def split: if_splits)
  then obtain a files' where nth: "FileStreams_nth N (rs_files self) index = Some (a, files')"
    using assms(1) first by (auto simp: read_entry_def split: option.splits)
  obtain item where a: "a = Ok (Some item)"
    using assms(1) first index nth by (cases a; cases "case a of Ok x \<Rightarrow> x | Err _ \<Rightarrow> None") (auto simp: read_entry_def Let_def)
  obtain entry where "ReadableEntry_from_file platform item = Some entry"
    using assms(1) first index nth a by (cases "ReadableEntry_from_file platform item") (auto simp: read_entry_def Let_def)
  then show ?thesis using assms(1) first index nth a by (auto simp: read_entry_def Let_def)
qed

lemma extract_uses_session:
  assumes "extract_to_writer_with_options connect N platform self index writer config = Some (Ok written, out)"
    and "Archive_try_files_info N self = Ok files" and "fst (Entries_nth (Entries_new files (Archive_num_files self)) index) = Some entry"
    and "owns entry"
  shows "\<exists>G start fin. read_session_with_options connect N self config = Ok (G, start) \<and>
    session_extract_to_writer G N platform start index writer = Some (Ok written, fin, out)"
proof -
  let ?served = "case read_session_with_options connect N self config of
      Err e \<Rightarrow> Some (Err e, writer)
    | Ok (G, session) \<Rightarrow>
        Option.bind (session_extract_to_writer G N platform session index writer) (\<lambda>(written, session, writer).
          case written of
            Err e \<Rightarrow> Some (Err e, writer)
          | Ok written \<Rightarrow>
              map_option (\<lambda>(result, _). (and_then result (\<lambda>_. Ok written), writer)) (session_finish G session))"
  have run: "?served = Some (Ok written, out)"
    using assms by (cases "ent_kind entry") (simp_all add: extract_to_writer_with_options_def Let_def)
  then obtain G start where begun: "read_session_with_options connect N self config = Ok (G, start)"
    by (cases "read_session_with_options connect N self config") auto
  with run obtain r fin out' where s: "session_extract_to_writer G N platform start index writer = Some (r, fin, out')"
    by (auto simp: bind_eq_Some_conv)
  then show ?thesis using run begun by (cases r) (auto simp: and_then_eq_Ok)
qed

lemma read_entry_stream:
  assumes "EntryDecoder_read G S entry cb c = Some (Ok (), S', c')" and "re_content entry = Content_Stream place"
  shows "EntryDecoder_read_stream G S place (cb (re_info entry)) c = Some (Ok (), S', c')"
  using assms by (cases "monitor_check (monitor (ed_budget S))") (auto simp: EntryDecoder_read_def)

lemma extracted_entry:
  assumes engines: "\<forall>pos G w. connect pos = Ok (G, w) \<longrightarrow> engine_ok G"
    and files: "Archive_try_files_info N self = Ok files" and streams: "Archive_try_streams_info N self = Ok streams"
    and locs: "stream_locations N streams = (locs, e)"
    and es: "es = entry_items (Entries_new files (Archive_num_files self))" and index: "index < length es" and owned: "owns (es ! index)"
    and run: "extract_to_writer_with_options connect N platform self index (LimitedOutput_new limit) config = Some (Ok written, out)"
    and fits: "\<not> lo_limit_exceeded out"
  shows "ordinal es index < length locs \<and> within_output out \<and> lo_limit out = limit \<and>
    (\<exists>pos G w. connect pos = Ok (G, w) \<and> entry_bytes G (locs ! ordinal es index) (lo_bytes out))"
proof -
  let ?n = "Archive_num_files self" and ?out = "LimitedOutput_new limit"
  have len: "length es = ?n" by (simp add: es)
  have "fst (Entries_nth (Entries_new files ?n) index) = Some (es ! index)"
    using Entries_nth_items [OF Archive_num_files_less [of self], of files index] index len by (simp add: es)
  from extract_uses_session [OF run files this owned] obtain G start fin where
    begun: "read_session_with_options connect N self config = Ok (G, start)" and
    copying: "session_extract_to_writer G N platform start index ?out = Some (Ok written, fin, out)" by blast
  from begun files streams obtain walk w where
    walk: "FileStreams_new files ?n streams = Ok walk" and G: "connect (files_pack_pos walk) = Ok (G, w)" and
    start: "start = \<lparr>rs_files = walk, rs_decoder = new_decoder w SelectedStreams config, rs_count = ?n\<rparr>"
    by (auto simp: read_session_with_options_def archive_file_streams_def)
  have at: "walk_at N ?n walk es locs e" using FileStreams_new_walk [OF walk Archive_num_files_less locs] by (simp add: es)
  then have "FileStreams_len walk = ?n"
    by (simp add: walk_at_def FileStreams_len_def len [symmetric]) (metis entry_items_def length_map length_upt minus_nat.diff_0)
  then have fresh: "FileStreams_len (rs_files start) = rs_count start" by (simp add: start)
  from session_extracts [OF copying] obtain c' where
    c': "read_entry G N platform start index copy_entry (Copying ?out 0) = Some (Ok (), fin, c')" "out = copy_output c'" by blast
  from fresh_read_entry [OF c'(1) fresh] obtain item walk' entry decoder where
    nth: "FileStreams_nth N walk index = Some (Ok (Some item), walk')" and
    entry: "ReadableEntry_from_file platform item = Some entry" and
    read: "EntryDecoder_read G (new_decoder w SelectedStreams config) entry (\<lambda>_. copy_entry) (Copying ?out 0) = Some (Ok (), decoder, c')"
    by (auto simp: start)
  let ?place = "locs ! ordinal es index"
  have found: "ordinal es index < length locs" "item = bound (es ! index) ?place"
    using FileStreams_nth_Ok [OF at _ nth] index len owned by auto
  then have content: "re_content entry = Content_Stream ?place"
    using entry owned by (cases "ent_kind (es ! index)") (auto simp: ReadableEntry_from_file_def bound_def Let_def)
  have "engine_ok G" "fitting (fl_layout (loc_folder ?place))" "within_output ?out" "lo_bytes ?out = []" "lo_limit ?out = limit"
    using engines G stream_locations_fit [OF locs] found(1) by (auto simp: LimitedOutput_new_def within_output_def)
  with read_copied [OF this(1,2,3) new_decoder_budget read_entry_stream [OF read content]] show ?thesis
    using c'(2) fits found(1) G by auto
qed

lemma memory_extracted:
  assumes "\<forall>pos G w. connect pos = Ok (G, w) \<longrightarrow> engine_ok G"
    and "Archive_try_files_info N self = Ok files" and "Archive_try_streams_info N self = Ok streams"
    and "stream_locations N streams = (locs, e)"
    and "extract_to_memory_with_options connect N platform self index config = Some (Ok bytes)"
  defines "es \<equiv> entry_items (Entries_new files (Archive_num_files self))"
  shows "index < length es \<and>
    (\<forall>limit. max_retained_output_bytes (rc_options config) = Some limit \<longrightarrow> length bytes \<le> unat limit) \<and>
    (if owns (es ! index)
     then ordinal es index < length locs \<and>
       (\<exists>pos G w. connect pos = Ok (G, w) \<and> entry_bytes G (locs ! ordinal es index) bytes)
     else ent_kind (es ! index) \<in> {EK_EmptyFile, EK_EmptySymlink} \<and> bytes = [])"
proof -
  let ?limit = "max_retained_output_bytes (rc_options config)" let ?n = "Archive_num_files self"
  from memory_writer [OF assms(5)] obtain written out where
    run: "extract_to_writer_with_options connect N platform self index (LimitedOutput_new ?limit) config = Some (Ok written, out)"
    and out: "\<not> lo_limit_exceeded out" "bytes = lo_bytes out" by blast
  note nth = Entries_nth_items [OF Archive_num_files_less [of self], of files index, folded es_def]
  have index: "index < length es"
    using run nth assms(2) by (auto simp: es_def extract_to_writer_with_options_def split: if_splits)
  show ?thesis
  proof (cases "owns (es ! index)")
    case False
    have "fst (Entries_nth (Entries_new files ?n) index) = Some (es ! index)" using nth index by (simp add: es_def)
    then have "ent_kind (es ! index) \<in> {EK_EmptyFile, EK_EmptySymlink} \<and> out = LimitedOutput_new ?limit"
      using False run assms(2) by (cases "ent_kind (es ! index)") (auto simp: extract_to_writer_with_options_def)
    then show ?thesis using False index out by (simp add: LimitedOutput_new_def)
  next
    case True
    with extracted_entry [OF assms(1-4) meta_eq_to_obj_eq [OF es_def] index True run out(1)] index out(2) show ?thesis
      by (auto simp: within_output_def)
  qed
qed

text \<open>
  C2. Extraction to memory returns the entry or an error. If it returns bytes, the index is that of a
  file or a link; there are no more of them than the limit on retained output allows; an empty
  entry has none; and any other entry has exactly the bytes its folder's decoder delivers at
  the place of its substream, which is the one numbered by the entries with data before it,
  of the announced size and with the announced checksum.
\<close>

theorem memory_extraction_exact:
  assumes "\<forall>pos G w. connect pos = Ok (G, w) \<longrightarrow> engine_ok G"
    and "Archive_try_files_info N self = Ok files" and "Archive_try_streams_info N self = Ok streams"
    and "stream_locations N streams = (locs, e)"
    and "extract_to_memory_with_options connect N platform self index config = Some (Ok bytes)"
  defines "es \<equiv> entry_items (Entries_new files (Archive_num_files self))"
  shows "index < length es \<and>
    (\<forall>limit. max_retained_output_bytes (rc_options config) = Some limit \<longrightarrow> length bytes \<le> unat limit) \<and>
    (if owns (es ! index)
     then ordinal es index < length locs \<and>
       (\<exists>pos G w. connect pos = Ok (G, w) \<and> entry_bytes G (locs ! ordinal es index) bytes)
     else ent_kind (es ! index) \<in> {EK_EmptyFile, EK_EmptySymlink} \<and> bytes = [])"
  using memory_extracted [OF assms(1-5)] unfolding es_def .

end
