(* ===== verification/Session_Example.thy ===== *)
theory Session_Example
  imports Extraction_Laws Header_Scan
begin

text \<open>
  A session on the archive of one stored file of five bytes, worked out: it shows that the
  hypotheses of the laws about sessions can hold.
\<close>

definition stored_engine :: "(unit, unit, Cursor, unit) engine" where
  "stored_engine = \<lparr>eng_codecs = plain_codecs, eng_lzma_mem = (\<lambda>_ _. None), eng_lzma2_mem = (\<lambda>_. 0), eng_crc = (\<lambda>_. 0),
     eng_read = Cursor_read, eng_open = (\<lambda>_ w. Some (Ok \<lparr>pi_reader = Cursor_new [7, 8, 9, 10, 11], pi_size = 5\<rparr>, w)),
     eng_password = None\<rparr>"

lemma stored_engine_ok: "engine_ok stored_engine"
  using plain_codecs_obey cursor.read_contract_axioms by (simp add: engine_ok_def stored_engine_def)

definition stored_config :: ArchiveReadConfig where
  "stored_config = \<lparr>rc_options = ResourceLimits_default, rc_control = None\<rparr>"

abbreviation stored_bytes :: bytes where
  "stored_bytes \<equiv> [7, 8, 9, 10, 11]"

text \<open>Its header: one packed stream of five bytes, one folder with the copy method, one file named \<open>a\<close>.\<close>

definition stored_header_bytes :: bytes where
  "stored_header_bytes = [1, 4, 6, 0, 1, 9, 5, 0, 7, 0x0B, 1, 0, 1, 1, 0, 0x0C, 5, 0, 0,
     5, 1, 0x11, 5, 0, 97, 0, 0, 0, 0, 0]"

abbreviation stored_header_data :: Bytes where
  "stored_header_data \<equiv> \<lparr>b_ptr = 100, b_data = stored_header_bytes\<rparr>"

definition stored_header :: Header where
  "stored_header = \<lparr>h_data = stored_header_data, streams_info_range = Some (2, 19), files_info_range = Some (19, 29),
     additional_streams_range = None, external_folder_data = [], h_num_files = 1\<rparr>"

definition stored_files :: FilesInfo where
  "stored_files = \<lparr>num_files = 1, name_data = \<lparr>b_ptr = 124, b_data = [97, 0, 0, 0]\<rparr>, ctimes = [], atimes = [], mtimes = [],
     start_positions = [], attributes = [], empty_streams = Bytes_new, empty_files = Bytes_new, anti_items = Bytes_new,
     empty_stream_ordinals = [None]\<rparr>"

definition stored_image :: bytes where
  "stored_image = signature_bytes (\<lambda>_. 0) 5 stored_header_bytes @ stored_bytes @ stored_header_bytes"

definition stored_signature :: SignatureHeader where
  "stored_signature = \<lparr>sh_signature = SEVEN_Z_MAGIC, sh_major_version = 0, sh_minor_version = 4, sh_start_header_crc = 0,
     sh_next_header_offset = 5, sh_next_header_size = 30, sh_next_header_crc = 0\<rparr>"

definition stored_archive :: "unit Archive" where
  "stored_archive = \<lparr>ar_source = Source_Bytes \<lparr>b_ptr = 0, b_data = stored_image\<rparr>, ar_base_offset = 0,
     ar_signature = stored_signature, ar_encoded_header = None, ar_header = stored_header\<rparr>"

lemma stored_header_parses: "header_parse_ext nom_reference stored_header_data None = Ok ([], stored_header)"
  by (simp add: stored_header_bytes_def stored_header_def header_evals)

lemma stored_streams_info: "Archive_try_streams_info nom_reference stored_archive = Ok (Some copy_streams)"
  by (simp add: Archive_try_streams_info_def stored_archive_def stored_header_def try_streams_info_def lazy_section_def get_range_def
      stored_header_bytes_def StreamInfo_parse_with_external_def stream_info_loop.simps [of _ _ _ _ "_ # _"] header_evals
      copy_streams_def copy_pack_def copy_unpack_def)

lemma stored_files_info: "Archive_try_files_info nom_reference stored_archive = Ok (Some stored_files)"
  by (simp add: Archive_try_files_info_def stored_archive_def stored_header_def try_files_info_def lazy_section_def get_range_def
      stored_header_bytes_def files_info_evals header_evals stored_files_def Bytes_new_def)

lemma stored_num_files: "Archive_num_files stored_archive = 1"
  by (simp add: Archive_num_files_def stored_archive_def stored_header_def usize_try_from_def)

definition stored_file_streams :: FileStreams where
  "stored_file_streams = copy_file_streams\<lparr>fs_entries := Entries_new (Some stored_files) 1\<rparr>"

lemma stored_entry_kind: "entry_kind stored_files 0 = EK_File ()"
  by (simp add: entry_kind_def stored_files_def is_empty_stream_def is_empty_file_def is_anti_def is_symlink_def
      empty_stream_ordinal_def bitmap_is_set_def get_def Bytes_new_def)

lemma stored_file_streams_new: "FileStreams_new (Some stored_files) 1 (Some copy_streams) = Ok stored_file_streams"
  by (simp add: FileStreams_new_def copy_file_folders Let_def stored_file_streams_def copy_file_streams_def
      Entries_stream_count_def Entries_new_def Entries_kind_def stored_entry_kind layouts_pack_pos_def copy_plans_def
      FolderPlans_new_def copy_pack_def)

definition stored_budget :: OperationBudget where
  "stored_budget = with_control (OperationBudget_new ResourceLimits_default) None"

section \<open>Binding and starting the folder\<close>

lemma stored_layout: "bcj2_layout copy_graph copy_folder = Some (Ok None)"
  by (simp add: bcj2_layout_def copy_folder_def codec_ids)

lemma stored_method: "method_info [0] = Some \<lparr>mi_method = M_Copy, mi_id = [0], mi_name = ''Copy'', mi_kind = Compression,
    mi_decode = Tested, mi_encode = Tested, mi_stream_arity = (1, 1)\<rparr>"
  by (simp add: method_info_def METHOD_REGISTRY_def codec_ids)

lemma stored_compile: "CoderPlan_compile lzma_mem (coders copy_folder ! 0) sz = Ok C_Copy"
  by (simp add: CoderPlan_compile_def copy_folder_def stored_method can_decode_def no_properties_def Let_def)


definition stored_plan :: DecoderPlan where
  "stored_plan = \<lparr>dp_topology = Chain [\<lparr>ds_coder = C_Copy, ds_input = Known 5, ds_output = Known 5\<rparr>], dp_memory = 0, dp_inputs = [5]\<rparr>"

lemma stored_plan_eq:
  "compile_with_budget lzma_mem lzma2_mem copy_folder copy_graph 5 [5] [5] stored_budget = Some (Ok (stored_plan, stored_budget))"
proof -
  let ?szs = "\<lparr>cs_declared = [5], cs_final_index = 0, cs_final_size = 5\<rparr>"
  have sizes: "CoderOutputSizes_complete copy_folder copy_graph 5 [5] = Ok ?szs"
    by (simp add: CoderOutputSizes_complete_def CoderOutputSizes_partial_def total_out_streams_def copy_folder_def
        copy_graph_def get_def)
  have topology: "decoder_topology copy_folder copy_graph = Some (Ok DT_Chain)"
    by (simp add: decoder_topology_def stored_layout) (simp add: copy_folder_def method_from_id_def stored_method)
  have "length (coders copy_folder) = 1" by (simp add: copy_folder_def)
  then have coder: "get (coders copy_folder) 0 = Some (coders copy_folder ! 0)" by simp
  have steps: "compile_backwards lzma_mem copy_folder ?szs [0] Unknown = Ok [\<lparr>sc_coder = C_Copy, sc_output = Known 5\<rparr>]"
    by (simp add: coder stored_compile SizedCoder_compile_def CoderOutputSizes_get_def reconcile_def del: get_eq_Some)
  have admit: "WorkingSet_admit 0 stored_budget = Ok (0, stored_budget)"
    by (simp add: WorkingSet_admit_def admit_decoder_working_set_def stored_budget_def OperationBudget_new_def with_control_def
        ResourceLimits_default_def)
  let ?step = "\<lparr>ds_coder = C_Copy, ds_input = Known 5, ds_output = Known 5\<rparr>"
  have bind: "bind_sizes [\<lparr>sc_coder = C_Copy, sc_output = Known 5\<rparr>] (Known 5) = Ok [?step]"
    by (simp add: bind_size_def reconcile_def preserves_size_def)
  have memory: "add_working_sets lzma2_mem [?step] = Ok 0"
    by (simp add: add_working_sets_def DecodeStep_working_set_def CoderPlan_working_set_def WorkingSet_add_def usize_checked_add_def)
  have order: "rev (g_execution_order copy_graph) = [0]" by (simp add: copy_graph_def)
  have "compile_chain lzma_mem lzma2_mem copy_folder copy_graph ?szs [5] stored_budget = Ok (stored_plan, stored_budget)"
    unfolding compile_chain_def order by (simp only: list.case steps and_then.simps rev.simps append_Nil bind memory admit prod.case stored_plan_def)
  then show ?thesis
    by (simp add: compile_with_budget_def sizes with_output_sizes_def topology validate_folder_coder_count_def)
       (simp add: copy_folder_def copy_graph_def)
qed

definition stored_ready :: "Cursor ReadyDecoder ReadyFolder" where
  "stored_ready = \<lparr>rf_decoder = \<lparr>rdy_topology = BChain [\<lparr>ds_coder = C_Copy, ds_input = Known 5, ds_output = Known 5\<rparr>]
       \<lparr>tk_inner = Cursor_new [7, 8, 9, 10, 11], tk_limit = 5\<rparr>, rdy_memory = 0\<rparr>,
     rf_layout = fl_layout copy_layout, rf_unpack_size = 5, rf_crc = None\<rparr>"

lemma stored_bind: "FolderLayout_bind stored_engine copy_layout stored_budget w = Some (Ok stored_ready, stored_budget, w)"
proof -
  have bind: "DecoderPlan_bind stored_plan [\<lparr>pi_reader = Cursor_new [7, 8, 9, 10, 11], pi_size = 5\<rparr>] = Ok (rf_decoder stored_ready)"
    by (simp add: DecoderPlan_bind_def stored_plan_def PackedLayout_bind_def BoundInputs_take_def get_def stored_ready_def)
  show ?thesis
    by (simp add: FolderLayout_bind_def copy_layout_def stored_plan_eq Let_def packed_streams_iter_def ByteRange_from_range_def
        stored_engine_def bind)
       (simp add: stored_ready_def copy_layout_def)
qed

definition stored_reader :: "nat \<Rightarrow> dyn FolderReader" where
  "stored_reader k = Streamed (boxed (ExactSizeReader_read dyn_read)
     \<lparr>es_inner = boxed (Take_read Cursor_read) \<lparr>tk_inner = \<lparr>cur_data = stored_bytes, cur_pos = k\<rparr>, tk_limit = of_nat (5 - k)\<rparr>,
      es_remaining = of_nat (5 - k), es_end = Terminated\<rparr>)"

lemma stored_reads:
  "folder_read (stored_reader 0) 5 = (Ok stored_bytes, stored_reader 5)"
  "folder_read (stored_reader 5) 1 = (Ok [], stored_reader 5)"
  by (simp_all add: stored_reader_def FolderReader_read_def dyn_read_boxed ExactSizeReader_read_def Take_read_def Cursor_read_def
      cursor_rest_def Let_def) (simp add: eval_nat_numeral)

definition stored_active :: "nat \<Rightarrow> dyn FolderReader ActiveFolder" where
  "stored_active k = \<lparr>af_reader = stored_reader k,
     af_streams = \<lparr>ss_layout = fl_layout copy_layout, ss_position = (if k = 0 then 0 else 1), ss_offset = of_nat k\<rparr>,
     af_digest = Absent, af_decoded_len = of_nat k, af_unpack_size = 5, af_budgeted_eagerly = False\<rparr>"

lemma stored_start: "start_folder stored_engine stored_ready stored_budget = (Ok (stored_active 0), stored_budget)"
  by (simp add: start_folder_def ReadyFolder_start_def stored_ready_def eager_output_size_def stored_engine_def
      ReadyDecoder_start_def DecodeStep_open_def CoderPlan_open_def ExactSizeReader_terminated_def stored_active_def
      stored_reader_def Cursor_new_def layout_streams_def copy_layout_def)

abbreviation stored_budget_end :: OperationBudget where
  "stored_budget_end \<equiv> stored_budget\<lparr>decoded := 5\<rparr>"

lemma stored_monitor [simp]: "monitor stored_budget = OperationMonitor_new None" "decoded stored_budget = 0"
  "limits stored_budget = ResourceLimits_default"
  by (simp_all add: stored_budget_def with_control_def OperationBudget_new_def)

lemma no_control [simp]: "monitor_check (OperationMonitor_new None) = Ok ()" "monitor_advance (OperationMonitor_new None) n = (Ok (), OperationMonitor_new None)"
  "buffer_size (OperationMonitor_new None) n = n"
  by (simp_all add: monitor_check_def OperationMonitor_new_def monitor_advance_def buffer_size_def)

definition stored_stream :: "nat \<Rightarrow> dyn FolderReader SubstreamReader" where
  "stored_stream k = \<lparr>sr_reader = stored_reader k, sr_remaining = of_nat (5 - k), sr_folder_digest = Absent, sr_stream_digest = Absent,
     sr_decoded_len = of_nat k, sr_budget = (if k = 0 then stored_budget else stored_budget_end), sr_limit_exceeded = False,
     sr_charge_budget = True\<rparr>"

lemma stored_stream_reads:
  "SubstreamReader_read folder_read (stored_stream 0) 8192 = (Ok stored_bytes, stored_stream 5)"
  "SubstreamReader_read folder_read (stored_stream 5) 8192 = (Ok [], stored_stream 5)"
  by (simp_all add: SubstreamReader_read_def stored_stream_def allowed_bytes_def decoded_remaining_def ResourceLimits_default_def
      stored_reads account_read_def charge_decoded_def next_decoded_def u64_checked_add_def Let_def)

lemma stored_next:
  "substreams_next (af_streams (stored_active 0)) =
     Some (Some \<lparr>ss_range = \<lparr>br_start = 0, br_end = 5\<rparr>, ss_digest = None\<rparr>, af_streams (stored_active 5))"
  by (simp add: stored_active_def substreams_next_def copy_layout_def layout_len_def layout_sizes_def get_def
      ByteRange_from_range_def digest_at_def)

lemma stored_drain: "drain (SubstreamReader_read folder_read) (stored_stream 5) = Some (Ok (), stored_stream 5)"
  by (simp add: drain.simps [of "SubstreamReader_read folder_read" "stored_stream 5"] stored_stream_reads)

definition stored_out :: "LimitedOutput" where
  "stored_out = \<lparr>lo_bytes = stored_bytes, lo_limit = None, lo_limit_exceeded = False\<rparr>"

lemma stored_copy:
  "run_callback (SubstreamReader_read folder_read) copy_entry (Copying (LimitedOutput_new None) 0) (stored_stream 0) =
     Some (Ok (), Copied (Ok ()) stored_out 5, stored_stream 5)"
proof -
  have w: "LimitedOutput_write_all (LimitedOutput_new None) stored_bytes = (Ok (), stored_out)"
    by (simp add: LimitedOutput_write_all.simps [of _ "_ # _"] LimitedOutput_write_all.simps [of _ "[]"] LimitedOutput_write_def
        LimitedOutput_new_def stored_out_def)
  have one: "copy_step (LimitedOutput_new None) 0 (Ok stored_bytes) = Copying stored_out 5"
    by (simp add: copy_step_def w)
  have two: "copy_step stored_out 5 (Ok []) = Copied (Ok ()) stored_out 5"
    by (simp add: copy_step_def)
  show ?thesis
    by (simp add: run_callback.simps [of _ _ "Copying _ _"] run_callback.simps [of _ _ "Copied _ _ _"] copy_entry_def
        stored_stream_reads one two)
qed

lemma stored_read:
  "read_stream crc folder_read (stored_active 0) stored_budget copy_entry (Copying (LimitedOutput_new None) 0) =
     Some (Ok (stored_active 5), stored_budget_end, Copied (Ok ()) stored_out 5)"
proof -
  have s0: "substream_reader (stored_active 0) \<lparr>ss_range = \<lparr>br_start = 0, br_end = 5\<rparr>, ss_digest = None\<rparr> stored_budget = stored_stream 0"
    by (simp add: substream_reader_def stored_active_def stored_stream_def ByteRange_len_def)
  have fin: "finish_stream crc folder_read (Ok ()) (stored_stream 5) = Some (Ok (), stored_stream 5)"
    using stored_drain by (simp add: finish_stream_def stored_stream_def)
  have "put_back (stored_active 0) (af_streams (stored_active 5)) (stored_stream 5) = stored_active 5"
    by (simp add: put_back_def stored_active_def stored_stream_def)
  then show ?thesis
    by (simp add: read_stream_def stored_next s0 stored_copy fin) (simp add: stored_stream_def)
qed

lemma stored_finish:
  "finish crc folder_read (stored_active 5) SelectedStreams stored_budget_end = Some (Ok CompleteFolders, stored_budget_end)"
  using stored_reads(2)
  by (simp add: finish_def stored_active_def substreams_len_def copy_layout_def layout_len_def)


section \<open>The session\<close>

abbreviation stored_connect :: "(unit, unit, Cursor, unit) connect" where
  "stored_connect \<equiv> (\<lambda>_. Ok (stored_engine, ()))"

abbreviation stored_new :: "unit EntryDecoder" where
  "stored_new \<equiv> new_decoder () SelectedStreams stored_config"

definition stored_session :: "unit ArchiveReadSession" where
  "stored_session = \<lparr>rs_files = stored_file_streams, rs_decoder = stored_new, rs_count = 1\<rparr>"

abbreviation stored_entries :: "unit Entry list" where
  "stored_entries \<equiv> entry_items (Entries_new (Some stored_files) 1)"

abbreviation stored_place :: StreamLocation where
  "stored_place \<equiv> location 0 copy_layout 0"

definition stored_entry :: ReadableEntry where
  "stored_entry = \<lparr>re_info = ArchiveEntryInfo_from_metadata Unix (ent_metadata (stored_entries ! 0)) ET_File,
     re_content = Content_Stream stored_place\<rparr>"

lemma stored_opens:
  "read_session_with_options stored_connect nom_reference stored_archive stored_config = Ok (stored_engine, stored_session)"
  by (simp add: read_session_with_options_def archive_file_streams_def stored_files_info stored_streams_info stored_num_files
      stored_file_streams_new [unfolded One_nat_def] stored_session_def)

lemma stored_at: "session_at nom_reference stored_session stored_entries [stored_place] 0"
  using FileStreams_new_walk [OF stored_file_streams_new _ copy_locations]
  by (simp add: session_at_def stored_session_def ordinal_def)

lemma stored_kind: "ent_kind (stored_entries ! 0) = EK_File ()"
  by (simp add: entry_items_def Entries_len_def Entries_new_def entry_at_def Entries_kind_def stored_entry_kind)

lemma stored_readable: "ReadableEntry_from_file Unix (bound_entry stored_entries [stored_place] 0) = Some stored_entry"
  using stored_kind
  by (simp add: ReadableEntry_from_file_def bound_entry_def bound_def ordinal_def stored_entry_def Let_def)

definition stored_decoder :: "unit EntryDecoder" where
  "stored_decoder = stored_new\<lparr>ed_budget := stored_budget_end, ed_current := Some (0, stored_active 5)\<rparr>"

lemma stored_decoder_read:
  "EntryDecoder_read stored_engine stored_new stored_entry (\<lambda>_. copy_entry) (Copying (LimitedOutput_new None) 0) =
     Some (Ok (), stored_decoder, Copied (Ok ()) stored_out 5)"
proof -
  have budget: "ed_budget stored_new = stored_budget" "ed_current stored_new = None" "ed_world stored_new = ()"
    by (simp_all add: new_decoder_def stored_config_def stored_budget_def)
  have place: "loc_folder stored_place = copy_layout" "loc_folder_index stored_place = 0" "loc_stream_index stored_place = 0"
    by (simp_all add: location_def)
  have switch: "switch_folder stored_engine stored_new stored_place = Some (Ok (stored_active 0), stored_new\<lparr>ed_budget := stored_budget\<rparr>)"
    by (simp add: switch_folder_def EntryDecoder_complete_def place stored_bind stored_start budget)
  have skip: "skip_to crc folder_read (stored_active 0) 0 stored_budget = Some (Ok (stored_active 0), stored_budget)" for crc
    by (simp add: skip_to_def stored_active_def Active_Folder.position_def)
  have "EntryDecoder_read_stream stored_engine stored_new stored_place copy_entry (Copying (LimitedOutput_new None) 0) =
      Some (Ok (), stored_decoder, Copied (Ok ()) stored_out 5)"
    by (simp add: EntryDecoder_read_stream_def switch place skip stored_read stored_decoder_def)
  then show ?thesis by (simp add: EntryDecoder_read_def budget stored_entry_def)
qed

lemma stored_decoder_finish:
  "EntryDecoder_finish stored_engine stored_decoder = Some (Ok CompleteFolders, stored_decoder\<lparr>ed_current := None\<rparr>)"
proof -
  have parts: "ed_current stored_decoder = Some (0, stored_active 5)" "ed_budget stored_decoder = stored_budget_end"
    "ed_mode stored_decoder = SelectedStreams" "ed_verification stored_decoder = CompleteFolders"
    by (simp_all add: stored_decoder_def new_decoder_def)
  show ?thesis
    by (simp add: EntryDecoder_finish_def EntryDecoder_complete_def parts stored_finish)
qed

lemma stored_read_entry:
  "\<exists>files. read_entry stored_engine nom_reference Unix stored_session 0 copy_entry (Copying (LimitedOutput_new None) 0) =
      Some (Ok (), stored_session\<lparr>rs_files := files, rs_decoder := stored_decoder\<rparr>, Copied (Ok ()) stored_out 5)"
proof -
  have decoder: "rs_decoder stored_session = stored_new" by (simp add: stored_session_def)
  have "0 \<le> (0::nat) \<and> 0 < length stored_entries" by simp
  from session_at_serves [OF stored_at this, of stored_engine Unix copy_entry "Copying (LimitedOutput_new None) 0"]
  obtain files where
    read: "read_entry stored_engine nom_reference Unix stored_session 0 copy_entry (Copying (LimitedOutput_new None) 0) =
      (case ReadableEntry_from_file Unix (bound_entry stored_entries [stored_place] 0) of
         None \<Rightarrow> Some (Err Directory, stored_session\<lparr>rs_files := files\<rparr>, Copying (LimitedOutput_new None) 0)
       | Some entry \<Rightarrow>
           map_option (\<lambda>(result, decoder, c). (result, stored_session\<lparr>rs_files := files, rs_decoder := decoder\<rparr>, c))
             (EntryDecoder_read stored_engine (rs_decoder stored_session) entry (\<lambda>_. copy_entry)
                (Copying (LimitedOutput_new None) 0)))"
    by blast
  show ?thesis
    unfolding read stored_readable option.case decoder stored_decoder_read by auto
qed

lemma stored_extraction:
  "extract_to_memory_with_options stored_connect nom_reference Unix stored_archive 0 stored_config = Some (Ok stored_bytes)"
proof -
  have out: "LimitedOutput_new (max_retained_output_bytes (rc_options stored_config)) = LimitedOutput_new None"
    by (simp add: stored_config_def ResourceLimits_default_def)
  from stored_read_entry obtain files where
    read: "read_entry stored_engine nom_reference Unix stored_session 0 copy_entry (Copying (LimitedOutput_new None) 0) =
      Some (Ok (), stored_session\<lparr>rs_files := files, rs_decoder := stored_decoder\<rparr>, Copied (Ok ()) stored_out 5)" ..
  have entry: "fst (Entries_nth (Entries_new (Some stored_files) 1) 0) = Some (stored_entries ! 0)"
    using Entries_nth_items [of 1 "Some stored_files" 0] by simp
  show ?thesis
    using entry stored_kind
    by (simp add: extract_to_memory_with_options_def extract_to_writer_with_options_def out stored_opens stored_files_info stored_num_files
        session_extract_to_writer_def read session_finish_def stored_decoder_finish del: One_nat_def)
       (simp add: stored_out_def)
qed


section \<open>Instances of the laws\<close>

lemma stored_fits: "fitting (fl_layout (loc_folder stored_place))"
  using stream_locations_fit [OF copy_locations] by simp

abbreviation stored_request :: "memory_copy request" where
  "stored_request \<equiv> Read_request stored_entry (\<lambda>_. copy_entry) (Copying (LimitedOutput_new None) 0)"

lemma stored_serves: "serves stored_engine stored_new [stored_request] [True] [copy_layout] stored_decoder"
proof -
  have "opens stored_new stored_entry = [copy_layout]"
    by (simp add: opens_def stored_entry_def location_def new_decoder_def)
  then show ?thesis
    using serves_read [OF serves_nil stored_decoder_read] by simp
qed

theorem session_verification_sound_witness: "folder_verified stored_engine copy_layout"
proof -
  have "list_all request_fits [stored_request]"
    using stored_fits by (simp add: request_fits_def stored_entry_def)
  from session_verification_sound [OF stored_engine_ok stored_serves this stored_decoder_finish]
  show ?thesis by simp
qed

theorem session_serves_index_witness:
  "read_entry stored_engine nom_reference Unix stored_session 1 copy_entry (Copying (LimitedOutput_new None) 0) =
     Some (Err (InvalidOptions ''read session requires increasing valid entry indexes''), stored_session,
       Copying (LimitedOutput_new None) 0)"
  using session_serves_index [OF stored_at, of 1 stored_engine Unix copy_entry "Copying (LimitedOutput_new None) 0"] by simp

theorem memory_extraction_exact_witness: "entry_bytes stored_engine stored_place stored_bytes"
proof -
  have owned: "has_stream (ent_kind (stored_entries ! 0))" "ordinal stored_entries 0 = 0"
    using stored_kind by (simp_all add: ordinal_def)
  have "\<forall>pos G w. stored_connect pos = Ok (G, w) \<longrightarrow> engine_ok G"
    using stored_engine_ok by simp
  from memory_extraction_exact [OF this stored_files_info stored_streams_info copy_locations stored_extraction] owned
  show ?thesis by (simp add: stored_num_files)
qed

end
