(* ===== verification/Volume_Source.thy ===== *)
theory Volume_Source
  imports Source_Laws
begin

text \<open>
  \<^verbatim>\<open>src/src/archive_source.rs\<close>: making the source of an archive from a path or a seekable reader. A path that
  ends in \<open>.001\<close> may be the first of several volumes.

  The file system is a parameter: the extension of a path, the path with another extension, whether a path
  exists, opening a file, its length, and the seek to the end of a reader.
\<close>

section \<open>The file system\<close>

record ('w, 'p, 'f) file_system =
  fy_extension :: "'p \<Rightarrow> string option"
  fy_with_extension :: "'p \<Rightarrow> string \<Rightarrow> 'p"
  fy_exists :: "'w \<Rightarrow> 'p \<Rightarrow> bool"
  fy_open :: "'w \<Rightarrow> 'p \<Rightarrow> 'f io_result \<times> 'w"
  fy_length :: "'w \<Rightarrow> 'f \<Rightarrow> u64 io_result \<times> 'w"

definition PositionedFile_open :: "('w, 'p, 'f) file_system \<Rightarrow> 'p \<Rightarrow> 'w \<Rightarrow> 'f r7z_result \<times> 'w" where
  "PositionedFile_open Y path w = (case fy_open Y w path of (f, w) \<Rightarrow> (map_err R7zError_from_io f, w))"

definition PositionedFile_len :: "('w, 'p, 'f) file_system \<Rightarrow> 'f \<Rightarrow> 'w \<Rightarrow> u64 r7z_result \<times> 'w" where
  "PositionedFile_len Y f w = (case fy_length Y w f of (n, w) \<Rightarrow> (map_err R7zError_from_io n, w))"

text \<open>Both together, as they are always used.\<close>

definition open_measured :: "('w, 'p, 'f) file_system \<Rightarrow> 'p \<Rightarrow> 'w \<Rightarrow> ('f \<times> u64) r7z_result \<times> 'w" where
  "open_measured Y path w =
     (case PositionedFile_open Y path w of
        (Err e, w) \<Rightarrow> (Err e, w)
      | (Ok f, w) \<Rightarrow>
          (case PositionedFile_len Y f w of (n, w) \<Rightarrow> (and_then n (\<lambda>n. Ok (f, n)), w)))"

definition is_split_first_volume :: "('w, 'p, 'f) file_system \<Rightarrow> 'p \<Rightarrow> bool" where
  "is_split_first_volume Y path = (fy_extension Y path = Some ''001'')"

text \<open>The format \<open>{idx:03}\<close>: the decimal digits, filled up to three with zeros.\<close>

fun decimal_digits :: "nat \<Rightarrow> string" where
  "decimal_digits n = (if n < 10 then [char_of (48 + n)] else decimal_digits (n div 10) @ [char_of (48 + n mod 10)])"

declare decimal_digits.simps [simp del]

definition volume_extension :: "nat \<Rightarrow> string" where
  "volume_extension idx = replicate (3 - length (decimal_digits idx)) CHR ''0'' @ decimal_digits idx"

definition split_volume_path :: "('w, 'p, 'f) file_system \<Rightarrow> 'p \<Rightarrow> nat \<Rightarrow> 'p" where
  "split_volume_path Y first_volume idx = fy_with_extension Y first_volume (volume_extension idx)"


section \<open>The volumes of an archive\<close>

definition open_room :: "OperationBudget \<Rightarrow> nat" where
  "open_room budget = ov_limit (open_volumes budget) - ov_open (open_volumes budget)"

lemma charge_open_room: "charge_open_volume budget = Ok budget' \<Longrightarrow> open_room budget' < open_room budget"
  by (auto simp: charge_open_volume_def OpenVolumeBudget_charge_def open_room_def Let_def and_then_eq_Ok
      split: option.splits if_splits)

text \<open>The loop over the volumes; the limit on open volumes ends it.\<close>

function collect_volumes :: "('w, 'p, 'f) file_system \<Rightarrow> 'p \<Rightarrow> nat \<Rightarrow> 'f VolumeReader list \<Rightarrow> u64 \<Rightarrow> OperationBudget \<Rightarrow> 'w \<Rightarrow>
    ('f VolumeReader list \<times> u64) r7z_result \<times> OperationBudget \<times> 'w" where
  "collect_volumes Y first_volume idx readers len budget w =
     (let path = split_volume_path Y first_volume idx in
      if \<not> fy_exists Y w path then (Ok (readers, len), budget, w)
      else
        case charge_open_volume budget of
          Err e \<Rightarrow> (Err e, budget, w)
        | Ok budget \<Rightarrow>
            (case open_measured Y path w of
               (Err e, w) \<Rightarrow> (Err e, budget, w)
             | (Ok (f, volume_len), w) \<Rightarrow>
                 (case u64_checked_add len volume_len of
                    None \<Rightarrow> (Err Parse, budget, w)
                  | Some behind \<Rightarrow>
                      collect_volumes Y first_volume (idx + 1)
                        (readers @ [\<lparr>vr_file = f, vr_start = len, vr_end = behind\<rparr>]) behind budget w)))"
  by pat_completeness auto
termination
  by (relation "measure (\<lambda>(Y, first_volume, idx, readers, len, budget, w). open_room budget)") (auto dest: charge_open_room)

declare collect_volumes.simps [simp del]

definition from_split_first_volume :: "('w, 'p, 'f) file_system \<Rightarrow> 'p \<Rightarrow> OperationBudget \<Rightarrow> 'w \<Rightarrow>
    'f ArchiveSource option r7z_result \<times> OperationBudget \<times> 'w" where
  "from_split_first_volume Y path budget w =
     (if \<not> is_split_first_volume Y path then (Ok None, budget, w)
      else
        case collect_volumes Y path 1 [] 0 budget w of
          (Err e, budget, w) \<Rightarrow> (Err e, budget, w)
        | (Ok (readers, len), budget, w) \<Rightarrow>
            if length readers > 1 then (Ok (Some (Source_Volumes readers len)), budget, w)
            else (Ok None, release_open_volume budget, w))"

definition from_file :: "('w, 'p, 'f) file_system \<Rightarrow> 'p \<Rightarrow> OperationBudget \<Rightarrow> 'w \<Rightarrow>
    'f ArchiveSource r7z_result \<times> OperationBudget \<times> 'w" where
  "from_file Y path budget w =
     (case from_split_first_volume Y path budget w of
        (Err e, budget, w) \<Rightarrow> (Err e, budget, w)
      | (Ok (Some source), budget, w) \<Rightarrow> (Ok source, budget, w)
      | (Ok None, budget, w) \<Rightarrow>
          (case charge_open_volume budget of
             Err e \<Rightarrow> (Err e, budget, w)
           | Ok budget \<Rightarrow>
               (case open_measured Y path w of
                  (opened_file, w) \<Rightarrow> (and_then opened_file (\<lambda>(f, len). Ok (Source_File f len)), budget, w))))"

text \<open>\<open>seek_end\<close> is the seek of the reader to its end, which returns the position.\<close>

definition from_reader :: "('w \<Rightarrow> u64 io_result \<times> 'w) \<Rightarrow> 'w \<Rightarrow> 'f ArchiveSource r7z_result \<times> 'w" where
  "from_reader seek_end w = (case seek_end w of (len, w) \<Rightarrow> (and_then (map_err Io len) (\<lambda>len. Ok (Source_Seekable len)), w))"


section \<open>What a source from a path stands for\<close>

text \<open>
  The files do not change: what exists, the content of a path, and that of an open file, whose length is
  reported truly.
\<close>

definition measured :: "('w, 'p, 'f) file_system \<Rightarrow> ('f \<Rightarrow> bytes) \<Rightarrow> ('p \<Rightarrow> bytes) \<Rightarrow> ('p \<Rightarrow> bool) \<Rightarrow> bool" where
  "measured Y content at_path present \<longleftrightarrow>
     (\<forall>w path. fy_exists Y w path = present path) \<and>
     (\<forall>w f n w'. fy_length Y w f = (Ok n, w') \<longrightarrow> length (content f) = unat n) \<and>
     (\<forall>w path f w'. fy_open Y w path = (Ok f, w') \<longrightarrow> content f = at_path path)"

lemma open_measured_Ok:
  assumes "measured Y content at_path present" and "open_measured Y path w = (Ok (f, n), w')"
  shows "length (content f) = unat n \<and> content f = at_path path"
proof -
  obtain a w1 where a: "fy_open Y w path = (a, w1)" by (cases "fy_open Y w path")
  with assms(2) obtain g where g: "a = Ok g" by (cases a) (auto simp: open_measured_def PositionedFile_open_def)
  obtain b w2 where b: "fy_length Y w1 g = (b, w2)" by (cases "fy_length Y w1 g")
  have "b = Ok n \<and> g = f"
    using assms(2) a g b by (cases b) (auto simp: open_measured_def PositionedFile_open_def PositionedFile_len_def)
  then show ?thesis using assms(1) a g b unfolding measured_def by blast
qed

lemma volumes_tile_snoc:
  "volumes_tile content a vs (unat (vr_start v)) \<Longrightarrow> unat (vr_end v) = unat (vr_start v) + length (content (vr_file v)) \<Longrightarrow>
     volumes_tile content a (vs @ [v]) (unat (vr_end v))"
  by (induction content a vs "unat (vr_start v)" rule: volumes_tile.induct) auto

abbreviation volume_content :: "('w, 'p, 'f) file_system \<Rightarrow> ('p \<Rightarrow> bytes) \<Rightarrow> 'p \<Rightarrow> nat \<Rightarrow> bytes" where
  "volume_content Y at_path path i \<equiv> at_path (split_volume_path Y path i)"

text \<open>The invariant of the loop: the volumes before \<open>idx\<close>, in order and without gaps.\<close>

definition volumes_read_in :: "('w, 'p, 'f) file_system \<Rightarrow> ('f \<Rightarrow> bytes) \<Rightarrow> ('p \<Rightarrow> bytes) \<Rightarrow> ('p \<Rightarrow> bool) \<Rightarrow> 'p \<Rightarrow> nat \<Rightarrow>
    'f VolumeReader list \<Rightarrow> u64 \<Rightarrow> bool" where
  "volumes_read_in Y content at_path present path idx vs len \<longleftrightarrow>
     1 \<le> idx \<and> volumes_tile content 0 vs (unat len) \<and>
     map (\<lambda>v. content (vr_file v)) vs = map (volume_content Y at_path path) [1..<idx] \<and>
     (\<forall>i. 1 \<le> i \<and> i < idx \<longrightarrow> present (split_volume_path Y path i))"

lemma volumes_read_in_step:
  assumes "volumes_read_in Y content at_path present path idx vs len" and "present (split_volume_path Y path idx)"
    and "length (content f) = unat n" "content f = volume_content Y at_path path idx" and "u64_checked_add len n = Some behind"
  shows "volumes_read_in Y content at_path present path (idx + 1) (vs @ [\<lparr>vr_file = f, vr_start = len, vr_end = behind\<rparr>]) behind"
proof -
  let ?v = "\<lparr>vr_file = f, vr_start = len, vr_end = behind\<rparr>"
  have "unat behind = unat len + length (content f)" using assms(3,5) by (simp add: u64_checked_add_eq_Some)
  then have "volumes_tile content 0 (vs @ [?v]) (unat behind)"
    using volumes_tile_snoc [of content 0 vs ?v] assms(1) by (simp add: volumes_read_in_def)
  then show ?thesis using assms by (auto simp: volumes_read_in_def less_Suc_eq)
qed

lemma collect_volumes_read_in:
  assumes "measured Y content at_path present" and "collect_volumes Y path idx vs len budget w = (Ok (vs', behind), budget', w')"
    and "volumes_read_in Y content at_path present path idx vs len"
  shows "\<exists>n. volumes_read_in Y content at_path present path n vs' behind \<and> \<not> present (split_volume_path Y path n)"
  using assms
proof (induction Y path idx vs len budget w rule: collect_volumes.induct)
  case (1 Y path idx vs len budget w)
  let ?p = "split_volume_path Y path idx"
  have ex: "fy_exists Y w ?p = present ?p" using "1.prems"(1) by (simp add: measured_def)
  show ?case
  proof (cases "present ?p")
    case False
    then have "vs' = vs \<and> behind = len" using "1.prems"(2) ex by (simp add: collect_volumes.simps [of Y path idx])
    then show ?thesis using False "1.prems"(3) by blast
  next
    case True
    obtain b where b: "charge_open_volume budget = Ok b"
      using "1.prems"(2) True ex by (cases "charge_open_volume budget") (auto simp: collect_volumes.simps [of Y path idx])
    obtain r w1 where r: "open_measured Y ?p w = (r, w1)" by (cases "open_measured Y ?p w")
    then obtain f n where f: "r = Ok (f, n)"
      using "1.prems"(2) True ex b by (cases r) (auto simp: collect_volumes.simps [of Y path idx])
    obtain len' where len': "u64_checked_add len n = Some len'"
      using "1.prems"(2) True ex b r f by (cases "u64_checked_add len n") (auto simp: collect_volumes.simps [of Y path idx])
    have rest: "collect_volumes Y path (idx + 1) (vs @ [\<lparr>vr_file = f, vr_start = len, vr_end = len'\<rparr>]) len' b w1 =
        (Ok (vs', behind), budget', w')"
      using "1.prems"(2) True ex b r f len' by (simp add: collect_volumes.simps [of Y path idx])
    note measured_file = open_measured_Ok [OF "1.prems"(1) r [unfolded f]]
    have "volumes_read_in Y content at_path present path (idx + 1) (vs @ [\<lparr>vr_file = f, vr_start = len, vr_end = len'\<rparr>]) len'"
      by (rule volumes_read_in_step [OF "1.prems"(3) True conjunct1 [OF measured_file] conjunct2 [OF measured_file] len'])
    with "1.IH" [OF refl _ b r [symmetric] f refl len' "1.prems"(1) rest] True ex show ?thesis by simp
  qed
qed

lemma single_file_Ok:
  assumes "(case charge_open_volume budget of
       Err e \<Rightarrow> (Err e, budget, w)
     | Ok budget \<Rightarrow>
         (case open_measured Y path w of
            (opened_file, w) \<Rightarrow> (and_then opened_file (\<lambda>(f, len). Ok (Source_File f len)), budget, w))) = (Ok source, budget', w')"
  shows "\<exists>f n w2. source = Source_File f n \<and> open_measured Y path w = (Ok (f, n), w2)"
proof -
  obtain b where b: "charge_open_volume budget = Ok b" using assms by (cases "charge_open_volume budget") auto
  obtain r w2 where r: "open_measured Y path w = (r, w2)" by (cases "open_measured Y path w")
  show ?thesis using assms b r by (cases r) auto
qed

lemma from_file_Ok:
  assumes "from_file Y path budget w = (Ok source, budget', w')"
  obtains (one) f n w1 w2 where "source = Source_File f n" "open_measured Y path w1 = (Ok (f, n), w2)"
      "is_split_first_volume Y path \<Longrightarrow>
        \<exists>vs len b w0. collect_volumes Y path 1 [] 0 budget w = (Ok (vs, len), b, w0) \<and> \<not> 1 < length vs"
    | (many) vs len b w0 where "is_split_first_volume Y path" "collect_volumes Y path 1 [] 0 budget w = (Ok (vs, len), b, w0)"
      "1 < length vs" "source = Source_Volumes vs len"
proof (cases "is_split_first_volume Y path")
  case False
  then show thesis
    using assms single_file_Ok [of budget w Y path source budget' w'] one
    by (fastforce simp: from_file_def from_split_first_volume_def)
next
  case True
  obtain r b w0 where c: "collect_volumes Y path 1 [] 0 budget w = (r, b, w0)" by (cases "collect_volumes Y path 1 [] 0 budget w")
  then obtain vs len where r: "r = Ok (vs, len)"
    using assms True by (cases r) (auto simp: from_file_def from_split_first_volume_def)
  show thesis
  proof (cases "1 < length vs")
    case True
    then show thesis
      using assms \<open>is_split_first_volume Y path\<close> c r many by (auto simp: from_file_def from_split_first_volume_def)
  next
    case False
    then show thesis
      using assms True c r single_file_Ok [of "release_open_volume b" w0 Y path source budget' w'] one
      by (fastforce simp: from_file_def from_split_first_volume_def)
  qed
qed

text \<open>
  A path stands for the bytes its volumes hold. A path that is not the first of a split
  archive stands for its file. For the first volume of one, every volume from the first up to the first
  that is missing is taken, in order; from two on the archive is their contents one
  after the other, and a single one is a file. The source knows the right length and the right bounds of
  each volume, so positioned reads return the archive's bytes.
\<close>

theorem path_source_ok:
  assumes "measured Y content at_path present" and "\<forall>f. length (content f) < usize_limit"
    and "from_file Y path budget w = (Ok source, budget', w')"
  shows "source_ok content whole source \<and>
    (if is_split_first_volume Y path
     then \<exists>n \<ge> 1. (\<forall>i. 1 \<le> i \<and> i < n \<longrightarrow> present (split_volume_path Y path i)) \<and> \<not> present (split_volume_path Y path n) \<and>
       archive_bytes content whole source =
         (if n > 2 then concat (map (volume_content Y at_path path) [1..<n]) else at_path path)
     else archive_bytes content whole source = at_path path)"
  using assms(3)
proof (cases rule: from_file_Ok)
  case (one f n w1 w2)
  note f = open_measured_Ok [OF assms(1) one(2)]
  have single: "\<exists>n \<ge> 1. (\<forall>i. 1 \<le> i \<and> i < n \<longrightarrow> present (split_volume_path Y path i)) \<and>
      \<not> present (split_volume_path Y path n) \<and> \<not> 2 < n" if first: "is_split_first_volume Y path"
  proof -
    obtain vs len b w0 where vs: "collect_volumes Y path 1 [] 0 budget w = (Ok (vs, len), b, w0)" "\<not> 1 < length vs"
      using one(3) first by blast
    from collect_volumes_read_in [OF assms(1) vs(1)] obtain n where
      n: "volumes_read_in Y content at_path present path n vs len" "\<not> present (split_volume_path Y path n)"
      by (auto simp: volumes_read_in_def)
    then have "map (\<lambda>v. content (vr_file v)) vs = map (volume_content Y at_path path) [1..<n]"
      by (simp add: volumes_read_in_def)
    from arg_cong [OF this, of length] have "length vs = n - 1" by simp
    then show ?thesis using n vs(2) by (intro exI [of _ n]) (auto simp: volumes_read_in_def)
  qed
  show ?thesis
    using one(1) f single assms(2) by (auto simp: source_ok_def archive_bytes_def)
next
  case (many vs len b w0)
  from collect_volumes_read_in [OF assms(1) many(2)] obtain n where
    n: "volumes_read_in Y content at_path present path n vs len" "\<not> present (split_volume_path Y path n)"
    by (auto simp: volumes_read_in_def)
  then have same: "map (\<lambda>v. content (vr_file v)) vs = map (volume_content Y at_path path) [1..<n]"
    by (simp add: volumes_read_in_def)
  from arg_cong [OF this, of length] have "2 < n" using many(3) by simp
  moreover have "archive_bytes content whole source = concat (map (volume_content Y at_path path) [1..<n])"
    by (simp add: many(4) archive_bytes_def volumes_bytes_def same)
  ultimately show ?thesis
    using many(1,4) n assms(2) by (auto simp: source_ok_def volumes_read_in_def intro!: exI [of _ n])
qed


text \<open>Two volumes of five and two bytes; a path is its extension.\<close>

definition two_system :: "(u64, string, bool) file_system" where
  "two_system =
     \<lparr>fy_extension = (\<lambda>path. Some path), fy_with_extension = (\<lambda>_ extension. extension),
      fy_exists = (\<lambda>_ path. path \<in> {''001'', ''002''}), fy_open = (\<lambda>w path. (Ok (path = ''001''), w)),
      fy_length = (\<lambda>w f. (Ok (of_nat (length (two_files f))), w))\<rparr>"

lemma volume_extensions: "volume_extension 1 = ''001''" "volume_extension 2 = ''002''" "volume_extension 3 = ''003''"
  by code_simp+

lemma two_system_measured: "measured two_system two_files (\<lambda>path. two_files (path = ''001'')) (\<lambda>path. path \<in> {''001'', ''002''})"
  by (simp add: measured_def two_system_def two_files_def)

lemma two_system_files:
  "open_measured two_system ''001'' w = (Ok (True, 5), w)" "open_measured two_system ''002'' w = (Ok (False, 2), w)"
  "fy_exists two_system w path = (path = ''001'' \<or> path = ''002'')" "fy_with_extension two_system path extension = extension"
  "fy_extension two_system path = Some path"
  by (simp_all add: open_measured_def PositionedFile_open_def PositionedFile_len_def two_system_def two_files_def)

definition opened_budget :: "nat \<Rightarrow> OperationBudget" where
  "opened_budget n = (OperationBudget_new ResourceLimits_default)\<lparr>open_volumes := \<lparr>ov_open = n, ov_limit = 128\<rparr>\<rparr>"

lemma opened_budget_charge: "n < 128 \<Longrightarrow> charge_open_volume (opened_budget n) = Ok (opened_budget (n + 1))"
  by (simp add: charge_open_volume_def OpenVolumeBudget_charge_def opened_budget_def usize_checked_add_def Let_def)

lemma two_system_volumes:
  "collect_volumes two_system ''001'' 1 [] 0 (opened_budget 0) w =
     (Ok ([\<lparr>vr_file = True, vr_start = 0, vr_end = 5\<rparr>, \<lparr>vr_file = False, vr_start = 5, vr_end = 7\<rparr>], 7), opened_budget 2, w)"
proof -
  have third: "collect_volumes two_system ''001'' 3 vs len b w = (Ok (vs, len), b, w)" for vs len b
    by (simp add: collect_volumes.simps [of two_system _ 3] split_volume_path_def volume_extensions two_system_files)
  have second: "collect_volumes two_system ''001'' 2 vs 5 (opened_budget 1) w =
      (Ok (vs @ [\<lparr>vr_file = False, vr_start = 5, vr_end = 7\<rparr>], 7), opened_budget 2, w)" for vs
    using third opened_budget_charge [of 1, simplified, folded numeral_2_eq_2]
    by (simp add: collect_volumes.simps [of two_system _ 2] split_volume_path_def volume_extensions two_system_files
        u64_checked_add_def)
  show ?thesis
    using second opened_budget_charge [of 0]
    by (simp add: collect_volumes.simps [of two_system _ 1] split_volume_path_def volume_extensions two_system_files
        u64_checked_add_def del: One_nat_def)
qed

lemma two_system_opens: "from_file two_system ''001'' (opened_budget 0) 0 = (Ok two_volumes, opened_budget 2, 0)"
  by (simp add: from_file_def from_split_first_volume_def is_split_first_volume_def two_system_files two_system_volumes
      two_volumes_def del: One_nat_def)

theorem path_source_ok_witness:
  "source_ok two_files [] two_volumes"
proof -
  have "\<forall>f. length (two_files f) < usize_limit" by (simp add: two_files_def)
  from path_source_ok [OF two_system_measured this two_system_opens, of "[]"] show ?thesis by simp
qed

end
