(* ===== verification/Archive_Open.thy ===== *)
theory Archive_Open
  imports Entry_Decoder Volume_Source
begin

text \<open>
  \<^verbatim>\<open>src/src/archive.rs\<close>: opening an archive. The signature is searched, the next header is read and
  checked, an encoded header is decoded, and data a header keeps in additional streams is decoded
  before the header is resolved.
\<close>

section \<open>What opening is done with\<close>

text \<open>
  The parts that are not the program's: the files, the codecs and what their crates announce, the checksum, how
  \<open>read_to_end\<close> sizes its reads, and the address of a fresh buffer. An archive does not change
  while it is read, so a range reader answers by its own position: \<open>ho_answers\<close>.
\<close>

record ('b, 'd, 'f, 'w) host =
  ho_env :: "('w, 'f) file_env"
  ho_answers :: "'f ArchiveSource \<Rightarrow> ArchiveRangeReader reader"
  ho_codecs :: "('b, 'd) codecs"
  ho_lzma_mem :: "u32 \<Rightarrow> u8 \<Rightarrow> u32 option"
  ho_lzma2_mem :: "u32 \<Rightarrow> u32"
  ho_crc :: "bytes \<Rightarrow> u32"
  ho_chunk :: "nat \<Rightarrow> nat"
  ho_alloc :: "bytes \<Rightarrow> nat"
  ho_nom :: nom

text \<open>\<open>Bytes::from\<close> a vector, and the closure over a \<open>PackedSource\<close> with the codecs.\<close>

definition fresh_bytes :: "('b, 'd, 'f, 'w) host \<Rightarrow> bytes \<Rightarrow> Bytes" where
  "fresh_bytes H bs = \<lparr>b_ptr = ho_alloc H bs, b_data = bs\<rparr>"

definition source_engine :: "('b, 'd, 'f, 'w) host \<Rightarrow> 'f PackedSource \<Rightarrow> code_point list option \<Rightarrow>
    ('b, 'd, ArchiveRangeReader, 'w) engine" where
  "source_engine H packs password =
     \<lparr>eng_codecs = ho_codecs H, eng_lzma_mem = ho_lzma_mem H, eng_lzma2_mem = ho_lzma2_mem H, eng_crc = ho_crc H,
      eng_read = ho_answers H (pso_source packs), eng_open = PackedSource_reader (ho_env H) (ho_crc H) packs,
      eng_password = password\<rparr>"

text \<open>What the readers of entries use of an opened archive.\<close>

definition archive_connect :: "('b, 'd, 'f, 'w) host \<Rightarrow> 'f Archive \<Rightarrow> code_point list option \<Rightarrow> 'w \<Rightarrow>
    ('b, 'd, ArchiveRangeReader, 'w) connect" where
  "archive_connect H self password w packed =
     and_then (PackedSource_new (ar_source self) (ar_base_offset self) packed) (\<lambda>packs.
       Ok (source_engine H packs password, w))"


section \<open>Headers\<close>

definition verify_additional_stream_crcs :: "('b, 'd, 'f, 'w) host \<Rightarrow> 'f ArchiveSource \<Rightarrow> u64 \<Rightarrow> Header \<Rightarrow> 'w \<Rightarrow>
    (unit r7z_result \<times> 'w) option" where
  "verify_additional_stream_crcs H source base_offset header w =
     (case additional_pack_info (ho_nom H) header of
        Err e \<Rightarrow> Some (Err e, w)
      | Ok None \<Rightarrow> Some (Ok (), w)
      | Ok (Some pack) \<Rightarrow> verify_additional_pack_crcs (ho_env H) (ho_crc H) source base_offset pack w)"

definition decode_additional_folder_data :: "('b, 'd, 'f, 'w) host \<Rightarrow> 'f ArchiveSource \<Rightarrow> u64 \<Rightarrow> StreamInfo \<Rightarrow> OperationBudget \<Rightarrow>
    code_point list option \<Rightarrow> 'w \<Rightarrow> (bytes list r7z_result \<times> OperationBudget \<times> 'w) option" where
  "decode_additional_folder_data H source base_offset streams budget password w =
     (case ExternalFolderPlan_new (ho_nom H) streams budget of
        (Err e, budget) \<Rightarrow> Some (Err e, budget, w)
      | (Ok plan, budget) \<Rightarrow>
          (case PackedSource_new source base_offset (layouts_pack_pos (ep_folders plan)) of
             Err e \<Rightarrow> Some (Err e, budget, w)
           | Ok packs \<Rightarrow>
               ExternalFolderPlan_decode (source_engine H packs password) (ho_chunk H) (ho_nom H) plan budget w))"

definition parse_header_with_external_data :: "('b, 'd, 'f, 'w) host \<Rightarrow> 'f ArchiveSource \<Rightarrow> u64 \<Rightarrow> Bytes \<Rightarrow> OperationBudget \<Rightarrow>
    code_point list option \<Rightarrow> 'w \<Rightarrow> (Header r7z_result \<times> OperationBudget \<times> 'w) option" where
  "parse_header_with_external_data H source base_offset bytes budget password w =
     (case charge_metadata budget (of_nat (length (b_data bytes))) of
        Err e \<Rightarrow> Some (Err e, budget, w)
      | Ok budget \<Rightarrow>
          (case resolve_archive (ho_nom H) bytes of
             Err e \<Rightarrow> Some (Err e, budget, w)
           | Ok (HeaderComplete header) \<Rightarrow>
               map_option (\<lambda>(verified, w). (and_then verified (\<lambda>_. Ok header), budget, w))
                 (verify_additional_stream_crcs H source base_offset header w)
           | Ok (RequiresExternalFolders pending) \<Rightarrow>
               map_option (\<lambda>(data, budget, w).
                   (resolve_with (ho_nom H) pending (\<lambda>_. and_then data (\<lambda>data. Ok (map (fresh_bytes H) data))), budget, w))
                 (decode_additional_folder_data H source base_offset (pending_additional pending) budget password w)))"

definition decode_encoded_header :: "('b, 'd, 'f, 'w) host \<Rightarrow> 'f ArchiveSource \<Rightarrow> u64 \<Rightarrow> EncodedHeader \<Rightarrow>
    code_point list option \<Rightarrow> OperationBudget \<Rightarrow> 'w \<Rightarrow> (Header r7z_result \<times> OperationBudget \<times> 'w) option" where
  "decode_encoded_header H source base_offset encoded password budget w =
     (case (and_then (map_err (map_metadata_error budget)
              (EncodedHeader_folder (ho_nom H) encoded (metadata_remaining budget))) (\<lambda>folder.
            and_then (PackedSource_new source base_offset (pack_pos (eh_pack_info encoded))) (\<lambda>packs. Ok (folder, packs)))) of
        Err e \<Rightarrow> Some (Err e, budget, w)
      | Ok (folder, packs) \<Rightarrow>
          Option.bind (decode_metadata_folder (source_engine H packs password) (ho_chunk H) folder
              (metadata_remaining budget) budget w) (\<lambda>(decoded_header, budget, w).
            case map_err (map_metadata_error budget) decoded_header of
              Err e \<Rightarrow> Some (Err e, budget, w)
            | Ok decoded_header \<Rightarrow>
                parse_header_with_external_data H source base_offset (fresh_bytes H (df_bytes decoded_header)) budget password w))"

text \<open>The match on the next header.\<close>

definition resolve_next_header :: "('b, 'd, 'f, 'w) host \<Rightarrow> 'f ArchiveSource \<Rightarrow> u64 \<Rightarrow> Bytes \<Rightarrow> code_point list option \<Rightarrow>
    OperationBudget \<Rightarrow> 'w \<Rightarrow> ((Header \<times> EncodedHeader option) r7z_result \<times> OperationBudget \<times> 'w) option" where
  "resolve_next_header H source base_offset next_header password budget w =
     (case NextHeader_parse (ho_nom H) next_header of
        Err e \<Rightarrow> Some (Err e, budget, w)
      | Ok Plain \<Rightarrow>
          map_option (\<lambda>(header, budget, w). (and_then header (\<lambda>header. Ok (header, None)), budget, w))
            (parse_header_with_external_data H source base_offset next_header budget password w)
      | Ok (Encoded encoded) \<Rightarrow>
          (case charge_metadata budget (of_nat (length (b_data next_header))) of
             Err e \<Rightarrow> Some (Err e, budget, w)
           | Ok budget \<Rightarrow>
               map_option (\<lambda>(header, budget, w). (and_then header (\<lambda>header. Ok (header, Some encoded)), budget, w))
                 (decode_encoded_header H source base_offset encoded password budget w)))"

definition next_header_range :: "u64 \<Rightarrow> u64 \<Rightarrow> SignatureHeader \<Rightarrow> ResourceLimits \<Rightarrow> ByteRange r7z_result" where
  "next_header_range source_length base_offset signature options =
     (if sh_next_header_size signature > max_metadata_bytes options
      then Err (ResourceLimitExceeded ''metadata'' (max_metadata_bytes options))
      else
        and_then (and_then (checked_add_u64 base_offset 32) (\<lambda>n. checked_add_u64 n (sh_next_header_offset signature)))
          (\<lambda>header_start. checked_range_u64 source_length header_start (sh_next_header_size signature)))"


section \<open>Opening\<close>

definition from_source_with_budget :: "('b, 'd, 'f, 'w) host \<Rightarrow> 'f ArchiveSource \<Rightarrow> code_point list option \<Rightarrow> ResourceLimits \<Rightarrow>
    OperationBudget \<Rightarrow> 'w \<Rightarrow> ('f Archive r7z_result \<times> 'w) option" where
  "from_source_with_budget H source password options budget w =
     (case source_len source of
        Err e \<Rightarrow> Some (Err e, w)
      | Ok source_length \<Rightarrow>
          Option.bind (find_signature (ho_env H) (ho_crc H) source (max_signature_scan_bytes options) w) (\<lambda>(found, w).
            case (and_then found (\<lambda>(base_offset, signature).
                  and_then (next_header_range source_length base_offset signature options) (\<lambda>header_range.
                    Ok (base_offset, signature, header_range)))) of
              Err e \<Rightarrow> Some (Err e, w)
            | Ok (base_offset, signature, header_range) \<Rightarrow>
                Option.bind (read_range_to_vec (ho_env H) source header_range (max_metadata_bytes options) w)
                  (\<lambda>(next_header, w).
                  case (and_then next_header (\<lambda>next_header.
                        if ho_crc H next_header \<noteq> sh_next_header_crc signature then Err Crc else Ok next_header)) of
                    Err e \<Rightarrow> Some (Err e, w)
                  | Ok next_header \<Rightarrow>
                      map_option (\<lambda>(headers, _, w).
                          (and_then headers (\<lambda>(header, encoded_header).
                             Ok \<lparr>ar_source = source, ar_base_offset = base_offset, ar_signature = signature,
                                 ar_encoded_header = encoded_header, ar_header = header\<rparr>), w))
                        (resolve_next_header H source base_offset (fresh_bytes H next_header) password budget w))))"

definition from_source_with_password :: "('b, 'd, 'f, 'w) host \<Rightarrow> 'f ArchiveSource \<Rightarrow> code_point list option \<Rightarrow> ResourceLimits \<Rightarrow>
    'w \<Rightarrow> ('f Archive r7z_result \<times> 'w) option" where
  "from_source_with_password H source password options w =
     from_source_with_budget H source password options (OperationBudget_new options) w"

definition from_bytes_with_password :: "('b, 'd, 'f, 'w) host \<Rightarrow> Bytes \<Rightarrow> code_point list option \<Rightarrow> 'w \<Rightarrow>
    ('f Archive r7z_result \<times> 'w) option" where
  "from_bytes_with_password H data password w =
     from_source_with_password H (ArchiveSource_from_bytes data) password ResourceLimits_default w"

definition open_with_password_and_options :: "('w, 'p, 'f) file_system \<Rightarrow> ('b, 'd, 'f, 'w) host \<Rightarrow> 'p \<Rightarrow> code_point list option \<Rightarrow>
    ResourceLimits \<Rightarrow> 'w \<Rightarrow> ('f Archive r7z_result \<times> 'w) option" where
  "open_with_password_and_options Y H path password options w =
     (case from_file Y path (OperationBudget_new options) w of
        (Err e, _, w) \<Rightarrow> Some (Err e, w)
      | (Ok source, budget, w) \<Rightarrow> from_source_with_budget H source password options budget w)"

definition from_reader_with_password_and_options :: "('w \<Rightarrow> u64 io_result \<times> 'w) \<Rightarrow> ('b, 'd, 'f, 'w) host \<Rightarrow>
    code_point list option \<Rightarrow> ResourceLimits \<Rightarrow> 'w \<Rightarrow> ('f Archive r7z_result \<times> 'w) option" where
  "from_reader_with_password_and_options seek_end H password options w =
     (case from_reader seek_end w of
        (Err e, w) \<Rightarrow> Some (Err e, w)
      | (Ok source, w) \<Rightarrow> from_source_with_password H source password options w)"

end
