(* ===== verification/Opening_Laws.thy ===== *)
theory Opening_Laws
  imports Archive_Open Header_Scan Written_Header
begin

text \<open>What an opened archive is: its signature, its header and the sections of the header.\<close>

section \<open>A signature that was found\<close>

lemma signature_at_Valid:
  assumes "faithful E content whole" and "source_ok content whole self"
    and "signature_at E crc self offset w = Some (Ok (Valid signature), w')"
  shows "candidate_at crc (archive_bytes content whole self) (unat offset) = Valid signature"
proof -
  let ?bs = "archive_bytes content whole self"
  obtain r w1 where r: "read_exact_at E self offset 32 w = Some (r, w1)"
    using assms(3) by (auto simp: signature_at_def split: result.splits bool.splits)
  obtain read where read: "r = Ok read"
    using assms(3) r by (cases r) (auto simp: signature_at_def split: result.splits bool.splits)
  have content: "read = take 32 (drop (unat offset) ?bs) \<and> unat offset + 32 \<le> length ?bs"
    using read_exact_at_content [OF assms(1,2) _ r [unfolded read]] by simp
  then have enough: "32 \<le> length read" by auto
  obtain rest sig where p: "SignatureHeader_parse read = Ok (rest, sig)"
    using SignatureHeader_parse_32 [OF enough] by blast
  have "signature = sig \<and> sh_signature sig = SEVEN_Z_MAGIC \<and> validate_start_header_crc crc sig = Ok ()"
    using assms(3) r read p validate_result [of crc sig]
    by (auto simp: signature_at_def split: result.splits bool.splits if_splits)
  then show ?thesis using content p by (simp add: candidate_at_def)
qed

lemma try_candidates_Valid:
  assumes "faithful E content whole" and "source_ok content whole self"
    and "try_candidates E crc self base start positions saw w = Some (Ok (Some (c, signature), saw'), w')"
  shows "candidate_at crc (archive_bytes content whole self) (unat c) = Valid signature"
  using assms(3)
proof (induction positions arbitrary: saw w)
  case (Cons pos positions)
  obtain candidate where candidate: "and_then (ok_or Parse (usize_checked_add start pos)) (\<lambda>pos.
      ok_or Parse (u64_checked_add base (of_nat pos))) = Ok candidate"
    using Cons.prems by (auto simp: and_then_eq_Ok split: result.splits)
  note run = Cons.prems [unfolded try_candidates.simps candidate result.case]
  obtain outcome w1 where outcome: "signature_at E crc self candidate w = Some (outcome, w1)"
    using run by (auto simp: bind_eq_Some_conv)
  then obtain found where found: "outcome = Ok found" using run by (cases outcome) auto
  show ?case
    using run outcome found Cons.IH signature_at_Valid [OF assms(1,2), of crc candidate w] by (cases found) auto
qed simp

lemma signature_scan_Valid:
  assumes "faithful E content whole" and "source_ok content whole self"
    and "signature_scan E crc self scan_len offset carry saw w = Some (Ok (Some (c, signature), saw'), w')"
  shows "candidate_at crc (archive_bytes content whole self) (unat c) = Valid signature"
  using assms
proof (induction E crc self scan_len offset carry saw w rule: signature_scan.induct)
  case (1 E crc self scan_len offset carry saw w)
  let ?n = "chunk_length scan_len offset"
  have inside: "offset < scan_len" using "1.prems"(3) by (auto simp: signature_scan.simps [of E] split: if_splits)
  then obtain r w1 where r: "read_exact_at E self offset ?n w = Some (r, w1)"
    using "1.prems"(3) by (auto simp: signature_scan.simps [of E] bind_eq_Some_conv)
  then obtain chunk where chunk: "r = Ok chunk"
    using "1.prems"(3) inside by (cases r) (auto simp: signature_scan.simps [of E])
  obtain base where base: "u64_checked_sub offset (of_nat (length carry)) = Some base"
    using "1.prems"(3) inside r chunk by (auto simp: signature_scan.simps [of E] Let_def split: option.splits)
  let ?carry = "carry @ chunk" let ?start = "length carry - 5"
  obtain t w2 where t: "try_candidates E crc self base ?start (find_magic_offsets (drop ?start ?carry)) saw w1 = Some (t, w2)"
    using "1.prems"(3) inside r chunk base by (auto simp: signature_scan.simps [of E] Let_def bind_eq_Some_conv)
  then obtain found saw1 where found: "t = Ok (found, saw1)"
    using "1.prems"(3) inside r chunk base by (cases t) (auto simp: signature_scan.simps [of E] Let_def)
  show ?case
  proof (cases found)
    case (Some pair)
    then have "pair = (c, signature)"
      using "1.prems"(3) inside r chunk base t found by (cases pair) (auto simp: signature_scan.simps [of E] Let_def)
    then show ?thesis using try_candidates_Valid [OF "1.prems"(1,2)] t found Some by blast
  next
    case None
    obtain offset' where offset': "u64_checked_add offset (of_nat ?n) = Some offset'"
      using "1.prems"(3) inside r chunk base t found None
      by (cases "u64_checked_add offset (of_nat ?n)") (auto simp: signature_scan.simps [of E] Let_def)
    let ?kept = "if 5 \<le> length ?carry then drop (length ?carry - 5) ?carry else ?carry"
    have rest: "signature_scan E crc self scan_len offset' ?kept saw1 w2 = Some (Ok (Some (c, signature), saw'), w')"
      using "1.prems"(3) inside r chunk base t found None offset' by (simp add: signature_scan.simps [of E crc self] Let_def)
    show ?thesis
      by (rule "1.IH" [OF inside r refl chunk refl refl refl base t refl found refl None refl offset' "1.prems"(1,2) rest])
  qed
qed

lemma find_signature_Valid:
  assumes "faithful E content whole" and "source_ok content whole self"
    and "find_signature E crc self limit w = Some (Ok (base, signature), w')"
  shows "candidate_at crc (archive_bytes content whole self) (unat base) = Valid signature"
proof -
  obtain len where "source_len self = Ok len" using source_len_ok [OF assms(2)] by auto
  with assms(3) obtain r w1 where r: "signature_scan E crc self (min len limit) 0 [] False w = Some (r, w1)"
    by (auto simp: find_signature_def)
  then obtain saw where "r = Ok (Some (base, signature), saw)"
    using assms(3) \<open>source_len self = Ok len\<close>
    by (cases r) (auto simp: find_signature_def split: option.splits if_splits)
  then show ?thesis using signature_scan_Valid [OF assms(1,2)] r by blast
qed



section \<open>The header that is resolved\<close>

lemma resolved_complete:
  assumes "resolve_archive N data = Ok (HeaderComplete h)"
  shows "header_ok N h \<and> h_data h = data \<and> external_folder_data h = []"
proof -
  from assms obtain s where s: "HeaderScan_new data = Ok s"
    and run: "HeaderScan_advance N s None = Ok (Complete h (length (b_data (h_data h))))"
    by (auto simp: resolve_archive_def into_resolution_eq)
  from HeaderScan_new_ok [OF s] obtain i where "at_input s i" by blast
  then show ?thesis
    using header_loop_ok [of N None s i] HeaderScan_new_ok [OF s, of N "[]"] run by (auto simp: advance_at_input)
qed

lemma resolved_pending:
  assumes "resolve_archive N data = Ok (RequiresExternalFolders q)" and "resolve_with N q d = Ok h"
  shows "\<exists>ext. d (pending_additional q) = Ok ext \<and> header_ok N h \<and> h_data h = data \<and> external_folder_data h = ext"
proof -
  from assms(1) obtain s where s: "HeaderScan_new data = Ok s" and pending: "HeaderScan_advance N s None = Ok (Pending q)"
    by (auto simp: resolve_archive_def into_resolution_eq)
  obtain ext p where ext: "d (pending_additional q) = Ok ext" "HeaderScan_advance N (pending_scan q) (Some ext) = Ok p"
    and p: "complete_exact p = Ok h"
    using assms(2) by (auto simp: resolve_with_def)
  then have run: "HeaderScan_advance N s (Some ext) = Ok p" using advance_resumes [OF s pending, of ext] by simp
  obtain k where "p = Complete h k" using p by (cases p) (auto simp: complete_exact_def split: if_splits)
  moreover from HeaderScan_new_ok [OF s] obtain i where "at_input s i" by blast
  ultimately show ?thesis
    using header_loop_ok [of N "Some ext" s i] HeaderScan_new_ok [OF s, of N ext] run ext(1) by (auto simp: advance_at_input)
qed

lemma header_streams_parse:
  assumes "header_ok N h" and "length (b_data (h_data h)) < usize_limit" and "external_small (external_folder_data h)"
  shows "\<exists>v. try_streams_info N h = Ok v \<and> (v = None \<longleftrightarrow> streams_info_range h = None)"
  unfolding try_streams_info_def
  by (rule lazy_streams [OF _ assms(2,3)]) (use assms(1) in \<open>auto simp: header_ok_def sections_ok_def\<close>)

lemma header_ranges:
  assumes "header_ok N h"
    and "streams_info_range h = Some rng \<or> files_info_range h = Some rng \<or> additional_streams_range h = Some rng"
  shows "unat (fst rng) \<le> unat (snd rng) \<and> unat (snd rng) \<le> length (b_data (h_data h))"
  using assms by (cases rng) (auto simp: header_ok_def sections_ok_def section_scans_def)

lemma charge_metadata_fits:
  "charge_metadata budget n = Ok budget' \<Longrightarrow> n \<le> max_metadata_bytes (limits budget) \<and> limits budget' = limits budget"
  by (auto simp: charge_metadata_def u64_checked_add_eq_Some word_le_nat_alt word_less_nat_alt split: option.splits if_splits)

lemma parse_header_Ok:
  assumes "parse_header_with_external_data H source base data budget password w = Some (Ok h, budget', w')"
  shows "header_ok (ho_nom H) h \<and> h_data h = data \<and> of_nat (length (b_data data)) \<le> max_metadata_bytes (limits budget)"
proof -
  obtain b where b: "charge_metadata budget (of_nat (length (b_data data))) = Ok b"
    using assms by (auto simp: parse_header_with_external_data_def split: result.splits)
  obtain r where r: "resolve_archive (ho_nom H) data = Ok r"
    using assms b by (auto simp: parse_header_with_external_data_def split: result.splits)
  have "header_ok (ho_nom H) h \<and> h_data h = data"
  proof (cases r)
    case (HeaderComplete h')
    then have "h' = h" using assms b r by (auto simp: parse_header_with_external_data_def and_then_eq_Ok)
    then show ?thesis using resolved_complete r HeaderComplete by blast
  next
    case (RequiresExternalFolders q)
    then obtain d where "resolve_with (ho_nom H) q d = Ok h" using assms b r by (auto simp: parse_header_with_external_data_def)
    then show ?thesis using resolved_pending r RequiresExternalFolders by blast
  qed
  then show ?thesis using charge_metadata_fits [OF b] by simp
qed

text \<open>Where the bytes of a header come from: the next header itself, or the folder it describes.\<close>

definition header_bytes :: "('b, 'd, 'f, 'w) host \<Rightarrow> 'f ArchiveSource \<Rightarrow> u64 \<Rightarrow> code_point list option \<Rightarrow> bytes \<Rightarrow> EncodedHeader option \<Rightarrow>
    bytes \<Rightarrow> bool" where
  "header_bytes H source base password next_header encoded data \<longleftrightarrow>
     (case encoded of
        None \<Rightarrow> NextHeader_parse (ho_nom H) (fresh_bytes H next_header) = Ok Plain \<and> data = next_header
      | Some enc \<Rightarrow>
          NextHeader_parse (ho_nom H) (fresh_bytes H next_header) = Ok (Encoded enc) \<and>
          (\<exists>limit folder packs budget w df budget' w'.
             EncodedHeader_folder (ho_nom H) enc limit = Ok folder \<and>
             PackedSource_new source base (pack_pos (eh_pack_info enc)) = Ok packs \<and>
             decode_metadata_folder (source_engine H packs password) (ho_chunk H) folder limit budget w =
               Some (Ok df, budget', w') \<and> data = df_bytes df))"

lemma map_err_Ok: "map_err f r = Ok x \<longleftrightarrow> r = Ok x"
  by (cases r) simp_all

lemma decode_encoded_Ok:
  assumes "decode_encoded_header H source base enc password budget w = Some (Ok h, budget', w')"
  shows "header_ok (ho_nom H) h \<and>
    (NextHeader_parse (ho_nom H) (fresh_bytes H next_header) = Ok (Encoded enc) \<longrightarrow>
      header_bytes H source base password next_header (Some enc) (b_data (h_data h)))"
proof -
  let ?limit = "metadata_remaining budget"
  obtain folder packs where f: "EncodedHeader_folder (ho_nom H) enc ?limit = Ok folder"
    "PackedSource_new source base (pack_pos (eh_pack_info enc)) = Ok packs"
    using assms
    by (cases "EncodedHeader_folder (ho_nom H) enc ?limit"; cases "PackedSource_new source base (pack_pos (eh_pack_info enc))")
       (auto simp: decode_encoded_header_def)
  then obtain r b w1 where d: "decode_metadata_folder (source_engine H packs password) (ho_chunk H) folder ?limit budget w = Some (r, b, w1)"
    using assms by (auto simp: decode_encoded_header_def bind_eq_Some_conv)
  obtain df where r: "r = Ok df" using assms f d by (cases r) (auto simp: decode_encoded_header_def)
  have "parse_header_with_external_data H source base (fresh_bytes H (df_bytes df)) b password w1 = Some (Ok h, budget', w')"
    using assms f d r by (simp add: decode_encoded_header_def)
  from parse_header_Ok [OF this] have h: "header_ok (ho_nom H) h" "b_data (h_data h) = df_bytes df"
    by (simp_all add: fresh_bytes_def)
  have "header_bytes H source base password next_header (Some enc) (df_bytes df)"
    if "NextHeader_parse (ho_nom H) (fresh_bytes H next_header) = Ok (Encoded enc)"
    unfolding header_bytes_def option.case using that f d r by blast
  then show ?thesis using h by simp
qed

lemma resolve_next_header_Ok:
  assumes "resolve_next_header H source base (fresh_bytes H next_header) password budget w = Some (Ok (h, encoded), budget', w')"
  shows "header_ok (ho_nom H) h \<and> header_bytes H source base password next_header encoded (b_data (h_data h))"
proof -
  let ?next = "fresh_bytes H next_header"
  obtain r where r: "NextHeader_parse (ho_nom H) ?next = Ok r"
    using assms by (cases "NextHeader_parse (ho_nom H) ?next") (simp_all add: resolve_next_header_def)
  show ?thesis
  proof (cases r)
    case Plain
    obtain p b w1 where p: "parse_header_with_external_data H source base ?next budget password w = Some (p, b, w1)"
      using assms r Plain by (auto simp: resolve_next_header_def)
    have "p = Ok h \<and> encoded = None" using assms r Plain p by (cases p) (simp_all add: resolve_next_header_def)
    then have e: "encoded = None" and "parse_header_with_external_data H source base ?next budget password w = Some (Ok h, b, w1)"
      using p by simp_all
    from parse_header_Ok [OF this(2)] show ?thesis using r Plain e by (simp add: header_bytes_def) (simp add: fresh_bytes_def)
  next
    case (Encoded enc)
    obtain b where b: "charge_metadata budget (of_nat (length (b_data ?next))) = Ok b"
      using assms r Encoded
      by (cases "charge_metadata budget (of_nat (length (b_data ?next)))") (simp_all add: resolve_next_header_def)
    obtain p b' w1 where p: "decode_encoded_header H source base enc password b w = Some (p, b', w1)"
      using assms r Encoded b by (auto simp: resolve_next_header_def)
    have "p = Ok h \<and> encoded = Some enc" using assms r Encoded b p by (cases p) (simp_all add: resolve_next_header_def)
    then have e: "encoded = Some enc" and "decode_encoded_header H source base enc password b w = Some (Ok h, b', w1)"
      using p by simp_all
    from decode_encoded_Ok [OF this(2)] show ?thesis using r Encoded e by simp
  qed
qed


section \<open>Opening\<close>

lemma next_header_range_Ok:
  assumes "next_header_range len base signature options = Ok rng"
  shows "unat (br_start rng) = unat base + 32 + unat (sh_next_header_offset signature)"
    "unat (br_end rng) = unat (br_start rng) + unat (sh_next_header_size signature)" "br_end rng \<le> len"
    "sh_next_header_size signature \<le> max_metadata_bytes options"
proof -
  have limit: "\<not> sh_next_header_size signature > max_metadata_bytes options"
    using assms by (auto simp: next_header_range_def split: if_splits)
  then obtain a start where a: "checked_add_u64 base 32 = Ok a" "checked_add_u64 a (sh_next_header_offset signature) = Ok start"
    and rng: "checked_range_u64 len start (sh_next_header_size signature) = Ok rng"
    using assms by (auto simp: next_header_range_def and_then_eq_Ok)
  from a have "unat a = unat base + 32" "unat start = unat a + unat (sh_next_header_offset signature)"
    by (simp_all add: checked_add_u64_def u64_checked_add_eq_Some ok_or_eq_Ok)
  with checked_range_Ok [OF rng] limit show
    "unat (br_start rng) = unat base + 32 + unat (sh_next_header_offset signature)"
    "unat (br_end rng) = unat (br_start rng) + unat (sh_next_header_size signature)" "br_end rng \<le> len"
    "sh_next_header_size signature \<le> max_metadata_bytes options" by simp_all
qed

text \<open>A successful opening, taken apart.\<close>

lemma from_source_Ok:
  assumes "from_source_with_budget H source password options budget w = Some (Ok archive, w')"
  obtains len w1 rng next_header w2 budget' w3 where
    "source_len source = Ok len"
    "find_signature (ho_env H) (ho_crc H) source (max_signature_scan_bytes options) w = Some (Ok (ar_base_offset archive, ar_signature archive), w1)"
    "next_header_range len (ar_base_offset archive) (ar_signature archive) options = Ok rng"
    "read_range_to_vec (ho_env H) source rng (max_metadata_bytes options) w1 = Some (Ok next_header, w2)"
    "ho_crc H next_header = sh_next_header_crc (ar_signature archive)"
    "resolve_next_header H source (ar_base_offset archive) (fresh_bytes H next_header) password budget w2 =
      Some (Ok (ar_header archive, ar_encoded_header archive), budget', w3)"
    "ar_source archive = source"
proof -
  obtain len where len: "source_len source = Ok len"
    using assms by (cases "source_len source") (simp_all add: from_source_with_budget_def)
  obtain r w1 where r: "find_signature (ho_env H) (ho_crc H) source (max_signature_scan_bytes options) w = Some (r, w1)"
    using assms len by (auto simp: from_source_with_budget_def bind_eq_Some_conv)
  obtain base signature where f: "r = Ok (base, signature)"
    using assms len r by (cases r) (auto simp: from_source_with_budget_def)
  obtain rng where rng: "next_header_range len base signature options = Ok rng"
    using assms len r f by (cases "next_header_range len base signature options") (simp_all add: from_source_with_budget_def)
  obtain n w2 where n: "read_range_to_vec (ho_env H) source rng (max_metadata_bytes options) w1 = Some (n, w2)"
    using assms len r f rng by (auto simp: from_source_with_budget_def bind_eq_Some_conv)
  obtain next_header where next_header: "n = Ok next_header" "ho_crc H next_header = sh_next_header_crc signature"
    using assms len r f rng n by (cases n) (auto simp: from_source_with_budget_def split: if_splits)
  obtain hs b w3 where hs: "resolve_next_header H source base (fresh_bytes H next_header) password budget w2 = Some (hs, b, w3)"
    using assms len r f rng n next_header by (auto simp: from_source_with_budget_def)
  obtain h encoded where h: "hs = Ok (h, encoded)"
    using assms len r f rng n next_header hs by (cases hs) (auto simp: from_source_with_budget_def)
  have "archive = \<lparr>ar_source = source, ar_base_offset = base, ar_signature = signature, ar_encoded_header = encoded, ar_header = h\<rparr>"
    using assms len r f rng n next_header hs h by (simp add: from_source_with_budget_def)
  then show thesis using that len r f rng n next_header hs h by simp
qed

text \<open>
  C3. An archive that opens is what its bytes say. Whatever it is stored in, and however short or failing the
  reads are: at the base offset lies a signature header with a matching checksum; the next
  header it points to lies inside of the archive, is no larger than the limit on metadata, and has the
  announced checksum; the header comes from these bytes, or, if they describe an encoded header, from what the
  described folder decodes to; the sections of the header lie inside of it, and the streams
  section parses whenever it is asked for.
\<close>

theorem opened_archive_sound:
  assumes "faithful (ho_env H) content whole" and "source_ok content whole source"
    and "from_source_with_budget H source password options budget w = Some (Ok archive, w')"
  defines "bs \<equiv> archive_bytes content whole source" and "base \<equiv> unat (ar_base_offset archive)"
    and "sig \<equiv> ar_signature archive" and "header \<equiv> ar_header archive"
  defines "start \<equiv> base + 32 + unat (sh_next_header_offset sig)" and "n \<equiv> unat (sh_next_header_size sig)"
  shows "ar_source archive = source \<and> candidate_at (ho_crc H) bs base = Valid sig \<and>
    start + n \<le> length bs \<and> n \<le> unat (max_metadata_bytes options) \<and>
    ho_crc H (take n (drop start bs)) = sh_next_header_crc sig \<and>
    header_bytes H source (ar_base_offset archive) password (take n (drop start bs)) (ar_encoded_header archive)
      (b_data (h_data header)) \<and>
    (\<forall>rng. streams_info_range header = Some rng \<or> files_info_range header = Some rng \<or> additional_streams_range header = Some rng \<longrightarrow>
       unat (fst rng) \<le> unat (snd rng) \<and> unat (snd rng) \<le> length (b_data (h_data header))) \<and>
    (length (b_data (h_data header)) < usize_limit \<and> external_small (external_folder_data header) \<longrightarrow>
       (\<exists>streams. Archive_try_streams_info (ho_nom H) archive = Ok streams))"
proof -
  from assms(3) show ?thesis
  proof (cases rule: from_source_Ok)
    case (1 len w1 rng next_header w2 budget' w3)
    note rng = next_header_range_Ok [OF 1(3)]
    have len: "unat len = length bs" using source_len_ok [OF assms(2)] 1(1) by (auto simp: bs_def)
    have bounds: "unat (br_start rng) = start" "unat (br_end rng) = start + n"
      using rng by (simp_all add: start_def n_def base_def sig_def)
    moreover have "unat (br_end rng) \<le> unat len" using rng(3) by (simp add: word_le_nat_alt)
    ultimately have inside: "start + n \<le> length bs" by (simp add: len)
    have "unat (ByteRange_len rng) = n"
      using bounds by (simp add: ByteRange_len_def unat_sub word_le_nat_alt)
    then have "read_exact_at (ho_env H) source (br_start rng) n w1 = Some (Ok next_header, w2)"
      using 1(4) by (auto simp: read_range_to_vec_def Let_def split: if_splits)
    from read_exact_at_content [OF assms(1,2) _ this] have next_header: "next_header = take n (drop start bs)"
      using unat_u64_less [of "sh_next_header_size sig"] by (simp add: bounds(1) bs_def n_def)
    have "candidate_at (ho_crc H) bs base = Valid sig"
      using find_signature_Valid [OF assms(1,2) 1(2)] by (simp add: bs_def base_def sig_def)
    moreover have "n \<le> unat (max_metadata_bytes options)" using rng(4) by (simp add: n_def sig_def word_le_nat_alt)
    moreover from resolve_next_header_Ok [OF 1(6)] have ok: "header_ok (ho_nom H) header"
      and "header_bytes H source (ar_base_offset archive) password next_header (ar_encoded_header archive) (b_data (h_data header))"
      by (simp_all add: header_def)
    moreover have "\<exists>streams. Archive_try_streams_info (ho_nom H) archive = Ok streams"
      if "length (b_data (h_data header)) < usize_limit" "external_small (external_folder_data header)"
      using header_streams_parse [OF ok that] by (auto simp: Archive_try_streams_info_def header_def)
    ultimately show ?thesis
      using 1(5,7) inside header_ranges [OF ok] unfolding next_header sig_def by blast
  qed
qed



section \<open>Archives the writer lays out\<close>

lemma find_written_signature:
  assumes "faithful E content whole" and "reliable E content whole" and "source_ok content whole source"
    and "archive_bytes content whole source = signature_bytes crc offset next_header @ rest"
    and "length (signature_bytes crc offset next_header @ rest) + 32 \<le> usize_limit"
    and "length next_header < usize_limit" and "6 \<le> unat limit"
  shows "\<exists>signature w'. find_signature E crc source limit w = Some (Ok (0, signature), w') \<and>
    sh_next_header_offset signature = offset \<and> unat (sh_next_header_size signature) = length next_header \<and>
    sh_next_header_crc signature = crc next_header"
proof -
  obtain signature where sig: "sh_next_header_offset signature = offset" "unat (sh_next_header_size signature) = length next_header"
    "sh_next_header_crc signature = crc next_header"
    and valid: "\<And>rest. candidate_at crc (signature_bytes crc offset next_header @ rest) 0 = Valid signature"
    and first: "\<And>rest n. 6 \<le> n \<Longrightarrow> \<exists>cs. find_magic_offsets (take n (signature_bytes crc offset next_header @ rest)) = 0 # cs"
    by (rule written_signature [OF assms(6), of crc offset]) blast
  obtain cs where "find_magic_offsets (take (unat limit) (signature_bytes crc offset next_header @ rest)) = 0 # cs"
    using first [OF assms(7)] by blast
  then have "first_valid crc (archive_bytes content whole source)
      (find_magic_offsets (take (unat limit) (archive_bytes content whole source))) False = (Some (0, signature), False)"
    using valid by (simp add: assms(4) del: take_append)
  then show ?thesis
    using find_signature_whole [OF assms(1-3), of crc limit w] assms(4,5) sig by (auto simp del: take_append)
qed

lemma next_header_range_fits:
  assumes "32 + unat (sh_next_header_offset signature) + unat (sh_next_header_size signature) \<le> unat len"
    and "sh_next_header_size signature \<le> max_metadata_bytes options"
  shows "\<exists>rng. next_header_range len 0 signature options = Ok rng \<and>
    unat (br_start rng) = 32 + unat (sh_next_header_offset signature) \<and> ByteRange_len rng = sh_next_header_size signature"
proof -
  let ?o = "sh_next_header_offset signature" and ?n = "sh_next_header_size signature"
  have limit: "unat len < usize_limit" by (rule unat_u64_less)
  have a: "checked_add_u64 0 32 = Ok 32" by (simp add: checked_add_u64_def u64_checked_add_def)
  have start: "unat (32 + ?o) = 32 + unat ?o" using assms(1) limit by (subst unat_add_lem [THEN iffD1]) simp_all
  have b: "checked_add_u64 32 ?o = Ok (32 + ?o)"
    using start assms(1) limit by (simp add: checked_add_u64_def ok_or_eq_Ok u64_checked_add_eq_Some)
  have "unat (32 + ?o + ?n) = unat (32 + ?o) + unat ?n"
    using start assms(1) limit by (subst unat_add_lem [THEN iffD1]) simp_all
  then have "u64_checked_add (32 + ?o) ?n = Some (32 + ?o + ?n)" and "32 + ?o + ?n \<le> len"
    using start assms(1) limit by (simp_all add: u64_checked_add_eq_Some word_le_nat_alt)
  then have c: "checked_range_u64 len (32 + ?o) ?n = Ok \<lparr>br_start = 32 + ?o, br_end = 32 + ?o + ?n\<rparr>"
    by (simp add: checked_range_u64_def)
  show ?thesis
    using assms(2) a b c start by (simp add: next_header_range_def ByteRange_len_def)
qed

lemma written_header_resolved:
  assumes "list_all name_valid entries" and "cfs \<noteq> [] \<longrightarrow> folders_written (ho_nom H) cfs folders"
    and "length (build_header entries cfs) < 2 ^ 32" and "length (build_header entries cfs) \<le> unat (max_metadata_bytes options)"
  defines "backing \<equiv> fresh_bytes H (build_header entries cfs)"
  shows "\<exists>budget. resolve_next_header H source base backing password (OperationBudget_new options) w =
    Some (Ok (written_header backing entries cfs, None), budget, w)"
proof -
  have data: "b_data backing = build_header entries cfs" by (simp add: backing_def fresh_bytes_def)
  have plain: "NextHeader_parse (ho_nom H) backing = Ok Plain"
    by (simp add: NextHeader_parse_def data build_header_eq Property_parse_Cons Property_from_u8_def all_properties_def)
  have resolved: "resolve_archive (ho_nom H) backing = Ok (HeaderComplete (written_header backing entries cfs))"
    using resolve_written [OF assms(1,2) data] assms(3) data by simp
  have "verify_additional_stream_crcs H source base (written_header backing entries cfs) w = Some (Ok (), w)"
    by (simp add: verify_additional_stream_crcs_def additional_pack_info_def try_additional_streams_info_def lazy_section_def
        written_header_def)
  moreover obtain b where "charge_metadata (OperationBudget_new options) (of_nat (length (build_header entries cfs))) = Ok b"
    using assms(3,4)
    by (auto simp: charge_metadata_def OperationBudget_new_def u64_checked_add_def word_less_nat_alt unat_of_nat)
  ultimately show ?thesis
    by (simp add: resolve_next_header_def plain parse_header_with_external_data_def data resolved)
qed

lemma files_counted: "try_files_info N h = Ok (Some fi) \<Longrightarrow> num_files fi = h_num_files h"
  by (auto simp: try_files_info_def lazy_section_def and_then_eq_Ok split: option.splits if_splits)

lemma written_layout_opens:
  assumes "faithful (ho_env H) content whole" and "reliable (ho_env H) content whole" and "source_ok content whole source"
    and "archive_bytes content whole source = signature_bytes (ho_crc H) offset header @ packed @ header"
    and "length packed = unat offset" and "header = build_header entries cfs" and "length header < 2 ^ 32"
    and "list_all name_valid entries" and "cfs \<noteq> [] \<longrightarrow> folders_written (ho_nom H) cfs folders"
    and "length (signature_bytes (ho_crc H) offset header @ packed @ header) + 32 \<le> usize_limit"
    and "length header \<le> unat (max_metadata_bytes options)" and "6 \<le> unat (max_signature_scan_bytes options)"
  shows "\<exists>archive w'. from_source_with_password H source password options w = Some (Ok archive, w') \<and>
    ar_source archive = source \<and> ar_base_offset archive = 0 \<and> ar_encoded_header archive = None \<and>
    Archive_num_files archive = length entries \<and>
    (if cfs = [] then Archive_try_streams_info (ho_nom H) archive = Ok None
     else \<exists>info. Archive_try_streams_info (ho_nom H) archive = Ok (Some info) \<and> streams_describe (ho_nom H) cfs folders info) \<and>
    (\<exists>fi. Archive_try_files_info (ho_nom H) archive = Ok (Some fi) \<and>
       (\<forall>k < length entries. FilesInfo_name fi k = Some (shown_name (entries ! k)) \<and>
          entry_type fi k = meant_type (entries ! k)))"
proof -
  let ?bs = "archive_bytes content whole source"
  have small: "length header < usize_limit" using assms(7) by simp
  obtain signature w1 where sig: "find_signature (ho_env H) (ho_crc H) source (max_signature_scan_bytes options) w = Some (Ok (0, signature), w1)"
    and fields: "sh_next_header_offset signature = offset" "unat (sh_next_header_size signature) = length header"
      "sh_next_header_crc signature = ho_crc H header"
    using find_written_signature [OF assms(1-4,10) small assms(12), of w] by blast
  obtain len where len: "source_len source = Ok len" "unat len = length ?bs"
    using source_len_ok [OF assms(3)] by auto
  have sized: "length (signature_bytes (ho_crc H) offset header) = 32"
    by (rule written_signature [OF small, of "ho_crc H" offset])
  then have total: "length ?bs = 32 + unat offset + length header" by (simp add: assms(4,5))
  obtain rng where rng: "next_header_range len 0 signature options = Ok rng" "unat (br_start rng) = 32 + unat offset"
    "ByteRange_len rng = sh_next_header_size signature"
    using next_header_range_fits [of signature len options] fields total len(2) assms(11) by (auto simp: word_le_nat_alt)
  have "take (length header) (drop (32 + unat offset) ?bs) = header"
    using sized by (simp add: assms(4) flip: assms(5))
  then obtain w2 where read: "read_range_to_vec (ho_env H) source rng (max_metadata_bytes options) w1 = Some (Ok header, w2)"
    using read_exact_at_returns [OF assms(1-3) small, of "br_start rng" w1] rng(2,3) fields total assms(11)
    by (auto simp: read_range_to_vec_def Let_def word_less_nat_alt)
  let ?backing = "fresh_bytes H header" and ?h = "written_header (fresh_bytes H header) entries cfs"
  obtain budget where next_header: "resolve_next_header H source 0 ?backing password (OperationBudget_new options) w2 =
      Some (Ok (?h, None), budget, w2)"
    using written_header_resolved [OF assms(8,9), of options source 0 password w2] assms(7,11) by (auto simp: assms(6))
  let ?archive = "\<lparr>ar_source = source, ar_base_offset = 0, ar_signature = signature, ar_encoded_header = None, ar_header = ?h\<rparr>"
  have "from_source_with_password H source password options w = Some (Ok ?archive, w2)"
    by (simp add: from_source_with_password_def from_source_with_budget_def len(1) sig rng(1) read fields(3) next_header)
  moreover have data: "b_data ?backing = build_header entries cfs" "length (b_data ?backing) < 2 ^ 32"
    using assms(7) by (simp_all add: fresh_bytes_def assms(6))
  note reads = written_header_reads [OF assms(8,9) data] resolve_written [OF assms(8,9) data]
  from reads obtain fi where fi: "try_files_info (ho_nom H) ?h = Ok (Some fi)" "unat (num_files fi) = length entries"
    "\<forall>k < length entries. FilesInfo_name fi k = Some (shown_name (entries ! k)) \<and> entry_type fi k = meant_type (entries ! k)"
    by auto
  then have "Archive_num_files ?archive = length entries"
    using files_counted [OF fi(1)] unat_u64_less [of "num_files fi"] by (simp add: Archive_num_files_def usize_try_from_def)
  moreover have "if cfs = [] then Archive_try_streams_info (ho_nom H) ?archive = Ok None
     else \<exists>info. Archive_try_streams_info (ho_nom H) ?archive = Ok (Some info) \<and> streams_describe (ho_nom H) cfs folders info"
    using reads by (auto simp: Archive_try_streams_info_def)
  ultimately show ?thesis using fi(1,3) by (intro exI [of _ ?archive] exI [of _ w2]) (simp add: Archive_try_files_info_def)
qed

text \<open>
  C4. An archive laid out as the writer lays it out opens to what was written. If the bytes are the signature header,
  the packed data and the header the writer builds, the header within the limit on metadata, opening succeeds from any
  source that does not fail, at base offset zero and without an encoded header; the archive has
  as many files as entries were written, under their names and of their kinds, and its streams
  section describes the folders that were written.
\<close>

theorem written_archive_opens:
  assumes "faithful (ho_env H) content whole" and "reliable (ho_env H) content whole" and "source_ok content whole source"
    and "archive_bytes content whole source = signature_bytes (ho_crc H) offset header @ packed @ header"
    and "length packed = unat offset" and "header = build_header entries cfs" and "length header < 2 ^ 32"
    and "list_all name_valid entries" and "cfs \<noteq> [] \<longrightarrow> folders_written (ho_nom H) cfs folders"
    and "length (signature_bytes (ho_crc H) offset header @ packed @ header) + 32 \<le> usize_limit"
    and "length header \<le> unat (max_metadata_bytes options)" and "6 \<le> unat (max_signature_scan_bytes options)"
  shows "\<exists>archive w'. from_source_with_password H source password options w = Some (Ok archive, w') \<and>
    ar_source archive = source \<and> ar_base_offset archive = 0 \<and> ar_encoded_header archive = None \<and>
    Archive_num_files archive = length entries \<and>
    (if cfs = [] then Archive_try_streams_info (ho_nom H) archive = Ok None
     else \<exists>info. Archive_try_streams_info (ho_nom H) archive = Ok (Some info) \<and> streams_describe (ho_nom H) cfs folders info) \<and>
    (\<exists>fi. Archive_try_files_info (ho_nom H) archive = Ok (Some fi) \<and>
       (\<forall>k < length entries. FilesInfo_name fi k = Some (shown_name (entries ! k)) \<and>
          entry_type fi k = meant_type (entries ! k)))"
  by (rule written_layout_opens [OF assms])


section \<open>A small archive in memory\<close>

definition small_header :: bytes where
  "small_header = build_header example_entries [example_folder]"

definition small_image :: bytes where
  "small_image = signature_bytes (\<lambda>_. 0) 3 small_header @ [1, 2, 3] @ small_header"

definition small_host :: "(unit, unit, bool, u64) host" where
  "small_host =
     \<lparr>ho_env = memory_env, ho_answers = (\<lambda>_ r _. (Err (IoKind OtherKind), r)), ho_codecs = plain_codecs,
      ho_lzma_mem = (\<lambda>_ _. None), ho_lzma2_mem = (\<lambda>_. 0), ho_crc = (\<lambda>_. 0), ho_chunk = (\<lambda>_. 0), ho_alloc = (\<lambda>_. 0),
      ho_nom = nom_reference\<rparr>"

abbreviation small_source :: "bool ArchiveSource" where
  "small_source \<equiv> Source_Bytes \<lparr>b_ptr = 0, b_data = small_image\<rparr>"

lemma small_host_parts [simp]: "ho_env small_host = memory_env" "ho_crc small_host = (\<lambda>_. 0)" "ho_nom small_host = nom_reference"
  by (simp_all add: small_host_def)

lemma small_lengths: "length small_header = 54" "length small_image = 89"
    "length (signature_bytes (\<lambda>_. 0) 3 small_header) = 32"
  using example_header by (simp_all add: small_header_def small_image_def signature_bytes_def Let_def)

lemma small_limits: "6 \<le> unat (max_signature_scan_bytes ResourceLimits_default)" "54 \<le> unat (max_metadata_bytes ResourceLimits_default)"
  by (simp_all add: ResourceLimits_default_def)

lemma small_entries: "list_all name_valid example_entries" "length example_entries = 2" "shown_name (example_entries ! 0) = [0x61]"
  by (simp_all add: example_entries_def name_valid_def scalar_value_def shown_name_def)

lemma small_source_ok: "source_ok two_files [1, 2, 3, 4, 5] small_source"
  using small_lengths by (simp add: source_ok_def two_files_def)

lemma small_bytes:
  "archive_bytes two_files [1, 2, 3, 4, 5] small_source = signature_bytes (\<lambda>_. 0) 3 small_header @ [1, 2, 3] @ small_header"
  by (simp add: archive_bytes_def small_image_def)

lemmas small_layout = memory_env_faithful memory_env_reliable small_source_ok small_bytes example_folder_written [of nom_reference]
  small_entries small_lengths small_limits

lemma small_opens:
  "\<exists>archive w'. from_source_with_password small_host small_source None ResourceLimits_default 0 = Some (Ok archive, w')"
  using written_layout_opens [of small_host two_files "[1, 2, 3, 4, 5]" small_source 3 small_header "[1, 2, 3]" example_entries
      "[example_folder]" "[chain_folder [spec_coder Spec_Copy]]" ResourceLimits_default None 0] small_layout small_header_def
  by auto

theorem opened_archive_sound_witness:
  "\<exists>archive w'. from_source_with_password small_host small_source None ResourceLimits_default 0 = Some (Ok archive, w') \<and>
     candidate_at (\<lambda>_. 0) small_image (unat (ar_base_offset archive)) = Valid (ar_signature archive)"
proof -
  from small_opens obtain archive w' where
    run: "from_source_with_password small_host small_source None ResourceLimits_default 0 = Some (Ok archive, w')" by blast
  have "faithful (ho_env small_host) two_files [1, 2, 3, 4, 5]" by (simp add: memory_env_faithful)
  from opened_archive_sound [OF this small_source_ok run [unfolded from_source_with_password_def]]
  have "candidate_at (ho_crc small_host) (archive_bytes two_files [1, 2, 3, 4, 5] small_source) (unat (ar_base_offset archive)) =
      Valid (ar_signature archive)" by blast
  then show ?thesis using run by (auto simp: archive_bytes_def)
qed

theorem written_archive_opens_witness:
  "\<exists>archive w' fi. from_source_with_password small_host small_source None ResourceLimits_default 0 = Some (Ok archive, w') \<and>
     Archive_num_files archive = 2 \<and> Archive_try_files_info nom_reference archive = Ok (Some fi) \<and> FilesInfo_name fi 0 = Some [0x61]"
  using written_archive_opens [of small_host two_files "[1, 2, 3, 4, 5]" small_source 3 small_header "[1, 2, 3]" example_entries
      "[example_folder]" "[chain_folder [spec_coder Spec_Copy]]" ResourceLimits_default None 0] small_layout small_header_def
  by fastforce

end
