(* ===== verification/Archive_Listing.thy ===== *)
theory Archive_Listing
  imports Archive_Open File_Binding
begin

text \<open>
  \<^verbatim>\<open>src/src/archive.rs\<close>: the listing of an archive, which reads its tables but no packed data, and the
  copy of a folder without decoding it. Method names are strings of characters.
\<close>

section \<open>Names of methods\<close>

text \<open>\<open>is_power_of_two\<close> and \<open>trailing_zeros\<close>.\<close>

definition dictionary_bits :: "u32 \<Rightarrow> nat option" where
  "dictionary_bits sz = List.find (\<lambda>k. sz = push_bit k 1) [0..<32]"

definition lzma_dictionary_bits :: "bytes \<Rightarrow> nat option" where
  "lzma_dictionary_bits props =
     (if length props \<noteq> 5 then None else dictionary_bits (from_le_bytes (take 4 (drop 1 props))))"

definition lzma2_dictionary_bits :: "bytes \<Rightarrow> nat option" where
  "lzma2_dictionary_bits props =
     (case props of
        [prop] \<Rightarrow>
          if prop \<le> 39 then
            let base = 2 OR (ucast prop AND 1) :: u32; shift = unat (drop_bit 1 prop) + 11 in
            if shift < 32 then dictionary_bits (push_bit shift base) else None
          else if prop = 40 then dictionary_bits (- 1)
          else None
      | _ \<Rightarrow> None)"

definition ppmd_method_text :: "CoderInfo \<Rightarrow> string option" where
  "ppmd_method_text coder =
     Option.bind (properties coder) (\<lambda>props.
       if length props \<noteq> 5 then None
       else
         let order = props ! 0; mem_size = from_le_bytes (take 4 (drop 1 props)) :: u32;
             mem_text =
               (case dictionary_bits mem_size of
                  None \<Rightarrow> decimal_digits (unat mem_size)
                | Some bits \<Rightarrow> decimal_digits bits)
         in Some (''PPMD:o'' @ decimal_digits (unat order) @ '':mem'' @ mem_text))"

text \<open>The format \<open>{:02X?}\<close> of a list of bytes.\<close>

definition hex_digit :: "nat \<Rightarrow> char" where
  "hex_digit n = (if n < 10 then char_of (48 + n) else char_of (55 + n))"

definition hex_byte :: "u8 \<Rightarrow> string" where
  "hex_byte b = [hex_digit (unat b div 16), hex_digit (unat b mod 16)]"

fun hex_items :: "bytes \<Rightarrow> string" where
  "hex_items [] = ''''"
| "hex_items [b] = hex_byte b"
| "hex_items (b # bs) = hex_byte b @ '', '' @ hex_items bs"

definition hex_debug :: "bytes \<Rightarrow> string" where
  "hex_debug bs = ''['' @ hex_items bs @ '']''"

definition registered_name :: "SevenZMethod \<Rightarrow> string" where
  "registered_name m = (case SevenZMethod_name m of Some name \<Rightarrow> name | None \<Rightarrow> '''')"

definition entry_method_name :: "CoderInfo \<Rightarrow> string" where
  "entry_method_name coder =
     (let sized = (\<lambda>name bits. case bits of None \<Rightarrow> name | Some n \<Rightarrow> name @ '':'' @ decimal_digits n) in
      case method_from_id (codec_id coder) of
        Some M_Lzma \<Rightarrow> sized ''LZMA'' (Option.bind (properties coder) lzma_dictionary_bits)
      | Some M_Lzma2 \<Rightarrow> sized ''LZMA2'' (Option.bind (properties coder) lzma2_dictionary_bits)
      | Some M_Ppmd \<Rightarrow> (case ppmd_method_text coder of Some text \<Rightarrow> text | None \<Rightarrow> ''PPMD'')
      | Some M_SevenZAes \<Rightarrow>
          sized ''7zAES'' (Option.bind (properties coder) (\<lambda>props.
            case props of [] \<Rightarrow> None | b # _ \<Rightarrow> Some (unat (b AND 0x3F))))
      | Some m \<Rightarrow> registered_name m
      | None \<Rightarrow> hex_debug (codec_id coder))"

definition archive_method_name :: "CoderInfo \<Rightarrow> string" where
  "archive_method_name coder =
     (case method_from_id (codec_id coder) of
        Some M_Lzma \<Rightarrow> entry_method_name coder
      | Some M_Lzma2 \<Rightarrow> entry_method_name coder
      | Some M_Ppmd \<Rightarrow> ''PPMD''
      | Some M_SevenZAes \<Rightarrow> ''7zAES''
      | Some m \<Rightarrow> registered_name m
      | None \<Rightarrow> hex_debug (codec_id coder))"

definition is_crypto_method_name :: "string \<Rightarrow> bool" where
  "is_crypto_method_name name = (take 5 name = ''7zAES'' \<or> take 9 name = ''AES256CBC'')"

definition p7zip_method_order :: "string list \<Rightarrow> string list" where
  "p7zip_method_order names =
     (let (regular, crypto) = partition (\<lambda>name. \<not> is_crypto_method_name name) names in regular @ crypto)"

definition folder_method_names :: "Folder \<Rightarrow> string list" where
  "folder_method_names folder = p7zip_method_order (map entry_method_name (coders folder))"

text \<open>The inner and the outer loop of \<open>archive_method_names\<close>.\<close>

definition push_name :: "string list \<Rightarrow> string \<Rightarrow> string list" where
  "push_name names name = (if name \<in> set names then names else names @ [name])"

definition archive_method_names :: "nom \<Rightarrow> StreamInfo option \<Rightarrow> string list r7z_result" where
  "archive_method_names N streams =
     (case Option.bind streams unpack_info of
        None \<Rightarrow> Ok (p7zip_method_order [])
      | Some unpack \<Rightarrow>
          and_then
            (try_fold (\<lambda>names idx. and_then (parse_folder N unpack idx) (\<lambda>folder.
                Ok (foldl push_name names (map archive_method_name (coders folder)))))
              [] [0..<num_folders_usize unpack])
            (\<lambda>names. Ok (p7zip_method_order names)))"

definition archive_is_solid :: "StreamInfo option \<Rightarrow> bool" where
  "archive_is_solid streams =
     (case Option.bind streams substream_info of
        None \<Rightarrow> False
      | Some substreams \<Rightarrow> list_ex (\<lambda>n. n > 1) (num_unpack_streams_per_folder substreams))"

definition folder_is_encrypted :: "Folder \<Rightarrow> bool" where
  "folder_is_encrypted folder = list_ex (\<lambda>coder. codec_id coder = CODEC_AES_256_SHA_256) (coders folder)"

text \<open>
  A point of time is the seconds and nanoseconds after the Unix epoch; their sum with the epoch
  does not leave the range of a 64-bit system.
\<close>

definition filetime_to_system_time :: "u64 \<Rightarrow> (u64 \<times> u32) option" where
  "filetime_to_system_time filetime =
     (let secs = filetime div 10000000; nanos = (filetime mod 10000000) * 100 in
      if secs < 11644473600 then None
      else if unat nanos < 2 ^ 32 then Some (secs - 11644473600, ucast nanos) else None)"


section \<open>The listing\<close>

datatype ListingEntryKind = LK_File | LK_Directory | LK_Symlink | LK_Anti

record ArchiveListingEntry =
  le_index :: nat
  le_path :: "code_point list"
  le_kind :: ListingEntryKind
  le_size :: "u64 option"
  le_packed_size :: "u64 option"
  le_modified :: "(u64 \<times> u32) option"
  le_attributes :: "u32 option"
  le_crc :: "u32 option"
  le_encrypted :: bool
  le_methods :: "string list"
  le_block :: "nat option"

record ArchiveListing =
  al_archive_type :: string
  al_physical_size :: "u64 option"
  al_headers_size :: "u64 option"
  al_methods :: "string list"
  al_solid :: bool
  al_blocks :: nat
  al_entries :: "ArchiveListingEntry list"

text \<open>The sum does not overflow for a folder the walk hands out; else it wraps in a release build.\<close>

definition FolderLayout_packed_size :: "FolderLayout \<Rightarrow> u64" where
  "FolderLayout_packed_size self = sum_list (ps_sizes (lo_streams (fl_state self)))"

definition listing_kind :: "EntryType \<Rightarrow> ListingEntryKind" where
  "listing_kind etype =
     (case etype of
        ET_File \<Rightarrow> LK_File
      | ET_EmptyFile \<Rightarrow> LK_File
      | ET_Symlink \<Rightarrow> LK_Symlink
      | ET_EmptySymlink \<Rightarrow> LK_Symlink
      | ET_Directory \<Rightarrow> LK_Directory
      | ET_Anti \<Rightarrow> LK_Anti)"

definition listing_entry :: "FileStream \<Rightarrow> ArchiveListingEntry" where
  "listing_entry file =
     (let md = ent_metadata file;
          entry = \<lparr>le_index = em_index md, le_path = EntryMetadata_name md,
            le_kind = listing_kind (EntryKind_entry_type (ent_kind file)), le_size = None, le_packed_size = None,
            le_modified = Option.bind (em_modified md) filetime_to_system_time, le_attributes = em_attributes md,
            le_crc = None, le_encrypted = False, le_methods = [], le_block = None\<rparr>;
          stored = (\<lambda>place. entry\<lparr>
            le_size := Some (ByteRange_len (ss_range (loc_stream place))),
            le_packed_size := (if SubstreamIndex_is_first (loc_stream_index place)
              then Some (FolderLayout_packed_size (loc_folder place)) else None),
            le_crc := ss_digest (loc_stream place),
            le_methods := folder_method_names (lo_folder (fl_state (loc_folder place))),
            le_encrypted := folder_is_encrypted (lo_folder (fl_state (loc_folder place))),
            le_block := Some (loc_folder_index place)\<rparr>)
      in
      case ent_kind file of
        EK_File place \<Rightarrow> stored place
      | EK_Symlink place \<Rightarrow> stored place
      | EK_EmptyFile \<Rightarrow> entry\<lparr>le_size := Some 0, le_crc := Some 0\<rparr>
      | EK_EmptySymlink \<Rightarrow> entry\<lparr>le_size := Some 0, le_crc := Some 0\<rparr>
      | EK_Directory \<Rightarrow> entry\<lparr>le_size := Some 0\<rparr>
      | EK_Anti \<Rightarrow> entry)"

text \<open>The sum of the sizes of the packed streams.\<close>

definition packed_total :: "StreamInfo option \<Rightarrow> u64 r7z_result" where
  "packed_total streams =
     (case Option.bind streams pack_info of
        None \<Rightarrow> Ok 0
      | Some pack \<Rightarrow> try_fold (\<lambda>acc sz. ok_or Parse (u64_checked_add acc sz)) 0 (pack_size pack))"

text \<open>
  \<open>map_all\<close> under \<open>try_fold\<close>, which stops at the first error. Making an entry has no effect, so the items may as
  well be made first. \<open>None\<close> would be a panic.
\<close>

definition listing_entries :: "nom \<Rightarrow> FileStreams \<Rightarrow> ArchiveListingEntry list r7z_result option" where
  "listing_entries N files =
     map_option (\<lambda>(items, _). collect_results (\<lambda>item. item) items)
       (map_all_run N (\<lambda>c file. (Ok (listing_entry file), c)) (False, files, ()))"

definition listing :: "nom \<Rightarrow> 'f Archive \<Rightarrow> u64 option \<Rightarrow> ArchiveListing r7z_result option" where
  "listing N self physical =
     (let physical = (case physical of Some n \<Rightarrow> Some n | None \<Rightarrow> ok (source_len (ar_source self))) in
      case (and_then (Archive_try_streams_info N self) (\<lambda>streams.
            and_then (packed_total streams) (\<lambda>pack_total.
            let headers = Option.bind physical (\<lambda>sz. u64_checked_sub sz pack_total) in
            and_then (archive_method_names N streams) (\<lambda>methods.
            let blocks = (case Option.bind streams unpack_info of None \<Rightarrow> 0 | Some unpack \<Rightarrow> num_folders_usize unpack);
                solid = archive_is_solid streams in
            and_then (Archive_try_files_info N self) (\<lambda>files_info.
            and_then (FileStreams_new files_info (Archive_num_files self) streams) (\<lambda>files.
              Ok (files, \<lparr>al_archive_type = ''7z'', al_physical_size = physical, al_headers_size = headers,
                  al_methods = methods, al_solid = solid, al_blocks = blocks, al_entries = []\<rparr>))))))) of
        Err e \<Rightarrow> Some (Err e)
      | Ok (files, table) \<Rightarrow>
          map_option (\<lambda>entries. and_then entries (\<lambda>entries. Ok (table\<lparr>al_entries := entries\<rparr>))) (listing_entries N files))"


section \<open>Copying a folder without decoding it\<close>

record RawFolderBlock =
  rb_folder_info :: bytes
  rb_packed_streams :: "bytes list"
  rb_pack_sizes :: "u64 list"
  rb_coder_unpack_sizes :: "u64 list"
  rb_folder_crc :: "u32 option"
  rb_folder_index :: nat

abbreviation MAX_BUFFERED_PACKED_FOLDER_BYTES :: u64 where
  "MAX_BUFFERED_PACKED_FOLDER_BYTES \<equiv> 536870912"

definition ensure_packed_bytes_limit :: "u64 \<Rightarrow> unit r7z_result" where
  "ensure_packed_bytes_limit packed_bytes =
     (if packed_bytes > MAX_BUFFERED_PACKED_FOLDER_BYTES
      then Err (ResourceLimitExceeded ''packed folder buffers'' MAX_BUFFERED_PACKED_FOLDER_BYTES) else Ok ())"

definition ensure_packed_folder_buffer_limit :: "u64 list \<Rightarrow> unit r7z_result" where
  "ensure_packed_folder_buffer_limit sizes =
     and_then (try_fold (\<lambda>acc sz. ok_or Parse (u64_checked_add acc sz)) 0 sizes) ensure_packed_bytes_limit"

text \<open>\<open>Iterator::nth\<close> on the folders: those passed over may be errors.\<close>

fun FolderPlans_nth :: "nom \<Rightarrow> nat \<Rightarrow> FolderPlans \<Rightarrow> FolderLayout r7z_result option" where
  "FolderPlans_nth N 0 self = fst (FolderPlans_next N self)"
| "FolderPlans_nth N (Suc n) self =
     (case FolderPlans_next N self of (None, _) \<Rightarrow> None | (Some _, self) \<Rightarrow> FolderPlans_nth N n self)"

text \<open>The packed streams, collected; an item that is \<open>None\<close> is the panic of an inverted range.\<close>

fun read_packed_streams :: "('b, 'd, 'f, 'w) host \<Rightarrow> 'f PackedSource \<Rightarrow> PackedStream option list \<Rightarrow> 'w \<Rightarrow>
    (bytes list r7z_result \<times> 'w) option" where
  "read_packed_streams H packs [] w = Some (Ok [], w)"
| "read_packed_streams H packs (None # streams) w = None"
| "read_packed_streams H packs (Some stream # streams) w =
     Option.bind (PackedSource_range (ho_env H) (ho_crc H) packs stream w) (\<lambda>(rng, w).
       case rng of
         Err e \<Rightarrow> Some (Err e, w)
       | Ok rng \<Rightarrow>
           Option.bind (read_range_to_vec (ho_env H) (pso_source packs) rng MAX_BUFFERED_PACKED_FOLDER_BYTES w) (\<lambda>(data, w).
             case data of
               Err e \<Rightarrow> Some (Err e, w)
             | Ok data \<Rightarrow>
                 map_option (\<lambda>(rest, w). (and_then rest (\<lambda>rest. Ok (data # rest)), w)) (read_packed_streams H packs streams w)))"

definition read_raw_folder_block :: "('b, 'd, 'f, 'w) host \<Rightarrow> 'f Archive \<Rightarrow> nat \<Rightarrow> 'w \<Rightarrow> (RawFolderBlock r7z_result \<times> 'w) option" where
  "read_raw_folder_block H self folder_index w =
     (case (and_then (and_then (Archive_try_streams_info (ho_nom H) self) (ok_or Parse)) (\<lambda>streams.
            and_then (packed_folders streams) (\<lambda>(_, unpack).
            and_then (for_streams streams) (\<lambda>folders.
            and_then (PackedSource_new (ar_source self) (ar_base_offset self) (layouts_pack_pos folders)) (\<lambda>packs.
            and_then (and_then (ok_or Parse (FolderPlans_nth (ho_nom H) folder_index (fls_plans folders))) (\<lambda>folder. folder))
              (\<lambda>folder. Ok (unpack, packs, folder))))))) of
        Err e \<Rightarrow> Some (Err e, w)
      | Ok (unpack, packs, folder) \<Rightarrow>
          let streams = packed_streams_iter (lo_streams (fl_state folder)) in
          if None \<in> set streams then None
          else
            let sizes = map (\<lambda>stream. ByteRange_len (ps_range (the stream))) streams in
            (case ensure_packed_folder_buffer_limit sizes of
               Err e \<Rightarrow> Some (Err e, w)
             | Ok _ \<Rightarrow>
                 map_option (\<lambda>(packed, w).
                     (and_then packed (\<lambda>packed.
                      and_then (folder_bytes unpack folder_index) (\<lambda>info.
                        Ok \<lparr>rb_folder_info = info, rb_packed_streams = packed, rb_pack_sizes = sizes,
                            rb_coder_unpack_sizes = lo_coder_sizes (fl_state folder), rb_folder_crc = lo_crc (fl_state folder),
                            rb_folder_index = folder_index\<rparr>)), w))
                   (read_packed_streams H packs streams w)))"

end
