(* ===== verification/Listing_Laws.thy ===== *)
theory Listing_Laws
  imports Archive_Listing Session_Example
begin

text \<open>What a listing says of an entry is what extracting the entry gives.\<close>

section \<open>The entries of a listing\<close>

lemma bind_entries_Ok: "bind_entries es locs e = (ys, None) \<Longrightarrow> e = None \<and> length (filter owns es) = length locs"
proof (induction es arbitrary: locs ys)
  case Nil
  then show ?case by (auto simp: finish_error_def split: if_splits)
next
  case (Cons x xs)
  obtain zs r where rest: "bind_entries xs (if owns x then tl locs else locs) e = (zs, r)"
    by (cases "bind_entries xs (if owns x then tl locs else locs) e")
  then have "r = None" "\<not> (owns x \<and> locs = [])" using Cons.prems by (auto split: if_splits)
  with Cons.IH [OF rest [unfolded \<open>r = None\<close>]] show ?case by (cases locs) (auto split: if_splits)
qed

lemma listing_callbacks:
  "callbacks (\<lambda>c file. (Ok (listing_entry file), ())) () ys = (map (\<lambda>y. Ok (listing_entry y)) ys, ())"
  by (induction ys) simp_all

lemma collect_items: "collect_results (\<lambda>item. item) (map (\<lambda>y. Ok (f y)) ys @ error_item r) =
    (case r of None \<Rightarrow> Ok (map f ys) | Some e \<Rightarrow> Err e)"
  by (induction ys) (auto simp: error_item_def split: option.splits)

lemma listing_entries_walk:
  assumes "FileStreams_new files (Archive_num_files self) streams = Ok cursor0" and "stream_locations N streams = (locs, e)"
  defines "es \<equiv> entry_items (Entries_new files (Archive_num_files self))"
  shows "listing_entries N cursor0 =
    Some (case bind_entries es locs e of (ys, None) \<Rightarrow> Ok (map listing_entry ys) | (_, Some x) \<Rightarrow> Err x)"
proof -
  have "walk_at N (Archive_num_files self) cursor0 es locs e"
    using FileStreams_new_walk [OF assms(1) Archive_num_files_less assms(2)] by (simp add: es_def)
  from map_all_run_binds [OF this, of "\<lambda>c file. (Ok (listing_entry file), ())" "()"] show ?thesis
    by (cases "bind_entries es locs e")
       (auto simp: listing_entries_def listing_callbacks collect_items split: option.splits)
qed

lemma listing_Ok:
  assumes "listing N self physical = Some (Ok L)"
  obtains files streams cursor0 where "Archive_try_files_info N self = Ok files" "Archive_try_streams_info N self = Ok streams"
    "FileStreams_new files (Archive_num_files self) streams = Ok cursor0" "listing_entries N cursor0 = Some (Ok (al_entries L))"
proof -
  obtain streams where streams: "Archive_try_streams_info N self = Ok streams"
    using assms by (cases "Archive_try_streams_info N self") (simp_all add: listing_def)
  obtain sum where sum: "packed_total streams = Ok sum"
    using assms streams by (cases "packed_total streams") (simp_all add: listing_def)
  obtain methods where methods: "archive_method_names N streams = Ok methods"
    using assms streams sum by (cases "archive_method_names N streams") (simp_all add: listing_def Let_def)
  obtain files where files: "Archive_try_files_info N self = Ok files"
    using assms streams sum methods by (cases "Archive_try_files_info N self") (simp_all add: listing_def Let_def)
  obtain cursor0 where cursor0: "FileStreams_new files (Archive_num_files self) streams = Ok cursor0"
    using assms streams sum methods files
    by (cases "FileStreams_new files (Archive_num_files self) streams") (simp_all add: listing_def Let_def)
  obtain r where r: "listing_entries N cursor0 = Some r"
    using assms streams sum methods files cursor0 by (auto simp: listing_def Let_def)
  have "r = Ok (al_entries L)"
    using assms streams sum methods files cursor0 r by (cases r) (auto simp: listing_def Let_def)
  then show thesis using that files streams cursor0 r by blast
qed

lemma listed_entries:
  assumes "listing N self physical = Some (Ok L)"
  obtains files streams locs where "Archive_try_files_info N self = Ok files" "Archive_try_streams_info N self = Ok streams"
    "stream_locations N streams = (locs, None)"
    "al_entries L = map (\<lambda>i. listing_entry (bound_entry (entry_items (Entries_new files (Archive_num_files self))) locs i))
       [0..<Archive_num_files self]"
proof -
  from listing_Ok [OF assms] obtain files streams cursor0 where
    t: "Archive_try_files_info N self = Ok files" "Archive_try_streams_info N self = Ok streams"
    "FileStreams_new files (Archive_num_files self) streams = Ok cursor0" "listing_entries N cursor0 = Some (Ok (al_entries L))" .
  obtain locs e where locs: "stream_locations N streams = (locs, e)" by (cases "stream_locations N streams")
  let ?es = "entry_items (Entries_new files (Archive_num_files self))"
  obtain ys r where b: "bind_entries ?es locs e = (ys, r)" by (cases "bind_entries ?es locs e")
  have "r = None" "al_entries L = map listing_entry ys"
    using listing_entries_walk [OF t(3) locs] t(4) b by (auto split: option.splits)
  moreover from this have "e = None" "length (filter owns ?es) = length locs" using bind_entries_Ok b by auto
  moreover from this have "ys = map (bound_entry ?es locs) [0..<Archive_num_files self]"
    using bind_entries_closed [of ?es locs] b by simp
  ultimately show thesis using that t(1,2) locs by (simp add: comp_def)
qed

lemma substream_length: "p < layout_len l \<Longrightarrow> ByteRange_len (ss_range (substream_at l p)) = layout_sizes l ! p"
  by (simp add: ByteRange_len_def substream_at_def layout_len_sizes take_Suc_conv_app_nth)

lemma listed_stream:
  assumes "owns x"
  shows "le_size (listing_entry (bound x place)) = Some (ByteRange_len (ss_range (loc_stream place)))"
    "le_crc (listing_entry (bound x place)) = ss_digest (loc_stream place)"
    "le_block (listing_entry (bound x place)) = Some (loc_folder_index place)"
    "le_kind (listing_entry (bound x place)) \<in> {LK_File, LK_Symlink}"
  using assms by (cases "ent_kind x"; simp add: listing_entry_def bound_def listing_kind_def Let_def)+

lemma listed_empty:
  assumes "ent_kind x \<in> {EK_EmptyFile, EK_EmptySymlink}"
  shows "le_size (listing_entry (bound x place)) = Some 0" "le_block (listing_entry (bound x place)) = None"
    "le_kind (listing_entry (bound x place)) \<in> {LK_File, LK_Symlink}"
  using assms by (auto simp: listing_entry_def bound_def listing_kind_def Let_def)

lemma locations_places: "l \<in> set (locations k fs) \<Longrightarrow> \<exists>i f j. l = location i f j"
  by (induction fs arbitrary: k) (auto simp: owned_def)

lemma stream_locations_places:
  assumes "stream_locations N streams = (locs, e)" and "l \<in> set locs"
  shows "loc_stream l = substream_at (fl_layout (loc_folder l)) (loc_stream_index l)"
proof -
  have "\<exists>k fs. locs = locations k fs \<or> locs = []"
    using assms(1) by (auto simp: stream_locations_def plans_locations_def split: result.splits option.splits prod.splits)
  then obtain i f j where "l = location i f j" using assms(2) locations_places by fastforce
  then show ?thesis by (simp add: location_def)
qed

text \<open>
  C5. A listing tells the truth about what extraction returns. If an archive lists and an entry of it
  extracts, then the entry is in the listing at its index as a file or a link, the listed size is the number
  of bytes that are returned, and for an entry that lies in a block the listed checksum, if any, is the checksum of these bytes.
\<close>

theorem listing_matches_extraction:
  assumes "\<forall>pos G w. connect pos = Ok (G, w) \<longrightarrow> engine_ok G"
    and "listing N self physical = Some (Ok L)"
    and "extract_to_memory_with_options connect N platform self index config = Some (Ok bytes)"
  shows "index < length (al_entries L) \<and>
    (\<exists>sz. le_size (al_entries L ! index) = Some sz \<and> unat sz = length bytes) \<and>
    le_kind (al_entries L ! index) \<in> {LK_File, LK_Symlink} \<and>
    (le_block (al_entries L ! index) \<noteq> None \<longrightarrow>
      (\<exists>pos G w. connect pos = Ok (G, w) \<and> (\<forall>crc. le_crc (al_entries L ! index) = Some crc \<longrightarrow> eng_crc G bytes = crc)))"
proof -
  from listed_entries [OF assms(2)] obtain files streams locs where
    t: "Archive_try_files_info N self = Ok files" "Archive_try_streams_info N self = Ok streams"
      "stream_locations N streams = (locs, None)"
    and L: "al_entries L = map (\<lambda>i. listing_entry (bound_entry (entry_items (Entries_new files (Archive_num_files self))) locs i))
       [0..<Archive_num_files self]" .
  let ?es = "entry_items (Entries_new files (Archive_num_files self))"
  let ?x = "?es ! index" and ?place = "locs ! ordinal ?es index"
  note got = memory_extracted [OF assms(1) t assms(3)]
  have item: "index < length (al_entries L)" "al_entries L ! index = listing_entry (bound ?x ?place)"
    using got L by (auto simp: bound_entry_def)
  show ?thesis
  proof (cases "owns ?x")
    case True
    with got obtain pos G w where less: "ordinal ?es index < length locs" and G: "connect pos = Ok (G, w)"
      and bytes: "entry_bytes G ?place bytes" by auto
    have "loc_stream ?place = substream_at (fl_layout (loc_folder ?place)) (loc_stream_index ?place)"
      using stream_locations_places [OF t(3)] less by simp
    then have "unat (ByteRange_len (ss_range (loc_stream ?place))) = length bytes"
      "\<forall>crc. ss_digest (loc_stream ?place) = Some crc \<longrightarrow> eng_crc G bytes = crc"
      using bytes substream_length by (auto simp: entry_bytes_def Let_def) (simp add: substream_at_def)
    then show ?thesis using listed_stream [OF True] item G by auto
  next
    case False
    then have "ent_kind ?x \<in> {EK_EmptyFile, EK_EmptySymlink}" "bytes = []" using got by auto
    then show ?thesis using listed_empty item by auto
  qed
qed


section \<open>An instance\<close>

lemma stored_binds: "bind_entries stored_entries [stored_place] None = ([bound_entry stored_entries [stored_place] 0], None)"
proof -
  have "length stored_entries = Suc 0"
    by (simp add: entry_items_def Entries_len_def Entries_new_def)
  then have "stored_entries = [stored_entries ! 0]" by (metis length_0_conv length_Suc_conv nth_Cons_0)
  then have "filter owns stored_entries = [stored_entries ! 0]"
    using stored_kind by (metis filter.simps has_stream.simps(1))
  then show ?thesis using bind_entries_closed [of stored_entries "[stored_place]"] by simp
qed

lemma stored_listing_entries:
  "listing_entries nom_reference stored_file_streams =
     Some (Ok [listing_entry (bound_entry stored_entries [stored_place] 0)])"
proof -
  have "FileStreams_new (Some stored_files) (Archive_num_files stored_archive) (Some copy_streams) = Ok stored_file_streams"
    unfolding stored_num_files by (rule stored_file_streams_new)
  from listing_entries_walk [OF this copy_locations] show ?thesis
    by (simp add: stored_num_files stored_binds del: One_nat_def)
qed

lemma stored_packed_total: "packed_total (Some copy_streams) = Ok 5"
  by (simp add: packed_total_def copy_streams_def copy_pack_def u64_checked_add_def)

lemma stored_folder_parses: "parse_folder nom_reference copy_unpack 0 = Ok copy_folder"
  using copy_folder_parses by (simp add: parse_folder_def)

lemma stored_method_names: "archive_method_names nom_reference (Some copy_streams) = Ok [''Copy'']"
proof -
  have "num_folders_usize copy_unpack = 1" by (simp add: num_folders_usize_def copy_unpack_def)
  moreover have "archive_method_name (coders copy_folder ! 0) = ''Copy''"
    by (simp add: archive_method_name_def copy_folder_def copy_method registered_name_def SevenZMethod_name_def
        SevenZMethod_info_def List.find_def method_info_def METHOD_REGISTRY_def codec_ids)
  ultimately show ?thesis
    using stored_folder_parses
    by (simp add: archive_method_names_def copy_streams_def push_name_def p7zip_method_order_def is_crypto_method_name_def
        copy_folder_def)
qed

definition stored_listing :: ArchiveListing where
  "stored_listing = \<lparr>al_archive_type = ''7z'', al_physical_size = Some 67, al_headers_size = Some 62, al_methods = [''Copy''],
     al_solid = False, al_blocks = 1, al_entries = [listing_entry (bound_entry stored_entries [stored_place] 0)]\<rparr>"

lemma stored_lists: "listing nom_reference stored_archive (Some 67) = Some (Ok stored_listing)"
proof -
  have parts: "unpack_info copy_streams = Some copy_unpack" "archive_is_solid (Some copy_streams) = False"
    "num_folders_usize copy_unpack = 1"
    by (simp_all add: copy_streams_def archive_is_solid_def num_folders_usize_def copy_unpack_def)
  show ?thesis
    by (simp add: listing_def stored_streams_info stored_packed_total stored_method_names stored_files_info stored_num_files
        stored_file_streams_new stored_listing_entries parts Let_def u64_checked_sub_def stored_listing_def del: One_nat_def)
qed

theorem listing_matches_extraction_witness:
  "\<exists>sz. le_size (al_entries stored_listing ! 0) = Some sz \<and> unat sz = 5"
proof -
  have "\<forall>pos G w. stored_connect pos = Ok (G, w) \<longrightarrow> engine_ok G"
    using stored_engine_ok by simp
  from listing_matches_extraction [OF this stored_lists stored_extraction]
  show ?thesis by (simp add: eval_nat_numeral)
qed

end
