(* ===== verification/Spec2Isabelle.thy ===== *)
theory Spec2Isabelle
  imports Folder_Bcj2 Header_Scan Folder_Tiling Written_Header Active_Folder Decoder_Open File_Binding Archive_Paths Source_Laws
    Session_Example Opening_Laws Listing_Laws
begin

text \<open>
  A verification development for r7z, a reader and writer of 7z archives in Rust
  (\<^verbatim>\<open>src/src/\<close>).

  The program and its parts. An archive is a signature header that points to a
  header; the header is a byte string of nested, tagged sections. Reading goes through the layers
  below, each of which is one or more theories; the definitions carry the names of the
  functions they translate, qualified by the type where Rust would.

  \<^item> Bytes to numbers: \<^verbatim>\<open>parsers.rs\<close> (\<^theory_text>\<open>Parsers\<close>, the variable-length integer and
    the bit vectors), \<^verbatim>\<open>property.rs\<close> (\<^theory_text>\<open>Property_Tags\<close>), \<^verbatim>\<open>error.rs\<close> (\<^theory_text>\<open>Errors\<close>).
  \<^item> Coders and folders: \<^verbatim>\<open>method.rs\<close> (\<^theory_text>\<open>Methods\<close>), \<^verbatim>\<open>coder_info.rs\<close> (\<^theory_text>\<open>Coder_Info\<close>),
    \<^verbatim>\<open>folder.rs\<close>: parsing and scanning a folder (\<^theory_text>\<open>Folder_Layout\<close>), its graph of streams
    (\<^theory_text>\<open>Folder_Graph\<close>), the order of its coders (\<^theory_text>\<open>Folder_Order\<close>), the walk from the output
    back to the packed streams (\<^theory_text>\<open>Folder_Resolve\<close>) and the four inputs of BCJ2
    (\<^theory_text>\<open>Folder_Bcj2\<close>).
  \<^item> The sections of a header: \<^verbatim>\<open>pack_info.rs\<close> (\<^theory_text>\<open>Pack_Info\<close>, \<^theory_text>\<open>Unpack_Blocks\<close>),
    \<^verbatim>\<open>stream_info.rs\<close> (\<^theory_text>\<open>Stream_Info\<close>, \<^theory_text>\<open>Stream_Scan\<close>), \<^verbatim>\<open>files_info.rs\<close>
    (\<^theory_text>\<open>Files_Info\<close>, \<^theory_text>\<open>Files_Table\<close>) and \<^verbatim>\<open>headers.rs\<close> (\<^theory_text>\<open>Headers\<close>, \<^theory_text>\<open>Header_Scan\<close>).
    A reader first runs a scanner that only checks and later a parser that builds tables;
    \<^theory_text>\<open>Scanner_Laws\<close> holds what the scanners owe the parsers.
  \<^item> What an operation may use: \<^verbatim>\<open>operation.rs\<close> (\<^theory_text>\<open>Operation\<close>, cancellation and progress) and
    \<^verbatim>\<open>resources.rs\<close> (\<^theory_text>\<open>Resources\<close>, limits and counters).
  \<^item> From tables to folders: \<^verbatim>\<open>byte_range.rs\<close> and \<^verbatim>\<open>folder_decode.rs\<close> (\<^theory_text>\<open>Folder_Plans\<close>,
    \<^theory_text>\<open>Folder_Tiling\<close>) cut the tables of a header into folders, packed streams and substreams;
    \<^verbatim>\<open>entries.rs\<close> (\<^theory_text>\<open>Entries\<close>) walks and selects the entries of the file table, and
    \<^verbatim>\<open>file_streams.rs\<close> (\<^theory_text>\<open>File_Streams\<close>, \<^theory_text>\<open>File_Binding\<close>) gives each entry its substream.
  \<^item> Decoding: the readers of \<^verbatim>\<open>codec.rs\<close> (\<^theory_text>\<open>Readers\<close>, \<^theory_text>\<open>Reader_Laws\<close>),
    \<^verbatim>\<open>byte_swap.rs\<close> (\<^theory_text>\<open>Byte_Swap\<close>) and \<^verbatim>\<open>aes.rs\<close> (\<^theory_text>\<open>Aes\<close>); \<^verbatim>\<open>codec/plan.rs\<close> and
    \<^verbatim>\<open>codec/sizes.rs\<close>, which compile a folder to a plan with known memory
    (\<^theory_text>\<open>Decoder_Plan\<close>) and open it (\<^theory_text>\<open>Decoder_Open\<close>); and the active folder of
    \<^verbatim>\<open>folder_decode.rs\<close> (\<^theory_text>\<open>Active_Folder\<close>), which hands out substreams, checks sizes and
    checksums and says what was verified.
  \<^item> The archive: \<^verbatim>\<open>archive_source.rs\<close> (\<^theory_text>\<open>Archive_Source\<close>, positioned reads and the search of the
    signature; \<^theory_text>\<open>Volume_Source\<close>, sources from paths and split volumes; \<^theory_text>\<open>Source_Laws\<close>) and
    \<^verbatim>\<open>archive.rs\<close>: packed streams and their checksums (\<^theory_text>\<open>Packed_Source\<close>), opening
    (\<^theory_text>\<open>Archive_Open\<close>, \<^theory_text>\<open>Opening_Laws\<close>), the decoder of entries and read sessions
    (\<^theory_text>\<open>Entry_Decoder\<close>, with the laws in \<^theory_text>\<open>Guarded_Readers\<close>, \<^theory_text>\<open>Decoder_Runs\<close> and
    \<^theory_text>\<open>Session_Laws\<close>), streaming and extraction (\<^theory_text>\<open>Entry_Extraction\<close>, \<^theory_text>\<open>Extraction_Laws\<close>, worked out
    on an archive of one file in \<^theory_text>\<open>Session_Example\<close>), the listing and the copy of a folder
    (\<^theory_text>\<open>Archive_Listing\<close>, \<^theory_text>\<open>Listing_Laws\<close>) and safe names (\<^theory_text>\<open>Archive_Paths\<close>). \<^theory_text>\<open>Entry_Cursor\<close>
    holds what iterators over entries owe their consumers.
  \<^item> Writing: \<^verbatim>\<open>write/model.rs\<close> and \<^verbatim>\<open>write/header.rs\<close> (\<^theory_text>\<open>Write_Header\<close>), whose output the
    readers above take back (\<^theory_text>\<open>Written_Folders\<close>, \<^theory_text>\<open>Written_Streams\<close>, \<^theory_text>\<open>Written_Files\<close>,
    \<^theory_text>\<open>Written_Header\<close>).

  How state and operations correspond. A struct is a record with the fields of the source; a
  method that takes \<open>&mut self\<close> returns the new state beside its result; an iterator's
  \<open>next\<close> is a function from the state to an item and a state; a scanner is a parser that
  returns unit. Every error of the crate is a constructor of \<open>R7zError\<close> and every
  early return a branch; a panic is the value \<open>None\<close> of an option around the result. Words
  keep their width, so unchecked arithmetic wraps; \<open>usize\<close> is a natural number with its
  checked operations compared to \<open>2 ^ 64\<close>.

  What is a parameter. The parser library nom is not part of the repository: the four
  functions of it that the sources call are an argument \<open>N\<close> of every definition
  that uses them, of a type whose values behave as nom documents. The checksum of the crate
  crc32fast is a function argument, and so are the hash and the block modes of
  the AES coder, the memory estimates of the LZMA crates and the readers of the codec crates (the record
  \<open>codecs\<close>). What is assumed of them is a named hypothesis: a reader returns at most what
  it was asked for (\<open>obeys\<close>), a block mode is undone by its inverse. A boxed reader is a
  codatatype (\<open>dyn\<close>), its next answer and the reader after it. The operating system is the records
  \<open>file_env\<close> (positioned reads, the seekable reader) and \<open>file_system\<close> (paths, opening, lengths);
  their hypotheses are \<open>faithful\<close> (a read returns bytes of the place it was asked for),
  \<open>reliable\<close> (a read inside of the file delivers something) and \<open>measured\<close> (lengths are true). What a decoder of
  entries is connected to is the record \<open>engine\<close>, and what opening is done with the record \<open>host\<close>.

  What the lemmas show. The parsers are locale instances (\<open>parser\<close>,
  \<open>progress_parser\<close>, \<open>codec\<close>): what they return depends on what they consume only, they
  make progress, and an encoder is undone by its parser. The scanners are instances of
  \<open>scan_agrees\<close>: a scanner accepts exactly the inputs its parser accepts. The counters are
  instances of \<open>limited_counter\<close>. Above these: well-formedness of folders and graphs and
  that traversals of an accepted graph end and meet each stream once; that
  the walk over folders partitions the tables of a header and that a preflight guarantees
  it; that the ranges of substreams tile the folder; that selections and
  tables index within bounds; and that a written header is read back as the tables it was
  written from, through the scanners and the resolvers a reader uses. Of the readers
  (\<open>read_contract\<close>, \<open>content_source\<close> and their extensions) it is shown what they deliver, and of the walk over files that it does what one pass over two lists
  does (\<open>cursor\<close>). On top: an archive that opens is what its bytes say, and one laid out by the
  writer opens to what was written; a session serves the entries it is asked for, its
  verification never says more than was checked, and what extraction returns is the substream of the entry with its
  announced size and checksum, which are those the listing shows; a safe name stays below its destination
  on Unix, and on Windows unless one of its parts begins with a drive.

  Bounds and fuel. No fuel is used. A loop over a list or a table is a structural recursion
  or has a measure (the input that is left, the folders that are left, the coders not yet
  visited). A loop that reads until a reader is done may run forever if the reader does; it is
  a \<^theory_text>\<open>partial_function (option)\<close>, \<open>None\<close> means that it does not return, and the theorems
  about it show that it does return for the readers named in their hypotheses. The scanners agree
  with the parsers on inputs shorter than \<open>2 ^ 64\<close> bytes, which every slice is.

  Not modelled. The codecs, the branch filters, the ciphers and the hash are crates the
  sources call, so they are parameters, and \<^verbatim>\<open>compress_lzma\<close> and \<^verbatim>\<open>compress_lzma2\<close> in
  \<^verbatim>\<open>codec.rs\<close>, which only drive their encoders, are left out. Of the writer,
  \<^verbatim>\<open>write/mod.rs\<close>, \<^verbatim>\<open>write/encode.rs\<close> and \<^verbatim>\<open>write/lzma2.rs\<close> are left out except for the signature block: they drive these
  encoders on threads and spool to temporary files; the tables and headers they emit are
  modelled. Memory maps, the creation of extracted files (\<^verbatim>\<open>extract_all\<close> and \<^verbatim>\<open>extraction.rs\<close>),
  the identity an archive stamps on a copied folder, the text of error messages and
  failed reservations of memory are left out, and so are the wrappers of \<^verbatim>\<open>archive.rs\<close> that only fill in
  default options. The command line tools under \<^verbatim>\<open>bin/\<close>, the scripts, benches, fuzz targets and tests call the library;
  \<^verbatim>\<open>raw.rs\<close>, \<^verbatim>\<open>update.rs\<close> and \<^verbatim>\<open>lib.rs\<close> only re-export it.
\<close>

end
